(* ===== verification/Prelude.thy ===== *)
theory Prelude
  imports Main "HOL-Library.Word" "HOL-Library.Monad_Syntax"
begin

text \<open>
  Shared vocabulary of the development: the fixed-width integers of the C++ sources, byte
  buffers, the reading of \<open>option\<close> used throughout, and the generic lemmas on lists, options
  and words that the component theories rely on.

  \<^item> A \<open>uintN_t\<close> is an \<open>N word\<close>; a \<open>size_t\<close> that only counts or indexes is a \<open>nat\<close>.
  \<^item> A pair \<open>(const uint8_t* data, size_t len)\<close> is one list of bytes whose length is \<open>len\<close>.
  \<^item> An outer \<open>option\<close> on the result of code that dereferences a pointer records memory
    safety: \<open>None\<close> is an access outside the buffer (undefined behaviour in C++) and
    \<open>Some r\<close> is a run that returns \<open>r\<close>. A \<open>nullptr\<close> result is an inner \<open>None\<close>.
\<close>

unbundle bit_operations_syntax

type_synonym u8 = "8 word"
type_synonym u16 = "16 word"
type_synonym u32 = "32 word"
type_synonym u64 = "64 word"
type_synonym bytes = "u8 list"

declare of_nat_diff [simp del] drop_bit_or [simp del] drop_bit_and [simp del]

named_theorems wire "evaluation of reads and writes of big-endian fields in byte buffers"
named_theorems safe "a chain of reads fails only outside the buffer"
named_theorems sizes "lengths of serialized structures"

subsection \<open>Lists and options\<close>

lemma bind_eq_Some_iff:
  "(m \<bind> f) = Some y \<longleftrightarrow> (\<exists>x. m = Some x \<and> f x = Some y)"
  by (cases m) auto

lemma bind_neq_None_iff:
  "(m \<bind> f) \<noteq> None \<longleftrightarrow> (\<exists>x. m = Some x \<and> f x \<noteq> None)"
  by (cases m) auto

lemma bind_neq_NoneI [intro]:
  "m \<noteq> None \<Longrightarrow> (\<And>x. m = Some x \<Longrightarrow> f x \<noteq> None) \<Longrightarrow> (m \<bind> f) \<noteq> None"
  by (cases m) auto

lemma drop_append_length [simp]: "drop (length xs) (xs @ ys) = ys"
  by simp

lemma length_concat_const:
  "(\<And>x. x \<in> set xs \<Longrightarrow> length (f x) = n) \<Longrightarrow> length (concat (map f xs)) = n * length xs"
  by (induction xs) auto

lemma length_concat_map: "length (concat (map f xs)) = sum_list (map (\<lambda>x. length (f x)) xs)"
  by (induction xs) auto

lemma sum_list_dvd: "(\<And>x. x \<in> set xs \<Longrightarrow> d dvd f x) \<Longrightarrow> (d::nat) dvd sum_list (map f xs)"
  by (induction xs) auto

subsection \<open>Maps\<close>

text \<open>Every value of a map satisfies a predicate.\<close>

definition pred_map :: "('v \<Rightarrow> bool) \<Rightarrow> ('k \<rightharpoonup> 'v) \<Rightarrow> bool" where
  "pred_map P m \<longleftrightarrow> (\<forall>k v. m k = Some v \<longrightarrow> P v)"

lemma pred_map_empty [simp]: "pred_map P Map.empty"
  and pred_map_upd: "pred_map P m \<Longrightarrow> P v \<Longrightarrow> pred_map P (m(k \<mapsto> v))"
  and pred_map_del: "pred_map P m \<Longrightarrow> pred_map P (m(k := None))"
  and pred_mapD: "pred_map P m \<Longrightarrow> m k = Some v \<Longrightarrow> P v"
  by (auto simp: pred_map_def)

subsection \<open>Rounding up to a multiple of four\<close>

text \<open>The number of zero bytes \<open>(-offset) & 3\<close> that pads \<open>offset\<close> to a 32-bit boundary, and the
  padded size \<open>(size + 3) & ~3\<close>, as arithmetic on sizes.\<close>

definition pad4 :: "nat \<Rightarrow> nat" where
  "pad4 n = (4 - n mod 4) mod 4"

definition align4 :: "nat \<Rightarrow> nat" where
  "align4 n = (n + 3) div 4 * 4"

lemma nat_mod4_cases:
  fixes n :: nat
  obtains q where "n = 4 * q" | q where "n = 4 * q + 1" | q where "n = 4 * q + 2"
    | q where "n = 4 * q + 3"
proof -
  have "n = 4 * (n div 4) + n mod 4" and "n mod 4 < 4" by simp_all
  then consider "n = 4 * (n div 4)" | "n = 4 * (n div 4) + 1" | "n = 4 * (n div 4) + 2"
    | "n = 4 * (n div 4) + 3" by linarith
  then show thesis using that by cases blast+
qed

lemma align4_pad4: "align4 n = n + pad4 n"
  by (cases n rule: nat_mod4_cases) (simp_all add: align4_def pad4_def mod_Suc)

lemma pad4_less: "pad4 n < 4"
  by (simp add: pad4_def)

lemma dvd_align4 [simp]: "4 dvd align4 n"
  by (simp add: align4_def)

lemma align4_id: "4 dvd n \<Longrightarrow> align4 n = n"
  by (auto simp: align4_def elim: dvdE)

lemma pad4_eq_0_iff: "pad4 n = 0 \<longleftrightarrow> 4 dvd n"
  by (cases n rule: nat_mod4_cases) (simp_all add: pad4_def dvd_eq_mod_eq_0 mod_Suc)

lemma align4_mono: "m \<le> n \<Longrightarrow> align4 m \<le> align4 n"
  by (simp add: align4_def div_le_mono)

lemma le_align4: "n \<le> align4 n"
  by (simp add: align4_pad4)

subsection \<open>Words\<close>

lemma word_eq_iff_bits:
  fixes a b :: "'a::len word"
  shows "(\<And>n. n < LENGTH('a) \<Longrightarrow> bit a n = bit b n) \<Longrightarrow> a = b"
  by (rule bit_word_eqI)

lemma unat_less: "unat w < 2 ^ LENGTH('a)" for w :: "'a::len word"
  by (rule unsigned_less)

lemma unat_ucast_le:
  fixes x :: "'a::len word"
  assumes "LENGTH('a) \<le> LENGTH('b::len)"
  shows "unat (ucast x :: 'b word) = unat x"
proof -
  have "unat x < 2 ^ LENGTH('b)"
    using unat_less [of x] assms by (meson order_less_le_trans one_le_numeral power_increasing)
  then show ?thesis by (simp add: unsigned_ucast_eq take_bit_nat_eq_self)
qed

lemma unat_of_nat_less:
  "n < 2 ^ LENGTH('a) \<Longrightarrow> unat (of_nat n :: 'a::len word) = n"
  by (simp add: unat_of_nat)

lemma less_exp_bit: "w < 2 ^ n \<Longrightarrow> bit w m \<Longrightarrow> m < n" for w :: "'a::len word"
  by (metis less_mask_eq bit_and_iff bit_mask_iff)

end
