(* ===== verification/Circular.thy ===== *)
theory Circular
  imports Prelude
begin

text \<open>
  Serial-number comparison on the circle of \<open>N\<close>-bit words. RTP sequence numbers, timestamps and
  picture ids wrap around, so the sources compare them by their distance modulo \<open>2 ^ N\<close>. The
  locale \<open>circular_order\<close> is the contract that every such comparison of the sources meets
  (they differ only on words exactly half a circle apart), with the consequences its users need.
\<close>

lemma mod_0_between: "s mod n = 0 \<Longrightarrow> 0 < s \<Longrightarrow> s < 2 * n \<Longrightarrow> s = n" for s n :: nat
  by (auto elim!: dvdE simp: dvd_eq_mod_eq_0 [symmetric])

lemma unat_diff_swap:
  fixes a b :: "'a::len word"
  assumes "a \<noteq> b"
  shows "unat (a - b) + unat (b - a) = 2 ^ LENGTH('a)"
proof -
  have "unat ((a - b) + (b - a)) = 0" by simp
  then have "(unat (a - b) + unat (b - a)) mod 2 ^ LENGTH('a) = 0"
    by (simp only: unat_word_ariths)
  moreover have "0 < unat (a - b)" using assms by (simp add: unat_gt_0)
  moreover have "unat (a - b) < 2 ^ LENGTH('a)" "unat (b - a) < 2 ^ LENGTH('a)" by (rule unat_less)+
  ultimately show ?thesis using mod_0_between [of "unat (a - b) + unat (b - a)" "2 ^ LENGTH('a)"] by linarith
qed

text \<open>Two words are equal, or one is less than half a circle ahead of the other, or they are
  exactly half a circle apart.\<close>

lemma two_power_half: "(2::nat) ^ LENGTH('a::len) = 2 * 2 ^ (LENGTH('a) - 1)"
  by (metis len_gt_0 power_eq_if not_gr_zero)

lemma circ_cases:
  fixes a b :: "'a::len word"
  obtains (eq) "a = b"
    | (ahead) "0 < unat (a - b)" "unat (a - b) < 2 ^ (LENGTH('a) - 1)"
        "2 ^ (LENGTH('a) - 1) < unat (b - a)" "a \<noteq> b"
    | (behind) "0 < unat (b - a)" "unat (b - a) < 2 ^ (LENGTH('a) - 1)"
        "2 ^ (LENGTH('a) - 1) < unat (a - b)" "a \<noteq> b"
    | (half) "unat (a - b) = 2 ^ (LENGTH('a) - 1)" "unat (b - a) = 2 ^ (LENGTH('a) - 1)" "a \<noteq> b"
proof (cases "a = b")
  case False
  note sum = unat_diff_swap [OF False] and half = two_power_half [where 'a = 'a]
  have "0 < unat (a - b)" "0 < unat (b - a)" using False by (simp_all add: unat_gt_0)
  then show thesis
    using sum half ahead [OF _ _ _ False] behind [OF _ _ _ False] that(4) [OF _ _ False] by linarith
qed (rule eq)

locale circular_order =
  fixes gt :: "'a::len word \<Rightarrow> 'a word \<Rightarrow> bool"
  assumes gt_near: "0 < unat (a - b) \<Longrightarrow> unat (a - b) < 2 ^ (LENGTH('a) - 1) \<Longrightarrow> gt a b"
    and gt_asym: "gt a b \<Longrightarrow> \<not> gt b a"
    and gt_total: "a \<noteq> b \<Longrightarrow> gt a b \<or> gt b a"
begin

lemma gt_irrefl: "\<not> gt a a"
  using gt_asym by blast

lemma gt_iff:
  assumes "unat (a - b) \<noteq> 2 ^ (LENGTH('a) - 1)"
  shows "gt a b \<longleftrightarrow> 0 < unat (a - b) \<and> unat (a - b) < 2 ^ (LENGTH('a) - 1)"
  using assms gt_near [of a b] gt_near [of b a] gt_asym [of a b] gt_irrefl [of a]
    two_power_half [where 'a = 'a]
  by (cases a b rule: circ_cases) auto

lemma gt_trichotomy: "gt a b \<and> \<not> gt b a \<and> a \<noteq> b \<or> gt b a \<and> \<not> gt a b \<and> a \<noteq> b \<or> a = b \<and> \<not> gt a b"
  using gt_asym gt_total gt_irrefl by blast

lemma gt_add: "0 < unat k \<Longrightarrow> unat k < 2 ^ (LENGTH('a) - 1) \<Longrightarrow> gt (a + k) a"
  by (rule gt_near) simp_all

text \<open>Inside a window of half a circle that starts at \<open>r\<close> the comparison is the order of the
  distances from \<open>r\<close>; in particular it is transitive there.\<close>

lemma gt_window:
  assumes x: "unat (x - r) < 2 ^ (LENGTH('a) - 1)" and y: "unat (y - r) < 2 ^ (LENGTH('a) - 1)"
  shows "gt x y \<longleftrightarrow> unat (y - r) < unat (x - r)"
proof -
  have near: "gt u v" if "unat (v - r) < unat (u - r)" "unat (u - r) < 2 ^ (LENGTH('a) - 1)" for u v
  proof -
    have "u - v = (u - r) - (v - r)" by simp
    moreover have "v - r \<le> u - r" using that(1) by (simp add: word_le_nat_alt)
    ultimately have "unat (u - v) = unat (u - r) - unat (v - r)" by (simp only: unat_sub)
    with that show ?thesis by (intro gt_near) auto
  qed
  show ?thesis
  proof (cases "unat (x - r)" "unat (y - r)" rule: linorder_cases)
    case less
    with near [of x y] y gt_asym show ?thesis by auto
  next
    case equal
    then have "x = y" by (simp add: word_unat_eq_iff [symmetric])
    then show ?thesis by (simp add: gt_irrefl)
  next
    case greater
    with near [of y x] x show ?thesis by auto
  qed
qed

lemma gt_window_trans:
  assumes "unat (x - r) < 2 ^ (LENGTH('a) - 1)" "unat (y - r) < 2 ^ (LENGTH('a) - 1)"
    "unat (z - r) < 2 ^ (LENGTH('a) - 1)"
  shows "gt x y \<Longrightarrow> gt y z \<Longrightarrow> gt x z"
  using assms by (simp add: gt_window [of _ r])

end

end
