(* ===== verification/Bytes.thy ===== *)
theory Bytes
  imports Circular
begin

text \<open>
  \<^verbatim>\<open>Utils::Byte\<close>, \<^verbatim>\<open>Utils::Bits\<close>, \<^verbatim>\<open>Utils::Time\<close> and \<^verbatim>\<open>Utils::Crypto::GetRandomUInt\<close>
  (\<^verbatim>\<open>include/Utils.hpp\<close>): big-endian reads and writes at an offset of a buffer, padding,
  population count, NTP and RTP time arithmetic, the linear congruential generator.
  A read or write that leaves the buffer is \<open>None\<close>.

  The locale \<open>wire_field\<close> states what every user of these accessors relies on: a field
  of fixed width whose write can be read back, whose reads succeed exactly inside the buffer
  and do not depend on what lies around the field. It is interpreted for each width.
\<close>

subsection \<open>Utils::Byte, reads\<close>

definition Get1Byte :: "bytes \<Rightarrow> nat \<Rightarrow> u8 option" where
  "Get1Byte d i = (if i < length d then Some (d ! i) else None)"

definition Get2Bytes :: "bytes \<Rightarrow> nat \<Rightarrow> u16 option" where
  "Get2Bytes d i = do {
     b1 \<leftarrow> Get1Byte d (i + 1);
     b0 \<leftarrow> Get1Byte d i;
     Some (ucast b1 OR push_bit 8 (ucast b0)) }"

definition Get3Bytes :: "bytes \<Rightarrow> nat \<Rightarrow> u32 option" where
  "Get3Bytes d i = do {
     b2 \<leftarrow> Get1Byte d (i + 2);
     b1 \<leftarrow> Get1Byte d (i + 1);
     b0 \<leftarrow> Get1Byte d i;
     Some (ucast b2 OR push_bit 8 (ucast b1) OR push_bit 16 (ucast b0)) }"

definition Get4Bytes :: "bytes \<Rightarrow> nat \<Rightarrow> u32 option" where
  "Get4Bytes d i = do {
     b3 \<leftarrow> Get1Byte d (i + 3);
     b2 \<leftarrow> Get1Byte d (i + 2);
     b1 \<leftarrow> Get1Byte d (i + 1);
     b0 \<leftarrow> Get1Byte d i;
     Some (ucast b3 OR push_bit 8 (ucast b2) OR push_bit 16 (ucast b1) OR push_bit 24 (ucast b0)) }"

definition Get8Bytes :: "bytes \<Rightarrow> nat \<Rightarrow> u64 option" where
  "Get8Bytes d i = do {
     hi \<leftarrow> Get4Bytes d i;
     lo \<leftarrow> Get4Bytes d (i + 4);
     Some (push_bit 32 (ucast hi) OR ucast lo) }"

subsection \<open>Utils::Byte, writes\<close>

definition Set1Byte :: "bytes \<Rightarrow> nat \<Rightarrow> u8 \<Rightarrow> bytes option" where
  "Set1Byte d i v = (if i < length d then Some (d[i := v]) else None)"

definition Set2Bytes :: "bytes \<Rightarrow> nat \<Rightarrow> u16 \<Rightarrow> bytes option" where
  "Set2Bytes d i v = do {
     d \<leftarrow> Set1Byte d (i + 1) (ucast v);
     Set1Byte d i (ucast (drop_bit 8 v)) }"

definition Set3Bytes :: "bytes \<Rightarrow> nat \<Rightarrow> u32 \<Rightarrow> bytes option" where
  "Set3Bytes d i v = do {
     d \<leftarrow> Set1Byte d (i + 2) (ucast v);
     d \<leftarrow> Set1Byte d (i + 1) (ucast (drop_bit 8 v));
     Set1Byte d i (ucast (drop_bit 16 v)) }"

definition Set4Bytes :: "bytes \<Rightarrow> nat \<Rightarrow> u32 \<Rightarrow> bytes option" where
  "Set4Bytes d i v = do {
     d \<leftarrow> Set1Byte d (i + 3) (ucast v);
     d \<leftarrow> Set1Byte d (i + 2) (ucast (drop_bit 8 v));
     d \<leftarrow> Set1Byte d (i + 1) (ucast (drop_bit 16 v));
     Set1Byte d i (ucast (drop_bit 24 v)) }"

definition Set8Bytes :: "bytes \<Rightarrow> nat \<Rightarrow> u64 \<Rightarrow> bytes option" where
  "Set8Bytes d i v = do {
     d \<leftarrow> Set1Byte d (i + 7) (ucast v);
     d \<leftarrow> Set1Byte d (i + 6) (ucast (drop_bit 8 v));
     d \<leftarrow> Set1Byte d (i + 5) (ucast (drop_bit 16 v));
     d \<leftarrow> Set1Byte d (i + 4) (ucast (drop_bit 24 v));
     d \<leftarrow> Set1Byte d (i + 3) (ucast (drop_bit 32 v));
     d \<leftarrow> Set1Byte d (i + 2) (ucast (drop_bit 40 v));
     d \<leftarrow> Set1Byte d (i + 1) (ucast (drop_bit 48 v));
     Set1Byte d i (ucast (drop_bit 56 v)) }"

text \<open>The bytes a write leaves in the buffer, in increasing address order. A serializer that
  fills consecutive offsets of its output buffer is modelled as the list of these bytes.\<close>

definition put2 :: "u16 \<Rightarrow> bytes" where
  "put2 v = [ucast (drop_bit 8 v), ucast v]"

definition put3 :: "u32 \<Rightarrow> bytes" where
  "put3 v = [ucast (drop_bit 16 v), ucast (drop_bit 8 v), ucast v]"

definition put4 :: "u32 \<Rightarrow> bytes" where
  "put4 v = [ucast (drop_bit 24 v), ucast (drop_bit 16 v), ucast (drop_bit 8 v), ucast v]"

definition put8 :: "u64 \<Rightarrow> bytes" where
  "put8 v = put4 (ucast (drop_bit 32 v)) @ put4 (ucast v)"

subsection \<open>Copying memory\<close>

text \<open>\<open>memmove\<close> within a buffer, \<open>memcpy\<close> of a separate source into a buffer, and a copy out of one.\<close>

definition memmove :: "bytes \<Rightarrow> nat \<Rightarrow> nat \<Rightarrow> nat \<Rightarrow> bytes option" where
  "memmove m dst src n =
     (if src + n \<le> length m \<and> dst + n \<le> length m
      then Some (take dst m @ take n (drop src m) @ drop (dst + n) m) else None)"

definition memcpy_in :: "bytes \<Rightarrow> nat \<Rightarrow> bytes \<Rightarrow> nat \<Rightarrow> bytes option" where
  "memcpy_in m dst src n =
     (if n \<le> length src \<and> dst + n \<le> length m then Some (take dst m @ take n src @ drop (dst + n) m) else None)"

definition read_bytes :: "bytes \<Rightarrow> nat \<Rightarrow> nat \<Rightarrow> bytes option" where
  "read_bytes m i n = (if i + n \<le> length m then Some (take n (drop i m)) else None)"

subsection \<open>Utils::Byte::PadTo4Bytes, Utils::Bits\<close>

definition PadTo4Bytes16 :: "u16 \<Rightarrow> u16" where
  "PadTo4Bytes16 sz = (if sz AND 0x03 \<noteq> 0 then (sz AND 0xFFFC) + 4 else sz)"

definition PadTo4Bytes32 :: "u32 \<Rightarrow> u32" where
  "PadTo4Bytes32 sz = (if sz AND 0x03 \<noteq> 0 then (sz AND 0xFFFFFFFC) + 4 else sz)"

definition CountSetBits :: "u16 \<Rightarrow> nat" where
  "CountSetBits m = length (filter (bit m) [0..<16])"

subsection \<open>Utils::Crypto::GetRandomUInt\<close>

text \<open>The class state \<open>seed\<close> is passed explicitly and returned updated.\<close>

definition GetRandomUInt :: "u32 \<Rightarrow> u32 \<Rightarrow> u32 \<Rightarrow> u32 \<times> u32" where
  "GetRandomUInt seed mn mx =
     (let seed = 214013 * seed + 2531011;
          mx = (if mx = 4294967295 then mx - 1 else mx);
          mn = (if mn > mx then mx else mn)
      in (((drop_bit 4 seed) AND 0x7FFF7FFF) mod (mx - mn + 1) + mn, seed))"

subsection \<open>Utils::Time\<close>

record Ntp =
  seconds :: u32
  fractions :: u32

text \<open>
  The two conversions go through \<open>double\<close>. In \<open>Ntp2TimeMs\<close> the product \<open>fractions * 1000\<close> is
  below \<open>2 ^ 42\<close> and the divisor is a power of two, so the quotient is exact and \<open>std::round\<close>
  rounds it half up. In \<open>TimeMs2Ntp\<close> the quotient \<open>(ms % 1000) / 1000\<close> is exact when it is a
  multiple of 1/8 and otherwise its product with \<open>2 ^ 32\<close> is at least 1/125 away from an
  integer, far more than the rounding error, so the truncation is the integer division.
\<close>

definition TimeMs2Ntp :: "u64 \<Rightarrow> Ntp" where
  "TimeMs2Ntp ms =
     \<lparr>seconds = ucast (ms div 1000), fractions = ucast ((ms mod 1000) * 2 ^ 32 div 1000)\<rparr>"

definition Ntp2TimeMs :: "Ntp \<Rightarrow> u64" where
  "Ntp2TimeMs ntp =
     ucast (seconds ntp) * 1000 + (ucast (fractions ntp) * 1000 + 2 ^ 31) div 2 ^ 32"

definition IsNewerTimestamp :: "u32 \<Rightarrow> u32 \<Rightarrow> bool" where
  "IsNewerTimestamp timestamp prevTimestamp =
     (if timestamp - prevTimestamp = 0x80000000 then timestamp > prevTimestamp
      else timestamp \<noteq> prevTimestamp \<and> timestamp - prevTimestamp < 0x80000000)"

definition LatestTimestamp :: "u32 \<Rightarrow> u32 \<Rightarrow> u32" where
  "LatestTimestamp timestamp1 timestamp2 =
     (if IsNewerTimestamp timestamp1 timestamp2 then timestamp1 else timestamp2)"

definition TimeMsToAbsSendTime :: "u64 \<Rightarrow> u32" where
  "TimeMsToAbsSendTime ms = ucast ((push_bit 18 ms + 500) div 1000) AND 0x00FFFFFF"

subsection \<open>The contract of a fixed-width field\<close>

locale wire_field =
  fixes get :: "bytes \<Rightarrow> nat \<Rightarrow> 'v option"
    and put :: "'v \<Rightarrow> bytes"
    and width :: nat
  assumes width_pos: "0 < width"
    and length_put: "length (put v) = width"
    and get_defined: "get d i \<noteq> None \<longleftrightarrow> i + width \<le> length d"
    and get_put: "get (put v @ ys) 0 = Some v"
    and put_get: "get d 0 = Some v \<Longrightarrow> put v = take width d"
    and get_drop: "get d (j + i) = get (drop j d) i"
begin

lemma get_put_mid: "get (xs @ put v @ ys) (length xs) = Some v"
  using get_drop [of "xs @ put v @ ys" "length xs" 0] by (simp add: get_put)

lemma put_inj: "put v = put w \<Longrightarrow> v = w"
  using get_put [of v "[]"] get_put [of w "[]"] by simp

lemma get_ex: "i + width \<le> length d \<Longrightarrow> \<exists>v. get d i = Some v"
  using get_defined [of d i] by auto

lemma get_append: "i + width \<le> length xs \<Longrightarrow> get (xs @ ys) i = get xs i"
proof -
  assume i: "i + width \<le> length xs"
  then obtain v where v: "get xs i = Some v" using get_ex by blast
  then have "get (drop i xs) 0 = Some v" using get_drop [of xs i 0] by simp
  then have "put v = take width (drop i xs)" by (rule put_get)
  moreover from i have "take width (drop i xs) @ drop width (drop i xs) @ ys = drop i (xs @ ys)"
    by (metis append.assoc append_take_drop_id drop_append diff_is_0_eq drop_0 add_leD1)
  ultimately have "get (drop i (xs @ ys)) 0 = Some v" using get_put by metis
  with v show ?thesis using get_drop [of "xs @ ys" i 0] by simp
qed

lemma get_append2: "get (xs @ d) (length xs + i) = get d i"
  by (simp add: get_drop)

lemma get_at: "i + width \<le> length d \<Longrightarrow> get d i = get (take width (drop i d)) 0"
proof -
  assume i: "i + width \<le> length d"
  have "get d i = get (drop i d) 0" using get_append2 [of "take i d" "drop i d" 0] i by simp
  also have "\<dots> = get (take width (drop i d)) 0"
    using get_append [of 0 "take width (drop i d)" "drop width (drop i d)"] i by (simp del: drop_drop)
  finally show ?thesis .
qed

lemma get_cong:
  assumes "length d' = length d" and "\<And>j. i \<le> j \<Longrightarrow> j < i + width \<Longrightarrow> d' ! j = d ! j"
  shows "get d' i = get d i"
proof (cases "i + width \<le> length d")
  case True
  then have "take width (drop i d') = take width (drop i d)" using assms by (intro nth_equalityI) auto
  with True get_at [of i d] get_at [of i d'] assms(1) show ?thesis by simp
next
  case False
  then have "\<not> i + width \<le> length d'" using assms(1) by simp
  with False show ?thesis by (metis get_defined not_None_eq)
qed

lemma get_take: "i + width \<le> n \<Longrightarrow> n \<le> length d \<Longrightarrow> get (take n d) i = get d i"
  using get_append [of i "take n d" "drop n d"] by simp

lemma get_skip: "length xs \<le> i \<Longrightarrow> get (xs @ d) i = get d (i - length xs)"
  using get_append2 [of xs d "i - length xs"] by simp

lemma get_skip1: "0 < i \<Longrightarrow> get (b # d) i = get d (i - 1)"
  using get_skip [of "[b]" i d] by simp

lemma get_bind_None:
  "(get d i \<bind> f) = None \<longleftrightarrow> length d < i + width \<or> f (the (get d i)) = None"
  using get_defined [of d i] by (cases "get d i") auto

lemma get_is_None: "get d i = None \<longleftrightarrow> length d < i + width"
  using get_defined [of d i] by auto

lemma get_None: "length d < i + width \<Longrightarrow> get d i = None"
  using get_defined [of d i] by auto

end

subsection \<open>Every accessor width meets the contract\<close>

lemma Get1Byte_0 [wire, simp]: "Get1Byte (b # d) 0 = Some b"
  by (simp add: Get1Byte_def)

lemma Get1Byte_Nil [simp]: "Get1Byte [] i = None"
  by (simp add: Get1Byte_def)

lemma Get1Byte_drop: "Get1Byte d (j + i) = Get1Byte (drop j d) i"
  by (simp add: Get1Byte_def) arith

lemma Get1Byte_Some_iff: "Get1Byte d i = Some v \<longleftrightarrow> i < length d \<and> v = d ! i"
  by (auto simp: Get1Byte_def)

interpretation byte1: wire_field Get1Byte "\<lambda>v. [v]" 1
  by unfold_locales
    (auto simp: Get1Byte_def Get1Byte_drop take_Suc_conv_app_nth hd_conv_nth neq_Nil_conv
      split: if_splits)

lemma Get2Bytes_eq:
  "Get2Bytes d i = (if i + 2 \<le> length d
     then Some (ucast (d ! (i + 1)) OR push_bit 8 (ucast (d ! i))) else None)"
  by (simp add: Get2Bytes_def Get1Byte_def)

lemma Get3Bytes_eq:
  "Get3Bytes d i = (if i + 3 \<le> length d
     then Some (ucast (d ! (i + 2)) OR push_bit 8 (ucast (d ! (i + 1))) OR
       push_bit 16 (ucast (d ! i))) else None)"
  by (simp add: Get3Bytes_def Get1Byte_def)

lemma Get4Bytes_eq:
  "Get4Bytes d i = (if i + 4 \<le> length d
     then Some (ucast (d ! (i + 3)) OR push_bit 8 (ucast (d ! (i + 2))) OR
       push_bit 16 (ucast (d ! (i + 1))) OR push_bit 24 (ucast (d ! i))) else None)"
  by (simp add: Get4Bytes_def Get1Byte_def)

lemmas GetBytes_eq = Get2Bytes_eq Get3Bytes_eq Get4Bytes_eq

text \<open>Assembling and taking apart the bytes of a word.\<close>

lemma assemble2: "(ucast (ucast v :: u8) OR push_bit 8 (ucast (ucast (drop_bit 8 v) :: u8)) :: u16) = v"
  by (rule bit_word_eqI) (auto simp: bit_simps)

lemma assemble4:
  "(ucast (ucast v :: u8) OR push_bit 8 (ucast (ucast (drop_bit 8 v) :: u8)) OR
    push_bit 16 (ucast (ucast (drop_bit 16 v) :: u8)) OR
    push_bit 24 (ucast (ucast (drop_bit 24 v) :: u8)) :: u32) = v"
proof (rule bit_word_eqI)
  fix n assume "n < LENGTH(32)"
  then show "bit (ucast (ucast v :: u8) OR push_bit 8 (ucast (ucast (drop_bit 8 v) :: u8)) OR
    push_bit 16 (ucast (ucast (drop_bit 16 v) :: u8)) OR
    push_bit 24 (ucast (ucast (drop_bit 24 v) :: u8)) :: u32) n = bit v n"
    by (cases "24 \<le> n"; cases "16 \<le> n") (auto simp: bit_simps)
qed

lemma bit_beyond: "LENGTH('a) \<le> n \<Longrightarrow> \<not> bit (w :: 'a::len word) n"
  using bit_imp_le_length by fastforce

lemma disassemble2:
  fixes b0 b1 :: u8
  defines "w \<equiv> ucast b1 OR push_bit 8 (ucast b0) :: u16"
  shows "ucast (drop_bit 8 w) = b0" and "ucast w = b1"
  unfolding w_def by (rule bit_word_eqI; auto simp: bit_simps bit_beyond)+

lemma disassemble4:
  fixes b0 b1 b2 b3 :: u8
  defines "w \<equiv> ucast b3 OR push_bit 8 (ucast b2) OR push_bit 16 (ucast b1) OR push_bit 24 (ucast b0) :: u32"
  shows "ucast (drop_bit 24 w) = b0" and "ucast (drop_bit 16 w) = b1"
    and "ucast (drop_bit 8 w) = b2" and "ucast w = b3"
  unfolding w_def by (rule bit_word_eqI; auto simp: bit_simps bit_beyond)+

lemma assemble3:
  "(ucast (ucast v :: u8) OR push_bit 8 (ucast (ucast (drop_bit 8 v) :: u8)) OR
    push_bit 16 (ucast (ucast (drop_bit 16 v) :: u8)) :: u32) = take_bit 24 v"
proof (rule bit_word_eqI)
  fix n assume "n < LENGTH(32)"
  then show "bit (ucast (ucast v :: u8) OR push_bit 8 (ucast (ucast (drop_bit 8 v) :: u8)) OR
    push_bit 16 (ucast (ucast (drop_bit 16 v) :: u8)) :: u32) n = bit (take_bit 24 v) n"
    by (cases "16 \<le> n") (auto simp: bit_simps)
qed

lemma take_width: "take 2 d = [d ! 0, d ! 1]" if "2 \<le> length d" for d :: "'a list"
  using that by (auto simp: numeral_2_eq_2 Suc_le_length_iff)

lemma take_width4: "take 4 d = [d ! 0, d ! 1, d ! 2, d ! 3]" if "4 \<le> length d" for d :: "'a list"
  using that by (auto simp: numeral_eq_Suc Suc_le_length_iff)

interpretation byte2: wire_field Get2Bytes put2 2
proof
  show "put2 v = take 2 d" if "Get2Bytes d 0 = Some v" for d v
    using that by (auto simp: Get2Bytes_eq put2_def take_width disassemble2 split: if_splits)
  show "Get2Bytes d (j + i) = Get2Bytes (drop j d) i" for d j i
    by (auto simp: Get2Bytes_eq add.assoc)
qed (auto simp: Get2Bytes_eq put2_def assemble2)

interpretation byte4: wire_field Get4Bytes put4 4
proof
  show "put4 v = take 4 d" if "Get4Bytes d 0 = Some v" for d v
    using that by (auto simp: Get4Bytes_eq put4_def take_width4 disassemble4 numeral_2_eq_2 split: if_splits)
  show "Get4Bytes d (j + i) = Get4Bytes (drop j d) i" for d j i
    by (auto simp: Get4Bytes_eq add.assoc)
qed (auto simp: Get4Bytes_eq put4_def assemble4)

lemma assemble8: "(push_bit 32 (ucast (ucast (drop_bit 32 v) :: u32)) OR ucast (ucast v :: u32) :: u64) = v"
  by (rule bit_word_eqI) (auto simp: bit_simps)

lemma disassemble8:
  fixes hi lo :: u32
  defines "w \<equiv> push_bit 32 (ucast hi) OR ucast lo :: u64"
  shows "ucast (drop_bit 32 w) = hi" and "ucast w = lo"
  unfolding w_def by (rule bit_word_eqI; auto simp: bit_simps bit_beyond)+

interpretation byte8: wire_field Get8Bytes put8 8
proof
  show "length (put8 v) = 8" for v by (simp add: put8_def byte4.length_put)
  show "Get8Bytes d i \<noteq> None \<longleftrightarrow> i + 8 \<le> length d" for d i
    using byte4.get_defined [of d i] byte4.get_defined [of d "i + 4"]
    by (auto simp: Get8Bytes_def split: bind_splits)
  show "Get8Bytes (put8 v @ ys) 0 = Some v" for v ys
    using byte4.get_put [of "ucast (drop_bit 32 v)" "put4 (ucast v) @ ys"]
      byte4.get_put_mid [of "put4 (ucast (drop_bit 32 v))" "ucast v" ys]
    by (simp add: Get8Bytes_def put8_def byte4.length_put assemble8)
  show "Get8Bytes d (j + i) = Get8Bytes (drop j d) i" for d j i
    using byte4.get_drop [of d j i] byte4.get_drop [of d j "i + 4"]
    by (simp add: Get8Bytes_def add.assoc)
  show "put8 v = take 8 d" if "Get8Bytes d 0 = Some v" for d v
  proof -
    from that obtain hi lo where hi: "Get4Bytes d 0 = Some hi" and lo: "Get4Bytes (drop 4 d) 0 = Some lo"
      and v: "v = push_bit 32 (ucast hi) OR ucast lo"
      using byte4.get_drop [of d 4 0] by (auto simp: Get8Bytes_def bind_eq_Some_iff)
    have "put8 v = put4 hi @ put4 lo" by (simp add: put8_def v disassemble8)
    also have "\<dots> = take 4 d @ take 4 (drop 4 d)"
      using byte4.put_get [OF hi] byte4.put_get [OF lo] by simp
    finally show ?thesis by (simp add: take_add [symmetric])
  qed
qed simp

subsection \<open>Evaluating reads of what was written\<close>

lemmas get_written [wire] = byte1.get_put [simplified] byte2.get_put byte4.get_put byte8.get_put

lemma get_skip4 [wire]:
  assumes "4 \<le> i"
  shows "Get1Byte (put4 v @ d) i = Get1Byte d (i - 4)" "Get2Bytes (put4 v @ d) i = Get2Bytes d (i - 4)"
    "Get4Bytes (put4 v @ d) i = Get4Bytes d (i - 4)" "Get8Bytes (put4 v @ d) i = Get8Bytes d (i - 4)"
  using assms byte1.get_skip [of "put4 v"] byte2.get_skip [of "put4 v"] byte4.get_skip [of "put4 v"]
    byte8.get_skip [of "put4 v"]
  by (simp_all add: byte4.length_put)

lemma get_skip2 [wire]:
  assumes "2 \<le> i"
  shows "Get1Byte (put2 v @ d) i = Get1Byte d (i - 2)" "Get2Bytes (put2 v @ d) i = Get2Bytes d (i - 2)"
    "Get4Bytes (put2 v @ d) i = Get4Bytes d (i - 2)" "Get8Bytes (put2 v @ d) i = Get8Bytes d (i - 2)"
  using assms byte1.get_skip [of "put2 v"] byte2.get_skip [of "put2 v"] byte4.get_skip [of "put2 v"]
    byte8.get_skip [of "put2 v"]
  by (simp_all add: byte2.length_put)

lemmas get_skip_byte [wire] = byte1.get_skip1 byte2.get_skip1 byte4.get_skip1 byte8.get_skip1

lemma assemble3_low:
  "v < 2 ^ 24 \<Longrightarrow> ucast (ucast v :: u8) OR push_bit 8 (ucast (ucast (drop_bit 8 v) :: u8)) OR
    push_bit 16 (ucast (ucast (drop_bit 16 v) :: u8)) = v" for v :: u32
  unfolding assemble3 take_bit_eq_mask by (rule less_mask_eq)

lemmas put_sizes [sizes] = byte2.length_put byte4.length_put byte8.length_put

lemmas get_is_Nones [safe] = byte1.get_is_None byte2.get_is_None byte4.get_is_None

lemmas get_bind_Nones [safe] = byte1.get_bind_None byte2.get_bind_None byte4.get_bind_None
  byte8.get_bind_None

subsection \<open>Writes into a buffer\<close>

lemma Set1Byte_mid: "Set1Byte (xs @ b # ys) (length xs) v = Some (xs @ v # ys)"
  by (simp add: Set1Byte_def)

lemma Set2Bytes_eq:
  "Set2Bytes d i v = (if i + 2 \<le> length d then Some (take i d @ put2 v @ drop (i + 2) d) else None)"
  by (auto simp: Set2Bytes_def Set1Byte_def put2_def intro!: nth_equalityI
      simp: nth_list_update nth_append nth_Cons' less_diff_conv intro!: arg_cong [of _ _ "(!) d"])

lemma Set4Bytes_eq:
  "Set4Bytes d i v = (if i + 4 \<le> length d then Some (take i d @ put4 v @ drop (i + 4) d) else None)"
  by (auto simp: Set4Bytes_def Set1Byte_def put4_def intro!: nth_equalityI
      simp: nth_list_update nth_append nth_Cons' less_diff_conv)

lemma put8_eq:
  "put8 v = [ucast (drop_bit 56 v), ucast (drop_bit 48 v), ucast (drop_bit 40 v), ucast (drop_bit 32 v),
     ucast (drop_bit 24 v), ucast (drop_bit 16 v), ucast (drop_bit 8 v), ucast v]"
  unfolding put8_def put4_def append.simps list.inject
  by (intro conjI TrueI refl; rule bit_word_eqI; auto simp: bit_simps)

lemma Set8Bytes_eq:
  "Set8Bytes d i v = (if i + 8 \<le> length d then Some (take i d @ put8 v @ drop (i + 8) d) else None)"
  by (auto simp: Set8Bytes_def Set1Byte_def put8_eq intro!: nth_equalityI
      simp: nth_list_update nth_append nth_Cons' less_diff_conv)

lemma take_put_drop_nth:
  "i + length p \<le> length d \<Longrightarrow> j < i \<or> i + length p \<le> j \<Longrightarrow> j < length d \<Longrightarrow>
     (take i d @ p @ drop (i + length p) d) ! j = d ! j"
  by (auto simp: nth_append)

text \<open>A value written with \<open>Set8Bytes\<close> inside a buffer is read back by \<open>Get8Bytes\<close> (and its two
  halves by \<open>Get4Bytes\<close>), the buffer keeps its length, and no byte outside the eight is changed.\<close>

lemma Set8Bytes_roundtrip:
  assumes "Set8Bytes d i v = Some d'"
  shows "Get8Bytes d' i = Some v \<and> Get4Bytes d' i = Some (ucast (drop_bit 32 v)) \<and>
    Get4Bytes d' (i + 4) = Some (ucast v) \<and> length d' = length d \<and>
    (\<forall>j < length d. j < i \<or> i + 8 \<le> j \<longrightarrow> d' ! j = d ! j)"
proof (intro conjI allI impI)
  from assms have i: "i + 8 \<le> length d" and d': "d' = take i d @ put8 v @ drop (i + 8) d"
    by (auto simp: Set8Bytes_eq split: if_splits)
  have len: "length (take i d) = i" using i by simp
  show "Get8Bytes d' i = Some v"
    using byte8.get_put_mid [of "take i d" v "drop (i + 8) d"] by (simp only: d' len)
  show "Get4Bytes d' i = Some (ucast (drop_bit 32 v))"
    using byte4.get_put_mid [of "take i d" "ucast (drop_bit 32 v)" "put4 (ucast v) @ drop (i + 8) d"]
    by (simp only: d' len put8_def append_assoc)
  show "Get4Bytes d' (i + 4) = Some (ucast v)"
    using byte4.get_put_mid [of "take i d @ put4 (ucast (drop_bit 32 v))" "ucast v" "drop (i + 8) d"]
    by (simp add: d' i [THEN add_leD1] min_absorb2 put8_def byte4.length_put)
  show "length d' = length d" using i by (simp add: d' byte8.length_put)
  show "d' ! j = d ! j" if "j < length d" and "j < i \<or> i + 8 \<le> j" for j
    using take_put_drop_nth [of i "put8 v" d j] that i by (simp add: d' byte8.length_put)
qed

subsection \<open>Padding and population count\<close>

lemma and_minus_4: "s AND - 4 = s - s mod 4" for s :: "'a::len word"
proof -
  have "push_bit 2 (drop_bit 2 s) + take_bit 2 s = s" by (rule bits_ident)
  moreover have "push_bit 2 (drop_bit 2 s) = s AND NOT (mask 2)"
    by (rule bit_eqI) (auto simp: bit_simps not_less simp del: add_2_eq_Suc add_2_eq_Suc')
  ultimately show ?thesis
    by (simp add: take_bit_eq_mod mask_eq_exp_minus_1 numeral_3_eq_3 eq_diff_eq)
qed

lemma and_3: "s AND 3 = s mod 4" for s :: "'a::len word"
  using take_bit_eq_mod [of 2 s] by (simp add: take_bit_eq_mask mask_eq_exp_minus_1)

text \<open>Rounding on words wide enough to hold four, as rounding on naturals modulo the width.\<close>

lemma unat_round4:
  fixes s :: "'a::len word"
  assumes four: "unat (4 :: 'a word) = 4"
  shows "unat (if s AND 3 \<noteq> 0 then (s AND - 4) + 4 else s) = align4 (unat s) mod 2 ^ LENGTH('a)"
proof -
  have mod: "unat (s mod 4) = unat s mod 4" by (simp only: unat_mod_distrib four)
  then have z: "s mod 4 = 0 \<longleftrightarrow> unat s mod 4 = 0" by (metis unat_eq_zero)
  have "s mod 4 \<le> s" by (simp add: word_le_nat_alt mod)
  then have sub: "unat (s - s mod 4) = unat s - unat s mod 4" by (simp only: unat_sub mod)
  show ?thesis
  proof (cases "unat s mod 4 = 0")
    case True
    then have "align4 (unat s) = unat s" by (simp add: align4_id dvd_eq_mod_eq_0)
    with True z show ?thesis by (simp add: and_3)
  next
    case False
    then have "unat s - unat s mod 4 + 4 = align4 (unat s)"
      by (cases "unat s" rule: nat_mod4_cases) (simp_all add: align4_def mod_Suc)
    with False z show ?thesis by (simp only: and_3 and_minus_4 unat_word_ariths sub four if_True simp_thms)
  qed
qed

text \<open>Both overloads of \<open>PadTo4Bytes\<close> round their argument up to the next multiple of four, modulo the width
  of the argument: the 16-bit overload maps 65533, 65534 and 65535 to 0.\<close>

lemma unat_PadTo4Bytes:
  "unat (PadTo4Bytes16 s) = align4 (unat s) mod 2 ^ 16" "unat (PadTo4Bytes32 t) = align4 (unat t) mod 2 ^ 32"
proof -
  have c: "0xFFFC = (- 4 :: u16)" "0xFFFFFFFC = (- 4 :: u32)" by simp_all
  show "unat (PadTo4Bytes16 s) = align4 (unat s) mod 2 ^ 16"
    unfolding PadTo4Bytes16_def c using unat_round4 [of s] by simp
  show "unat (PadTo4Bytes32 t) = align4 (unat t) mod 2 ^ 32"
    unfolding PadTo4Bytes32_def c using unat_round4 [of t] by simp
qed

subsection \<open>Random numbers stay in range\<close>

lemma word_mod_add_range:
  fixes r mn mx :: u32
  assumes "mn \<le> mx" and "mx - mn + 1 \<noteq> 0"
  shows "mn \<le> r mod (mx - mn + 1) + mn \<and> r mod (mx - mn + 1) + mn \<le> mx"
proof -
  have "r mod (mx - mn + 1) < mx - mn + 1" using assms(2) by (simp add: word_less_nat_alt unat_mod_distrib unat_gt_0)
  then have "r mod (mx - mn + 1) \<le> mx - mn" using assms(2) by uint_arith
  with assms(1) show ?thesis by uint_arith
qed

text \<open>The generator returns a value between the two bounds whenever they are in order, except
  that the bound 4294967295 is read as 4294967294, so that value is never returned.\<close>

lemma GetRandomUInt_range:
  assumes "mn \<le> mx" and "mn < 4294967295"
  shows "mn \<le> fst (GetRandomUInt seed mn mx) \<and> fst (GetRandomUInt seed mn mx) \<le> mx \<and>
    fst (GetRandomUInt seed mn mx) < 4294967295"
proof -
  define mx' where "mx' = (if mx = 4294967295 then mx - 1 else mx)"
  have le: "mn \<le> mx'" using assms unfolding mx'_def by (cases "mx = 4294967295") (simp_all, unat_arith)
  have "mx \<le> 4294967295" using unat_less [of mx] by (simp add: word_le_nat_alt)
  then have "mx' < 4294967295" unfolding mx'_def by (cases "mx = 4294967295") (auto simp: order_less_le)
  moreover have "unat (mx' - mn) < 4294967295"
    using le \<open>mx' < 4294967295\<close> by (simp add: unat_sub word_less_nat_alt)
  then have "unat (mx' - mn + 1) = unat (mx' - mn) + 1" by (simp add: unat_word_ariths)
  then have "mx' - mn + 1 \<noteq> 0" by (metis Suc_eq_plus1 nat.distinct(1) unat_0)
  moreover have "mx' \<le> mx" unfolding mx'_def by simp
  moreover have "fst (GetRandomUInt seed mn mx) =
      ((drop_bit 4 (214013 * seed + 2531011)) AND 0x7FFF7FFF) mod (mx' - mn + 1) + mn"
    using le unfolding GetRandomUInt_def Let_def mx'_def [symmetric] by (simp add: leD)
  ultimately show ?thesis
    using word_mod_add_range [OF le, of "(drop_bit 4 (214013 * seed + 2531011)) AND 0x7FFF7FFF"]
    by (simp only: order_trans order_le_less_trans) (blast intro: order_trans order_le_less_trans)
qed

subsection \<open>Time\<close>

lemma ntp_fraction_rounds_back:
  assumes "m < (1000 :: nat)"
  shows "(m * 2 ^ 32 div 1000 * 1000 + 2 ^ 31) div 2 ^ 32 = m"
proof -
  define f where "f = m * 2 ^ 32 div 1000"
  have le: "f * 1000 \<le> m * 2 ^ 32" and gt: "m * 2 ^ 32 < f * 1000 + 1000"
    unfolding f_def by (simp_all add: div_times_less_eq_dividend)
  then have "(f * 1000 + 2 ^ 31) div 2 ^ 32 = m"
    by (intro div_nat_eqI) simp_all
  then show ?thesis by (simp add: f_def)
qed

text \<open>Converting a time in milliseconds to NTP format and back is the identity as long as
  the number of whole seconds fits the 32-bit NTP seconds field.\<close>

lemma Ntp_roundtrip:
  assumes "unat ms div 1000 < 2 ^ 32"
  shows "Ntp2TimeMs (TimeMs2Ntp ms) = ms"
proof -
  let ?m = "unat ms mod 1000"
  have m: "?m < 1000" by simp
  have frac: "unat (fractions (TimeMs2Ntp ms)) = ?m * 2 ^ 32 div 1000"
  proof -
    have "?m * 2 ^ 32 < 2 ^ 64" using m by simp
    then have "unat ((ms mod 1000) * 2 ^ 32 div 1000) = ?m * 2 ^ 32 div 1000"
      by (simp add: unat_div_distrib unat_word_ariths unat_mod_distrib)
    moreover have "?m * 2 ^ 32 div 1000 < 2 ^ 32" using m by (simp add: div_less_iff_less_mult)
    ultimately show ?thesis
      by (simp add: TimeMs2Ntp_def unsigned_ucast_eq take_bit_nat_eq_self)
  qed
  have sec: "unat (seconds (TimeMs2Ntp ms)) = unat ms div 1000"
    using assms by (simp add: TimeMs2Ntp_def unsigned_ucast_eq unat_div_distrib take_bit_nat_eq_self)
  have "unat (ucast (fractions (TimeMs2Ntp ms)) * 1000 + 2 ^ 31 :: u64) = ?m * 2 ^ 32 div 1000 * 1000 + 2 ^ 31"
    using m by (simp add: unat_word_ariths unat_ucast_le frac mod_less)
  then have "unat ((ucast (fractions (TimeMs2Ntp ms)) * 1000 + 2 ^ 31) div 2 ^ 32 :: u64) = ?m"
    using ntp_fraction_rounds_back [OF m] by (simp add: unat_div_distrib)
  moreover have "unat (ucast (seconds (TimeMs2Ntp ms)) * 1000 :: u64) = unat ms div 1000 * 1000"
    using assms by (simp add: unat_word_ariths unat_ucast_le sec mod_less)
  ultimately have "unat (Ntp2TimeMs (TimeMs2Ntp ms)) = (unat ms div 1000 * 1000 + ?m) mod 2 ^ 64"
    by (simp add: Ntp2TimeMs_def unat_word_ariths)
  also have "\<dots> = unat ms" using unat_less [of ms] by simp
  finally show ?thesis by (simp add: word_unat_eq_iff)
qed

lemma IsNewerTimestamp_unat:
  "IsNewerTimestamp a b \<longleftrightarrow>
     (if unat (a - b) = 2 ^ 31 then b < a else 0 < unat (a - b) \<and> unat (a - b) < 2 ^ 31)"
proof -
  have "a - b = 0x80000000 \<longleftrightarrow> unat (a - b) = 2 ^ 31"
    using word_unat_eq_iff [of "a - b" "0x80000000"] by simp
  then show ?thesis by (simp add: IsNewerTimestamp_def word_less_nat_alt unat_gt_0)
qed

interpretation newer: circular_order IsNewerTimestamp
proof
  show "\<not> IsNewerTimestamp b a" if "IsNewerTimestamp a b" for a b
    using that by (cases a b rule: circ_cases) (auto simp: IsNewerTimestamp_unat split: if_splits)
  show "IsNewerTimestamp a b \<or> IsNewerTimestamp b a" if "a \<noteq> b" for a b
    using that by (cases a b rule: circ_cases) (auto simp: IsNewerTimestamp_unat)
qed (simp add: IsNewerTimestamp_unat)

text \<open>\<open>IsNewerTimestamp\<close> is a strict comparison on the 32-bit circle: of two different RTP
  timestamps exactly one is newer, and inside any window of half the circle it is the order of the
  distances from the start of the window, whatever the wrap-around; \<open>LatestTimestamp\<close> returns
  one of its two arguments, and the other one is not newer.\<close>

lemma IsNewerTimestamp_order:
  "(a \<noteq> b \<longrightarrow> IsNewerTimestamp a b \<noteq> IsNewerTimestamp b a) \<and>
   (unat (a - r) < 2 ^ 31 \<and> unat (b - r) < 2 ^ 31 \<longrightarrow>
     IsNewerTimestamp a b = (unat (b - r) < unat (a - r))) \<and>
   LatestTimestamp a b \<in> {a, b} \<and>
   \<not> IsNewerTimestamp a (LatestTimestamp a b) \<and> \<not> IsNewerTimestamp b (LatestTimestamp a b)"
  using newer.gt_trichotomy [of a b] newer.gt_window [of a r b] newer.gt_irrefl
  by (auto simp: LatestTimestamp_def)

end
