(* ===== verification/Rtcp_Packet.thy ===== *)
theory Rtcp_Packet
  imports Bytes
begin

text \<open>
  The common part of every RTCP packet (\<^verbatim>\<open>include/RTC/RTCP/Packet.hpp\<close>, \<^verbatim>\<open>src/RTC/RTCP/Packet.cpp\<close>):
  packet types, the four-byte \<open>CommonHeader\<close>, \<open>IsRtcp\<close> and the header writer \<open>Packet::Serialize\<close>.
  The bit fields of the first byte are laid out as by \<^verbatim>\<open>MS_LITTLE_ENDIAN\<close> and \<^verbatim>\<open>MS_BIG_ENDIAN\<close>
  alike: version in the two high bits, then padding, then the five bits of count.
\<close>

abbreviation (input) "SIZEOF_CommonHeader \<equiv> (4::nat)"

datatype rtcp_type = SR | RR | SDES | BYE | APP | RTPFB | PSFB | XR

fun rtcp_type_code :: "rtcp_type \<Rightarrow> u8" where
  "rtcp_type_code SR = 200"
| "rtcp_type_code RR = 201"
| "rtcp_type_code SDES = 202"
| "rtcp_type_code BYE = 203"
| "rtcp_type_code APP = 204"
| "rtcp_type_code RTPFB = 205"
| "rtcp_type_code PSFB = 206"
| "rtcp_type_code XR = 207"

definition rtcp_type_of :: "u8 \<Rightarrow> rtcp_type option" where
  "rtcp_type_of c =
     (if c = 200 then Some SR else if c = 201 then Some RR else if c = 202 then Some SDES
      else if c = 203 then Some BYE else if c = 204 then Some APP else if c = 205 then Some RTPFB
      else if c = 206 then Some PSFB else if c = 207 then Some XR else None)"

definition Type2String :: "rtcp_type option \<Rightarrow> string" where
  "Type2String t = (case t of Some SR \<Rightarrow> ''SR'' | Some RR \<Rightarrow> ''RR'' | Some SDES \<Rightarrow> ''SDES''
     | Some BYE \<Rightarrow> ''BYE'' | Some APP \<Rightarrow> ''APP'' | Some RTPFB \<Rightarrow> ''RTPFB'' | Some PSFB \<Rightarrow> ''PSFB''
     | Some XR \<Rightarrow> ''XR'' | None \<Rightarrow> ''UNKNOWN'')"

text \<open>The header as read from memory; \<open>hdr_length\<close> is already in host order.\<close>

record CommonHeader =
  hdr_version :: u8
  hdr_padding :: u8
  hdr_count :: u8
  hdr_packetType :: u8
  hdr_length :: u16

definition read_CommonHeader :: "bytes \<Rightarrow> CommonHeader option" where
  "read_CommonHeader d = do {
     b0 \<leftarrow> Get1Byte d 0;
     pt \<leftarrow> Get1Byte d 1;
     len \<leftarrow> Get2Bytes d 2;
     Some \<lparr>hdr_version = drop_bit 6 b0, hdr_padding = (drop_bit 5 b0) AND 1, hdr_count = b0 AND 31,
       hdr_packetType = pt, hdr_length = len\<rparr> }"

text \<open>The announced length in bytes: \<open>(ntohs(header->length) + 1) * 4\<close>.\<close>

definition announced_len :: "CommonHeader \<Rightarrow> nat" where
  "announced_len h = (unat (hdr_length h) + 1) * 4"

definition IsRtcp :: "bytes \<Rightarrow> bool option" where
  "IsRtcp d =
     (if length d < SIZEOF_CommonHeader then Some False
      else do {
        b0 \<leftarrow> Get1Byte d 0;
        h \<leftarrow> read_CommonHeader d;
        Some (b0 > 127 \<and> b0 < 192 \<and> hdr_version h = 2 \<and>
          hdr_packetType h \<ge> 192 \<and> hdr_packetType h \<le> 223) })"

text \<open>\<open>Packet::Serialize\<close> writes the header from the virtual \<open>GetType\<close>, \<open>GetCount\<close> and \<open>GetSize\<close>;
  the count is truncated to its five bits and \<open>length\<close> to sixteen.\<close>

definition Packet_Serialize :: "rtcp_type \<Rightarrow> nat \<Rightarrow> nat \<Rightarrow> bytes" where
  "Packet_Serialize type cnt sz =
     [0x80 OR (of_nat cnt AND 31), rtcp_type_code type] @ put2 (of_nat (sz div 4 - 1))"

subsection \<open>Reading back a header\<close>

lemma length_Packet_Serialize [simp, sizes]: "length (Packet_Serialize t c s) = 4"
  by (simp add: Packet_Serialize_def put2_def)

lemma Get4Bytes_after_header [wire]:
  "4 \<le> i \<Longrightarrow> Get4Bytes (Packet_Serialize t c s @ rest) i = Get4Bytes rest (i - 4)"
  using byte4.get_skip [of "Packet_Serialize t c s" i rest] by simp

lemma rtcp_type_of_code [simp]: "rtcp_type_of (rtcp_type_code t) = Some t"
  by (cases t) (simp_all add: rtcp_type_of_def)

lemma rtcp_type_code_range: "192 \<le> rtcp_type_code t \<and> rtcp_type_code t \<le> 223"
  by (cases t) simp_all

lemma read_CommonHeader_defined: "4 \<le> length d \<Longrightarrow> \<exists>h. read_CommonHeader d = Some h"
  using byte1.get_ex [of 0 d] byte1.get_ex [of 1 d] byte2.get_ex [of 2 d]
  by (auto simp: read_CommonHeader_def)

lemma first_byte_fields:
  fixes c :: u8
  defines "b \<equiv> 0x80 OR (c AND 31)"
  shows "drop_bit 6 b = 2" and "(drop_bit 5 b) AND 1 = 0" and "b AND 31 = c AND 31"
    and "127 < b" and "b < 192"
proof -
  have c: "c AND 31 = take_bit 5 c" by (simp add: take_bit_eq_mask mask_eq_exp_minus_1)
  show d6: "drop_bit 6 b = 2" unfolding b_def c
    by (rule bit_word_eqI) (auto simp: bit_simps bit_numeral_rec less_Suc_eq numeral_eq_Suc)
  show "(drop_bit 5 b) AND 1 = 0" unfolding b_def c
    by (rule bit_word_eqI) (auto simp: bit_simps bit_numeral_rec less_Suc_eq numeral_eq_Suc)
  show "b AND 31 = c AND 31" unfolding b_def
    by (rule bit_word_eqI) (auto simp: bit_simps bit_numeral_rec less_Suc_eq numeral_eq_Suc)
  have "b = 0x80 + take_bit 5 c"
    unfolding b_def c by (rule disjunctive_add [symmetric]) (auto simp: bit_simps bit_numeral_rec numeral_eq_Suc less_Suc_eq)
  moreover have "unat (take_bit 5 c) < 32" using take_bit_nat_less_exp [of 5 "unat c"] by (simp add: unsigned_take_bit_eq)
  ultimately show "127 < b" "b < 192" by (simp_all add: word_less_nat_alt unat_word_ariths)
qed

lemma Get1Byte_Suc [wire, simp]: "Get1Byte (b # d) (Suc i) = Get1Byte d i"
  by (simp add: Get1Byte_def)

lemma read_CommonHeader_Packet_Serialize:
  "read_CommonHeader (Packet_Serialize t c s @ rest) =
    Some \<lparr>hdr_version = 2, hdr_padding = 0, hdr_count = of_nat c AND 31,
      hdr_packetType = rtcp_type_code t, hdr_length = of_nat (s div 4 - 1)\<rparr>"
  using byte2.get_put_mid [of "[0x80 OR (of_nat c AND 31), rtcp_type_code t]" "of_nat (s div 4 - 1)" rest]
  by (simp add: read_CommonHeader_def Packet_Serialize_def first_byte_fields numeral_2_eq_2)

lemma IsRtcp_Packet_Serialize: "IsRtcp (Packet_Serialize t c s @ rest) = Some True"
  using byte2.get_put_mid [of "[0x80 OR (of_nat c AND 31), rtcp_type_code t]" "of_nat (s div 4 - 1)" rest]
    rtcp_type_code_range [of t]
  by (simp add: IsRtcp_def read_CommonHeader_def Packet_Serialize_def first_byte_fields numeral_2_eq_2
      byte2.length_put)

lemma announced_len_serialized:
  assumes "4 dvd s" and "4 \<le> s" and "s \<le> 2 ^ 18"
  shows "announced_len \<lparr>hdr_version = v, hdr_padding = p, hdr_count = c, hdr_packetType = t,
    hdr_length = of_nat (s div 4 - 1)\<rparr> = s"
proof -
  from assms obtain k where k: "s = 4 * k" "1 \<le> k" "k \<le> 2 ^ 16" by auto
  moreover from k have "unat (of_nat (k - 1) :: u16) = k - 1" by (intro unat_of_nat_less) simp
  ultimately show ?thesis by (simp add: announced_len_def)
qed

lemma IsRtcp_total: "\<exists>b. IsRtcp d = Some b"
  using read_CommonHeader_defined [of d] byte1.get_ex [of 0 d]
  by (cases "length d < 4") (auto simp: IsRtcp_def)

lemma IsRtcp_long: "IsRtcp d = Some True \<Longrightarrow> 4 \<le> length d"
  by (auto simp: IsRtcp_def split: if_splits)

lemma unat_count5: "c < 32 \<Longrightarrow> unat (of_nat c AND 31 :: u8) = c"
proof -
  assume "c < 32"
  have "(of_nat c AND 31 :: u8) = take_bit 5 (of_nat c)" by (simp add: take_bit_eq_mask mask_eq_exp_minus_1)
  also have "unat \<dots> = c" using \<open>c < 32\<close> by (simp add: unsigned_take_bit_eq unat_of_nat_less take_bit_nat_eq_self)
  finally show ?thesis .
qed

end
