(* ===== verification/Rtcp_Reports.thy ===== *)
theory Rtcp_Reports
  imports Rtcp_Packet
begin

text \<open>
  The report packets: SR, RR, SDES, BYE and XR (\<^verbatim>\<open>src/RTC/RTCP/SenderReport.cpp\<close>,
  \<^verbatim>\<open>ReceiverReport.cpp\<close>, \<^verbatim>\<open>Sdes.cpp\<close>, \<^verbatim>\<open>Bye.cpp\<close>, \<^verbatim>\<open>XR.cpp\<close>, \<^verbatim>\<open>XrDelaySinceLastRr.cpp\<close>,
  \<^verbatim>\<open>XrReceiverReferenceTime.cpp\<close> and their headers). A report object that points into the received
  bytes is the record of the fields its getters read there.

  The locale \<open>block\<close> is the contract between a packet class and the blocks it is made of: parsing
  never leaves the buffer, and a serialized block is parsed back whatever follows it. The packet
  loops are shown total and inverse to serialization once, inside it.
\<close>

subsection \<open>SenderReport\<close>

record SenderReport =
  sr_ssrc :: u32
  sr_ntpSec :: u32
  sr_ntpFrac :: u32
  sr_rtpTs :: u32
  sr_packetCount :: u32
  sr_octetCount :: u32

definition SenderReport_Parse :: "bytes \<Rightarrow> SenderReport option option" where
  "SenderReport_Parse d =
     (if length d < 24 then Some None
      else do {
        ssrc \<leftarrow> Get4Bytes d 0; sec \<leftarrow> Get4Bytes d 4; frac \<leftarrow> Get4Bytes d 8;
        ts \<leftarrow> Get4Bytes d 12; pc \<leftarrow> Get4Bytes d 16; oc \<leftarrow> Get4Bytes d 20;
        Some (Some \<lparr>sr_ssrc = ssrc, sr_ntpSec = sec, sr_ntpFrac = frac, sr_rtpTs = ts,
          sr_packetCount = pc, sr_octetCount = oc\<rparr>) })"

definition SenderReport_Serialize :: "SenderReport \<Rightarrow> bytes" where
  "SenderReport_Serialize r = put4 (sr_ssrc r) @ put4 (sr_ntpSec r) @ put4 (sr_ntpFrac r) @
     put4 (sr_rtpTs r) @ put4 (sr_packetCount r) @ put4 (sr_octetCount r)"

text \<open>A sender report packet is its vector of reports; serializing asserts that there is exactly one.\<close>

definition SenderReportPacket_Parse :: "bytes \<Rightarrow> SenderReport list option" where
  "SenderReportPacket_Parse d = do {
     h \<leftarrow> read_CommonHeader d;
     r \<leftarrow> SenderReport_Parse (drop 4 d);
     Some (case r of Some report \<Rightarrow> [report] | None \<Rightarrow> []) }"

definition SenderReportPacket_GetSize :: "SenderReport list \<Rightarrow> nat" where
  "SenderReportPacket_GetSize rs = 4 + sum_list (map (\<lambda>_. 24) rs)"

definition SenderReportPacket_Serialize :: "SenderReport list \<Rightarrow> bytes option" where
  "SenderReportPacket_Serialize rs =
     (if length rs \<noteq> 1 then None
      else Some (Packet_Serialize SR 0 (SenderReportPacket_GetSize rs) @ concat (map SenderReport_Serialize rs)))"

subsection \<open>ReceiverReport\<close>

text \<open>\<open>rr_totalLost\<close> is the raw 24-bit field that \<open>Get3Bytes\<close> returns.\<close>

record ReceiverReport =
  rr_ssrc :: u32
  rr_fractionLost :: u8
  rr_totalLost :: u32
  rr_lastSeq :: u32
  rr_jitter :: u32
  rr_lsr :: u32
  rr_dlsr :: u32

definition ReceiverReport_Parse :: "bytes \<Rightarrow> ReceiverReport option option" where
  "ReceiverReport_Parse d =
     (if length d < 24 then Some None
      else do {
        ssrc \<leftarrow> Get4Bytes d 0; fl \<leftarrow> Get1Byte d 4; tl \<leftarrow> Get3Bytes d 5;
        ls \<leftarrow> Get4Bytes d 8; ji \<leftarrow> Get4Bytes d 12; lsr \<leftarrow> Get4Bytes d 16; dlsr \<leftarrow> Get4Bytes d 20;
        Some (Some \<lparr>rr_ssrc = ssrc, rr_fractionLost = fl, rr_totalLost = tl, rr_lastSeq = ls,
          rr_jitter = ji, rr_lsr = lsr, rr_dlsr = dlsr\<rparr>) })"

definition ReceiverReport_Serialize :: "ReceiverReport \<Rightarrow> bytes" where
  "ReceiverReport_Serialize r = put4 (rr_ssrc r) @ [rr_fractionLost r] @ put3 (rr_totalLost r) @
     put4 (rr_lastSeq r) @ put4 (rr_jitter r) @ put4 (rr_lsr r) @ put4 (rr_dlsr r)"

text \<open>The \<open>int32_t\<close> result of \<open>GetTotalLost\<close> is the signed reading of the returned word.
  \<open>SetTotalLost\<close> takes an \<open>int32_t\<close>; negating the least one overflows (\<open>None\<close>).\<close>

definition GetTotalLost :: "ReceiverReport \<Rightarrow> u32" where
  "GetTotalLost r =
     (let value = rr_totalLost r in
      if (drop_bit 23 value) AND 1 = 0 then value
      else - (if value \<noteq> 0x0800000 then value AND NOT (push_bit 23 1) else value))"

definition SetTotalLost :: "int \<Rightarrow> ReceiverReport \<Rightarrow> ReceiverReport option" where
  "SetTotalLost totalLost r =
     (if totalLost = - (2 ^ 31) then None
      else
        let clamp = (if totalLost \<ge> 0 then if totalLost > 0x07FFFFF then 0x07FFFFF else totalLost
                     else if - totalLost > 0x0800000 then 0x0800000 else - totalLost);
            value = (if totalLost \<ge> 0 then word_of_int clamp AND 0x07FFFFF else word_of_int clamp OR 0x0800000)
        in Some (r\<lparr>rr_totalLost := value AND 0xFFFFFF\<rparr>))"

subsection \<open>Loops over the blocks of a packet\<close>

text \<open>The loop \<open>while (count-- != 0 && len > offset)\<close> of the RR and SDES packets, on the bytes that are
  left: it stops at the first block that does not parse and advances by the size of the block.\<close>

primrec count_loop :: "(bytes \<Rightarrow> 'a option option) \<Rightarrow> ('a \<Rightarrow> nat) \<Rightarrow> nat \<Rightarrow> bytes \<Rightarrow> 'a list option" where
  "count_loop parse sz 0 rest = Some []"
| "count_loop parse sz (Suc n) rest =
     (if rest = [] then Some []
      else case parse rest of
        None \<Rightarrow> None
      | Some None \<Rightarrow> Some []
      | Some (Some x) \<Rightarrow> do { xs \<leftarrow> count_loop parse sz n (drop (sz x) rest); Some (x # xs) })"

record ReceiverReportPacket =
  rrp_ssrc :: u32
  rrp_reports :: "ReceiverReport list"

text \<open>\<open>offset\<close> is where the report blocks start: 0 stands for right after the SSRC; \<open>Packet::Parse\<close>
  passes the end of the sender info when it reads the blocks of an SR packet.\<close>

definition ReceiverReportPacket_Parse :: "bytes \<Rightarrow> nat \<Rightarrow> ReceiverReportPacket option option" where
  "ReceiverReportPacket_Parse d offset =
     (if length d < 4 + 4 then Some None
      else do {
        h \<leftarrow> read_CommonHeader d;
        ssrc \<leftarrow> Get4Bytes d 4;
        let offset = (if offset = 0 then 8 else offset);
        reports \<leftarrow> count_loop ReceiverReport_Parse (\<lambda>_. 24) (unat (hdr_count h)) (drop offset d);
        Some (Some \<lparr>rrp_ssrc = ssrc, rrp_reports = reports\<rparr>) })"

definition ReceiverReportPacket_GetSize :: "ReceiverReportPacket \<Rightarrow> nat" where
  "ReceiverReportPacket_GetSize p = 4 + 4 + sum_list (map (\<lambda>_. 24) (rrp_reports p))"

definition ReceiverReportPacket_AddReport :: "ReceiverReportPacket \<Rightarrow> ReceiverReport \<Rightarrow> ReceiverReportPacket" where
  "ReceiverReportPacket_AddReport p r = p\<lparr>rrp_reports := rrp_reports p @ [r]\<rparr>"

definition ReceiverReportPacket_Serialize :: "ReceiverReportPacket \<Rightarrow> bytes" where
  "ReceiverReportPacket_Serialize p =
     Packet_Serialize RR (length (rrp_reports p)) (ReceiverReportPacket_GetSize p) @
     put4 (rrp_ssrc p) @ concat (map ReceiverReport_Serialize (rrp_reports p))"

subsection \<open>SDES\<close>

record SdesItem =
  sdes_type :: u8
  sdes_length :: u8
  sdes_value :: bytes

definition SdesItem_Type2String :: "u8 \<Rightarrow> string" where
  "SdesItem_Type2String t = (case map_of [(0, ''END''), (1, ''CNAME''), (2, ''NAME''), (3, ''EMAIL''),
      (4, ''PHONE''), (5, ''LOC''), (6, ''TOOL''), (7, ''NOTE''), (8, ''PRIV'')] t of
      Some s \<Rightarrow> s | None \<Rightarrow> ''UNKNOWN'')"

definition SdesItem_Parse :: "bytes \<Rightarrow> SdesItem option option" where
  "SdesItem_Parse d =
     (if length d < 2 then Some None
      else do {
        ty \<leftarrow> Get1Byte d 0;
        len \<leftarrow> Get1Byte d 1;
        Some (if length d < 2 + unat len then None
              else if ty = 0 then None
              else Some \<lparr>sdes_type = ty, sdes_length = len, sdes_value = take (unat len) (drop 2 d)\<rparr>) })"

text \<open>The local constructor copies \<open>header->length\<close> bytes, the length truncated to eight bits.\<close>

definition SdesItem_new :: "u8 \<Rightarrow> nat \<Rightarrow> bytes \<Rightarrow> SdesItem option" where
  "SdesItem_new ty len value =
     (let l = of_nat len :: u8 in
      if unat l \<le> length value then Some \<lparr>sdes_type = ty, sdes_length = l, sdes_value = take (unat l) value\<rparr>
      else None)"

definition SdesItem_GetSize :: "SdesItem \<Rightarrow> nat" where
  "SdesItem_GetSize i = 2 + unat (sdes_length i)"

definition SdesItem_Serialize :: "SdesItem \<Rightarrow> bytes" where
  "SdesItem_Serialize i = [sdes_type i, sdes_length i] @ sdes_value i"

record SdesChunk =
  chunk_ssrc :: u32
  chunk_items :: "SdesItem list"

function sdes_items_loop :: "bytes \<Rightarrow> SdesItem list option" where
  "sdes_items_loop rest =
     (if rest = [] then Some []
      else case SdesItem_Parse rest of
        None \<Rightarrow> None
      | Some None \<Rightarrow> Some []
      | Some (Some item) \<Rightarrow> do {
          items \<leftarrow> sdes_items_loop (drop (SdesItem_GetSize item) rest);
          Some (item # items) })"
  by pat_completeness auto
termination
  by (relation "measure length") (auto simp: SdesItem_GetSize_def)

declare sdes_items_loop.simps [simp del]

definition SdesChunk_Parse :: "bytes \<Rightarrow> SdesChunk option option" where
  "SdesChunk_Parse d =
     (if length d < 4 then Some None
      else do {
        ssrc \<leftarrow> Get4Bytes d 0;
        items \<leftarrow> sdes_items_loop (drop 4 d);
        Some (Some \<lparr>chunk_ssrc = ssrc, chunk_items = items\<rparr>) })"

definition SdesChunk_GetSize :: "SdesChunk \<Rightarrow> nat" where
  "SdesChunk_GetSize c = align4 (4 + sum_list (map SdesItem_GetSize (chunk_items c)))"

text \<open>\<open>SetSsrc\<close> stores the value in network byte order although every other member uses host order.\<close>

definition htonl :: "u32 \<Rightarrow> u32" where
  "htonl v = push_bit 24 v OR push_bit 8 (v AND 0xFF00) OR (drop_bit 8 v AND 0xFF00) OR drop_bit 24 v"

definition SdesChunk_SetSsrc :: "SdesChunk \<Rightarrow> u32 \<Rightarrow> SdesChunk" where
  "SdesChunk_SetSsrc c ssrc = c\<lparr>chunk_ssrc := htonl ssrc\<rparr>"

definition SdesChunk_AddItem :: "SdesChunk \<Rightarrow> SdesItem \<Rightarrow> SdesChunk" where
  "SdesChunk_AddItem c i = c\<lparr>chunk_items := chunk_items c @ [i]\<rparr>"

definition SdesChunk_Serialize :: "SdesChunk \<Rightarrow> bytes" where
  "SdesChunk_Serialize c =
     (let b = put4 (chunk_ssrc c) @ concat (map SdesItem_Serialize (chunk_items c))
      in b @ replicate (pad4 (length b)) 0)"

definition SdesPacket_Parse :: "bytes \<Rightarrow> SdesChunk list option" where
  "SdesPacket_Parse d = do {
     h \<leftarrow> read_CommonHeader d;
     count_loop SdesChunk_Parse SdesChunk_GetSize (unat (hdr_count h)) (drop 4 d) }"

definition SdesPacket_GetSize :: "SdesChunk list \<Rightarrow> nat" where
  "SdesPacket_GetSize cs = 4 + sum_list (map SdesChunk_GetSize cs)"

definition SdesPacket_Serialize :: "SdesChunk list \<Rightarrow> bytes" where
  "SdesPacket_Serialize cs =
     Packet_Serialize SDES (length cs) (SdesPacket_GetSize cs) @ concat (map SdesChunk_Serialize cs)"

subsection \<open>BYE\<close>

record ByePacket =
  bye_ssrcs :: "u32 list"
  bye_reason :: bytes

text \<open>The SSRC loop returns the SSRCs and the bytes after them, or the inner \<open>None\<close> for \<open>nullptr\<close>.\<close>

primrec bye_ssrcs_loop :: "nat \<Rightarrow> bytes \<Rightarrow> (u32 list \<times> bytes) option option" where
  "bye_ssrcs_loop 0 rest = Some (Some ([], rest))"
| "bye_ssrcs_loop (Suc n) rest =
     (if rest = [] then Some (Some ([], rest))
      else if length rest < 4 then Some None
      else do {
        ssrc \<leftarrow> Get4Bytes rest 0;
        r \<leftarrow> bye_ssrcs_loop n (drop 4 rest);
        Some (map_option (\<lambda>(ssrcs, rest). (ssrc # ssrcs, rest)) r) })"

definition ByePacket_Parse :: "bytes \<Rightarrow> ByePacket option option" where
  "ByePacket_Parse d = do {
     h \<leftarrow> read_CommonHeader d;
     r \<leftarrow> bye_ssrcs_loop (unat (hdr_count h)) (drop 4 d);
     case r of
       None \<Rightarrow> Some None
     | Some (ssrcs, rest) \<Rightarrow>
         if rest = [] then Some (Some \<lparr>bye_ssrcs = ssrcs, bye_reason = []\<rparr>)
         else do {
           len \<leftarrow> Get1Byte rest 0;
           Some (Some \<lparr>bye_ssrcs = ssrcs, bye_reason =
             (if unat len \<le> length rest - 1 then take (unat len) (drop 1 rest) else [])\<rparr>) } }"

definition ByePacket_GetSize :: "ByePacket \<Rightarrow> nat" where
  "ByePacket_GetSize p = align4 (4 + length (bye_ssrcs p) * 4 +
     (if bye_reason p \<noteq> [] then 1 + length (bye_reason p) else 0))"

definition ByePacket_Serialize :: "ByePacket \<Rightarrow> bytes" where
  "ByePacket_Serialize p =
     (let b = Packet_Serialize BYE (length (bye_ssrcs p)) (ByePacket_GetSize p) @
            concat (map put4 (bye_ssrcs p)) @
            (if bye_reason p \<noteq> [] then of_nat (length (bye_reason p)) # bye_reason p else [])
      in b @ replicate (pad4 (length b)) 0)"

subsection \<open>XR\<close>

record SsrcInfo =
  si_ssrc :: u32
  si_lrr :: u32
  si_dlrr :: u32

datatype xr_block = RRT (rrt_ntpSec: u32) (rrt_ntpFrac: u32) | DLRR (dlrr_ssrcInfos: "SsrcInfo list")

definition SsrcInfo_Parse :: "bytes \<Rightarrow> SsrcInfo option option" where
  "SsrcInfo_Parse d =
     (if length d < 12 then Some None
      else do {
        ssrc \<leftarrow> Get4Bytes d 0; lrr \<leftarrow> Get4Bytes d 4; dlrr \<leftarrow> Get4Bytes d 8;
        Some (Some \<lparr>si_ssrc = ssrc, si_lrr = lrr, si_dlrr = dlrr\<rparr>) })"

definition SsrcInfo_Serialize :: "SsrcInfo \<Rightarrow> bytes" where
  "SsrcInfo_Serialize i = put4 (si_ssrc i) @ put4 (si_lrr i) @ put4 (si_dlrr i)"

definition ReceiverReferenceTime_Parse :: "bytes \<Rightarrow> xr_block option option" where
  "ReceiverReferenceTime_Parse d =
     (if length d < 4 + 8 then Some None
      else do { sec \<leftarrow> Get4Bytes d 4; frac \<leftarrow> Get4Bytes d 8; Some (Some (RRT sec frac)) })"

text \<open>The sub-block loop adds the size of the sub-block to the offset twice: once where it stores the
  sub-block and once at the end of the body. \<open>reportLength\<close> is a \<open>uint16_t\<close>.\<close>

function dlrr_loop :: "u16 \<Rightarrow> bytes \<Rightarrow> SsrcInfo list option" where
  "dlrr_loop reportLength rest =
     (if rest \<noteq> [] \<and> reportLength \<ge> 12 then
        case SsrcInfo_Parse rest of
          None \<Rightarrow> None
        | Some None \<Rightarrow> Some []
        | Some (Some info) \<Rightarrow> do {
            infos \<leftarrow> dlrr_loop (reportLength - 12) (drop 12 (drop 12 rest));
            Some (info # infos) }
      else Some [])"
  by pat_completeness auto
termination
  by (relation "measure (\<lambda>(_, rest). length rest)") auto

declare dlrr_loop.simps [simp del]

definition DelaySinceLastRr_Parse :: "bytes \<Rightarrow> xr_block option option" where
  "DelaySinceLastRr_Parse d = do {
     len \<leftarrow> Get2Bytes d 2;
     infos \<leftarrow> dlrr_loop (len * 4) (drop 4 d);
     Some (Some (DLRR infos)) }"

fun xr_block_GetSize :: "xr_block \<Rightarrow> nat" where
  "xr_block_GetSize (RRT _ _) = 4 + 8"
| "xr_block_GetSize (DLRR infos) = 4 + sum_list (map (\<lambda>_. 12) infos)"

fun xr_block_Serialize :: "xr_block \<Rightarrow> bytes" where
  "xr_block_Serialize (RRT sec frac) = [4, 0] @ put2 2 @ put4 sec @ put4 frac"
| "xr_block_Serialize (DLRR infos) =
     [5, 0] @ put2 (of_nat (12 * length infos div 4)) @ concat (map SsrcInfo_Serialize infos)"

definition ExtendedReportBlock_Parse :: "bytes \<Rightarrow> xr_block option option" where
  "ExtendedReportBlock_Parse d =
     (if length d < 4 then Some None
      else do {
        bt \<leftarrow> Get1Byte d 0;
        if bt = 4 then ReceiverReferenceTime_Parse d
        else if bt = 5 then DelaySinceLastRr_Parse d
        else Some None })"

lemma xr_block_GetSize_pos: "0 < xr_block_GetSize b"
  by (cases b) auto

function xr_loop :: "bytes \<Rightarrow> xr_block list option" where
  "xr_loop rest =
     (if rest = [] then Some []
      else case ExtendedReportBlock_Parse rest of
        None \<Rightarrow> None
      | Some None \<Rightarrow> Some []
      | Some (Some b) \<Rightarrow> do { bs \<leftarrow> xr_loop (drop (xr_block_GetSize b) rest); Some (b # bs) })"
  by pat_completeness auto
termination
  by (relation "measure length") (auto simp: xr_block_GetSize_pos)

declare xr_loop.simps [simp del]

record ExtendedReportPacket =
  xr_ssrc :: u32
  xr_reports :: "xr_block list"

definition ExtendedReportPacket_Parse :: "bytes \<Rightarrow> ExtendedReportPacket option option" where
  "ExtendedReportPacket_Parse d =
     (if length d < 4 + 4 then Some None
      else do {
        h \<leftarrow> read_CommonHeader d;
        ssrc \<leftarrow> Get4Bytes d 4;
        reports \<leftarrow> xr_loop (drop 8 d);
        Some (Some \<lparr>xr_ssrc = ssrc, xr_reports = reports\<rparr>) })"

definition ExtendedReportPacket_AddReport :: "ExtendedReportPacket \<Rightarrow> xr_block \<Rightarrow> ExtendedReportPacket" where
  "ExtendedReportPacket_AddReport p b = p\<lparr>xr_reports := xr_reports p @ [b]\<rparr>"

definition ExtendedReportPacket_GetSize :: "ExtendedReportPacket \<Rightarrow> nat" where
  "ExtendedReportPacket_GetSize p = 4 + 4 + sum_list (map xr_block_GetSize (xr_reports p))"

definition ExtendedReportPacket_Serialize :: "ExtendedReportPacket \<Rightarrow> bytes" where
  "ExtendedReportPacket_Serialize p =
     Packet_Serialize XR 0 (ExtendedReportPacket_GetSize p) @ put4 (xr_ssrc p) @
     concat (map xr_block_Serialize (xr_reports p))"

subsection \<open>The contract of a block\<close>

locale block =
  fixes parse :: "bytes \<Rightarrow> 'a option option"
    and sz :: "'a \<Rightarrow> nat"
    and ser :: "'a \<Rightarrow> bytes"
    and valid :: "'a \<Rightarrow> bool"
  assumes parse_safe: "parse d \<noteq> None"
    and parse_ser: "valid x \<Longrightarrow> parse (ser x @ rest) = Some (Some x)"
    and length_ser: "valid x \<Longrightarrow> length (ser x) = sz x"
    and sz_pos: "valid x \<Longrightarrow> 0 < sz x"
begin

lemma count_loop_total: "count_loop parse sz n rest \<noteq> None"
  using parse_safe by (induction n arbitrary: rest) (auto simp: Option.bind_eq_None_conv simp del: not_None_eq split: option.split)

lemma count_loop_ser_append:
  "\<forall>x \<in> set xs. valid x \<Longrightarrow>
     count_loop parse sz (length xs + n) (concat (map ser xs) @ rest) =
     map_option ((@) xs) (count_loop parse sz n rest)"
proof (induction xs)
  case Nil
  then show ?case by (cases "count_loop parse sz n rest") simp_all
next
  case (Cons x xs)
  then have "valid x" by simp
  then have "ser x \<noteq> []" using length_ser sz_pos by fastforce
  with Cons \<open>valid x\<close> show ?case
    by (cases "count_loop parse sz n rest") (simp_all add: parse_ser length_ser)
qed

lemma count_loop_ser:
  "\<forall>x \<in> set xs. valid x \<Longrightarrow> count_loop parse sz (length xs) (concat (map ser xs) @ rest) = Some xs"
  using count_loop_ser_append [of xs 0 rest] by simp

lemma length_concat_ser: "\<forall>x \<in> set xs. valid x \<Longrightarrow> length (concat (map ser xs)) = sum_list (map sz xs)"
  by (induction xs) (auto simp: length_ser)

end

interpretation sr: block SenderReport_Parse "\<lambda>_. 24" SenderReport_Serialize "\<lambda>_. True"
  by unfold_locales (auto simp: SenderReport_Parse_def SenderReport_Serialize_def safe wire sizes simp del: not_None_eq)

interpretation rr: block ReceiverReport_Parse "\<lambda>_. 24" ReceiverReport_Serialize "\<lambda>r. rr_totalLost r < 2 ^ 24"
  by unfold_locales
    (auto simp: ReceiverReport_Parse_def ReceiverReport_Serialize_def Get3Bytes_def put3_def assemble3_low
      safe wire sizes simp del: not_None_eq)

interpretation ssrcInfo: block SsrcInfo_Parse "\<lambda>_. 12" SsrcInfo_Serialize "\<lambda>_. True"
  by unfold_locales (auto simp: SsrcInfo_Parse_def SsrcInfo_Serialize_def safe wire sizes simp del: not_None_eq)

subsection \<open>SDES items and chunks\<close>

definition sdes_item_valid :: "SdesItem \<Rightarrow> bool" where
  "sdes_item_valid i \<longleftrightarrow> sdes_type i \<noteq> 0 \<and> length (sdes_value i) = unat (sdes_length i)"

interpretation sdesItem: block SdesItem_Parse SdesItem_GetSize SdesItem_Serialize sdes_item_valid
  by unfold_locales
    (auto simp: SdesItem_Parse_def SdesItem_Serialize_def SdesItem_GetSize_def sdes_item_valid_def
      safe wire sizes simp del: not_None_eq)

lemma sdes_items_loop_total: "sdes_items_loop rest \<noteq> None"
proof (induction rest rule: sdes_items_loop.induct)
  case (1 rest)
  then show ?case using sdesItem.parse_safe [of rest]
    by (subst sdes_items_loop.simps) (auto simp: Option.bind_eq_None_conv simp del: not_None_eq split: option.split)
qed

lemma sdes_items_loop_Serialize:
  assumes "\<forall>i \<in> set is. sdes_item_valid i" and "sdes_items_loop rest = Some []"
  shows "sdes_items_loop (concat (map SdesItem_Serialize is) @ rest) = Some is"
  using assms
proof (induction "is")
  case (Cons i "is")
  then have "sdes_item_valid i" by simp
  moreover have "SdesItem_Serialize i \<noteq> []" by (simp add: SdesItem_Serialize_def)
  ultimately show ?case using Cons
    by (subst sdes_items_loop.simps) (simp add: sdesItem.parse_ser sdesItem.length_ser)
qed simp

text \<open>The padding of a chunk ends its item list, whatever follows; without padding the next chunk is
  read as an item.\<close>

lemma sdes_items_loop_padding:
  assumes "0 < k"
  shows "sdes_items_loop (replicate k 0 @ rest) = Some []"
proof (cases k)
  case (Suc m)
  have "SdesItem_Parse (0 # xs) = Some None" for xs
    by (cases xs) (simp_all add: SdesItem_Parse_def)
  then show ?thesis using Suc by (subst sdes_items_loop.simps) simp
qed (use assms in simp)

definition sdes_chunk_valid :: "SdesChunk \<Rightarrow> bool" where
  "sdes_chunk_valid c \<longleftrightarrow> (\<forall>i \<in> set (chunk_items c). sdes_item_valid i)"

definition sdes_chunk_padded :: "SdesChunk \<Rightarrow> bool" where
  "sdes_chunk_padded c \<longleftrightarrow> \<not> 4 dvd (4 + sum_list (map SdesItem_GetSize (chunk_items c)))"

lemma SdesChunk_Serialize_eq:
  assumes "sdes_chunk_valid c"
  shows "SdesChunk_Serialize c = put4 (chunk_ssrc c) @ concat (map SdesItem_Serialize (chunk_items c)) @
    replicate (pad4 (4 + sum_list (map SdesItem_GetSize (chunk_items c)))) 0"
  using assms sdesItem.length_concat_ser [of "chunk_items c"]
  by (simp add: SdesChunk_Serialize_def sdes_chunk_valid_def byte4.length_put)

lemma length_SdesChunk_Serialize:
  "sdes_chunk_valid c \<Longrightarrow> length (SdesChunk_Serialize c) = SdesChunk_GetSize c"
  using sdesItem.length_concat_ser [of "chunk_items c"]
  by (simp add: SdesChunk_Serialize_eq SdesChunk_GetSize_def align4_pad4 sdes_chunk_valid_def byte4.length_put)

lemma SdesChunk_Parse_Serialize:
  assumes "sdes_chunk_valid c" and "rest = [] \<or> sdes_chunk_padded c"
  shows "SdesChunk_Parse (SdesChunk_Serialize c @ rest) = Some (Some c)"
proof -
  let ?k = "pad4 (4 + sum_list (map SdesItem_GetSize (chunk_items c)))"
  have "sdes_items_loop (replicate ?k 0 @ rest) = Some []"
  proof (cases "?k = 0")
    case True
    with assms(2) have "rest = []" by (auto simp: sdes_chunk_padded_def pad4_eq_0_iff)
    with True show ?thesis by (subst sdes_items_loop.simps) simp
  qed (use sdes_items_loop_padding in simp)
  then show ?thesis
    using assms sdes_items_loop_Serialize [of "chunk_items c" "replicate ?k 0 @ rest"]
    by (simp add: SdesChunk_Parse_def SdesChunk_Serialize_eq sdes_chunk_valid_def byte4.get_put byte4.length_put)
qed

interpretation sdesChunk: block SdesChunk_Parse SdesChunk_GetSize SdesChunk_Serialize
  "\<lambda>c. sdes_chunk_valid c \<and> sdes_chunk_padded c"
proof unfold_locales
  show "SdesChunk_Parse d \<noteq> None" for d
    using sdes_items_loop_total by (auto simp: SdesChunk_Parse_def Option.bind_eq_None_conv safe simp del: not_None_eq)
  show "0 < SdesChunk_GetSize c" for c
    using le_align4 [of "4 + sum_list (map SdesItem_GetSize (chunk_items c))"]
    by (simp add: SdesChunk_GetSize_def)
qed (simp_all add: SdesChunk_Parse_Serialize length_SdesChunk_Serialize)

subsection \<open>XR blocks\<close>

lemma dlrr_loop_total: "dlrr_loop l rest \<noteq> None"
proof (induction l rest rule: dlrr_loop.induct)
  case (1 l rest)
  then show ?case using ssrcInfo.parse_safe [of rest]
    by (subst dlrr_loop.simps) (auto simp: Option.bind_eq_None_conv simp del: not_None_eq split: option.split)
qed

lemma ExtendedReportBlock_Parse_safe: "ExtendedReportBlock_Parse d \<noteq> None"
  using dlrr_loop_total
  by (auto simp: ExtendedReportBlock_Parse_def ReceiverReferenceTime_Parse_def DelaySinceLastRr_Parse_def
      Option.bind_eq_None_conv safe simp del: not_None_eq)

definition xr_block_valid :: "xr_block \<Rightarrow> bool" where
  "xr_block_valid b \<longleftrightarrow> (case b of RRT _ _ \<Rightarrow> True | DLRR infos \<Rightarrow> length infos \<le> 1)"

lemma xr_block_Parse_Serialize:
  assumes "xr_block_valid b"
  shows "ExtendedReportBlock_Parse (xr_block_Serialize b @ rest) = Some (Some b)"
proof (cases b)
  case RRT
  then show ?thesis
    by (simp add: ExtendedReportBlock_Parse_def ReceiverReferenceTime_Parse_def wire sizes)
next
  case (DLRR infos)
  with assms consider "infos = []" | i where "infos = [i]"
    by (cases infos) (auto simp: xr_block_valid_def)
  then show ?thesis
  proof cases
    case 1
    then show ?thesis using DLRR dlrr_loop.simps [of 0 rest]
      by (simp add: ExtendedReportBlock_Parse_def DelaySinceLastRr_Parse_def wire sizes)
  next
    case 2
    have "dlrr_loop 0 xs = Some []" for xs by (subst dlrr_loop.simps) simp
    moreover have "SsrcInfo_Serialize i @ rest \<noteq> []" by (simp add: SsrcInfo_Serialize_def put4_def)
    ultimately have "dlrr_loop 12 (SsrcInfo_Serialize i @ rest) = Some [i]"
      by (subst dlrr_loop.simps) (simp add: ssrcInfo.parse_ser)
    with 2 DLRR show ?thesis
      by (simp add: ExtendedReportBlock_Parse_def DelaySinceLastRr_Parse_def wire sizes)
  qed
qed

lemma length_xr_block_Serialize: "length (xr_block_Serialize b) = xr_block_GetSize b"
proof (cases b)
  case (DLRR infos)
  then show ?thesis using ssrcInfo.length_concat_ser [of infos] by (simp add: sizes)
qed (simp add: sizes)

interpretation xrBlock: block ExtendedReportBlock_Parse xr_block_GetSize xr_block_Serialize xr_block_valid
  by unfold_locales (simp_all only: ExtendedReportBlock_Parse_safe xr_block_Parse_Serialize
    length_xr_block_Serialize xr_block_GetSize_pos not_False_eq_True)

lemma xr_loop_total: "xr_loop rest \<noteq> None"
proof (induction rest rule: xr_loop.induct)
  case (1 rest)
  then show ?case using ExtendedReportBlock_Parse_safe [of rest]
    by (subst xr_loop.simps) (auto simp: Option.bind_eq_None_conv simp del: not_None_eq split: option.split)
qed

lemma xr_loop_Serialize:
  "\<forall>b \<in> set bs. xr_block_valid b \<Longrightarrow> xr_loop (concat (map xr_block_Serialize bs)) = Some bs"
proof (induction bs)
  case Nil
  then show ?case by (simp add: xr_loop.simps)
next
  case (Cons b bs)
  moreover have "xr_block_Serialize b \<noteq> []" by (cases b) simp_all
  ultimately show ?case
    by (subst xr_loop.simps) (simp add: xr_block_Parse_Serialize length_xr_block_Serialize)
qed

subsection \<open>Parsing never leaves the buffer\<close>

lemma bye_ssrcs_loop_total: "bye_ssrcs_loop n rest \<noteq> None"
  by (induction n arbitrary: rest) (auto simp: Option.bind_eq_None_conv safe simp del: not_None_eq)

lemma SenderReportPacket_Parse_total: "4 \<le> length d \<Longrightarrow> SenderReportPacket_Parse d \<noteq> None"
  using read_CommonHeader_defined [of d] sr.parse_safe
  by (auto simp: SenderReportPacket_Parse_def Option.bind_eq_None_conv simp del: not_None_eq)

lemma ReceiverReportPacket_Parse_total: "ReceiverReportPacket_Parse d offset \<noteq> None"
  using read_CommonHeader_defined [of d] rr.count_loop_total
  by (auto simp: ReceiverReportPacket_Parse_def Option.bind_eq_None_conv Let_def safe simp del: not_None_eq)

lemma SdesPacket_Parse_total: "4 \<le> length d \<Longrightarrow> SdesPacket_Parse d \<noteq> None"
  using read_CommonHeader_defined [of d] sdesChunk.count_loop_total
  by (auto simp: SdesPacket_Parse_def Option.bind_eq_None_conv simp del: not_None_eq)

lemma ByePacket_Parse_total: "4 \<le> length d \<Longrightarrow> ByePacket_Parse d \<noteq> None"
  using read_CommonHeader_defined [of d] bye_ssrcs_loop_total
  by (auto simp: ByePacket_Parse_def Option.bind_eq_None_conv safe Suc_le_eq simp del: not_None_eq split: option.split)

lemma ExtendedReportPacket_Parse_total: "ExtendedReportPacket_Parse d \<noteq> None"
  using read_CommonHeader_defined [of d] xr_loop_total
  by (auto simp: ExtendedReportPacket_Parse_def Option.bind_eq_None_conv safe simp del: not_None_eq)

subsection \<open>Properties\<close>

lemma hdr_count_Packet_Serialize:
  "n < 32 \<Longrightarrow> \<exists>h. read_CommonHeader (Packet_Serialize t n s @ rest) = Some h \<and> unat (hdr_count h) = n"
  by (simp add: read_CommonHeader_Packet_Serialize unat_count5)

text \<open>A sender report packet with its one report is serialized to the 28 bytes it announces, and
  parsing them gives back every field of the report.\<close>

lemma SenderReportPacket_roundtrip:
  "\<exists>b. SenderReportPacket_Serialize [r] = Some b \<and> length b = SenderReportPacket_GetSize [r] \<and>
     SenderReportPacket_Parse b = Some [r]"
  using sr.parse_ser [of r "[]"] sr.length_ser [of r]
  by (simp add: SenderReportPacket_Serialize_def SenderReportPacket_Parse_def SenderReportPacket_GetSize_def
      read_CommonHeader_Packet_Serialize)

text \<open>A receiver report packet of at most 31 report blocks survives serialization and parsing, and the
  serialization is as long as \<open>GetSize\<close> says.\<close>

lemma ReceiverReportPacket_roundtrip:
  assumes "length (rrp_reports p) < 32" and "\<forall>r \<in> set (rrp_reports p). rr_totalLost r < 2 ^ 24"
  shows "ReceiverReportPacket_Parse (ReceiverReportPacket_Serialize p) 0 = Some (Some p) \<and>
    length (ReceiverReportPacket_Serialize p) = ReceiverReportPacket_GetSize p"
  using assms rr.count_loop_ser [of "rrp_reports p" "[]"] rr.length_concat_ser [of "rrp_reports p"]
  by (simp add: ReceiverReportPacket_Serialize_def ReceiverReportPacket_Parse_def ReceiverReportPacket_GetSize_def
      read_CommonHeader_Packet_Serialize unat_count5 wire sizes)

lemma low23:
  fixes w :: u32
  assumes "w < 2 ^ 23"
  shows "w AND 0x7FFFFF = w" and "w AND 0xFFFFFF = w" and "(drop_bit 23 w) AND 1 = 0"
    and "(w OR 0x800000) AND 0xFFFFFF = w OR 0x800000" and "(drop_bit 23 (w OR 0x800000)) AND 1 = 1"
    and "(w OR 0x800000) AND NOT (push_bit 23 1) = w"
proof -
  note b = less_exp_bit [OF assms]
  have n: "0x7FFFFF = (mask 23 :: u32)" "0xFFFFFF = (mask 24 :: u32)" "0x800000 = (push_bit 23 1 :: u32)"
    by (simp_all add: mask_eq_exp_minus_1)
  show "w AND 0x7FFFFF = w" unfolding n by (rule bit_word_eqI) (auto simp: bit_simps dest: b)
  show "w AND 0xFFFFFF = w" unfolding n by (rule bit_word_eqI) (auto simp: bit_simps dest: b)
  show "(drop_bit 23 w) AND 1 = 0" by (rule bit_word_eqI) (auto simp: bit_simps bit_1_iff dest: b)
  show "(w OR 0x800000) AND 0xFFFFFF = w OR 0x800000"
    unfolding n by (rule bit_word_eqI) (auto simp: bit_simps bit_1_iff simp del: push_bit_of_1 dest: b)
  show "(drop_bit 23 (w OR 0x800000)) AND 1 = 1"
    unfolding n by (rule bit_word_eqI) (auto simp: bit_simps bit_1_iff simp del: push_bit_of_1 dest: b)
  show "(w OR 0x800000) AND NOT (push_bit 23 1) = w"
    unfolding n by (rule bit_word_eqI) (auto simp: bit_simps bit_1_iff simp del: push_bit_of_1 dest: b)
qed

text \<open>the total-lost counter of a receiver report, stored by \<open>SetTotalLost\<close>, is read back by
  \<open>GetTotalLost\<close> clamped to \<open>[-0x800000, 0x7FFFFF]\<close>, and the stored field fits its 24 bits.\<close>

lemma TotalLost_roundtrip:
  assumes "- (2 ^ 31) < t" and "t < 2 ^ 31"
  shows "\<exists>r'. SetTotalLost t r = Some r' \<and> rr_totalLost r' < 2 ^ 24 \<and>
    sint (GetTotalLost r') = max (- 0x800000) (min 0x7FFFFF t)"
proof -
  have sint: "sint (word_of_int k :: u32) = k" if "- (2 ^ 31) \<le> k" "k < 2 ^ 31" for k
    using that by (simp add: signed_of_int signed_take_bit_int_eq_self)
  consider "0 \<le> t" | "t < 0" "- 0x800000 < t" | "t \<le> - 0x800000" by linarith
  then show ?thesis
  proof cases
    case 1
    let ?w = "word_of_int (min 0x7FFFFF t) :: u32"
    have w: "?w < 2 ^ 23" using 1 by (simp add: word_less_def uint_word_of_int take_bit_int_eq_self)
    then have "SetTotalLost t r = Some (r\<lparr>rr_totalLost := ?w\<rparr>)"
      using 1 assms low23 [OF w] by (auto simp: SetTotalLost_def Let_def min_def)
    moreover have "?w < 2 ^ 24" using w by (simp add: word_less_nat_alt)
    ultimately show ?thesis using 1 low23 [OF w] sint [of "min 0x7FFFFF t"]
      by (auto simp: GetTotalLost_def Let_def)
  next
    case 2
    define k where "k = - t"
    let ?w = "word_of_int k :: u32"
    have k: "0 < k" "k < 0x800000" and t: "t = - k" using 2 by (simp_all add: k_def)
    have w: "?w < 2 ^ 23" and "?w \<noteq> 0"
      using k by (auto simp: word_less_def word_uint_eq_iff uint_word_of_int take_bit_int_eq_self)
    have "?w OR 0x800000 \<noteq> 0x800000"
    proof
      assume "?w OR 0x800000 = 0x800000"
      with low23(6) [OF w] have "?w = 0x800000 AND NOT (push_bit 23 1)" by simp
      with \<open>?w \<noteq> 0\<close> show False by simp
    qed
    moreover have "SetTotalLost t r = Some (r\<lparr>rr_totalLost := ?w OR 0x800000\<rparr>)"
      using k assms low23 [OF w] by (auto simp: SetTotalLost_def Let_def t)
    moreover have "?w OR 0x800000 < 2 ^ 24"
      using and_mask_less_size [of 24 "?w OR 0x800000"] low23(4) [OF w] by (simp add: mask_eq_exp_minus_1 word_size)
    ultimately show ?thesis using k low23 [OF w] sint [of t]
      by (auto simp: GetTotalLost_def Let_def t simp del: push_bit_of_1)
  next
    case 3
    then have "SetTotalLost t r = Some (r\<lparr>rr_totalLost := 0x800000\<rparr>)"
      using assms by (cases "t = - 0x800000") (auto simp: SetTotalLost_def Let_def)
    then show ?thesis using 3 by (simp add: GetTotalLost_def)
  qed
qed

text \<open>An SDES packet of at most 31 chunks survives serialization and parsing when its items are
  well formed (no \<open>END\<close> item, a length byte that tells the length of the value) and every chunk but
  the last one ends with padding.\<close>

lemma SdesPacket_roundtrip:
  assumes "length cs < 31" and "\<forall>c \<in> set cs. sdes_chunk_valid c \<and> sdes_chunk_padded c" and "sdes_chunk_valid c"
  shows "SdesPacket_Parse (SdesPacket_Serialize (cs @ [c])) = Some (cs @ [c]) \<and>
    length (SdesPacket_Serialize (cs @ [c])) = SdesPacket_GetSize (cs @ [c])"
proof -
  have "SdesChunk_Serialize c \<noteq> []" by (simp add: SdesChunk_Serialize_eq assms(3) put4_def)
  then have "count_loop SdesChunk_Parse SdesChunk_GetSize 1 (SdesChunk_Serialize c) = Some [c]"
    using SdesChunk_Parse_Serialize [of c "[]"] assms(3) by simp
  then have "count_loop SdesChunk_Parse SdesChunk_GetSize (length cs + 1)
      (concat (map SdesChunk_Serialize cs) @ SdesChunk_Serialize c) = Some (cs @ [c])"
    using sdesChunk.count_loop_ser_append [OF assms(2), of 1 "SdesChunk_Serialize c"] by simp
  moreover have "unat (of_nat (length (cs @ [c])) AND 31 :: u8) = length cs + 1"
    using unat_count5 [of "length (cs @ [c])"] assms(1) by simp
  ultimately show ?thesis
    using sdesChunk.length_concat_ser [OF assms(2)] length_SdesChunk_Serialize [OF assms(3)]
    by (simp add: SdesPacket_Serialize_def SdesPacket_Parse_def SdesPacket_GetSize_def
        read_CommonHeader_Packet_Serialize del: of_nat_Suc)
qed

lemma bye_ssrcs_loop_put4:
  "bye_ssrcs_loop (length ss) (concat (map put4 ss) @ rest) = Some (Some (ss, rest))"
proof (induction ss)
  case (Cons s ss)
  then show ?case by (simp add: byte4.get_put byte4.length_put) (simp add: put4_def)
qed simp

text \<open>A BYE packet of at most 31 SSRCs and a reason of at most 255 bytes survives serialization and
  parsing, and its serialization is padded to a multiple of four bytes as \<open>GetSize\<close> says.\<close>

lemma ByePacket_roundtrip:
  assumes "length (bye_ssrcs p) < 32" and "length (bye_reason p) < 256"
  shows "ByePacket_Parse (ByePacket_Serialize p) = Some (Some p) \<and>
    length (ByePacket_Serialize p) = ByePacket_GetSize p \<and> 4 dvd ByePacket_GetSize p"
proof -
  let ?r = "if bye_reason p \<noteq> [] then of_nat (length (bye_reason p)) # bye_reason p else []"
  let ?n = "4 + length (bye_ssrcs p) * 4 + length ?r"
  have len: "length (concat (map put4 (bye_ssrcs p))) = length (bye_ssrcs p) * 4"
    by (simp add: length_concat_const byte4.length_put)
  then have ser: "ByePacket_Serialize p = Packet_Serialize BYE (length (bye_ssrcs p)) (ByePacket_GetSize p) @
      concat (map put4 (bye_ssrcs p)) @ ?r @ replicate (pad4 ?n) 0"
    by (simp add: ByePacket_Serialize_def Let_def)
  have "pad4 ?n = 0" if "bye_reason p = []" using that by (simp add: pad4_eq_0_iff)
  moreover have "unat (of_nat (length (bye_reason p)) :: u8) = length (bye_reason p)"
    using assms(2) by (intro unat_of_nat_less) simp
  ultimately have "ByePacket_Parse (ByePacket_Serialize p) = Some (Some p)"
    using assms(1) bye_ssrcs_loop_put4 [of "bye_ssrcs p" "?r @ replicate (pad4 ?n) 0"]
    by (auto simp: ser ByePacket_Parse_def read_CommonHeader_Packet_Serialize unat_count5)
  moreover have "length (ByePacket_Serialize p) = ByePacket_GetSize p"
    by (simp add: ser len ByePacket_GetSize_def align4_pad4)
  moreover have "4 dvd ByePacket_GetSize p" by (simp add: ByePacket_GetSize_def)
  ultimately show ?thesis by blast
qed

text \<open>An XR packet whose blocks are receiver reference times and DLRR blocks of at most one sub-block
  survives serialization and parsing.\<close>

lemma ExtendedReportPacket_roundtrip:
  assumes "\<forall>b \<in> set (xr_reports p). xr_block_valid b"
  shows "ExtendedReportPacket_Parse (ExtendedReportPacket_Serialize p) = Some (Some p) \<and>
    length (ExtendedReportPacket_Serialize p) = ExtendedReportPacket_GetSize p"
  using xr_loop_Serialize [OF assms] xrBlock.length_concat_ser [OF assms]
  by (simp add: ExtendedReportPacket_Serialize_def ExtendedReportPacket_Parse_def ExtendedReportPacket_GetSize_def
      read_CommonHeader_Packet_Serialize wire sizes)

text \<open>a DLRR block with two sub-blocks is serialized correctly but parsed with one: the loop skips
  every second sub-block, and the packet loop then reads the skipped one as a block of its own.\<close>

lemma DelaySinceLastRr_skips_subblocks:
  "let a = \<lparr>si_ssrc = 1, si_lrr = 2, si_dlrr = 3\<rparr>; b = \<lparr>si_ssrc = 4, si_lrr = 5, si_dlrr = 6\<rparr>
   in DelaySinceLastRr_Parse (xr_block_Serialize (DLRR [a, b])) = Some (Some (DLRR [a]))"
  by code_simp

text \<open>two SDES chunks, the first of which ends on a 32-bit boundary: no \<open>END\<close> octet is written after it,
  and the parser reads the second chunk as items of the first one.\<close>

lemma SdesChunk_missing_end:
  "let a = \<lparr>chunk_ssrc = 1, chunk_items = [\<lparr>sdes_type = 1, sdes_length = 2, sdes_value = [65, 66]\<rparr>]\<rparr>;
       b = \<lparr>chunk_ssrc = 0x01020304, chunk_items = [\<lparr>sdes_type = 1, sdes_length = 2, sdes_value = [67, 68]\<rparr>]\<rparr>
   in SdesPacket_Parse (SdesPacket_Serialize [a, b]) \<noteq> Some [a, b]"
  by code_simp

end
