(* ===== verification/Rtcp_Feedback.thy ===== *)
theory Rtcp_Feedback
  imports Rtcp_Packet
begin

text \<open>
  RTCP feedback packets: the class templates \<^verbatim>\<open>FeedbackPacket<T>\<close>, \<^verbatim>\<open>FeedbackPsItemsPacket<Item>\<close>
  and \<^verbatim>\<open>FeedbackRtpItemsPacket<Item>\<close> (\<^verbatim>\<open>src/RTC/RTCP/Feedback.cpp\<close>, \<^verbatim>\<open>FeedbackPs.cpp\<close>,
  \<^verbatim>\<open>FeedbackRtp.cpp\<close>, \<^verbatim>\<open>include/RTC/RTCP/FeedbackItem.hpp\<close>). The template parameter \<open>Item\<close> is a
  record of the operations the templates call on it. The locales \<open>parsable_item\<close> and
  \<open>codec_item\<close> state what an item class must provide for the templates to be memory safe and to
  give back what they serialized; the item classes interpret them in \<open>Rtcp_Items\<close>.
\<close>

subsection \<open>The item interface of the templates\<close>

record 'i item_ops =
  item_messageType :: u8                   \<comment> \<open>\<open>Item::messageType\<close>\<close>
  item_header_size :: nat                  \<comment> \<open>\<open>sizeof(Item::Header)\<close>\<close>
  item_ctor :: "bytes \<Rightarrow> 'i option"         \<comment> \<open>\<open>Item(header)\<close>, the bytes from \<open>header\<close> on\<close>
  item_isCorrect :: "'i \<Rightarrow> bool"
  item_GetSize :: "'i \<Rightarrow> nat"
  item_Serialize :: "'i \<Rightarrow> bytes option"

definition FeedbackItem_Parse :: "'i item_ops \<Rightarrow> bytes \<Rightarrow> 'i option option" where
  "FeedbackItem_Parse ops d =
     (if item_header_size ops > length d then Some None
      else do { item \<leftarrow> item_ctor ops d; Some (Some item) })"

subsection \<open>FeedbackPacket<T>\<close>

record fb_header =
  fb_messageType :: u8
  fb_senderSsrc :: u32
  fb_mediaSsrc :: u32

abbreviation (input) "SIZEOF_FeedbackHeaders \<equiv> (12::nat)"

definition FeedbackPacket_ctor :: "bytes \<Rightarrow> fb_header option" where
  "FeedbackPacket_ctor d = do {
     h \<leftarrow> read_CommonHeader d;
     sender \<leftarrow> Get4Bytes d 4;
     media \<leftarrow> Get4Bytes d 8;
     Some \<lparr>fb_messageType = hdr_count h, fb_senderSsrc = sender, fb_mediaSsrc = media\<rparr> }"

definition FeedbackPacket_Serialize :: "rtcp_type \<Rightarrow> nat \<Rightarrow> fb_header \<Rightarrow> bytes" where
  "FeedbackPacket_Serialize type sz h =
     Packet_Serialize type (unat (fb_messageType h)) sz @ put4 (fb_senderSsrc h) @ put4 (fb_mediaSsrc h)"

subsection \<open>FeedbackPsItemsPacket<Item> and FeedbackRtpItemsPacket<Item>\<close>

text \<open>
  The parsing loop, on the bytes that are left. The PS template checks \<open>IsCorrect\<close> of each item,
  the RTP template does not. An item of size 0 would make the loop spin for ever: \<open>None\<close>.
\<close>

function items_loop :: "bool \<Rightarrow> 'i item_ops \<Rightarrow> bytes \<Rightarrow> 'i list option" where
  "items_loop checked ops rest =
     (if rest = [] then Some []
      else case FeedbackItem_Parse ops rest of
        None \<Rightarrow> None
      | Some None \<Rightarrow> Some []
      | Some (Some item) \<Rightarrow>
          if checked \<and> \<not> item_isCorrect ops item then Some []
          else if item_GetSize ops item = 0 then None
          else do { items \<leftarrow> items_loop checked ops (drop (item_GetSize ops item) rest);
                    Some (item # items) })"
  by pat_completeness auto
termination
  by (relation "measure (\<lambda>(_, _, rest). length rest)") auto

declare items_loop.simps [simp del]

record 'i items_packet =
  ip_header :: fb_header
  ip_items :: "'i list"

definition FeedbackPsItemsPacket_Parse :: "'i item_ops \<Rightarrow> bytes \<Rightarrow> 'i items_packet option option" where
  "FeedbackPsItemsPacket_Parse ops d =
     (if length d < SIZEOF_FeedbackHeaders then Some None
      else do {
        h \<leftarrow> FeedbackPacket_ctor d;
        items \<leftarrow> items_loop True ops (drop 12 d);
        Some (Some \<lparr>ip_header = h, ip_items = items\<rparr>) })"

definition FeedbackRtpItemsPacket_Parse :: "'i item_ops \<Rightarrow> bytes \<Rightarrow> 'i items_packet option option" where
  "FeedbackRtpItemsPacket_Parse ops d =
     (if length d < SIZEOF_FeedbackHeaders then Some None
      else do {
        h \<leftarrow> FeedbackPacket_ctor d;
        items \<leftarrow> items_loop False ops (drop 12 d);
        Some (Some \<lparr>ip_header = h, ip_items = items\<rparr>) })"

definition ItemsPacket_new :: "'i item_ops \<Rightarrow> u32 \<Rightarrow> u32 \<Rightarrow> 'i items_packet" where
  "ItemsPacket_new ops sender media =
     \<lparr>ip_header = \<lparr>fb_messageType = item_messageType ops, fb_senderSsrc = sender, fb_mediaSsrc = media\<rparr>,
      ip_items = []\<rparr>"

definition ItemsPacket_AddItem :: "'i items_packet \<Rightarrow> 'i \<Rightarrow> 'i items_packet" where
  "ItemsPacket_AddItem p item = p\<lparr>ip_items := ip_items p @ [item]\<rparr>"

definition ItemsPacket_GetSize :: "'i item_ops \<Rightarrow> 'i items_packet \<Rightarrow> nat" where
  "ItemsPacket_GetSize ops p = 12 + sum_list (map (item_GetSize ops) (ip_items p))"

fun items_Serialize :: "'i item_ops \<Rightarrow> 'i list \<Rightarrow> bytes option" where
  "items_Serialize ops [] = Some []"
| "items_Serialize ops (i # is) = do {
     b \<leftarrow> item_Serialize ops i;
     bs \<leftarrow> items_Serialize ops is;
     Some (b @ bs) }"

definition ItemsPacket_Serialize :: "rtcp_type \<Rightarrow> 'i item_ops \<Rightarrow> 'i items_packet \<Rightarrow> bytes option" where
  "ItemsPacket_Serialize type ops p = do {
     bs \<leftarrow> items_Serialize ops (ip_items p);
     Some (FeedbackPacket_Serialize type (ItemsPacket_GetSize ops p) (ip_header p) @ bs) }"

subsection \<open>What the templates need of an item class\<close>

lemma length_FeedbackPacket_Serialize [simp, sizes]: "length (FeedbackPacket_Serialize t s h) = 12"
  by (simp add: FeedbackPacket_Serialize_def byte4.length_put)

lemma FeedbackPacket_ctor_defined: "12 \<le> length d \<Longrightarrow> \<exists>h. FeedbackPacket_ctor d = Some h"
  using read_CommonHeader_defined [of d] byte4.get_ex [of 4 d] byte4.get_ex [of 8 d]
  by (auto simp: FeedbackPacket_ctor_def)

lemma count5_id: "w < 32 \<Longrightarrow> of_nat (unat w) AND 31 = w" for w :: u8
  using unat_count5 [of "unat w"] by (simp add: word_less_nat_alt word_unat_eq_iff)

lemma fb_common_header:
  assumes "fb_messageType h < 32"
  shows "\<exists>ch. read_CommonHeader (FeedbackPacket_Serialize t s h @ rest) = Some ch \<and>
    hdr_count ch = fb_messageType h \<and> hdr_packetType ch = rtcp_type_code t \<and>
    (4 dvd s \<and> 4 \<le> s \<and> s \<le> 2 ^ 18 \<longrightarrow> announced_len ch = s)"
  using count5_id [OF assms]
  by (simp add: FeedbackPacket_Serialize_def read_CommonHeader_Packet_Serialize
      announced_len_serialized [simplified])

lemma FeedbackPacket_roundtrip:
  assumes "fb_messageType h < 32"
  shows "FeedbackPacket_ctor (FeedbackPacket_Serialize t s h @ rest) = Some h"
  using count5_id [OF assms]
  by (simp add: FeedbackPacket_ctor_def FeedbackPacket_Serialize_def read_CommonHeader_Packet_Serialize wire sizes)

locale parsable_item =
  fixes ops :: "'i item_ops"
  assumes ctor_safe: "item_ctor ops d = None \<Longrightarrow> length d < item_header_size ops"
    and size_pos: "item_ctor ops d = Some i \<Longrightarrow> 0 < item_GetSize ops i"
begin

lemma items_loop_total: "items_loop checked ops rest \<noteq> None"
proof (induction "length rest" arbitrary: rest rule: less_induct)
  case less
  show ?case
    using less ctor_safe [of rest] size_pos [of rest]
    by (subst items_loop.simps)
      (cases "item_ctor ops rest"; auto simp: FeedbackItem_Parse_def not_less bind_eq_Some_iff
        intro!: bind_neq_NoneI split: option.split)
qed

lemma FeedbackPsItemsPacket_Parse_total: "FeedbackPsItemsPacket_Parse ops d \<noteq> None"
  using FeedbackPacket_ctor_defined [of d] items_loop_total
  by (auto simp: FeedbackPsItemsPacket_Parse_def bind_eq_Some_iff)

lemma FeedbackRtpItemsPacket_Parse_total: "FeedbackRtpItemsPacket_Parse ops d \<noteq> None"
  using FeedbackPacket_ctor_defined [of d] items_loop_total
  by (auto simp: FeedbackRtpItemsPacket_Parse_def bind_eq_Some_iff)

end

locale codec_item = parsable_item +
  fixes valid :: "'i \<Rightarrow> bool"
  assumes serialize_ctor: "valid i \<Longrightarrow>
      \<exists>b. item_Serialize ops i = Some b \<and> length b = item_GetSize ops i \<and> item_header_size ops \<le> length b \<and>
        (\<forall>rest. item_ctor ops (b @ rest) = Some i)"
    and valid_correct: "valid i \<Longrightarrow> item_isCorrect ops i"
    and size_dvd4: "valid i \<Longrightarrow> 4 dvd item_GetSize ops i"
begin

lemma items_roundtrip:
  assumes "\<forall>i \<in> set is. valid i"
  shows "\<exists>bs. items_Serialize ops is = Some bs \<and> length bs = sum_list (map (item_GetSize ops) is) \<and>
    items_loop checked ops bs = Some is"
  using assms
proof (induction "is")
  case Nil
  then show ?case by (simp add: items_loop.simps)
next
  case (Cons i "is")
  from Cons.prems have v: "valid i" by simp
  from serialize_ctor [OF v] obtain b where b: "item_Serialize ops i = Some b"
    "length b = item_GetSize ops i" "item_header_size ops \<le> length b" "\<And>rest. item_ctor ops (b @ rest) = Some i"
    by blast
  from Cons obtain bs where bs: "items_Serialize ops is = Some bs"
    "length bs = sum_list (map (item_GetSize ops) is)" "items_loop checked ops bs = Some is" by auto
  have "0 < item_GetSize ops i" using size_pos b(4) by blast
  then have "items_loop checked ops (b @ bs) = Some (i # is)"
    using b bs valid_correct [OF v]
    by (subst items_loop.simps) (auto simp: FeedbackItem_Parse_def)
  with b bs show ?case by simp
qed

lemma packet_roundtrip:
  assumes valid: "\<forall>i \<in> set (ip_items p). valid i" and mt: "fb_messageType (ip_header p) < 32"
  shows "\<exists>bs. ItemsPacket_Serialize type ops p = Some bs \<and> length bs = ItemsPacket_GetSize ops p \<and>
    4 dvd length bs \<and> FeedbackPsItemsPacket_Parse ops bs = Some (Some p) \<and>
    FeedbackRtpItemsPacket_Parse ops bs = Some (Some p)"
proof -
  from items_roundtrip [OF valid, of True] obtain bs where bs: "items_Serialize ops (ip_items p) = Some bs"
    "length bs = sum_list (map (item_GetSize ops) (ip_items p))" "items_loop True ops bs = Some (ip_items p)"
    by blast
  from items_roundtrip [OF valid, of False] bs(1) have f: "items_loop False ops bs = Some (ip_items p)"
    by auto
  let ?h = "FeedbackPacket_Serialize type (ItemsPacket_GetSize ops p) (ip_header p)"
  have "4 dvd sum_list (map (item_GetSize ops) (ip_items p))"
    using valid size_dvd4 by (intro sum_list_dvd) auto
  moreover have "FeedbackPacket_ctor (?h @ bs) = Some (ip_header p)"
    using mt by (intro FeedbackPacket_roundtrip) simp_all
  ultimately show ?thesis
    using bs f by (auto simp: ItemsPacket_Serialize_def ItemsPacket_GetSize_def
        FeedbackPsItemsPacket_Parse_def FeedbackRtpItemsPacket_Parse_def)
qed

end

end
