(* ===== verification/Rtcp_Items.thy ===== *)
theory Rtcp_Items
  imports Rtcp_Feedback
begin

text \<open>
  The item classes of the feedback templates, each with its \<open>Header\<close> as the sources lay it out
  (little-endian bit fields), its constructor from received bytes, its constructor for local use,
  its getters and \<open>Serialize\<close>: FIR, SLI, RPSI, LEI, TSTR/TSTN, VBCM
  (\<^verbatim>\<open>src/RTC/RTCP/FeedbackPs*.cpp\<close>) and NACK, TLLEI, TMMBR/TMMBN, ECN
  (\<^verbatim>\<open>src/RTC/RTCP/FeedbackRtp*.cpp\<close>). Each class interprets the locales of \<open>Rtcp_Feedback\<close>.
\<close>

subsection \<open>Message types\<close>

datatype fb_ps_type = PLI | SLI | RPSI | FIR | TSTR | TSTN | VBCM | PSLEI | ROI | AFB | PS_EXT

fun fb_ps_code :: "fb_ps_type \<Rightarrow> u8" where
  "fb_ps_code PLI = 1" | "fb_ps_code SLI = 2" | "fb_ps_code RPSI = 3" | "fb_ps_code FIR = 4"
| "fb_ps_code TSTR = 5" | "fb_ps_code TSTN = 6" | "fb_ps_code VBCM = 7" | "fb_ps_code PSLEI = 8"
| "fb_ps_code ROI = 9" | "fb_ps_code AFB = 15" | "fb_ps_code PS_EXT = 31"

datatype fb_rtp_type = NACK | TMMBR | TMMBN | SR_REQ | RAMS | TLLEI | ECN | PS | TCC | RTP_EXT

fun fb_rtp_code :: "fb_rtp_type \<Rightarrow> u8" where
  "fb_rtp_code NACK = 1" | "fb_rtp_code TMMBR = 3" | "fb_rtp_code TMMBN = 4" | "fb_rtp_code SR_REQ = 5"
| "fb_rtp_code RAMS = 6" | "fb_rtp_code TLLEI = 7" | "fb_rtp_code ECN = 8" | "fb_rtp_code PS = 9"
| "fb_rtp_code TCC = 15" | "fb_rtp_code RTP_EXT = 31"

subsection \<open>FeedbackPsFirItem\<close>

record FirItem =
  fir_ssrc :: u32
  fir_sequenceNumber :: u8
  fir_reserved :: "u8 \<times> u8 \<times> u8"

definition FirItem_ctor :: "bytes \<Rightarrow> FirItem option" where
  "FirItem_ctor d = do {
     ssrc \<leftarrow> Get4Bytes d 0; sn \<leftarrow> Get1Byte d 4;
     r0 \<leftarrow> Get1Byte d 5; r1 \<leftarrow> Get1Byte d 6; r2 \<leftarrow> Get1Byte d 7;
     Some \<lparr>fir_ssrc = ssrc, fir_sequenceNumber = sn, fir_reserved = (r0, r1, r2)\<rparr> }"

definition FirItem_new :: "u32 \<Rightarrow> u8 \<Rightarrow> FirItem" where
  "FirItem_new ssrc sn = \<lparr>fir_ssrc = ssrc, fir_sequenceNumber = sn, fir_reserved = (0, 0, 0)\<rparr>"

definition FirItem_Serialize :: "FirItem \<Rightarrow> bytes option" where
  "FirItem_Serialize i = (case fir_reserved i of (r0, r1, r2) \<Rightarrow>
     Some (put4 (fir_ssrc i) @ [fir_sequenceNumber i, r0, r1, r2]))"

definition FirItem_ops :: "FirItem item_ops" where
  "FirItem_ops = \<lparr>item_messageType = fb_ps_code FIR, item_header_size = 8, item_ctor = FirItem_ctor,
     item_isCorrect = (\<lambda>_. True), item_GetSize = (\<lambda>_. 8), item_Serialize = FirItem_Serialize\<rparr>"

subsection \<open>FeedbackPsSliItem\<close>

record SliItem =
  sli_first :: u16
  sli_number :: u16
  sli_pictureId :: u8

definition SliItem_ctor :: "bytes \<Rightarrow> SliItem option" where
  "SliItem_ctor d = do {
     compact \<leftarrow> Get4Bytes d 0;
     Some \<lparr>sli_first = ucast (drop_bit 19 compact), sli_number = ucast ((drop_bit 6 compact) AND 0x1fff),
       sli_pictureId = ucast (compact AND 0x3f)\<rparr> }"

definition SliItem_Serialize :: "SliItem \<Rightarrow> bytes option" where
  "SliItem_Serialize i =
     Some (put4 (push_bit 19 (ucast (sli_first i)) OR push_bit 6 (ucast (sli_number i)) OR ucast (sli_pictureId i)))"

definition SliItem_ops :: "SliItem item_ops" where
  "SliItem_ops = \<lparr>item_messageType = fb_ps_code SLI, item_header_size = 4, item_ctor = SliItem_ctor,
     item_isCorrect = (\<lambda>_. True), item_GetSize = (\<lambda>_. 4), item_Serialize = SliItem_Serialize\<rparr>"

subsection \<open>FeedbackPsRpsiItem\<close>

text \<open>The second header byte holds \<open>zero : 1\<close> in its lowest bit and \<open>payloadType : 7\<close> above it.
  \<open>length\<close> is the \<open>size_t\<close> difference, which wraps when the padding is too large.\<close>

record RpsiItem =
  rpsi_paddingBits :: u8
  rpsi_byte1 :: u8
  rpsi_bitString :: bytes
  rpsi_length :: u64
  rpsi_isCorrect :: bool

definition RpsiItem_GetPayloadType :: "RpsiItem \<Rightarrow> u8" where
  "RpsiItem_GetPayloadType i = drop_bit 1 (rpsi_byte1 i)"

definition RpsiItem_ctor :: "bytes \<Rightarrow> RpsiItem option" where
  "RpsiItem_ctor d = do {
     pb \<leftarrow> Get1Byte d 0; b1 \<leftarrow> Get1Byte d 1;
     s0 \<leftarrow> Get1Byte d 2; s1 \<leftarrow> Get1Byte d 3; s2 \<leftarrow> Get1Byte d 4;
     s3 \<leftarrow> Get1Byte d 5; s4 \<leftarrow> Get1Byte d 6; s5 \<leftarrow> Get1Byte d 7;
     let paddingBytes = unat pb div 8
     in Some \<lparr>rpsi_paddingBits = pb, rpsi_byte1 = b1, rpsi_bitString = [s0, s1, s2, s3, s4, s5],
       rpsi_length = 6 - of_nat paddingBytes, rpsi_isCorrect = (unat pb mod 8 = 0 \<and> \<not> paddingBytes > 6)\<rparr> }"

text \<open>The local constructor. \<open>raw\<close> is the content of the fresh heap block, which \<open>new uint8_t[8]\<close>
  leaves indeterminate. \<open>None\<close> is a failed assertion or a write outside the block.\<close>

definition RpsiItem_new :: "bytes \<Rightarrow> u8 \<Rightarrow> bytes \<Rightarrow> RpsiItem option" where
  "RpsiItem_new raw payloadType bitString =
     (if \<not> payloadType \<le> 0x7f \<or> \<not> length bitString \<le> 6 \<or> length raw \<noteq> 8 then None
      else
        let padding = pad4 (length bitString);
            raw = raw[0 := of_nat (padding * 8), 1 := (raw ! 1) AND NOT 1];
            raw = take 2 raw @ bitString @ drop (2 + length bitString) raw
        in if padding > 1 then None
           else let raw = (if padding = 1 then raw[7 := 0] else raw)
                in Some \<lparr>rpsi_paddingBits = raw ! 0, rpsi_byte1 = raw ! 1, rpsi_bitString = drop 2 raw,
                     rpsi_length = 0, rpsi_isCorrect = True\<rparr>)"

definition RpsiItem_Serialize :: "RpsiItem \<Rightarrow> bytes option" where
  "RpsiItem_Serialize i = Some ([rpsi_paddingBits i, rpsi_byte1 i] @ rpsi_bitString i)"

definition RpsiItem_ops :: "RpsiItem item_ops" where
  "RpsiItem_ops = \<lparr>item_messageType = fb_ps_code RPSI, item_header_size = 8, item_ctor = RpsiItem_ctor,
     item_isCorrect = rpsi_isCorrect, item_GetSize = (\<lambda>_. 8), item_Serialize = RpsiItem_Serialize\<rparr>"

subsection \<open>FeedbackPsLeiItem\<close>

record LeiItem =
  lei_ssrc :: u32

definition LeiItem_ctor :: "bytes \<Rightarrow> LeiItem option" where
  "LeiItem_ctor d = do { ssrc \<leftarrow> Get4Bytes d 0; Some \<lparr>lei_ssrc = ssrc\<rparr> }"

definition LeiItem_new :: "u32 \<Rightarrow> LeiItem" where
  "LeiItem_new ssrc = \<lparr>lei_ssrc = ssrc\<rparr>"

definition LeiItem_Serialize :: "LeiItem \<Rightarrow> bytes option" where
  "LeiItem_Serialize i = Some (put4 (lei_ssrc i))"

definition LeiItem_ops :: "LeiItem item_ops" where
  "LeiItem_ops = \<lparr>item_messageType = fb_ps_code PSLEI, item_header_size = 4, item_ctor = LeiItem_ctor,
     item_isCorrect = (\<lambda>_. True), item_GetSize = (\<lambda>_. 4), item_Serialize = LeiItem_Serialize\<rparr>"

subsection \<open>FeedbackPsTstItem<T>\<close>

text \<open>The second word is the bit field \<open>sequenceNumber : 8, reserved : 19, index : 5\<close>: byte 4, then
  bytes 5 and 6 and the low three bits of byte 7, then the high five bits of byte 7.\<close>

record TstItem =
  tst_ssrc :: u32
  tst_sequenceNumber :: u8
  tst_byte5 :: u8
  tst_byte6 :: u8
  tst_byte7 :: u8

definition TstItem_ctor :: "bytes \<Rightarrow> TstItem option" where
  "TstItem_ctor d = do {
     ssrc \<leftarrow> Get4Bytes d 0; sn \<leftarrow> Get1Byte d 4;
     b5 \<leftarrow> Get1Byte d 5; b6 \<leftarrow> Get1Byte d 6; b7 \<leftarrow> Get1Byte d 7;
     Some \<lparr>tst_ssrc = ssrc, tst_sequenceNumber = sn, tst_byte5 = b5, tst_byte6 = b6, tst_byte7 = b7\<rparr> }"

definition TstItem_GetIndex :: "TstItem \<Rightarrow> u8" where
  "TstItem_GetIndex i = drop_bit 3 (tst_byte7 i)"

definition TstItem_new :: "u32 \<Rightarrow> u8 \<Rightarrow> u8 \<Rightarrow> TstItem" where
  "TstItem_new ssrc sn index =
     \<lparr>tst_ssrc = ssrc, tst_sequenceNumber = sn, tst_byte5 = 0, tst_byte6 = 0, tst_byte7 = push_bit 3 index\<rparr>"

definition TstItem_Serialize :: "TstItem \<Rightarrow> bytes option" where
  "TstItem_Serialize i =
     Some (put4 (tst_ssrc i) @ [tst_sequenceNumber i, tst_byte5 i, tst_byte6 i, tst_byte7 i])"

definition TstItem_ops :: "fb_ps_type \<Rightarrow> TstItem item_ops" where
  "TstItem_ops t = \<lparr>item_messageType = fb_ps_code t, item_header_size = 8, item_ctor = TstItem_ctor,
     item_isCorrect = (\<lambda>_. True), item_GetSize = (\<lambda>_. 8), item_Serialize = TstItem_Serialize\<rparr>"

subsection \<open>FeedbackPsVbcmItem\<close>

text \<open>\<open>vbcm_value\<close> is the memory from \<open>header->value\<close> to the end of the packet; the item does not
  check that \<open>length\<close> bytes of it exist.\<close>

record VbcmItem =
  vbcm_ssrc :: u32
  vbcm_sequenceNumber :: u8
  vbcm_byte5 :: u8
  vbcm_length :: u16
  vbcm_value :: bytes

definition VbcmItem_ctor :: "bytes \<Rightarrow> VbcmItem option" where
  "VbcmItem_ctor d = do {
     ssrc \<leftarrow> Get4Bytes d 0; sn \<leftarrow> Get1Byte d 4; b5 \<leftarrow> Get1Byte d 5; len \<leftarrow> Get2Bytes d 6;
     Some \<lparr>vbcm_ssrc = ssrc, vbcm_sequenceNumber = sn, vbcm_byte5 = b5, vbcm_length = len,
       vbcm_value = drop 8 d\<rparr> }"

text \<open>The local constructor allocates \<open>8 + length\<close> bytes, whose previous content is \<open>mem\<close>, and copies
  \<open>sizeof(length)\<close> = 2 bytes of the value, whatever \<open>length\<close> is; \<open>None\<close> is a copy out of bounds.\<close>

definition VbcmItem_new :: "bytes \<Rightarrow> u32 \<Rightarrow> u8 \<Rightarrow> u8 \<Rightarrow> u16 \<Rightarrow> bytes \<Rightarrow> VbcmItem option" where
  "VbcmItem_new mem ssrc sn pt len value =
     (if 2 \<le> unat len \<and> 2 \<le> length value then
        Some \<lparr>vbcm_ssrc = ssrc, vbcm_sequenceNumber = sn, vbcm_byte5 = push_bit 1 pt, vbcm_length = len,
          vbcm_value = take 2 value @ drop 10 (take (8 + unat len) mem)\<rparr>
      else None)"

definition VbcmItem_GetPayloadType :: "VbcmItem \<Rightarrow> u8" where
  "VbcmItem_GetPayloadType i = drop_bit 1 (vbcm_byte5 i)"

definition VbcmItem_GetSize :: "VbcmItem \<Rightarrow> nat" where
  "VbcmItem_GetSize i = align4 (8 + unat (vbcm_length i))"

definition VbcmItem_Serialize :: "VbcmItem \<Rightarrow> bytes option" where
  "VbcmItem_Serialize i =
     (let n = unat (vbcm_length i) in
      if n \<le> length (vbcm_value i) then
        Some (put4 (vbcm_ssrc i) @ [vbcm_sequenceNumber i, vbcm_byte5 i] @ put2 (vbcm_length i) @
          take n (vbcm_value i) @ replicate (pad4 (8 + n)) 0)
      else None)"

definition VbcmItem_ops :: "VbcmItem item_ops" where
  "VbcmItem_ops = \<lparr>item_messageType = fb_ps_code FIR, item_header_size = 8, item_ctor = VbcmItem_ctor,
     item_isCorrect = (\<lambda>_. True), item_GetSize = VbcmItem_GetSize, item_Serialize = VbcmItem_Serialize\<rparr>"

subsection \<open>FeedbackRtpNackItem and FeedbackRtpTlleiItem\<close>

record NackItem =
  nack_packetId :: u16
  nack_lostPacketBitmask :: u16

definition NackItem_ctor :: "bytes \<Rightarrow> NackItem option" where
  "NackItem_ctor d = do {
     pid \<leftarrow> Get2Bytes d 0; blp \<leftarrow> Get2Bytes d 2;
     Some \<lparr>nack_packetId = pid, nack_lostPacketBitmask = blp\<rparr> }"

definition NackItem_new :: "u16 \<Rightarrow> u16 \<Rightarrow> NackItem" where
  "NackItem_new pid blp = \<lparr>nack_packetId = pid, nack_lostPacketBitmask = blp\<rparr>"

text \<open>\<open>CountRequestedPackets\<close> counts the bits of \<open>header->lostPacketBitmask\<close> as it lies in memory, in
  network byte order.\<close>

definition bswap16 :: "u16 \<Rightarrow> u16" where
  "bswap16 v = push_bit 8 v OR drop_bit 8 v"

definition CountRequestedPackets :: "NackItem \<Rightarrow> nat" where
  "CountRequestedPackets i = CountSetBits (bswap16 (nack_lostPacketBitmask i)) + 1"

definition NackItem_Serialize :: "NackItem \<Rightarrow> bytes option" where
  "NackItem_Serialize i = Some (put2 (nack_packetId i) @ put2 (nack_lostPacketBitmask i))"

definition NackItem_ops :: "NackItem item_ops" where
  "NackItem_ops = \<lparr>item_messageType = fb_rtp_code NACK, item_header_size = 4, item_ctor = NackItem_ctor,
     item_isCorrect = (\<lambda>_. True), item_GetSize = (\<lambda>_. 4), item_Serialize = NackItem_Serialize\<rparr>"

record TlleiItem =
  tllei_packetId :: u16
  tllei_lostPacketBitmask :: u16

definition TlleiItem_ctor :: "bytes \<Rightarrow> TlleiItem option" where
  "TlleiItem_ctor d = do {
     pid \<leftarrow> Get2Bytes d 0; blp \<leftarrow> Get2Bytes d 2;
     Some \<lparr>tllei_packetId = pid, tllei_lostPacketBitmask = blp\<rparr> }"

definition TlleiItem_new :: "u16 \<Rightarrow> u16 \<Rightarrow> TlleiItem" where
  "TlleiItem_new pid blp = \<lparr>tllei_packetId = pid, tllei_lostPacketBitmask = blp\<rparr>"

definition TlleiItem_Serialize :: "TlleiItem \<Rightarrow> bytes option" where
  "TlleiItem_Serialize i = Some (put2 (tllei_packetId i) @ put2 (tllei_lostPacketBitmask i))"

definition TlleiItem_ops :: "TlleiItem item_ops" where
  "TlleiItem_ops = \<lparr>item_messageType = fb_rtp_code TLLEI, item_header_size = 4, item_ctor = TlleiItem_ctor,
     item_isCorrect = (\<lambda>_. True), item_GetSize = (\<lambda>_. 4), item_Serialize = TlleiItem_Serialize\<rparr>"

subsection \<open>Bit rates as mantissa and exponent\<close>

text \<open>The loop \<open>while (mantissa > MaxMantissa) { mantissa >>= 1; ++exponent; }\<close> of the TMMB item and
  of the REMB packet.\<close>

function shift_mantissa :: "u64 \<Rightarrow> u64 \<Rightarrow> nat \<Rightarrow> u64 \<times> nat" where
  "shift_mantissa maxm m e = (if m > maxm then shift_mantissa maxm (drop_bit 1 m) (Suc e) else (m, e))"
  by pat_completeness auto
termination
proof (relation "measure (\<lambda>(_, m, _). unat m)")
  fix maxm m :: u64 and e :: nat
  assume "m > maxm"
  then have "0 < unat m" by (metis gr_zeroI unat_eq_zero word_not_simps(1) not_gr_zero unat_0)
  then show "((maxm, drop_bit 1 m, Suc e), maxm, m, e) \<in> measure (\<lambda>(_, m, _). unat m)"
    by (simp add: drop_bit_Suc unat_div_distrib)
qed simp

declare shift_mantissa.simps [simp del]

record TmmbItem =
  tmmb_ssrc :: u32
  tmmb_bitrate :: u64
  tmmb_overhead :: u16
  tmmb_isCorrect :: bool

definition TmmbItem_ctor :: "bytes \<Rightarrow> TmmbItem option" where
  "TmmbItem_ctor d = do {
     ssrc \<leftarrow> Get4Bytes d 0;
     compact \<leftarrow> Get4Bytes d 4;
     let exponent = unat (drop_bit 26 compact);
         mantissa = ucast ((drop_bit 9 compact) AND 0x1ffff) :: u64;
         bitrate = push_bit exponent mantissa
     in Some \<lparr>tmmb_ssrc = ssrc, tmmb_bitrate = bitrate, tmmb_overhead = ucast (compact AND 0x1ff),
          tmmb_isCorrect = (drop_bit exponent bitrate = mantissa)\<rparr> }"

definition TmmbItem_Serialize :: "TmmbItem \<Rightarrow> bytes option" where
  "TmmbItem_Serialize i =
     (case shift_mantissa 0x1ffff (tmmb_bitrate i) 0 of (mantissa, exponent) \<Rightarrow>
        Some (put4 (tmmb_ssrc i) @
          put4 (push_bit 26 (of_nat exponent) OR ucast (push_bit 9 mantissa) OR ucast (tmmb_overhead i))))"

definition TmmbItem_ops :: "fb_rtp_type \<Rightarrow> TmmbItem item_ops" where
  "TmmbItem_ops t = \<lparr>item_messageType = fb_rtp_code t, item_header_size = 8, item_ctor = TmmbItem_ctor,
     item_isCorrect = tmmb_isCorrect, item_GetSize = (\<lambda>_. 8), item_Serialize = TmmbItem_Serialize\<rparr>"

subsection \<open>FeedbackRtpEcnItem\<close>

record EcnItem =
  ecn_sequenceNumber :: u32
  ecn_ect0Counter :: u32
  ecn_ect1Counter :: u32
  ecn_ecnCeCounter :: u16
  ecn_notEctCounter :: u16
  ecn_lostPackets :: u16
  ecn_duplicatedPackets :: u16

definition EcnItem_ctor :: "bytes \<Rightarrow> EcnItem option" where
  "EcnItem_ctor d = do {
     sn \<leftarrow> Get4Bytes d 0; e0 \<leftarrow> Get4Bytes d 4; e1 \<leftarrow> Get4Bytes d 8;
     ce \<leftarrow> Get2Bytes d 12; ne \<leftarrow> Get2Bytes d 14; lost \<leftarrow> Get2Bytes d 16; dup \<leftarrow> Get2Bytes d 18;
     Some \<lparr>ecn_sequenceNumber = sn, ecn_ect0Counter = e0, ecn_ect1Counter = e1, ecn_ecnCeCounter = ce,
       ecn_notEctCounter = ne, ecn_lostPackets = lost, ecn_duplicatedPackets = dup\<rparr> }"

definition EcnItem_Serialize :: "EcnItem \<Rightarrow> bytes option" where
  "EcnItem_Serialize i =
     Some (put4 (ecn_sequenceNumber i) @ put4 (ecn_ect0Counter i) @ put4 (ecn_ect1Counter i) @
       put2 (ecn_ecnCeCounter i) @ put2 (ecn_notEctCounter i) @ put2 (ecn_lostPackets i) @
       put2 (ecn_duplicatedPackets i))"

definition EcnItem_ops :: "EcnItem item_ops" where
  "EcnItem_ops = \<lparr>item_messageType = fb_rtp_code ECN, item_header_size = 20, item_ctor = EcnItem_ctor,
     item_isCorrect = (\<lambda>_. True), item_GetSize = (\<lambda>_. 20), item_Serialize = EcnItem_Serialize\<rparr>"

subsection \<open>Every item class is memory safe and, where it owns its bytes, a codec\<close>

text \<open>The two obligations have the same shape for every class: the constructor reads inside the header,
  and reading back the written fields is evaluation by the \<open>wire\<close> rules.\<close>

interpretation fir: codec_item FirItem_ops "\<lambda>_. True"
  by unfold_locales
    (auto simp: FirItem_ops_def FirItem_ctor_def FirItem_Serialize_def safe wire sizes
      split: prod.split)

interpretation lei: codec_item LeiItem_ops "\<lambda>_. True"
  by unfold_locales
    (auto simp: LeiItem_ops_def LeiItem_ctor_def LeiItem_Serialize_def safe wire sizes)

interpretation nack: codec_item NackItem_ops "\<lambda>_. True"
  by unfold_locales
    (auto simp: NackItem_ops_def NackItem_ctor_def NackItem_Serialize_def safe wire sizes)

interpretation tllei: codec_item TlleiItem_ops "\<lambda>_. True"
  by unfold_locales
    (auto simp: TlleiItem_ops_def TlleiItem_ctor_def TlleiItem_Serialize_def safe wire sizes)

interpretation tst: codec_item "TstItem_ops t" "\<lambda>_. True"
  by unfold_locales
    (auto simp: TstItem_ops_def TstItem_ctor_def TstItem_Serialize_def safe wire sizes)

interpretation ecn: codec_item EcnItem_ops "\<lambda>_. True"
  by unfold_locales
    (auto simp: EcnItem_ops_def EcnItem_ctor_def EcnItem_Serialize_def safe wire sizes)

definition rpsi_valid :: "RpsiItem \<Rightarrow> bool" where
  "rpsi_valid i \<longleftrightarrow> length (rpsi_bitString i) = 6 \<and> rpsi_isCorrect i \<and> unat (rpsi_paddingBits i) mod 8 = 0 \<and>
     unat (rpsi_paddingBits i) div 8 \<le> 6 \<and> rpsi_length i = 6 - of_nat (unat (rpsi_paddingBits i) div 8)"

lemma length_6: "length xs = 6 \<longleftrightarrow> (\<exists>a b c d e f. xs = [a, b, c, d, e, f])"
  by (auto simp: numeral_eq_Suc length_Suc_conv)

interpretation rpsi: codec_item RpsiItem_ops rpsi_valid
  by unfold_locales
    (auto simp: RpsiItem_ops_def RpsiItem_ctor_def RpsiItem_Serialize_def rpsi_valid_def length_6 Let_def
      safe wire sizes)

interpretation vbcm: parsable_item VbcmItem_ops
  by unfold_locales
    (auto simp: VbcmItem_ops_def VbcmItem_ctor_def VbcmItem_GetSize_def align4_pad4 safe)

subsection \<open>Slice Loss Indication fields\<close>

definition sli_valid :: "SliItem \<Rightarrow> bool" where
  "sli_valid i \<longleftrightarrow> sli_first i < 2 ^ 13 \<and> sli_number i < 2 ^ 13 \<and> sli_pictureId i < 2 ^ 6"

lemma sli_fields:
  fixes f n :: u16 and p :: u8
  assumes "f < 2 ^ 13" "n < 2 ^ 13" "p < 2 ^ 6"
  defines "c \<equiv> push_bit 19 (ucast f) OR push_bit 6 (ucast n) OR ucast p :: u32"
  shows "ucast (drop_bit 19 c) = f" and "ucast ((drop_bit 6 c) AND 0x1fff) = n" and "ucast (c AND 0x3f) = p"
proof -
  note small = less_exp_bit [OF assms(1)] less_exp_bit [OF assms(2)] less_exp_bit [OF assms(3)]
  have m: "0x1fff = (mask 13 :: u32)" "0x3f = (mask 6 :: u32)" by (simp_all add: mask_eq_exp_minus_1)
  show "ucast (drop_bit 19 c) = f" unfolding c_def
    by (rule bit_word_eqI) (auto simp: bit_simps dest: small)
  show "ucast ((drop_bit 6 c) AND 0x1fff) = n" unfolding c_def m
    by (rule bit_word_eqI) (auto simp: bit_simps dest: small)
  show "ucast (c AND 0x3f) = p" unfolding c_def m
    by (rule bit_word_eqI) (auto simp: bit_simps dest: small)
qed

interpretation sli: codec_item SliItem_ops sli_valid
  by unfold_locales
    (auto simp: SliItem_ops_def SliItem_ctor_def SliItem_Serialize_def sli_valid_def sli_fields safe wire sizes)

subsection \<open>Bit rates\<close>

lemma shift_mantissa_spec:
  assumes "shift_mantissa maxm m e = (m', e')"
  shows "e \<le> e' \<and> m' = drop_bit (e' - e) m \<and> m' \<le> maxm \<and> (e < e' \<longrightarrow> maxm < drop_bit (e' - e - 1) m)"
  using assms
proof (induction maxm m e rule: shift_mantissa.induct)
  case (1 maxm m e)
  show ?case
  proof (cases "m > maxm")
    case True
    then have "shift_mantissa maxm (drop_bit 1 m) (Suc e) = (m', e')"
      using 1(2) by (simp add: shift_mantissa.simps [of maxm m])
    from 1(1) [OF True this] have ih: "Suc e \<le> e'" "m' = drop_bit (e' - Suc e) (drop_bit 1 m)" "m' \<le> maxm"
      "Suc e < e' \<longrightarrow> maxm < drop_bit (e' - Suc e - 1) (drop_bit 1 m)" by auto
    then show ?thesis using True
      by (cases "Suc e = e'") (auto simp: Suc_diff_Suc Suc_le_eq)
  qed (use 1(2) in \<open>simp add: shift_mantissa.simps [of maxm m]\<close>)
qed

lemma unat_drop_bit: "unat (drop_bit k w) = unat w div 2 ^ k" for w :: "'a::len word"
  using unat_drop_bit_eq [of k w] by (simp only: drop_bit_eq_div [of k "unat w"])

lemma unat_push_drop: "unat (push_bit e (drop_bit e w)) = unat w div 2 ^ e * 2 ^ e" for w :: "'a::len word"
proof -
  have "unat w div 2 ^ e * 2 ^ e < 2 ^ LENGTH('a)"
    using unat_less [of w] div_times_less_eq_dividend [of "unat w" "2 ^ e"] by linarith
  moreover have "unat (push_bit e (drop_bit e w)) = take_bit LENGTH('a) (push_bit e (unat (drop_bit e w)))"
    by (rule unsigned_push_bit_eq) 
  ultimately show ?thesis by (simp only: unat_drop_bit push_bit_eq_mult take_bit_nat_eq_self)
qed

lemma shift_mantissa_large:
  assumes "shift_mantissa maxm m 0 = (m', e)" and "unat maxm = 2 ^ k - 1" and "e \<noteq> 0"
  shows "2 ^ (k + (e - 1)) \<le> unat m"
proof -
  from shift_mantissa_spec [OF assms(1)] \<open>e \<noteq> 0\<close> have "maxm < drop_bit (e - 1) m" by simp
  then have "2 ^ k \<le> unat m div 2 ^ (e - 1)"
    using assms(2) by (simp add: word_less_nat_alt unat_drop_bit)
  then show ?thesis
    using less_eq_div_iff_mult_less_eq by (metis power_add zero_less_power zero_less_numeral)
qed

lemma shift_mantissa_exponent:
  assumes "shift_mantissa maxm m 0 = (m', e)" and "unat maxm = 2 ^ k - 1" and "k < 64"
  shows "e \<le> 64 - k"
proof (cases "e = 0")
  case False
  from shift_mantissa_large [OF assms(1,2) False] have "(2::nat) ^ (k + (e - 1)) < 2 ^ 64"
    using unat_less [of m] by simp
  then have "k + (e - 1) < 64" by (rule power_less_imp_less_exp [rotated]) simp
  then show ?thesis using assms(3) False by linarith
qed simp

lemma tmmb_fields:
  fixes m :: u64 and o' :: u16
  assumes "e < 64" "m \<le> 0x1ffff" "o' < 2 ^ 9"
  defines "c \<equiv> push_bit 26 (of_nat e) OR ucast (push_bit 9 m) OR ucast o' :: u32"
  shows "unat (drop_bit 26 c) = e" and "ucast ((drop_bit 9 c) AND 0x1ffff) = m" and "ucast (c AND 0x1ff) = o'"
proof -
  have me: "m < 2 ^ 17" using assms(2) by (simp add: word_le_nat_alt word_less_nat_alt)
  have ee: "(of_nat e :: u32) < 2 ^ 6" using assms(1) by (simp add: word_less_nat_alt unat_of_nat_less)
  note small = less_exp_bit [OF ee] less_exp_bit [OF me] less_exp_bit [OF assms(3)]
  have k: "0x1ffff = (mask 17 :: u32)" "0x1ff = (mask 9 :: u32)" by (simp_all add: mask_eq_exp_minus_1)
  define x :: u32 where "x = of_nat e"
  have "drop_bit 26 c = x" unfolding c_def x_def [symmetric]
    by (rule bit_word_eqI) (auto simp: bit_simps dest: small [folded x_def])
  then show "unat (drop_bit 26 c) = e" using assms(1) by (simp add: x_def unat_of_nat_less)
  show "ucast ((drop_bit 9 c) AND 0x1ffff) = m" unfolding c_def k
    by (rule bit_word_eqI) (auto simp: bit_simps dest: small)
  show "ucast (c AND 0x1ff) = o'" unfolding c_def k
    by (rule bit_word_eqI) (auto simp: bit_simps dest: small)
qed

lemma drop_push_drop: "drop_bit e (push_bit e (drop_bit e w)) = drop_bit e w" for w :: "'a::len word"
  by (rule bit_word_eqI) (auto simp: bit_simps dest: bit_imp_le_length)

lemma TmmbItem_ctor_Serialize:
  assumes "tmmb_overhead i < 2 ^ 9" and sm: "shift_mantissa 0x1ffff (tmmb_bitrate i) 0 = (m, e)"
  shows "\<exists>b. TmmbItem_Serialize i = Some b \<and> length b = 8 \<and>
    (\<forall>rest. TmmbItem_ctor (b @ rest) = Some (i\<lparr>tmmb_bitrate := push_bit e m, tmmb_isCorrect := True\<rparr>))"
proof -
  from shift_mantissa_spec [OF sm] have "m \<le> 0x1ffff" and m: "m = drop_bit e (tmmb_bitrate i)" by auto
  moreover have "e < 64" using shift_mantissa_exponent [OF sm, of 17] by simp
  ultimately show ?thesis
    using tmmb_fields [OF \<open>e < 64\<close> \<open>m \<le> 0x1ffff\<close> assms(1)] sm
    by (simp add: TmmbItem_Serialize_def TmmbItem_ctor_def Let_def wire sizes drop_push_drop)
qed

text \<open>The bit rates a TMMB item can carry exactly: at most seventeen significant bits.\<close>

definition tmmb_valid :: "TmmbItem \<Rightarrow> bool" where
  "tmmb_valid i \<longleftrightarrow> tmmb_overhead i < 2 ^ 9 \<and> tmmb_isCorrect i \<and>
     (case shift_mantissa 0x1ffff (tmmb_bitrate i) 0 of (m, e) \<Rightarrow> push_bit e m = tmmb_bitrate i)"

interpretation tmmb: codec_item "TmmbItem_ops t" tmmb_valid
proof unfold_locales
  fix i assume v: "tmmb_valid i"
  obtain m e where sm: "shift_mantissa 0x1ffff (tmmb_bitrate i) 0 = (m, e)" by fastforce
  have "i\<lparr>tmmb_bitrate := push_bit e m, tmmb_isCorrect := True\<rparr> = i"
    using v sm by (cases i) (simp add: tmmb_valid_def)
  then show "\<exists>b. item_Serialize (TmmbItem_ops t) i = Some b \<and> length b = item_GetSize (TmmbItem_ops t) i \<and>
     item_header_size (TmmbItem_ops t) \<le> length b \<and> (\<forall>rest. item_ctor (TmmbItem_ops t) (b @ rest) = Some i)"
    using TmmbItem_ctor_Serialize [OF _ sm] v by (auto simp: TmmbItem_ops_def tmmb_valid_def)
qed (auto simp: TmmbItem_ops_def TmmbItem_ctor_def Let_def tmmb_valid_def safe)

subsection \<open>Properties\<close>

text \<open>a TMMBR/TMMBN item read back from its serialization carries the bit rate rounded down to at
  most seventeen significant bits: it never exceeds the rate that was serialized, it falls short of it
  by less than one unit of the exponent, and a rate below \<open>2 ^ 17\<close> is exact.\<close>

lemma TmmbItem_bitrate:
  assumes "tmmb_overhead i < 2 ^ 9"
  shows "\<exists>b j e. TmmbItem_Serialize i = Some b \<and> length b = 8 \<and> TmmbItem_ctor b = Some j \<and> tmmb_isCorrect j \<and>
    tmmb_ssrc j = tmmb_ssrc i \<and> tmmb_overhead j = tmmb_overhead i \<and>
    unat (tmmb_bitrate j) = unat (tmmb_bitrate i) div 2 ^ e * 2 ^ e \<and>
    (e = 0 \<or> 2 ^ (16 + e) \<le> unat (tmmb_bitrate i))"
proof -
  obtain m e where sm: "shift_mantissa 0x1ffff (tmmb_bitrate i) 0 = (m, e)" by fastforce
  from TmmbItem_ctor_Serialize [OF assms sm] obtain b where b: "TmmbItem_Serialize i = Some b" "length b = 8"
    "TmmbItem_ctor b = Some (i\<lparr>tmmb_bitrate := push_bit e m, tmmb_isCorrect := True\<rparr>)"
    by (metis append_Nil2)
  from shift_mantissa_spec [OF sm] have m: "m = drop_bit e (tmmb_bitrate i)"
    and le: "0 < e \<longrightarrow> 0x1ffff < drop_bit (e - 1) (tmmb_bitrate i)" by auto
  have "unat (push_bit e m) = unat (tmmb_bitrate i) div 2 ^ e * 2 ^ e"
    using shift_mantissa_spec [OF sm] by (simp only: unat_push_drop diff_zero)
  moreover have "e = 0 \<or> 2 ^ (16 + e) \<le> unat (tmmb_bitrate i)"
    using shift_mantissa_large [OF sm, of 17] by (cases e) simp_all
  ultimately have "unat (tmmb_bitrate (i\<lparr>tmmb_bitrate := push_bit e m, tmmb_isCorrect := True\<rparr>)) =
      unat (tmmb_bitrate i) div 2 ^ e * 2 ^ e \<and> (e = 0 \<or> 2 ^ (16 + e) \<le> unat (tmmb_bitrate i))"
    by simp
  with b show ?thesis
    by (intro exI [of _ b] exI [of _ "i\<lparr>tmmb_bitrate := push_bit e m, tmmb_isCorrect := True\<rparr>"] exI [of _ e])
      (simp only:, simp)
qed

text \<open>\<open>CountRequestedPackets\<close> of a NACK item, which counts bits of the mask in network byte order,
  is the number of sequence numbers the item asks for: the packet id itself and one for each bit of
  the mask.\<close>

lemma CountRequestedPackets_spec:
  "CountRequestedPackets i = Suc (card {k. k < 16 \<and> bit (nack_lostPacketBitmask i) k})"
proof -
  let ?w = "nack_lostPacketBitmask i"
  let ?s = "\<lambda>k::nat. if k < 8 then k + 8 else k - 8"
  have bs: "bit (bswap16 ?w) k = bit ?w (?s k)" if "k < 16" for k
    using that by (auto simp: bswap16_def bit_simps add.commute dest: bit_imp_le_length)
  have "bij_betw ?s {k. k < 16 \<and> bit (bswap16 ?w) k} {k. k < 16 \<and> bit ?w k}"
    by (rule bij_betw_byWitness [where f' = ?s]) (auto simp: bs)
  then have "card {k. k < 16 \<and> bit (bswap16 ?w) k} = card {k. k < 16 \<and> bit ?w k}"
    by (rule bij_betw_same_card)
  moreover have "CountSetBits m = card {k. k < 16 \<and> bit m k}" for m
    unfolding CountSetBits_def by (subst distinct_card [symmetric]) (auto intro!: arg_cong [of _ _ card])
  ultimately show ?thesis by (simp add: CountRequestedPackets_def)
qed

end
