(* ===== verification/Rtcp_Ps.thy ===== *)
theory Rtcp_Ps
  imports Rtcp_Items
begin

text \<open>
  Payload-specific feedback: PLI, application-layer feedback with its REMB form
  (\<^verbatim>\<open>src/RTC/RTCP/FeedbackPsPli.cpp\<close>, \<^verbatim>\<open>FeedbackPsAfb.cpp\<close>, \<^verbatim>\<open>FeedbackPsRemb.cpp\<close>) and
  \<^verbatim>\<open>FeedbackPacket<FeedbackPs>::Parse\<close>, the dispatch on the message type (\<^verbatim>\<open>Feedback.cpp\<close>).
\<close>

subsection \<open>Message type names\<close>

definition FeedbackPs_MessageType2String :: "u8 \<Rightarrow> string" where
  "FeedbackPs_MessageType2String t = (case map_of [(1, ''PLI''), (2, ''SLI''), (3, ''RPSI''), (4, ''FIR''),
      (5, ''TSTR''), (6, ''TSTN''), (7, ''VBCM''), (8, ''PSLEI''), (9, ''ROI''), (15, ''AFB''), (31, ''EXT'')] t of
      Some s \<Rightarrow> s | None \<Rightarrow> ''UNKNOWN'')"

subsection \<open>FeedbackPsPliPacket\<close>

definition FeedbackPsPliPacket_Parse :: "bytes \<Rightarrow> fb_header option option" where
  "FeedbackPsPliPacket_Parse d =
     (if length d < SIZEOF_FeedbackHeaders then Some None
      else do { h \<leftarrow> FeedbackPacket_ctor d; Some (Some h) })"

definition FeedbackPsPliPacket_new :: "u32 \<Rightarrow> u32 \<Rightarrow> fb_header" where
  "FeedbackPsPliPacket_new sender media =
     \<lparr>fb_messageType = fb_ps_code PLI, fb_senderSsrc = sender, fb_mediaSsrc = media\<rparr>"

subsection \<open>FeedbackPsRembPacket\<close>

abbreviation (input) "REMB_uniqueIdentifier \<equiv> (0x52454D42 :: u32)"

record RembPacket =
  remb_header :: fb_header
  remb_ssrcs :: "u32 list"
  remb_bitrate :: u64

text \<open>\<open>read_ssrcs n d i\<close> reads \<open>n\<close> SSRCs from offset \<open>i\<close> on.\<close>

primrec read_ssrcs :: "nat \<Rightarrow> bytes \<Rightarrow> nat \<Rightarrow> u32 list option" where
  "read_ssrcs 0 d i = Some []"
| "read_ssrcs (Suc n) d i = do {
     s \<leftarrow> Get4Bytes d i; ss \<leftarrow> read_ssrcs n d (i + 4); Some (s # ss) }"

text \<open>The constructor from received bytes; the inner \<open>None\<close> is a packet with \<open>isCorrect\<close> false, which
  \<open>Parse\<close> turns into \<open>nullptr\<close>. \<open>d\<close> holds the \<open>availableLen\<close> bytes.\<close>

definition RembPacket_ctor :: "bytes \<Rightarrow> RembPacket option option" where
  "RembPacket_ctor d = do {
     ch \<leftarrow> read_CommonHeader d;
     h \<leftarrow> FeedbackPacket_ctor d;
     let len = announced_len ch;
     if len > length d then Some None
     else do {
       numSsrcs \<leftarrow> Get1Byte d (12 + 4);
       if len \<noteq> 12 + 8 + unat numSsrcs * 4 then Some None
       else do {
         ident \<leftarrow> Get4Bytes d 12;
         if ident \<noteq> REMB_uniqueIdentifier then Some None
         else do {
           b5 \<leftarrow> Get1Byte d (12 + 5);
           lo \<leftarrow> Get2Bytes d (12 + 6);
           let exponent = unat (drop_bit 2 b5);
           let mantissa = (ucast (push_bit 16 (ucast (b5 AND 0x03)) OR ucast lo :: u32) :: u64);
           let bitrate = push_bit exponent mantissa;
           if drop_bit exponent bitrate \<noteq> mantissa then Some None
           else do {
             ssrcs \<leftarrow> read_ssrcs (unat numSsrcs) d (12 + 8);
             Some (Some \<lparr>remb_header = h, remb_ssrcs = ssrcs, remb_bitrate = bitrate\<rparr>) } } } } }"

definition FeedbackPsRembPacket_Parse :: "bytes \<Rightarrow> RembPacket option option" where
  "FeedbackPsRembPacket_Parse d = (if length d < 12 + 8 then Some None else RembPacket_ctor d)"

definition RembPacket_new :: "u32 \<Rightarrow> u32 \<Rightarrow> RembPacket" where
  "RembPacket_new sender media = \<lparr>remb_header = \<lparr>fb_messageType = fb_ps_code AFB, fb_senderSsrc = sender,
     fb_mediaSsrc = media\<rparr>, remb_ssrcs = [], remb_bitrate = 0\<rparr>"

definition RembPacket_GetSize :: "RembPacket \<Rightarrow> nat" where
  "RembPacket_GetSize p = 12 + 8 + 4 * length (remb_ssrcs p)"

definition RembPacket_Serialize :: "RembPacket \<Rightarrow> bytes" where
  "RembPacket_Serialize p =
     (case shift_mantissa 0x3FFFF (remb_bitrate p) 0 of (mantissa, exponent) \<Rightarrow>
        FeedbackPacket_Serialize PSFB (RembPacket_GetSize p) (remb_header p) @
        put4 REMB_uniqueIdentifier @
        [of_nat (length (remb_ssrcs p)), push_bit 2 (of_nat exponent) OR ucast (drop_bit 16 mantissa)] @
        put2 (ucast (mantissa AND 0xFFFF)) @ concat (map put4 (remb_ssrcs p)))"

subsection \<open>FeedbackPsAfbPacket\<close>

text \<open>\<open>afb_data\<close> is the memory from \<open>data\<close> to the end of the received packet, \<open>afb_size\<close> the \<open>size_t\<close>
  difference between the announced length and the headers.\<close>

record AfbPacket =
  afb_header :: fb_header
  afb_data :: bytes
  afb_size :: u64

definition AfbPacket_ctor :: "bytes \<Rightarrow> AfbPacket option" where
  "AfbPacket_ctor d = do {
     ch \<leftarrow> read_CommonHeader d;
     h \<leftarrow> FeedbackPacket_ctor d;
     Some \<lparr>afb_header = h, afb_data = drop 12 d, afb_size = of_nat (announced_len ch) - 12\<rparr> }"

definition AfbPacket_GetSize :: "AfbPacket \<Rightarrow> nat" where
  "AfbPacket_GetSize p = unat (12 + afb_size p)"

definition AfbPacket_Serialize :: "AfbPacket \<Rightarrow> bytes option" where
  "AfbPacket_Serialize p =
     (if unat (afb_size p) \<le> length (afb_data p) then
        Some (FeedbackPacket_Serialize PSFB (AfbPacket_GetSize p) (afb_header p) @
          take (unat (afb_size p)) (afb_data p))
      else None)"

subsection \<open>FeedbackPsPacket::Parse\<close>

datatype fb_ps_packet =
    PliPacket fb_header
  | SliPacket "SliItem items_packet"
  | RpsiPacket "RpsiItem items_packet"
  | FirPacket "FirItem items_packet"
  | TstrPacket "TstItem items_packet"
  | TstnPacket "TstItem items_packet"
  | VbcmPacket "VbcmItem items_packet"
  | LeiPacket "LeiItem items_packet"
  | AfbPacket AfbPacket
  | RembPacket RembPacket

definition FeedbackPsAfbPacket_Parse :: "bytes \<Rightarrow> fb_ps_packet option option" where
  "FeedbackPsAfbPacket_Parse d =
     (if length d < SIZEOF_FeedbackHeaders then Some None
      else if length d \<ge> 12 + 4 then do {
        ident \<leftarrow> Get4Bytes d 12;
        if ident = REMB_uniqueIdentifier
        then do { r \<leftarrow> FeedbackPsRembPacket_Parse d; Some (map_option RembPacket r) }
        else do { p \<leftarrow> AfbPacket_ctor d; Some (Some (AfbPacket p)) } }
      else do { p \<leftarrow> AfbPacket_ctor d; Some (Some (AfbPacket p)) })"

text \<open>The \<open>switch\<close> on the message type, and the function around it.\<close>

definition FeedbackPs_switch :: "u8 \<Rightarrow> bytes \<Rightarrow> fb_ps_packet option option" where
  "FeedbackPs_switch t d =
     (if t = fb_ps_code PLI then map_option (map_option PliPacket) (FeedbackPsPliPacket_Parse d)
      else if t = fb_ps_code SLI then map_option (map_option SliPacket) (FeedbackPsItemsPacket_Parse SliItem_ops d)
      else if t = fb_ps_code RPSI then map_option (map_option RpsiPacket) (FeedbackPsItemsPacket_Parse RpsiItem_ops d)
      else if t = fb_ps_code FIR then map_option (map_option FirPacket) (FeedbackPsItemsPacket_Parse FirItem_ops d)
      else if t = fb_ps_code TSTR then map_option (map_option TstrPacket) (FeedbackPsItemsPacket_Parse (TstItem_ops TSTR) d)
      else if t = fb_ps_code TSTN then map_option (map_option TstnPacket) (FeedbackPsItemsPacket_Parse (TstItem_ops TSTN) d)
      else if t = fb_ps_code VBCM then map_option (map_option VbcmPacket) (FeedbackPsItemsPacket_Parse VbcmItem_ops d)
      else if t = fb_ps_code PSLEI then map_option (map_option LeiPacket) (FeedbackPsItemsPacket_Parse LeiItem_ops d)
      else if t = fb_ps_code AFB then FeedbackPsAfbPacket_Parse d
      else Some None)"

definition FeedbackPs_Parse :: "bytes \<Rightarrow> fb_ps_packet option option" where
  "FeedbackPs_Parse d =
     (if length d < SIZEOF_FeedbackHeaders then Some None
      else do { ch \<leftarrow> read_CommonHeader d; FeedbackPs_switch (hdr_count ch) d })"

fun FeedbackPs_GetSize :: "fb_ps_packet \<Rightarrow> nat" where
  "FeedbackPs_GetSize (PliPacket _) = 12"
| "FeedbackPs_GetSize (SliPacket p) = ItemsPacket_GetSize SliItem_ops p"
| "FeedbackPs_GetSize (RpsiPacket p) = ItemsPacket_GetSize RpsiItem_ops p"
| "FeedbackPs_GetSize (FirPacket p) = ItemsPacket_GetSize FirItem_ops p"
| "FeedbackPs_GetSize (TstrPacket p) = ItemsPacket_GetSize (TstItem_ops TSTR) p"
| "FeedbackPs_GetSize (TstnPacket p) = ItemsPacket_GetSize (TstItem_ops TSTN) p"
| "FeedbackPs_GetSize (VbcmPacket p) = ItemsPacket_GetSize VbcmItem_ops p"
| "FeedbackPs_GetSize (LeiPacket p) = ItemsPacket_GetSize LeiItem_ops p"
| "FeedbackPs_GetSize (AfbPacket p) = AfbPacket_GetSize p"
| "FeedbackPs_GetSize (RembPacket p) = RembPacket_GetSize p"

fun FeedbackPs_Serialize :: "fb_ps_packet \<Rightarrow> bytes option" where
  "FeedbackPs_Serialize (PliPacket h) = Some (FeedbackPacket_Serialize PSFB 12 h)"
| "FeedbackPs_Serialize (SliPacket p) = ItemsPacket_Serialize PSFB SliItem_ops p"
| "FeedbackPs_Serialize (RpsiPacket p) = ItemsPacket_Serialize PSFB RpsiItem_ops p"
| "FeedbackPs_Serialize (FirPacket p) = ItemsPacket_Serialize PSFB FirItem_ops p"
| "FeedbackPs_Serialize (TstrPacket p) = ItemsPacket_Serialize PSFB (TstItem_ops TSTR) p"
| "FeedbackPs_Serialize (TstnPacket p) = ItemsPacket_Serialize PSFB (TstItem_ops TSTN) p"
| "FeedbackPs_Serialize (VbcmPacket p) = ItemsPacket_Serialize PSFB VbcmItem_ops p"
| "FeedbackPs_Serialize (LeiPacket p) = ItemsPacket_Serialize PSFB LeiItem_ops p"
| "FeedbackPs_Serialize (AfbPacket p) = AfbPacket_Serialize p"
| "FeedbackPs_Serialize (RembPacket p) = Some (RembPacket_Serialize p)"

subsection \<open>Parsing never leaves the buffer\<close>

lemma read_ssrcs_is_None: "read_ssrcs n d i = None \<longleftrightarrow> 0 < n \<and> length d < i + 4 * n"
proof (induction n arbitrary: i)
  case (Suc n)
  have "read_ssrcs (Suc n) d i = None \<longleftrightarrow> length d < i + 4 \<or> read_ssrcs n d (i + 4) = None"
    by (auto simp: Option.bind_eq_None_conv safe simp del: not_None_eq)
  then show ?case unfolding Suc.IH by auto
qed simp

lemma RembPacket_ctor_total: "20 \<le> length d \<Longrightarrow> RembPacket_ctor d \<noteq> None"
  using read_CommonHeader_defined [of d] FeedbackPacket_ctor_defined [of d]
  by (auto simp: RembPacket_ctor_def Let_def Option.bind_eq_None_conv read_ssrcs_is_None safe
      simp del: not_None_eq)

lemma AfbPacket_ctor_total: "12 \<le> length d \<Longrightarrow> AfbPacket_ctor d \<noteq> None"
  using read_CommonHeader_defined [of d] FeedbackPacket_ctor_defined [of d]
  by (auto simp: AfbPacket_ctor_def)

lemma FeedbackPsAfbPacket_Parse_total: "FeedbackPsAfbPacket_Parse d \<noteq> None"
  using AfbPacket_ctor_total [of d] RembPacket_ctor_total [of d]
  by (auto simp: FeedbackPsAfbPacket_Parse_def FeedbackPsRembPacket_Parse_def Option.bind_eq_None_conv safe
      simp del: not_None_eq)

lemma FeedbackPs_Parse_total: "FeedbackPs_Parse d \<noteq> None"
  using read_CommonHeader_defined [of d] FeedbackPacket_ctor_defined [of d]
    FeedbackPsAfbPacket_Parse_total [of d]
    sli.FeedbackPsItemsPacket_Parse_total [of d] rpsi.FeedbackPsItemsPacket_Parse_total [of d]
    fir.FeedbackPsItemsPacket_Parse_total [of d] tst.FeedbackPsItemsPacket_Parse_total [of _ d]
    vbcm.FeedbackPsItemsPacket_Parse_total [of d] lei.FeedbackPsItemsPacket_Parse_total [of d]
  by (auto simp: FeedbackPs_Parse_def FeedbackPs_switch_def FeedbackPsPliPacket_Parse_def Option.bind_eq_None_conv Let_def
      simp del: not_None_eq)

subsection \<open>REMB\<close>

lemma read_ssrcs_put4:
  "read_ssrcs (length ss) (xs @ concat (map put4 ss) @ ys) (length xs) = Some ss"
proof (induction ss arbitrary: xs)
  case (Cons s ss)
  from Cons [of "xs @ put4 s"] show ?case
    by (simp add: byte4.get_put_mid byte4.length_put)
qed simp

lemma remb_fields:
  fixes m :: u64
  assumes "e < 64" "m \<le> 0x3FFFF"
  defines "b \<equiv> push_bit 2 (of_nat e) OR ucast (drop_bit 16 m) :: u8"
  shows "unat (drop_bit 2 b) = e"
    and "ucast (push_bit 16 (ucast (b AND 0x03)) OR ucast (ucast (m AND 0xFFFF) :: u16) :: u32) = m"
proof -
  have me: "m < 2 ^ 18" using assms(2) by (simp add: word_le_nat_alt word_less_nat_alt)
  define x :: u8 where "x = of_nat e"
  have xe: "x < 2 ^ 6" using assms(1) by (simp add: x_def word_less_nat_alt unat_of_nat_less)
  note small = less_exp_bit [OF xe] less_exp_bit [OF me]
  have k: "0x03 = (mask 2 :: u8)" "0xFFFF = (mask 16 :: u64)" by (simp_all add: mask_eq_exp_minus_1)
  have "drop_bit 2 b = x" unfolding b_def x_def [symmetric]
    by (rule bit_word_eqI) (auto simp: bit_simps dest: small simp del: add_2_eq_Suc add_2_eq_Suc')
  then show "unat (drop_bit 2 b) = e" using assms(1) by (simp add: x_def unat_of_nat_less)
  show "ucast (push_bit 16 (ucast (b AND 0x03)) OR ucast (ucast (m AND 0xFFFF) :: u16) :: u32) = m"
    unfolding b_def k x_def [symmetric]
    by (rule bit_word_eqI) (auto simp: bit_simps dest: small simp del: add_2_eq_Suc add_2_eq_Suc')
qed

lemma length_RembPacket_Serialize: "length (RembPacket_Serialize p) = RembPacket_GetSize p"
  by (simp add: RembPacket_Serialize_def RembPacket_GetSize_def length_concat_const byte4.length_put sizes
      split: prod.split)

lemma Get_after_fb_header [wire]:
  "12 \<le> i \<Longrightarrow> Get1Byte (FeedbackPacket_Serialize t s h @ rest) i = Get1Byte rest (i - 12)"
  "12 \<le> i \<Longrightarrow> Get2Bytes (FeedbackPacket_Serialize t s h @ rest) i = Get2Bytes rest (i - 12)"
  "12 \<le> i \<Longrightarrow> Get4Bytes (FeedbackPacket_Serialize t s h @ rest) i = Get4Bytes rest (i - 12)"
  using byte1.get_skip [of "FeedbackPacket_Serialize t s h" i rest] byte2.get_skip [of "FeedbackPacket_Serialize t s h" i rest]
    byte4.get_skip [of "FeedbackPacket_Serialize t s h" i rest] by simp_all

lemma RembPacket_ctor_Serialize:
  assumes "fb_messageType (remb_header p) < 32" and "length (remb_ssrcs p) < 256"
    and sm: "shift_mantissa 0x3FFFF (remb_bitrate p) 0 = (m, e)"
  shows "FeedbackPsRembPacket_Parse (RembPacket_Serialize p) = Some (Some (p\<lparr>remb_bitrate := push_bit e m\<rparr>))"
proof -
  let ?h = "FeedbackPacket_Serialize PSFB (RembPacket_GetSize p) (remb_header p)"
  let ?b = "push_bit 2 (of_nat e) OR ucast (drop_bit 16 m) :: u8"
  let ?pre = "?h @ put4 REMB_uniqueIdentifier @ [of_nat (length (remb_ssrcs p)), ?b] @ put2 (ucast (m AND 0xFFFF))"
  have ser: "RembPacket_Serialize p = ?h @ put4 REMB_uniqueIdentifier @ [of_nat (length (remb_ssrcs p)), ?b] @
      put2 (ucast (m AND 0xFFFF)) @ concat (map put4 (remb_ssrcs p))"
    using sm by (simp add: RembPacket_Serialize_def)
  have size: "4 dvd RembPacket_GetSize p" "4 \<le> RembPacket_GetSize p" "RembPacket_GetSize p \<le> 2 ^ 18"
    using assms(2) by (simp_all add: RembPacket_GetSize_def)
  have e: "e < 64" using shift_mantissa_exponent [OF sm, of 18] by simp
  from shift_mantissa_spec [OF sm] have m: "m \<le> 0x3FFFF" "m = drop_bit e (remb_bitrate p)" by auto
  have n: "unat (of_nat (length (remb_ssrcs p)) :: u8) = length (remb_ssrcs p)"
    using assms(2) by (intro unat_of_nat_less) simp
  have "length ?pre = 20" by (simp add: sizes)
  then have "read_ssrcs (length (remb_ssrcs p)) (RembPacket_Serialize p) 20 = Some (remb_ssrcs p)"
    using read_ssrcs_put4 [of "remb_ssrcs p" ?pre "[]"] by (simp add: ser)
  moreover have "\<exists>ch. read_CommonHeader (RembPacket_Serialize p) = Some ch \<and> announced_len ch = RembPacket_GetSize p"
    unfolding ser using fb_common_header [OF assms(1)] size by meson
  moreover have "FeedbackPacket_ctor (RembPacket_Serialize p) = Some (remb_header p)"
    unfolding ser using FeedbackPacket_roundtrip [OF assms(1)] by blast
  moreover have "20 \<le> length (RembPacket_Serialize p)"
    by (simp add: length_RembPacket_Serialize RembPacket_GetSize_def)
  moreover have "Get1Byte (RembPacket_Serialize p) 16 = Some (of_nat (length (remb_ssrcs p)))"
    "Get4Bytes (RembPacket_Serialize p) 12 = Some REMB_uniqueIdentifier"
    "Get1Byte (RembPacket_Serialize p) 17 = Some ?b"
    "Get2Bytes (RembPacket_Serialize p) 18 = Some (ucast (m AND 0xFFFF))"
    unfolding ser by (simp_all add: wire sizes)
  ultimately show ?thesis
    using remb_fields [OF e m(1)] n m(2)
    by (auto simp: FeedbackPsRembPacket_Parse_def RembPacket_ctor_def Let_def length_RembPacket_Serialize
        drop_push_drop RembPacket_GetSize_def)
qed

lemma FeedbackPsItemsPacket_Serialize_form:
  "ItemsPacket_Serialize t ops p = Some b \<Longrightarrow>
     \<exists>rest. b = FeedbackPacket_Serialize t (ItemsPacket_GetSize ops p) (ip_header p) @ rest"
  by (auto simp: ItemsPacket_Serialize_def bind_eq_Some_iff)

text \<open>Packets whose every field fits its place on the wire. A VBCM packet is not among them: its items
  keep the memory after their header, whatever follows.\<close>

fun ps_valid :: "fb_ps_packet \<Rightarrow> bool" where
  "ps_valid (PliPacket h) \<longleftrightarrow> fb_messageType h = 1"
| "ps_valid (SliPacket p) \<longleftrightarrow> fb_messageType (ip_header p) = 2 \<and> list_all sli_valid (ip_items p)"
| "ps_valid (RpsiPacket p) \<longleftrightarrow> fb_messageType (ip_header p) = 3 \<and> list_all rpsi_valid (ip_items p)"
| "ps_valid (FirPacket p) \<longleftrightarrow> fb_messageType (ip_header p) = 4"
| "ps_valid (TstrPacket p) \<longleftrightarrow> fb_messageType (ip_header p) = 5"
| "ps_valid (TstnPacket p) \<longleftrightarrow> fb_messageType (ip_header p) = 6"
| "ps_valid (VbcmPacket p) \<longleftrightarrow> False"
| "ps_valid (LeiPacket p) \<longleftrightarrow> fb_messageType (ip_header p) = 8"
| "ps_valid (AfbPacket p) \<longleftrightarrow> fb_messageType (afb_header p) = 15 \<and> unat (afb_size p) = length (afb_data p) \<and>
     4 dvd length (afb_data p) \<and> length (afb_data p) < 2 ^ 18 \<and> Get4Bytes (afb_data p) 0 \<noteq> Some REMB_uniqueIdentifier"
| "ps_valid (RembPacket p) \<longleftrightarrow> fb_messageType (remb_header p) = 15 \<and> length (remb_ssrcs p) < 256 \<and>
     (case shift_mantissa 0x3FFFF (remb_bitrate p) 0 of (m, e) \<Rightarrow> push_bit e m = remb_bitrate p)"

lemma AfbPacket_roundtrip:
  assumes v: "ps_valid (AfbPacket p)" and s: "AfbPacket_GetSize p \<le> 2 ^ 18"
  shows "\<exists>b. AfbPacket_Serialize p = Some b \<and> length b = AfbPacket_GetSize p \<and> 4 dvd AfbPacket_GetSize p \<and>
    FeedbackPsAfbPacket_Parse b = Some (Some (AfbPacket p))"
proof -
  let ?h = "FeedbackPacket_Serialize PSFB (AfbPacket_GetSize p) (afb_header p)"
  have mt: "fb_messageType (afb_header p) < 32" using v by simp
  have sz: "AfbPacket_GetSize p = 12 + length (afb_data p)"
    using v by (simp add: AfbPacket_GetSize_def unat_word_ariths)
  have ser: "AfbPacket_Serialize p = Some (?h @ afb_data p)" using v by (simp add: AfbPacket_Serialize_def)
  have dvd: "4 dvd AfbPacket_GetSize p" using v by (simp add: sz)
  from fb_common_header [OF mt, of PSFB "AfbPacket_GetSize p" "afb_data p"] s dvd sz
  obtain ch where "read_CommonHeader (?h @ afb_data p) = Some ch" "announced_len ch = AfbPacket_GetSize p" by auto
  moreover have "(of_nat (length (afb_data p)) :: u64) = afb_size p"
    using v by (metis ps_valid.simps(9) word_unat_eq_iff unat_of_nat_less unat_less)
  ultimately have ctor: "AfbPacket_ctor (?h @ afb_data p) = Some p"
    using FeedbackPacket_roundtrip [OF mt] by (simp add: AfbPacket_ctor_def sz)
  have "FeedbackPsAfbPacket_Parse (?h @ afb_data p) = Some (Some (AfbPacket p))"
    using v ctor byte4.get_ex [of 0 "afb_data p"] by (auto simp: FeedbackPsAfbPacket_Parse_def wire)
  then show ?thesis using ser dvd sz by simp
qed

lemma RembPacket_Serialize_form:
  "\<exists>rest. RembPacket_Serialize p =
     FeedbackPacket_Serialize PSFB (RembPacket_GetSize p) (remb_header p) @ put4 REMB_uniqueIdentifier @ rest"
  by (simp add: RembPacket_Serialize_def split: prod.split)

lemma RembPacket_roundtrip:
  assumes v: "ps_valid (RembPacket p)"
  shows "FeedbackPsAfbPacket_Parse (RembPacket_Serialize p) = Some (Some (RembPacket p))"
proof -
  obtain m e where sm: "shift_mantissa 0x3FFFF (remb_bitrate p) 0 = (m, e)" by fastforce
  then have "FeedbackPsRembPacket_Parse (RembPacket_Serialize p) = Some (Some p)"
    using v RembPacket_ctor_Serialize [OF _ _ sm] by simp
  moreover obtain rest where "RembPacket_Serialize p =
      FeedbackPacket_Serialize PSFB (RembPacket_GetSize p) (remb_header p) @ put4 REMB_uniqueIdentifier @ rest"
    using RembPacket_Serialize_form by blast
  ultimately show ?thesis by (simp add: FeedbackPsAfbPacket_Parse_def wire sizes)
qed

lemma FeedbackPs_Parse_switch:
  assumes "fb_messageType h < 32"
  shows "FeedbackPs_Parse (FeedbackPacket_Serialize PSFB s h @ rest) =
    FeedbackPs_switch (fb_messageType h) (FeedbackPacket_Serialize PSFB s h @ rest)"
  using fb_common_header [OF assms, of PSFB s rest] by (auto simp: FeedbackPs_Parse_def)

context codec_item
begin

lemma ps_items_switch:
  assumes "\<forall>i \<in> set (ip_items q). valid i" and "fb_messageType (ip_header q) < 32"
  shows "\<exists>b. ItemsPacket_Serialize PSFB ops q = Some b \<and> length b = ItemsPacket_GetSize ops q \<and> 4 dvd length b \<and>
    FeedbackPsItemsPacket_Parse ops b = Some (Some q) \<and>
    FeedbackPs_Parse b = FeedbackPs_switch (fb_messageType (ip_header q)) b"
  using packet_roundtrip [OF assms, of PSFB] FeedbackPsItemsPacket_Serialize_form [of PSFB ops q]
    FeedbackPs_Parse_switch [OF assms(2)] by fastforce

end

text \<open>A payload-specific feedback packet (PLI, SLI, RPSI, FIR, TSTR, TSTN, LEI, application layer or
  REMB) whose fields fit their places is serialized to as many bytes as \<open>GetSize\<close> says, a multiple of
  four, and the dispatching \<open>Parse\<close> gives it back from them.\<close>

lemma FeedbackPs_roundtrip:
  assumes v: "ps_valid p" and s: "FeedbackPs_GetSize p \<le> 2 ^ 18"
  shows "\<exists>b. FeedbackPs_Serialize p = Some b \<and> length b = FeedbackPs_GetSize p \<and> 4 dvd length b \<and>
    FeedbackPs_Parse b = Some (Some p)"
proof (cases p)
  case (PliPacket h)
  with v FeedbackPs_Parse_switch [of h 12 "[]"] FeedbackPacket_roundtrip [of h PSFB 12 "[]"] show ?thesis
    by (simp add: FeedbackPs_switch_def FeedbackPsPliPacket_Parse_def)
next
  case (SliPacket q)
  with v sli.ps_items_switch [of q] show ?thesis by (auto simp: FeedbackPs_switch_def list_all_iff)
next
  case (RpsiPacket q)
  with v rpsi.ps_items_switch [of q] show ?thesis by (auto simp: FeedbackPs_switch_def list_all_iff)
next
  case (FirPacket q)
  with v fir.ps_items_switch [of q] show ?thesis by (auto simp: FeedbackPs_switch_def)
next
  case (TstrPacket q)
  with v tst.ps_items_switch [of q TSTR] show ?thesis by (auto simp: FeedbackPs_switch_def)
next
  case (TstnPacket q)
  with v tst.ps_items_switch [of q TSTN] show ?thesis by (auto simp: FeedbackPs_switch_def)
next
  case (LeiPacket q)
  with v lei.ps_items_switch [of q] show ?thesis by (auto simp: FeedbackPs_switch_def)
next
  case (AfbPacket q)
  with v s AfbPacket_roundtrip [of q] FeedbackPs_Parse_switch [of "afb_header q" "AfbPacket_GetSize q" "afb_data q"]
  show ?thesis by (auto simp: AfbPacket_Serialize_def FeedbackPs_switch_def)
next
  case (RembPacket q)
  obtain rest where "RembPacket_Serialize q =
      FeedbackPacket_Serialize PSFB (RembPacket_GetSize q) (remb_header q) @ put4 REMB_uniqueIdentifier @ rest"
    using RembPacket_Serialize_form by blast
  with RembPacket v RembPacket_roundtrip [of q]
  have "FeedbackPs_Parse (RembPacket_Serialize q) = Some (Some p)"
    by (simp add: FeedbackPs_switch_def FeedbackPs_Parse_switch)
  moreover have "4 dvd RembPacket_GetSize q" by (simp add: RembPacket_GetSize_def)
  ultimately show ?thesis using RembPacket by (simp add: length_RembPacket_Serialize)
qed (use v in simp)

end
