(* ===== verification/SeqManager.thy ===== *)
theory SeqManager
  imports Bytes
begin

text \<open>
  \<^verbatim>\<open>RTC::SeqManager<T>\<close> (\<^verbatim>\<open>src/RTC/SeqManager.cpp\<close>): rewrites the sequence numbers of a stream
  so that dropped packets leave no gap. The template parameter \<open>T\<close> is the word length; the
  class is instantiated at 8, 16 and 32 bits. The \<open>std::set\<close> ordered by \<open>SeqLowerThan\<close> is its
  iteration order, a list.
\<close>

subsection \<open>Comparison\<close>

definition MaxValue :: "'a::len word" where
  "MaxValue = - 1"

definition IsSeqLowerThan :: "'a::len word \<Rightarrow> 'a word \<Rightarrow> bool" where
  "IsSeqLowerThan lhs rhs \<longleftrightarrow>
     (rhs > lhs \<and> rhs - lhs \<le> MaxValue div 2) \<or> (lhs > rhs \<and> lhs - rhs > MaxValue div 2)"

definition IsSeqHigherThan :: "'a::len word \<Rightarrow> 'a word \<Rightarrow> bool" where
  "IsSeqHigherThan lhs rhs \<longleftrightarrow>
     (lhs > rhs \<and> lhs - rhs \<le> MaxValue div 2) \<or> (rhs > lhs \<and> rhs - lhs > MaxValue div 2)"

subsection \<open>State and the ordered set of dropped numbers\<close>

record 'w seq_manager =
  base :: 'w
  maxOutput :: 'w
  maxInput :: 'w
  dropped :: "'w list"

definition SeqManager_init :: "'a::len word seq_manager" where
  "SeqManager_init = \<lparr>base = 0, maxOutput = 0, maxInput = 0, dropped = []\<rparr>"

text \<open>\<open>std::set::insert\<close> and the suffix that starts at \<open>std::set::lower_bound\<close>.\<close>

fun dropped_insert :: "'a::len word \<Rightarrow> 'a word list \<Rightarrow> 'a word list" where
  "dropped_insert x [] = [x]"
| "dropped_insert x (y # ys) =
     (if IsSeqLowerThan x y then x # y # ys
      else if IsSeqLowerThan y x then y # dropped_insert x ys
      else y # ys)"

definition dropped_lower_bound :: "'a::len word \<Rightarrow> 'a word list \<Rightarrow> 'a word list" where
  "dropped_lower_bound key ds = dropWhile (\<lambda>d. IsSeqLowerThan d key) ds"

subsection \<open>Operations\<close>

definition Sync :: "'a::len word seq_manager \<Rightarrow> 'a word \<Rightarrow> 'a word seq_manager" where
  "Sync s input = s\<lparr>base := maxOutput s - input, maxInput := input, dropped := []\<rparr>"

definition Drop :: "'a::len word seq_manager \<Rightarrow> 'a word \<Rightarrow> 'a word seq_manager" where
  "Drop s input =
     (if IsSeqHigherThan input (maxInput s)
      then s\<lparr>dropped := dropped_insert input (dropped s)\<rparr> else s)"

definition Offset :: "'a::len word seq_manager \<Rightarrow> 'a word \<Rightarrow> 'a word seq_manager" where
  "Offset s offset = s\<lparr>base := base s + offset\<rparr>"

text \<open>\<open>Input\<close> returns \<open>None\<close> where the code returns \<open>false\<close>, else the value it stores in the
  reference parameter \<open>output\<close>.\<close>

definition Input_accept :: "'a::len word seq_manager \<Rightarrow> 'a word \<Rightarrow> 'a word \<Rightarrow> 'a word option \<times> 'a word seq_manager" where
  "Input_accept s input b =
     (let output = input + b;
          idelta = input - maxInput s;
          odelta = output - maxOutput s;
          s = (if idelta < MaxValue div 2 then s\<lparr>maxInput := input\<rparr> else s);
          s = (if odelta < MaxValue div 2 then s\<lparr>maxOutput := output\<rparr> else s)
      in (Some output, s))"

definition Input :: "'a::len word seq_manager \<Rightarrow> 'a word \<Rightarrow> 'a word option \<times> 'a word seq_manager" where
  "Input s input =
     (if dropped s \<noteq> [] then
        let kept = dropped_lower_bound (input - MaxValue div 2) (dropped s);
            s = s\<lparr>dropped := kept, base := base s - of_nat (length (dropped s) - length kept)\<rparr>;
            it = dropped_lower_bound input kept
        in if it \<noteq> [] \<and> hd it = input then (None, s)
           else Input_accept s input (base s - of_nat (length kept - length it))
      else Input_accept s input (base s))"

definition GetMaxInput :: "'a::len word seq_manager \<Rightarrow> 'a word" where
  "GetMaxInput s = maxInput s"

definition GetMaxOutput :: "'a::len word seq_manager \<Rightarrow> 'a word" where
  "GetMaxOutput s = maxOutput s"

subsection \<open>The comparison is a circular order\<close>

lemma unat_MaxValue_half: "unat (MaxValue div 2 :: 'a::len word) = 2 ^ (LENGTH('a) - 1) - 1"
proof -
  have "unat (MaxValue :: 'a word) = 2 ^ LENGTH('a) - 1"
    by (simp add: MaxValue_def unsigned_minus_1_eq_mask mask_eq_exp_minus_1)
  moreover have "unat (2 :: 'a word) = 2 mod 2 ^ LENGTH('a)" by (metis unat_numeral take_bit_nat_def)
  ultimately show ?thesis
    using two_power_half [where 'a = 'a]
    by (cases "LENGTH('a) = 1") (auto simp: unat_div_distrib)
qed

lemma IsSeqLowerThan_swap: "IsSeqLowerThan a b = IsSeqHigherThan b a"
  by (simp add: IsSeqLowerThan_def IsSeqHigherThan_def)

lemma le_half_iff: "x \<le> MaxValue div 2 \<longleftrightarrow> unat x < 2 ^ (LENGTH('a) - 1)" for x :: "'a::len word"
  by (simp add: word_le_nat_alt unat_MaxValue_half less_eq_Suc_le [symmetric] le_diff_conv2 Suc_le_eq)

lemma half_less_iff: "MaxValue div 2 < x \<longleftrightarrow> 2 ^ (LENGTH('a) - 1) \<le> unat x" for x :: "'a::len word"
  by (metis le_half_iff not_le)

lemma less_half_iff: "x < MaxValue div 2 \<longleftrightarrow> unat x < 2 ^ (LENGTH('a) - 1) - 1" for x :: "'a::len word"
  by (simp add: word_less_nat_alt unat_MaxValue_half)

lemma IsSeqHigherThan_unat:
  fixes a b :: "'a::len word"
  shows "IsSeqHigherThan a b \<longleftrightarrow>
    (if unat (a - b) = 2 ^ (LENGTH('a) - 1) then a < b
     else 0 < unat (a - b) \<and> unat (a - b) < 2 ^ (LENGTH('a) - 1))"
proof -
  have "IsSeqHigherThan a b \<longleftrightarrow> (b < a \<and> unat (a - b) < 2 ^ (LENGTH('a) - 1)) \<or>
      (a < b \<and> 2 ^ (LENGTH('a) - 1) \<le> unat (b - a))"
    by (simp add: IsSeqHigherThan_def le_half_iff half_less_iff)
  moreover have "a \<noteq> b \<Longrightarrow> a < b \<or> b < a" by auto
  ultimately show ?thesis by (cases a b rule: circ_cases) auto
qed

interpretation seq: circular_order IsSeqHigherThan
proof
  fix a b :: "'a word"
  show "\<not> IsSeqHigherThan b a" if "IsSeqHigherThan a b"
    using that by (cases a b rule: circ_cases) (auto simp: IsSeqHigherThan_unat split: if_splits)
  show "IsSeqHigherThan a b \<or> IsSeqHigherThan b a" if "a \<noteq> b"
    using that by (cases a b rule: circ_cases) (auto simp: IsSeqHigherThan_unat split: if_splits)
qed (simp add: IsSeqHigherThan_unat)

text \<open>For every instantiation of the template, \<open>IsSeqHigherThan\<close> and \<open>IsSeqLowerThan\<close> are
  converse comparisons, exactly one of them holds between two different numbers, and inside any
  window of half the number space they order the numbers by their distance from its start.\<close>

lemma SeqManager_compare:
  fixes a b r :: "'a::len word"
  shows "(IsSeqLowerThan a b \<longleftrightarrow> IsSeqHigherThan b a) \<and>
    (a \<noteq> b \<longrightarrow> IsSeqHigherThan a b \<noteq> IsSeqLowerThan a b) \<and> \<not> IsSeqHigherThan a a \<and>
    (unat (a - r) < 2 ^ (LENGTH('a) - 1) \<and> unat (b - r) < 2 ^ (LENGTH('a) - 1) \<longrightarrow>
      IsSeqHigherThan a b = (unat (b - r) < unat (a - r)))"
  using seq.gt_trichotomy [of a b] seq.gt_window [of a r b] seq.gt_irrefl [of a]
  by (auto simp: IsSeqLowerThan_swap)

subsection \<open>In-order streams\<close>

text \<open>
  The consumers call \<open>Drop\<close> on a packet they do not forward and \<open>Input\<close> on one they do. A stream
  received in order is a list of such decisions for consecutive sequence numbers.
\<close>

fun run_stream :: "'a::len word seq_manager \<Rightarrow> 'a word \<Rightarrow> bool list \<Rightarrow> 'a word option list" where
  "run_stream s n [] = []"
| "run_stream s n (forward # ops) =
     (if forward then (case Input s (n + 1) of (r, s') \<Rightarrow> r # run_stream s' (n + 1) ops)
      else run_stream (Drop s (n + 1)) (n + 1) ops)"

text \<open>The state after \<open>i\<close> numbers of an in-order stream that ends at \<open>n\<close>.\<close>

definition stream_inv :: "'a::len word seq_manager \<Rightarrow> 'a word \<Rightarrow> nat \<Rightarrow> bool" where
  "stream_inv s n i \<longleftrightarrow>
     unat (n - maxInput s) \<le> i \<and> (\<forall>d \<in> set (dropped s). unat (n - d) < i) \<and>
     n + base s - of_nat (length (dropped s)) = maxOutput s"

lemma unat_Suc_diff:
  fixes n d :: "'a::len word"
  assumes "unat (n - d) < 2 ^ LENGTH('a) - 1"
  shows "unat (n + 1 - d) = Suc (unat (n - d))"
proof -
  have "n + 1 - d = (n - d) + 1" by simp
  with assms show ?thesis by (simp only: unat_word_ariths) simp
qed

lemma half_le: "(2::nat) ^ (LENGTH('a::len) - 1) \<le> 2 ^ LENGTH('a) - 1"
  using two_power_half [where 'a = 'a] by simp

text \<open>A number at distance \<open>1 \<dots> 2 ^ (N - 1) - 2\<close> behind the next one is lower than it and is not
  purged when the next one is received.\<close>

lemma behind_not_purged:
  fixes m d :: "'a::len word"
  assumes "unat (m - d) < 2 ^ (LENGTH('a) - 1)"
  shows "\<not> IsSeqLowerThan d (m - MaxValue div 2)"
proof -
  have "d - (m - MaxValue div 2) = MaxValue div 2 - (m - d)" by simp
  moreover have "m - d \<le> MaxValue div 2" using assms by (simp add: le_half_iff)
  ultimately have u: "unat (d - (m - MaxValue div 2)) = 2 ^ (LENGTH('a) - 1) - 1 - unat (m - d)"
    by (simp only: unat_sub unat_MaxValue_half)
  have "\<not> IsSeqHigherThan (m - MaxValue div 2) d"
  proof (cases "unat (d - (m - MaxValue div 2)) = 0")
    case True
    then have "d = m - MaxValue div 2" by (simp only: unat_eq_zero right_minus_eq)
    then show ?thesis by (simp add: seq.gt_irrefl)
  next
    case False
    have "(0::nat) < 2 ^ (LENGTH('a) - 1)" by simp
    with False u have "IsSeqHigherThan d (m - MaxValue div 2)" by (intro seq.gt_near) linarith+
    then show ?thesis by (rule seq.gt_asym)
  qed
  then show ?thesis by (simp add: IsSeqLowerThan_swap)
qed

lemma behind_lower:
  fixes m d :: "'a::len word"
  assumes "0 < unat (m - d)" and "unat (m - d) < 2 ^ (LENGTH('a) - 1)"
  shows "IsSeqLowerThan d m"
  using assms by (simp add: IsSeqLowerThan_swap seq.gt_near)

lemma dropWhile_none: "(\<And>x. x \<in> set xs \<Longrightarrow> \<not> P x) \<Longrightarrow> dropWhile P xs = xs"
  by (cases xs) auto

lemma dropped_insert_last: "(\<And>d. d \<in> set ds \<Longrightarrow> IsSeqLowerThan d x) \<Longrightarrow> dropped_insert x ds = ds @ [x]"
proof (induction ds)
  case (Cons y ys)
  then have "\<not> IsSeqLowerThan x y" using seq.gt_asym by (auto simp: IsSeqLowerThan_swap)
  with Cons show ?case by simp
qed simp

lemma stream_behind:
  fixes s :: "'a::len word seq_manager"
  assumes "stream_inv s n i" and "i + 2 < 2 ^ (LENGTH('a) - 1)" and "d \<in> set (dropped s)"
  shows "unat (n + 1 - d) \<le> i" and "0 < unat (n + 1 - d)"
proof -
  have "unat (n - d) < i" using assms by (simp add: stream_inv_def)
  moreover from this have "unat (n + 1 - d) = Suc (unat (n - d))"
    using assms(2) half_le [where 'a = 'a] by (intro unat_Suc_diff) linarith
  ultimately show "unat (n + 1 - d) \<le> i" "0 < unat (n + 1 - d)" by simp_all
qed

lemma stream_maxInput:
  fixes s :: "'a::len word seq_manager"
  assumes "stream_inv s n i" and "i + 2 < 2 ^ (LENGTH('a) - 1)"
  shows "unat (n + 1 - maxInput s) \<le> Suc i" and "0 < unat (n + 1 - maxInput s)"
proof -
  have "unat (n - maxInput s) \<le> i" using assms by (simp add: stream_inv_def)
  moreover from this have "unat (n + 1 - maxInput s) = Suc (unat (n - maxInput s))"
    using assms(2) half_le [where 'a = 'a] by (intro unat_Suc_diff) linarith
  ultimately show "unat (n + 1 - maxInput s) \<le> Suc i" "0 < unat (n + 1 - maxInput s)" by simp_all
qed

lemma stream_Drop:
  fixes s :: "'a::len word seq_manager"
  assumes inv: "stream_inv s n i" and i: "i + 2 < 2 ^ (LENGTH('a) - 1)"
  shows "stream_inv (Drop s (n + 1)) (n + 1) (Suc i)" and "maxOutput (Drop s (n + 1)) = maxOutput s"
proof -
  note mi = stream_maxInput [OF inv i]
  have "IsSeqHigherThan (n + 1) (maxInput s)" using mi i by (intro seq.gt_near) linarith+
  moreover have "dropped_insert (n + 1) (dropped s) = dropped s @ [n + 1]"
  proof (rule dropped_insert_last)
    fix d assume "d \<in> set (dropped s)"
    from stream_behind [OF inv i this] i show "IsSeqLowerThan d (n + 1)" by (intro behind_lower) linarith+
  qed
  ultimately have D: "Drop s (n + 1) = s\<lparr>dropped := dropped s @ [n + 1]\<rparr>" by (simp add: Drop_def)
  show "maxOutput (Drop s (n + 1)) = maxOutput s" by (simp add: D)
  show "stream_inv (Drop s (n + 1)) (n + 1) (Suc i)"
    using inv mi stream_behind [OF inv i] unfolding D stream_inv_def
    by (auto simp: less_Suc_eq_le algebra_simps)
qed

lemma stream_Input:
  fixes s :: "'a::len word seq_manager"
  assumes inv: "stream_inv s n i" and i: "i + 2 < 2 ^ (LENGTH('a) - 1)"
  shows "\<exists>s'. Input s (n + 1) = (Some (maxOutput s + 1), s') \<and>
    stream_inv s' (n + 1) (Suc i) \<and> maxOutput s' = maxOutput s + 1"
proof -
  have kept: "dropped_lower_bound (n + 1 - MaxValue div 2) (dropped s) = dropped s"
    unfolding dropped_lower_bound_def
    using stream_behind [OF inv i] i by (intro dropWhile_none behind_not_purged) (force simp: less_le_trans)+
  have none: "dropped_lower_bound (n + 1) (dropped s) = []"
    unfolding dropped_lower_bound_def
    using stream_behind [OF inv i] i by (auto simp: dropWhile_eq_Nil_conv intro!: behind_lower) (force)+
  have I: "Input s (n + 1) = Input_accept s (n + 1) (base s - of_nat (length (dropped s)))"
    by (simp add: Input_def Let_def kept none)
  have out: "n + 1 + (base s - of_nat (length (dropped s))) = maxOutput s + 1"
    using inv by (simp add: stream_inv_def algebra_simps)
  have "unat (1 :: 'a word) < 2 ^ (LENGTH('a) - 1) - 1" using i by simp
  then have o: "(1 :: 'a word) < MaxValue div 2" by (simp only: less_half_iff)
  have m: "n + 1 - maxInput s < MaxValue div 2"
    using stream_maxInput [OF inv i] i by (simp add: less_half_iff)
  have "Input s (n + 1) =
      (Some (maxOutput s + 1), s\<lparr>maxInput := n + 1, maxOutput := maxOutput s + 1\<rparr>)" (is "_ = (_, ?s')")
    by (simp add: I Input_accept_def Let_def out o m)
  moreover have "stream_inv ?s' (n + 1) (Suc i)"
    using inv stream_behind [OF inv i] by (auto simp: stream_inv_def less_Suc_eq_le algebra_simps)
  ultimately show ?thesis by auto
qed

lemma stream_outputs:
  fixes s :: "'a::len word seq_manager"
  assumes "stream_inv s n i" and "i + length ops + 1 < 2 ^ (LENGTH('a) - 1)"
  shows "run_stream s n ops = map (\<lambda>k. Some (maxOutput s + of_nat k)) [1..<Suc (count_list ops True)]"
  using assms
proof (induction ops arbitrary: s n i)
  case (Cons forward ops)
  from Cons.prems have i: "i + 2 < 2 ^ (LENGTH('a) - 1)" by simp
  show ?case
  proof (cases forward)
    case True
    from stream_Input [OF Cons.prems(1) i] obtain s' where
      I: "Input s (n + 1) = (Some (maxOutput s + 1), s')" and inv: "stream_inv s' (n + 1) (Suc i)"
      and mo: "maxOutput s' = maxOutput s + 1" by blast
    have "run_stream s' (n + 1) ops =
        map (\<lambda>k. Some (maxOutput s' + of_nat k)) [1..<Suc (count_list ops True)]"
      using inv Cons.prems(2) by (intro Cons.IH) auto
    also have "\<dots> = map (\<lambda>k. Some (maxOutput s + of_nat k)) [2..<Suc (Suc (count_list ops True))]"
      unfolding numeral_2_eq_2 One_nat_def map_Suc_upt [symmetric] map_map by (simp add: mo o_def add.assoc)
    finally show ?thesis using True
      by (simp add: I upt_conv_Cons [of "Suc 0"] numeral_2_eq_2 del: upt_Suc)
  next
    case False
    then show ?thesis
      using Cons.IH [OF stream_Drop(1) [OF Cons.prems(1) i]] Cons.prems(2) stream_Drop(2) [OF Cons.prems(1) i]
      by simp
  qed
qed simp

subsection \<open>Streams of any length\<close>

text \<open>
  Dropped numbers are purged by the next \<open>Input\<close> once they are half the number space behind. Counted from
  the number of \<open>Sync\<close>, the state after the first \<open>i\<close> decisions of a stream: the dropped numbers of the last
  half of the number space in order, a last forwarded number with only drops after it, and a base from
  which the next forwarded number follows the last output.
\<close>

definition dropped_window :: "nat \<Rightarrow> bool list \<Rightarrow> nat \<Rightarrow> nat \<Rightarrow> nat list" where
  "dropped_window h ops i j = filter (\<lambda>p. \<not> ops ! p \<and> i \<le> p + h) [0..<j]"

definition long_inv :: "bool list \<Rightarrow> 'a::len word \<Rightarrow> 'a word seq_manager \<Rightarrow> nat \<Rightarrow> bool" where
  "long_inv ops n s i \<longleftrightarrow>
     dropped s = map (\<lambda>p. n + of_nat (Suc p)) (dropped_window (2 ^ (LENGTH('a) - 1)) ops i i) \<and>
     (\<exists>l \<le> i. maxInput s = n + of_nat l \<and> (\<forall>j. l \<le> j \<and> j < i \<longrightarrow> \<not> ops ! j)) \<and>
     n + of_nat i + base s - of_nat (length (dropped s)) = maxOutput s"

definition drops_unpaired :: "nat \<Rightarrow> bool list \<Rightarrow> bool" where
  "drops_unpaired h ops \<longleftrightarrow> (\<forall>p < length ops - h. ops ! p \<or> ops ! (p + h))"

definition drop_runs_below :: "nat \<Rightarrow> bool list \<Rightarrow> bool" where
  "drop_runs_below r ops \<longleftrightarrow> (\<forall>k < Suc (length ops) - r. True \<in> set (take r (drop k ops)))"

lemma drop_run_short:
  assumes "drop_runs_below r ops" "l \<le> i" "i \<le> length ops" "\<And>j. l \<le> j \<Longrightarrow> j < i \<Longrightarrow> \<not> ops ! j"
  shows "i < l + r"
proof (rule ccontr)
  assume "\<not> i < l + r"
  moreover from this have "True \<in> set (take r (drop l ops))" using assms(1,3) by (simp add: drop_runs_below_def)
  ultimately show False using assms(3,4) by (auto simp: in_set_conv_nth)
qed

lemma dropped_window_purge:
  "dropped_window h ops i i = (if h \<le> i \<and> 0 < h \<and> \<not> ops ! (i - h) then [i - h] else []) @ dropped_window h ops (Suc i) i"
proof (cases "h \<le> i \<and> 0 < h")
  case True
  then have "[0..<i] = [0..<i - h] @ (i - h) # [Suc (i - h)..<i]"
    by (metis diff_less le_add_diff_inverse2 less_le_trans upt_add_eq_append upt_conv_Cons diff_le_self le0 le_add1)
  moreover have "filter (\<lambda>p. \<not> ops ! p \<and> i \<le> p + h) [Suc (i - h)..<i] = filter (\<lambda>p. \<not> ops ! p \<and> Suc i \<le> p + h) [Suc (i - h)..<i]"
    using True by (intro filter_cong) auto
  moreover have "filter (\<lambda>p. \<not> ops ! p \<and> k \<le> p + h) [0..<i - h] = []" if "i \<le> k" for k
    using that by (auto simp: filter_empty_conv)
  ultimately show ?thesis using True by (simp add: dropped_window_def)
next
  case False
  then show ?thesis by (auto simp: dropped_window_def intro: filter_cong)
qed

lemma dropped_window_Suc:
  "dropped_window h ops (Suc i) (Suc i) = dropped_window h ops (Suc i) i @ (if \<not> ops ! i \<and> 0 < h then [i] else [])"
  by (auto simp: dropped_window_def)

lemma unat_position_diff:
  "p \<le> q \<Longrightarrow> q < p + 2 ^ LENGTH('a) \<Longrightarrow> unat (n + of_nat q - (n + of_nat p) :: 'a::len word) = q - p"
  by (simp add: of_nat_diff [symmetric] unat_of_nat_less del: of_nat_diff)

lemma window_behind:
  assumes "p \<in> set (dropped_window (2 ^ (LENGTH('a) - 1)) ops (Suc i) i)"
  shows "unat (n + of_nat (Suc i) - (n + of_nat (Suc p)) :: 'a::len word) < 2 ^ (LENGTH('a) - 1)"
    "0 < unat (n + of_nat (Suc i) - (n + of_nat (Suc p)) :: 'a::len word)"
proof -
  have "p < i" "Suc i \<le> p + 2 ^ (LENGTH('a) - 1)" using assms by (auto simp: dropped_window_def)
  then have "unat (n + of_nat (Suc i) - (n + of_nat (Suc p)) :: 'a word) = i - p"
    using half_le [where 'a = 'a] by (subst unat_position_diff) (auto)
  with \<open>p < i\<close> \<open>Suc i \<le> _\<close> show "unat (n + of_nat (Suc i) - (n + of_nat (Suc p)) :: 'a word) < 2 ^ (LENGTH('a) - 1)"
    "0 < unat (n + of_nat (Suc i) - (n + of_nat (Suc p)) :: 'a word)" by linarith+
qed

lemma half_behind_purged:
  fixes m d :: "'a::len word"
  assumes "unat (m - d) = 2 ^ (LENGTH('a) - 1)" "1 < LENGTH('a)"
  shows "IsSeqLowerThan d (m - MaxValue div 2)"
proof -
  have one: "(1 :: nat) < 2 ^ (LENGTH('a) - 1)" using assms(2) by (intro one_less_power) auto
  have le: "MaxValue div 2 \<le> m - d" by (simp add: word_le_nat_alt unat_MaxValue_half assms(1))
  have "m - MaxValue div 2 - d = m - d - MaxValue div 2" by simp
  then have "unat (m - MaxValue div 2 - d) = 1"
    using one by (simp only: unat_sub [OF le] unat_MaxValue_half assms(1))
  with one show ?thesis by (intro behind_lower) simp_all
qed

lemma long_Drop:
  fixes s :: "'a::len word seq_manager"
  assumes inv: "long_inv ops n s i" and i: "i < length ops" "\<not> ops ! i"
    and u: "drops_unpaired (2 ^ (LENGTH('a) - 1)) ops" and r: "drop_runs_below (2 ^ (LENGTH('a) - 1) - 2) ops"
  shows "long_inv ops n (Drop s (n + of_nat i + 1)) (Suc i) \<and> maxOutput (Drop s (n + of_nat i + 1)) = maxOutput s"
proof -
  let ?h = "2 ^ (LENGTH('a) - 1) :: nat" and ?w = "\<lambda>p. n + of_nat (Suc p)"
  have num: "n + of_nat i + 1 = ?w i" by simp
  obtain l where l: "l \<le> i" "maxInput s = n + of_nat l" "\<And>j. l \<le> j \<Longrightarrow> j < i \<Longrightarrow> \<not> ops ! j"
    using inv by (auto simp: long_inv_def)
  have "i < l + (?h - 2)" using drop_run_short [OF r l(1) _ l(3)] i by simp
  then have mi: "unat (?w i - maxInput s) = Suc i - l" "Suc i - l < ?h"
    using unat_position_diff [of l "Suc i" n] half_le [where 'a = 'a] l by auto
  then have "IsSeqHigherThan (?w i) (maxInput s)" using l(1) by (intro seq.gt_near) linarith+
  moreover have win: "dropped_window ?h ops i i = dropped_window ?h ops (Suc i) i"
    using u i by (subst dropped_window_purge) (auto simp: drops_unpaired_def dest: spec [of _ "i - ?h"])
  have ds: "dropped s = map ?w (dropped_window ?h ops (Suc i) i)" using inv by (simp only: long_inv_def win)
  moreover have "dropped_insert (?w i) (dropped s) = dropped s @ [?w i]"
    by (rule dropped_insert_last) (use window_behind in \<open>auto simp: ds simp del: of_nat_Suc intro!: behind_lower\<close>)
  ultimately have D: "Drop s (?w i) = s\<lparr>dropped := dropped s @ [?w i]\<rparr>" by (simp add: Drop_def)
  have "dropped s @ [?w i] = map ?w (dropped_window ?h ops (Suc i) (Suc i))" using i by (simp add: ds dropped_window_Suc)
  moreover have "\<exists>l \<le> Suc i. maxInput s = n + of_nat l \<and> (\<forall>j. l \<le> j \<and> j < Suc i \<longrightarrow> \<not> ops ! j)"
    using l i(2) by (intro exI [of _ l]) (auto simp: less_Suc_eq)
  moreover have "n + of_nat (Suc i) + base s - of_nat (length (dropped s @ [?w i])) = maxOutput s"
    using inv by (auto simp: long_inv_def algebra_simps)
  ultimately have "long_inv ops n (s\<lparr>dropped := dropped s @ [?w i]\<rparr>) (Suc i)" by (simp only: long_inv_def) simp
  then show ?thesis unfolding num D by simp
qed

lemma long_Input:
  fixes s :: "'a::len word seq_manager"
  assumes inv: "long_inv ops n s i" and i: "i < length ops" "ops ! i"
    and r: "drop_runs_below (2 ^ (LENGTH('a) - 1) - 2) ops"
  shows "\<exists>s'. Input s (n + of_nat i + 1) = (Some (maxOutput s + 1), s') \<and> long_inv ops n s' (Suc i) \<and> maxOutput s' = maxOutput s + 1"
proof -
  let ?h = "2 ^ (LENGTH('a) - 1) :: nat" and ?w = "\<lambda>p. n + of_nat (Suc p)"
  let ?kept = "map ?w (dropped_window ?h ops (Suc i) i)"
  define old where "old = (if ?h \<le> i \<and> 0 < ?h \<and> \<not> ops ! (i - ?h) then [?w (i - ?h)] else [])"
  have num: "n + of_nat i + 1 = ?w i" by simp
  obtain l where l: "l \<le> i" "maxInput s = n + of_nat l" "\<And>j. l \<le> j \<Longrightarrow> j < i \<Longrightarrow> \<not> ops ! j"
    using inv by (auto simp: long_inv_def)
  have h: "2 < ?h" using r by (cases "?h - 2") (auto simp: drop_runs_below_def)
  then have len: "1 < LENGTH('a)" by (cases "LENGTH('a)" rule: nat.exhaust [case_names 0 Suc]) (auto intro: ccontr)
  have "i < l + (?h - 2)" using drop_run_short [OF r l(1) _ l(3)] i by simp
  then have mi: "?w i - maxInput s < MaxValue div 2"
    using unat_position_diff [of l "Suc i" n] half_le [where 'a = 'a] l by (auto simp: less_half_iff)
  have ds: "dropped s = old @ ?kept"
    using inv unfolding long_inv_def by (simp only: dropped_window_purge [of ?h ops i] old_def) simp
  have "unat (?w i - ?w (i - ?h)) = ?h" if "?h \<le> i"
    using that unat_position_diff [of "Suc (i - ?h)" "Suc i" n] half_le [where 'a = 'a] h by auto
  then have "IsSeqLowerThan d (?w i - MaxValue div 2)" if "d \<in> set old" for d
    using that len by (auto simp: old_def split: if_splits intro!: half_behind_purged)
  then have kept: "dropped_lower_bound (?w i - MaxValue div 2) (dropped s) = ?kept"
    unfolding dropped_lower_bound_def ds
    by (subst dropWhile_append2, blast, intro dropWhile_none behind_not_purged)
      (use window_behind in \<open>auto simp del: of_nat_Suc\<close>)
  have none: "dropped_lower_bound (?w i) ?kept = []"
    unfolding dropped_lower_bound_def using window_behind by (auto simp: dropWhile_eq_Nil_conv simp del: of_nat_Suc intro!: behind_lower)
  let ?b = "base s - of_nat (length old)"
  let ?s = "s\<lparr>dropped := ?kept, base := ?b\<rparr>"
  have I: "Input s (?w i) = Input_accept ?s (?w i) (?b - of_nat (length ?kept))"
  proof (cases "dropped s = []")
    case True
    then have e: "old = []" "?kept = []" by (simp_all add: ds)
    then have "?s = s" using True by (simp only: list.size of_nat_0 diff_zero) simp
    then show ?thesis using True e by (simp only: Input_def list.size of_nat_0 diff_zero) simp
  next
    case False
    then show ?thesis unfolding Input_def Let_def kept none by (simp add: ds)
  qed
  have out: "?w i + (?b - of_nat (length ?kept)) = maxOutput s + 1"
    using inv by (simp add: long_inv_def ds algebra_simps)
  have o: "(1 :: 'a word) < MaxValue div 2" using h len by (simp add: less_half_iff)
  let ?s' = "?s\<lparr>maxInput := ?w i, maxOutput := maxOutput s + 1\<rparr>"
  have "Input s (?w i) = (Some (maxOutput s + 1), ?s')"
    unfolding I Input_accept_def Let_def out using o mi by (simp del: of_nat_Suc)
  moreover have "long_inv ops n ?s' (Suc i)"
    using out i by (simp add: long_inv_def dropped_window_Suc algebra_simps) (auto intro: exI [of _ "Suc i"])
  ultimately show ?thesis unfolding num by auto
qed

lemma long_outputs:
  fixes s :: "'a::len word seq_manager"
  assumes u: "drops_unpaired (2 ^ (LENGTH('a) - 1)) ops" and r: "drop_runs_below (2 ^ (LENGTH('a) - 1) - 2) ops"
    and "long_inv ops n s i" "i \<le> length ops"
  shows "run_stream s (n + of_nat i) (drop i ops) =
    map (\<lambda>k. Some (maxOutput s + of_nat k)) [1..<Suc (count_list (drop i ops) True)]"
  using assms(3,4)
proof (induction "length ops - i" arbitrary: s i)
  case (Suc k)
  then have i: "i < length ops" by simp
  have d: "drop i ops = ops ! i # drop (Suc i) ops" using i by (simp add: Cons_nth_drop_Suc)
  have IH: "run_stream s' (n + of_nat i + 1) (drop (Suc i) ops) =
      map (\<lambda>k. Some (maxOutput s' + of_nat k)) [1..<Suc (count_list (drop (Suc i) ops) True)]" if "long_inv ops n s' (Suc i)" for s'
    using Suc.hyps(1) [OF _ that] Suc.hyps(2) i by (simp add: ac_simps del: upt_Suc)
  show ?case
  proof (cases "ops ! i")
    case True
    obtain s' where s': "Input s (n + of_nat i + 1) = (Some (maxOutput s + 1), s')" "long_inv ops n s' (Suc i)" "maxOutput s' = maxOutput s + 1"
      using long_Input [OF Suc.prems(1) i True r] by blast
    have "map (\<lambda>k. Some (maxOutput s' + of_nat k)) [1..<Suc m] = map (\<lambda>k. Some (maxOutput s + of_nat k)) [2..<Suc (Suc m)]" for m
      unfolding numeral_2_eq_2 One_nat_def map_Suc_upt [symmetric] map_map by (simp add: s'(3) o_def add.assoc)
    then show ?thesis using True IH [OF s'(2)]
      by (simp add: d s'(1) upt_conv_Cons [of "Suc 0"] numeral_2_eq_2 del: upt_Suc)
  next
    case False
    then show ?thesis using long_Drop [OF Suc.prems(1) i False u r] IH by (simp add: d)
  qed
qed simp

text \<open>C3: After \<open>Sync(n)\<close>, for decisions to forward or drop the packets that follow in order, a stream of any
  length, the forwarded ones leave the manager with consecutive sequence numbers that continue its last output,
  provided that no two dropped numbers are exactly half the sequence number space apart and that among as many
  consecutive packets as half the space less two there is always a forwarded one.\<close>

theorem in_order_stream_has_no_gaps:
  fixes s :: "'a::len word seq_manager"
  assumes "drops_unpaired (2 ^ (LENGTH('a) - 1)) ops" "drop_runs_below (2 ^ (LENGTH('a) - 1) - 2) ops"
  shows "run_stream (Sync s n) n ops =
    map (\<lambda>k. Some (GetMaxOutput s + of_nat k)) [1..<Suc (count_list ops True)]"
proof -
  have "long_inv ops n (Sync s n) 0" by (simp add: long_inv_def Sync_def dropped_window_def)
  from long_outputs [OF assms this] show ?thesis by (simp add: Sync_def GetMaxOutput_def)
qed

theorem in_order_stream_has_no_gaps_witness:
  "run_stream (Sync (SeqManager_init :: u8 seq_manager) 250) 250 (concat (replicate 45 [True, True, False])) =
     map (\<lambda>k. Some (of_nat k)) [1..<91]"
proof -
  have "drops_unpaired 128 (concat (replicate 45 [True, True, False]))"
    "drop_runs_below 126 (concat (replicate 45 [True, True, False]))" by code_simp+
  moreover have "count_list (concat (replicate 45 [True, True, False])) True = 90" by code_simp
  ultimately show ?thesis
    using in_order_stream_has_no_gaps [of "concat (replicate 45 [True, True, False])" "SeqManager_init :: u8 seq_manager" 250]
    by (simp add: GetMaxOutput_def SeqManager_init_def)
qed

text \<open>Two dropped numbers exactly half the space apart meet in the set, because only a forwarded packet
  purges: the comparison puts the new one first, the numbers behind it are no longer counted, and the
  next forwarded packet leaves a gap. The first lemma is a run of the 8-bit manager, the second the step of the
  16-bit manager in the state that such a run reaches.\<close>

lemma drops_half_apart_leave_gap:
  "drop 126 (run_stream (Sync (SeqManager_init :: u8 seq_manager) 0) 0 (False # replicate 127 True @ [False, True])) =
     [Some 127, Some 129]"
  by code_simp

lemma drops_half_apart_leave_gap_16:
  "fst (Input (Drop \<lparr>base = 0 :: u16, maxOutput = 32767, maxInput = 32768, dropped = [1]\<rparr> 32769) 32770) = Some 32769"
  by code_simp

text \<open>A packet marked with \<open>Drop\<close> while every number already dropped is behind it (by less than
  half the space) is refused by \<open>Input\<close>: the call returns \<open>false\<close> and stores no output number.\<close>

lemma Input_refuses_dropped:
  fixes s :: "'a::len word seq_manager"
  assumes "0 < unat (x - maxInput s)" and "unat (x - maxInput s) < 2 ^ (LENGTH('a) - 1)"
    and "\<forall>d \<in> set (dropped s). 0 < unat (x - d) \<and> unat (x - d) < 2 ^ (LENGTH('a) - 1)"
  shows "fst (Input (Drop s x) x) = None"
proof -
  have D: "Drop s x = s\<lparr>dropped := dropped s @ [x]\<rparr>"
    using seq.gt_near [OF assms(1,2)] assms(3) by (simp add: Drop_def dropped_insert_last behind_lower)
  have kept: "dropped_lower_bound (x - MaxValue div 2) (dropped s @ [x]) = dropped s @ [x]"
    using assms(3) unfolding dropped_lower_bound_def
    by (intro dropWhile_none behind_not_purged) auto
  have it: "dropped_lower_bound x (dropped s @ [x]) = [x]"
    using assms(3) seq.gt_irrefl [of x] unfolding dropped_lower_bound_def
    by (subst dropWhile_append2) (auto simp: behind_lower IsSeqLowerThan_swap [of x x])
  show ?thesis by (simp add: D Input_def Let_def kept it)
qed

text \<open>When a packet is dropped before an earlier one arrives, the purge of old numbers takes the
  dropped number, which is ahead of the earlier one, for an old one: it is forgotten, the base moves,
  and the earlier packet is sent with the sequence number that the packet before it already has.\<close>

lemma out_of_order_drop_duplicates_output:
  "let s0 = Sync (SeqManager_init :: u16 seq_manager) 9;
       (r10, s1) = Input s0 10;
       s2 = Drop s1 13;
       (r11, s3) = Input s2 11
   in r10 = r11 \<and> r10 = Some 1 \<and> 13 \<notin> set (dropped s3)"
  by code_simp

end
