(* ===== verification/Rtcp_TransportCC.thy ===== *)
theory Rtcp_TransportCC
  imports Rtcp_Feedback SeqManager
begin

text \<open>
  Transport-wide congestion control feedback: \<^verbatim>\<open>FeedbackRtpTransportPacket\<close> and its chunk classes
  (\<^verbatim>\<open>include/RTC/RTCP/FeedbackRtpTransport.hpp\<close>, \<^verbatim>\<open>src/RTC/RTCP/FeedbackRtpTransport.cpp\<close>):
  recording of received packets as chunks of statuses and receive deltas, serialization, parsing,
  and the packet results a receiver computes from them.

  The abstraction of the builder state is the list of statuses it stands for: those of the finished
  chunks followed by the pending ones (\<open>tcc_statuses\<close>). Whatever chunk layout the code chooses,
  recording a packet appends one \<open>NotReceived\<close> per missing sequence number and the status of the
  packet to that list.
\<close>

subsection \<open>Statuses, chunks, the packet\<close>

datatype status = NotReceived | SmallDelta | LargeDelta | Reserved | NoStatus

fun status_code :: "status \<Rightarrow> u16" where
  "status_code NotReceived = 0" | "status_code SmallDelta = 1" | "status_code LargeDelta = 2"
| "status_code Reserved = 3" | "status_code NoStatus = 4"

text \<open>\<open>static_cast<Status>\<close> of a two-bit value.\<close>

definition status_of :: "u16 \<Rightarrow> status" where
  "status_of w = (if w = 0 then NotReceived else if w = 1 then SmallDelta else if w = 2 then LargeDelta
     else if w = 3 then Reserved else NoStatus)"

datatype chunk =
    RunLengthChunk status u16
  | OneBitVectorChunk "status list"
  | TwoBitVectorChunk "status list"

record tcc_context =
  allSameStatus :: bool
  currentStatus :: status
  statuses :: "status list"

record tcc =
  tcc_header :: fb_header
  baseSequenceNumber :: u16
  referenceTime :: u32               \<comment> \<open>\<open>int32_t\<close>\<close>
  latestSequenceNumber :: u16
  latestTimestamp :: u64
  packetStatusCount :: u16
  feedbackPacketCount :: u8
  chunks :: "chunk list"
  deltas :: "u16 list"               \<comment> \<open>\<open>int16_t\<close>\<close>
  tcc_ctx :: tcc_context
  deltasAndChunksSize :: nat
  tcc_size :: nat

definition tcc_new :: "u32 \<Rightarrow> u32 \<Rightarrow> tcc" where
  "tcc_new sender media =
     \<lparr>tcc_header = \<lparr>fb_messageType = 15, fb_senderSsrc = sender, fb_mediaSsrc = media\<rparr>,
      baseSequenceNumber = 0, referenceTime = 0, latestSequenceNumber = 0, latestTimestamp = 0,
      packetStatusCount = 0, feedbackPacketCount = 0, chunks = [], deltas = [],
      tcc_ctx = \<lparr>allSameStatus = True, currentStatus = NoStatus, statuses = []\<rparr>,
      deltasAndChunksSize = 0, tcc_size = 0\<rparr>"

definition tcc_GetSize :: "tcc \<Rightarrow> nat" where
  "tcc_GetSize p = (if tcc_size p \<noteq> 0 then tcc_size p else align4 (12 + 8 + deltasAndChunksSize p))"

definition tcc_IsFull :: "tcc \<Rightarrow> bool" where
  "tcc_IsFull p \<longleftrightarrow> packetStatusCount p \<ge> 65535 - 7"

definition IsSerializable :: "tcc \<Rightarrow> bool" where
  "IsSerializable p \<longleftrightarrow> length (deltas p) > 0"

subsection \<open>Chunks\<close>

definition status_received :: "status \<Rightarrow> bool" where
  "status_received s \<longleftrightarrow> s = SmallDelta \<or> s = LargeDelta"

fun chunk_GetCount :: "chunk \<Rightarrow> u16" where
  "chunk_GetCount (RunLengthChunk s n) = n"
| "chunk_GetCount (OneBitVectorChunk ss) = of_nat (length ss)"
| "chunk_GetCount (TwoBitVectorChunk ss) = of_nat (length ss)"

fun chunk_GetReceivedStatusCount :: "chunk \<Rightarrow> u16" where
  "chunk_GetReceivedStatusCount (RunLengthChunk s n) = (if status_received s then n else 0)"
| "chunk_GetReceivedStatusCount (OneBitVectorChunk ss) = of_nat (length (filter status_received ss))"
| "chunk_GetReceivedStatusCount (TwoBitVectorChunk ss) = of_nat (length (filter status_received ss))"

text \<open>\<open>bytes |= status << i; i -= step\<close>, from the index \<open>i\<close> down.\<close>

primrec or_statuses :: "nat \<Rightarrow> status list \<Rightarrow> nat \<Rightarrow> u16 \<Rightarrow> u16" where
  "or_statuses stp [] i bytes = bytes"
| "or_statuses stp (s # ss) i bytes = or_statuses stp ss (i - stp) (bytes OR push_bit i (status_code s))"

text \<open>\<open>None\<close> is a failed assertion: a vector chunk that holds too many statuses.\<close>

fun chunk_Serialize :: "chunk \<Rightarrow> bytes option" where
  "chunk_Serialize (RunLengthChunk s n) = Some (put2 (push_bit 13 (status_code s) OR (n AND 0x1FFF)))"
| "chunk_Serialize (OneBitVectorChunk ss) =
     (if length ss \<le> 14 then Some (put2 (or_statuses 1 ss 13 0x8000)) else None)"
| "chunk_Serialize (TwoBitVectorChunk ss) =
     (if length ss \<le> 7 then Some (put2 (or_statuses 2 ss 12 (0x8000 OR push_bit 14 1))) else None)"

definition OneBitVectorChunk_ctor :: "u16 \<Rightarrow> u16 \<Rightarrow> chunk" where
  "OneBitVectorChunk_ctor buffer cnt =
     OneBitVectorChunk (map (\<lambda>i. status_of ((drop_bit (14 - 1 - i) buffer) AND 0x01)) [0..<min 14 (unat cnt)])"

definition TwoBitVectorChunk_ctor :: "u16 \<Rightarrow> u16 \<Rightarrow> chunk" where
  "TwoBitVectorChunk_ctor buffer cnt =
     TwoBitVectorChunk (map (\<lambda>i. status_of ((drop_bit (2 * (7 - 1 - i)) buffer) AND 0x03)) [0..<min 7 (unat cnt)])"

definition Chunk_Parse :: "bytes \<Rightarrow> u16 \<Rightarrow> chunk option option" where
  "Chunk_Parse d cnt =
     (if length d < 2 then Some None
      else do {
        bytes \<leftarrow> Get2Bytes d 0;
        if (drop_bit 15 bytes) AND 1 = 0 then
          let s = status_of ((drop_bit 13 bytes) AND 0x03) in
          Some (if s = NotReceived \<or> s = SmallDelta \<or> s = LargeDelta
                then Some (RunLengthChunk s (bytes AND 0x1FFF)) else None)
        else do {
          b0 \<leftarrow> Get1Byte d 0;
          Some (Some (if b0 AND 0x40 = 0 then OneBitVectorChunk_ctor bytes cnt
                      else TwoBitVectorChunk_ctor bytes cnt)) } })"

text \<open>Reading deltas. The result is the deltas and the bytes after them; the inner \<open>None\<close> is \<open>false\<close>.\<close>

primrec read_deltas1 :: "nat \<Rightarrow> bytes \<Rightarrow> (u16 list \<times> bytes) option" where
  "read_deltas1 0 d = Some ([], d)"
| "read_deltas1 (Suc n) d = do {
     v \<leftarrow> Get1Byte d 0; (vs, d) \<leftarrow> read_deltas1 n (drop 1 d); Some (ucast v # vs, d) }"

primrec read_deltas2 :: "nat \<Rightarrow> bytes \<Rightarrow> (u16 list \<times> bytes) option" where
  "read_deltas2 0 d = Some ([], d)"
| "read_deltas2 (Suc n) d = do {
     v \<leftarrow> Get2Bytes d 0; (vs, d) \<leftarrow> read_deltas2 n (drop 2 d); Some (v # vs, d) }"

primrec OneBit_AddDeltas :: "status list \<Rightarrow> bytes \<Rightarrow> (u16 list \<times> bytes) option option" where
  "OneBit_AddDeltas [] d = Some (Some ([], d))"
| "OneBit_AddDeltas (s # ss) d =
     (if s = NotReceived then OneBit_AddDeltas ss d
      else if s = SmallDelta then
        (if length d < 1 then Some None
         else do {
           v \<leftarrow> Get1Byte d 0; r \<leftarrow> OneBit_AddDeltas ss (drop 1 d);
           Some (map_option (apfst ((#) (ucast v))) r) })
      else Some None)"

primrec TwoBit_AddDeltas :: "status list \<Rightarrow> bytes \<Rightarrow> (u16 list \<times> bytes) option option" where
  "TwoBit_AddDeltas [] d = Some (Some ([], d))"
| "TwoBit_AddDeltas (s # ss) d =
     (if s = NotReceived then TwoBit_AddDeltas ss d
      else if s = SmallDelta then
        (if length d < 1 then Some None
         else do {
           v \<leftarrow> Get1Byte d 0; r \<leftarrow> TwoBit_AddDeltas ss (drop 1 d);
           Some (map_option (apfst ((#) (ucast v))) r) })
      else if s = LargeDelta then
        (if length d < 2 then Some None
         else do {
           v \<leftarrow> Get2Bytes d 0; r \<leftarrow> TwoBit_AddDeltas ss (drop 2 d);
           Some (map_option (apfst ((#) v)) r) })
      else TwoBit_AddDeltas ss d)"

fun chunk_AddDeltas :: "chunk \<Rightarrow> bytes \<Rightarrow> (u16 list \<times> bytes) option option" where
  "chunk_AddDeltas (RunLengthChunk s n) d =
     (if s = NotReceived then Some (Some ([], d))
      else if s = SmallDelta then
        (if length d < unat n then Some None else map_option Some (read_deltas1 (unat n) d))
      else if s = LargeDelta then
        (if length d < unat n * 2 then Some None else map_option Some (read_deltas2 (unat n) d))
      else Some (Some ([], d)))"
| "chunk_AddDeltas (OneBitVectorChunk ss) d = OneBit_AddDeltas ss d"
| "chunk_AddDeltas (TwoBitVectorChunk ss) d = TwoBit_AddDeltas ss d"

subsection \<open>Recording received packets\<close>

definition CreateRunLengthChunk :: "status \<Rightarrow> u16 \<Rightarrow> tcc \<Rightarrow> tcc" where
  "CreateRunLengthChunk s n p = p\<lparr>chunks := chunks p @ [RunLengthChunk s n],
     packetStatusCount := packetStatusCount p + n, deltasAndChunksSize := deltasAndChunksSize p + 2\<rparr>"

definition CreateOneBitVectorChunk :: "status list \<Rightarrow> tcc \<Rightarrow> tcc" where
  "CreateOneBitVectorChunk ss p = p\<lparr>chunks := chunks p @ [OneBitVectorChunk ss],
     packetStatusCount := packetStatusCount p + of_nat (length ss), deltasAndChunksSize := deltasAndChunksSize p + 2\<rparr>"

definition CreateTwoBitVectorChunk :: "status list \<Rightarrow> tcc \<Rightarrow> tcc" where
  "CreateTwoBitVectorChunk ss p = p\<lparr>chunks := chunks p @ [TwoBitVectorChunk ss],
     packetStatusCount := packetStatusCount p + of_nat (length ss), deltasAndChunksSize := deltasAndChunksSize p + 2\<rparr>"

definition set_ctx :: "(tcc_context \<Rightarrow> tcc_context) \<Rightarrow> tcc \<Rightarrow> tcc" where
  "set_ctx f p = p\<lparr>tcc_ctx := f (tcc_ctx p)\<rparr>"

text \<open>The loop that adds \<open>NotReceived\<close> statuses up to the seventh: at most \<open>n\<close> of them.\<close>

definition fill_missing :: "nat \<Rightarrow> status list \<Rightarrow> status list" where
  "fill_missing n ss = ss @ replicate (min n (7 - length ss)) NotReceived"

text \<open>\<open>FillChunk\<close> for the missing packets: close a run of at least seven equal statuses, complete the
  pending vector chunk, put the rest into one run length chunk.\<close>

definition flush_run :: "tcc \<Rightarrow> tcc" where
  "flush_run p =
     (if length (statuses (tcc_ctx p)) \<ge> 7 \<and> allSameStatus (tcc_ctx p)
      then set_ctx (\<lambda>c. c\<lparr>statuses := [], currentStatus := NoStatus\<rparr>)
        (CreateRunLengthChunk (currentStatus (tcc_ctx p)) (of_nat (length (statuses (tcc_ctx p)))) p)
      else p)"

definition fill_missing_statuses :: "u16 \<Rightarrow> tcc \<Rightarrow> tcc" where
  "fill_missing_statuses missing p =
     (let pending = length (statuses (tcc_ctx p));
          p = set_ctx (\<lambda>c. c\<lparr>currentStatus := NotReceived, statuses := fill_missing (unat missing) (statuses c)\<rparr>) p;
          represented = length (statuses (tcc_ctx p)) - pending;
          p = (if length (statuses (tcc_ctx p)) = 7
               then set_ctx (\<lambda>c. c\<lparr>statuses := [], currentStatus := NoStatus\<rparr>)
                 (CreateTwoBitVectorChunk (statuses (tcc_ctx p)) p)
               else p);
          missing = missing - of_nat represented
      in if missing \<noteq> 0
         then set_ctx (\<lambda>c. c\<lparr>statuses := [], currentStatus := NoStatus\<rparr>) (CreateRunLengthChunk NotReceived missing p)
         else p)"

text \<open>\<open>FillChunk\<close> for the received packet.\<close>

definition delta_status :: "u16 \<Rightarrow> status" where
  "delta_status delta = (if sint delta \<ge> 0 \<and> sint delta \<le> 255 then SmallDelta else LargeDelta)"

definition flush_changed :: "status \<Rightarrow> tcc \<Rightarrow> tcc" where
  "flush_changed status p =
     (if length (statuses (tcc_ctx p)) \<ge> 7 \<and> allSameStatus (tcc_ctx p) \<and> status \<noteq> currentStatus (tcc_ctx p)
      then set_ctx (\<lambda>c. c\<lparr>statuses := []\<rparr>)
        (CreateRunLengthChunk (currentStatus (tcc_ctx p)) (of_nat (length (statuses (tcc_ctx p)))) p)
      else p)"

definition push_received :: "status \<Rightarrow> u16 \<Rightarrow> tcc \<Rightarrow> tcc" where
  "push_received status delta p =
     (let p = set_ctx (\<lambda>c. c\<lparr>statuses := statuses c @ [status]\<rparr>) p;
          p = p\<lparr>deltas := deltas p @ [delta],
                deltasAndChunksSize := deltasAndChunksSize p + (if status = SmallDelta then 1 else 2)\<rparr>;
          p = set_ctx (\<lambda>c. c\<lparr>allSameStatus :=
                currentStatus c = NoStatus \<or> allSameStatus c \<and> currentStatus c = status\<rparr>) p;
          p = set_ctx (\<lambda>c. c\<lparr>currentStatus := status\<rparr>) p
      in if length (statuses (tcc_ctx p)) < 7 then p
         else if length (statuses (tcc_ctx p)) = 7 \<and> \<not> allSameStatus (tcc_ctx p)
         then set_ctx (\<lambda>c. c\<lparr>statuses := []\<rparr>)
           (CreateTwoBitVectorChunk (statuses (tcc_ctx p)) (set_ctx (\<lambda>c. c\<lparr>currentStatus := NoStatus\<rparr>) p))
         else p)"

definition FillChunk :: "u16 \<Rightarrow> u16 \<Rightarrow> u16 \<Rightarrow> tcc \<Rightarrow> tcc" where
  "FillChunk previous sequenceNumber delta p =
     (let missingPackets = sequenceNumber - (previous + 1);
          status = delta_status delta
      in push_received status delta (flush_changed status (if missingPackets > 0 then fill_missing_statuses missingPackets (flush_run p) else p)))"

datatype AddPacketResult = SUCCESS | MAX_SIZE_EXCEEDED | FATAL

text \<open>\<open>None\<close> is the failed assertion \<open>!IsFull()\<close>. The number of missing packets is computed in \<open>int\<close>.\<close>

definition AddPacket :: "u16 \<Rightarrow> u64 \<Rightarrow> nat \<Rightarrow> tcc \<Rightarrow> (tcc \<times> AddPacketResult) option" where
  "AddPacket sequenceNumber timestamp maxRtcpPacketLen p =
     (if tcc_IsFull p then None
      else if latestTimestamp p = 0 then
        Some (p\<lparr>baseSequenceNumber := sequenceNumber + 1,
          referenceTime := ucast ((timestamp AND 0x1FFFFFC0) div 64),
          latestSequenceNumber := sequenceNumber,
          latestTimestamp := drop_bit 6 timestamp * 64\<rparr>, SUCCESS)
      else if \<not> IsSeqHigherThan sequenceNumber (latestSequenceNumber p) then Some (p, SUCCESS)
      else if int (unat sequenceNumber) - (int (unat (latestSequenceNumber p)) + 1) > 2 ^ 13 - 1 then Some (p, FATAL)
      else
        let delta64 = sint ((timestamp - latestTimestamp p) * 4) in
        if delta64 > 0x7FFF \<or> delta64 < - 0x7FFF then Some (p, FATAL)
        else
          let delta = word_of_int delta64 in
          if align4 (12 + 8 + deltasAndChunksSize p + 2 + 2) > maxRtcpPacketLen then Some (p, MAX_SIZE_EXCEEDED)
          else Some ((FillChunk (latestSequenceNumber p) sequenceNumber delta p)
                 \<lparr>latestSequenceNumber := sequenceNumber, latestTimestamp := timestamp\<rparr>, SUCCESS))"

definition AddPendingChunks :: "tcc \<Rightarrow> tcc option" where
  "AddPendingChunks p =
     (let c = tcc_ctx p in
      if statuses c = [] then Some p
      else if allSameStatus c then
        Some (set_ctx (\<lambda>c. c\<lparr>statuses := []\<rparr>)
          (CreateRunLengthChunk (currentStatus c) (of_nat (length (statuses c))) p))
      else if length (statuses c) < 7 then
        Some (set_ctx (\<lambda>c. c\<lparr>statuses := []\<rparr>) (CreateTwoBitVectorChunk (statuses c) p))
      else None)"

definition Finish :: "tcc \<Rightarrow> tcc option" where
  "Finish p = AddPendingChunks p"

subsection \<open>Serialization\<close>

primrec chunks_Serialize :: "chunk list \<Rightarrow> bytes option" where
  "chunks_Serialize [] = Some []"
| "chunks_Serialize (c # cs) = do { b \<leftarrow> chunk_Serialize c; bs \<leftarrow> chunks_Serialize cs; Some (b @ bs) }"

definition put_delta :: "u16 \<Rightarrow> bytes" where
  "put_delta delta = (if sint delta \<ge> 0 \<and> sint delta \<le> 255 then [ucast delta] else put2 delta)"

text \<open>\<open>Serialize\<close> first closes the pending chunk: it returns the packet it leaves and the bytes.\<close>

definition tcc_Serialize :: "tcc \<Rightarrow> (tcc \<times> bytes) option" where
  "tcc_Serialize p = do {
     p \<leftarrow> AddPendingChunks p;
     cs \<leftarrow> chunks_Serialize (chunks p);
     let b = FeedbackPacket_Serialize RTPFB (tcc_GetSize p) (tcc_header p) @
           put2 (baseSequenceNumber p) @ put2 (packetStatusCount p) @ put3 (referenceTime p) @
           [feedbackPacketCount p] @ cs @ concat (map put_delta (deltas p));
     Some (p, b @ replicate (pad4 (length b)) 0) }"

subsection \<open>Parsing\<close>

definition parseReferenceTime :: "bytes \<Rightarrow> nat \<Rightarrow> u32 option" where
  "parseReferenceTime d i = do {
     unsignedVal \<leftarrow> Get3Bytes d i;
     let msb = (ucast (drop_bit 16 unsignedVal) :: u8);
     Some (if msb AND 0x80 \<noteq> 0 then NOT (push_bit 24 1 - 1) OR unsignedVal else unsignedVal) }"

function chunks_loop :: "u16 \<Rightarrow> u16 \<Rightarrow> u16 \<Rightarrow> bytes \<Rightarrow> (chunk list \<times> u16 \<times> u16 \<times> bytes) option option" where
  "chunks_loop psc cnt rcv rest =
     (if cnt < psc \<and> rest \<noteq> [] then
        (if length rest < 2 then Some None
         else case Chunk_Parse rest (psc - cnt) of
           None \<Rightarrow> None
         | Some None \<Rightarrow> Some None
         | Some (Some c) \<Rightarrow> do {
             r \<leftarrow> chunks_loop psc (cnt + chunk_GetCount c) (rcv + chunk_GetReceivedStatusCount c) (drop 2 rest);
             Some (map_option (apfst ((#) c)) r) })
      else Some (Some ([], cnt, rcv, rest)))"
  by pat_completeness auto
termination
  by (relation "measure (\<lambda>(_, _, _, rest). length rest)") auto

declare chunks_loop.simps [simp del]

primrec deltas_loop :: "chunk list \<Rightarrow> bytes \<Rightarrow> (u16 list \<times> bytes) option option" where
  "deltas_loop [] rest = Some (Some ([], rest))"
| "deltas_loop (c # cs) rest =
     (if rest = [] then Some (Some ([], rest))
      else do {
        r \<leftarrow> chunk_AddDeltas c rest;
        case r of
          None \<Rightarrow> Some None
        | Some (ds, rest) \<Rightarrow> do {
            r \<leftarrow> deltas_loop cs rest;
            Some (map_option (apfst ((@) ds)) r) } })"

text \<open>The content after the fixed headers: the chunks, the deltas and the bytes they take; the inner
  \<open>None\<close> is \<open>isCorrect\<close> false.\<close>

definition tcc_content :: "u16 \<Rightarrow> bytes \<Rightarrow> (chunk list \<times> u16 list \<times> nat) option option" where
  "tcc_content psc content = do {
     r \<leftarrow> chunks_loop psc 0 0 content;
     case r of
       None \<Rightarrow> Some None
     | Some (cs, cnt, rcv, rest) \<Rightarrow>
         if cnt \<noteq> psc then Some None
         else do {
           r \<leftarrow> deltas_loop cs rest;
           Some (case r of
             None \<Rightarrow> None
           | Some (ds, rest') \<Rightarrow>
               if length ds \<noteq> unat rcv then None
               else Some (cs, ds, 2 * length cs + (length rest - length rest'))) } }"

text \<open>The constructor from received bytes. \<open>d\<close> holds the \<open>availableLen\<close> bytes; the inner \<open>None\<close> is a
  packet with \<open>isCorrect\<close> false. An announced length below the fixed headers, for which \<open>contentLen\<close>
  would wrap around, counts as an access outside the buffer.\<close>

definition tcc_ctor :: "bytes \<Rightarrow> tcc option option" where
  "tcc_ctor d = do {
     ch \<leftarrow> read_CommonHeader d;
     h \<leftarrow> FeedbackPacket_ctor d;
     let len = announced_len ch;
     if len > length d then Some None
     else if len < 12 + 8 then None
     else do {
       base \<leftarrow> Get2Bytes d (12 + 0);
       psc \<leftarrow> Get2Bytes d (12 + 2);
       ref \<leftarrow> parseReferenceTime d (12 + 4);
       fpc \<leftarrow> Get1Byte d (12 + 7);
       r \<leftarrow> tcc_content psc (take (len - 20) (drop 20 d));
       Some (map_option (\<lambda>(cs, ds, n).
         \<lparr>tcc_header = h, baseSequenceNumber = base, referenceTime = ref,
          latestSequenceNumber = 0, latestTimestamp = 0, packetStatusCount = psc, feedbackPacketCount = fpc,
          chunks = cs, deltas = ds,
          tcc_ctx = \<lparr>allSameStatus = True, currentStatus = NoStatus, statuses = []\<rparr>,
          deltasAndChunksSize = n, tcc_size = len\<rparr>) r) } }"

definition FeedbackRtpTransportPacket_Parse :: "bytes \<Rightarrow> tcc option option" where
  "FeedbackRtpTransportPacket_Parse d = (if length d < 12 + 8 then Some None else tcc_ctor d)"

subsection \<open>Packet results\<close>

record PacketResult =
  pr_sequenceNumber :: u16
  pr_delta :: u16
  pr_received :: bool
  pr_receivedAtMs :: int

definition PacketResult_new :: "u16 \<Rightarrow> bool \<Rightarrow> PacketResult" where
  "PacketResult_new sn rcv = \<lparr>pr_sequenceNumber = sn, pr_delta = 0, pr_received = rcv, pr_receivedAtMs = 0\<rparr>"

primrec results_of :: "bool list \<Rightarrow> u16 \<Rightarrow> PacketResult list" where
  "results_of [] cur = []"
| "results_of (b # bs) cur = PacketResult_new (cur + 1) b # results_of bs (cur + 1)"

text \<open>\<open>FillResults\<close> of a chunk: the results it appends and the sequence number it leaves. The loop over a
  run of 65535 packets would never end, its counter being a \<open>uint16_t\<close>: \<open>None\<close>.\<close>

fun chunk_FillResults :: "chunk \<Rightarrow> u16 \<Rightarrow> (PacketResult list \<times> u16) option" where
  "chunk_FillResults (RunLengthChunk s n) cur =
     (if n = 65535 then None else Some (results_of (replicate (unat n) (status_received s)) cur, cur + n))"
| "chunk_FillResults (OneBitVectorChunk ss) cur =
     Some (results_of (map status_received ss) cur, cur + of_nat (length ss))"
| "chunk_FillResults (TwoBitVectorChunk ss) cur =
     Some (results_of (map status_received ss) cur, cur + of_nat (length ss))"

primrec fill_results :: "chunk list \<Rightarrow> u16 \<Rightarrow> PacketResult list option" where
  "fill_results [] cur = Some []"
| "fill_results (c # cs) cur = do {
     (rs, cur) \<leftarrow> chunk_FillResults c cur; rs' \<leftarrow> fill_results cs cur; Some (rs @ rs') }"

text \<open>Division by four in C++ truncates towards zero; \<open>deltas.at\<close> throws when there is no delta left.\<close>

definition div4_trunc :: "int \<Rightarrow> int" where
  "div4_trunc d = (if d < 0 then - ((- d) div 4) else d div 4)"

primrec set_deltas :: "PacketResult list \<Rightarrow> u16 list \<Rightarrow> int \<Rightarrow> PacketResult list option" where
  "set_deltas [] ds now = Some []"
| "set_deltas (r # rs) ds now =
     (if \<not> pr_received r then do { rs \<leftarrow> set_deltas rs ds now; Some (r # rs) }
      else case ds of
        [] \<Rightarrow> None
      | d # ds \<Rightarrow>
          let now = now + div4_trunc (sint d)
          in do { rs \<leftarrow> set_deltas rs ds now; Some (r\<lparr>pr_delta := d, pr_receivedAtMs := now\<rparr> # rs) })"

definition GetPacketResults :: "tcc \<Rightarrow> PacketResult list option" where
  "GetPacketResults p = do {
     rs \<leftarrow> fill_results (chunks p) (baseSequenceNumber p - 1);
     set_deltas rs (deltas p) (sint (referenceTime p * 64)) }"

definition GetPacketFractionLost :: "tcc \<Rightarrow> u8" where
  "GetPacketFractionLost p =
     (let expected = packetStatusCount p;
          lost = fold (\<lambda>c lost. lost + (chunk_GetCount c - chunk_GetReceivedStatusCount c)) (chunks p) 0
      in if expected = 0 then 0
         else if lost = expected then 255
         else of_nat (unat lost * 2 ^ 8 div unat expected))"

text \<open>A sequence of \<open>AddPacket\<close> calls, for examples.\<close>

primrec add_packets :: "nat \<Rightarrow> (u16 \<times> u64) list \<Rightarrow> tcc \<Rightarrow> (tcc \<times> AddPacketResult list) option" where
  "add_packets maxLen [] p = Some (p, [])"
| "add_packets maxLen (x # xs) p = do {
     (p, r) \<leftarrow> AddPacket (fst x) (snd x) maxLen p;
     (p, rs) \<leftarrow> add_packets maxLen xs p;
     Some (p, r # rs) }"

subsection \<open>The statuses a packet stands for\<close>

fun chunk_statuses :: "chunk \<Rightarrow> status list" where
  "chunk_statuses (RunLengthChunk s n) = replicate (unat n) s"
| "chunk_statuses (OneBitVectorChunk ss) = ss"
| "chunk_statuses (TwoBitVectorChunk ss) = ss"

definition closed_statuses :: "tcc \<Rightarrow> status list" where
  "closed_statuses p = concat (map chunk_statuses (chunks p))"

definition tcc_statuses :: "tcc \<Rightarrow> status list" where
  "tcc_statuses p = closed_statuses p @ statuses (tcc_ctx p)"

definition sent_statuses :: "status set" where
  "sent_statuses = {NotReceived, SmallDelta, LargeDelta}"

text \<open>What \<open>FillChunk\<close> keeps of its context: a run of seven or more pending statuses is a run of equal
  received statuses, and \<open>allSameStatus\<close> tells the truth whenever the last status is a received one.\<close>

definition ctx_inv :: "tcc_context \<Rightarrow> bool" where
  "ctx_inv c \<longleftrightarrow>
     (7 \<le> length (statuses c) \<longrightarrow> allSameStatus c \<and> currentStatus c \<noteq> NotReceived) \<and>
     (allSameStatus c \<and> currentStatus c \<noteq> NotReceived \<longrightarrow> set (statuses c) \<subseteq> {currentStatus c}) \<and>
     (currentStatus c = NoStatus \<longrightarrow> statuses c = []) \<and>
     set (statuses c) \<subseteq> sent_statuses"

definition delta_size :: "u16 \<Rightarrow> nat" where
  "delta_size d = (if delta_status d = SmallDelta then 1 else 2)"

definition chunk_ok :: "chunk \<Rightarrow> bool" where
  "chunk_ok c \<longleftrightarrow> set (chunk_statuses c) \<subseteq> sent_statuses \<and>
     (case c of RunLengthChunk s n \<Rightarrow> s \<in> sent_statuses \<and> n \<noteq> 65535 | OneBitVectorChunk ss \<Rightarrow> length ss \<le> 14
      | TwoBitVectorChunk ss \<Rightarrow> length ss \<le> 7)"

text \<open>The size and the counter of the packet agree with its chunks and deltas.\<close>

definition accounted :: "tcc \<Rightarrow> bool" where
  "accounted p \<longleftrightarrow> deltasAndChunksSize p = 2 * length (chunks p) + sum_list (map delta_size (deltas p)) \<and>
     packetStatusCount p = of_nat (length (closed_statuses p)) \<and> list_all chunk_ok (chunks p)"

lemmas tcc_ops_defs = set_ctx_def CreateRunLengthChunk_def CreateTwoBitVectorChunk_def

lemma same_statuses: "set ss \<subseteq> {s} \<Longrightarrow> replicate (length ss) s = ss"
  by (induction ss) auto

lemma same_status_in: "set ss \<subseteq> {s} \<Longrightarrow> set ss \<subseteq> S \<Longrightarrow> 0 < length ss \<Longrightarrow> s \<in> S"
  by (cases ss) auto

lemma closed_statuses_Create [simp]:
  "closed_statuses (CreateRunLengthChunk s n p) = closed_statuses p @ replicate (unat n) s"
  "closed_statuses (CreateTwoBitVectorChunk ss p) = closed_statuses p @ ss"
  "closed_statuses (set_ctx f p) = closed_statuses p"
  by (simp_all add: closed_statuses_def tcc_ops_defs)

lemma ctx_Create [simp]:
  "tcc_ctx (CreateRunLengthChunk s n p) = tcc_ctx p" "tcc_ctx (CreateTwoBitVectorChunk ss p) = tcc_ctx p"
  "tcc_ctx (set_ctx f p) = f (tcc_ctx p)"
  by (simp_all add: tcc_ops_defs)

lemma deltas_Create [simp]:
  "deltas (CreateRunLengthChunk s n p) = deltas p" "deltas (CreateTwoBitVectorChunk ss p) = deltas p"
  "deltas (set_ctx f p) = deltas p"
  by (simp_all add: tcc_ops_defs)

lemma accounted_Create:
  "accounted p \<Longrightarrow> s \<in> sent_statuses \<Longrightarrow> n \<noteq> 65535 \<Longrightarrow> accounted (CreateRunLengthChunk s n p)"
  "accounted p \<Longrightarrow> set ss \<subseteq> sent_statuses \<Longrightarrow> length ss \<le> 7 \<Longrightarrow> accounted (CreateTwoBitVectorChunk ss p)"
  by (auto simp: accounted_def tcc_ops_defs closed_statuses_def chunk_ok_def)

lemma accounted_set_ctx [simp]: "accounted (set_ctx f p) = accounted p"
  by (simp add: accounted_def set_ctx_def closed_statuses_def)

lemma flush_run_spec:
  assumes "ctx_inv (tcc_ctx p)" and len: "length (statuses (tcc_ctx p)) < 65535"
  shows "tcc_statuses (flush_run p) = tcc_statuses p \<and> ctx_inv (tcc_ctx (flush_run p)) \<and>
    length (statuses (tcc_ctx (flush_run p))) < 7 \<and> deltas (flush_run p) = deltas p \<and>
    (accounted p \<longrightarrow> accounted (flush_run p))"
proof (cases "7 \<le> length (statuses (tcc_ctx p)) \<and> allSameStatus (tcc_ctx p)")
  case True
  with assms have same: "set (statuses (tcc_ctx p)) \<subseteq> {currentStatus (tcc_ctx p)}"
    and c: "currentStatus (tcc_ctx p) \<in> sent_statuses"
    by (auto simp: ctx_inv_def intro: same_status_in)
  from len have "unat (of_nat (length (statuses (tcc_ctx p))) :: u16) = length (statuses (tcc_ctx p))"
    by (intro unat_of_nat_less) simp
  moreover from this len have "of_nat (length (statuses (tcc_ctx p))) \<noteq> (65535 :: u16)" by auto
  ultimately show ?thesis using True same_statuses [OF same] c
    by (simp add: flush_run_def tcc_statuses_def ctx_inv_def accounted_Create)
next
  case False
  with assms(1) show ?thesis by (auto simp: flush_run_def ctx_inv_def)
qed

lemma fill_missing_statuses_spec:
  assumes "ctx_inv (tcc_ctx p)" and len: "length (statuses (tcc_ctx p)) < 7" and "missing \<noteq> 0"
    and max: "missing \<noteq> 65535"
  shows "tcc_statuses (fill_missing_statuses missing p) = tcc_statuses p @ replicate (unat missing) NotReceived \<and>
    ctx_inv (tcc_ctx (fill_missing_statuses missing p)) \<and>
    length (statuses (tcc_ctx (fill_missing_statuses missing p))) < 7 \<and>
    deltas (fill_missing_statuses missing p) = deltas p \<and>
    (accounted p \<longrightarrow> accounted (fill_missing_statuses missing p))"
proof -
  let ?l = "length (statuses (tcc_ctx p))" and ?n = "unat missing"
  have sent: "set (statuses (tcc_ctx p)) \<subseteq> sent_statuses" "NotReceived \<in> sent_statuses"
    using assms(1) by (auto simp: ctx_inv_def sent_statuses_def)
  have u: "unat (missing - of_nat k) = ?n - k" if "k \<le> ?n" for k
    using that unat_less [of missing] by (subst unat_sub) (auto simp: word_le_nat_alt unat_of_nat_less)
  show ?thesis
  proof (cases "?n < 7 - ?l")
    case True
    then have "missing - of_nat (min ?n (7 - ?l)) = 0" using u [of ?n] by (metis diff_self_eq_0 min.strict_order_iff order_refl unat_eq_zero)
    with True sent len show ?thesis
      by (auto simp: fill_missing_statuses_def fill_missing_def Let_def tcc_statuses_def ctx_inv_def subset_iff)
  next
    case False
    then have "min ?n (7 - ?l) = 7 - ?l" "unat (missing - of_nat (7 - ?l)) = ?n - (7 - ?l)" using u by auto
    moreover have "missing - of_nat (7 - ?l) = 0 \<longleftrightarrow> ?n - (7 - ?l) = 0" using calculation(2) by (metis unat_eq_zero)
    moreover have "missing - of_nat (7 - ?l) \<noteq> 65535"
    proof
      assume "missing - of_nat (7 - ?l) = 65535"
      with calculation(2) have "65535 \<le> ?n" by simp
      with unat_less [of missing] have "?n = unat (65535 :: u16)" by simp
      with max show False by (simp only: word_unat_eq_iff [symmetric])
    qed
    moreover have "replicate (7 - ?l) NotReceived @ replicate (?n - (7 - ?l)) NotReceived = replicate ?n NotReceived"
      using False by (simp flip: replicate_add)
    ultimately show ?thesis using False sent len
      by (auto simp: fill_missing_statuses_def fill_missing_def Let_def tcc_statuses_def ctx_inv_def
          subset_iff accounted_Create)
  qed
qed

lemma delta_status_received: "delta_status d = SmallDelta \<or> delta_status d = LargeDelta"
  by (simp add: delta_status_def)

lemma flush_changed_spec:
  assumes inv: "ctx_inv (tcc_ctx p)" and len: "length (statuses (tcc_ctx p)) < 65535"
    and s: "s = SmallDelta \<or> s = LargeDelta"
  shows "tcc_statuses (flush_changed s p) = tcc_statuses p \<and> ctx_inv (tcc_ctx (flush_changed s p)) \<and>
    (7 \<le> length (statuses (tcc_ctx (flush_changed s p))) \<longrightarrow> currentStatus (tcc_ctx (flush_changed s p)) = s) \<and>
    length (statuses (tcc_ctx (flush_changed s p))) \<le> length (statuses (tcc_ctx p)) \<and>
    deltas (flush_changed s p) = deltas p \<and> (accounted p \<longrightarrow> accounted (flush_changed s p))"
proof (cases "7 \<le> length (statuses (tcc_ctx p)) \<and> allSameStatus (tcc_ctx p) \<and> s \<noteq> currentStatus (tcc_ctx p)")
  case True
  with inv have same: "set (statuses (tcc_ctx p)) \<subseteq> {currentStatus (tcc_ctx p)}"
    and c: "currentStatus (tcc_ctx p) \<in> sent_statuses"
    by (auto simp: ctx_inv_def intro: same_status_in)
  from len have "unat (of_nat (length (statuses (tcc_ctx p))) :: u16) = length (statuses (tcc_ctx p))"
    by (intro unat_of_nat_less) simp
  moreover from this len have "of_nat (length (statuses (tcc_ctx p))) \<noteq> (65535 :: u16)" by auto
  ultimately show ?thesis using True same_statuses [OF same] c
    by (simp add: flush_changed_def tcc_statuses_def ctx_inv_def accounted_Create)
next
  case False
  with inv show ?thesis by (auto simp: flush_changed_def ctx_inv_def)
qed

lemma push_received_spec:
  assumes inv: "ctx_inv (tcc_ctx p)" and cur: "7 \<le> length (statuses (tcc_ctx p)) \<longrightarrow> currentStatus (tcc_ctx p) = s"
    and s: "s = delta_status d"
  shows "tcc_statuses (push_received s d p) = tcc_statuses p @ [s] \<and> ctx_inv (tcc_ctx (push_received s d p)) \<and>
    currentStatus (tcc_ctx (push_received s d p)) \<noteq> NotReceived \<and>
    length (statuses (tcc_ctx (push_received s d p))) \<le> Suc (length (statuses (tcc_ctx p))) \<and>
    deltas (push_received s d p) = deltas p @ [d] \<and> (accounted p \<longrightarrow> accounted (push_received s d p))"
proof -
  let ?c = "tcc_ctx p"
  let ?same = "currentStatus ?c = NoStatus \<or> allSameStatus ?c \<and> currentStatus ?c = s"
  define q where "q = p\<lparr>tcc_ctx := ?c\<lparr>statuses := statuses ?c @ [s], allSameStatus := ?same, currentStatus := s\<rparr>,
    deltas := deltas p @ [d], deltasAndChunksSize := deltasAndChunksSize p + (if s = SmallDelta then 1 else 2)\<rparr>"
  have push: "push_received s d p = (if length (statuses ?c) = 6 \<and> \<not> ?same
      then set_ctx (\<lambda>c. c\<lparr>statuses := []\<rparr>)
        (CreateTwoBitVectorChunk (statuses ?c @ [s]) (set_ctx (\<lambda>c. c\<lparr>currentStatus := NoStatus\<rparr>) q)) else q)"
    by (auto simp: push_received_def Let_def set_ctx_def q_def)
  have sr: "s = SmallDelta \<or> s = LargeDelta" using delta_status_received s by simp
  have sent: "set (statuses ?c @ [s]) \<subseteq> sent_statuses" using inv sr by (auto simp: ctx_inv_def sent_statuses_def)
  have acc: "accounted q" if "accounted p"
    using that s by (auto simp: accounted_def q_def delta_size_def closed_statuses_def)
  have same: "set (statuses ?c) \<subseteq> {s}" if ?same
    using that inv sr by (auto simp: ctx_inv_def)
  have q: "tcc_statuses q = tcc_statuses p @ [s]" "closed_statuses q = closed_statuses p" "deltas q = deltas p @ [d]"
    "tcc_ctx q = ?c\<lparr>statuses := statuses ?c @ [s], allSameStatus := ?same, currentStatus := s\<rparr>"
    by (simp_all add: q_def tcc_statuses_def closed_statuses_def)
  show ?thesis
  proof (cases "length (statuses ?c) = 6 \<and> \<not> ?same")
    case True
    then show ?thesis using sent acc q
      by (simp add: push tcc_statuses_def ctx_inv_def accounted_Create)
  next
    case False
    then have "length (statuses ?c) < 6 \<or> ?same"
      using inv cur by (cases "7 \<le> length (statuses ?c)") (auto simp: ctx_inv_def)
    then have "ctx_inv (tcc_ctx q)" using same sent sr by (auto simp: q(4) ctx_inv_def)
    moreover have "push_received s d p = q" unfolding push by (rule if_not_P [OF False])
    ultimately show ?thesis using acc q sr by auto
  qed
qed

text \<open>The invariant of a packet under construction.\<close>

definition tcc_inv :: "tcc \<Rightarrow> bool" where
  "tcc_inv p \<longleftrightarrow> ctx_inv (tcc_ctx p) \<and> currentStatus (tcc_ctx p) \<noteq> NotReceived \<and> accounted p \<and>
     map delta_status (deltas p) = filter status_received (tcc_statuses p) \<and> tcc_size p = 0"

lemma tcc_size_ops [simp]:
  "tcc_size (set_ctx f p) = tcc_size p" "tcc_size (CreateRunLengthChunk s n p) = tcc_size p"
  "tcc_size (CreateTwoBitVectorChunk ss p) = tcc_size p"
  by (simp_all add: tcc_ops_defs)

lemma tcc_size_FillChunk: "tcc_size (FillChunk prev sn d p) = tcc_size p"
  by (simp add: FillChunk_def push_received_def flush_changed_def fill_missing_statuses_def flush_run_def Let_def)

lemma FillChunk_spec:
  assumes inv: "tcc_inv p" and len: "length (statuses (tcc_ctx p)) < 65535" and seq: "sn \<noteq> prev"
  shows "tcc_statuses (FillChunk prev sn d p) =
      tcc_statuses p @ replicate (unat (sn - (prev + 1))) NotReceived @ [delta_status d] \<and>
    deltas (FillChunk prev sn d p) = deltas p @ [d] \<and> tcc_inv (FillChunk prev sn d p) \<and>
    length (statuses (tcc_ctx (FillChunk prev sn d p))) \<le> Suc (max 6 (length (statuses (tcc_ctx p))))"
proof -
  let ?m = "sn - (prev + 1)"
  let ?p1 = "if ?m > 0 then fill_missing_statuses ?m (flush_run p) else p"
  let ?p2 = "flush_changed (delta_status d) ?p1"
  have ctx: "ctx_inv (tcc_ctx p)" and acc: "accounted p" using inv by (auto simp: tcc_inv_def)
  have m: "?m \<noteq> 65535"
  proof
    assume "?m = 65535"
    then have "sn = 65535 + (prev + 1)" by (simp only: diff_eq_eq)
    with seq show False by simp
  qed
  have p1: "tcc_statuses ?p1 = tcc_statuses p @ replicate (unat ?m) NotReceived \<and> ctx_inv (tcc_ctx ?p1) \<and>
      length (statuses (tcc_ctx ?p1)) \<le> max 6 (length (statuses (tcc_ctx p))) \<and> deltas ?p1 = deltas p \<and> accounted ?p1"
  proof (cases "?m = 0")
    case False
    then have "?m > 0" by (simp only: word_gt_0)
    then show ?thesis
      using flush_run_spec [OF ctx len] fill_missing_statuses_spec [of "flush_run p", OF _ _ False] acc m
      by (simp del: word_gt_0 add: le_max_iff_disj)
  qed (use ctx len acc in \<open>simp only: word_gt_0 simp_thms if_False unsigned_0 replicate_0 append_Nil2\<close>)
  have l1: "length (statuses (tcc_ctx ?p1)) < 65535" using p1 len by linarith
  have p2: "tcc_statuses ?p2 = tcc_statuses ?p1" "ctx_inv (tcc_ctx ?p2)" "deltas ?p2 = deltas ?p1" "accounted ?p2"
      "7 \<le> length (statuses (tcc_ctx ?p2)) \<longrightarrow> currentStatus (tcc_ctx ?p2) = delta_status d"
      "length (statuses (tcc_ctx ?p2)) \<le> length (statuses (tcc_ctx ?p1))"
    using flush_changed_spec [OF _ l1, of "delta_status d"] p1 delta_status_received [of d] by blast+
  have f: "FillChunk prev sn d p = push_received (delta_status d) d ?p2"
    by (simp only: FillChunk_def Let_def)
  have push: "tcc_statuses (FillChunk prev sn d p) = tcc_statuses ?p2 @ [delta_status d]"
      "ctx_inv (tcc_ctx (FillChunk prev sn d p))" "currentStatus (tcc_ctx (FillChunk prev sn d p)) \<noteq> NotReceived"
      "deltas (FillChunk prev sn d p) = deltas ?p2 @ [d]" "accounted (FillChunk prev sn d p)"
      "length (statuses (tcc_ctx (FillChunk prev sn d p))) \<le> Suc (length (statuses (tcc_ctx ?p2)))"
    using push_received_spec [OF p2(2,5) refl] p2(4) unfolding f by blast+
  have "length (statuses (tcc_ctx (FillChunk prev sn d p))) \<le> Suc (max 6 (length (statuses (tcc_ctx p))))"
    using push(6) p2(6) p1 by linarith
  with push(1-5) p1 p2(1,3) inv delta_status_received [of d] tcc_size_FillChunk [of prev sn d p] show ?thesis
    by (auto simp: tcc_inv_def status_received_def)
qed

subsection \<open>The packet records what was received\<close>

text \<open>Every pending status in a run of seven or more is a received one, so it has a delta: the run is no
  longer than the packet.\<close>

lemma length_le_delta_sizes: "length ds \<le> sum_list (map delta_size ds)"
  by (induction ds) (auto simp: delta_size_def)

lemma pending_bound:
  assumes "tcc_inv p"
  shows "length (statuses (tcc_ctx p)) \<le> max 6 (deltasAndChunksSize p)"
proof (cases "7 \<le> length (statuses (tcc_ctx p))")
  case True
  with assms have "set (statuses (tcc_ctx p)) \<subseteq> {currentStatus (tcc_ctx p)}" "currentStatus (tcc_ctx p) \<noteq> NotReceived"
    "set (statuses (tcc_ctx p)) \<subseteq> sent_statuses"
    by (auto simp: tcc_inv_def ctx_inv_def)
  then have "filter status_received (statuses (tcc_ctx p)) = statuses (tcc_ctx p)"
    by (intro filter_True) (auto simp: status_received_def sent_statuses_def)
  then have "length (statuses (tcc_ctx p)) \<le> length (map delta_status (deltas p))"
    using assms by (simp only: tcc_inv_def) (simp add: tcc_statuses_def)
  also have "\<dots> \<le> sum_list (map delta_size (deltas p))" using length_le_delta_sizes by simp
  finally show ?thesis using assms by (simp add: tcc_inv_def accounted_def)
qed simp

lemma tcc_inv_new: "tcc_inv (tcc_new sender media)"
  by (simp add: tcc_inv_def tcc_new_def ctx_inv_def accounted_def closed_statuses_def tcc_statuses_def)

lemma base_ops [simp]:
  "baseSequenceNumber (set_ctx f p) = baseSequenceNumber p"
  "baseSequenceNumber (CreateRunLengthChunk s n p) = baseSequenceNumber p"
  "baseSequenceNumber (CreateTwoBitVectorChunk ss p) = baseSequenceNumber p"
  by (simp_all add: tcc_ops_defs)

lemma base_FillChunk: "baseSequenceNumber (FillChunk prev sn d p) = baseSequenceNumber p"
  by (simp add: FillChunk_def push_received_def flush_changed_def fill_missing_statuses_def flush_run_def Let_def)

lemma tcc_inv_fields [simp]:
  "tcc_inv (p\<lparr>latestSequenceNumber := sn, latestTimestamp := ts\<rparr>) = tcc_inv p"
  "tcc_inv (p\<lparr>baseSequenceNumber := b, referenceTime := r\<rparr>) = tcc_inv p"
  by (simp_all add: tcc_inv_def accounted_def closed_statuses_def tcc_statuses_def)

lemma tcc_statuses_fields [simp]:
  "tcc_statuses (p\<lparr>latestSequenceNumber := sn, latestTimestamp := ts\<rparr>) = tcc_statuses p"
  "tcc_statuses (p\<lparr>baseSequenceNumber := b, referenceTime := r\<rparr>) = tcc_statuses p"
  by (simp_all add: closed_statuses_def tcc_statuses_def)

text \<open>The outcomes of \<open>AddPacket\<close>: the first packet fixes the base, an old one is ignored, a refused one
  leaves the packet as it is, and a recorded one extends the statuses and the deltas.\<close>

lemma AddPacket_cases:
  assumes inv: "tcc_inv p" and max: "maxLen < 2 ^ 16" and add: "AddPacket sn ts maxLen p = Some (p', r)"
  obtains
    (first) "latestTimestamp p = 0" "r = SUCCESS" "tcc_inv p'" "baseSequenceNumber p' = sn + 1"
      "latestSequenceNumber p' = sn" "latestTimestamp p' = drop_bit 6 ts * 64"
      "tcc_statuses p' = tcc_statuses p" "deltas p' = deltas p" "tcc_ctx p' = tcc_ctx p"
  | (same) "latestTimestamp p \<noteq> 0" "p' = p"
      "r = SUCCESS \<Longrightarrow> \<not> IsSeqHigherThan sn (latestSequenceNumber p)"
  | (recorded) d where "latestTimestamp p \<noteq> 0" "r = SUCCESS" "IsSeqHigherThan sn (latestSequenceNumber p)"
      "d = (ts - latestTimestamp p) * 4" "sint d \<in> {- 0x7FFF..0x7FFF}"
      "tcc_inv p'" "baseSequenceNumber p' = baseSequenceNumber p" "latestSequenceNumber p' = sn" "latestTimestamp p' = ts"
      "tcc_statuses p' = tcc_statuses p @ replicate (unat (sn - (latestSequenceNumber p + 1))) NotReceived
         @ [delta_status (word_of_int (sint d))]"
      "deltas p' = deltas p @ [word_of_int (sint d)]" "length (statuses (tcc_ctx p')) < 65535"
proof -
  let ?d = "(ts - latestTimestamp p) * 4"
  consider "latestTimestamp p = 0" | "latestTimestamp p \<noteq> 0" "\<not> IsSeqHigherThan sn (latestSequenceNumber p)"
    | "latestTimestamp p \<noteq> 0" "IsSeqHigherThan sn (latestSequenceNumber p)" "r \<noteq> SUCCESS"
    | "latestTimestamp p \<noteq> 0" "IsSeqHigherThan sn (latestSequenceNumber p)" "r = SUCCESS" by blast
  then show thesis
  proof cases
    case 1
    with add have "p' = p\<lparr>baseSequenceNumber := sn + 1, referenceTime := ucast ((ts AND 0x1FFFFFC0) div 64),
        latestSequenceNumber := sn, latestTimestamp := drop_bit 6 ts * 64\<rparr>" "r = SUCCESS"
      by (auto simp: AddPacket_def split: if_splits)
    with 1 inv show thesis by (intro first) simp_all
  next
    case 4
    with add have p': "p' = (FillChunk (latestSequenceNumber p) sn (word_of_int (sint ?d)) p)
          \<lparr>latestSequenceNumber := sn, latestTimestamp := ts\<rparr>"
      and d: "sint ?d \<in> {- 0x7FFF..0x7FFF}" and s: "align4 (12 + 8 + deltasAndChunksSize p + 2 + 2) \<le> maxLen"
      by (auto simp: AddPacket_def Let_def split: if_splits)
    have "deltasAndChunksSize p \<le> maxLen"
      using s le_align4 [of "12 + 8 + deltasAndChunksSize p + 2 + 2"] by linarith
    then have l: "Suc (max 6 (length (statuses (tcc_ctx p)))) < 65535" using s le_align4 [of "12 + 8 + deltasAndChunksSize p + 2 + 2"] max pending_bound [OF inv] by simp
    have "sn \<noteq> latestSequenceNumber p" using 4 seq.gt_irrefl by auto
    moreover from l have "length (statuses (tcc_ctx p)) < 65535" by simp
    ultimately have f: "tcc_statuses (FillChunk (latestSequenceNumber p) sn (word_of_int (sint ?d)) p) =
          tcc_statuses p @ replicate (unat (sn - (latestSequenceNumber p + 1))) NotReceived
            @ [delta_status (word_of_int (sint ?d))]"
        "deltas (FillChunk (latestSequenceNumber p) sn (word_of_int (sint ?d)) p) = deltas p @ [word_of_int (sint ?d)]"
        "tcc_inv (FillChunk (latestSequenceNumber p) sn (word_of_int (sint ?d)) p)"
        "length (statuses (tcc_ctx (FillChunk (latestSequenceNumber p) sn (word_of_int (sint ?d)) p))) < 65535"
      using FillChunk_spec [OF inv, of sn "latestSequenceNumber p" "word_of_int (sint ?d)"] l
      by (blast, blast, blast, meson le_less_trans)
    show thesis using f 4 d by (intro recorded [of ?d]) (simp_all add: p' base_FillChunk)
  qed (use add inv in \<open>auto simp: AddPacket_def Let_def split: if_splits intro: same\<close>)
qed

text \<open>Runs of the sender of feedback: a fresh packet and any sequence of \<open>AddPacket\<close> calls with a
  millisecond clock that has passed 64. The log holds what was recorded, in order: sequence numbers
  with their deltas.\<close>

inductive tcc_run :: "nat \<Rightarrow> (u16 \<times> u16) list \<Rightarrow> tcc \<Rightarrow> bool" for maxLen where
  new: "tcc_run maxLen [] (tcc_new sender media)"
| add: "tcc_run maxLen (if length (deltas p) < length (deltas p') then log @ [(sn, last (deltas p'))] else log) p'"
  if "tcc_run maxLen log p" "64 \<le> ts" "AddPacket sn ts maxLen p = Some (p', r)"

primrec received_seqs :: "u16 \<Rightarrow> status list \<Rightarrow> u16 list" where
  "received_seqs cur [] = []"
| "received_seqs cur (s # ss) = (if status_received s then (cur + 1) # received_seqs (cur + 1) ss
     else received_seqs (cur + 1) ss)"

lemma received_seqs_append:
  "received_seqs cur (xs @ ys) = received_seqs cur xs @ received_seqs (cur + of_nat (length xs)) ys"
  by (induction xs arbitrary: cur) (simp_all add: add.assoc)

lemma received_seqs_missing:
  "received_seqs cur (replicate n NotReceived) = []"
  by (induction n arbitrary: cur) (simp_all add: status_received_def)

text \<open>What a run establishes: the invariant, the place of the latest sequence number, and the log.\<close>

definition run_ok :: "(u16 \<times> u16) list \<Rightarrow> tcc \<Rightarrow> bool" where
  "run_ok log p \<longleftrightarrow> tcc_inv p \<and> length (statuses (tcc_ctx p)) < 65535 \<and> (latestTimestamp p = 0 \<longrightarrow> tcc_statuses p = []) \<and>
     (latestTimestamp p \<noteq> 0 \<longrightarrow> latestSequenceNumber p = baseSequenceNumber p - 1 + of_nat (length (tcc_statuses p))) \<and>
     received_seqs (baseSequenceNumber p - 1) (tcc_statuses p) = map fst log \<and> deltas p = map snd log"

lemma rounded_timestamp_pos: "64 \<le> ts \<Longrightarrow> drop_bit 6 ts * 64 \<noteq> 0" for ts :: u64
proof -
  assume "64 \<le> ts"
  then have "64 \<le> unat ts" by (simp add: word_le_nat_alt)
  then have "0 < unat ts div 2 ^ 6 * 2 ^ 6" by simp
  also have "unat ts div 2 ^ 6 * 2 ^ 6 = unat (drop_bit 6 ts * 64)"
  proof -
    have "unat ts div 2 ^ 6 * 2 ^ 6 \<le> unat ts" by (rule div_times_less_eq_dividend)
    moreover have "unat (drop_bit 6 ts) = unat ts div 2 ^ 6"
      using unat_drop_bit_eq [of 6 ts] by (simp only: drop_bit_eq_div [of 6 "unat ts"])
    ultimately show ?thesis using unat_less [of ts] by (simp only: unat_word_ariths) simp
  qed
  finally show ?thesis by auto
qed

lemma tcc_run_ok:
  assumes "tcc_run maxLen log p" and max: "maxLen < 2 ^ 16"
  shows "run_ok log p"
  using assms(1)
proof induction
  case (new sender media)
  then show ?case using tcc_inv_new [of sender media]
    by (simp add: run_ok_def) (simp add: tcc_new_def tcc_statuses_def closed_statuses_def)
next
  case (add log p ts sn p' r)
  then have ok: "run_ok log p" and inv: "tcc_inv p" by (auto simp: run_ok_def)
  from inv max \<open>AddPacket sn ts maxLen p = Some (p', r)\<close> show ?case
  proof (cases rule: AddPacket_cases)
    case first
    have "deltas p = []" using ok first inv by (auto simp: run_ok_def tcc_inv_def)
    then show ?thesis using first ok rounded_timestamp_pos [OF \<open>64 \<le> ts\<close>] by (simp add: run_ok_def)
  next
    case same
    then show ?thesis using ok by simp
  next
    case (recorded d)
    let ?m = "sn - (latestSequenceNumber p + 1)"
    have l: "latestSequenceNumber p = baseSequenceNumber p - 1 + of_nat (length (tcc_statuses p))"
      using ok recorded(1) by (simp add: run_ok_def)
    have "received_seqs (baseSequenceNumber p - 1) (tcc_statuses p') = map fst log @ [sn]"
      using ok delta_status_received [of "word_of_int (sint d)"] l
      by (auto simp: recorded received_seqs_append received_seqs_missing run_ok_def status_received_def algebra_simps)
    moreover have "sn = baseSequenceNumber p - 1 + of_nat (length (tcc_statuses p'))"
      by (simp add: recorded l algebra_simps)
    moreover have "ts \<noteq> 0" using \<open>64 \<le> ts\<close> by auto
    ultimately have "run_ok (log @ [(sn, word_of_int (sint d))]) p'"
      using recorded(6,11,12) ok unfolding run_ok_def recorded(7,8,9) by simp
    then show ?thesis by (simp add: recorded(11))
  qed
qed

subsection \<open>Packet results\<close>

lemma Finish_spec:
  assumes inv: "tcc_inv p" and len: "length (statuses (tcc_ctx p)) < 65535"
  shows "\<exists>q. Finish p = Some q \<and> closed_statuses q = tcc_statuses p \<and> statuses (tcc_ctx q) = [] \<and>
    deltas q = deltas p \<and> baseSequenceNumber q = baseSequenceNumber p \<and> referenceTime q = referenceTime p \<and>
    accounted q \<and> tcc_size q = 0 \<and> tcc_header q = tcc_header p \<and> feedbackPacketCount q = feedbackPacketCount p"
proof -
  let ?c = "tcc_ctx p"
  have ctx: "ctx_inv ?c" and acc: "accounted p" using inv by (auto simp: tcc_inv_def)
  consider "statuses ?c = []" | "statuses ?c \<noteq> []" "allSameStatus ?c" | "statuses ?c \<noteq> []" "\<not> allSameStatus ?c" by blast
  then show ?thesis
  proof cases
    case 1
    then show ?thesis using inv acc by (simp add: Finish_def AddPendingChunks_def tcc_statuses_def tcc_inv_def)
  next
    case 2
    then have same: "set (statuses ?c) \<subseteq> {currentStatus ?c}" using inv by (auto simp: tcc_inv_def ctx_inv_def)
    with 2 ctx have "currentStatus ?c \<in> sent_statuses"
      by (auto simp: ctx_inv_def intro: same_status_in)
    moreover have "unat (of_nat (length (statuses ?c)) :: u16) = length (statuses ?c)"
      using len by (intro unat_of_nat_less) simp
    moreover from this len have "of_nat (length (statuses ?c)) \<noteq> (65535 :: u16)" by auto
    moreover have "tcc_size p = 0" using inv by (simp add: tcc_inv_def)
    ultimately show ?thesis using 2 same_statuses [OF same] acc
      by (simp add: Finish_def AddPendingChunks_def tcc_statuses_def accounted_Create Let_def)
        (simp add: tcc_ops_defs)
  next
    case 3
    then have "length (statuses ?c) < 7" "set (statuses ?c) \<subseteq> sent_statuses" using ctx by (auto simp: ctx_inv_def)
    moreover have "tcc_size p = 0" using inv by (simp add: tcc_inv_def)
    ultimately show ?thesis using 3 acc
      by (simp add: Finish_def AddPendingChunks_def tcc_statuses_def accounted_Create Let_def)
        (simp add: tcc_ops_defs)
  qed
qed

lemma results_of_append:
  "results_of (xs @ ys) cur = results_of xs cur @ results_of ys (cur + of_nat (length xs))"
  by (induction xs arbitrary: cur) (simp_all add: add.assoc)

lemma chunk_FillResults_eq:
  "(\<forall>s n. c = RunLengthChunk s n \<longrightarrow> n \<noteq> 65535) \<Longrightarrow>
     chunk_FillResults c cur = Some (results_of (map status_received (chunk_statuses c)) cur,
       cur + of_nat (length (chunk_statuses c)))"
  by (cases c) (simp_all add: map_replicate_const)

lemma fill_results_eq:
  "list_all chunk_ok cs \<Longrightarrow>
     fill_results cs cur = Some (results_of (map status_received (concat (map chunk_statuses cs))) cur)"
proof (induction cs arbitrary: cur)
  case (Cons c cs)
  then have "\<forall>s n. c = RunLengthChunk s n \<longrightarrow> n \<noteq> 65535" by (auto simp: chunk_ok_def)
  with Cons show ?case
    by (simp add: chunk_FillResults_eq results_of_append)
qed simp

lemma set_deltas_ok:
  "length (filter pr_received rs) = length ds \<Longrightarrow>
   \<exists>rs'. set_deltas rs ds now = Some rs' \<and> map pr_sequenceNumber rs' = map pr_sequenceNumber rs \<and>
     map pr_received rs' = map pr_received rs \<and> map pr_delta (filter pr_received rs') = ds \<and>
     map pr_sequenceNumber (filter pr_received rs') = map pr_sequenceNumber (filter pr_received rs)"
proof (induction rs arbitrary: ds now)
  case (Cons r rs)
  show ?case
  proof (cases "pr_received r")
    case True
    with Cons.prems obtain d ds' where ds: "ds = d # ds'" "length (filter pr_received rs) = length ds'"
      by (cases ds) auto
    from Cons.IH [OF ds(2), of "now + div4_trunc (sint d)"] True ds(1) show ?thesis
      by (auto simp: Let_def)
  next
    case False
    with Cons.prems have "length (filter pr_received rs) = length ds" by simp
    from Cons.IH [OF this, of now] False show ?thesis by auto
  qed
qed simp

lemma received_results_of:
  "map pr_sequenceNumber (filter pr_received (results_of (map status_received ss) cur)) = received_seqs cur ss"
  by (induction ss arbitrary: cur) (simp_all add: PacketResult_new_def)

lemma map_results_of:
  "map pr_received (results_of bs cur) = bs"
  "map pr_sequenceNumber (results_of bs cur) = map (\<lambda>i. cur + 1 + of_nat i) [0..<length bs]"
  by (induction bs arbitrary: cur)
    (simp_all add: PacketResult_new_def upt_conv_Cons add.assoc del: upt_Suc flip: map_Suc_upt)

lemma length_received_seqs: "length (received_seqs cur ss) = length (filter status_received ss)"
  by (induction ss arbitrary: cur) simp_all

lemma GetPacketResults_spec:
  assumes inv: "tcc_inv p" and len: "length (statuses (tcc_ctx p)) < 65535"
  shows "\<exists>q rs. Finish p = Some q \<and> GetPacketResults q = Some rs \<and>
    map pr_sequenceNumber rs = map (\<lambda>i. baseSequenceNumber p + of_nat i) [0..<length (tcc_statuses p)] \<and>
    map pr_received rs = map status_received (tcc_statuses p) \<and>
    map pr_sequenceNumber (filter pr_received rs) = received_seqs (baseSequenceNumber p - 1) (tcc_statuses p) \<and>
    map pr_delta (filter pr_received rs) = deltas p"
proof -
  from Finish_spec [OF assms] obtain q where q: "Finish p = Some q" "closed_statuses q = tcc_statuses p"
    "deltas q = deltas p" "baseSequenceNumber q = baseSequenceNumber p" "accounted q" by blast
  let ?rs = "results_of (map status_received (tcc_statuses p)) (baseSequenceNumber p - 1)"
  have fill: "fill_results (chunks q) (baseSequenceNumber q - 1) = Some ?rs"
    using fill_results_eq [of "chunks q"] q by (simp add: accounted_def closed_statuses_def)
  have "length (filter pr_received ?rs) = length (received_seqs (baseSequenceNumber p - 1) (tcc_statuses p))"
    unfolding received_results_of [symmetric] by simp
  also have "\<dots> = length (filter status_received (tcc_statuses p))"
    by (rule length_received_seqs)
  also have "\<dots> = length (deltas p)" using inv by (simp add: tcc_inv_def flip: length_map [of delta_status "deltas p"])
  finally have "length (filter pr_received ?rs) = length (deltas q)" by (simp add: q)
  from set_deltas_ok [OF this, of "sint (referenceTime q * 64)"] show ?thesis
    using q fill by (auto simp: GetPacketResults_def map_results_of received_results_of)
qed

subsection \<open>Parsing never leaves the buffer\<close>

lemma Chunk_Parse_safe: "Chunk_Parse d cnt \<noteq> None"
  by (auto simp: Chunk_Parse_def Let_def Option.bind_eq_None_conv safe simp del: not_None_eq)

lemma read_deltas1_safe: "n \<le> length d \<Longrightarrow> read_deltas1 n d \<noteq> None"
  by (induction n arbitrary: d) (auto simp: Option.bind_eq_None_conv safe simp del: not_None_eq split: prod.split)

lemma read_deltas2_safe: "n * 2 \<le> length d \<Longrightarrow> read_deltas2 n d \<noteq> None"
  by (induction n arbitrary: d) (auto simp: Option.bind_eq_None_conv safe simp del: not_None_eq split: prod.split)

lemma vector_AddDeltas_safe: "OneBit_AddDeltas ss d \<noteq> None" "TwoBit_AddDeltas ss d \<noteq> None"
  by (induction ss arbitrary: d) (auto simp: Option.bind_eq_None_conv safe Suc_le_eq simp del: not_None_eq)

lemma chunk_AddDeltas_safe: "chunk_AddDeltas c d \<noteq> None"
  using vector_AddDeltas_safe read_deltas1_safe [of _ d] read_deltas2_safe [of _ d]
  by (cases c) (auto simp: not_less simp del: not_None_eq)

lemma chunks_loop_safe: "chunks_loop psc cnt rcv rest \<noteq> None"
proof (induction psc cnt rcv rest rule: chunks_loop.induct)
  case (1 psc cnt rcv rest)
  then show ?case using Chunk_Parse_safe [of rest "psc - cnt"]
    by (subst chunks_loop.simps) (auto simp: Option.bind_eq_None_conv simp del: not_None_eq split: option.split)
qed

lemma deltas_loop_safe: "deltas_loop cs rest \<noteq> None"
  using chunk_AddDeltas_safe
  by (induction cs arbitrary: rest)
    (auto simp: Option.bind_eq_None_conv simp del: not_None_eq split: option.split prod.split)

lemma tcc_content_safe: "tcc_content psc content \<noteq> None"
  using chunks_loop_safe deltas_loop_safe
  by (auto simp: tcc_content_def Option.bind_eq_None_conv simp del: not_None_eq split: option.split prod.split)

lemma FeedbackRtpTransportPacket_Parse_total:
  assumes "\<And>ch. read_CommonHeader d = Some ch \<Longrightarrow> announced_len ch = length d"
  shows "FeedbackRtpTransportPacket_Parse d \<noteq> None"
proof (cases "length d < 20")
  case False
  then obtain ch where "read_CommonHeader d = Some ch" using read_CommonHeader_defined [of d] by auto
  with False assms FeedbackPacket_ctor_defined [of d] tcc_content_safe show ?thesis
    by (auto simp: FeedbackRtpTransportPacket_Parse_def tcc_ctor_def parseReferenceTime_def Get3Bytes_def Let_def
        Option.bind_eq_None_conv safe simp del: not_None_eq)
qed (simp add: FeedbackRtpTransportPacket_Parse_def)

subsection \<open>Chunks on the wire\<close>

lemma status_of_code: "s \<noteq> NoStatus \<Longrightarrow> status_of (status_code s) = s"
  by (cases s) (simp_all add: status_of_def)

lemma bit_status_code: "s \<noteq> NoStatus \<Longrightarrow> bit (status_code s) n \<Longrightarrow> n < 2"
  using less_exp_bit [of "status_code s" 2 n] by (cases s) simp_all

lemma bit_or_statuses:
  "bit (or_statuses stp ss i b) n \<longleftrightarrow>
     bit b n \<or> n < 16 \<and> (\<exists>j < length ss. i - stp * j \<le> n \<and> bit (status_code (ss ! j)) (n - (i - stp * j)))"
proof (induction ss arbitrary: i b)
  case (Cons s ss)
  show ?case
    by (simp add: Cons Ex_less_Suc2 bit_simps) auto
qed simp

text \<open>The field of the \<open>k\<close>-th of at most \<open>N\<close> statuses, each \<open>stp\<close> bits wide.\<close>

lemma vector_field:
  assumes len: "length ss \<le> N" "k < length ss" "stp * N \<le> 16"
    and codes: "\<And>j n. j < length ss \<Longrightarrow> bit (status_code (ss ! j)) n \<Longrightarrow> n < stp"
    and hi: "\<And>n. n < stp \<Longrightarrow> \<not> bit b (stp * (N - 1 - k) + n)"
  shows "(drop_bit (stp * (N - 1 - k)) (or_statuses stp ss (stp * (N - 1)) b)) AND mask stp = status_code (ss ! k)"
proof (rule bit_word_eqI)
  fix n :: nat assume "n < LENGTH(16)"
  let ?p = "stp * (N - 1 - k) + n"
  have field: "(\<exists>j < length ss. stp * (N - 1) - stp * j \<le> ?p \<and> bit (status_code (ss ! j)) (?p - (stp * (N - 1) - stp * j)))
      \<longleftrightarrow> bit (status_code (ss ! k)) n" (is "?l = ?r") if "n < stp"
  proof
    assume ?l
    then obtain j where j: "j < length ss" "stp * (N - 1 - j) \<le> ?p" "bit (status_code (ss ! j)) (?p - stp * (N - 1 - j))"
      by (auto simp: diff_mult_distrib2)
    with codes have "?p - stp * (N - 1 - j) < stp" by blast
    with j(2) have "stp * (N - 1 - k) < stp * Suc (N - 1 - j)" "stp * (N - 1 - j) < stp * Suc (N - 1 - k)" using that by auto
    then have "N - 1 - k = N - 1 - j" by (metis Suc_leI Suc_le_mono le_antisym mult_less_cancel1)
    with j(1) len have "j = k" by linarith
    with j(3) show ?r by simp
  next
    assume ?r
    then show ?l using len by (intro exI [of _ k]) (auto simp: diff_mult_distrib2)
  qed
  have lt: "?p < 16" if "n < stp"
  proof -
    have "?p < stp * Suc (N - 1 - k)" using that by simp
    also have "\<dots> \<le> stp * N" using len by (intro mult_le_mono2) linarith
    finally show ?thesis using len by linarith
  qed
  show "bit ((drop_bit (stp * (N - 1 - k)) (or_statuses stp ss (stp * (N - 1)) b)) AND mask stp) n =
      bit (status_code (ss ! k)) n"
  proof (cases "n < stp")
    case True
    then show ?thesis using field lt hi
      by (simp add: bit_and_iff bit_drop_bit_eq bit_mask_iff bit_or_statuses)
  next
    case False
    then show ?thesis using codes [OF len(2), of n] by (auto simp: bit_and_iff bit_mask_iff)
  qed
qed

lemma bit_push_ge: "bit (push_bit i w) n \<Longrightarrow> i \<le> n" for w :: "'a::len word"
  by (simp add: bit_push_bit_iff)

lemma two_bit_field:
  assumes "length ss \<le> 7" and "k < length ss" and "NoStatus \<notin> set ss"
  shows "(drop_bit (2 * (7 - 1 - k)) (or_statuses 2 ss 12 0xC000)) AND 0x03 = status_code (ss ! k)"
proof -
  have "\<not> bit (0xC000 :: u16) (2 * (7 - 1 - k) + n)" if "n < 2" for n
    using bit_push_ge [of 14 "3 :: u16" "2 * (7 - 1 - k) + n"] that by auto
  moreover have "ss ! j \<noteq> NoStatus" if "j < length ss" for j using assms(3) that by (metis nth_mem)
  ultimately have "(drop_bit (2 * (7 - 1 - k)) (or_statuses 2 ss (2 * (7 - 1)) 0xC000)) AND mask 2 = status_code (ss ! k)"
    using assms(1,2) bit_status_code by (intro vector_field) auto
  then show ?thesis by (simp add: mask_eq_exp_minus_1)
qed

lemma one_bit_field:
  assumes "length ss \<le> 14" and "k < length ss" and "set ss \<subseteq> {NotReceived, SmallDelta}"
  shows "(drop_bit (14 - 1 - k) (or_statuses 1 ss 13 0x8000)) AND 0x01 = status_code (ss ! k)"
proof -
  have "\<not> bit (0x8000 :: u16) (1 * (14 - 1 - k) + n)" if "n < 1" for n
    using bit_push_ge [of 15 "1 :: u16" "14 - 1 - k + n"] that by auto
  moreover have "n < 1" if "j < length ss" "bit (status_code (ss ! j)) n" for j n
  proof -
    have "ss ! j \<in> {NotReceived, SmallDelta}" using assms(3) that(1) by (meson nth_mem subset_iff)
    with that(2) show ?thesis by (auto simp: bit_1_iff)
  qed
  ultimately have "(drop_bit (1 * (14 - 1 - k)) (or_statuses 1 ss (1 * (14 - 1)) 0x8000)) AND mask 1 = status_code (ss ! k)"
    using assms(1,2) by (intro vector_field) auto
  then show ?thesis by (simp add: mask_eq_exp_minus_1)
qed

fun chunk_fits :: "chunk \<Rightarrow> bool" where
  "chunk_fits (RunLengthChunk s n) \<longleftrightarrow> s \<in> {NotReceived, SmallDelta, LargeDelta} \<and> 0 < n \<and> n < 2 ^ 13"
| "chunk_fits (OneBitVectorChunk ss) \<longleftrightarrow> ss \<noteq> [] \<and> length ss \<le> 14 \<and> set ss \<subseteq> {NotReceived, SmallDelta}"
| "chunk_fits (TwoBitVectorChunk ss) \<longleftrightarrow> ss \<noteq> [] \<and> length ss \<le> 7 \<and> set ss \<subseteq> {NotReceived, SmallDelta, LargeDelta}"

text \<open>A vector chunk is read back with the statuses it was written with when it is full or the last one.\<close>

fun chunk_whole :: "chunk \<Rightarrow> nat \<Rightarrow> bool" where
  "chunk_whole (RunLengthChunk s n) cnt \<longleftrightarrow> True"
| "chunk_whole (OneBitVectorChunk ss) cnt \<longleftrightarrow> length ss = min 14 cnt"
| "chunk_whole (TwoBitVectorChunk ss) cnt \<longleftrightarrow> length ss = min 7 cnt"

lemma drop_bit_and_1: "(drop_bit n w) AND 1 = 0 \<longleftrightarrow> \<not> bit w n" for w :: "'a::len word"
  by (auto simp: bit_iff_and_drop_bit_eq_1 and_one_eq odd_iff_mod_2_eq_one)

lemma run_length_fields:
  fixes n :: u16
  assumes "n < 2 ^ 13" and s: "s \<in> {NotReceived, SmallDelta, LargeDelta}"
  defines "w \<equiv> push_bit 13 (status_code s) OR (n AND 0x1FFF)"
  shows "\<not> bit w 15" and "(drop_bit 13 w) AND 0x03 = status_code s" and "w AND 0x1FFF = n"
proof -
  note b = less_exp_bit [OF assms(1)]
  have m: "0x1FFF = (mask 13 :: u16)" "0x03 = (mask 2 :: u16)" by (simp_all add: mask_eq_exp_minus_1)
  have c: "k < 2" if "bit (status_code s) k" for k using bit_status_code [OF _ that] s by auto
  have c2: "\<not> bit (status_code s) 2" using c by blast
  show "\<not> bit w 15" unfolding w_def m using c2 by (auto simp: bit_simps)
  show "(drop_bit 13 w) AND 0x03 = status_code s" unfolding w_def m
    by (rule bit_word_eqI) (auto simp: bit_simps dest: b c)
  show "w AND 0x1FFF = n" unfolding w_def m by (rule bit_word_eqI) (auto simp: bit_simps dest: b)
qed

lemma vector_flags:
  "bit (or_statuses 2 ss 12 0xC000) 15" "bit (or_statuses 2 ss 12 0xC000) 14" "bit (or_statuses 1 ss 13 0x8000) 15"
  "set ss \<subseteq> {NotReceived, SmallDelta} \<Longrightarrow> \<not> bit (or_statuses 1 ss 13 0x8000) 14"
proof -
  show "bit (or_statuses 2 ss 12 0xC000) 15" "bit (or_statuses 2 ss 12 0xC000) 14" "bit (or_statuses 1 ss 13 0x8000) 15"
    by (simp_all add: bit_or_statuses bit_numeral_rec)
  assume ss: "set ss \<subseteq> {NotReceived, SmallDelta}"
  have "\<not> bit (status_code (ss ! j)) (14 - (13 - j))" if "j < length ss" for j
  proof -
    have "ss ! j \<in> {NotReceived, SmallDelta}" using ss that by (meson nth_mem subset_iff)
    then show ?thesis by (auto simp: bit_1_iff)
  qed
  then show "\<not> bit (or_statuses 1 ss 13 0x8000) 14" by (simp add: bit_or_statuses bit_numeral_rec)
qed

lemma first_byte_40: "(ucast (drop_bit 8 w) :: u8) AND 0x40 = 0 \<longleftrightarrow> \<not> bit w 14" for w :: u16
proof -
  have "0x40 = push_bit 6 (1 :: u8)" by simp
  then show ?thesis using bit_iff_and_push_bit_not_eq_0 [of "ucast (drop_bit 8 w) :: u8" 6]
    by (simp only:) (auto simp: bit_simps)
qed

lemma map_status_of:
  assumes "length ss = n" and "\<And>k. k < n \<Longrightarrow> f k = status_code (ss ! k)" and "NoStatus \<notin> set ss"
  shows "map (\<lambda>i. status_of (f i)) [0..<n] = ss"
  using assms by (intro nth_equalityI) (auto intro!: status_of_code, metis nth_mem)

lemma Chunk_Parse_Serialize:
  assumes "chunk_fits c" and "chunk_whole c (unat cnt)"
  shows "\<exists>b. chunk_Serialize c = Some b \<and> length b = 2 \<and> (\<forall>rest. Chunk_Parse (b @ rest) cnt = Some (Some c))"
proof (cases c)
  case (RunLengthChunk s n)
  with assms have s: "s \<in> {NotReceived, SmallDelta, LargeDelta}" and n: "n < 2 ^ 13" by auto
  from s have "status_of (status_code s) = s" by (auto simp: status_of_def)
  with RunLengthChunk run_length_fields [OF n s] s show ?thesis
    by (auto simp: Chunk_Parse_def drop_bit_and_1 wire sizes Let_def)
next
  case (OneBitVectorChunk ss)
  with assms have ss: "length ss \<le> 14" "set ss \<subseteq> {NotReceived, SmallDelta}" "length ss = min 14 (unat cnt)" by auto
  have "OneBitVectorChunk_ctor (or_statuses 1 ss 13 0x8000) cnt = c"
    unfolding OneBitVectorChunk_ctor_def OneBitVectorChunk ss(3) [symmetric]
    using ss one_bit_field [of ss] by (intro arg_cong [of _ _ chunk.OneBitVectorChunk] map_status_of) auto
  then show ?thesis using OneBitVectorChunk ss(1) vector_flags(3,4) [of ss] ss(2)
    by (simp add: Chunk_Parse_def drop_bit_and_1 wire sizes) (simp add: put2_def first_byte_40)
next
  case (TwoBitVectorChunk ss)
  with assms have ss: "length ss \<le> 7" "set ss \<subseteq> {NotReceived, SmallDelta, LargeDelta}" "length ss = min 7 (unat cnt)" by auto
  have "TwoBitVectorChunk_ctor (or_statuses 2 ss 12 0xC000) cnt = c"
    unfolding TwoBitVectorChunk_ctor_def TwoBitVectorChunk ss(3) [symmetric]
    using ss two_bit_field [of ss] by (intro arg_cong [of _ _ chunk.TwoBitVectorChunk] map_status_of) auto
  then show ?thesis using TwoBitVectorChunk ss(1) vector_flags(1,2) [of ss]
    by (simp add: Chunk_Parse_def drop_bit_and_1 wire sizes) (simp add: put2_def first_byte_40)
qed

primrec chunks_whole :: "chunk list \<Rightarrow> bool" where
  "chunks_whole [] \<longleftrightarrow> True"
| "chunks_whole (c # cs) \<longleftrightarrow> chunk_fits c \<and> chunk_whole c (length (concat (map chunk_statuses (c # cs)))) \<and> chunks_whole cs"

lemma chunk_fits_counts:
  assumes "chunk_fits c"
  shows "chunk_GetCount c = of_nat (length (chunk_statuses c))" and "0 < length (chunk_statuses c)"
    and "chunk_GetReceivedStatusCount c = of_nat (length (filter status_received (chunk_statuses c)))"
  using assms by (cases c; auto simp: word_gt_0 unat_gt_0 filter_replicate)+

lemma chunks_loop_Serialize:
  assumes "chunks_whole cs" and "psc = cnt + of_nat (length (concat (map chunk_statuses cs)))"
    and "unat cnt + length (concat (map chunk_statuses cs)) < 2 ^ 16"
  shows "\<exists>bs. chunks_Serialize cs = Some bs \<and> length bs = 2 * length cs \<and>
    chunks_loop psc cnt rcv (bs @ rest) = Some (Some (cs, psc,
      rcv + of_nat (length (filter status_received (concat (map chunk_statuses cs)))), rest))"
  using assms
proof (induction cs arbitrary: cnt rcv)
  case Nil
  then show ?case by (subst chunks_loop.simps) simp
next
  case (Cons c cs)
  let ?n = "length (chunk_statuses c)" and ?m = "length (concat (map chunk_statuses cs))"
  let ?r = "of_nat (length (filter status_received (chunk_statuses c))) :: u16"
  from Cons.prems have fits: "chunk_fits c" and whole: "chunk_whole c (?n + ?m)" "chunks_whole cs" by auto
  have n: "0 < ?n" by (rule chunk_fits_counts [OF fits])
  have sub: "psc - cnt = of_nat (?n + ?m)" "unat (psc - cnt) = ?n + ?m"
    using Cons.prems(2,3) by (simp, simp add: unat_of_nat_less flip: of_nat_add)
  have "unat psc = unat cnt + (?n + ?m)" using Cons.prems(2,3) by (simp add: unat_word_ariths unat_of_nat_less)
  with n have lt: "cnt < psc" by (simp add: word_less_nat_alt)
  from Chunk_Parse_Serialize [OF fits, of "psc - cnt"] whole sub obtain b where
    b: "chunk_Serialize c = Some b" "length b = 2" "\<And>rest. Chunk_Parse (b @ rest) (psc - cnt) = Some (Some c)" by auto
  have "unat (cnt + of_nat ?n) = unat cnt + ?n" using Cons.prems(3) by (simp add: unat_word_ariths unat_of_nat_less)
  then obtain bs where bs: "chunks_Serialize cs = Some bs" "length bs = 2 * length cs"
    "chunks_loop psc (cnt + of_nat ?n) (rcv + ?r) (bs @ rest) = Some (Some (cs, psc,
      rcv + ?r + of_nat (length (filter status_received (concat (map chunk_statuses cs)))), rest))"
    using Cons.IH [OF whole(2), of "cnt + of_nat ?n" "rcv + ?r"] Cons.prems(2,3) by (auto simp: add.assoc)
  have "chunks_loop psc cnt rcv (b @ bs @ rest) = Some (Some (c # cs, psc,
      rcv + ?r + of_nat (length (filter status_received (concat (map chunk_statuses cs)))), rest))"
    using lt b bs(3) chunk_fits_counts [OF fits] by (subst chunks_loop.simps) auto
  then show ?case using b bs(1,2) by (simp add: add.assoc)
qed

lemma put_delta_small:
  assumes "delta_status d = SmallDelta"
  shows "put_delta d = [ucast d]" and "ucast (ucast d :: u8) = d"
proof -
  from assms have s: "0 \<le> sint d" "sint d \<le> 255" by (auto simp: delta_status_def split: if_splits)
  then show "put_delta d = [ucast d]" by (simp add: put_delta_def)
  have "uint (word_of_int (sint d) :: u16) = sint d" using s
    by (simp only: uint_word_of_int) (simp add: take_bit_int_eq_self)
  with s have d: "d < 2 ^ 8" by (simp add: word_less_def)
  show "ucast (ucast d :: u8) = d"
    by (intro bit_word_eqI) (auto simp: bit_simps dest: less_exp_bit [OF d])
qed

lemma put_delta_large: "delta_status d = LargeDelta \<Longrightarrow> put_delta d = put2 d"
  by (auto simp: delta_status_def put_delta_def split: if_splits)

lemma read_deltas_put:
  "\<forall>d \<in> set ds. delta_status d = SmallDelta \<Longrightarrow>
     read_deltas1 (length ds) (concat (map put_delta ds) @ rest) = Some (ds, rest)"
  "\<forall>d \<in> set ds. delta_status d = LargeDelta \<Longrightarrow>
     read_deltas2 (length ds) (concat (map put_delta ds) @ rest) = Some (ds, rest)"
  by (induction ds) (simp_all add: put_delta_small put_delta_large wire sizes)

lemma status_received_simps [simp]:
  "status_received SmallDelta" "status_received LargeDelta" "\<not> status_received NotReceived"
  by (simp_all add: status_received_def)

lemma OneBit_AddDeltas_put:
  "set ss \<subseteq> {NotReceived, SmallDelta} \<Longrightarrow> map delta_status ds = filter status_received ss \<Longrightarrow>
     OneBit_AddDeltas ss (concat (map put_delta ds) @ rest) = Some (Some (ds, rest))"
  by (induction ss arbitrary: ds) (auto simp: status_received_def map_eq_Cons_conv put_delta_small wire)

lemma TwoBit_AddDeltas_put:
  "set ss \<subseteq> {NotReceived, SmallDelta, LargeDelta} \<Longrightarrow> map delta_status ds = filter status_received ss \<Longrightarrow>
     TwoBit_AddDeltas ss (concat (map put_delta ds) @ rest) = Some (Some (ds, rest))"
proof (induction ss arbitrary: ds)
  case (Cons s ss)
  from Cons.prems consider "s = NotReceived" | z zs where "s \<noteq> NotReceived" "delta_status z = s" "ds = z # zs"
      "map delta_status zs = filter status_received ss"
    by (auto simp: map_eq_Cons_conv)
  then show ?case
  proof cases
    case 1
    with Cons show ?thesis by simp
  next
    case 2
    with Cons have "TwoBit_AddDeltas ss (concat (map put_delta zs) @ rest) = Some (Some (zs, rest))" by simp
    with 2 show ?thesis using delta_status_received [of z]
      by (auto simp: put_delta_small put_delta_large wire sizes)
  qed
qed simp

lemma length_put_delta: "length (put_delta d) = delta_size d"
  using delta_status_received [of d] by (auto simp: put_delta_small put_delta_large sizes delta_size_def)

lemma length_put_deltas: "length (concat (map put_delta ds)) = sum_list (map delta_size ds)"
  by (induction ds) (simp_all add: length_put_delta)

lemma delta_sizes_same:
  "\<forall>d \<in> set ds. delta_status d = SmallDelta \<Longrightarrow> sum_list (map delta_size ds) = length ds"
  "\<forall>d \<in> set ds. delta_status d = LargeDelta \<Longrightarrow> sum_list (map delta_size ds) = length ds * 2"
  by (induction ds) (auto simp: delta_size_def)

lemma map_eq_replicate: "map f xs = replicate n y \<longleftrightarrow> length xs = n \<and> (\<forall>x \<in> set xs. f x = y)"
  by (metis length_map length_replicate map_replicate_const map_cong in_set_replicate list.set_map image_eqI)

lemma chunk_AddDeltas_put:
  assumes "chunk_fits c" and "map delta_status ds = filter status_received (chunk_statuses c)"
  shows "chunk_AddDeltas c (concat (map put_delta ds) @ rest) = Some (Some (ds, rest))"
proof (cases c)
  case (RunLengthChunk s n)
  with assms consider "s = NotReceived" "ds = []"
    | "s = SmallDelta" "length ds = unat n" "\<forall>d \<in> set ds. delta_status d = SmallDelta"
    | "s = LargeDelta" "length ds = unat n" "\<forall>d \<in> set ds. delta_status d = LargeDelta"
    by (auto simp: status_received_def filter_replicate map_eq_replicate)
  then show ?thesis
  proof cases
    case 2
    with read_deltas_put(1) [OF 2(3), of rest] show ?thesis
      by (simp add: RunLengthChunk length_put_deltas delta_sizes_same)
  next
    case 3
    with read_deltas_put(2) [OF 3(3), of rest] show ?thesis
      by (simp add: RunLengthChunk length_put_deltas delta_sizes_same)
  qed (simp add: RunLengthChunk)
qed (use assms OneBit_AddDeltas_put TwoBit_AddDeltas_put in simp_all)

lemma deltas_loop_put:
  assumes "list_all chunk_fits cs" and "map delta_status ds = filter status_received (concat (map chunk_statuses cs))"
  shows "deltas_loop cs (concat (map put_delta ds) @ rest) = Some (Some (ds, rest))"
  using assms
proof (induction cs arbitrary: ds)
  case (Cons c cs)
  then obtain d1 d2 where ds: "ds = d1 @ d2" "map delta_status d1 = filter status_received (chunk_statuses c)"
    "map delta_status d2 = filter status_received (concat (map chunk_statuses cs))"
    by (auto simp: map_eq_append_conv)
  show ?case
  proof (cases "concat (map put_delta ds) @ rest = []")
    case True
    then have "ds = []" by (cases ds) (auto simp: put_delta_def put2_def split: if_splits)
    with True show ?thesis by simp
  next
    case False
    moreover have "chunk_AddDeltas c (concat (map put_delta ds) @ rest) = Some (Some (d1, concat (map put_delta d2) @ rest))"
      using chunk_AddDeltas_put [OF _ ds(2)] Cons.prems(1) by (simp add: ds(1))
    moreover have "deltas_loop cs (concat (map put_delta d2) @ rest) = Some (Some (d2, rest))"
      using Cons ds(3) by simp
    ultimately show ?thesis unfolding deltas_loop.simps if_not_P [OF False] by (simp add: ds(1))
  qed
qed simp

subsection \<open>A packet on the wire\<close>

text \<open>What a packet must satisfy to be read back from its serialization: the fields fit their places, every
  vector chunk but the last one is full, and the deltas are those of the received statuses. A packet
  closed by \<open>Finish\<close> has the last three by construction.\<close>

definition wire_ok :: "tcc \<Rightarrow> bool" where
  "wire_ok p \<longleftrightarrow> fb_messageType (tcc_header p) < 32 \<and> referenceTime p < 2 ^ 23 \<and> statuses (tcc_ctx p) = [] \<and>
     tcc_size p = 0 \<and> chunks_whole (chunks p) \<and> length (closed_statuses p) < 2 ^ 16 \<and> accounted p \<and>
     map delta_status (deltas p) = filter status_received (closed_statuses p) \<and> tcc_GetSize p \<le> 2 ^ 18"

lemma chunks_whole_fits: "chunks_whole cs \<Longrightarrow> list_all chunk_fits cs"
  by (induction cs) auto

lemma tcc_content_Serialize:
  assumes "wire_ok p"
  shows "\<exists>bs. chunks_Serialize (chunks p) = Some bs \<and> length bs = 2 * length (chunks p) \<and>
    tcc_content (packetStatusCount p) (bs @ concat (map put_delta (deltas p)) @ pad) =
      Some (Some (chunks p, deltas p, deltasAndChunksSize p))"
proof -
  let ?n = "length (closed_statuses p)"
  let ?rest = "concat (map put_delta (deltas p)) @ pad"
  have w: "chunks_whole (chunks p)" "packetStatusCount p = of_nat ?n" "?n < 2 ^ 16"
    "map delta_status (deltas p) = filter status_received (closed_statuses p)"
    using assms by (auto simp: wire_ok_def accounted_def)
  have len: "length (filter status_received (closed_statuses p)) = length (deltas p)"
    using w(4) by (metis length_map)
  from chunks_loop_Serialize [OF w(1), of "packetStatusCount p" 0 0 ?rest] w(2,3) obtain bs where
    bs: "chunks_Serialize (chunks p) = Some bs" "length bs = 2 * length (chunks p)"
      "chunks_loop (packetStatusCount p) 0 0 (bs @ ?rest) = Some (Some (chunks p, packetStatusCount p, of_nat (length (deltas p)), ?rest))"
    using len by (auto simp: closed_statuses_def)
  have "deltas_loop (chunks p) ?rest = Some (Some (deltas p, pad))"
    using deltas_loop_put [OF chunks_whole_fits [OF w(1)]] w(4) by (simp add: closed_statuses_def)
  moreover have "unat (of_nat (length (deltas p)) :: u16) = length (deltas p)"
    using w(3) length_filter_le [of status_received "closed_statuses p"] len by (intro unat_of_nat_less) simp
  moreover have "deltasAndChunksSize p = 2 * length (chunks p) + sum_list (map delta_size (deltas p))"
    using assms by (simp add: wire_ok_def accounted_def)
  ultimately show ?thesis using bs by (simp add: tcc_content_def length_put_deltas)
qed

lemma parseReferenceTime_put3:
  assumes "r < 2 ^ 23"
  shows "parseReferenceTime (xs @ put3 r @ ys) (length xs) = Some r"
proof -
  have "r < 2 ^ 24" using assms by (simp add: word_less_nat_alt)
  then have g: "Get3Bytes (xs @ put3 r @ ys) (length xs) = Some r"
    by (simp add: Get3Bytes_def put3_def Get1Byte_def nth_append assemble3_low)
  have "\<not> bit (ucast (drop_bit 16 r) :: u8) 7" using less_exp_bit [OF assms, of 23] by (auto simp: bit_simps)
  then have "(ucast (drop_bit 16 r) :: u8) AND 0x80 = 0"
    using bit_iff_and_push_bit_not_eq_0 [of "ucast (drop_bit 16 r) :: u8" 7] by simp
  with g show ?thesis by (simp add: parseReferenceTime_def)
qed

subsection \<open>Properties\<close>

text \<open>C2: feedback about received packets is faithful. For every run of \<open>AddPacket\<close> calls, closing the
  packet succeeds and the results computed from it cover the consecutive sequence numbers from the
  base on, and the ones marked as received are exactly the recorded packets, in order, each with the
  delta that was recorded for it, whatever mix of chunks represents them.\<close>

theorem tcc_results_are_log:
  assumes "tcc_run maxLen log p" and "maxLen < 2 ^ 16"
  shows "\<exists>q rs. Finish p = Some q \<and> GetPacketResults q = Some rs \<and>
    map (\<lambda>r. (pr_sequenceNumber r, pr_delta r)) (filter pr_received rs) = log \<and>
    map pr_sequenceNumber rs = map (\<lambda>i. baseSequenceNumber p + of_nat i) [0..<length rs]"
proof -
  have ok: "run_ok log p" by (rule tcc_run_ok [OF assms])
  then obtain q rs where q: "Finish p = Some q" "GetPacketResults q = Some rs"
    "map pr_sequenceNumber rs = map (\<lambda>i. baseSequenceNumber p + of_nat i) [0..<length (tcc_statuses p)]"
    "map pr_received rs = map status_received (tcc_statuses p)"
    "map pr_sequenceNumber (filter pr_received rs) = map fst log" "map pr_delta (filter pr_received rs) = map snd log"
    using GetPacketResults_spec [of p] by (auto simp: run_ok_def)
  have "map (\<lambda>r. (pr_sequenceNumber r, pr_delta r)) (filter pr_received rs) =
      zip (map pr_sequenceNumber (filter pr_received rs)) (map pr_delta (filter pr_received rs))"
    by (simp add: zip_map_map zip_same_conv_map)
  also have "\<dots> = log" by (simp only: q(5,6) zip_map_fst_snd)
  finally show ?thesis using q map_eq_imp_length_eq [OF q(4)] by auto
qed

lemma tcc_run_add_packets:
  assumes "add_packets maxLen xs p = Some (q, rs)" and "\<forall>x \<in> set xs. 64 \<le> snd x" and "tcc_run maxLen log p"
  shows "\<exists>log'. tcc_run maxLen log' q"
  using assms
proof (induction xs arbitrary: p rs log)
  case (Cons x xs)
  then obtain p1 r1 rs1 where 1: "AddPacket (fst x) (snd x) maxLen p = Some (p1, r1)"
    "add_packets maxLen xs p1 = Some (q, rs1)" by (auto simp: bind_eq_Some_iff)
  from Cons.prems(2) have "64 \<le> snd x" by simp
  from tcc_run.add [OF Cons.prems(3) this 1(1)] Cons.IH [OF 1(2)] Cons.prems(2) show ?case by simp
qed auto

theorem tcc_results_are_log_witness:
  "\<exists>log p q rs. tcc_run 1200 log p \<and> deltas p = [4, 396] \<and> Finish p = Some q \<and> GetPacketResults q = Some rs \<and>
     map (\<lambda>r. (pr_sequenceNumber r, pr_delta r)) (filter pr_received rs) = log"
proof -
  have "case add_packets 1200 [(10, 6400), (11, 6401), (13, 6500)] (tcc_new 1 2) of
      Some (p, rs) \<Rightarrow> deltas p = [4, 396] | None \<Rightarrow> False" by code_simp
  then obtain p rs where p: "add_packets 1200 [(10, 6400), (11, 6401), (13, 6500)] (tcc_new 1 2) = Some (p, rs)"
    "deltas p = [4, 396]" by (auto split: option.splits prod.splits)
  obtain log where "tcc_run 1200 log p"
    using tcc_run_add_packets [OF p(1) _ tcc_run.new] by auto
  with tcc_results_are_log [OF this] p(2) show ?thesis by auto
qed

text \<open>C11: a closed feedback packet whose chunks, counters and times fit the wire format is serialized to
  the size it announces, a multiple of four bytes, and parsing these bytes gives back its base sequence
  number, status count, reference time, feedback count, chunks, deltas and size.\<close>

theorem tcc_roundtrip:
  assumes "wire_ok p"
  shows "\<exists>b q. tcc_Serialize p = Some (p, b) \<and> length b = tcc_GetSize p \<and> 4 dvd length b \<and>
    FeedbackRtpTransportPacket_Parse b = Some (Some q) \<and> tcc_header q = tcc_header p \<and>
    baseSequenceNumber q = baseSequenceNumber p \<and> packetStatusCount q = packetStatusCount p \<and>
    referenceTime q = referenceTime p \<and> feedbackPacketCount q = feedbackPacketCount p \<and>
    chunks q = chunks p \<and> deltas q = deltas p \<and> deltasAndChunksSize q = deltasAndChunksSize p \<and>
    tcc_GetSize q = tcc_GetSize p"
proof -
  let ?s = "tcc_GetSize p" and ?ds = "concat (map put_delta (deltas p))"
  let ?h = "FeedbackPacket_Serialize RTPFB ?s (tcc_header p)"
  let ?fix = "put2 (baseSequenceNumber p) @ put2 (packetStatusCount p) @ put3 (referenceTime p) @ [feedbackPacketCount p]"
  let ?pad = "replicate (pad4 (12 + 8 + deltasAndChunksSize p)) 0"
  have w: "fb_messageType (tcc_header p) < 32" "referenceTime p < 2 ^ 23" "statuses (tcc_ctx p) = []" "tcc_size p = 0"
    "?s \<le> 2 ^ 18" "deltasAndChunksSize p = 2 * length (chunks p) + sum_list (map delta_size (deltas p))"
    using assms by (auto simp: wire_ok_def accounted_def)
  have s: "?s = align4 (12 + 8 + deltasAndChunksSize p)" "20 \<le> ?s" "4 dvd ?s"
    using w(4) le_align4 [of "12 + 8 + deltasAndChunksSize p"] by (simp_all add: tcc_GetSize_def)
  from tcc_content_Serialize [OF assms, of ?pad] obtain bs where bs: "chunks_Serialize (chunks p) = Some bs"
    "length bs = 2 * length (chunks p)"
    "tcc_content (packetStatusCount p) (bs @ ?ds @ ?pad) = Some (Some (chunks p, deltas p, deltasAndChunksSize p))" by blast
  let ?b = "?h @ ?fix @ bs @ ?ds @ ?pad"
  have fix8: "length ?fix = 8" by (simp add: sizes put3_def)
  have lb: "length ?b = ?s" unfolding s(1) using fix8 bs(2) w(6) by (simp add: align4_pad4 length_put_deltas)
  have ser: "tcc_Serialize p = Some (p, ?b)"
    using w(3,6) bs(1,2) by (simp add: tcc_Serialize_def AddPendingChunks_def Let_def length_put_deltas sizes put3_def)
  obtain ch where ch: "read_CommonHeader ?b = Some ch" "announced_len ch = ?s"
    using fb_common_header [OF w(1), of RTPFB ?s "?fix @ bs @ ?ds @ ?pad"] s w(5) by auto
  have ct: "FeedbackPacket_ctor ?b = Some (tcc_header p)" by (rule FeedbackPacket_roundtrip [OF w(1)])
  have get: "Get2Bytes ?b 12 = Some (baseSequenceNumber p)" "Get2Bytes ?b 14 = Some (packetStatusCount p)"
    "Get1Byte ?b 19 = Some (feedbackPacketCount p)"
    using byte2.get_skip [of ?h] byte1.get_skip [of ?h] by (simp_all add: wire sizes put3_def)
  have "parseReferenceTime ?b 16 = Some (referenceTime p)"
    using parseReferenceTime_put3 [OF w(2), of "?h @ put2 (baseSequenceNumber p) @ put2 (packetStatusCount p)"
        "[feedbackPacketCount p] @ bs @ ?ds @ ?pad"] by (simp add: sizes)
  moreover have "drop 20 ?b = bs @ ?ds @ ?pad" by (simp add: sizes put3_def)
  moreover have "take (?s - 20) (drop 20 ?b) = drop 20 ?b" using lb by (intro take_all) (simp only: length_drop)
  ultimately have "FeedbackRtpTransportPacket_Parse ?b = Some (Some \<lparr>tcc_header = tcc_header p,
      baseSequenceNumber = baseSequenceNumber p, referenceTime = referenceTime p, latestSequenceNumber = 0,
      latestTimestamp = 0, packetStatusCount = packetStatusCount p, feedbackPacketCount = feedbackPacketCount p,
      chunks = chunks p, deltas = deltas p,
      tcc_ctx = \<lparr>allSameStatus = True, currentStatus = NoStatus, statuses = []\<rparr>,
      deltasAndChunksSize = deltasAndChunksSize p, tcc_size = ?s\<rparr>)"
    using ch ct get bs(3) lb s(2) unfolding FeedbackRtpTransportPacket_Parse_def tcc_ctor_def by simp
  then show ?thesis using ser lb s by (auto simp: tcc_GetSize_def)
qed

theorem tcc_roundtrip_witness:
  "\<exists>p b q. chunks p = [RunLengthChunk NotReceived 300, TwoBitVectorChunk [SmallDelta, NotReceived, LargeDelta]] \<and>
     tcc_Serialize p = Some (p, b) \<and> FeedbackRtpTransportPacket_Parse b = Some (Some q) \<and> chunks q = chunks p"
proof -
  let ?p = "(tcc_new 1 2)\<lparr>baseSequenceNumber := 11, referenceTime := 100, packetStatusCount := 303,
    chunks := [RunLengthChunk NotReceived 300, TwoBitVectorChunk [SmallDelta, NotReceived, LargeDelta]],
    deltas := [4, 396], deltasAndChunksSize := 7\<rparr>"
  have "delta_status 4 = SmallDelta" "delta_status 396 = LargeDelta" by code_simp+
  then have "wire_ok ?p"
    by (simp add: wire_ok_def tcc_new_def accounted_def closed_statuses_def chunk_ok_def sent_statuses_def
        delta_size_def tcc_GetSize_def align4_def filter_replicate)
  from tcc_roundtrip [OF this] show ?thesis by (intro exI [of _ ?p]) fastforce
qed

subsection \<open>The size limit\<close>

definition pending_size :: "tcc \<Rightarrow> nat" where
  "pending_size p = (if statuses (tcc_ctx p) = [] then 0 else 2)"

lemma dcs_ops [simp]:
  "deltasAndChunksSize (set_ctx f p) = deltasAndChunksSize p"
  "deltasAndChunksSize (CreateRunLengthChunk s n p) = deltasAndChunksSize p + 2"
  "deltasAndChunksSize (CreateTwoBitVectorChunk ss p) = deltasAndChunksSize p + 2"
  by (simp_all add: tcc_ops_defs)

lemma dcs_steps:
  "deltasAndChunksSize (flush_run p) \<le> deltasAndChunksSize p + 2"
  "deltasAndChunksSize (fill_missing_statuses m p) \<le> deltasAndChunksSize p + 4"
  "deltasAndChunksSize (flush_changed s p) \<le> deltasAndChunksSize p + 2"
  "length (statuses (tcc_ctx p)) < 7 \<Longrightarrow> flush_changed s p = p"
  "deltasAndChunksSize (push_received s d p) + pending_size (push_received s d p) \<le> deltasAndChunksSize p + 4"
  by (simp_all add: flush_run_def fill_missing_statuses_def flush_changed_def push_received_def Let_def pending_size_def)

lemma dcs_FillChunk:
  assumes inv: "tcc_inv p" and len: "length (statuses (tcc_ctx p)) < 65535" and "sn \<noteq> prev"
  shows "deltasAndChunksSize (FillChunk prev sn d p) + pending_size (FillChunk prev sn d p) \<le> deltasAndChunksSize p + 10"
proof -
  let ?m = "sn - (prev + 1)" and ?s = "delta_status d"
  let ?p1 = "if ?m > 0 then fill_missing_statuses ?m (flush_run p) else p"
  have "deltasAndChunksSize (flush_changed ?s ?p1) \<le> deltasAndChunksSize p + 6"
  proof (cases "?m > 0")
    case True
    then have m: "?m \<noteq> 0" by (simp only: word_gt_0)
    have "?m \<noteq> 65535"
    proof
      assume "?m = 65535"
      then have "sn = 65535 + (prev + 1)" by (simp only: diff_eq_eq)
      with assms(3) show False by simp
    qed
    then have "length (statuses (tcc_ctx (fill_missing_statuses ?m (flush_run p)))) < 7"
      using fill_missing_statuses_spec [OF _ _ m] flush_run_spec [OF _ len] inv by (simp add: tcc_inv_def)
    then have eq: "flush_changed ?s ?p1 = fill_missing_statuses ?m (flush_run p)"
      using True dcs_steps(4) by (simp only: if_True)
    show ?thesis unfolding eq using dcs_steps(1) [of p] dcs_steps(2) [of ?m "flush_run p"] by linarith
  next
    case False
    then show ?thesis using dcs_steps(3) [of ?s p] by (simp only: if_False)
  qed
  moreover have f: "FillChunk prev sn d p = push_received ?s d (flush_changed ?s ?p1)"
    by (simp only: FillChunk_def Let_def)
  ultimately show ?thesis unfolding f using dcs_steps(5) [of ?s d "flush_changed ?s ?p1"] by linarith
qed

lemma dcs_Finish: "Finish p = Some q \<Longrightarrow> deltasAndChunksSize q = deltasAndChunksSize p + pending_size p"
  by (auto simp: Finish_def AddPendingChunks_def Let_def pending_size_def split: if_splits)

lemma align4_add6: "align4 (n + 6) \<le> align4 n + 8"
  by (cases n rule: nat_mod4_cases) (simp_all add: align4_def)

lemma tcc_run_size:
  assumes "tcc_run maxLen log p" and max: "maxLen < 2 ^ 16"
  shows "align4 (12 + 8 + deltasAndChunksSize p + pending_size p) \<le> max 20 (maxLen + 8)"
  using assms(1)
proof induction
  case (new sender media)
  then show ?case by (simp add: tcc_new_def pending_size_def align4_def)
next
  case (add log p ts sn p' r)
  then have ok: "run_ok log p" using tcc_run_ok max by blast
  show ?case
  proof (cases "deltasAndChunksSize p' = deltasAndChunksSize p \<and> tcc_ctx p' = tcc_ctx p")
    case True
    then show ?thesis using add.IH by (simp add: pending_size_def)
  next
    case False
    with add.hyps(3) obtain d where "p' = (FillChunk (latestSequenceNumber p) sn d p)\<lparr>latestSequenceNumber := sn, latestTimestamp := ts\<rparr>"
      and s: "align4 (12 + 8 + deltasAndChunksSize p + 2 + 2) \<le> maxLen" and "IsSeqHigherThan sn (latestSequenceNumber p)"
      by (auto simp: AddPacket_def Let_def split: if_splits)
    moreover have "sn \<noteq> latestSequenceNumber p" using calculation(3) seq.gt_irrefl by auto
    ultimately have "deltasAndChunksSize p' + pending_size p' \<le> deltasAndChunksSize p + 10"
      using dcs_FillChunk [of p sn "latestSequenceNumber p" d] ok by (auto simp: run_ok_def pending_size_def)
    then have "align4 (12 + 8 + deltasAndChunksSize p' + pending_size p') \<le>
        align4 (12 + 8 + deltasAndChunksSize p + 2 + 2 + 6)" by (intro align4_mono) linarith
    also have "\<dots> \<le> align4 (12 + 8 + deltasAndChunksSize p + 2 + 2) + 8" by (rule align4_add6)
    finally show ?thesis using s by linarith
  qed
qed

text \<open>C12: the limit passed to \<open>AddPacket\<close> is kept up to eight bytes: whatever packets are added, the closed
  packet is never more than eight bytes longer than \<open>maxRtcpPacketLen\<close> (or than an empty packet).\<close>

theorem tcc_size_limit:
  assumes "tcc_run maxLen log p" and "maxLen < 2 ^ 16" and "Finish p = Some q"
  shows "tcc_GetSize q \<le> max 20 (maxLen + 8)"
proof -
  have ok: "run_ok log p" by (rule tcc_run_ok [OF assms(1,2)])
  then have "tcc_size q = 0" using Finish_spec [of p] assms(3) by (auto simp: run_ok_def)
  then show ?thesis
    using tcc_run_size [OF assms(1,2)] dcs_Finish [OF assms(3)] by (simp add: tcc_GetSize_def add.assoc)
qed

theorem tcc_size_limit_witness:
  "\<exists>log p q. tcc_run 32 log p \<and> Finish p = Some q \<and> tcc_GetSize q \<le> 40"
proof -
  obtain q where "Finish (tcc_new 1 2) = Some q"
    by (simp add: Finish_def AddPendingChunks_def tcc_new_def)
  with tcc_size_limit [OF tcc_run.new _ this] show ?thesis using tcc_run.new [of 32 1 2] by fastforce
qed

text \<open>the check of \<open>AddPacket\<close> reserves room for one chunk and one delta only. Seven equal statuses
  followed by a gap create three chunks at once, so with a limit of 32 bytes every call succeeds
  and the closed packet is 36 bytes long.\<close>

lemma tcc_size_limit_exceeded:
  "case add_packets 32 [(1, 64000), (2, 64000), (3, 64001), (4, 64002), (5, 64002), (6, 64003), (7, 64004),
       (8, 64004), (100, 64005)] (tcc_new 1 2) of
     None \<Rightarrow> False
   | Some (p, rs) \<Rightarrow> list_all (\<lambda>r. r = SUCCESS) rs \<and> map_option tcc_GetSize (Finish p) = Some 36"
  by code_simp

text \<open>the limit of 8191 missing packets is checked in \<open>int\<close> arithmetic without the wrap-around of
  sequence numbers. A gap of 10005 packets across the wrap is accepted and recorded as a run of 9998,
  which is serialized like a run of 1806, its low thirteen bits. The same gap without the wrap is
  refused.\<close>

lemma tcc_gap_across_wrap:
  "(\<exists>p. add_packets 64 [(65530, 6400), (10000, 6401)] (tcc_new 1 2) = Some (p, [SUCCESS, SUCCESS]) \<and>
      RunLengthChunk NotReceived 9998 \<in> set (chunks p)) \<and>
   chunk_Serialize (RunLengthChunk NotReceived 9998) = chunk_Serialize (RunLengthChunk NotReceived 1806) \<and>
   (\<exists>p. add_packets 64 [(1, 6400), (10007, 6401)] (tcc_new 1 2) = Some (p, [SUCCESS, FATAL]))"
proof (intro conjI)
  have h: "IsSeqHigherThan 10000 (65530 :: u16)" "IsSeqHigherThan 10007 (1 :: u16)"
    "delta_status 4 = SmallDelta" "sint (4 :: u64) = 4" "drop_bit 6 (6400 :: u64) * 64 = 6400" by code_simp+
  let ?p = "(tcc_new 1 2)\<lparr>baseSequenceNumber := 65531, referenceTime := 100, latestSequenceNumber := 65530,
    latestTimestamp := 6400\<rparr>"
  have a: "AddPacket 65530 6400 64 (tcc_new 1 2) = Some (?p, SUCCESS)"
    using h by (simp add: AddPacket_def tcc_new_def tcc_IsFull_def)
  let ?q = "set_ctx (\<lambda>c. c\<lparr>statuses := [], currentStatus := NoStatus\<rparr>) (CreateRunLengthChunk NotReceived 9998
    (set_ctx (\<lambda>c. c\<lparr>statuses := [], currentStatus := NoStatus\<rparr>) (CreateTwoBitVectorChunk (replicate 7 NotReceived)
      (set_ctx (\<lambda>c. c\<lparr>currentStatus := NotReceived, statuses := replicate 7 NotReceived\<rparr>) ?p))))"
  have "statuses (tcc_ctx ?p) = []" by (simp add: tcc_new_def)
  then have "fill_missing_statuses 10005 (flush_run ?p) = ?q"
    unfolding fill_missing_statuses_def flush_run_def fill_missing_def Let_def by (simp, simp add: set_ctx_def)
  moreover have m: "10000 - (65530 + 1) = (10005 :: u16)" "0 < (10005 :: u16)" by code_simp+
  moreover have "FillChunk 65530 10000 4 ?p =
      push_received (delta_status 4) 4 (flush_changed (delta_status 4) (fill_missing_statuses 10005 (flush_run ?p)))"
    unfolding FillChunk_def Let_def m(1) using m(2) by (simp only: if_True)
  ultimately have "RunLengthChunk NotReceived 9998 \<in> set (chunks (FillChunk 65530 10000 4 ?p))"
    using h by (simp add: flush_changed_def push_received_def tcc_ops_defs Let_def)
  then show "\<exists>p. add_packets 64 [(65530, 6400), (10000, 6401)] (tcc_new 1 2) = Some (p, [SUCCESS, SUCCESS]) \<and>
      RunLengthChunk NotReceived 9998 \<in> set (chunks p)"
    using h a by (simp add: AddPacket_def tcc_new_def tcc_IsFull_def align4_def)
  show "\<exists>p. add_packets 64 [(1, 6400), (10007, 6401)] (tcc_new 1 2) = Some (p, [SUCCESS, FATAL])"
    using h by (simp add: AddPacket_def tcc_new_def tcc_IsFull_def)
qed code_simp

lemma fold_lost:
  "fold (\<lambda>c lost. lost + (chunk_GetCount c - chunk_GetReceivedStatusCount c)) cs lost =
     lost + of_nat (length (filter (\<lambda>s. \<not> status_received s) (concat (map chunk_statuses cs))))"
proof (induction cs arbitrary: lost)
  case (Cons c cs)
  have "length (filter (\<lambda>s. \<not> status_received s) ss) = length ss - length (filter status_received ss)" for ss
    using sum_length_filter_compl [of status_received ss] by linarith
  then have "chunk_GetCount c - chunk_GetReceivedStatusCount c =
      of_nat (length (filter (\<lambda>s. \<not> status_received s) (chunk_statuses c)))"
    by (cases c) (simp_all add: of_nat_diff filter_replicate)
  with Cons show ?case by (simp add: add.assoc)
qed simp

text \<open>the fraction of lost packets a feedback packet reports, in 256ths: the share of the statuses it
  holds that are not received ones, rounded down, and 255 when none was received.\<close>

lemma GetPacketFractionLost_spec:
  assumes "packetStatusCount p = of_nat (length (closed_statuses p))" and "length (closed_statuses p) < 2 ^ 16"
  shows "unat (GetPacketFractionLost p) =
    (let n = length (closed_statuses p); lost = length (filter (\<lambda>s. \<not> status_received s) (closed_statuses p))
     in if n = 0 then 0 else if lost = n then 255 else lost * 256 div n)"
proof -
  let ?n = "length (closed_statuses p)"
  let ?lost = "length (filter (\<lambda>s. \<not> status_received s) (closed_statuses p))"
  have le: "?lost \<le> ?n" by (rule length_filter_le)
  have u: "unat (of_nat ?n :: u16) = ?n" "unat (of_nat ?lost :: u16) = ?lost"
    using assms(2) le_less_trans [OF le assms(2)] by (auto intro!: unat_of_nat_less)
  then have eq: "(of_nat ?lost :: u16) = of_nat ?n \<longleftrightarrow> ?lost = ?n" "(of_nat ?n :: u16) = 0 \<longleftrightarrow> ?n = 0"
    by (simp_all only: word_unat_eq_iff unsigned_0)
  have "unat (of_nat (?lost * 256 div ?n) :: u8) = ?lost * 256 div ?n" if "?lost \<noteq> ?n"
  proof -
    from that le have "?lost < ?n" by linarith
    then have "?lost * 256 div ?n < 256" by (simp add: less_mult_imp_div_less)
    then show ?thesis by (intro unat_of_nat_less) simp
  qed
  then show ?thesis using le u eq
    by (simp add: GetPacketFractionLost_def fold_lost assms(1) Let_def flip: closed_statuses_def)
qed

end
