(* ===== verification/Rtcp_Compound.thy ===== *)
theory Rtcp_Compound
  imports Rtcp_Reports Rtcp_Ps Rtcp_TransportCC
begin

text \<open>
  Transport-layer feedback dispatch (\<^verbatim>\<open>FeedbackPacket<FeedbackRtp>::Parse\<close>, \<^verbatim>\<open>FeedbackRtpSrReq.cpp\<close>),
  the parser of received RTCP data \<^verbatim>\<open>Packet::Parse\<close> (\<^verbatim>\<open>src/RTC/RTCP/Packet.cpp\<close>) and the compound packets
  the program sends (\<^verbatim>\<open>src/RTC/RTCP/CompoundPacket.cpp\<close>).

  The chain of packets that \<open>Packet::Parse\<close> links through \<open>next\<close> is a list. The main results are that it
  returns for every input without reading outside the buffer, and that it gives back what the
  serializers wrote, also for a compound packet.
\<close>

subsection \<open>FeedbackRtpPacket::Parse\<close>

definition FeedbackRtp_MessageType2String :: "u8 \<Rightarrow> string" where
  "FeedbackRtp_MessageType2String t = (case map_of [(1, ''NACK''), (3, ''TMMBR''), (4, ''TMMBN''), (5, ''SR_REQ''),
      (6, ''RAMS''), (7, ''TLLEI''), (8, ''ECN''), (9, ''PS''), (31, ''EXT''), (15, ''TCC'')] t of
      Some s \<Rightarrow> s | None \<Rightarrow> ''UNKNOWN'')"

definition FeedbackRtpSrReqPacket_Parse :: "bytes \<Rightarrow> fb_header option option" where
  "FeedbackRtpSrReqPacket_Parse d =
     (if length d < SIZEOF_FeedbackHeaders then Some None
      else do { h \<leftarrow> FeedbackPacket_ctor d; Some (Some h) })"

datatype fb_rtp_packet =
    NackPacket "NackItem items_packet"
  | TmmbrPacket "TmmbItem items_packet"
  | TmmbnPacket "TmmbItem items_packet"
  | SrReqPacket fb_header
  | TlleiPacket "TlleiItem items_packet"
  | EcnPacket "EcnItem items_packet"
  | TransportPacket tcc

definition FeedbackRtp_switch :: "u8 \<Rightarrow> bytes \<Rightarrow> fb_rtp_packet option option" where
  "FeedbackRtp_switch t d =
     (if t = fb_rtp_code NACK then map_option (map_option NackPacket) (FeedbackRtpItemsPacket_Parse NackItem_ops d)
      else if t = fb_rtp_code TMMBR then map_option (map_option TmmbrPacket) (FeedbackRtpItemsPacket_Parse (TmmbItem_ops TMMBR) d)
      else if t = fb_rtp_code TMMBN then map_option (map_option TmmbnPacket) (FeedbackRtpItemsPacket_Parse (TmmbItem_ops TMMBN) d)
      else if t = fb_rtp_code SR_REQ then map_option (map_option SrReqPacket) (FeedbackRtpSrReqPacket_Parse d)
      else if t = fb_rtp_code TLLEI then map_option (map_option TlleiPacket) (FeedbackRtpItemsPacket_Parse TlleiItem_ops d)
      else if t = fb_rtp_code ECN then map_option (map_option EcnPacket) (FeedbackRtpItemsPacket_Parse EcnItem_ops d)
      else if t = fb_rtp_code TCC then map_option (map_option TransportPacket) (FeedbackRtpTransportPacket_Parse d)
      else Some None)"

definition FeedbackRtp_Parse :: "bytes \<Rightarrow> fb_rtp_packet option option" where
  "FeedbackRtp_Parse d =
     (if length d < SIZEOF_FeedbackHeaders then Some None
      else do { ch \<leftarrow> read_CommonHeader d; FeedbackRtp_switch (hdr_count ch) d })"

fun FeedbackRtp_GetSize :: "fb_rtp_packet \<Rightarrow> nat" where
  "FeedbackRtp_GetSize (NackPacket p) = ItemsPacket_GetSize NackItem_ops p"
| "FeedbackRtp_GetSize (TmmbrPacket p) = ItemsPacket_GetSize (TmmbItem_ops TMMBR) p"
| "FeedbackRtp_GetSize (TmmbnPacket p) = ItemsPacket_GetSize (TmmbItem_ops TMMBN) p"
| "FeedbackRtp_GetSize (SrReqPacket _) = 12"
| "FeedbackRtp_GetSize (TlleiPacket p) = ItemsPacket_GetSize TlleiItem_ops p"
| "FeedbackRtp_GetSize (EcnPacket p) = ItemsPacket_GetSize EcnItem_ops p"
| "FeedbackRtp_GetSize (TransportPacket p) = tcc_GetSize p"

fun FeedbackRtp_Serialize :: "fb_rtp_packet \<Rightarrow> bytes option" where
  "FeedbackRtp_Serialize (NackPacket p) = ItemsPacket_Serialize RTPFB NackItem_ops p"
| "FeedbackRtp_Serialize (TmmbrPacket p) = ItemsPacket_Serialize RTPFB (TmmbItem_ops TMMBR) p"
| "FeedbackRtp_Serialize (TmmbnPacket p) = ItemsPacket_Serialize RTPFB (TmmbItem_ops TMMBN) p"
| "FeedbackRtp_Serialize (SrReqPacket h) = Some (FeedbackPacket_Serialize RTPFB 12 h)"
| "FeedbackRtp_Serialize (TlleiPacket p) = ItemsPacket_Serialize RTPFB TlleiItem_ops p"
| "FeedbackRtp_Serialize (EcnPacket p) = ItemsPacket_Serialize RTPFB EcnItem_ops p"
| "FeedbackRtp_Serialize (TransportPacket p) = map_option snd (tcc_Serialize p)"

subsection \<open>Packet::Parse\<close>

datatype rtcp_packet =
    SrPacket "SenderReport list"
  | RrPacket ReceiverReportPacket
  | SdesPkt "SdesChunk list"
  | ByePkt ByePacket
  | RtpFb fb_rtp_packet
  | PsFb fb_ps_packet
  | XrPkt ExtendedReportPacket

text \<open>The \<open>switch\<close> on the packet type. The result is the packet with the one linked behind it (the receiver
  reports of an SR packet); the inner \<open>None\<close> is \<open>current\<close> being \<open>nullptr\<close>.\<close>

definition packet_switch :: "CommonHeader \<Rightarrow> bytes \<Rightarrow> rtcp_packet list option option" where
  "packet_switch h d = (case rtcp_type_of (hdr_packetType h) of
       Some SR \<Rightarrow> do {
         reports \<leftarrow> SenderReportPacket_Parse d;
         if hdr_count h > 0 then do {
           rr \<leftarrow> ReceiverReportPacket_Parse d (SenderReportPacket_GetSize reports);
           Some (Some (case rr of None \<Rightarrow> [SrPacket reports] | Some r \<Rightarrow> [SrPacket reports, RrPacket r])) }
         else Some (Some [SrPacket reports]) }
     | Some RR \<Rightarrow> map_option (map_option (\<lambda>p. [RrPacket p])) (ReceiverReportPacket_Parse d 0)
     | Some SDES \<Rightarrow> map_option (\<lambda>p. Some [SdesPkt p]) (SdesPacket_Parse d)
     | Some BYE \<Rightarrow> map_option (map_option (\<lambda>p. [ByePkt p])) (ByePacket_Parse d)
     | Some APP \<Rightarrow> Some None
     | Some RTPFB \<Rightarrow> map_option (map_option (\<lambda>p. [RtpFb p])) (FeedbackRtp_Parse d)
     | Some PSFB \<Rightarrow> map_option (map_option (\<lambda>p. [PsFb p])) (FeedbackPs_Parse d)
     | Some XR \<Rightarrow> map_option (map_option (\<lambda>p. [XrPkt p])) (ExtendedReportPacket_Parse d)
     | None \<Rightarrow> Some None)"

lemma announced_len_pos: "0 < announced_len h"
  by (simp add: announced_len_def)

function Packet_Parse :: "bytes \<Rightarrow> rtcp_packet list option" where
  "Packet_Parse d =
     (if d = [] then Some []
      else case IsRtcp d of
        None \<Rightarrow> None
      | Some False \<Rightarrow> Some []
      | Some True \<Rightarrow>
          (case read_CommonHeader d of
             None \<Rightarrow> None
           | Some h \<Rightarrow>
               let packetLen = announced_len h in
               if length d < packetLen then Some []
               else case packet_switch h (take packetLen d) of
                 None \<Rightarrow> None
               | Some None \<Rightarrow> Some []
               | Some (Some ps) \<Rightarrow> do {
                   rest \<leftarrow> Packet_Parse (drop packetLen d);
                   Some (ps @ rest) }))"
  by pat_completeness auto
termination
  by (relation "measure length") (auto simp: announced_len_pos)

declare Packet_Parse.simps [simp del]

subsection \<open>CompoundPacket\<close>

record CompoundPacket =
  cp_senderReports :: "SenderReport list"
  cp_receiverReportPacket :: ReceiverReportPacket
  cp_sdesChunks :: "SdesChunk list"
  cp_xrPacket :: ExtendedReportPacket

definition CompoundPacket_new :: CompoundPacket where
  "CompoundPacket_new = \<lparr>cp_senderReports = [], cp_receiverReportPacket = \<lparr>rrp_ssrc = 0, rrp_reports = []\<rparr>,
     cp_sdesChunks = [], cp_xrPacket = \<lparr>xr_ssrc = 0, xr_reports = []\<rparr>\<rparr>"

definition HasSenderReport :: "CompoundPacket \<Rightarrow> bool" where
  "HasSenderReport p \<longleftrightarrow> cp_senderReports p \<noteq> []"

definition HasReceiverReferenceTime :: "CompoundPacket \<Rightarrow> bool" where
  "HasReceiverReferenceTime p \<longleftrightarrow>
     list_ex (\<lambda>b. case b of RRT _ _ \<Rightarrow> True | _ \<Rightarrow> False) (xr_reports (cp_xrPacket p))"

definition AddSenderReport :: "SenderReport \<Rightarrow> CompoundPacket \<Rightarrow> CompoundPacket option" where
  "AddSenderReport r p =
     (if HasSenderReport p then None else Some (p\<lparr>cp_senderReports := cp_senderReports p @ [r]\<rparr>))"

definition AddReceiverReport :: "ReceiverReport \<Rightarrow> CompoundPacket \<Rightarrow> CompoundPacket" where
  "AddReceiverReport r p =
     p\<lparr>cp_receiverReportPacket := ReceiverReportPacket_AddReport (cp_receiverReportPacket p) r\<rparr>"

definition AddSdesChunk :: "SdesChunk \<Rightarrow> CompoundPacket \<Rightarrow> CompoundPacket" where
  "AddSdesChunk c p = p\<lparr>cp_sdesChunks := cp_sdesChunks p @ [c]\<rparr>"

definition AddReceiverReferenceTime :: "u32 \<Rightarrow> u32 \<Rightarrow> CompoundPacket \<Rightarrow> CompoundPacket" where
  "AddReceiverReferenceTime sec frac p =
     p\<lparr>cp_xrPacket := ExtendedReportPacket_AddReport (cp_xrPacket p) (RRT sec frac)\<rparr>"

text \<open>The size \<open>Serialize\<close> computes first.\<close>

definition CompoundPacket_size :: "CompoundPacket \<Rightarrow> nat" where
  "CompoundPacket_size p =
     (if HasSenderReport p then
        SenderReportPacket_GetSize (cp_senderReports p) + 24 * length (rrp_reports (cp_receiverReportPacket p))
      else ReceiverReportPacket_GetSize (cp_receiverReportPacket p)) +
     (if cp_sdesChunks p \<noteq> [] then SdesPacket_GetSize (cp_sdesChunks p) else 0) +
     (if xr_reports (cp_xrPacket p) \<noteq> [] then ExtendedReportPacket_GetSize (cp_xrPacket p) else 0)"

text \<open>Updates of the header of the SR packet in the buffer: the five count bits and the length.\<close>

definition set_count :: "nat \<Rightarrow> bytes \<Rightarrow> bytes" where
  "set_count n b = b[0 := ((b ! 0) AND 0xE0) OR (of_nat n AND 31)]"

definition set_length :: "u16 \<Rightarrow> bytes \<Rightarrow> bytes" where
  "set_length n b = b[2 := ucast (drop_bit 8 n), 3 := ucast n]"

text \<open>The sender and receiver reports: receiver reports are put into the SR packet when there is one.\<close>

definition compound_reports :: "CompoundPacket \<Rightarrow> bytes option" where
  "compound_reports p =
     (let rrs = rrp_reports (cp_receiverReportPacket p) in
      if HasSenderReport p then do {
        b \<leftarrow> SenderReportPacket_Serialize (cp_senderReports p);
        let b = set_count 0 b;
        Some (if length rrs \<noteq> 0
          then set_count (length rrs) (set_length (of_nat ((24 + 24 * length rrs) div 4)) b) @
            concat (map ReceiverReport_Serialize rrs)
          else b) }
      else Some (ReceiverReportPacket_Serialize (cp_receiverReportPacket p)))"

definition CompoundPacket_Serialize :: "CompoundPacket \<Rightarrow> bytes option" where
  "CompoundPacket_Serialize p = do {
     reports \<leftarrow> compound_reports p;
     Some (reports @
       (if cp_sdesChunks p \<noteq> [] then SdesPacket_Serialize (cp_sdesChunks p) else []) @
       (if xr_reports (cp_xrPacket p) \<noteq> [] then ExtendedReportPacket_Serialize (cp_xrPacket p) else [])) }"

subsection \<open>Parsing never leaves the buffer\<close>

lemma FeedbackRtp_Parse_total:
  assumes "\<And>ch. read_CommonHeader d = Some ch \<Longrightarrow> announced_len ch = length d"
  shows "FeedbackRtp_Parse d \<noteq> None"
  using read_CommonHeader_defined [of d] FeedbackPacket_ctor_defined [of d]
    FeedbackRtpTransportPacket_Parse_total [OF assms]
    nack.FeedbackRtpItemsPacket_Parse_total [of d] tmmb.FeedbackRtpItemsPacket_Parse_total [of _ d]
    tllei.FeedbackRtpItemsPacket_Parse_total [of d] ecn.FeedbackRtpItemsPacket_Parse_total [of d]
  by (auto simp: FeedbackRtp_Parse_def FeedbackRtp_switch_def FeedbackRtpSrReqPacket_Parse_def
      Option.bind_eq_None_conv simp del: not_None_eq)

lemma packet_switch_total:
  assumes "4 \<le> length d" and "\<And>ch. read_CommonHeader d = Some ch \<Longrightarrow> announced_len ch = length d"
  shows "packet_switch h d \<noteq> None"
  using SenderReportPacket_Parse_total [OF assms(1)] SdesPacket_Parse_total [OF assms(1)]
    ByePacket_Parse_total [OF assms(1)] ReceiverReportPacket_Parse_total [of d] ExtendedReportPacket_Parse_total [of d]
    FeedbackRtp_Parse_total [OF assms(2)] FeedbackPs_Parse_total [of d]
  by (auto simp: packet_switch_def Option.bind_eq_None_conv simp del: not_None_eq split: option.split rtcp_type.split)

lemma read_CommonHeader_take:
  "4 \<le> n \<Longrightarrow> n \<le> length d \<Longrightarrow> read_CommonHeader (take n d) = read_CommonHeader d"
  using byte1.get_append [of 0 "take n d" "drop n d"] byte1.get_append [of 1 "take n d" "drop n d"]
    byte2.get_append [of 2 "take n d" "drop n d"]
  by (simp add: read_CommonHeader_def)

text \<open>C4: \<open>Packet::Parse\<close> is memory safe and terminates: whatever bytes are received, it returns, and every
  byte that it or one of the parsers it calls reads lies inside the received data.\<close>

theorem Packet_Parse_total: "\<exists>ps. Packet_Parse d = Some ps"
proof (induction "length d" arbitrary: d rule: less_induct)
  case less
  show ?case
  proof (cases "d \<noteq> [] \<and> IsRtcp d = Some True")
    case True
    then have len: "4 \<le> length d" using IsRtcp_long by blast
    then obtain h where h: "read_CommonHeader d = Some h" using read_CommonHeader_defined by blast
    show ?thesis
    proof (cases "length d < announced_len h")
      case False
      have "4 \<le> announced_len h" by (simp add: announced_len_def)
      with False h have "packet_switch h (take (announced_len h) d) \<noteq> None"
        by (intro packet_switch_total) (auto simp: read_CommonHeader_take)
      moreover obtain rest where "Packet_Parse (drop (announced_len h) d) = Some rest"
        using less [of "drop (announced_len h) d"] len announced_len_pos [of h] by fastforce
      ultimately show ?thesis using True h False
        by (subst Packet_Parse.simps) (auto split: option.split)
    qed (use True h in \<open>subst Packet_Parse.simps, simp\<close>)
  next
    case False
    then show ?thesis using IsRtcp_total [of d] by (subst Packet_Parse.simps) auto
  qed
qed

subsection \<open>Reading back what was written\<close>

text \<open>The contract of a serialized packet: it starts with a header that announces its length, and it parses.\<close>

definition parses_to :: "bytes \<Rightarrow> rtcp_packet list \<Rightarrow> bool" where
  "parses_to b ps \<longleftrightarrow> (\<forall>rest. Packet_Parse (b @ rest) = map_option ((@) ps) (Packet_Parse rest))"

lemma parses_to_append: "parses_to b ps \<Longrightarrow> parses_to c qs \<Longrightarrow> parses_to (b @ c) (ps @ qs)"
  by (simp add: parses_to_def option.map_comp comp_def append_assoc [abs_def])

lemma parses_to_Nil: "parses_to [] []"
  by (simp add: parses_to_def append_Nil [abs_def] option.map_ident)

lemma parses_to_Parse: "parses_to b ps \<Longrightarrow> Packet_Parse b = Some ps"
  unfolding parses_to_def by (erule allE [of _ "[]"]) (simp add: Packet_Parse.simps)

lemma parses_toI:
  assumes b: "b = Packet_Serialize t c s @ body" and s: "length b = s" "4 dvd s" "s \<le> 2 ^ 18"
    and sw: "\<And>h. rtcp_type_of (hdr_packetType h) = Some t \<Longrightarrow> hdr_count h = of_nat c AND 31 \<Longrightarrow> packet_switch h b = Some (Some ps)"
  shows "parses_to b ps"
  unfolding parses_to_def
proof
  fix rest
  let ?h = "\<lparr>hdr_version = 2, hdr_padding = 0, hdr_count = of_nat c AND 31, hdr_packetType = rtcp_type_code t,
    hdr_length = of_nat (s div 4 - 1)\<rparr>"
  have "4 \<le> s" using b s by auto
  then have "announced_len ?h = s" using s by (intro announced_len_serialized)
  moreover have "read_CommonHeader (b @ rest) = Some ?h" by (simp add: b read_CommonHeader_Packet_Serialize)
  moreover have "IsRtcp (b @ rest) = Some True" by (simp only: b IsRtcp_Packet_Serialize append_assoc)
  moreover have "b \<noteq> []" using \<open>4 \<le> s\<close> s by auto
  moreover have "packet_switch ?h b = Some (Some ps)" by (rule sw) simp_all
  ultimately show "Packet_Parse (b @ rest) = map_option ((@) ps) (Packet_Parse rest)"
    using s(1) by (subst Packet_Parse.simps) (cases "Packet_Parse rest"; simp)
qed

lemma parses_to_SR: "\<exists>b. SenderReportPacket_Serialize [r] = Some b \<and> parses_to b [SrPacket [r]]"
proof -
  obtain b where b: "SenderReportPacket_Serialize [r] = Some b" "length b = SenderReportPacket_GetSize [r]"
    "SenderReportPacket_Parse b = Some [r]" using SenderReportPacket_roundtrip by blast
  have "parses_to b [SrPacket [r]]"
    by (rule parses_toI [where t = SR and c = 0 and s = "SenderReportPacket_GetSize [r]" and body = "SenderReport_Serialize r"])
      (use b in \<open>simp_all add: SenderReportPacket_Serialize_def SenderReportPacket_GetSize_def packet_switch_def\<close>)
  with b show ?thesis by blast
qed

text \<open>Packets other than SR, with their serialization, size and the conditions of their round trips.\<close>

fun rtcp_Serialize :: "rtcp_packet \<Rightarrow> bytes option" where
  "rtcp_Serialize (SrPacket rs) = SenderReportPacket_Serialize rs"
| "rtcp_Serialize (RrPacket p) = Some (ReceiverReportPacket_Serialize p)"
| "rtcp_Serialize (SdesPkt cs) = Some (SdesPacket_Serialize cs)"
| "rtcp_Serialize (ByePkt p) = Some (ByePacket_Serialize p)"
| "rtcp_Serialize (RtpFb p) = FeedbackRtp_Serialize p"
| "rtcp_Serialize (PsFb p) = FeedbackPs_Serialize p"
| "rtcp_Serialize (XrPkt p) = Some (ExtendedReportPacket_Serialize p)"

fun rtcp_GetSize :: "rtcp_packet \<Rightarrow> nat" where
  "rtcp_GetSize (SrPacket rs) = SenderReportPacket_GetSize rs"
| "rtcp_GetSize (RrPacket p) = ReceiverReportPacket_GetSize p"
| "rtcp_GetSize (SdesPkt cs) = SdesPacket_GetSize cs"
| "rtcp_GetSize (ByePkt p) = ByePacket_GetSize p"
| "rtcp_GetSize (RtpFb p) = FeedbackRtp_GetSize p"
| "rtcp_GetSize (PsFb p) = FeedbackPs_GetSize p"
| "rtcp_GetSize (XrPkt p) = ExtendedReportPacket_GetSize p"

fun fb_rtp_valid :: "fb_rtp_packet \<Rightarrow> bool" where
  "fb_rtp_valid (NackPacket p) \<longleftrightarrow> fb_messageType (ip_header p) = 1"
| "fb_rtp_valid (TmmbrPacket p) \<longleftrightarrow> fb_messageType (ip_header p) = 3 \<and> list_all tmmb_valid (ip_items p)"
| "fb_rtp_valid (TmmbnPacket p) \<longleftrightarrow> fb_messageType (ip_header p) = 4 \<and> list_all tmmb_valid (ip_items p)"
| "fb_rtp_valid (SrReqPacket h) \<longleftrightarrow> fb_messageType h = 5"
| "fb_rtp_valid (TlleiPacket p) \<longleftrightarrow> fb_messageType (ip_header p) = 7"
| "fb_rtp_valid (EcnPacket p) \<longleftrightarrow> fb_messageType (ip_header p) = 8"
| "fb_rtp_valid (TransportPacket p) \<longleftrightarrow> False"

definition sdes_chunks_valid :: "SdesChunk list \<Rightarrow> bool" where
  "sdes_chunks_valid cs \<longleftrightarrow> cs \<noteq> [] \<and> length cs < 32 \<and> list_all sdes_chunk_valid cs \<and> list_all sdes_chunk_padded (butlast cs)"

fun rtcp_valid :: "rtcp_packet \<Rightarrow> bool" where
  "rtcp_valid (SrPacket rs) \<longleftrightarrow> length rs = 1"
| "rtcp_valid (RrPacket p) \<longleftrightarrow> length (rrp_reports p) < 32 \<and> list_all (\<lambda>r. rr_totalLost r < 2 ^ 24) (rrp_reports p)"
| "rtcp_valid (SdesPkt cs) \<longleftrightarrow> sdes_chunks_valid cs"
| "rtcp_valid (ByePkt p) \<longleftrightarrow> length (bye_ssrcs p) < 32 \<and> length (bye_reason p) < 256"
| "rtcp_valid (RtpFb p) \<longleftrightarrow> fb_rtp_valid p"
| "rtcp_valid (PsFb p) \<longleftrightarrow> ps_valid p"
| "rtcp_valid (XrPkt p) \<longleftrightarrow> list_all xr_block_valid (xr_reports p)"

lemma FeedbackRtp_Parse_switch:
  assumes "fb_messageType h < 32"
  shows "FeedbackRtp_Parse (FeedbackPacket_Serialize RTPFB s h @ rest) =
    FeedbackRtp_switch (fb_messageType h) (FeedbackPacket_Serialize RTPFB s h @ rest)"
  using fb_common_header [OF assms, of RTPFB s rest] by (auto simp: FeedbackRtp_Parse_def)

context codec_item
begin

lemma rtp_items_switch:
  assumes "\<forall>i \<in> set (ip_items q). valid i" and "fb_messageType (ip_header q) < 32"
  shows "\<exists>b. ItemsPacket_Serialize RTPFB ops q = Some b \<and> length b = ItemsPacket_GetSize ops q \<and> 4 dvd length b \<and>
    FeedbackRtpItemsPacket_Parse ops b = Some (Some q) \<and>
    FeedbackRtp_Parse b = FeedbackRtp_switch (fb_messageType (ip_header q)) b"
  using packet_roundtrip [OF assms, of RTPFB] FeedbackPsItemsPacket_Serialize_form [of RTPFB ops q]
    FeedbackRtp_Parse_switch [OF assms(2)] by fastforce

end

lemma FeedbackRtp_roundtrip:
  assumes v: "fb_rtp_valid p"
  shows "\<exists>b. FeedbackRtp_Serialize p = Some b \<and> length b = FeedbackRtp_GetSize p \<and> 4 dvd length b \<and>
    FeedbackRtp_Parse b = Some (Some p)"
proof (cases p)
  case (NackPacket q)
  with v nack.rtp_items_switch [of q] show ?thesis by (auto simp: FeedbackRtp_switch_def)
next
  case (TmmbrPacket q)
  with v tmmb.rtp_items_switch [of q TMMBR] show ?thesis by (auto simp: FeedbackRtp_switch_def list_all_iff)
next
  case (TmmbnPacket q)
  with v tmmb.rtp_items_switch [of q TMMBN] show ?thesis by (auto simp: FeedbackRtp_switch_def list_all_iff)
next
  case (SrReqPacket h)
  with v FeedbackRtp_Parse_switch [of h 12 "[]"] FeedbackPacket_roundtrip [of h RTPFB 12 "[]"] show ?thesis
    by (simp add: FeedbackRtp_switch_def FeedbackRtpSrReqPacket_Parse_def)
next
  case (TlleiPacket q)
  with v tllei.rtp_items_switch [of q] show ?thesis by (auto simp: FeedbackRtp_switch_def)
next
  case (EcnPacket q)
  with v ecn.rtp_items_switch [of q] show ?thesis by (auto simp: FeedbackRtp_switch_def)
qed (use v in simp)

lemma fb_Serialize_form:
  "FeedbackPs_Serialize p = Some b \<Longrightarrow> \<exists>c body. b = Packet_Serialize PSFB c (FeedbackPs_GetSize p) @ body"
  "FeedbackRtp_Serialize q = Some b \<Longrightarrow> fb_rtp_valid q \<Longrightarrow> \<exists>c body. b = Packet_Serialize RTPFB c (FeedbackRtp_GetSize q) @ body"
proof -
  have f: "\<exists>c body. FeedbackPacket_Serialize t s h @ rest = Packet_Serialize t c s @ body" for t s h rest
    by (auto simp: FeedbackPacket_Serialize_def)
  note i = FeedbackPsItemsPacket_Serialize_form
  show "FeedbackPs_Serialize p = Some b \<Longrightarrow> \<exists>c body. b = Packet_Serialize PSFB c (FeedbackPs_GetSize p) @ body"
    using f [of PSFB _ _ "[]"] f
    by (cases p) (auto dest!: i simp: AfbPacket_Serialize_def RembPacket_Serialize_def split: if_splits prod.splits)
  show "FeedbackRtp_Serialize q = Some b \<Longrightarrow> fb_rtp_valid q \<Longrightarrow> \<exists>c body. b = Packet_Serialize RTPFB c (FeedbackRtp_GetSize q) @ body"
    using f [of RTPFB _ _ "[]"] f by (cases q) (auto dest!: i)
qed

lemma sdes_chunks_roundtrip:
  assumes "sdes_chunks_valid cs"
  shows "SdesPacket_Parse (SdesPacket_Serialize cs) = Some cs" "length (SdesPacket_Serialize cs) = SdesPacket_GetSize cs"
    "4 dvd SdesPacket_GetSize cs"
proof -
  from assms have cs: "cs = butlast cs @ [last cs]" "length (butlast cs) < 31" "sdes_chunk_valid (last cs)"
    "\<forall>c \<in> set (butlast cs). sdes_chunk_valid c \<and> sdes_chunk_padded c"
    by (auto simp: sdes_chunks_valid_def list_all_iff dest: in_set_butlastD)
  from SdesPacket_roundtrip [OF cs(2,4,3)] cs(1) show "SdesPacket_Parse (SdesPacket_Serialize cs) = Some cs"
    "length (SdesPacket_Serialize cs) = SdesPacket_GetSize cs" by simp_all
  show "4 dvd SdesPacket_GetSize cs" unfolding SdesPacket_GetSize_def
    by (intro dvd_add sum_list_dvd) (simp_all add: SdesChunk_GetSize_def)
qed

lemma valid_parses_to:
  assumes v: "rtcp_valid p" and s: "rtcp_GetSize p \<le> 2 ^ 18"
  shows "\<exists>b. rtcp_Serialize p = Some b \<and> length b = rtcp_GetSize p \<and> parses_to b [p]"
proof (cases p)
  case (SrPacket rs)
  with v obtain r where "rs = [r]" by (auto simp: length_Suc_conv)
  with SrPacket show ?thesis using parses_to_SR [of r] SenderReportPacket_roundtrip [of r] by auto
next
  case (RrPacket q)
  have "4 dvd ReceiverReportPacket_GetSize q"
    unfolding ReceiverReportPacket_GetSize_def by (intro dvd_add sum_list_dvd) simp_all
  moreover note ReceiverReportPacket_roundtrip [of q]
  ultimately have "parses_to (ReceiverReportPacket_Serialize q) [RrPacket q]" using v s RrPacket
    by (intro parses_toI [where t = RR and c = "length (rrp_reports q)" and s = "ReceiverReportPacket_GetSize q", OF ReceiverReportPacket_Serialize_def])
      (auto simp: packet_switch_def list_all_iff)
  then show ?thesis using RrPacket v ReceiverReportPacket_roundtrip [of q] by (simp add: list_all_iff)
next
  case (SdesPkt cs)
  with v have "sdes_chunks_valid cs" by simp
  note r = sdes_chunks_roundtrip [OF this]
  have "parses_to (SdesPacket_Serialize cs) [SdesPkt cs]" using r s SdesPkt
    by (intro parses_toI [where t = SDES and c = "length cs" and s = "SdesPacket_GetSize cs", OF SdesPacket_Serialize_def])
      (auto simp: packet_switch_def)
  then show ?thesis using SdesPkt r by simp
next
  case (ByePkt q)
  with v have r: "ByePacket_Parse (ByePacket_Serialize q) = Some (Some q)"
      "length (ByePacket_Serialize q) = ByePacket_GetSize q" "4 dvd ByePacket_GetSize q"
    using ByePacket_roundtrip [of q] by auto
  have "parses_to (ByePacket_Serialize q) [ByePkt q]" using r s ByePkt
    by (intro parses_toI [where t = BYE and c = "length (bye_ssrcs q)" and s = "ByePacket_GetSize q"])
      (auto simp: ByePacket_Serialize_def Let_def packet_switch_def)
  then show ?thesis using ByePkt r by simp
next
  case (RtpFb q)
  with v FeedbackRtp_roundtrip [of q] obtain b where b: "FeedbackRtp_Serialize q = Some b"
    "length b = FeedbackRtp_GetSize q" "4 dvd length b" "FeedbackRtp_Parse b = Some (Some q)" by auto
  obtain c body where "b = Packet_Serialize RTPFB c (FeedbackRtp_GetSize q) @ body"
    using fb_Serialize_form(2) [OF b(1)] v RtpFb by auto
  then have "parses_to b [RtpFb q]" using b s RtpFb
    by (intro parses_toI [where t = RTPFB and s = "FeedbackRtp_GetSize q"]) (auto simp: packet_switch_def)
  then show ?thesis using RtpFb b by simp
next
  case (PsFb q)
  with v s FeedbackPs_roundtrip [of q] obtain b where b: "FeedbackPs_Serialize q = Some b"
    "length b = FeedbackPs_GetSize q" "4 dvd length b" "FeedbackPs_Parse b = Some (Some q)" by auto
  obtain c body where "b = Packet_Serialize PSFB c (FeedbackPs_GetSize q) @ body"
    using fb_Serialize_form(1) [OF b(1)] by auto
  then have "parses_to b [PsFb q]" using b s PsFb
    by (intro parses_toI [where t = PSFB and s = "FeedbackPs_GetSize q"]) (auto simp: packet_switch_def)
  then show ?thesis using PsFb b by simp
next
  case (XrPkt q)
  have "4 dvd xr_block_GetSize b" for b by (cases b) (auto intro!: dvd_add sum_list_dvd)
  then have "4 dvd ExtendedReportPacket_GetSize q"
    unfolding ExtendedReportPacket_GetSize_def by (intro dvd_add sum_list_dvd) simp_all
  moreover have "ExtendedReportPacket_Parse (ExtendedReportPacket_Serialize q) = Some (Some q)"
      "length (ExtendedReportPacket_Serialize q) = ExtendedReportPacket_GetSize q"
    using ExtendedReportPacket_roundtrip [of q] v XrPkt by (auto simp: list_all_iff)
  moreover from calculation have "parses_to (ExtendedReportPacket_Serialize q) [XrPkt q]" using s XrPkt
    by (intro parses_toI [where t = XR and c = 0 and s = "ExtendedReportPacket_GetSize q", OF ExtendedReportPacket_Serialize_def])
      (auto simp: packet_switch_def)
  ultimately show ?thesis using XrPkt by simp
qed

primrec rtcp_Serialize_all :: "rtcp_packet list \<Rightarrow> bytes option" where
  "rtcp_Serialize_all [] = Some []"
| "rtcp_Serialize_all (p # ps) = do { b \<leftarrow> rtcp_Serialize p; bs \<leftarrow> rtcp_Serialize_all ps; Some (b @ bs) }"

text \<open>C1: RTCP round trip. Any sequence of packets whose fields fit the wire format (SR, RR, SDES, BYE, XR and
  all feedback packets but VBCM and transport-wide ones), serialized one after the other, is as long
  as the sizes the packets announce and is parsed back by \<open>Packet::Parse\<close> to the same sequence.\<close>

theorem rtcp_roundtrip:
  assumes "\<forall>p \<in> set ps. rtcp_valid p \<and> rtcp_GetSize p \<le> 2 ^ 18"
  shows "\<exists>b. rtcp_Serialize_all ps = Some b \<and> length b = sum_list (map rtcp_GetSize ps) \<and> Packet_Parse b = Some ps"
proof -
  have "\<exists>b. rtcp_Serialize_all ps = Some b \<and> length b = sum_list (map rtcp_GetSize ps) \<and> parses_to b ps"
    using assms
  proof (induction ps)
    case (Cons p ps)
    then obtain b bs where "rtcp_Serialize p = Some b" "length b = rtcp_GetSize p" "parses_to b [p]"
      "rtcp_Serialize_all ps = Some bs" "length bs = sum_list (map rtcp_GetSize ps)" "parses_to bs ps"
      using valid_parses_to [of p] by auto
    then show ?case using parses_to_append [of b "[p]" bs ps] by simp
  qed (simp add: parses_to_Nil)
  then show ?thesis using parses_to_Parse by blast
qed

theorem rtcp_roundtrip_witness:
  "let ps = [RrPacket \<lparr>rrp_ssrc = 1, rrp_reports = []\<rparr>, ByePkt \<lparr>bye_ssrcs = [1], bye_reason = [1, 2]\<rparr>,
       RtpFb (NackPacket \<lparr>ip_header = \<lparr>fb_messageType = 1, fb_senderSsrc = 5, fb_mediaSsrc = 6\<rparr>,
         ip_items = [NackItem_new 100 3]\<rparr>)]
   in \<exists>b. rtcp_Serialize_all ps = Some b \<and> Packet_Parse b = Some ps"
  unfolding Let_def
  using rtcp_roundtrip [of "[RrPacket \<lparr>rrp_ssrc = 1, rrp_reports = []\<rparr>, ByePkt \<lparr>bye_ssrcs = [1], bye_reason = [1, 2]\<rparr>,
       RtpFb (NackPacket \<lparr>ip_header = \<lparr>fb_messageType = 1, fb_senderSsrc = 5, fb_mediaSsrc = 6\<rparr>,
         ip_items = [NackItem_new 100 3]\<rparr>)]"]
  by (auto simp: ReceiverReportPacket_GetSize_def ByePacket_GetSize_def ItemsPacket_GetSize_def NackItem_ops_def align4_def)

subsection \<open>Compound packets\<close>

lemma set_count_Cons: "set_count n (a # xs) = ((a AND 0xE0) OR (of_nat n AND 31)) # xs"
  by (simp add: set_count_def)

lemma set_length_Cons: "set_length n (a # b # c # d # xs) = a # b # put2 n @ xs"
  by (simp add: set_length_def put2_def numeral_2_eq_2 numeral_3_eq_3)

lemma SR_header_count0: "set_count 0 (Packet_Serialize SR 0 n @ rest) = Packet_Serialize SR 0 n @ rest"
  by (simp add: set_count_Cons Packet_Serialize_def)

lemma SR_header_update:
  "set_count k (set_length (of_nat ((24 + 24 * k) div 4)) (set_count 0 (Packet_Serialize SR 0 28 @ rest))) =
     Packet_Serialize SR k (28 + 24 * k) @ rest"
proof -
  have l: "(24 + 24 * k) div 4 = (28 + 24 * k) div 4 - 1" by presburger
  have b: "((0x80 OR (of_nat 0 AND 31)) AND 0xE0 :: u8) = 0x80" by simp
  show ?thesis
    unfolding SR_header_count0 unfolding Packet_Serialize_def l put2_def [of "of_nat (28 div 4 - 1)"]
      append_Cons append_Nil set_length_Cons set_count_Cons b append_assoc ..
qed

text \<open>An SR packet that carries receiver report blocks is read as the sender report followed by a receiver
  report packet with the SSRC of the sender.\<close>

lemma parses_to_SR_with_blocks:
  assumes "0 < length rrs" "length rrs < 32" "\<forall>r \<in> set rrs. rr_totalLost r < 2 ^ 24"
  shows "parses_to (Packet_Serialize SR (length rrs) (28 + 24 * length rrs) @ SenderReport_Serialize r @
      concat (map ReceiverReport_Serialize rrs)) [SrPacket [r], RrPacket \<lparr>rrp_ssrc = sr_ssrc r, rrp_reports = rrs\<rparr>]"
proof (rule parses_toI [OF refl])
  let ?h = "Packet_Serialize SR (length rrs) (28 + 24 * length rrs)"
  let ?rr = "concat (map ReceiverReport_Serialize rrs)"
  let ?b = "?h @ SenderReport_Serialize r @ ?rr"
  have len: "length (SenderReport_Serialize r) = 24" "length ?rr = 24 * length rrs"
    using sr.length_ser [of r] rr.length_concat_ser [OF assms(3)] by (simp_all add: sum_list_triv)
  then show "length ?b = 28 + 24 * length rrs" by simp
  have cnt: "unat (of_nat (length rrs) AND 31 :: u8) = length rrs" by (rule unat_count5 [OF assms(2)])
  then have pos: "(of_nat (length rrs) AND 31 :: u8) > 0" using assms(1) by (simp add: word_less_nat_alt)
  have "SenderReportPacket_Parse ?b = Some [r]"
    using sr.parse_ser [of r ?rr] by (simp add: SenderReportPacket_Parse_def read_CommonHeader_Packet_Serialize)
  moreover have "Get4Bytes ?b 4 = Some (sr_ssrc r)"
    by (simp add: wire SenderReport_Serialize_def)
  then have "ReceiverReportPacket_Parse ?b 28 = Some (Some \<lparr>rrp_ssrc = sr_ssrc r, rrp_reports = rrs\<rparr>)"
    using rr.count_loop_ser [OF assms(3), of "[]"] cnt len
    by (simp add: ReceiverReportPacket_Parse_def read_CommonHeader_Packet_Serialize)
  ultimately show "packet_switch h ?b = Some (Some [SrPacket [r], RrPacket \<lparr>rrp_ssrc = sr_ssrc r, rrp_reports = rrs\<rparr>])"
    if "rtcp_type_of (hdr_packetType h) = Some SR" "hdr_count h = of_nat (length rrs) AND 31" for h
    using that pos by (simp add: packet_switch_def SenderReportPacket_GetSize_def)
qed (use assms in simp_all)

definition compound_valid :: "CompoundPacket \<Rightarrow> bool" where
  "compound_valid p \<longleftrightarrow> length (cp_senderReports p) \<le> 1 \<and> rtcp_valid (RrPacket (cp_receiverReportPacket p)) \<and>
     (cp_sdesChunks p = [] \<or> sdes_chunks_valid (cp_sdesChunks p) \<and> SdesPacket_GetSize (cp_sdesChunks p) \<le> 2 ^ 18) \<and>
     rtcp_valid (XrPkt (cp_xrPacket p)) \<and> ExtendedReportPacket_GetSize (cp_xrPacket p) \<le> 2 ^ 18"

text \<open>What the receiver of a compound packet sees.\<close>

definition compound_packets :: "CompoundPacket \<Rightarrow> rtcp_packet list" where
  "compound_packets p =
     (let rrp = cp_receiverReportPacket p in
      (case cp_senderReports p of
         r # _ \<Rightarrow> SrPacket [r] # (if rrp_reports rrp = [] then [] else [RrPacket (rrp\<lparr>rrp_ssrc := sr_ssrc r\<rparr>)])
       | [] \<Rightarrow> [RrPacket rrp])) @
     (if cp_sdesChunks p = [] then [] else [SdesPkt (cp_sdesChunks p)]) @
     (if xr_reports (cp_xrPacket p) = [] then [] else [XrPkt (cp_xrPacket p)])"

lemma compound_reports_spec:
  assumes v: "compound_valid p" and none: "cp_sdesChunks p = []" "xr_reports (cp_xrPacket p) = []"
  shows "\<exists>b. compound_reports p = Some b \<and> length b = CompoundPacket_size p \<and> parses_to b (compound_packets p)"
proof (cases "cp_senderReports p")
  case Nil
  have "rtcp_GetSize (RrPacket (cp_receiverReportPacket p)) \<le> 2 ^ 18"
    using v by (simp add: compound_valid_def ReceiverReportPacket_GetSize_def sum_list_triv)
  then show ?thesis
    using valid_parses_to [of "RrPacket (cp_receiverReportPacket p)"] v none Nil
    by (auto simp: compound_reports_def compound_valid_def HasSenderReport_def CompoundPacket_size_def compound_packets_def)
next
  case (Cons r rs)
  let ?rrs = "rrp_reports (cp_receiverReportPacket p)"
  from v Cons have sr: "cp_senderReports p = [r]" "length ?rrs < 32" "\<forall>r \<in> set ?rrs. rr_totalLost r < 2 ^ 24"
    by (auto simp: compound_valid_def list_all_iff)
  have ser: "SenderReportPacket_Serialize [r] = Some (Packet_Serialize SR 0 28 @ SenderReport_Serialize r)"
    by (simp add: SenderReportPacket_Serialize_def SenderReportPacket_GetSize_def)
  show ?thesis
  proof (cases "?rrs = []")
    case True
    then show ?thesis
      using parses_to_SR [of r] sr(1) ser none sr.length_ser [of r]
      by (simp add: compound_reports_def HasSenderReport_def SR_header_count0 CompoundPacket_size_def
          compound_packets_def SenderReportPacket_GetSize_def)
  next
    case False
    have "compound_reports p = Some (Packet_Serialize SR (length ?rrs) (28 + 24 * length ?rrs) @ SenderReport_Serialize r @
        concat (map ReceiverReport_Serialize ?rrs))"
      using False sr(1) ser SR_header_update [of "length ?rrs" "SenderReport_Serialize r"]
      by (simp add: compound_reports_def HasSenderReport_def Let_def)
    moreover have "compound_packets p = [SrPacket [r], RrPacket \<lparr>rrp_ssrc = sr_ssrc r, rrp_reports = ?rrs\<rparr>]"
      using False sr(1) none by (cases "cp_receiverReportPacket p") (simp add: compound_packets_def)
    ultimately show ?thesis
      using parses_to_SR_with_blocks [OF _ sr(2,3), of r] False sr(1) none sr.length_ser [of r] rr.length_concat_ser [OF sr(3)]
      by (simp add: CompoundPacket_size_def HasSenderReport_def SenderReportPacket_GetSize_def sum_list_triv)
  qed
qed

text \<open>C10: a compound packet (an optional sender report, receiver reports, SDES chunks, receiver reference
  times) is serialized to exactly the size the code computed for it beforehand, and \<open>Packet::Parse\<close> of the
  bytes gives the sender report, the receiver reports (under the SSRC of the sender report when there
  is one), the SDES chunks and the extended reports that were added.\<close>

theorem CompoundPacket_roundtrip:
  assumes v: "compound_valid p"
  shows "\<exists>b. CompoundPacket_Serialize p = Some b \<and> length b = CompoundPacket_size p \<and>
    Packet_Parse b = Some (compound_packets p)"
proof -
  let ?q = "p\<lparr>cp_sdesChunks := [], cp_xrPacket := \<lparr>xr_ssrc = 0, xr_reports = []\<rparr>\<rparr>"
  have "compound_valid ?q" using v by (simp add: compound_valid_def ExtendedReportPacket_GetSize_def)
  then obtain b where b: "compound_reports ?q = Some b" "length b = CompoundPacket_size ?q" "parses_to b (compound_packets ?q)"
    using compound_reports_spec [of ?q] by auto
  let ?sb = "if cp_sdesChunks p \<noteq> [] then SdesPacket_Serialize (cp_sdesChunks p) else []"
  let ?xb = "if xr_reports (cp_xrPacket p) \<noteq> [] then ExtendedReportPacket_Serialize (cp_xrPacket p) else []"
  have sdes: "parses_to ?sb (if cp_sdesChunks p = [] then [] else [SdesPkt (cp_sdesChunks p)])"
      "length ?sb = (if cp_sdesChunks p \<noteq> [] then SdesPacket_GetSize (cp_sdesChunks p) else 0)"
    using valid_parses_to [of "SdesPkt (cp_sdesChunks p)"] v parses_to_Nil by (auto simp: compound_valid_def)
  have xr: "parses_to ?xb (if xr_reports (cp_xrPacket p) = [] then [] else [XrPkt (cp_xrPacket p)])"
      "length ?xb = (if xr_reports (cp_xrPacket p) \<noteq> [] then ExtendedReportPacket_GetSize (cp_xrPacket p) else 0)"
    using valid_parses_to [of "XrPkt (cp_xrPacket p)"] v parses_to_Nil by (auto simp: compound_valid_def)
  have "compound_packets p = compound_packets ?q @ (if cp_sdesChunks p = [] then [] else [SdesPkt (cp_sdesChunks p)]) @
      (if xr_reports (cp_xrPacket p) = [] then [] else [XrPkt (cp_xrPacket p)])"
    by (simp add: compound_packets_def Let_def)
  with parses_to_append [OF b(3) parses_to_append [OF sdes(1) xr(1)]]
  have "Packet_Parse (b @ ?sb @ ?xb) = Some (compound_packets p)" by (simp only: parses_to_Parse)
  moreover have "compound_reports p = Some b" using b(1)
    by (simp add: compound_reports_def HasSenderReport_def cong: if_cong)
  moreover have "length (b @ ?sb @ ?xb) = CompoundPacket_size p"
    unfolding length_append sdes(2) xr(2) b(2) by (simp add: CompoundPacket_size_def HasSenderReport_def)
  ultimately show ?thesis by (simp only: CompoundPacket_Serialize_def bind.bind_lunit option.inject ex_simps simp_thms)
qed

theorem CompoundPacket_roundtrip_witness:
  "let p = AddReceiverReferenceTime 7 8 (AddReceiverReport
       \<lparr>rr_ssrc = 3, rr_fractionLost = 0, rr_totalLost = 1, rr_lastSeq = 2, rr_jitter = 0, rr_lsr = 0, rr_dlsr = 0\<rparr>
       (the (AddSenderReport \<lparr>sr_ssrc = 1, sr_ntpSec = 2, sr_ntpFrac = 3, sr_rtpTs = 4, sr_packetCount = 5, sr_octetCount = 6\<rparr>
         CompoundPacket_new)))
   in \<exists>b. CompoundPacket_Serialize p = Some b \<and> Packet_Parse b = Some (compound_packets p)"
proof -
  let ?p = "AddReceiverReferenceTime 7 8 (AddReceiverReport
       \<lparr>rr_ssrc = 3, rr_fractionLost = 0, rr_totalLost = 1, rr_lastSeq = 2, rr_jitter = 0, rr_lsr = 0, rr_dlsr = 0\<rparr>
       (the (AddSenderReport \<lparr>sr_ssrc = 1, sr_ntpSec = 2, sr_ntpFrac = 3, sr_rtpTs = 4, sr_packetCount = 5, sr_octetCount = 6\<rparr>
         CompoundPacket_new)))"
  have "compound_valid ?p"
    by (simp add: compound_valid_def AddReceiverReferenceTime_def AddReceiverReport_def AddSenderReport_def
        CompoundPacket_new_def HasSenderReport_def ReceiverReportPacket_AddReport_def ExtendedReportPacket_AddReport_def
        ExtendedReportPacket_GetSize_def xr_block_valid_def)
  from CompoundPacket_roundtrip [OF this] show ?thesis by (auto simp: Let_def)
qed

end
