(* ===== verification/NackGenerator.thy ===== *)
theory NackGenerator
  imports SeqManager
begin

text \<open>
  \<^verbatim>\<open>RTC::NackGenerator\<close> (\<^verbatim>\<open>src/RTC/NackGenerator.cpp\<close>): keeps the list of lost packets of a received
  stream and asks for them. The \<open>std::map\<close> and the two \<open>std::set\<close>s ordered by \<open>SeqLowerThan\<close> are their
  iteration orders; this is what the C++ containers do as long as their keys lie within half the
  sequence number space (otherwise the comparator is no strict weak ordering).

  A call of the listener is an event. \<open>DepLibUV::GetTimeMs()\<close> is the argument \<open>nowMs\<close> of the operations.
  \<open>ng_timer\<close> is whether the one-shot timer is armed. The outer \<open>None\<close> is a failed assertion.
\<close>

subsection \<open>State\<close>

abbreviation (input) "MaxPacketAge \<equiv> (10000 :: u16)"
abbreviation (input) "MaxNackPackets \<equiv> (1000 :: nat)"
abbreviation (input) "DefaultRtt \<equiv> (100 :: u32)"
abbreviation (input) "MaxNackRetries \<equiv> (10 :: u8)"

record NackInfo =
  ni_seq :: u16
  sendAtSeq :: u16
  sentAtMs :: u64
  retries :: u8

datatype NackFilter = SEQ | TIME

datatype nack_event = NackRequired "u16 list" | KeyFrameRequired

type_synonym nack_list = "(u16 \<times> NackInfo) list"

record nack_generator =
  nackList :: nack_list
  keyFrameList :: "u16 list"
  recoveredList :: "u16 list"
  started :: bool
  lastSeq :: u16
  ng_rtt :: u32
  ng_timer :: bool

definition NackGenerator_new :: nack_generator where
  "NackGenerator_new = \<lparr>nackList = [], keyFrameList = [], recoveredList = [], started = False, lastSeq = 0,
     ng_rtt = DefaultRtt, ng_timer = False\<rparr>"

subsection \<open>The containers\<close>

definition nack_lower_bound :: "u16 \<Rightarrow> nack_list \<Rightarrow> nack_list" where
  "nack_lower_bound key nl = dropWhile (\<lambda>e. IsSeqLowerThan (fst e) key) nl"

definition nack_find :: "u16 \<Rightarrow> nack_list \<Rightarrow> bool" where
  "nack_find key nl \<longleftrightarrow>
     (let it = nack_lower_bound key nl in it \<noteq> [] \<and> \<not> IsSeqLowerThan key (fst (hd it)))"

definition nack_erase :: "u16 \<Rightarrow> nack_list \<Rightarrow> nack_list" where
  "nack_erase key nl = takeWhile (\<lambda>e. IsSeqLowerThan (fst e) key) nl @ tl (nack_lower_bound key nl)"

definition nack_emplace :: "u16 \<Rightarrow> NackInfo \<Rightarrow> nack_list \<Rightarrow> nack_list" where
  "nack_emplace key i nl = (if nack_find key nl then nl
     else takeWhile (\<lambda>e. IsSeqLowerThan (fst e) key) nl @ (key, i) # nack_lower_bound key nl)"

definition seq_set_find :: "u16 \<Rightarrow> u16 list \<Rightarrow> bool" where
  "seq_set_find key l \<longleftrightarrow> (let it = dropped_lower_bound key l in it \<noteq> [] \<and> \<not> IsSeqLowerThan key (hd it))"

subsection \<open>Operations\<close>

fun RemoveNackItemsUntilKeyFrame :: "u16 list \<Rightarrow> nack_list \<Rightarrow> bool \<times> u16 list \<times> nack_list" where
  "RemoveNackItemsUntilKeyFrame [] nl = (False, [], nl)"
| "RemoveNackItemsUntilKeyFrame (k # ks) nl =
     (let it = nack_lower_bound k nl in
      if length it \<noteq> length nl then (True, k # ks, it) else RemoveNackItemsUntilKeyFrame ks nl)"

lemma nack_lower_bound_length: "length (nack_lower_bound k nl) \<le> length nl"
  by (simp add: nack_lower_bound_def length_dropWhile_le)

lemma nack_lower_bound_suffix: "\<exists>n. nack_lower_bound k nl = drop n nl"
  unfolding nack_lower_bound_def by (metis dropWhile_eq_drop)

lemma RemoveNackItemsUntilKeyFrame_shrinks:
  "RemoveNackItemsUntilKeyFrame ks nl = (r, ks', nl') \<Longrightarrow>
     (r \<longrightarrow> length nl' < length nl) \<and> (\<exists>n. nl' = drop n nl)"
proof (induction ks nl rule: RemoveNackItemsUntilKeyFrame.induct)
  case (2 k ks nl)
  show ?case
  proof (cases "length (nack_lower_bound k nl) = length nl")
    case False
    with 2(2) have "r" "nl' = nack_lower_bound k nl" by (auto simp: Let_def)
    with False nack_lower_bound_length [of k nl] nack_lower_bound_suffix [of k nl] show ?thesis by simp
  qed (use 2 in \<open>simp add: Let_def\<close>)
qed (auto intro: exI [of _ 0])

text \<open>The loop that frees room by forgetting what precedes a received key frame.\<close>

function make_room :: "nat \<Rightarrow> u16 list \<Rightarrow> nack_list \<Rightarrow> u16 list \<times> nack_list" where
  "make_room numNewNacks ks nl =
     (case RemoveNackItemsUntilKeyFrame ks nl of (r, ks', nl') \<Rightarrow>
        if r \<and> length nl' + numNewNacks > MaxNackPackets then make_room numNewNacks ks' nl' else (ks', nl'))"
  by pat_completeness auto
termination
  by (relation "measure (\<lambda>(_, _, nl). length nl)") (auto dest!: RemoveNackItemsUntilKeyFrame_shrinks [OF sym])

declare make_room.simps [simp del]

text \<open>The loop over the missing numbers, \<open>n\<close> of them from \<open>seq\<close> on.\<close>

primrec add_missing :: "nat \<Rightarrow> u16 \<Rightarrow> u16 list \<Rightarrow> nack_list \<Rightarrow> nack_list option" where
  "add_missing 0 seq rl nl = Some nl"
| "add_missing (Suc n) seq rl nl =
     (if nack_find seq nl then None
      else add_missing n (seq + 1) rl
        (if seq_set_find seq rl then nl
         else nack_emplace seq \<lparr>ni_seq = seq, sendAtSeq = seq, sentAtMs = 0, retries = 0\<rparr> nl))"

definition AddPacketsToNackList :: "u16 \<Rightarrow> u16 \<Rightarrow> nack_generator \<Rightarrow> (nack_generator \<times> nack_event list) option" where
  "AddPacketsToNackList seqStart seqEnd s =
     (let nl = nack_lower_bound (seqEnd - MaxPacketAge) (nackList s);
          numNewNacks = unat (seqEnd - seqStart);
          (ks, nl) = (if length nl + numNewNacks > MaxNackPackets then make_room numNewNacks (keyFrameList s) nl
                      else (keyFrameList s, nl));
          s = s\<lparr>keyFrameList := ks, nackList := nl\<rparr>
      in if length nl + numNewNacks > MaxNackPackets
         then Some (s\<lparr>nackList := []\<rparr>, [KeyFrameRequired])
         else do {
           nl' \<leftarrow> add_missing numNewNacks seqStart (recoveredList s) nl;
           Some (s\<lparr>nackList := nl'\<rparr>, []) })"

definition nack_due :: "NackFilter \<Rightarrow> u64 \<Rightarrow> u16 \<Rightarrow> u32 \<Rightarrow> NackInfo \<Rightarrow> bool" where
  "nack_due flt nowMs lastNo rtt i \<longleftrightarrow>
     flt = SEQ \<and> sentAtMs i = 0 \<and> (sendAtSeq i = lastNo \<or> IsSeqHigherThan lastNo (sendAtSeq i)) \<or>
     flt = TIME \<and> nowMs - sentAtMs i \<ge> ucast rtt"

fun batch_loop :: "NackFilter \<Rightarrow> u64 \<Rightarrow> u16 \<Rightarrow> u32 \<Rightarrow> nack_list \<Rightarrow> u16 list \<times> nack_list" where
  "batch_loop flt nowMs lastNo rtt [] = ([], [])"
| "batch_loop flt nowMs lastNo rtt ((k, i) # nl) =
     (case batch_loop flt nowMs lastNo rtt nl of (batch, nl') \<Rightarrow>
        if nack_due flt nowMs lastNo rtt i then
          let i' = i\<lparr>retries := retries i + 1, sentAtMs := nowMs\<rparr>
          in (ni_seq i # batch, if retries i' \<ge> MaxNackRetries then nl' else (k, i') # nl')
        else (batch, (k, i) # nl'))"

definition GetNackBatch :: "NackFilter \<Rightarrow> u64 \<Rightarrow> nack_generator \<Rightarrow> u16 list \<times> nack_generator" where
  "GetNackBatch flt nowMs s =
     (case batch_loop flt nowMs (lastSeq s) (ng_rtt s) (nackList s) of
        (batch, nl) \<Rightarrow> (batch, s\<lparr>nackList := nl\<rparr>))"

definition MayRunTimer :: "nack_generator \<Rightarrow> nack_generator" where
  "MayRunTimer s = (if nackList s \<noteq> [] then s\<lparr>ng_timer := True\<rparr> else s)"

definition nack_events :: "u16 list \<Rightarrow> nack_event list" where
  "nack_events batch = (if batch \<noteq> [] then [NackRequired batch] else [])"

definition insert_and_purge :: "u16 \<Rightarrow> bool \<Rightarrow> u16 list \<Rightarrow> u16 list" where
  "insert_and_purge seq ins l = dropped_lower_bound (seq - MaxPacketAge) (if ins then dropped_insert seq l else l)"

definition ReceivePacket ::
  "u64 \<Rightarrow> u16 \<Rightarrow> bool \<Rightarrow> bool \<Rightarrow> nack_generator \<Rightarrow> (bool \<times> nack_event list \<times> nack_generator) option" where
  "ReceivePacket nowMs seq isKeyFrame isRecovered s =
     (if \<not> started s then
        Some (False, [], s\<lparr>started := True, lastSeq := seq,
          keyFrameList := if isKeyFrame then dropped_insert seq (keyFrameList s) else keyFrameList s\<rparr>)
      else if seq = lastSeq s then Some (False, [], s)
      else if IsSeqLowerThan seq (lastSeq s) then
        (if nack_find seq (nackList s) then Some (True, [], s\<lparr>nackList := nack_erase seq (nackList s)\<rparr>)
         else Some (False, [], s))
      else
        let s = s\<lparr>keyFrameList := insert_and_purge seq isKeyFrame (keyFrameList s)\<rparr> in
        if isRecovered then
          Some (False, [], s\<lparr>recoveredList := insert_and_purge seq True (recoveredList s)\<rparr>)
        else do {
          (s, ev) \<leftarrow> AddPacketsToNackList (lastSeq s + 1) seq s;
          let s = s\<lparr>lastSeq := seq\<rparr>;
          let (batch, s) = GetNackBatch SEQ nowMs s;
          Some (False, ev @ nack_events batch, if ng_timer s then s else MayRunTimer s) })"

definition UpdateRtt :: "u32 \<Rightarrow> nack_generator \<Rightarrow> nack_generator" where
  "UpdateRtt rtt s = s\<lparr>ng_rtt := rtt\<rparr>"

definition GetNackListLength :: "nack_generator \<Rightarrow> nat" where
  "GetNackListLength s = length (nackList s)"

definition Reset :: "nack_generator \<Rightarrow> nack_generator" where
  "Reset s = s\<lparr>nackList := [], keyFrameList := [], recoveredList := [], started := False, lastSeq := 0\<rparr>"

text \<open>\<open>OnTimer\<close> runs when the one-shot timer fires, which disarms it.\<close>

definition OnTimer :: "u64 \<Rightarrow> nack_generator \<Rightarrow> nack_event list \<times> nack_generator" where
  "OnTimer nowMs s =
     (let (batch, s) = GetNackBatch TIME nowMs (s\<lparr>ng_timer := False\<rparr>) in (nack_events batch, MayRunTimer s))"

subsection \<open>Distances behind the last sequence number\<close>

lemma unat_diff_eq_iff: "unat (n - a) = unat (n - b) \<longleftrightarrow> a = b" for n a b :: "'a::len word"
  by (simp add: word_unat_eq_iff [symmetric])

lemma unat_diff_add:
  fixes a b c :: "'a::len word"
  assumes "unat (b - a) + unat (c - b) < 2 ^ LENGTH('a)"
  shows "unat (c - a) = unat (b - a) + unat (c - b)"
proof -
  have "c - a = (b - a) + (c - b)" by simp
  with assms show ?thesis by (simp only: unat_word_ariths mod_less)
qed

text \<open>Behind \<open>n\<close>, the lower number is the one with the greater distance.\<close>

lemma lower_iff_behind:
  fixes n a b :: u16
  assumes "0 < unat (n - a)" "unat (n - a) < 2 ^ 15" "unat (n - b) \<le> 2 ^ 15"
  shows "IsSeqLowerThan a b \<longleftrightarrow> unat (n - b) < unat (n - a)"
    and "IsSeqLowerThan b a \<longleftrightarrow> unat (n - a) < unat (n - b)"
proof -
  have sub: "unat (y - x) = unat (n - x) - unat (n - y)" if "unat (n - y) \<le> unat (n - x)" for x y
  proof -
    have "y - x = (n - x) - (n - y)" by simp
    with that show ?thesis by (simp only: unat_sub word_le_nat_alt)
  qed
  show "IsSeqLowerThan a b \<longleftrightarrow> unat (n - b) < unat (n - a)" "IsSeqLowerThan b a \<longleftrightarrow> unat (n - a) < unat (n - b)"
  proof -
    consider "unat (n - b) < unat (n - a)" | "a = b" | "unat (n - a) < unat (n - b)"
      using unat_diff_eq_iff [of n a b] by linarith
    then have "(IsSeqLowerThan a b \<longleftrightarrow> unat (n - b) < unat (n - a)) \<and> (IsSeqLowerThan b a \<longleftrightarrow> unat (n - a) < unat (n - b))"
    proof cases
      case 1
      with sub [of b a] assms have "IsSeqHigherThan b a" by (intro seq.gt_near) auto
      with 1 seq.gt_asym show ?thesis by (auto simp: IsSeqLowerThan_swap)
    next
      case 2
      then show ?thesis by (simp add: IsSeqLowerThan_swap seq.gt_irrefl)
    next
      case 3
      with sub [of a b] assms have "IsSeqHigherThan a b" by (intro seq.gt_near) auto
      with 3 seq.gt_asym show ?thesis by (auto simp: IsSeqLowerThan_swap)
    qed
    then show "IsSeqLowerThan a b \<longleftrightarrow> unat (n - b) < unat (n - a)" "IsSeqLowerThan b a \<longleftrightarrow> unat (n - a) < unat (n - b)"
      by blast+
  qed
qed

lemma while_sorted_wrt:
  "sorted_wrt R xs \<Longrightarrow> \<forall>a \<in> set xs. \<forall>b \<in> set xs. R a b \<longrightarrow> P b \<longrightarrow> P a \<Longrightarrow>
   dropWhile P xs = filter (\<lambda>x. \<not> P x) xs \<and> takeWhile P xs = filter P xs"
proof (induction xs)
  case (Cons x xs)
  then have "\<not> P x \<Longrightarrow> filter (\<lambda>x. \<not> P x) xs = xs \<and> filter P xs = []"
    by (auto simp: filter_id_conv filter_empty_conv)
  with Cons show ?case by simp
qed simp

subsection \<open>Invariant\<close>

text \<open>The list of lost packets, in order, each behind \<open>n\<close> by at most \<open>MaxPacketAge\<close>.\<close>

definition nl_ok :: "u16 \<Rightarrow> nack_list \<Rightarrow> bool" where
  "nl_ok n nl \<longleftrightarrow> sorted_wrt (\<lambda>a b. unat (n - b) < unat (n - a)) (map fst nl) \<and>
     (\<forall>e \<in> set nl. 0 < unat (n - fst e) \<and> unat (n - fst e) \<le> 10000 \<and>
        ni_seq (snd e) = fst e \<and> sendAtSeq (snd e) = fst e \<and> retries (snd e) < 10)"

definition ng_inv :: "nack_generator \<Rightarrow> bool" where
  "ng_inv s \<longleftrightarrow> nl_ok (lastSeq s) (nackList s) \<and> length (nackList s) \<le> 1000 \<and>
     (nackList s \<noteq> [] \<longrightarrow> started s \<and> ng_timer s)"

lemma nl_ok_Nil [simp]: "nl_ok n []"
  by (simp add: nl_ok_def)

lemma nl_ok_drop: "nl_ok n nl \<Longrightarrow> nl_ok n (drop m nl)"
  unfolding nl_ok_def by (auto simp: drop_map [symmetric] sorted_wrt_drop dest: in_set_dropD)

lemma nl_ok_behind: "nl_ok n nl \<Longrightarrow> e \<in> set nl \<Longrightarrow> 0 < unat (n - fst e) \<and> unat (n - fst e) \<le> 10000"
  by (auto simp: nl_ok_def)

lemma nl_ok_lower_bound:
  assumes ok: "nl_ok n nl" and x: "unat (n - x) \<le> 2 ^ 15"
  shows "nack_lower_bound x nl = filter (\<lambda>e. unat (n - fst e) \<le> unat (n - x)) nl"
    and "takeWhile (\<lambda>e. IsSeqLowerThan (fst e) x) nl = filter (\<lambda>e. unat (n - x) < unat (n - fst e)) nl"
proof -
  have low: "IsSeqLowerThan (fst e) x \<longleftrightarrow> unat (n - x) < unat (n - fst e)" if "e \<in> set nl" for e
    using nl_ok_behind [OF ok that] x by (intro lower_iff_behind) auto
  have srt: "sorted_wrt (\<lambda>a b. unat (n - fst b) < unat (n - fst a)) nl"
    using ok by (simp add: nl_ok_def sorted_wrt_map)
  have "dropWhile (\<lambda>e. IsSeqLowerThan (fst e) x) nl = filter (\<lambda>e. \<not> IsSeqLowerThan (fst e) x) nl \<and>
      takeWhile (\<lambda>e. IsSeqLowerThan (fst e) x) nl = filter (\<lambda>e. IsSeqLowerThan (fst e) x) nl"
  proof (rule while_sorted_wrt [OF srt], intro ballI impI)
    fix a b assume "a \<in> set nl" "b \<in> set nl" "unat (n - fst b) < unat (n - fst a)" "IsSeqLowerThan (fst b) x"
    then show "IsSeqLowerThan (fst a) x" using low [of a] low [of b] by linarith
  qed
  moreover have "filter (\<lambda>e. \<not> IsSeqLowerThan (fst e) x) nl = filter (\<lambda>e. unat (n - fst e) \<le> unat (n - x)) nl"
    "filter (\<lambda>e. IsSeqLowerThan (fst e) x) nl = filter (\<lambda>e. unat (n - x) < unat (n - fst e)) nl"
    using low by (intro filter_cong [OF refl]; force simp: not_less)+
  ultimately show "nack_lower_bound x nl = filter (\<lambda>e. unat (n - fst e) \<le> unat (n - x)) nl"
    "takeWhile (\<lambda>e. IsSeqLowerThan (fst e) x) nl = filter (\<lambda>e. unat (n - x) < unat (n - fst e)) nl"
    by (simp_all only: nack_lower_bound_def)
qed

lemma nl_ok_find:
  assumes ok: "nl_ok n nl" and x: "unat (n - x) \<le> 2 ^ 15"
  shows "nack_find x nl \<longleftrightarrow> x \<in> fst ` set nl"
proof -
  let ?it = "filter (\<lambda>e. unat (n - fst e) \<le> unat (n - x)) nl"
  have "nack_find x nl \<longleftrightarrow> ?it \<noteq> [] \<and> \<not> IsSeqLowerThan x (fst (hd ?it))"
    by (simp only: nack_find_def nl_ok_lower_bound(1) [OF assms] Let_def)
  also have "\<dots> \<longleftrightarrow> ?it \<noteq> [] \<and> fst (hd ?it) = x"
  proof (rule conj_cong [OF refl])
    assume "?it \<noteq> []"
    from hd_in_set [OF this] have m: "hd ?it \<in> set nl" "unat (n - fst (hd ?it)) \<le> unat (n - x)" by auto
    with nl_ok_behind [OF ok m(1)] x lower_iff_behind(2) [of n "fst (hd ?it)" x]
    show "(\<not> IsSeqLowerThan x (fst (hd ?it))) = (fst (hd ?it) = x)" by (auto simp: le_less unat_diff_eq_iff)
  qed
  also have "\<dots> \<longleftrightarrow> x \<in> fst ` set nl"
  proof
    assume "x \<in> fst ` set nl"
    then obtain e where e: "e \<in> set ?it" "fst e = x" by auto
    have "sorted_wrt (\<lambda>a b. unat (n - fst b) < unat (n - fst a)) ?it"
      using ok by (intro sorted_wrt_filter) (simp add: nl_ok_def sorted_wrt_map)
    then have "unat (n - fst e) \<le> unat (n - fst (hd ?it))" using e(1) by (cases ?it) auto
    moreover have ne: "?it \<noteq> []" using e(1) by force
    moreover from hd_in_set [OF ne] have "unat (n - fst (hd ?it)) \<le> unat (n - x)" by auto
    ultimately show "?it \<noteq> [] \<and> fst (hd ?it) = x" using e(2) unat_diff_eq_iff [of n x] by (metis le_antisym)
  next
    assume a: "?it \<noteq> [] \<and> fst (hd ?it) = x"
    then have "hd ?it \<in> set ?it" by (intro hd_in_set) simp
    then show "x \<in> fst ` set nl" using a by force
  qed
  finally show ?thesis .
qed

lemma nl_ok_erase:
  assumes ok: "nl_ok n nl" and x: "unat (n - x) \<le> 2 ^ 15" and "x \<in> fst ` set nl"
  shows "nack_erase x nl = filter (\<lambda>e. fst e \<noteq> x) nl"
proof -
  from assms(3) obtain us i vs where nl: "nl = us @ (x, i) # vs" by (auto dest: split_list)
  have us: "unat (n - x) < unat (n - fst e)" if "e \<in> set us" for e
    using ok that by (auto simp: nl nl_ok_def sorted_wrt_append)
  have vs: "unat (n - fst e) < unat (n - x)" if "e \<in> set vs" for e
    using ok that by (auto simp: nl nl_ok_def sorted_wrt_append)
  have "filter (\<lambda>e. unat (n - fst e) \<le> unat (n - x)) us = []" "filter (\<lambda>e. unat (n - fst e) \<le> unat (n - x)) vs = vs"
    "filter (\<lambda>e. unat (n - x) < unat (n - fst e)) us = us" "filter (\<lambda>e. unat (n - x) < unat (n - fst e)) vs = []"
    "filter (\<lambda>e. fst e \<noteq> x) us = us" "filter (\<lambda>e. fst e \<noteq> x) vs = vs"
    using us vs by (force simp: filter_empty_conv filter_id_conv)+
  then show ?thesis unfolding nack_erase_def nl_ok_lower_bound [OF ok x] by (simp add: nl)
qed

lemma nl_ok_filter: "nl_ok n nl \<Longrightarrow> nl_ok n (filter P nl)"
  by (auto simp: nl_ok_def sorted_wrt_map intro: sorted_wrt_filter)

subsection \<open>Adding the missing packets\<close>

text \<open>Moving the reference forward by \<open>m - n\<close> keeps the order of the list; the purge leaves what is still
  young enough.\<close>

lemma nl_ok_advance:
  assumes ok: "nl_ok n nl" and m: "unat (m - n) \<le> 2000"
  shows "nl_ok m (nack_lower_bound (m - MaxPacketAge) nl)"
    and "e \<in> set nl \<Longrightarrow> unat (m - fst e) = unat (n - fst e) + unat (m - n)"
    and "nack_lower_bound (m - MaxPacketAge) nl = filter (\<lambda>e. unat (m - fst e) \<le> 10000) nl"
proof -
  show dist: "unat (m - fst e) = unat (n - fst e) + unat (m - n)" if "e \<in> set nl" for e
    using nl_ok_behind [OF ok that] m by (intro unat_diff_add) simp
  have srt: "sorted_wrt (\<lambda>a b. unat (m - fst b) < unat (m - fst a)) nl"
  proof (rule sorted_wrt_mono_rel)
    show "sorted_wrt (\<lambda>a b. unat (n - fst b) < unat (n - fst a)) nl" using ok by (simp add: nl_ok_def sorted_wrt_map)
  qed (simp add: dist)
  have low: "IsSeqLowerThan (fst e) (m - MaxPacketAge) \<longleftrightarrow> 10000 < unat (m - fst e)" if "e \<in> set nl" for e
    using nl_ok_behind [OF ok that] dist [OF that] m lower_iff_behind(1) [of m "fst e" "m - MaxPacketAge"] by auto
  have lb: "nack_lower_bound (m - MaxPacketAge) nl = filter (\<lambda>e. \<not> IsSeqLowerThan (fst e) (m - MaxPacketAge)) nl"
    unfolding nack_lower_bound_def
  proof (rule while_sorted_wrt [OF srt, THEN conjunct1], intro ballI impI)
    fix a b assume "a \<in> set nl" "b \<in> set nl" "unat (m - fst b) < unat (m - fst a)"
      "IsSeqLowerThan (fst b) (m - MaxPacketAge)"
    then show "IsSeqLowerThan (fst a) (m - MaxPacketAge)" using low [of a] low [of b] by linarith
  qed
  show "nack_lower_bound (m - MaxPacketAge) nl = filter (\<lambda>e. unat (m - fst e) \<le> 10000) nl"
    unfolding lb using low by (intro filter_cong [OF refl]) (simp add: not_less)
  have "sorted_wrt (\<lambda>a b. unat (m - fst b) < unat (m - fst a))
      (filter (\<lambda>e. \<not> IsSeqLowerThan (fst e) (m - MaxPacketAge)) nl)" by (rule sorted_wrt_filter [OF srt])
  with lb show "nl_ok m (nack_lower_bound (m - MaxPacketAge) nl)"
    using ok dist low by (auto simp: nl_ok_def sorted_wrt_map)
qed

lemma make_room_suffix: "make_room n ks nl = (ks', nl') \<Longrightarrow> \<exists>m. nl' = drop m nl"
proof (induction n ks nl rule: make_room.induct)
  case (1 n ks nl)
  obtain r ks1 nl1 where R: "RemoveNackItemsUntilKeyFrame ks nl = (r, ks1, nl1)" by (metis prod_cases3)
  then obtain m where m: "nl1 = drop m nl" using RemoveNackItemsUntilKeyFrame_shrinks by blast
  show ?case
  proof (cases "r \<and> length nl1 + n > 1000")
    case True
    with 1(2) R have "make_room n ks1 nl1 = (ks', nl')" by (simp add: make_room.simps [of n ks nl])
    from 1(1) [OF R [symmetric] refl True this] m show ?thesis by (auto simp: drop_drop)
  next
    case False
    with 1(2) R m show ?thesis by (auto simp: make_room.simps [of n ks nl])
  qed
qed

definition missing_seqs :: "u16 \<Rightarrow> nat \<Rightarrow> u16 list \<Rightarrow> u16 list" where
  "missing_seqs x n rl = filter (\<lambda>k. \<not> seq_set_find k rl) (map (\<lambda>i. x + of_nat i) [0..<n])"

definition new_entry :: "u16 \<Rightarrow> u16 \<times> NackInfo" where
  "new_entry k = (k, \<lparr>ni_seq = k, sendAtSeq = k, sentAtMs = 0, retries = 0\<rparr>)"

lemma missing_seqs_Suc:
  "missing_seqs x (Suc n) rl = (if seq_set_find x rl then [] else [x]) @ missing_seqs (x + 1) n rl"
proof -
  have "map (\<lambda>i. x + of_nat i) [0..<Suc n] = x # map (\<lambda>i. x + 1 + of_nat i) [0..<n]"
    unfolding map_upt_Suc by (simp add: algebra_simps)
  then show ?thesis by (simp add: missing_seqs_def del: upt_Suc)
qed

lemma add_missing_spec:
  "\<forall>e \<in> set nl. 0 < unat (x - fst e) \<and> unat (x - fst e) + n < 2 ^ 15 \<Longrightarrow> n < 2 ^ 15 \<Longrightarrow>
   add_missing n x rl nl = Some (nl @ map new_entry (missing_seqs x n rl))"
proof (induction n arbitrary: x nl)
  case (Suc n)
  have low: "\<forall>e \<in> set nl. IsSeqLowerThan (fst e) x" using Suc.prems by (auto intro!: behind_lower)
  then have lb: "nack_lower_bound x nl = []" "takeWhile (\<lambda>e. IsSeqLowerThan (fst e) x) nl = nl"
    by (simp_all only: nack_lower_bound_def dropWhile_eq_Nil_conv takeWhile_eq_all_conv)
  then have nf: "\<not> nack_find x nl" by (simp add: nack_find_def)
  then have ins: "nack_emplace x i nl = nl @ [(x, i)]" for i by (simp add: nack_emplace_def lb)
  have step: "0 < unat (x + 1 - fst e) \<and> unat (x + 1 - fst e) + n < 2 ^ 15" if "e \<in> set nl" for e
    using Suc.prems that unat_Suc_diff [of x "fst e"] by force
  then have "add_missing n (x + 1) rl nl = Some (nl @ map new_entry (missing_seqs (x + 1) n rl))"
    using Suc.prems by (intro Suc.IH) auto
  moreover have "add_missing n (x + 1) rl (nl @ [new_entry x]) =
      Some ((nl @ [new_entry x]) @ map new_entry (missing_seqs (x + 1) n rl))"
    using Suc.prems step by (intro Suc.IH) (auto simp: new_entry_def)
  ultimately show ?case using nf by (simp add: missing_seqs_Suc ins new_entry_def)
qed (simp add: missing_seqs_def)

lemma missing_dist:
  fixes n m :: u16
  assumes "i < unat (m - n) - 1"
  shows "unat (m - (n + 1 + of_nat i)) = unat (m - n) - 1 - i"
proof -
  have i: "Suc i < 2 ^ 16" using assms unat_less [of "m - n"] by simp
  then have "unat (1 + of_nat i :: u16) = Suc i" using unat_of_nat_less [of "Suc i", where 'a = 16] by simp
  moreover have "m - (n + 1 + of_nat i) = (m - n) - (1 + of_nat i)" by simp
  moreover have "(1 + of_nat i :: u16) \<le> m - n" using assms calculation(1) by (simp add: word_le_nat_alt)
  ultimately show ?thesis by (simp only: unat_sub diff_diff_left plus_1_eq_Suc)
qed

lemma nl_ok_append_missing:
  assumes ok: "nl_ok m nl" and far: "\<forall>e \<in> set nl. unat (m - n) \<le> unat (m - fst e)" and j: "unat (m - n) \<le> 10000"
  shows "nl_ok m (nl @ map new_entry (missing_seqs (n + 1) (unat (m - n) - 1) rl))"
proof -
  let ?f = "\<lambda>i. n + 1 + of_nat i :: u16" and ?j = "unat (m - n) - 1"
  have dist: "unat (m - ?f i) = ?j - i" if "i < ?j" for i
    using missing_dist [OF that] by simp
  have "sorted_wrt (\<lambda>a b. unat (m - b) < unat (m - a)) (map ?f [0..<?j])"
    unfolding sorted_wrt_map by (rule sorted_wrt_mono_rel [OF _ sorted_wrt_upt]) (auto simp: dist)
  then have "sorted_wrt (\<lambda>a b. unat (m - b) < unat (m - a)) (missing_seqs (n + 1) ?j rl)"
    unfolding missing_seqs_def by (rule sorted_wrt_filter)
  moreover have "0 < unat (m - k) \<and> unat (m - k) < unat (m - n)" if "k \<in> set (missing_seqs (n + 1) ?j rl)" for k
    using that dist by (auto simp: missing_seqs_def)
  ultimately show ?thesis
    using ok far j by (fastforce simp: nl_ok_def sorted_wrt_append new_entry_def o_def)
qed

lemma AddPacketsToNackList_spec:
  assumes ok: "nl_ok (lastSeq s) (nackList s)" and j: "0 < unat (seq - lastSeq s)"
  defines "j \<equiv> unat (seq - lastSeq s)" and "nl \<equiv> nack_lower_bound (seq - MaxPacketAge) (nackList s)"
  shows "\<exists>ks nl' ev. AddPacketsToNackList (lastSeq s + 1) seq s = Some (s\<lparr>keyFrameList := ks, nackList := nl'\<rparr>, ev) \<and>
    nl_ok seq nl' \<and> length nl' \<le> 1000 \<and> (ev = [] \<or> ev = [KeyFrameRequired] \<and> nl' = []) \<and>
    (length nl + (j - 1) \<le> 1000 \<longrightarrow> ev = [] \<and> nl' = nl @ map new_entry (missing_seqs (lastSeq s + 1) (j - 1) (recoveredList s))) \<and>
    (1001 < j \<longrightarrow> ev = [KeyFrameRequired]) \<and>
    fst ` set nl' \<subseteq> fst ` set (nackList s) \<union> {k. \<not> seq_set_find k (recoveredList s)}"
proof -
  have num: "unat (seq - (lastSeq s + 1)) = j - 1"
    using j unat_minus_one [of "seq - lastSeq s"] by (simp add: j_def diff_diff_eq unat_gt_0)
  obtain ks nl1 where room: "(if length nl + (j - 1) > 1000 then make_room (j - 1) (keyFrameList s) nl
      else (keyFrameList s, nl)) = (ks, nl1)" by fastforce
  have "\<exists>m. nl1 = drop m nl"
  proof (cases "length nl + (j - 1) > 1000")
    case False
    with room have "nl1 = drop 0 nl" by simp
    then show ?thesis ..
  qed (use room make_room_suffix in auto)
  then obtain m where m: "nl1 = drop m nl" ..
  have add: "AddPacketsToNackList (lastSeq s + 1) seq s =
      (if length nl1 + (j - 1) > 1000 then Some (s\<lparr>keyFrameList := ks, nackList := []\<rparr>, [KeyFrameRequired])
       else do { nl' \<leftarrow> add_missing (j - 1) (lastSeq s + 1) (recoveredList s) nl1;
                 Some (s\<lparr>keyFrameList := ks, nackList := nl'\<rparr>, []) })"
    unfolding AddPacketsToNackList_def num Let_def nl_def [symmetric] room by simp
  show ?thesis
  proof (cases "length nl1 + (j - 1) > 1000")
    case True
    moreover have "\<not> length nl + (j - 1) \<le> 1000" using True m by auto
    ultimately show ?thesis by (auto simp: add)
  next
    case False
    then have jl: "j \<le> 1001" by simp
    note adv = nl_ok_advance [OF ok, of seq]
    have nl: "nl_ok seq nl" using adv(1) jl by (simp add: nl_def j_def)
    have sub: "set nl1 \<subseteq> set (nackList s)"
      unfolding m nl_def nack_lower_bound_def by (meson set_drop_subset set_dropWhileD subsetD subsetI)
    have far: "0 < unat (lastSeq s + 1 - fst e) \<and> unat (lastSeq s + 1 - fst e) \<le> 10001 \<and> j \<le> unat (seq - fst e)"
      if "e \<in> set nl1" for e
      using that sub nl_ok_behind [OF ok, of e] adv(2) [of e] jl unat_Suc_diff [of "lastSeq s" "fst e"]
      by (auto simp: j_def)
    have "add_missing (j - 1) (lastSeq s + 1) (recoveredList s) nl1 =
        Some (nl1 @ map new_entry (missing_seqs (lastSeq s + 1) (j - 1) (recoveredList s)))"
    proof (intro add_missing_spec ballI)
      fix e assume "e \<in> set nl1"
      from far [OF this] jl
      show "0 < unat (lastSeq s + 1 - fst e) \<and> unat (lastSeq s + 1 - fst e) + (j - 1) < 2 ^ 15" by (simp, linarith)
    qed (use jl in simp)
    moreover have "nl_ok seq (nl1 @ map new_entry (missing_seqs (lastSeq s + 1) (j - 1) (recoveredList s)))"
      unfolding j_def
    proof (intro nl_ok_append_missing ballI)
      show "nl_ok seq nl1" using nl_ok_drop [OF nl] by (simp add: m)
      show "unat (seq - lastSeq s) \<le> unat (seq - fst e)" if "e \<in> set nl1" for e using far [OF that] by (simp add: j_def)
    qed (use jl in \<open>simp add: j_def\<close>)
    moreover have "length (missing_seqs (lastSeq s + 1) (j - 1) (recoveredList s)) \<le> j - 1"
      unfolding missing_seqs_def by (rule order_trans [OF length_filter_le]) simp
    moreover have "nl1 = nl" if "length nl + (j - 1) \<le> 1000" using room that by simp
    ultimately show ?thesis using False jl sub
      by (intro exI [of _ ks] exI [of _ "nl1 @ map new_entry (missing_seqs (lastSeq s + 1) (j - 1) (recoveredList s))"]
          exI [of _ "[]"]) (auto simp: add new_entry_def missing_seqs_def intro: rev_image_eqI dest: subsetD [OF sub])
  qed
qed

subsection \<open>Requesting packets\<close>

lemma batch_loop_spec:
  "batch_loop flt now n rtt nl = (batch, nl') \<Longrightarrow>
   batch = map (ni_seq \<circ> snd) (filter (\<lambda>e. nack_due flt now n rtt (snd e)) nl) \<and>
   nl' = concat (map (\<lambda>(k, i). if nack_due flt now n rtt i
     then if retries i + 1 \<ge> 10 then [] else [(k, i\<lparr>retries := retries i + 1, sentAtMs := now\<rparr>)] else [(k, i)]) nl)"
proof (induction nl arbitrary: batch nl')
  case (Cons e nl)
  obtain k i where e: "e = (k, i)" by force
  obtain b l where bl: "batch_loop flt now n rtt nl = (b, l)" by force
  from Cons.prems Cons.IH [OF bl] show ?case by (auto simp: e bl Let_def split: if_splits)
qed simp

lemma batch_loop_ok:
  "batch_loop flt now n rtt nl = (batch, nl') \<Longrightarrow> nl_ok m nl \<Longrightarrow>
   nl_ok m nl' \<and> fst ` set nl' \<subseteq> fst ` set nl \<and> length nl' \<le> length nl"
proof (induction nl arbitrary: batch nl')
  case (Cons e nl)
  obtain k i where e: "e = (k, i)" by force
  obtain b l where bl: "batch_loop flt now n rtt nl = (b, l)" by force
  have ok: "nl_ok m nl" and k: "\<forall>x \<in> fst ` set nl. unat (m - x) < unat (m - k)" "retries i < 10"
    using Cons.prems(2) by (auto simp: nl_ok_def e)
  from Cons.IH [OF bl ok] have IH: "nl_ok m l" "fst ` set l \<subseteq> fst ` set nl" "length l \<le> length nl" by auto
  have "\<forall>x \<in> set l. unat (m - fst x) < unat (m - k)" using k(1) IH(2) by blast
  then have keep: "nl_ok m ((k, i') # l)" if "retries i' < 10" "ni_seq i' = ni_seq i" "sendAtSeq i' = sendAtSeq i" for i'
    using IH(1) that Cons.prems(2) by (auto simp: nl_ok_def e)
  from k(2) IH keep [of i] keep [of "i\<lparr>retries := retries i + 1, sentAtMs := now\<rparr>"] Cons.prems(1)
  have "nl' = l \<or> (\<exists>i'. nl' = (k, i') # l \<and> nl_ok m ((k, i') # l))"
    by (auto simp: e bl Let_def not_le split: if_splits)
  then show ?case using IH by (elim disjE exE conjE) (simp_all add: e subset_insertI2)
qed simp

lemma ahead_if_not_lower:
  fixes seq n :: u16
  assumes "\<not> IsSeqLowerThan seq n" and "seq \<noteq> n"
  shows "0 < unat (seq - n)" and "unat (seq - n) \<le> 2 ^ 15"
  using assms seq.gt_total [of seq n] IsSeqHigherThan_unat [of seq n]
  by (auto simp: IsSeqLowerThan_swap split: if_splits)

lemma behind_if_lower:
  fixes seq n :: u16
  assumes "IsSeqLowerThan seq n"
  shows "0 < unat (n - seq)" and "unat (n - seq) \<le> 2 ^ 15"
  using assms IsSeqHigherThan_unat [of n seq] by (auto simp: IsSeqLowerThan_swap split: if_splits)

lemma ReceivePacket_inv:
  assumes inv: "ng_inv s"
  shows "\<exists>r ev s'. ReceivePacket now seq kf rec s = Some (r, ev, s') \<and> ng_inv s'"
proof -
  have ok: "nl_ok (lastSeq s) (nackList s)" and len: "length (nackList s) \<le> 1000"
    and tm: "nackList s \<noteq> [] \<longrightarrow> started s \<and> ng_timer s" using inv by (auto simp: ng_inv_def)
  consider "\<not> started s" | "started s" "seq = lastSeq s" | "started s" "IsSeqLowerThan seq (lastSeq s)" "seq \<noteq> lastSeq s"
    | (rec) "started s" "\<not> IsSeqLowerThan seq (lastSeq s)" "seq \<noteq> lastSeq s" "rec"
    | (new) "started s" "\<not> IsSeqLowerThan seq (lastSeq s)" "seq \<noteq> lastSeq s" "\<not> rec" by blast
  then show ?thesis
  proof cases
    case 3
    from behind_if_lower(2) [OF 3(2)] nl_ok_find [OF ok] nl_ok_erase [OF ok] nl_ok_filter [OF ok]
    have "nack_find seq (nackList s) \<Longrightarrow> nl_ok (lastSeq s) (nack_erase seq (nackList s)) \<and>
        length (nack_erase seq (nackList s)) \<le> 1000"
      using len by (auto intro: order_trans [OF length_filter_le])
    with 3 inv tm show ?thesis by (auto simp: ReceivePacket_def ng_inv_def nack_find_def nack_lower_bound_def)
  next
    case new
    let ?s = "s\<lparr>keyFrameList := insert_and_purge seq kf (keyFrameList s)\<rparr>"
    from ahead_if_not_lower [OF new(2,3)] AddPacketsToNackList_spec [of ?s seq] ok
    obtain ks nl ev where a: "AddPacketsToNackList (lastSeq s + 1) seq ?s = Some (?s\<lparr>keyFrameList := ks, nackList := nl\<rparr>, ev)"
      "nl_ok seq nl" "length nl \<le> 1000" by auto
    obtain b nl' where b: "batch_loop SEQ now seq (ng_rtt s) nl = (b, nl')" by force
    from batch_loop_ok [OF b a(2)] a(3) have "nl_ok seq nl'" "length nl' \<le> 1000" by auto
    with new a(1) b show ?thesis
      by (auto simp: ReceivePacket_def ng_inv_def GetNackBatch_def MayRunTimer_def Let_def)
  qed (use inv in \<open>auto simp: ReceivePacket_def ng_inv_def\<close>)
qed

lemma OnTimer_inv: "ng_inv s \<Longrightarrow> ng_inv (snd (OnTimer now s))"
  using batch_loop_ok [of TIME now "lastSeq s" "ng_rtt s" "nackList s" _ _ "lastSeq s"]
  by (fastforce simp: OnTimer_def GetNackBatch_def ng_inv_def MayRunTimer_def Let_def split: prod.split)

subsection \<open>Runs\<close>

text \<open>What happens to a generator: a packet is received, the timer fires (when armed), the round trip
  time is updated, the generator is reset.\<close>

datatype nack_op = Receive u64 u16 bool bool | TimerFires u64 | SetRtt u32 | DoReset

fun nack_step :: "nack_op \<Rightarrow> nack_generator \<Rightarrow> (nack_event list \<times> nack_generator) option" where
  "nack_step (Receive now seq kf rec) s = map_option snd (ReceivePacket now seq kf rec s)"
| "nack_step (TimerFires now) s = Some (if ng_timer s then OnTimer now s else ([], s))"
| "nack_step (SetRtt rtt) s = Some ([], UpdateRtt rtt s)"
| "nack_step DoReset s = Some ([], Reset s)"

primrec nack_run :: "nack_op list \<Rightarrow> nack_generator \<Rightarrow> (nack_event list \<times> nack_generator) option" where
  "nack_run [] s = Some ([], s)"
| "nack_run (op # ops) s = do {
     (ev, s) \<leftarrow> nack_step op s;
     (evs, s) \<leftarrow> nack_run ops s;
     Some (ev @ evs, s) }"

lemma nack_step_inv: "ng_inv s \<Longrightarrow> \<exists>ev s'. nack_step op s = Some (ev, s') \<and> ng_inv s'"
proof (cases op)
  case (Receive now seq kf rec)
  assume "ng_inv s"
  from ReceivePacket_inv [OF this, of now seq kf rec] Receive show ?thesis by auto
next
  case (TimerFires now)
  assume "ng_inv s"
  with OnTimer_inv [OF this, of now] TimerFires show ?thesis by (cases "OnTimer now s") auto
qed (auto simp: UpdateRtt_def Reset_def ng_inv_def)

lemma nack_run_inv: "ng_inv s \<Longrightarrow> \<exists>evs s'. nack_run ops s = Some (evs, s') \<and> ng_inv s'"
proof (induction ops arbitrary: s)
  case (Cons op ops)
  from nack_step_inv [OF Cons.prems, of op] obtain ev s1 where "nack_step op s = Some (ev, s1)" "ng_inv s1" by blast
  with Cons.IH [of s1] show ?case by auto
qed simp

lemma ng_inv_new: "ng_inv NackGenerator_new"
  by (simp add: ng_inv_def NackGenerator_new_def)

text \<open>C13: whatever packets a new generator is given, in whatever order, and whenever its timer fires, no
  assertion fails, at most \<open>MaxNackPackets\<close> numbers are pending, in order and all different, each behind the last
  one by at most \<open>MaxPacketAge\<close> and requested less than \<open>MaxNackRetries\<close> times, and the timer is armed
  while any is pending.\<close>

theorem NackGenerator_safe:
  "\<exists>evs s. nack_run ops NackGenerator_new = Some (evs, s) \<and> GetNackListLength s \<le> 1000 \<and>
     sorted_wrt (\<lambda>a b. unat (lastSeq s - b) < unat (lastSeq s - a)) (map fst (nackList s)) \<and>
     distinct (map fst (nackList s)) \<and> (nackList s \<noteq> [] \<longrightarrow> ng_timer s) \<and>
     (\<forall>(k, i) \<in> set (nackList s). 0 < unat (lastSeq s - k) \<and> unat (lastSeq s - k) \<le> 10000 \<and> retries i < 10)"
proof -
  obtain evs s where run: "nack_run ops NackGenerator_new = Some (evs, s)" and inv: "ng_inv s"
    using nack_run_inv [OF ng_inv_new] by blast
  have "distinct (map fst (nackList s))"
    using inv by (auto simp: ng_inv_def nl_ok_def strict_sorted_iff distinct_conv_nth sorted_wrt_iff_nth_less)
       (metis nat_neq_iff)
  with run inv show ?thesis by (auto simp: ng_inv_def nl_ok_def GetNackListLength_def)
qed

theorem NackGenerator_safe_witness:
  "\<exists>evs s. nack_run [Receive 7 65534 False False, Receive 9 2 False False] NackGenerator_new = Some (evs, s) \<and>
     GetNackListLength s \<le> 1000"
  using NackGenerator_safe [of "[Receive 7 65534 False False, Receive 9 2 False False]"] by blast

text \<open>a packet that is behind the last one is answered with whether it was pending; it is then no
  longer pending, no other packet is affected and nothing is requested.\<close>

lemma ReceivePacket_behind:
  assumes "ng_inv s" and "started s" and "IsSeqLowerThan seq (lastSeq s)"
  shows "ReceivePacket now seq kf rec s = Some (seq \<in> fst ` set (nackList s), [],
    s\<lparr>nackList := filter (\<lambda>e. fst e \<noteq> seq) (nackList s)\<rparr>)"
proof -
  have ok: "nl_ok (lastSeq s) (nackList s)" using assms(1) by (simp add: ng_inv_def)
  have "seq \<noteq> lastSeq s" using assms(3) seq.gt_irrefl by (auto simp: IsSeqLowerThan_swap)
  moreover note nl_ok_find [OF ok behind_if_lower(2) [OF assms(3)]] nl_ok_erase [OF ok behind_if_lower(2) [OF assms(3)]]
  moreover have "seq \<notin> fst ` set (nackList s) \<Longrightarrow> filter (\<lambda>e. fst e \<noteq> seq) (nackList s) = nackList s"
    by (force simp: filter_id_conv)
  ultimately show ?thesis using assms by (auto simp: ReceivePacket_def)
qed

lemma ReceivePacket_ahead:
  assumes inv: "ng_inv s" and "started s" and ahead: "\<not> IsSeqLowerThan seq (lastSeq s)" "seq \<noteq> lastSeq s"
    and add: "AddPacketsToNackList (lastSeq s + 1) seq (s\<lparr>keyFrameList := insert_and_purge seq kf (keyFrameList s)\<rparr>) =
      Some (s\<lparr>keyFrameList := ks, nackList := nl\<rparr>, ev)"
    and b: "batch_loop SEQ now seq (ng_rtt s) nl = (batch, nl')"
  shows "ReceivePacket now seq kf False s = Some (False, ev @ nack_events batch,
    s\<lparr>keyFrameList := ks, lastSeq := seq, nackList := nl', ng_timer := ng_timer s \<or> nl' \<noteq> []\<rparr>)"
  using assms by (auto simp: ReceivePacket_def GetNackBatch_def MayRunTimer_def Let_def)

definition sent_entry :: "u64 \<Rightarrow> u16 \<Rightarrow> u16 \<times> NackInfo" where
  "sent_entry now k = (k, \<lparr>ni_seq = k, sendAtSeq = k, sentAtMs = now, retries = 1\<rparr>)"

text \<open>A batch by sequence number requests exactly the new entries.\<close>

lemma batch_new:
  assumes ok: "nl_ok n (nl @ map new_entry ks)" and sent: "\<forall>e \<in> set nl. sentAtMs (snd e) \<noteq> 0"
  shows "batch_loop SEQ now n rtt (nl @ map new_entry ks) = (ks, nl @ map (sent_entry now) ks)"
proof -
  let ?due = "nack_due SEQ now n rtt"
  have new: "?due (snd (new_entry k))" if "k \<in> set ks" for k
  proof -
    have "0 < unat (n - k)" "unat (n - k) < 2 ^ 15"
      using nl_ok_behind [OF ok, of "new_entry k"] that by (auto simp: new_entry_def)
    then show ?thesis by (auto simp: nack_due_def new_entry_def intro: seq.gt_near)
  qed
  have upd: "\<And>k. k \<in> set ks \<Longrightarrow> (\<lambda>(k, i). if ?due i
      then if retries i + 1 \<ge> 10 then [] else [(k, i\<lparr>retries := retries i + 1, sentAtMs := now\<rparr>)] else [(k, i)]) (new_entry k)
      = [sent_entry now k]"
    using new by (auto simp: new_entry_def sent_entry_def word_le_nat_alt)
  have old: "\<And>e. e \<in> set nl \<Longrightarrow> (\<lambda>(k, i). if ?due i
      then if retries i + 1 \<ge> 10 then [] else [(k, i\<lparr>retries := retries i + 1, sentAtMs := now\<rparr>)] else [(k, i)]) e = [e]"
    "\<And>e. e \<in> set nl \<Longrightarrow> \<not> ?due (snd e)"
    using sent by (auto simp: nack_due_def split: prod.splits)
  obtain b l where b: "batch_loop SEQ now n rtt (nl @ map new_entry ks) = (b, l)" by force
  have "b = ks"
    using batch_loop_spec [OF b] new old(2)
    by (auto simp: filter_map o_def filter_empty_conv filter_id_conv new_entry_def)
  moreover have "l = nl @ map (sent_entry now) ks"
    using batch_loop_spec [OF b] by (simp add: old(1) upd o_def concat_map_singleton cong: map_cong)
  ultimately show ?thesis using b by simp
qed

lemma gap_requested:
  assumes inv: "ng_inv s" "started s" and ahead: "\<not> IsSeqLowerThan seq (lastSeq s)" "seq \<noteq> lastSeq s"
    and sent: "\<forall>e \<in> set (nackList s). sentAtMs (snd e) \<noteq> 0"
    and room: "GetNackListLength s + unat (seq - lastSeq s) \<le> 1001"
  shows "\<exists>ks s'. ks = filter (\<lambda>k. \<not> seq_set_find k (recoveredList s))
        (map (\<lambda>i. lastSeq s + 1 + of_nat i) [0..<unat (seq - lastSeq s) - 1]) \<and>
    ReceivePacket now seq kf False s = Some (False, nack_events ks, s') \<and> lastSeq s' = seq \<and> ng_inv s' \<and>
    map fst (nackList s') = filter (\<lambda>k. unat (seq - k) \<le> 10000) (map fst (nackList s)) @ ks"
proof -
  let ?s = "s\<lparr>keyFrameList := insert_and_purge seq kf (keyFrameList s)\<rparr>" and ?j = "unat (seq - lastSeq s)"
  let ?nl = "nack_lower_bound (seq - MaxPacketAge) (nackList s)"
  let ?ks = "missing_seqs (lastSeq s + 1) (?j - 1) (recoveredList s)"
  have ok: "nl_ok (lastSeq s) (nackList s)" using inv by (simp add: ng_inv_def)
  note j = ahead_if_not_lower [OF ahead]
  have jl: "?j \<le> 2000" using room by simp
  note old = nl_ok_advance(3) [OF ok jl]
  have "length ?nl + (?j - 1) \<le> 1000"
    using room j nack_lower_bound_length [of "seq - MaxPacketAge" "nackList s"] by (simp add: GetNackListLength_def)
  then obtain ks where add: "AddPacketsToNackList (lastSeq s + 1) seq ?s =
      Some (s\<lparr>keyFrameList := ks, nackList := ?nl @ map new_entry ?ks\<rparr>, [])" "nl_ok seq (?nl @ map new_entry ?ks)"
    using AddPacketsToNackList_spec [of ?s seq] ok j by auto
  have b: "batch_loop SEQ now seq (ng_rtt s) (?nl @ map new_entry ?ks) = (?ks, ?nl @ map (sent_entry now) ?ks)"
    using sent unfolding old by (intro batch_new [OF add(2) [unfolded old]]) simp
  let ?s' = "s\<lparr>keyFrameList := ks, lastSeq := seq, nackList := ?nl @ map (sent_entry now) ?ks,
    ng_timer := ng_timer s \<or> ?nl @ map (sent_entry now) ?ks \<noteq> []\<rparr>"
  have rp: "ReceivePacket now seq kf False s = Some (False, nack_events ?ks, ?s')"
    using ReceivePacket_ahead [OF inv ahead add(1) b] by simp
  moreover from rp ReceivePacket_inv [OF inv(1), of now seq kf False] have "ng_inv ?s'" by auto
  moreover have "map fst (nackList ?s') = filter (\<lambda>k. unat (seq - k) \<le> 10000) (map fst (nackList s)) @ ?ks"
    by (simp add: old sent_entry_def o_def filter_map)
  ultimately show ?thesis
    by (intro exI [of _ ?ks] exI [of _ ?s'] conjI) (simp_all only: missing_seqs_def, simp_all)
qed

text \<open>When the clock is not at zero, every number is requested when it is added to the list.\<close>

definition all_sent :: "nack_generator \<Rightarrow> bool" where
  "all_sent s \<longleftrightarrow> (\<forall>e \<in> set (nackList s). sentAtMs (snd e) \<noteq> 0)"

fun clock_runs :: "nack_op \<Rightarrow> bool" where
  "clock_runs (Receive now seq kf rec) \<longleftrightarrow> now \<noteq> 0"
| "clock_runs (TimerFires now) \<longleftrightarrow> now \<noteq> 0"
| "clock_runs _ \<longleftrightarrow> True"

lemma batch_loop_sent:
  assumes b: "batch_loop flt now n rtt nl = (batch, nl')" and now: "now \<noteq> 0"
    and nl: "\<And>k i. (k, i) \<in> set nl \<Longrightarrow> sentAtMs i = 0 \<Longrightarrow> nack_due flt now n rtt i"
  shows "\<forall>e \<in> set nl'. sentAtMs (snd e) \<noteq> 0"
  using b nl
proof (induction nl arbitrary: batch nl')
  case (Cons e nl)
  obtain k i where e: "e = (k, i)" by force
  obtain bs l where bl: "batch_loop flt now n rtt nl = (bs, l)" by force
  have "\<forall>e \<in> set l. sentAtMs (snd e) \<noteq> 0" by (rule Cons.IH [OF bl]) (use Cons.prems(2) in auto)
  moreover have "sentAtMs i = 0 \<Longrightarrow> nack_due flt now n rtt i" by (rule Cons.prems(2) [of k]) (simp_all add: e)
  ultimately show ?case using Cons.prems(1) now by (fastforce simp: e bl Let_def split: if_splits)
qed simp

lemma nack_erase_subset: "set (nack_erase seq nl) \<subseteq> set nl"
proof -
  have "set (tl xs) \<subseteq> set xs" for xs :: nack_list by (cases xs) auto
  then show ?thesis unfolding nack_erase_def nack_lower_bound_def by (auto dest: set_takeWhileD) (meson set_dropWhileD subsetD)
qed

lemma new_is_due: "nl_ok n nl \<Longrightarrow> (k, i) \<in> set nl \<Longrightarrow> sentAtMs i = 0 \<Longrightarrow> nack_due SEQ now n rtt i"
  by (auto simp: nl_ok_def nack_due_def intro!: seq.gt_near)

lemma ReceivePacket_all_sent:
  assumes inv: "ng_inv s" "all_sent s" and now: "now \<noteq> 0" and r: "ReceivePacket now seq kf rec s = Some (nacked, ev, s')"
  shows "all_sent s'"
proof (cases "started s \<and> \<not> IsSeqLowerThan seq (lastSeq s) \<and> seq \<noteq> lastSeq s \<and> \<not> rec")
  case False
  then have "set (nackList s') \<subseteq> set (nackList s)"
    using r by (auto simp: ReceivePacket_def Let_def split: if_splits dest: nack_erase_subset [THEN subsetD])
  then show ?thesis using inv(2) by (auto simp: all_sent_def)
next
  case new: True
  let ?s = "s\<lparr>keyFrameList := insert_and_purge seq kf (keyFrameList s)\<rparr>"
  have ok: "nl_ok (lastSeq s) (nackList s)" using inv by (simp add: ng_inv_def)
  from ahead_if_not_lower [of seq "lastSeq s"] new AddPacketsToNackList_spec [of ?s seq] ok
  obtain ks nl ev1 where a: "AddPacketsToNackList (lastSeq s + 1) seq ?s = Some (?s\<lparr>keyFrameList := ks, nackList := nl\<rparr>, ev1)" "nl_ok seq nl"
    by auto
  obtain b nl' where b: "batch_loop SEQ now seq (ng_rtt s) nl = (b, nl')" by force
  have "nackList s' = nl'" using r new a(1) b by (auto simp: ReceivePacket_def GetNackBatch_def MayRunTimer_def Let_def split: if_splits)
  then show ?thesis using batch_loop_sent [OF b now new_is_due [OF a(2)]] by (simp add: all_sent_def)
qed

lemma nack_step_all_sent:
  assumes "ng_inv s" "all_sent s" "clock_runs op" "nack_step op s = Some (ev, s')"
  shows "all_sent s'"
proof (cases op)
  case (Receive now seq kf rec)
  then show ?thesis using assms ReceivePacket_all_sent [OF assms(1,2)] by auto
next
  case (TimerFires now)
  obtain b nl' where b: "batch_loop TIME now (lastSeq s) (ng_rtt s) (nackList s) = (b, nl')" by force
  have "\<forall>e \<in> set nl'. sentAtMs (snd e) \<noteq> 0"
    by (rule batch_loop_sent [OF b]) (use assms(2,3) TimerFires in \<open>force simp: all_sent_def\<close>)+
  then show ?thesis using assms(2,4) TimerFires b
    by (auto simp: OnTimer_def GetNackBatch_def MayRunTimer_def all_sent_def split: if_splits)
qed (use assms in \<open>auto simp: all_sent_def UpdateRtt_def Reset_def\<close>)

lemma nack_run_all_sent:
  "ng_inv s \<Longrightarrow> all_sent s \<Longrightarrow> list_all clock_runs ops \<Longrightarrow> nack_run ops s = Some (evs, s') \<Longrightarrow> ng_inv s' \<and> all_sent s'"
proof (induction ops arbitrary: s evs)
  case (Cons op ops)
  obtain ev s1 where op: "nack_step op s = Some (ev, s1)" "ng_inv s1" using nack_step_inv [OF Cons.prems(1)] by blast
  then show ?case using Cons.IH [of s1] Cons.prems nack_step_all_sent [OF Cons.prems(1,2) _ op(1)] by (auto split: bind_splits)
qed simp

text \<open>C14: a gap in the sequence numbers is requested at once. In every state that a generator reaches with a clock that is not at zero, when
  a packet arrives ahead of the last one and the numbers in between fit into the list (\<open>MaxNackPackets\<close>) beside the pending ones,
  exactly those in between that have not been recovered are requested in one batch, in order, and are pending from then on,
  after the pending numbers that are not older than \<open>MaxPacketAge\<close>.\<close>

theorem gap_is_requested:
  assumes run: "nack_run ops NackGenerator_new = Some (evs, s)" "list_all clock_runs ops"
    and ahead: "started s" "\<not> IsSeqLowerThan seq (lastSeq s)" "seq \<noteq> lastSeq s"
    and room: "GetNackListLength s + unat (seq - lastSeq s) \<le> 1001"
  shows "\<exists>ks s'. ks = filter (\<lambda>k. \<not> seq_set_find k (recoveredList s))
        (map (\<lambda>i. lastSeq s + 1 + of_nat i) [0..<unat (seq - lastSeq s) - 1]) \<and>
    ReceivePacket now seq kf False s = Some (False, nack_events ks, s') \<and> lastSeq s' = seq \<and>
    map fst (nackList s') = filter (\<lambda>k. unat (seq - k) \<le> 10000) (map fst (nackList s)) @ ks"
proof -
  have "all_sent NackGenerator_new" by (simp add: all_sent_def NackGenerator_new_def)
  from nack_run_all_sent [OF ng_inv_new this run(2,1)] have "ng_inv s" "\<forall>e \<in> set (nackList s). sentAtMs (snd e) \<noteq> 0"
    by (auto simp: all_sent_def)
  from gap_requested [OF this(1) ahead this(2) room, of now kf] show ?thesis by blast
qed

theorem gap_is_requested_witness:
  "\<exists>s. nack_run [Receive 5 10 False False] NackGenerator_new = Some ([], s) \<and>
     map_option (fst \<circ> snd) (ReceivePacket 9 14 False False s) = Some [NackRequired [11, 12, 13]]"
proof -
  let ?s = "NackGenerator_new\<lparr>started := True, lastSeq := 10\<rparr>"
  have r: "nack_run [Receive 5 10 False False] NackGenerator_new = Some ([], ?s)"
    by (simp add: ReceivePacket_def NackGenerator_new_def)
  have "\<not> IsSeqLowerThan 14 (10 :: u16)" by code_simp
  then obtain s' where "ReceivePacket 9 14 False False ?s = Some (False, nack_events [11, 12, 13], s')"
    using gap_is_requested [OF r, of 14 9 False]
    by (auto simp: NackGenerator_new_def GetNackListLength_def seq_set_find_def dropped_lower_bound_def upt_rec)
  with r show ?thesis by (auto simp: nack_events_def)
qed

text \<open>C15: a jump of more than \<open>MaxNackPackets\<close> lost packets clears the list and asks for a key frame instead.\<close>

theorem large_gap_requests_key_frame:
  assumes inv: "ng_inv s" "started s" and ahead: "\<not> IsSeqLowerThan seq (lastSeq s)" "seq \<noteq> lastSeq s"
    and far: "1001 < unat (seq - lastSeq s)"
  shows "\<exists>s'. ReceivePacket now seq kf False s = Some (False, [KeyFrameRequired], s') \<and> lastSeq s' = seq \<and> nackList s' = []"
proof -
  let ?s = "s\<lparr>keyFrameList := insert_and_purge seq kf (keyFrameList s)\<rparr>"
  obtain ks where "AddPacketsToNackList (lastSeq s + 1) seq ?s =
      Some (s\<lparr>keyFrameList := ks, nackList := []\<rparr>, [KeyFrameRequired])"
    using AddPacketsToNackList_spec [of ?s seq] inv far by (auto simp: ng_inv_def)
  from ReceivePacket_ahead [OF inv ahead this, of now "[]" "[]"] show ?thesis by (auto simp: nack_events_def)
qed

theorem large_gap_requests_key_frame_witness:
  "\<exists>s'. ReceivePacket 9 2000 False False (NackGenerator_new\<lparr>started := True\<rparr>) = Some (False, [KeyFrameRequired], s') \<and>
     lastSeq s' = 2000 \<and> nackList s' = []"
proof -
  have "\<not> IsSeqLowerThan 2000 (0 :: u16)" by (simp add: IsSeqLowerThan_def MaxValue_def)
  then show ?thesis
    using large_gap_requests_key_frame [of "NackGenerator_new\<lparr>started := True\<rparr>" 2000 9 False]
    by (simp add: NackGenerator_new_def ng_inv_def)
qed

subsection \<open>Requests end\<close>

lemma TIME_due:
  "unat (sentAtMs i) + unat rtt \<le> unat now \<Longrightarrow> nack_due TIME now n rtt i"
  by (simp add: nack_due_def word_le_nat_alt unat_sub unat_ucast_le)

definition timers :: "u64 list \<Rightarrow> nack_generator \<Rightarrow> nack_generator" where
  "timers ts s = fold (\<lambda>t s. snd (OnTimer t s)) ts s"

lemma OnTimer_all_due:
  assumes due: "\<forall>e \<in> set (nackList s). unat (sentAtMs (snd e)) + unat (ng_rtt s) \<le> unat now"
    and "ng_inv s"
  defines "s' \<equiv> snd (OnTimer now s)"
  shows "\<forall>e \<in> set (nackList s'). sentAtMs (snd e) = now \<and>
      (\<exists>e0 \<in> set (nackList s). unat (retries (snd e)) = Suc (unat (retries (snd e0))))"
    and "ng_rtt s' = ng_rtt s"
proof -
  obtain b nl where b: "batch_loop TIME now (lastSeq s) (ng_rtt s) (nackList s) = (b, nl)" by force
  have "nackList s' = nl" "ng_rtt s' = ng_rtt s"
    by (simp_all add: s'_def OnTimer_def GetNackBatch_def b MayRunTimer_def)
  then show "ng_rtt s' = ng_rtt s" by simp
  have "unat (retries i + 1) = Suc (unat (retries i))" if "(k, i) \<in> set (nackList s)" for k i
  proof -
    have "retries i < 10" using that assms(2) by (force simp: ng_inv_def nl_ok_def)
    then have "unat (retries i) < 10" by (simp add: word_less_nat_alt)
    then show ?thesis by (simp add: unat_word_ariths)
  qed
  note inc = this
  show "\<forall>e \<in> set (nackList s'). sentAtMs (snd e) = now \<and>
      (\<exists>e0 \<in> set (nackList s). unat (retries (snd e)) = Suc (unat (retries (snd e0))))"
    unfolding \<open>nackList s' = nl\<close>
  proof
    fix e assume "e \<in> set nl"
    then obtain k i where ki: "(k, i) \<in> set (nackList s)" and e: "e \<in> set (if nack_due TIME now (lastSeq s) (ng_rtt s) i
        then if retries i + 1 \<ge> 10 then [] else [(k, i\<lparr>retries := retries i + 1, sentAtMs := now\<rparr>)] else [(k, i)])"
      using batch_loop_spec [OF b] by auto
    have "nack_due TIME now (lastSeq s) (ng_rtt s) i" using due ki by (intro TIME_due) force
    with e have "snd e = i\<lparr>retries := retries i + 1, sentAtMs := now\<rparr>" by (auto split: if_splits)
    with inc [OF ki] ki show "sentAtMs (snd e) = now \<and>
        (\<exists>e0 \<in> set (nackList s). unat (retries (snd e)) = Suc (unat (retries (snd e0))))"
      by (auto intro!: bexI [of _ "(k, i)"])
  qed
qed

lemma timers_empty:
  "ng_inv s \<Longrightarrow> sorted_wrt (\<lambda>a b. unat a + unat (ng_rtt s) \<le> unat b) ts \<Longrightarrow>
   \<forall>e \<in> set (nackList s). 10 \<le> unat (retries (snd e)) + length ts \<and>
     (\<forall>t \<in> set ts. unat (sentAtMs (snd e)) + unat (ng_rtt s) \<le> unat t) \<Longrightarrow> nackList (timers ts s) = []"
proof (induction ts arbitrary: s)
  case Nil
  have "\<forall>e \<in> set (nackList s). unat (retries (snd e)) < 10"
    using Nil(1) by (auto simp: ng_inv_def nl_ok_def word_less_nat_alt)
  with Nil(3) show ?case by (cases "nackList s") (auto simp: timers_def)
next
  case (Cons t ts)
  note o = OnTimer_all_due [of s t, OF _ Cons.prems(1)]
  have due: "\<forall>e \<in> set (nackList s). unat (sentAtMs (snd e)) + unat (ng_rtt s) \<le> unat t" using Cons.prems(3) by simp
  note o = OnTimer_all_due [OF due Cons.prems(1)]
  have "nackList (timers ts (snd (OnTimer t s))) = []"
    using Cons.prems o by (intro Cons.IH OnTimer_inv) fastforce+
  then show ?case by (simp add: timers_def)
qed

text \<open>C16: requests end. If the timer fires ten times, each at least a round trip time after the last request,
  and no packet arrives in between, nothing is pending any more.\<close>

theorem requests_end:
  assumes "ng_inv s" and "length ts = 10" and "sorted_wrt (\<lambda>a b. unat a + unat (ng_rtt s) \<le> unat b) ts"
    and "\<forall>e \<in> set (nackList s). unat (sentAtMs (snd e)) + unat (ng_rtt s) \<le> unat (hd ts)"
  shows "nackList (timers ts s) = []"
proof (rule timers_empty)
  obtain t ts' where ts: "ts = t # ts'" using assms(2) by (cases ts) auto
  have "unat t \<le> unat x" if "x \<in> set ts" for x using that assms(3) by (auto simp: ts)
  then show "\<forall>e \<in> set (nackList s). 10 \<le> unat (retries (snd e)) + length ts \<and>
     (\<forall>t \<in> set ts. unat (sentAtMs (snd e)) + unat (ng_rtt s) \<le> unat t)"
    using assms(2,4) by (fastforce simp: ts)
qed (use assms in simp_all)

theorem requests_end_witness:
  "nackList (timers [200, 300, 400, 500, 600, 700, 800, 900, 1000, 1100]
     (NackGenerator_new\<lparr>started := True, lastSeq := 5, ng_timer := True, nackList := [sent_entry 7 4]\<rparr>)) = []"
  by (rule requests_end)
    (simp_all add: ng_inv_def nl_ok_def sent_entry_def NackGenerator_new_def word_less_nat_alt)

subsection \<open>Recovered packets\<close>

lemma batch_subset: "batch_loop flt now n rtt nl = (b, nl') \<Longrightarrow> nl_ok m nl \<Longrightarrow> set b \<subseteq> fst ` set nl"
  using batch_loop_spec [of flt now n rtt nl b nl'] by (force simp: nl_ok_def)

definition media_op :: "nack_op \<Rightarrow> bool" where
  "media_op op = (case op of Receive _ _ _ rec \<Rightarrow> \<not> rec | DoReset \<Rightarrow> False | _ \<Rightarrow> True)"

definition recovered_quiet :: "u16 \<Rightarrow> nack_generator \<Rightarrow> bool" where
  "recovered_quiet x s \<longleftrightarrow> ng_inv s \<and> seq_set_find x (recoveredList s) \<and> x \<notin> fst ` set (nackList s)"

lemma recovered_ahead:
  assumes q: "recovered_quiet x s" and "started s" and ahead: "\<not> IsSeqLowerThan seq (lastSeq s)" "seq \<noteq> lastSeq s"
    and r: "ReceivePacket now seq kf False s = Some (r, ev, s')"
  shows "recoveredList s' = recoveredList s \<and> x \<notin> fst ` set (nackList s') \<and> (\<forall>b. NackRequired b \<in> set ev \<longrightarrow> x \<notin> set b)"
proof -
  let ?s = "s\<lparr>keyFrameList := insert_and_purge seq kf (keyFrameList s)\<rparr>"
  have inv: "ng_inv s" using q by (simp add: recovered_quiet_def)
  obtain ks nl ev1 where a: "AddPacketsToNackList (lastSeq s + 1) seq ?s = Some (s\<lparr>keyFrameList := ks, nackList := nl\<rparr>, ev1)"
    "nl_ok seq nl" "ev1 = [] \<or> ev1 = [KeyFrameRequired]"
    "fst ` set nl \<subseteq> fst ` set (nackList s) \<union> {k. \<not> seq_set_find k (recoveredList s)}"
    using AddPacketsToNackList_spec [of ?s seq] inv ahead_if_not_lower [OF ahead] by (auto simp: ng_inv_def)
  obtain b nl' where b: "batch_loop SEQ now seq (ng_rtt s) nl = (b, nl')" by force
  have "x \<notin> fst ` set nl" using a(4) q by (auto simp: recovered_quiet_def)
  moreover have "fst ` set nl' \<subseteq> fst ` set nl" "set b \<subseteq> fst ` set nl"
    using batch_loop_ok [OF b a(2)] batch_subset [OF b a(2)] by auto
  ultimately have "x \<notin> fst ` set nl'" "x \<notin> set b" by blast+
  then show ?thesis
    using r ReceivePacket_ahead [OF inv assms(2) ahead a(1) b] a(3) by (auto simp: nack_events_def split: if_splits)
qed

lemma recovered_step:
  assumes q: "recovered_quiet x s" and m: "media_op op" and st: "nack_step op s = Some (ev, s')"
  shows "recovered_quiet x s' \<and> (\<forall>b. NackRequired b \<in> set ev \<longrightarrow> x \<notin> set b)"
proof -
  have inv: "ng_inv s" "ng_inv s'" using q st nack_step_inv [of s op] by (auto simp: recovered_quiet_def)
  have "recoveredList s' = recoveredList s \<and> x \<notin> fst ` set (nackList s') \<and> (\<forall>b. NackRequired b \<in> set ev \<longrightarrow> x \<notin> set b)"
  proof (cases op)
    case (Receive now seq kf rec)
    then obtain r where r: "ReceivePacket now seq kf False s = Some (r, ev, s')"
      using st m by (auto simp: media_op_def)
    consider "\<not> started s" | "started s" "seq = lastSeq s" | "started s" "IsSeqLowerThan seq (lastSeq s)" "seq \<noteq> lastSeq s"
      | "started s" "\<not> IsSeqLowerThan seq (lastSeq s)" "seq \<noteq> lastSeq s" by blast
    then show ?thesis
    proof cases
      case 3
      obtain n where "nack_lower_bound seq (nackList s) = drop n (nackList s)" using nack_lower_bound_suffix by blast
      then have "nack_erase seq (nackList s) =
          takeWhile (\<lambda>e. IsSeqLowerThan (fst e) seq) (nackList s) @ drop (Suc n) (nackList s)"
        by (simp add: nack_erase_def tl_drop drop_Suc)
      then have "set (nack_erase seq (nackList s)) \<subseteq> set (nackList s)"
        by (auto dest: set_takeWhileD in_set_dropD)
      with 3 r q show ?thesis by (force simp: ReceivePacket_def recovered_quiet_def split: if_splits)
    next
      case 4
      with recovered_ahead [OF q 4 r] show ?thesis by blast
    qed (use r q in \<open>auto simp: ReceivePacket_def recovered_quiet_def\<close>)
  next
    case (TimerFires now)
    obtain b nl where b: "batch_loop TIME now (lastSeq s) (ng_rtt s) (nackList s) = (b, nl)" by force
    have ok: "nl_ok (lastSeq s) (nackList s)" using inv by (simp add: ng_inv_def)
    have "fst ` set nl \<subseteq> fst ` set (nackList s)" "set b \<subseteq> fst ` set (nackList s)"
      using batch_loop_ok [OF b ok] batch_subset [OF b ok] by auto
    then have "x \<notin> fst ` set nl" "x \<notin> set b" using q by (auto simp: recovered_quiet_def)
    with TimerFires b st q show ?thesis
      by (auto simp: OnTimer_def GetNackBatch_def MayRunTimer_def nack_events_def recovered_quiet_def split: if_splits)
  qed (use st q m in \<open>auto simp: UpdateRtt_def recovered_quiet_def media_op_def\<close>)
  with inv q show ?thesis by (auto simp: recovered_quiet_def)
qed

text \<open>the numbers of recovered packets are forgotten only when another recovered packet arrives. As long
  as none does, a number recovered once is never requested again, however far the stream advances,
  so also when it stands for a new lost packet after the sequence numbers have wrapped around.\<close>

lemma recovered_never_requested:
  assumes "ng_inv s" and "seq_set_find x (recoveredList s)" and "x \<notin> fst ` set (nackList s)"
    and "\<forall>op \<in> set ops. media_op op"
  shows "\<exists>evs s'. nack_run ops s = Some (evs, s') \<and> seq_set_find x (recoveredList s') \<and>
    (\<forall>b. NackRequired b \<in> set evs \<longrightarrow> x \<notin> set b)"
proof -
  have "recovered_quiet x s" using assms by (simp add: recovered_quiet_def)
  then have "\<exists>evs s'. nack_run ops s = Some (evs, s') \<and> recovered_quiet x s' \<and>
      (\<forall>b. NackRequired b \<in> set evs \<longrightarrow> x \<notin> set b)"
    using assms(4)
  proof (induction ops arbitrary: s)
    case (Cons op ops)
    from Cons.prems nack_step_inv [of s op] obtain ev s1 where st: "nack_step op s = Some (ev, s1)"
      by (auto simp: recovered_quiet_def)
    with recovered_step [OF Cons.prems(1) _ st] Cons.prems(2) Cons.IH [of s1] show ?case by fastforce
  qed simp
  then show ?thesis by (auto simp: recovered_quiet_def)
qed

end
