(* ===== verification/RtpPacket.thy ===== *)
theory RtpPacket
  imports Bytes
begin

text \<open>
  \<^verbatim>\<open>RTC::RtpPacket\<close> (\<^verbatim>\<open>include/RTC/RtpPacket.hpp\<close>, \<^verbatim>\<open>src/RTC/RtpPacket.cpp\<close>). A packet is a view into a
  buffer: its members are pointers into the memory it was parsed from and its mutators write there.
  \<open>rtp_mem\<close> is that memory from the first byte of the RTP header to the end of the allocation, and a
  pointer is an offset into it. A read or write outside the memory, or a failed assertion, is \<open>None\<close>.

  The payload descriptor handler is an interface of the codecs: its type is a parameter and its virtual
  methods are arguments of the operations that call them.
\<close>

subsection \<open>State\<close>

abbreviation (input) "SIZEOF_RtpHeader \<equiv> (12 :: nat)"
abbreviation (input) "MidMaxLength \<equiv> (8 :: nat)"

record extension_ids =
  midExtensionId :: u8
  ridExtensionId :: u8
  rridExtensionId :: u8
  absSendTimeExtensionId :: u8
  transportWideCc01ExtensionId :: u8
  frameMarking07ExtensionId :: u8
  frameMarkingExtensionId :: u8
  ssrcAudioLevelExtensionId :: u8
  videoOrientationExtensionId :: u8

definition no_extension_ids :: extension_ids where
  "no_extension_ids = \<lparr>midExtensionId = 0, ridExtensionId = 0, rridExtensionId = 0, absSendTimeExtensionId = 0,
     transportWideCc01ExtensionId = 0, frameMarking07ExtensionId = 0, frameMarkingExtensionId = 0,
     ssrcAudioLevelExtensionId = 0, videoOrientationExtensionId = 0\<rparr>"

record 'h rtp_packet =
  rtp_mem :: bytes
  csrcList :: "nat option"
  headerExtension :: "nat option"
  mapOneByteExtensions :: "u8 \<rightharpoonup> nat"
  mapTwoBytesExtensions :: "u8 \<rightharpoonup> nat"
  ext_ids :: extension_ids
  payload :: nat
  payloadLength :: nat
  payloadPadding :: u8
  rtp_size :: nat
  payloadDescriptorHandler :: "'h option"

subsection \<open>The fixed header\<close>

definition b0_csrcCount :: "u8 \<Rightarrow> nat" where
  "b0_csrcCount b = unat (b AND 0x0F)"

definition IsRtp :: "bytes \<Rightarrow> bool option" where
  "IsRtp d =
     (if length d < SIZEOF_RtpHeader then Some False
      else do { b \<leftarrow> Get1Byte d 0; Some (b > 127 \<and> b < 192 \<and> drop_bit 6 b = 2) })"

definition GetPayloadType :: "'h rtp_packet \<Rightarrow> u8 option" where
  "GetPayloadType p = do { b \<leftarrow> Get1Byte (rtp_mem p) 1; Some (b AND 0x7F) }"

definition SetPayloadType :: "u8 \<Rightarrow> 'h rtp_packet \<Rightarrow> 'h rtp_packet option" where
  "SetPayloadType pt p = do {
     b \<leftarrow> Get1Byte (rtp_mem p) 1;
     m \<leftarrow> Set1Byte (rtp_mem p) 1 ((b AND 0x80) OR (pt AND 0x7F));
     Some (p\<lparr>rtp_mem := m\<rparr>) }"

definition HasMarker :: "'h rtp_packet \<Rightarrow> bool option" where
  "HasMarker p = do { b \<leftarrow> Get1Byte (rtp_mem p) 1; Some (bit b 7) }"

definition SetMarker :: "bool \<Rightarrow> 'h rtp_packet \<Rightarrow> 'h rtp_packet option" where
  "SetMarker marker p = do {
     b \<leftarrow> Get1Byte (rtp_mem p) 1;
     m \<leftarrow> Set1Byte (rtp_mem p) 1 ((b AND 0x7F) OR (if marker then 0x80 else 0));
     Some (p\<lparr>rtp_mem := m\<rparr>) }"

definition SetPayloadPaddingFlag :: "bool \<Rightarrow> 'h rtp_packet \<Rightarrow> 'h rtp_packet option" where
  "SetPayloadPaddingFlag flag p = do {
     b \<leftarrow> Get1Byte (rtp_mem p) 0;
     m \<leftarrow> Set1Byte (rtp_mem p) 0 ((b AND 0xDF) OR (if flag then 0x20 else 0));
     Some (p\<lparr>rtp_mem := m\<rparr>) }"

definition GetSequenceNumber :: "'h rtp_packet \<Rightarrow> u16 option" where
  "GetSequenceNumber p = Get2Bytes (rtp_mem p) 2"

definition SetSequenceNumber :: "u16 \<Rightarrow> 'h rtp_packet \<Rightarrow> 'h rtp_packet option" where
  "SetSequenceNumber seq p = do { m \<leftarrow> Set2Bytes (rtp_mem p) 2 seq; Some (p\<lparr>rtp_mem := m\<rparr>) }"

definition GetTimestamp :: "'h rtp_packet \<Rightarrow> u32 option" where
  "GetTimestamp p = Get4Bytes (rtp_mem p) 4"

definition SetTimestamp :: "u32 \<Rightarrow> 'h rtp_packet \<Rightarrow> 'h rtp_packet option" where
  "SetTimestamp ts p = do { m \<leftarrow> Set4Bytes (rtp_mem p) 4 ts; Some (p\<lparr>rtp_mem := m\<rparr>) }"

definition GetSsrc :: "'h rtp_packet \<Rightarrow> u32 option" where
  "GetSsrc p = Get4Bytes (rtp_mem p) 8"

definition SetSsrc :: "u32 \<Rightarrow> 'h rtp_packet \<Rightarrow> 'h rtp_packet option" where
  "SetSsrc ssrc p = do { m \<leftarrow> Set4Bytes (rtp_mem p) 8 ssrc; Some (p\<lparr>rtp_mem := m\<rparr>) }"

subsection \<open>Header extensions\<close>

definition GetHeaderExtensionId :: "'h rtp_packet \<Rightarrow> u16 option" where
  "GetHeaderExtensionId p = (case headerExtension p of None \<Rightarrow> Some 0 | Some h \<Rightarrow> Get2Bytes (rtp_mem p) h)"

definition GetHeaderExtensionLength :: "'h rtp_packet \<Rightarrow> nat option" where
  "GetHeaderExtensionLength p = (case headerExtension p of
       None \<Rightarrow> Some 0
     | Some h \<Rightarrow> do { l \<leftarrow> Get2Bytes (rtp_mem p) (h + 2); Some (unat l * 4) })"

definition HasOneByteExtensions :: "'h rtp_packet \<Rightarrow> bool option" where
  "HasOneByteExtensions p = map_option (\<lambda>i. i = 0xBEDE) (GetHeaderExtensionId p)"

definition HasTwoBytesExtensions :: "'h rtp_packet \<Rightarrow> bool option" where
  "HasTwoBytesExtensions p = map_option (\<lambda>i. i AND 0xFFF0 = 0x1000) (GetHeaderExtensionId p)"

text \<open>The inner loop that counts padding bytes; it returns the pointer behind them.\<close>

function skip_zeros :: "bytes \<Rightarrow> nat \<Rightarrow> nat \<Rightarrow> nat option" where
  "skip_zeros m ptr extensionEnd =
     (if ptr < extensionEnd then
        case Get1Byte m ptr of
          None \<Rightarrow> None
        | Some b \<Rightarrow> if b = 0 then skip_zeros m (ptr + 1) extensionEnd else Some ptr
      else Some ptr)"
  by pat_completeness auto
termination
  by (relation "measure (\<lambda>(_, ptr, e). e - ptr)") auto

declare skip_zeros.simps [simp del]

lemma skip_zeros_ge: "skip_zeros m ptr e = Some q \<Longrightarrow> ptr \<le> q"
proof (induction m ptr e rule: skip_zeros.induct)
  case (1 m ptr e)
  then show ?case
    by (subst (asm) (2) skip_zeros.simps) (fastforce split: if_splits option.splits)
qed

function one_byte_loop :: "bytes \<Rightarrow> nat \<Rightarrow> nat \<Rightarrow> (u8 \<rightharpoonup> nat) \<Rightarrow> (u8 \<rightharpoonup> nat) option" where
  "one_byte_loop m extensionEnd ptr mp =
     (if ptr < extensionEnd then
        case Get1Byte m ptr of
          None \<Rightarrow> None
        | Some b \<Rightarrow>
            let i = drop_bit 4 (b AND 0xF0); len = unat (b AND 0x0F) + 1 in
            if i = 15 then Some mp
            else if i \<noteq> 0 then
              (if ptr + 1 + len > extensionEnd then Some mp
               else case skip_zeros m (ptr + (1 + len)) extensionEnd of
                 None \<Rightarrow> None
               | Some q \<Rightarrow> one_byte_loop m extensionEnd q (mp(i \<mapsto> ptr)))
            else
              (case skip_zeros m (ptr + 1) extensionEnd of
                 None \<Rightarrow> None
               | Some q \<Rightarrow> one_byte_loop m extensionEnd q mp)
      else Some mp)"
  by pat_completeness auto
termination
  by (relation "measure (\<lambda>(_, e, ptr, _). e - ptr)") (auto dest!: skip_zeros_ge)

function two_bytes_loop :: "bytes \<Rightarrow> nat \<Rightarrow> nat \<Rightarrow> (u8 \<rightharpoonup> nat) \<Rightarrow> (u8 \<rightharpoonup> nat) option" where
  "two_bytes_loop m extensionEnd ptr mp =
     (if ptr + 1 < extensionEnd then
        case (Get1Byte m ptr, Get1Byte m (ptr + 1)) of
          (Some i, Some l) \<Rightarrow>
            if i \<noteq> 0 then
              (if ptr + 2 + unat l > extensionEnd then Some mp
               else case skip_zeros m (ptr + (2 + unat l)) extensionEnd of
                 None \<Rightarrow> None
               | Some q \<Rightarrow> two_bytes_loop m extensionEnd q (mp(i \<mapsto> ptr)))
            else
              (case skip_zeros m (ptr + 1) extensionEnd of
                 None \<Rightarrow> None
               | Some q \<Rightarrow> two_bytes_loop m extensionEnd q mp)
        | _ \<Rightarrow> None
      else Some mp)"
  by pat_completeness auto
termination
  by (relation "measure (\<lambda>(_, e, ptr, _). e - ptr)") (auto dest!: skip_zeros_ge)

declare one_byte_loop.simps [simp del] two_bytes_loop.simps [simp del]

definition ParseExtensions :: "'h rtp_packet \<Rightarrow> 'h rtp_packet option" where
  "ParseExtensions p = do {
     one \<leftarrow> HasOneByteExtensions p;
     two \<leftarrow> HasTwoBytesExtensions p;
     len \<leftarrow> GetHeaderExtensionLength p;
     case headerExtension p of
       None \<Rightarrow> Some p
     | Some h \<Rightarrow>
         if one then do {
           mp \<leftarrow> one_byte_loop (rtp_mem p) (h + 4 + len) (h + 4) Map.empty;
           Some (p\<lparr>mapOneByteExtensions := mp\<rparr>) }
         else if two then do {
           mp \<leftarrow> two_bytes_loop (rtp_mem p) (h + 4 + len) (h + 4) Map.empty;
           Some (p\<lparr>mapTwoBytesExtensions := mp\<rparr>) }
         else Some p }"

subsection \<open>Parsing\<close>

definition RtpPacket_ctor ::
  "bytes \<Rightarrow> nat option \<Rightarrow> nat \<Rightarrow> nat \<Rightarrow> u8 \<Rightarrow> nat \<Rightarrow> 'h rtp_packet option" where
  "RtpPacket_ctor m he pl plen pad sz = do {
     b0 \<leftarrow> Get1Byte m 0;
     ParseExtensions \<lparr>rtp_mem = m, csrcList = (if b0_csrcCount b0 \<noteq> 0 then Some SIZEOF_RtpHeader else None),
       headerExtension = he, mapOneByteExtensions = Map.empty, mapTwoBytesExtensions = Map.empty,
       ext_ids = no_extension_ids, payload = pl, payloadLength = plen, payloadPadding = pad, rtp_size = sz,
       payloadDescriptorHandler = None\<rparr> }"

text \<open>\<open>RtpPacket::Parse(data, len)\<close> on memory \<open>m\<close> of which the first \<open>len\<close> bytes are the packet. The reads go
  through \<open>take len m\<close>, so that one behind \<open>len\<close> is an error although the buffer is larger. First the
  header extension: its offset, if any, and the offset of what follows; then the padding: the length
  of the payload and the number of padding bytes.\<close>

definition parse_extension_header :: "bytes \<Rightarrow> nat \<Rightarrow> nat \<Rightarrow> (nat option \<times> nat) option option" where
  "parse_extension_header d len ptr = do {
     b0 \<leftarrow> Get1Byte d 0;
     if bit b0 4 then
       (if len < ptr + 4 then Some None
        else do {
          l \<leftarrow> Get2Bytes d (ptr + 2);
          let extensionValueSize = unat l * 4;
          if len < ptr + 4 + extensionValueSize then Some None
          else Some (Some (Some ptr, ptr + (4 + extensionValueSize))) })
     else Some (Some (None, ptr)) }"

definition parse_padding :: "bytes \<Rightarrow> nat \<Rightarrow> nat \<Rightarrow> (nat \<times> u8) option option" where
  "parse_padding d len plen = do {
     b0 \<leftarrow> Get1Byte d 0;
     if bit b0 5 then
       (if plen = 0 then Some None
        else do {
          pad \<leftarrow> Get1Byte d (len - 1);
          if pad = 0 then Some None
          else if plen < unat pad then Some None
          else Some (Some (plen - unat pad, pad)) })
     else Some (Some (plen, 0)) }"

definition RtpPacket_Parse :: "bytes \<Rightarrow> nat \<Rightarrow> 'h rtp_packet option option" where
  "RtpPacket_Parse m len =
     (let d = take len m in do {
        rtp \<leftarrow> IsRtp d;
        if \<not> rtp then Some None
        else do {
          b0 \<leftarrow> Get1Byte d 0;
          let csrcListSize = b0_csrcCount b0 * 4;
          if b0_csrcCount b0 \<noteq> 0 \<and> len < SIZEOF_RtpHeader + csrcListSize then Some None
          else do {
            ext \<leftarrow> parse_extension_header d len (SIZEOF_RtpHeader + csrcListSize);
            case ext of None \<Rightarrow> Some None
            | Some (he, pl) \<Rightarrow>
                if len < pl then None
                else do {
                  pad \<leftarrow> parse_padding d len (len - pl);
                  case pad of None \<Rightarrow> Some None
                  | Some (plen, npad) \<Rightarrow>
                      if len \<noteq> SIZEOF_RtpHeader + csrcListSize +
                        (if he = None then 0 else pl - (SIZEOF_RtpHeader + csrcListSize)) + plen + unat npad then None
                      else map_option Some (RtpPacket_ctor m he pl plen npad len) } } } })"

subsection \<open>Reading extensions\<close>

text \<open>\<open>GetExtension\<close>: the pointer to the value and its length, or \<open>nullptr\<close>.\<close>

definition GetExtension :: "u8 \<Rightarrow> 'h rtp_packet \<Rightarrow> (nat \<times> u8) option option" where
  "GetExtension i p =
     (if i = 0 then Some None
      else do {
        one \<leftarrow> HasOneByteExtensions p;
        two \<leftarrow> HasTwoBytesExtensions p;
        if one then
          (case mapOneByteExtensions p i of
             None \<Rightarrow> Some None
           | Some e \<Rightarrow> do { b \<leftarrow> Get1Byte (rtp_mem p) e; Some (Some (e + 1, (b AND 0x0F) + 1)) })
        else if two then
          (case mapTwoBytesExtensions p i of
             None \<Rightarrow> Some None
           | Some e \<Rightarrow> do {
               len \<leftarrow> Get1Byte (rtp_mem p) (e + 1);
               Some (if len = 0 then None else Some (e + 2, len)) })
        else Some None })"

definition HasExtension :: "u8 \<Rightarrow> 'h rtp_packet \<Rightarrow> bool option" where
  "HasExtension i p =
     (if i = 0 then Some False
      else do {
        one \<leftarrow> HasOneByteExtensions p;
        two \<leftarrow> HasTwoBytesExtensions p;
        if one then Some (mapOneByteExtensions p i \<noteq> None)
        else if two then
          (case mapTwoBytesExtensions p i of
             None \<Rightarrow> Some False
           | Some e \<Rightarrow> do { len \<leftarrow> Get1Byte (rtp_mem p) (e + 1); Some (len \<noteq> 0) })
        else Some False })"

text \<open>The value of an extension of nonzero length, as \<open>ReadMid\<close> and \<open>ReadRid\<close> copy it.\<close>

definition read_string_extension :: "u8 \<Rightarrow> 'h rtp_packet \<Rightarrow> bytes option option" where
  "read_string_extension i p = do {
     e \<leftarrow> GetExtension i p;
     case e of
       None \<Rightarrow> Some None
     | Some (v, len) \<Rightarrow> if len = 0 then Some None else map_option Some (read_bytes (rtp_mem p) v (unat len)) }"

definition ReadMid :: "'h rtp_packet \<Rightarrow> bytes option option" where
  "ReadMid p = read_string_extension (midExtensionId (ext_ids p)) p"

definition ReadRid :: "'h rtp_packet \<Rightarrow> bytes option option" where
  "ReadRid p = do {
     rid \<leftarrow> read_string_extension (ridExtensionId (ext_ids p)) p;
     if rid \<noteq> None then Some rid else read_string_extension (rridExtensionId (ext_ids p)) p }"

definition ReadAbsSendTime :: "'h rtp_packet \<Rightarrow> u32 option option" where
  "ReadAbsSendTime p = do {
     e \<leftarrow> GetExtension (absSendTimeExtensionId (ext_ids p)) p;
     case e of
       None \<Rightarrow> Some None
     | Some (v, len) \<Rightarrow> if len \<noteq> 3 then Some None else map_option Some (Get3Bytes (rtp_mem p) v) }"

definition UpdateAbsSendTime :: "u64 \<Rightarrow> 'h rtp_packet \<Rightarrow> (bool \<times> 'h rtp_packet) option" where
  "UpdateAbsSendTime ms p = do {
     e \<leftarrow> GetExtension (absSendTimeExtensionId (ext_ids p)) p;
     case e of
       None \<Rightarrow> Some (False, p)
     | Some (v, len) \<Rightarrow>
         if len \<noteq> 3 then Some (False, p)
         else do { m \<leftarrow> Set3Bytes (rtp_mem p) v (TimeMsToAbsSendTime ms); Some (True, p\<lparr>rtp_mem := m\<rparr>) } }"

definition ReadTransportWideCc01 :: "'h rtp_packet \<Rightarrow> u16 option option" where
  "ReadTransportWideCc01 p = do {
     e \<leftarrow> GetExtension (transportWideCc01ExtensionId (ext_ids p)) p;
     case e of
       None \<Rightarrow> Some None
     | Some (v, len) \<Rightarrow> if len \<noteq> 2 then Some None else map_option Some (Get2Bytes (rtp_mem p) v) }"

definition UpdateTransportWideCc01 :: "u16 \<Rightarrow> 'h rtp_packet \<Rightarrow> (bool \<times> 'h rtp_packet) option" where
  "UpdateTransportWideCc01 wideSeqNumber p = do {
     e \<leftarrow> GetExtension (transportWideCc01ExtensionId (ext_ids p)) p;
     case e of
       None \<Rightarrow> Some (False, p)
     | Some (v, len) \<Rightarrow>
         if len \<noteq> 2 then Some (False, p)
         else do { m \<leftarrow> Set2Bytes (rtp_mem p) v wideSeqNumber; Some (True, p\<lparr>rtp_mem := m\<rparr>) } }"

definition ReadFrameMarking :: "'h rtp_packet \<Rightarrow> (nat \<times> u8) option option" where
  "ReadFrameMarking p = do {
     e \<leftarrow> GetExtension (frameMarkingExtensionId (ext_ids p)) p;
     e \<leftarrow> (if e = None then GetExtension (frameMarking07ExtensionId (ext_ids p)) p else Some e);
     case e of
       None \<Rightarrow> Some None
     | Some (v, len) \<Rightarrow> if len > 3 then Some None else Some (Some (v, len)) }"

definition ReadSsrcAudioLevel :: "'h rtp_packet \<Rightarrow> (u8 \<times> bool) option option" where
  "ReadSsrcAudioLevel p = do {
     e \<leftarrow> GetExtension (ssrcAudioLevelExtensionId (ext_ids p)) p;
     case e of
       None \<Rightarrow> Some None
     | Some (v, len) \<Rightarrow>
         if len \<noteq> 1 then Some None
         else do { volume \<leftarrow> Get1Byte (rtp_mem p) v; Some (Some (volume AND 0x7F, bit volume 7)) } }"

definition ReadVideoOrientation :: "'h rtp_packet \<Rightarrow> (bool \<times> bool \<times> u16) option option" where
  "ReadVideoOrientation p = do {
     e \<leftarrow> GetExtension (videoOrientationExtensionId (ext_ids p)) p;
     case e of
       None \<Rightarrow> Some None
     | Some (v, len) \<Rightarrow>
         if len \<noteq> 1 then Some None
         else do {
           cvoByte \<leftarrow> Get1Byte (rtp_mem p) v;
           let r = cvoByte AND 3;
           Some (Some (bit cvoByte 3, bit cvoByte 2,
             if r = 3 then 270 else if r = 2 then 180 else if r = 1 then 90 else 0)) } }"

subsection \<open>Writing extensions\<close>

definition memset0 :: "bytes \<Rightarrow> nat \<Rightarrow> nat \<Rightarrow> bytes option" where
  "memset0 m dst n = memcpy_in m dst (replicate n 0) n"

definition SetExtensionLength :: "u8 \<Rightarrow> u8 \<Rightarrow> 'h rtp_packet \<Rightarrow> (bool \<times> 'h rtp_packet) option" where
  "SetExtensionLength i len p =
     (if len = 0 then Some (False, p)
      else if i = 0 then Some (False, p)
      else do {
        one \<leftarrow> HasOneByteExtensions p;
        two \<leftarrow> HasTwoBytesExtensions p;
        if one then
          (case mapOneByteExtensions p i of
             None \<Rightarrow> Some (False, p)
           | Some e \<Rightarrow> do {
               b \<leftarrow> Get1Byte (rtp_mem p) e;
               let currentLen = unat (b AND 0x0F) + 1;
               m \<leftarrow> (if unat len < currentLen then memset0 (rtp_mem p) (e + 1 + unat len) (currentLen - unat len)
                     else Some (rtp_mem p));
               m \<leftarrow> Set1Byte m e ((b AND 0xF0) OR ((len - 1) AND 0x0F));
               Some (True, p\<lparr>rtp_mem := m\<rparr>) })
        else if two then
          (case mapTwoBytesExtensions p i of
             None \<Rightarrow> Some (False, p)
           | Some e \<Rightarrow> do {
               currentLen \<leftarrow> Get1Byte (rtp_mem p) (e + 1);
               m \<leftarrow> (if len < currentLen then memset0 (rtp_mem p) (e + 2 + unat len) (unat currentLen - unat len)
                     else Some (rtp_mem p));
               m \<leftarrow> Set1Byte m (e + 1) len;
               Some (True, p\<lparr>rtp_mem := m\<rparr>) })
        else Some (False, p) })"

definition UpdateMid :: "bytes \<Rightarrow> 'h rtp_packet \<Rightarrow> (bool \<times> 'h rtp_packet) option" where
  "UpdateMid mid p = do {
     e \<leftarrow> GetExtension (midExtensionId (ext_ids p)) p;
     case e of
       None \<Rightarrow> Some (False, p)
     | Some (v, len) \<Rightarrow>
         if length mid > MidMaxLength then Some (False, p)
         else do {
           m \<leftarrow> memcpy_in (rtp_mem p) v mid (length mid);
           (_, p) \<leftarrow> SetExtensionLength (midExtensionId (ext_ids p)) (of_nat (length mid)) (p\<lparr>rtp_mem := m\<rparr>);
           Some (True, p) } }"

record GenericExtension =
  ge_id :: u8
  ge_len :: u8
  ge_value :: bytes

definition ge_skipped :: "nat \<Rightarrow> GenericExtension \<Rightarrow> bool" where
  "ge_skipped type e \<longleftrightarrow>
     (if type = 1 then ge_id e = 0 \<or> ge_id e > 14 \<or> ge_len e = 0 \<or> ge_len e > 16 else ge_id e = 0)"

definition ge_size :: "nat \<Rightarrow> GenericExtension \<Rightarrow> nat" where
  "ge_size type e = (if ge_skipped type e then 0 else type + unat (ge_len e))"

fun write_extensions ::
  "nat \<Rightarrow> GenericExtension list \<Rightarrow> bytes \<Rightarrow> nat \<Rightarrow> (u8 \<rightharpoonup> nat) \<Rightarrow> (bytes \<times> nat \<times> (u8 \<rightharpoonup> nat)) option" where
  "write_extensions type [] m ptr mp = Some (m, ptr, mp)"
| "write_extensions type (e # es) m ptr mp =
     (if ge_skipped type e then write_extensions type es m ptr mp
      else if type = 1 then do {
        m \<leftarrow> Set1Byte m ptr (push_bit 4 (ge_id e) OR ((ge_len e - 1) AND 0x0F));
        m \<leftarrow> memcpy_in m (ptr + 1) (ge_value e) (unat (ge_len e));
        write_extensions type es m (ptr + 1 + unat (ge_len e)) (mp(ge_id e \<mapsto> ptr)) }
      else do {
        m \<leftarrow> Set1Byte m ptr (ge_id e);
        m \<leftarrow> Set1Byte m (ptr + 1) (ge_len e);
        m \<leftarrow> memcpy_in m (ptr + 2) (ge_value e) (unat (ge_len e));
        write_extensions type es m (ptr + 2 + unat (ge_len e)) (mp(ge_id e \<mapsto> ptr)) })"

text \<open>An \<open>int16_t\<close> assigned from an integer.\<close>

definition to_int16 :: "int \<Rightarrow> int" where
  "to_int16 x = sint (word_of_int x :: 16 word)"

definition extension_profile :: "nat \<Rightarrow> u16" where
  "extension_profile type = (if type = 1 then 0xBEDE else 0x1000)"

text \<open>The payload and its padding move by \<open>shift\<close> bytes.\<close>

definition move_payload :: "int \<Rightarrow> 'h rtp_packet \<Rightarrow> 'h rtp_packet option" where
  "move_payload shift p =
     (if int (payload p) + shift < 0 then None
      else do {
        m \<leftarrow> memmove (rtp_mem p) (nat (int (payload p) + shift)) (payload p) (payloadLength p + unat (payloadPadding p));
        Some (p\<lparr>rtp_mem := m, payload := nat (int (payload p) + shift), rtp_size := nat (int (rtp_size p) + shift)\<rparr>) })"

text \<open>The part of \<open>SetExtensions\<close> that makes room: the header extension has the right profile and \<open>tot\<close>
  bytes of value, and the payload follows.\<close>

definition make_extension_room :: "nat \<Rightarrow> nat \<Rightarrow> 'h rtp_packet \<Rightarrow> (nat \<times> 'h rtp_packet) option" where
  "make_extension_room type tot p = (case headerExtension p of
       Some h \<Rightarrow> do {
         one \<leftarrow> HasOneByteExtensions p;
         two \<leftarrow> HasTwoBytesExtensions p;
         m \<leftarrow> (if type = 1 \<and> one \<or> type = 2 \<and> two then Some (rtp_mem p)
               else Set2Bytes (rtp_mem p) h (extension_profile type));
         let p = p\<lparr>rtp_mem := m\<rparr>;
         len \<leftarrow> GetHeaderExtensionLength p;
         let shift = to_int16 (int tot - int len);
         if shift \<noteq> 0 then do {
           p \<leftarrow> move_payload shift p;
           m \<leftarrow> Set2Bytes (rtp_mem p) (h + 2) (of_nat (tot div 4));
           Some (h, p\<lparr>rtp_mem := m\<rparr>) }
         else Some (h, p) }
     | None \<Rightarrow> do {
         b0 \<leftarrow> Get1Byte (rtp_mem p) 0;
         m \<leftarrow> Set1Byte (rtp_mem p) 0 (b0 OR 0x10);
         let h = payload p;
         p \<leftarrow> move_payload (to_int16 (4 + to_int16 (int tot))) (p\<lparr>rtp_mem := m, headerExtension := Some h\<rparr>);
         m \<leftarrow> Set2Bytes (rtp_mem p) h (extension_profile type);
         m \<leftarrow> Set2Bytes m (h + 2) (of_nat (tot div 4));
         Some (h, p\<lparr>rtp_mem := m\<rparr>) })"

definition SetExtensions :: "nat \<Rightarrow> GenericExtension list \<Rightarrow> 'h rtp_packet \<Rightarrow> 'h rtp_packet option" where
  "SetExtensions type es p =
     (if type \<noteq> 1 \<and> type \<noteq> 2 then None
      else
        let p = p\<lparr>ext_ids := no_extension_ids, mapOneByteExtensions := Map.empty, mapTwoBytesExtensions := Map.empty\<rparr>;
            sz = sum_list (map (ge_size type) es);
            tot = unat (PadTo4Bytes16 (of_nat sz))
        in if tot < sz then None
           else do {
             (h, p) \<leftarrow> make_extension_room type tot p;
             (m, ptr, mp) \<leftarrow> write_extensions type es (rtp_mem p) (h + 4) Map.empty;
             m \<leftarrow> memset0 m ptr (tot - sz);
             if ptr + (tot - sz) \<noteq> payload p then None
             else Some (if type = 1 then p\<lparr>rtp_mem := m, mapOneByteExtensions := mp\<rparr>
                        else p\<lparr>rtp_mem := m, mapTwoBytesExtensions := mp\<rparr>) })"

subsection \<open>Payload\<close>

definition SetPayloadLength :: "nat \<Rightarrow> 'h rtp_packet \<Rightarrow> 'h rtp_packet option" where
  "SetPayloadLength len p =
     (let len = unat (PadTo4Bytes16 (of_nat len)) in
      SetPayloadPaddingFlag False (p\<lparr>payloadLength := len, payloadPadding := 0,
        rtp_size := rtp_size p - payloadLength p - unat (payloadPadding p) + len\<rparr>))"

text \<open>\<open>Clone\<close> copies the packet into \<open>buffer\<close>.\<close>

definition Clone :: "bytes \<Rightarrow> 'h rtp_packet \<Rightarrow> 'h rtp_packet option" where
  "Clone buffer p = do {
     bs \<leftarrow> read_bytes (rtp_mem p) 0 SIZEOF_RtpHeader;
     m \<leftarrow> memcpy_in buffer 0 bs SIZEOF_RtpHeader;
     b0 \<leftarrow> Get1Byte (rtp_mem p) 0;
     (m, ptr) \<leftarrow> (case csrcList p of
         None \<Rightarrow> Some (m, SIZEOF_RtpHeader)
       | Some c \<Rightarrow> do {
           let n = b0_csrcCount b0 * 4;
           bs \<leftarrow> read_bytes (rtp_mem p) c n;
           m \<leftarrow> memcpy_in m SIZEOF_RtpHeader bs n;
           Some (m, SIZEOF_RtpHeader + n) });
     extLen \<leftarrow> GetHeaderExtensionLength p;
     (m, he, ptr) \<leftarrow> (case headerExtension p of
         None \<Rightarrow> Some (m, None, ptr)
       | Some h \<Rightarrow> do {
           let n = 4 + extLen;
           bs \<leftarrow> read_bytes (rtp_mem p) h n;
           m \<leftarrow> memcpy_in m ptr bs n;
           Some (m, Some ptr, ptr + n) });
     bs \<leftarrow> read_bytes (rtp_mem p) (payload p) (payloadLength p);
     m \<leftarrow> memcpy_in m ptr bs (payloadLength p);
     let newPayload = ptr;
     let ptr = ptr + payloadLength p;
     m \<leftarrow> (if payloadPadding p \<noteq> 0 then Set1Byte m (ptr + unat (payloadPadding p) - 1) (payloadPadding p) else Some m);
     if ptr + unat (payloadPadding p) \<noteq> rtp_size p then None
     else do {
       q \<leftarrow> RtpPacket_ctor m he newPayload (payloadLength p) (payloadPadding p) (rtp_size p);
       Some (q\<lparr>ext_ids := ext_ids p\<rparr>) } }"

text \<open>The end of \<open>RtxEncode\<close> and \<open>RtxDecode\<close>: padding is dropped.\<close>

definition drop_padding :: "'h rtp_packet \<Rightarrow> 'h rtp_packet option" where
  "drop_padding p =
     (if payloadPadding p \<noteq> 0 then do {
        p \<leftarrow> SetPayloadPaddingFlag False p;
        Some (p\<lparr>rtp_size := rtp_size p - unat (payloadPadding p), payloadPadding := 0\<rparr>) }
      else Some p)"

definition RtxEncode :: "u8 \<Rightarrow> u32 \<Rightarrow> u16 \<Rightarrow> 'h rtp_packet \<Rightarrow> 'h rtp_packet option" where
  "RtxEncode pt ssrc seq p = do {
     p \<leftarrow> SetPayloadType pt p;
     p \<leftarrow> SetSsrc ssrc p;
     m \<leftarrow> memmove (rtp_mem p) (payload p + 2) (payload p) (payloadLength p);
     origSeq \<leftarrow> GetSequenceNumber (p\<lparr>rtp_mem := m\<rparr>);
     m \<leftarrow> Set2Bytes m (payload p) origSeq;
     p \<leftarrow> SetSequenceNumber seq (p\<lparr>rtp_mem := m\<rparr>);
     drop_padding (p\<lparr>payloadLength := payloadLength p + 2, rtp_size := rtp_size p + 2\<rparr>) }"

definition RtxDecode :: "u8 \<Rightarrow> u32 \<Rightarrow> 'h rtp_packet \<Rightarrow> (bool \<times> 'h rtp_packet) option" where
  "RtxDecode pt ssrc p =
     (if payloadLength p < 2 then Some (False, p)
      else do {
        p \<leftarrow> SetPayloadType pt p;
        seq \<leftarrow> Get2Bytes (rtp_mem p) (payload p);
        p \<leftarrow> SetSequenceNumber seq p;
        p \<leftarrow> SetSsrc ssrc p;
        m \<leftarrow> memmove (rtp_mem p) (payload p) (payload p + 2) (payloadLength p - 2);
        p \<leftarrow> drop_padding (p\<lparr>rtp_mem := m, payloadLength := payloadLength p - 2, rtp_size := rtp_size p - 2\<rparr>);
        Some (True, p) })"

definition ShiftPayload :: "nat \<Rightarrow> nat \<Rightarrow> bool \<Rightarrow> 'h rtp_packet \<Rightarrow> 'h rtp_packet option" where
  "ShiftPayload payloadOffset shift expand p =
     (if shift = 0 then Some p
      else if \<not> payloadOffset < payloadLength p then None
      else if \<not> expand \<and> \<not> shift \<le> payloadLength p - payloadOffset then None
      else
        let ptr = payload p + payloadOffset in
        if expand then do {
          m \<leftarrow> memmove (rtp_mem p) (ptr + shift) ptr (payloadLength p + unat (payloadPadding p) - payloadOffset);
          Some (p\<lparr>rtp_mem := m, payloadLength := payloadLength p + shift, rtp_size := rtp_size p + shift\<rparr>) }
        else do {
          m \<leftarrow> memmove (rtp_mem p) ptr (ptr + shift) (payloadLength p + unat (payloadPadding p) - payloadOffset - shift);
          Some (p\<lparr>rtp_mem := m, payloadLength := payloadLength p - shift, rtp_size := rtp_size p - shift\<rparr>) })"

text \<open>\<open>ProcessPayload\<close> and \<open>RestorePayload\<close>: the handler's \<open>Process\<close> may rewrite the memory from the payload on
  and its context, and says whether the packet is to be sent and whether it needs the marker;
  \<open>Restore\<close> only rewrites the memory.\<close>

definition ProcessPayload ::
  "('c \<Rightarrow> 'h \<Rightarrow> nat \<Rightarrow> bytes \<Rightarrow> (bool \<times> bool \<times> 'c \<times> bytes) option) \<Rightarrow> 'c \<Rightarrow> 'h rtp_packet \<Rightarrow> (bool \<times> 'c \<times> 'h rtp_packet) option" where
  "ProcessPayload process ctx p = (case payloadDescriptorHandler p of
       None \<Rightarrow> Some (True, ctx, p)
     | Some h \<Rightarrow> do {
         (ok, marker, ctx, m) \<leftarrow> process ctx h (payload p) (rtp_mem p);
         let p = p\<lparr>rtp_mem := m\<rparr>;
         if ok then do {
           p \<leftarrow> (if marker then SetMarker True p else Some p);
           Some (True, ctx, p) }
         else Some (False, ctx, p) })"

definition RestorePayload :: "('h \<Rightarrow> nat \<Rightarrow> bytes \<Rightarrow> bytes option) \<Rightarrow> 'h rtp_packet \<Rightarrow> 'h rtp_packet option" where
  "RestorePayload restore p = (case payloadDescriptorHandler p of
       None \<Rightarrow> Some p
     | Some h \<Rightarrow> do { m \<leftarrow> restore h (payload p) (rtp_mem p); Some (p\<lparr>rtp_mem := m\<rparr>) })"

definition IsKeyFrame :: "('h \<Rightarrow> bool) \<Rightarrow> 'h rtp_packet \<Rightarrow> bool" where
  "IsKeyFrame isKeyFrame p = (case payloadDescriptorHandler p of None \<Rightarrow> False | Some h \<Rightarrow> isKeyFrame h)"

definition GetLayer :: "('h \<Rightarrow> u8) \<Rightarrow> 'h rtp_packet \<Rightarrow> u8" where
  "GetLayer getLayer p = (case payloadDescriptorHandler p of None \<Rightarrow> 0 | Some h \<Rightarrow> getLayer h)"

text \<open>The producer tells the packet which extension id stands for what.\<close>

definition SetMidExtensionId :: "u8 \<Rightarrow> 'h rtp_packet \<Rightarrow> 'h rtp_packet" where
  "SetMidExtensionId i p = p\<lparr>ext_ids := (ext_ids p)\<lparr>midExtensionId := i\<rparr>\<rparr>"

definition SetRidExtensionId :: "u8 \<Rightarrow> 'h rtp_packet \<Rightarrow> 'h rtp_packet" where
  "SetRidExtensionId i p = p\<lparr>ext_ids := (ext_ids p)\<lparr>ridExtensionId := i\<rparr>\<rparr>"

definition SetRepairedRidExtensionId :: "u8 \<Rightarrow> 'h rtp_packet \<Rightarrow> 'h rtp_packet" where
  "SetRepairedRidExtensionId i p = p\<lparr>ext_ids := (ext_ids p)\<lparr>rridExtensionId := i\<rparr>\<rparr>"

definition SetAbsSendTimeExtensionId :: "u8 \<Rightarrow> 'h rtp_packet \<Rightarrow> 'h rtp_packet" where
  "SetAbsSendTimeExtensionId i p = p\<lparr>ext_ids := (ext_ids p)\<lparr>absSendTimeExtensionId := i\<rparr>\<rparr>"

definition SetTransportWideCc01ExtensionId :: "u8 \<Rightarrow> 'h rtp_packet \<Rightarrow> 'h rtp_packet" where
  "SetTransportWideCc01ExtensionId i p = p\<lparr>ext_ids := (ext_ids p)\<lparr>transportWideCc01ExtensionId := i\<rparr>\<rparr>"

definition SetFrameMarking07ExtensionId :: "u8 \<Rightarrow> 'h rtp_packet \<Rightarrow> 'h rtp_packet" where
  "SetFrameMarking07ExtensionId i p = p\<lparr>ext_ids := (ext_ids p)\<lparr>frameMarking07ExtensionId := i\<rparr>\<rparr>"

definition SetFrameMarkingExtensionId :: "u8 \<Rightarrow> 'h rtp_packet \<Rightarrow> 'h rtp_packet" where
  "SetFrameMarkingExtensionId i p = p\<lparr>ext_ids := (ext_ids p)\<lparr>frameMarkingExtensionId := i\<rparr>\<rparr>"

definition SetSsrcAudioLevelExtensionId :: "u8 \<Rightarrow> 'h rtp_packet \<Rightarrow> 'h rtp_packet" where
  "SetSsrcAudioLevelExtensionId i p = p\<lparr>ext_ids := (ext_ids p)\<lparr>ssrcAudioLevelExtensionId := i\<rparr>\<rparr>"

definition SetVideoOrientationExtensionId :: "u8 \<Rightarrow> 'h rtp_packet \<Rightarrow> 'h rtp_packet" where
  "SetVideoOrientationExtensionId i p = p\<lparr>ext_ids := (ext_ids p)\<lparr>videoOrientationExtensionId := i\<rparr>\<rparr>"

definition SetPayloadDescriptorHandler :: "'h option \<Rightarrow> 'h rtp_packet \<Rightarrow> 'h rtp_packet" where
  "SetPayloadDescriptorHandler h p = p\<lparr>payloadDescriptorHandler := h\<rparr>"

subsection \<open>Layout of a packet in memory\<close>

definition rtp_csrc_end :: "bytes \<Rightarrow> nat" where
  "rtp_csrc_end m = SIZEOF_RtpHeader + b0_csrcCount (m ! 0) * 4"

definition rtp_ext_size :: "bytes \<Rightarrow> nat" where
  "rtp_ext_size m = unat (the (Get2Bytes m (rtp_csrc_end m + 2))) * 4"

definition rtp_payload_start :: "bytes \<Rightarrow> nat" where
  "rtp_payload_start m = rtp_csrc_end m + (if bit (m ! 0) 4 then 4 + rtp_ext_size m else 0)"

definition rtp_layout :: "bytes \<Rightarrow> nat \<Rightarrow> nat \<Rightarrow> u8 \<Rightarrow> bool" where
  "rtp_layout m len plen pad \<longleftrightarrow> len \<le> length m \<and> 127 < m ! 0 \<and> m ! 0 < 192 \<and>
     rtp_payload_start m + plen + unat pad = len \<and> (bit (m ! 0) 5 \<longleftrightarrow> pad \<noteq> 0) \<and> (pad \<noteq> 0 \<longrightarrow> m ! (len - 1) = pad)"

lemma rtp_version: "127 < b \<Longrightarrow> b < 192 \<Longrightarrow> drop_bit 6 b = 2" for b :: u8
proof -
  assume "127 < b" "b < 192"
  then have "127 < unat b" "unat b < 192" by (simp_all add: word_less_nat_alt)
  then have "unat b div 64 = 2" by simp
  then show ?thesis by (simp add: word_unat_eq_iff drop_bit_eq_div unat_div_distrib)
qed

lemma IsRtp_take:
  "len \<le> length m \<Longrightarrow> IsRtp (take len m) = Some (12 \<le> len \<and> 127 < m ! 0 \<and> m ! 0 < 192)"
  using rtp_version [of "m ! 0"] by (auto simp: IsRtp_def Get1Byte_def)

lemma rtp_csrc_end_ge: "12 \<le> rtp_csrc_end m" "rtp_csrc_end m \<le> rtp_payload_start m"
  by (simp_all add: rtp_csrc_end_def rtp_payload_start_def)

lemma parse_extension_header_take:
  assumes "len \<le> length m" "12 \<le> len"
  shows "parse_extension_header (take len m) len (rtp_csrc_end m) =
    Some (if bit (m ! 0) 4 \<and> (len < rtp_csrc_end m + 4 \<or> len < rtp_payload_start m) then None
          else Some (if bit (m ! 0) 4 then Some (rtp_csrc_end m) else None, rtp_payload_start m))"
proof -
  have b0: "Get1Byte (take len m) 0 = Some (m ! 0)" using assms by (simp add: Get1Byte_def)
  have "Get2Bytes (take len m) (rtp_csrc_end m + 2) = Some (the (Get2Bytes m (rtp_csrc_end m + 2)))"
    if "rtp_csrc_end m + 4 \<le> len"
    using that assms byte2.get_take [of "rtp_csrc_end m + 2" len m] byte2.get_ex [of "rtp_csrc_end m + 2" m]
    by auto
  then show ?thesis
    by (auto simp: parse_extension_header_def b0 rtp_payload_start_def rtp_ext_size_def not_less)
qed

lemma parse_padding_take:
  assumes "len \<le> length m" "12 \<le> len" "n \<le> len"
  shows "parse_padding (take len m) len n =
    Some (if bit (m ! 0) 5 then if n = 0 \<or> m ! (len - 1) = 0 \<or> n < unat (m ! (len - 1)) then None
            else Some (n - unat (m ! (len - 1)), m ! (len - 1))
          else Some (n, 0))"
  using assms by (auto simp: parse_padding_def Get1Byte_def)

lemma RtpPacket_Parse_layout:
  assumes "rtp_layout m len plen pad"
  shows "RtpPacket_Parse m len =
    map_option Some (RtpPacket_ctor m (if bit (m ! 0) 4 then Some (rtp_csrc_end m) else None) (rtp_payload_start m) plen pad len)"
proof -
  note l = assms [unfolded rtp_layout_def]
  have ge: "12 \<le> rtp_csrc_end m" "rtp_csrc_end m \<le> len" "12 \<le> len" "rtp_payload_start m \<le> len"
    using l rtp_csrc_end_ge [of m] by auto
  have ext: "bit (m ! 0) 4 \<Longrightarrow> rtp_csrc_end m + 4 \<le> len" using ge by (simp add: rtp_payload_start_def)
  have peh: "parse_extension_header (take len m) len (rtp_csrc_end m) =
      Some (Some (if bit (m ! 0) 4 then Some (rtp_csrc_end m) else None, rtp_payload_start m))"
    using parse_extension_header_take [of len m] l ge ext by (auto simp: not_less)
  have "len - rtp_payload_start m = plen + unat pad" using l by linarith
  then have pp: "parse_padding (take len m) len (len - rtp_payload_start m) = Some (Some (plen, pad))"
    using parse_padding_take [of len m "len - rtp_payload_start m"] l ge by (auto simp: unat_gt_0 unat_eq_zero)
  have "Get1Byte (take len m) 0 = Some (m ! 0)" using l ge by (simp add: Get1Byte_def)
  then show ?thesis
    using l ge IsRtp_take [of len m] peh pp
    unfolding RtpPacket_Parse_def Let_def
    by (auto simp: rtp_csrc_end_def rtp_payload_start_def)
qed

lemma RtpPacket_Parse_no_layout:
  assumes "len \<le> length m" and "\<nexists>plen pad. rtp_layout m len plen pad"
  shows "RtpPacket_Parse m len = Some None"
proof (cases "12 \<le> len \<and> 127 < m ! 0 \<and> m ! 0 < 192")
  case True
  have b0: "Get1Byte (take len m) 0 = Some (m ! 0)" using True assms by (simp add: Get1Byte_def)
  show ?thesis
  proof (cases "rtp_payload_start m \<le> len")
    case le: True
    then have ce: "rtp_csrc_end m \<le> len" "bit (m ! 0) 4 \<Longrightarrow> rtp_csrc_end m + 4 \<le> len"
      by (auto simp: rtp_payload_start_def)
    let ?n = "len - rtp_payload_start m" and ?pad = "m ! (len - 1)"
    have "\<not> rtp_layout m len ?n 0" "\<not> rtp_layout m len (?n - unat ?pad) ?pad" using assms(2) by blast+
    then have "parse_padding (take len m) len ?n = Some None"
      using parse_padding_take [of len m ?n] True le assms(1) by (auto simp: rtp_layout_def)
    then show ?thesis
      using True le ce IsRtp_take [of len m] parse_extension_header_take [of len m] assms(1) b0
      unfolding RtpPacket_Parse_def Let_def by (auto simp: rtp_csrc_end_def)
  next
    case False
    then show ?thesis
      using True IsRtp_take [of len m] parse_extension_header_take [of len m] assms(1) b0
      unfolding RtpPacket_Parse_def Let_def by (auto simp: rtp_csrc_end_def rtp_payload_start_def)
  qed
next
  case False
  then show ?thesis using IsRtp_take [OF assms(1)] by (auto simp: RtpPacket_Parse_def)
qed

subsection \<open>Well-formed packets\<close>

text \<open>Every stored element of the header extension lies between \<open>start\<close> and \<open>e\<close> with its value.\<close>

definition one_byte_ok :: "bytes \<Rightarrow> nat \<Rightarrow> nat \<Rightarrow> (u8 \<rightharpoonup> nat) \<Rightarrow> bool" where
  "one_byte_ok m start e mp \<longleftrightarrow> (\<forall>i ptr. mp i = Some ptr \<longrightarrow> start \<le> ptr \<and> ptr + 2 + unat (m ! ptr AND 0x0F) \<le> e)"

definition two_bytes_ok :: "bytes \<Rightarrow> nat \<Rightarrow> nat \<Rightarrow> (u8 \<rightharpoonup> nat) \<Rightarrow> bool" where
  "two_bytes_ok m start e mp \<longleftrightarrow> (\<forall>i ptr. mp i = Some ptr \<longrightarrow> start \<le> ptr \<and> ptr + 2 + unat (m ! (ptr + 1)) \<le> e)"

lemma skip_zeros_defined: "e \<le> length m \<Longrightarrow> \<exists>q. skip_zeros m ptr e = Some q"
proof (induction m ptr e rule: skip_zeros.induct)
  case (1 m ptr e)
  then show ?case by (subst skip_zeros.simps) (auto simp: Get1Byte_def)
qed

lemma one_byte_loop_ok:
  "e \<le> length m \<Longrightarrow> start \<le> ptr \<Longrightarrow> one_byte_ok m start e mp \<Longrightarrow>
   \<exists>mp'. one_byte_loop m e ptr mp = Some mp' \<and> one_byte_ok m start e mp'"
proof (induction m e ptr mp rule: one_byte_loop.induct)
  case (1 m e ptr mp)
  show ?case
  proof (cases "ptr < e")
    case True
    let ?i = "drop_bit 4 (m ! ptr AND 0xF0)" and ?l = "unat (m ! ptr AND 0x0F) + 1"
    have b: "Get1Byte m ptr = Some (m ! ptr)" using True 1(3) by (simp add: Get1Byte_def)
    obtain q1 where q1: "skip_zeros m (ptr + (1 + ?l)) e = Some q1" using skip_zeros_defined [OF 1(3)] by blast
    obtain q2 where q2: "skip_zeros m (ptr + 1) e = Some q2" using skip_zeros_defined [OF 1(3)] by blast
    have ge: "start \<le> q1" "start \<le> q2" using skip_zeros_ge [OF q1] skip_zeros_ge [OF q2] 1(4) by auto
    have "one_byte_ok m start e (mp(?i \<mapsto> ptr))" if "ptr + 1 + ?l \<le> e"
      using 1(4,5) that by (auto simp: one_byte_ok_def)
    then have "\<exists>mp'. one_byte_loop m e q1 (mp(?i \<mapsto> ptr)) = Some mp' \<and> one_byte_ok m start e mp'"
      if "?i \<noteq> 15" "?i \<noteq> 0" "\<not> ptr + 1 + ?l > e"
      using that ge(1) by (intro 1(1) [OF True b refl refl _ _ _ q1]) (simp_all add: 1(3) not_less del: fun_upd_apply)
    moreover have "\<exists>mp'. one_byte_loop m e q2 mp = Some mp' \<and> one_byte_ok m start e mp'" if "?i \<noteq> 15" "\<not> ?i \<noteq> 0"
      using that ge(2) 1(3,5) by (intro 1(2) [OF True b refl refl _ _ q2]) auto
    ultimately show ?thesis using True 1(5) b q1 q2
      by (subst one_byte_loop.simps) (auto simp: Let_def)
  next
    case False
    then show ?thesis using 1(5) by (simp add: one_byte_loop.simps)
  qed
qed

lemma two_bytes_loop_ok:
  "e \<le> length m \<Longrightarrow> start \<le> ptr \<Longrightarrow> two_bytes_ok m start e mp \<Longrightarrow>
   \<exists>mp'. two_bytes_loop m e ptr mp = Some mp' \<and> two_bytes_ok m start e mp'"
proof (induction m e ptr mp rule: two_bytes_loop.induct)
  case (1 m e ptr mp)
  show ?case
  proof (cases "ptr + 1 < e")
    case True
    let ?i = "m ! ptr" and ?l = "m ! (ptr + 1)"
    have b: "Get1Byte m ptr = Some ?i" "Get1Byte m (ptr + 1) = Some ?l" using True 1(3) by (simp_all add: Get1Byte_def)
    obtain q1 where q1: "skip_zeros m (ptr + (2 + unat ?l)) e = Some q1" using skip_zeros_defined [OF 1(3)] by blast
    obtain q2 where q2: "skip_zeros m (ptr + 1) e = Some q2" using skip_zeros_defined [OF 1(3)] by blast
    have ge: "start \<le> q1" "start \<le> q2" using skip_zeros_ge [OF q1] skip_zeros_ge [OF q2] 1(4) by auto
    have "two_bytes_ok m start e (mp(?i \<mapsto> ptr))" if "ptr + 2 + unat ?l \<le> e"
      using 1(4,5) that by (auto simp: two_bytes_ok_def)
    then have "\<exists>mp'. two_bytes_loop m e q1 (mp(?i \<mapsto> ptr)) = Some mp' \<and> two_bytes_ok m start e mp'"
      if "?i \<noteq> 0" "\<not> ptr + 2 + unat ?l > e"
      using that ge(1) by (intro 1(1) [OF True _ b(1) b(2) _ _ q1]) (simp_all add: 1(3) b not_less del: fun_upd_apply)
    moreover have "\<exists>mp'. two_bytes_loop m e q2 mp = Some mp' \<and> two_bytes_ok m start e mp'" if "\<not> ?i \<noteq> 0"
      using that ge(2) 1(3,5) by (intro 1(2) [OF True _ b(1) b(2) _ q2]) (auto simp: b)
    ultimately show ?thesis using True 1(5) b q1 q2
      by (subst two_bytes_loop.simps) auto
  next
    case False
    then show ?thesis using 1(5) by (simp add: two_bytes_loop.simps)
  qed
qed

text \<open>A well-formed packet: its memory has the layout of an RTP packet whose parts the members describe.\<close>

definition rtp_wf :: "'h rtp_packet \<Rightarrow> bool" where
  "rtp_wf p \<longleftrightarrow> (let m = rtp_mem p in
     rtp_layout m (rtp_size p) (payloadLength p) (payloadPadding p) \<and>
     csrcList p = (if b0_csrcCount (m ! 0) \<noteq> 0 then Some 12 else None) \<and>
     headerExtension p = (if bit (m ! 0) 4 then Some (rtp_csrc_end m) else None) \<and>
     payload p = rtp_payload_start m \<and>
     one_byte_ok m (rtp_csrc_end m + 4) (payload p) (mapOneByteExtensions p) \<and>
     two_bytes_ok m (rtp_csrc_end m + 4) (payload p) (mapTwoBytesExtensions p))"

lemma rtp_layout_bounds:
  assumes "rtp_layout m len plen pad"
  shows "12 \<le> len" "len \<le> length m" "rtp_payload_start m \<le> len"
    "bit (m ! 0) 4 \<Longrightarrow> rtp_csrc_end m + 4 + rtp_ext_size m = rtp_payload_start m"
  using assms rtp_csrc_end_ge [of m] by (auto simp: rtp_layout_def rtp_payload_start_def)

lemma GetHeaderExtension_wf:
  assumes "rtp_layout (rtp_mem p) len plen pad" "headerExtension p = Some h" "bit (rtp_mem p ! 0) 4" "h = rtp_csrc_end (rtp_mem p)"
  shows "\<exists>i. GetHeaderExtensionId p = Some i" "GetHeaderExtensionLength p = Some (rtp_ext_size (rtp_mem p))"
proof -
  have "h + 4 \<le> length (rtp_mem p)" using rtp_layout_bounds [OF assms(1)] assms(3,4) by simp
  with assms(2,4) byte2.get_ex [of h "rtp_mem p"] byte2.get_ex [of "h + 2" "rtp_mem p"]
  show "\<exists>i. GetHeaderExtensionId p = Some i" "GetHeaderExtensionLength p = Some (rtp_ext_size (rtp_mem p))"
    by (auto simp: GetHeaderExtensionId_def GetHeaderExtensionLength_def rtp_ext_size_def)
qed

lemma ParseExtensions_wf:
  assumes wf: "rtp_wf p"
  shows "\<exists>m1 m2. ParseExtensions p = Some (p\<lparr>mapOneByteExtensions := m1, mapTwoBytesExtensions := m2\<rparr>) \<and>
    rtp_wf (p\<lparr>mapOneByteExtensions := m1, mapTwoBytesExtensions := m2\<rparr>)"
proof (cases "bit (rtp_mem p ! 0) 4")
  case True
  let ?m = "rtp_mem p" and ?c = "rtp_csrc_end (rtp_mem p)"
  have l: "rtp_layout ?m (rtp_size p) (payloadLength p) (payloadPadding p)" and h: "headerExtension p = Some ?c"
    and pl: "payload p = rtp_payload_start ?m" using wf True by (simp_all add: rtp_wf_def Let_def)
  note bounds = rtp_layout_bounds [OF l]
  obtain i where i: "GetHeaderExtensionId p = Some i" "GetHeaderExtensionLength p = Some (rtp_ext_size ?m)"
    using GetHeaderExtension_wf [OF l h True refl] by blast
  have e: "?c + 4 + rtp_ext_size ?m = rtp_payload_start ?m" "rtp_payload_start ?m \<le> length ?m" using bounds True by auto
  have empty: "one_byte_ok ?m (?c + 4) (rtp_payload_start ?m) Map.empty" "two_bytes_ok ?m (?c + 4) (rtp_payload_start ?m) Map.empty"
    by (simp_all add: one_byte_ok_def two_bytes_ok_def)
  from one_byte_loop_ok [OF e(2) order_refl empty(1)] two_bytes_loop_ok [OF e(2) order_refl empty(2)]
  obtain mp1 mp2 where mp: "one_byte_loop ?m (rtp_payload_start ?m) (?c + 4) Map.empty = Some mp1"
      "one_byte_ok ?m (?c + 4) (rtp_payload_start ?m) mp1"
      "two_bytes_loop ?m (rtp_payload_start ?m) (?c + 4) Map.empty = Some mp2"
      "two_bytes_ok ?m (?c + 4) (rtp_payload_start ?m) mp2" by blast
  have "ParseExtensions p = Some (if i = 0xBEDE then p\<lparr>mapOneByteExtensions := mp1\<rparr>
      else if i AND 0xFFF0 = 0x1000 then p\<lparr>mapTwoBytesExtensions := mp2\<rparr> else p)"
    by (simp add: ParseExtensions_def HasOneByteExtensions_def HasTwoBytesExtensions_def i h e mp)
  moreover have "rtp_wf (p\<lparr>mapOneByteExtensions := mp1\<rparr>)" "rtp_wf (p\<lparr>mapTwoBytesExtensions := mp2\<rparr>)"
    using wf mp pl by (simp_all add: rtp_wf_def Let_def)
  ultimately show ?thesis
    by (intro exI [of _ "if i = 0xBEDE then mp1 else mapOneByteExtensions p"]
        exI [of _ "if i \<noteq> 0xBEDE \<and> i AND 0xFFF0 = 0x1000 then mp2 else mapTwoBytesExtensions p"])
      (use wf in auto)
next
  case False
  then have "headerExtension p = None" using wf by (simp add: rtp_wf_def Let_def)
  then have "ParseExtensions p = Some (p\<lparr>mapOneByteExtensions := mapOneByteExtensions p, mapTwoBytesExtensions := mapTwoBytesExtensions p\<rparr>)"
    by (simp add: ParseExtensions_def HasOneByteExtensions_def HasTwoBytesExtensions_def GetHeaderExtensionId_def
        GetHeaderExtensionLength_def)
  with wf show ?thesis by (metis rtp_packet.surjective rtp_packet.update_convs(4,5))
qed

lemma RtpPacket_ctor_wf:
  assumes l: "rtp_layout m len plen pad"
  shows "\<exists>q. RtpPacket_ctor m (if bit (m ! 0) 4 then Some (rtp_csrc_end m) else None) (rtp_payload_start m) plen pad len = Some q \<and>
    rtp_wf q \<and> rtp_mem q = m \<and> rtp_size q = len \<and> payloadLength q = plen \<and> payloadPadding q = pad \<and> payloadDescriptorHandler q = None"
proof -
  have b0: "Get1Byte m 0 = Some (m ! 0)" using rtp_layout_bounds [OF l] by (auto simp: Get1Byte_def)
  let ?p = "\<lparr>rtp_mem = m, csrcList = (if b0_csrcCount (m ! 0) \<noteq> 0 then Some SIZEOF_RtpHeader else None),
     headerExtension = (if bit (m ! 0) 4 then Some (rtp_csrc_end m) else None),
     mapOneByteExtensions = Map.empty, mapTwoBytesExtensions = Map.empty,
     ext_ids = no_extension_ids, payload = rtp_payload_start m, payloadLength = plen, payloadPadding = pad, rtp_size = len,
     payloadDescriptorHandler = None\<rparr>"
  have "rtp_wf ?p" using l by (simp add: rtp_wf_def Let_def one_byte_ok_def two_bytes_ok_def)
  from ParseExtensions_wf [OF this] show ?thesis unfolding RtpPacket_ctor_def b0 by auto
qed

text \<open>C17: \<open>RtpPacket::Parse\<close> is memory safe on every input: it reads only the \<open>len\<close> bytes of the packet, none
  of its assertions fails, it returns a packet exactly when the bytes have the layout of one, and
  then the members describe it: the extension elements it found and the payload lie inside the
  received bytes.\<close>

theorem RtpPacket_Parse_safe:
  assumes "len \<le> length m"
  shows "\<exists>r :: 'h rtp_packet option. RtpPacket_Parse m len = Some r \<and> (r = None \<longleftrightarrow> (\<nexists>plen pad. rtp_layout m len plen pad)) \<and>
    (\<forall>p. r = Some p \<longrightarrow> rtp_wf p \<and> rtp_mem p = m \<and> rtp_size p = len)"
proof (cases "\<exists>plen pad. rtp_layout m len plen pad")
  case True
  then obtain plen pad where l: "rtp_layout m len plen pad" by blast
  from RtpPacket_Parse_layout [where 'a = 'h, OF l] RtpPacket_ctor_wf [where 'a = 'h, OF l]
  obtain q :: "'h rtp_packet" where "RtpPacket_Parse m len = Some (Some q)" "rtp_wf q" "rtp_mem q = m" "rtp_size q = len"
    by auto
  with True show ?thesis by (intro exI [of _ "Some q"]) simp
next
  case False
  with RtpPacket_Parse_no_layout [OF assms] show ?thesis by auto
qed

theorem RtpPacket_Parse_safe_witness:
  "\<exists>r :: unit rtp_packet option.
     RtpPacket_Parse [0x90, 111, 0, 8, 0, 0, 0, 4, 0, 0, 0, 5, 0xBE, 0xDE, 0, 1, 0x10, 0xFF, 0, 0, 0x11, 0x11] 22 = Some r \<and>
     (\<forall>p. r = Some p \<longrightarrow> rtp_wf p \<and> rtp_size p = 22)"
proof -
  let ?m = "[0x90, 111, 0, 8, 0, 0, 0, 4, 0, 0, 0, 5, 0xBE, 0xDE, 0, 1, 0x10, 0xFF, 0, 0, 0x11, 0x11] :: bytes"
  have "22 \<le> length ?m" by simp
  from RtpPacket_Parse_safe [OF this] show ?thesis by blast
qed

subsection \<open>Writes and their frames\<close>

lemma memmove_nth:
  assumes "memmove m dst src n = Some m'"
  shows "length m' = length m" "i < length m \<Longrightarrow> m' ! i = (if dst \<le> i \<and> i < dst + n then m ! (src + (i - dst)) else m ! i)"
  using assms by (auto simp: memmove_def nth_append split: if_splits)

lemma memcpy_in_nth:
  assumes "memcpy_in m dst src n = Some m'"
  shows "length m' = length m" "i < length m \<Longrightarrow> m' ! i = (if dst \<le> i \<and> i < dst + n then src ! (i - dst) else m ! i)"
  using assms by (auto simp: memcpy_in_def nth_append split: if_splits)

lemma Set1Byte_nth:
  assumes "Set1Byte m i v = Some m'"
  shows "length m' = length m" "m' ! i = v" "j \<noteq> i \<Longrightarrow> m' ! j = m ! j"
  using assms by (auto simp: Set1Byte_def split: if_splits)

lemma Set2Bytes_nth:
  assumes "Set2Bytes m i v = Some m'"
  shows "length m' = length m" "j < length m \<Longrightarrow> j < i \<or> i + 2 \<le> j \<Longrightarrow> m' ! j = m ! j" "Get2Bytes m' i = Some v"
proof -
  from assms have i: "i + 2 \<le> length m" and m': "m' = take i m @ put2 v @ drop (i + 2) m"
    by (auto simp: Set2Bytes_eq split: if_splits)
  then show "length m' = length m" "Get2Bytes m' i = Some v"
    using byte2.get_put_mid [of "take i m" v] by (simp_all add: byte2.length_put)
  show "m' ! j = m ! j" if "j < length m" "j < i \<or> i + 2 \<le> j"
    using take_put_drop_nth [of i "put2 v" m j] i that by (simp add: m' byte2.length_put)
qed

lemma Set4Bytes_nth:
  assumes "Set4Bytes m i v = Some m'"
  shows "length m' = length m" "j < length m \<Longrightarrow> j < i \<or> i + 4 \<le> j \<Longrightarrow> m' ! j = m ! j" "Get4Bytes m' i = Some v"
proof -
  from assms have i: "i + 4 \<le> length m" and m': "m' = take i m @ put4 v @ drop (i + 4) m"
    by (auto simp: Set4Bytes_eq split: if_splits)
  then show "length m' = length m" "Get4Bytes m' i = Some v"
    using byte4.get_put_mid [of "take i m" v] by (simp_all add: byte4.length_put)
  show "m' ! j = m ! j" if "j < length m" "j < i \<or> i + 4 \<le> j"
    using take_put_drop_nth [of i "put4 v" m j] i that by (simp add: m' byte4.length_put)
qed

text \<open>The layout up to the payload depends on the first byte and on the bytes from the CSRC list to the
  payload only.\<close>

definition same_headers :: "bytes \<Rightarrow> bytes \<Rightarrow> bool" where
  "same_headers m m' \<longleftrightarrow> length m' = length m \<and> b0_csrcCount (m' ! 0) = b0_csrcCount (m ! 0) \<and>
     bit (m' ! 0) 4 = bit (m ! 0) 4 \<and> 127 < m' ! 0 \<and> m' ! 0 < 192 \<and>
     (\<forall>i. 12 \<le> i \<and> i < rtp_payload_start m \<longrightarrow> m' ! i = m ! i)"

lemma same_headers_start:
  assumes "same_headers m m'"
  shows "rtp_csrc_end m' = rtp_csrc_end m" "rtp_payload_start m' = rtp_payload_start m"
proof -
  show c: "rtp_csrc_end m' = rtp_csrc_end m" using assms by (simp add: same_headers_def rtp_csrc_end_def)
  have "rtp_ext_size m' = rtp_ext_size m" if "bit (m ! 0) 4"
    unfolding rtp_ext_size_def c
    using assms that rtp_csrc_end_ge [of m]
    by (subst byte2.get_cong [of m' m]) (auto simp: same_headers_def rtp_payload_start_def)
  then show "rtp_payload_start m' = rtp_payload_start m"
    using assms by (simp add: rtp_payload_start_def c same_headers_def)
qed

lemma same_headers_ok:
  assumes "same_headers m m'" "12 \<le> s"
  shows "one_byte_ok m s (rtp_payload_start m) mp \<Longrightarrow> one_byte_ok m' s (rtp_payload_start m) mp"
    and "two_bytes_ok m s (rtp_payload_start m) mp \<Longrightarrow> two_bytes_ok m' s (rtp_payload_start m) mp"
  using assms by (fastforce simp: one_byte_ok_def two_bytes_ok_def same_headers_def)+

text \<open>A change behind the headers, or of header fields other than the first byte's layout bits, keeps a packet
  well-formed if size and padding agree with the memory.\<close>

lemma rtp_wf_change:
  assumes wf: "rtp_wf p" and same: "same_headers (rtp_mem p) (rtp_mem q)"
    and members: "csrcList q = csrcList p" "headerExtension q = headerExtension p" "payload q = payload p"
      "mapOneByteExtensions q = mapOneByteExtensions p" "mapTwoBytesExtensions q = mapTwoBytesExtensions p"
    and size: "rtp_size q = payload q + payloadLength q + unat (payloadPadding q)" "rtp_size q \<le> length (rtp_mem p)"
    and pad: "bit (rtp_mem q ! 0) 5 \<longleftrightarrow> payloadPadding q \<noteq> 0"
      "payloadPadding q \<noteq> 0 \<Longrightarrow> rtp_mem q ! (rtp_size q - 1) = payloadPadding q"
  shows "rtp_wf q"
proof -
  note start = same_headers_start [OF same]
  have len: "length (rtp_mem q) = length (rtp_mem p)" and b0: "127 < rtp_mem q ! 0" "rtp_mem q ! 0 < 192"
    using same by (auto simp: same_headers_def)
  have "12 \<le> rtp_csrc_end (rtp_mem p) + 4" using rtp_csrc_end_ge [of "rtp_mem p"] by simp
  note ok = same_headers_ok [OF same this]
  have pl: "payload p = rtp_payload_start (rtp_mem p)" using wf by (simp add: rtp_wf_def Let_def)
  have "rtp_layout (rtp_mem q) (rtp_size q) (payloadLength q) (payloadPadding q)"
    using size pad b0 members(3) by (simp add: rtp_layout_def start pl len)
  moreover have "b0_csrcCount (rtp_mem q ! 0) = b0_csrcCount (rtp_mem p ! 0)" "bit (rtp_mem q ! 0) 4 = bit (rtp_mem p ! 0) 4"
    using same by (simp_all add: same_headers_def)
  moreover have "one_byte_ok (rtp_mem q) (rtp_csrc_end (rtp_mem p) + 4) (payload p) (mapOneByteExtensions p)"
    "two_bytes_ok (rtp_mem q) (rtp_csrc_end (rtp_mem p) + 4) (payload p) (mapTwoBytesExtensions p)"
    using wf unfolding pl by (auto intro!: ok simp: rtp_wf_def Let_def)
  ultimately show ?thesis
    using wf members by (simp add: rtp_wf_def Let_def start)
qed

subsection \<open>RTX\<close>

lemma rtp_b0_iff: "127 < b \<and> b < 192 \<longleftrightarrow> drop_bit 6 b = 2" for b :: u8
proof
  assume "drop_bit 6 b = 2"
  then have "unat (b div 64) = 2" by (simp add: drop_bit_eq_div)
  then have "unat b div 64 = 2" by (simp add: unat_div_distrib)
  then have "128 \<le> unat b \<and> unat b < 192" by linarith
  then show "127 < b \<and> b < 192" by (simp add: word_less_nat_alt)
qed (use rtp_version in blast)

lemma b0_clear_padding:
  fixes b :: u8
  assumes "127 < b" "b < 192"
  shows "127 < b AND 0xDF \<and> b AND 0xDF < 192" "b0_csrcCount (b AND 0xDF) = b0_csrcCount b"
    "bit (b AND 0xDF) 4 = bit b 4" "\<not> bit (b AND 0xDF) 5" "\<not> bit b 5 \<Longrightarrow> b AND 0xDF = b"
proof -
  have n: "(0xDF :: u8) = NOT (push_bit 5 1)" by simp
  show "127 < b AND 0xDF \<and> b AND 0xDF < 192"
    unfolding rtp_b0_iff using assms rtp_b0_iff [of b] by (simp add: drop_bit_and)
  have "(b AND 0xDF) AND 0x0F = b AND 0x0F" by (simp add: and.assoc)
  then show "b0_csrcCount (b AND 0xDF) = b0_csrcCount b" by (simp add: b0_csrcCount_def)
  show "bit (b AND 0xDF) 4 = bit b 4" "\<not> bit (b AND 0xDF) 5"
    unfolding n unset_bit_eq_and_not [symmetric] by (simp_all add: bit_unset_bit_iff)
  show "b AND 0xDF = b" if "\<not> bit b 5"
    unfolding n unset_bit_eq_and_not [symmetric] using that by (intro bit_word_eqI) (auto simp: bit_unset_bit_iff)
qed

lemma drop_padding_spec:
  assumes "0 < length (rtp_mem p)" "bit (rtp_mem p ! 0) 5 \<longleftrightarrow> payloadPadding p \<noteq> 0" "127 < rtp_mem p ! 0" "rtp_mem p ! 0 < 192"
  shows "drop_padding p = Some (p\<lparr>rtp_mem := (rtp_mem p)[0 := rtp_mem p ! 0 AND 0xDF],
    rtp_size := rtp_size p - unat (payloadPadding p), payloadPadding := 0\<rparr>)"
proof (cases "payloadPadding p = 0")
  case True
  then have "(rtp_mem p)[0 := rtp_mem p ! 0 AND 0xDF] = rtp_mem p"
    using assms b0_clear_padding(5) [OF assms(3,4)] by simp
  with True show ?thesis by (simp add: drop_padding_def)
next
  case False
  with assms(1) show ?thesis
    by (simp add: drop_padding_def SetPayloadPaddingFlag_def Get1Byte_def Set1Byte_def)
qed

lemma rtp_wf_facts:
  assumes "rtp_wf p"
  shows "12 \<le> payload p" "payload p + payloadLength p + unat (payloadPadding p) = rtp_size p" "rtp_size p \<le> length (rtp_mem p)"
    "127 < rtp_mem p ! 0" "rtp_mem p ! 0 < 192" "bit (rtp_mem p ! 0) 5 \<longleftrightarrow> payloadPadding p \<noteq> 0"
    "payload p = rtp_payload_start (rtp_mem p)"
  using assms rtp_csrc_end_ge [of "rtp_mem p"] by (auto simp: rtp_wf_def Let_def rtp_layout_def)

text \<open>The bytes of the payload.\<close>

definition payload_bytes :: "'h rtp_packet \<Rightarrow> bytes" where
  "payload_bytes p = take (payloadLength p) (drop (payload p) (rtp_mem p))"

lemma payload_bytes_eqI:
  assumes "payloadLength q = payloadLength p" "payload p + payloadLength p \<le> length (rtp_mem p)"
    "payload q + payloadLength p \<le> length (rtp_mem q)"
    "\<And>i. i < payloadLength p \<Longrightarrow> rtp_mem q ! (payload q + i) = rtp_mem p ! (payload p + i)"
  shows "payload_bytes q = payload_bytes p"
  using assms by (auto simp: payload_bytes_def intro!: nth_equalityI)

lemma RtxEncode_spec:
  assumes wf: "rtp_wf p" and cap: "payload p + payloadLength p + 2 \<le> length (rtp_mem p)"
  shows "\<exists>m. RtxEncode pt ssrc seq p = Some (p\<lparr>rtp_mem := m, payloadLength := payloadLength p + 2,
      rtp_size := payload p + payloadLength p + 2, payloadPadding := 0\<rparr>) \<and>
    length m = length (rtp_mem p) \<and> m ! 0 = rtp_mem p ! 0 AND 0xDF \<and>
    m ! 1 = (rtp_mem p ! 1 AND 0x80) OR (pt AND 0x7F) \<and> Get2Bytes m 2 = Some seq \<and>
    Get4Bytes m 4 = Get4Bytes (rtp_mem p) 4 \<and> Get4Bytes m 8 = Some ssrc \<and>
    (\<forall>i. 12 \<le> i \<and> i < payload p \<longrightarrow> m ! i = rtp_mem p ! i) \<and>
    Get2Bytes m (payload p) = Get2Bytes (rtp_mem p) 2 \<and>
    (\<forall>i < payloadLength p. m ! (payload p + 2 + i) = rtp_mem p ! (payload p + i))"
proof -
  note f = rtp_wf_facts [OF wf]
  let ?m = "rtp_mem p" and ?pl = "payload p" and ?n = "payloadLength p"
  have L: "12 \<le> length ?m" using f by simp
  define m1 where "m1 = ?m[1 := (?m ! 1 AND 0x80) OR (pt AND 0x7F)]"
  have s1: "SetPayloadType pt p = Some (p\<lparr>rtp_mem := m1\<rparr>)"
    using L by (simp add: SetPayloadType_def Get1Byte_def Set1Byte_def m1_def)
  obtain m2 where s2: "Set4Bytes m1 8 ssrc = Some m2" using L by (auto simp: Set4Bytes_eq m1_def)
  obtain m3 where s3: "memmove m2 (?pl + 2) ?pl ?n = Some m3"
    using cap Set4Bytes_nth(1) [OF s2] by (auto simp: memmove_def m1_def)
  have len: "length m1 = length ?m" "length m2 = length ?m" "length m3 = length ?m"
    using Set4Bytes_nth(1) [OF s2] memmove_nth(1) [OF s3] by (simp_all add: m1_def)
  obtain sq where sq: "Get2Bytes m3 2 = Some sq" using byte2.get_ex [of 2 m3] L len by auto
  obtain m4 where s4: "Set2Bytes m3 ?pl sq = Some m4" using cap len by (auto simp: Set2Bytes_eq)
  note n4 = Set2Bytes_nth [OF s4]
  obtain m5 where s5: "Set2Bytes m4 2 seq = Some m5" using L len n4(1) by (auto simp: Set2Bytes_eq)
  note n5 = Set2Bytes_nth [OF s5]
  have len5: "length m4 = length ?m" "length m5 = length ?m" using n4(1) n5(1) len by simp_all
  have out: "m5 ! i = m1 ! i" if "i < ?pl" "i < 2 \<or> 4 \<le> i" "i < 8 \<or> 12 \<le> i" for i
    using that f cap len len5 n5(2) [of i] n4(2) [of i] memmove_nth(2) [OF s3, of i] Set4Bytes_nth(2) [OF s2, of i] by auto
  have m50: "m5 ! 0 = ?m ! 0" "m5 ! 1 = (?m ! 1 AND 0x80) OR (pt AND 0x7F)"
    using out [of 0] out [of 1] f L by (auto simp: m1_def)
  define m6 where "m6 = m5[0 := ?m ! 0 AND 0xDF]"
  have m6: "m6 ! i = m5 ! i" if "0 < i" for i using that by (simp add: m6_def)
  have m60: "m6 ! 0 = ?m ! 0 AND 0xDF" "length m6 = length ?m" using len5 L unfolding m6_def by (subst nth_list_update_eq, auto)
  have six: "Get2Bytes m6 i = Get2Bytes m5 i" "Get4Bytes m6 i = Get4Bytes m5 i" if "0 < i" for i
    using that by (intro byte2.get_cong byte4.get_cong; simp add: m6_def)+
  let ?q = "p\<lparr>rtp_mem := m5, payloadLength := ?n + 2, rtp_size := rtp_size p + 2\<rparr>"
  have "drop_padding ?q = Some (?q\<lparr>rtp_mem := m6, rtp_size := rtp_size p + 2 - unat (payloadPadding p), payloadPadding := 0\<rparr>)"
    using drop_padding_spec [of ?q] f(4-6) L len5 m50 unfolding m6_def by force
  also have "?q\<lparr>rtp_mem := m6, rtp_size := rtp_size p + 2 - unat (payloadPadding p), payloadPadding := 0\<rparr> =
      p\<lparr>rtp_mem := m6, payloadLength := ?n + 2, rtp_size := ?pl + ?n + 2, payloadPadding := 0\<rparr>"
    using f(2) by (intro rtp_packet.equality) simp_all
  finally have "drop_padding ?q = Some (p\<lparr>rtp_mem := m6, payloadLength := ?n + 2, rtp_size := ?pl + ?n + 2, payloadPadding := 0\<rparr>)" .
  then have enc: "RtxEncode pt ssrc seq p = Some (p\<lparr>rtp_mem := m6, payloadLength := ?n + 2, rtp_size := ?pl + ?n + 2, payloadPadding := 0\<rparr>)"
    by (simp add: RtxEncode_def s1 SetSsrc_def s2 s3 GetSequenceNumber_def sq s4 SetSequenceNumber_def s5
        del: add_2_eq_Suc add_2_eq_Suc')
  have "Get4Bytes m5 4 = Get4Bytes ?m 4" "Get4Bytes m5 8 = Get4Bytes m2 8" "Get2Bytes m3 2 = Get2Bytes ?m 2"
    "Get2Bytes m5 ?pl = Get2Bytes m4 ?pl"
    using out f cap len len5 n5(2) n4(2) memmove_nth(2) [OF s3] Set4Bytes_nth(2) [OF s2]
    by (intro byte2.get_cong byte4.get_cong; simp add: m1_def)+
  moreover have "m5 ! (?pl + 2 + i) = ?m ! (?pl + i)" if "i < ?n" for i
    using that f cap len len5 n5(2) [of "?pl + 2 + i"] n4(2) [of "?pl + 2 + i"] memmove_nth(2) [OF s3, of "?pl + 2 + i"]
      Set4Bytes_nth(2) [OF s2, of "?pl + i"] by (simp add: m1_def)
  ultimately show ?thesis
    using enc sq n4(3) n5(3) Set4Bytes_nth(3) [OF s2] m50 out len5 L f m60
    by (intro exI [of _ m6]) (simp add: six m6 m1_def)
qed

lemma RtxDecode_spec:
  assumes wf: "rtp_wf p" and n: "2 \<le> payloadLength p"
  shows "\<exists>m. RtxDecode pt ssrc p = Some (True, p\<lparr>rtp_mem := m, payloadLength := payloadLength p - 2,
      rtp_size := payload p + payloadLength p - 2, payloadPadding := 0\<rparr>) \<and>
    length m = length (rtp_mem p) \<and> m ! 0 = rtp_mem p ! 0 AND 0xDF \<and>
    m ! 1 = (rtp_mem p ! 1 AND 0x80) OR (pt AND 0x7F) \<and> Get2Bytes m 2 = Get2Bytes (rtp_mem p) (payload p) \<and>
    Get4Bytes m 4 = Get4Bytes (rtp_mem p) 4 \<and> Get4Bytes m 8 = Some ssrc \<and>
    (\<forall>i. 12 \<le> i \<and> i < payload p \<longrightarrow> m ! i = rtp_mem p ! i) \<and>
    (\<forall>i < payloadLength p - 2. m ! (payload p + i) = rtp_mem p ! (payload p + 2 + i))"
proof -
  note f = rtp_wf_facts [OF wf]
  let ?m = "rtp_mem p" and ?pl = "payload p" and ?n = "payloadLength p"
  have L: "12 \<le> length ?m" and cap: "?pl + ?n \<le> length ?m" using f by simp_all
  define m1 where "m1 = ?m[1 := (?m ! 1 AND 0x80) OR (pt AND 0x7F)]"
  have s1: "SetPayloadType pt p = Some (p\<lparr>rtp_mem := m1\<rparr>)"
    using L by (simp add: SetPayloadType_def Get1Byte_def Set1Byte_def m1_def)
  have len1: "length m1 = length ?m" by (simp add: m1_def)
  obtain sq where sq: "Get2Bytes m1 ?pl = Some sq" using byte2.get_ex [of ?pl m1] cap n len1 by auto
  obtain m2 where s2: "Set2Bytes m1 2 sq = Some m2" using L len1 by (auto simp: Set2Bytes_eq)
  note n2 = Set2Bytes_nth [OF s2]
  obtain m3 where s3: "Set4Bytes m2 8 ssrc = Some m3" using L len1 n2(1) by (auto simp: Set4Bytes_eq)
  note n3 = Set4Bytes_nth [OF s3]
  obtain m4 where s4: "memmove m3 ?pl (?pl + 2) (?n - 2) = Some m4"
  proof -
    have "?pl + 2 + (?n - 2) \<le> length m3 \<and> ?pl + (?n - 2) \<le> length m3" using cap n len1 n2(1) n3(1) by linarith
    then show thesis using that unfolding memmove_def by simp
  qed
  note n4 = memmove_nth [OF s4]
  have len: "length m2 = length ?m" "length m3 = length ?m" "length m4 = length ?m" using len1 n2(1) n3(1) n4(1) by simp_all
  have out: "m4 ! i = m1 ! i" if "i < ?pl" "i < 2 \<or> 4 \<le> i" "i < 8 \<or> 12 \<le> i" for i
    using that f cap len len1 n4(2) [of i] n3(2) [of i] n2(2) [of i] by auto
  have m40: "m4 ! 0 = ?m ! 0" "m4 ! 1 = (?m ! 1 AND 0x80) OR (pt AND 0x7F)"
    using out [of 0] out [of 1] f L by (auto simp: m1_def)
  define m5 where "m5 = m4[0 := ?m ! 0 AND 0xDF]"
  have m5: "m5 ! i = m4 ! i" if "0 < i" for i using that by (simp add: m5_def)
  have m50: "m5 ! 0 = ?m ! 0 AND 0xDF" "length m5 = length ?m" using len L unfolding m5_def by (subst nth_list_update_eq, auto)
  have five: "Get2Bytes m5 i = Get2Bytes m4 i" "Get4Bytes m5 i = Get4Bytes m4 i" if "0 < i" for i
    using that by (intro byte2.get_cong byte4.get_cong; simp add: m5_def)+
  let ?q = "p\<lparr>rtp_mem := m4, payloadLength := ?n - 2, rtp_size := rtp_size p - 2\<rparr>"
  have "drop_padding ?q = Some (?q\<lparr>rtp_mem := m5, rtp_size := rtp_size p - 2 - unat (payloadPadding p), payloadPadding := 0\<rparr>)"
    using drop_padding_spec [of ?q] f(4-6) L len m40 unfolding m5_def by force
  also have "?q\<lparr>rtp_mem := m5, rtp_size := rtp_size p - 2 - unat (payloadPadding p), payloadPadding := 0\<rparr> =
      p\<lparr>rtp_mem := m5, payloadLength := ?n - 2, rtp_size := ?pl + ?n - 2, payloadPadding := 0\<rparr>"
    using f(2) n by (intro rtp_packet.equality) simp_all
  finally have dec: "RtxDecode pt ssrc p = Some (True, p\<lparr>rtp_mem := m5, payloadLength := ?n - 2,
      rtp_size := ?pl + ?n - 2, payloadPadding := 0\<rparr>)"
    using n by (simp add: RtxDecode_def s1 sq SetSequenceNumber_def s2 SetSsrc_def s3 s4 del: add_2_eq_Suc add_2_eq_Suc')
  have "Get4Bytes m4 4 = Get4Bytes ?m 4" "Get4Bytes m4 8 = Get4Bytes m3 8" "Get2Bytes m4 2 = Get2Bytes m2 2"
    "Get2Bytes m1 ?pl = Get2Bytes ?m ?pl"
    using out f cap n len len1 n4(2) n3(2) n2(2)
    by (intro byte2.get_cong byte4.get_cong; simp add: m1_def)+
  moreover have "m4 ! (?pl + i) = ?m ! (?pl + 2 + i)" if "i < ?n - 2" for i
  proof -
    have c: "?pl \<le> ?pl + i \<and> ?pl + i < ?pl + (?n - 2)" "?pl + i < length m3" "?pl + 2 + i < length ?m" "12 \<le> ?pl + 2 + i"
      using that cap len f(1) by linarith+
    have "m4 ! (?pl + i) = m3 ! (?pl + 2 + (?pl + i - ?pl))" using n4(2) [OF c(2)] c(1) by metis
    also have "\<dots> = ?m ! (?pl + 2 + i)" using c(3,4) len len1 n3(2) [of "?pl + 2 + i"] n2(2) [of "?pl + 2 + i"] by (simp add: m1_def)
    finally show ?thesis .
  qed
  ultimately show ?thesis
    using dec sq n2(3) n3(3) m40 m50 out len L f
    by (intro exI [of _ m5]) (simp add: five m5 m1_def)
qed

lemma rtx_wf:
  assumes wf: "rtp_wf p" and q: "rtp_size q = payload p + payloadLength q" "rtp_size q \<le> length (rtp_mem p)"
      "payloadPadding q = 0" "payload q = payload p" "csrcList q = csrcList p" "headerExtension q = headerExtension p"
      "mapOneByteExtensions q = mapOneByteExtensions p" "mapTwoBytesExtensions q = mapTwoBytesExtensions p"
    and m: "length (rtp_mem q) = length (rtp_mem p)" "rtp_mem q ! 0 = rtp_mem p ! 0 AND 0xDF"
      "\<forall>i. 12 \<le> i \<and> i < payload p \<longrightarrow> rtp_mem q ! i = rtp_mem p ! i"
  shows "rtp_wf q"
proof (rule rtp_wf_change [OF wf])
  note f = rtp_wf_facts [OF wf] and b = b0_clear_padding [OF rtp_wf_facts(4,5) [OF wf]]
  show "same_headers (rtp_mem p) (rtp_mem q)" using m b f by (simp add: same_headers_def)
  show "bit (rtp_mem q ! 0) 5 \<longleftrightarrow> payloadPadding q \<noteq> 0" using b q m by simp
qed (use q in simp_all)

lemma payload_type_marker: "((b AND 0x80) OR (pt AND 0x7F)) AND 0x7F = pt AND 0x7F"
    "bit ((b AND 0x80) OR (pt AND 0x7F)) 7 = bit b 7" for b pt :: u8
proof -
  have n: "(0x7F :: u8) = mask 7" "(0x80 :: u8) = NOT (mask 7)" by (simp_all add: mask_eq_exp_minus_1)
  show "((b AND 0x80) OR (pt AND 0x7F)) AND 0x7F = pt AND 0x7F" "bit ((b AND 0x80) OR (pt AND 0x7F)) 7 = bit b 7"
    unfolding n by (auto intro!: bit_word_eqI simp: bit_simps)
qed

lemma rtx_encode_decode:
  assumes wf: "rtp_wf p" and cap: "payload p + payloadLength p + 2 \<le> length (rtp_mem p)"
  shows "\<exists>q r. RtxEncode rtxPt rtxSsrc rtxSeq p = Some q \<and> rtp_wf q \<and> rtp_size q = payload p + payloadLength p + 2 \<and> length (rtp_mem q) = length (rtp_mem p) \<and>
    payloadDescriptorHandler q = payloadDescriptorHandler p \<and> GetTimestamp q = GetTimestamp p \<and> payloadDescriptorHandler r = payloadDescriptorHandler p \<and>
    rtp_size r = payload p + payloadLength p \<and> length (rtp_mem r) = length (rtp_mem p) \<and>
    GetPayloadType q = Some (rtxPt AND 0x7F) \<and> GetSsrc q = Some rtxSsrc \<and> GetSequenceNumber q = Some rtxSeq \<and>
    RtxDecode pt ssrc q = Some (True, r) \<and> rtp_wf r \<and>
    GetPayloadType r = Some (pt AND 0x7F) \<and> GetSsrc r = Some ssrc \<and> GetSequenceNumber r = GetSequenceNumber p \<and>
    GetTimestamp r = GetTimestamp p \<and> HasMarker r = HasMarker p \<and> payload_bytes r = payload_bytes p"
proof -
  note f = rtp_wf_facts [OF wf]
  obtain m where m: "RtxEncode rtxPt rtxSsrc rtxSeq p = Some (p\<lparr>rtp_mem := m, payloadLength := payloadLength p + 2,
      rtp_size := payload p + payloadLength p + 2, payloadPadding := 0\<rparr>)" (is "_ = Some ?q")
    and e: "length m = length (rtp_mem p)" "m ! 0 = rtp_mem p ! 0 AND 0xDF"
      "m ! 1 = (rtp_mem p ! 1 AND 0x80) OR (rtxPt AND 0x7F)" "Get2Bytes m 2 = Some rtxSeq"
      "Get4Bytes m 4 = Get4Bytes (rtp_mem p) 4" "Get4Bytes m 8 = Some rtxSsrc"
      "\<forall>i. 12 \<le> i \<and> i < payload p \<longrightarrow> m ! i = rtp_mem p ! i" "Get2Bytes m (payload p) = Get2Bytes (rtp_mem p) 2"
      "\<forall>i < payloadLength p. m ! (payload p + 2 + i) = rtp_mem p ! (payload p + i)"
    using RtxEncode_spec [OF wf cap, of rtxPt rtxSsrc rtxSeq] by blast
  have q: "rtp_wf ?q" using cap e(1,2,7) by (intro rtx_wf [OF wf]) simp_all
  obtain m' where m': "RtxDecode pt ssrc ?q = Some (True, ?q\<lparr>rtp_mem := m', payloadLength := payloadLength p + 2 - 2,
      rtp_size := payload p + (payloadLength p + 2) - 2, payloadPadding := 0\<rparr>)" (is "_ = Some (True, ?r)")
    and d: "length m' = length m" "m' ! 0 = m ! 0 AND 0xDF" "m' ! 1 = (m ! 1 AND 0x80) OR (pt AND 0x7F)"
      "Get2Bytes m' 2 = Get2Bytes m (payload p)" "Get4Bytes m' 4 = Get4Bytes m 4" "Get4Bytes m' 8 = Some ssrc"
      "\<forall>i. 12 \<le> i \<and> i < payload p \<longrightarrow> m' ! i = m ! i"
      "\<forall>i < payloadLength p. m' ! (payload p + i) = m ! (payload p + 2 + i)"
    using RtxDecode_spec [OF q, of pt ssrc] by auto
  have r: "rtp_wf ?r" using cap d(1,2,7) e(1) by (intro rtx_wf [OF q]) simp_all
  have "payload_bytes ?r = payload_bytes p"
    using cap d(1,8) e(1,9) by (intro payload_bytes_eqI) simp_all
  moreover have "1 < length (rtp_mem p)" using f by simp
  ultimately show ?thesis
    using m m' q r d e
    by (intro exI [of _ ?q] exI [of _ ?r])
      (simp add: GetPayloadType_def GetSsrc_def GetSequenceNumber_def GetTimestamp_def HasMarker_def Get1Byte_def payload_type_marker)
qed

text \<open>C18: RTX round trip. A packet encoded for retransmission is well-formed, carries the RTX payload type, SSRC and
  sequence number and, in front of its payload, the original sequence number; decoding it restores the
  original packet: sequence number, timestamp, marker and payload bytes, with the payload type and SSRC
  of the media stream, and without padding. The buffer needs room for two bytes behind the payload.\<close>

theorem RtxEncode_RtxDecode:
  assumes wf: "rtp_wf p" and cap: "payload p + payloadLength p + 2 \<le> length (rtp_mem p)"
  shows "\<exists>q r. RtxEncode rtxPt rtxSsrc rtxSeq p = Some q \<and> rtp_wf q \<and>
    GetPayloadType q = Some (rtxPt AND 0x7F) \<and> GetSsrc q = Some rtxSsrc \<and> GetSequenceNumber q = Some rtxSeq \<and>
    RtxDecode pt ssrc q = Some (True, r) \<and> rtp_wf r \<and>
    GetPayloadType r = Some (pt AND 0x7F) \<and> GetSsrc r = Some ssrc \<and> GetSequenceNumber r = GetSequenceNumber p \<and>
    GetTimestamp r = GetTimestamp p \<and> HasMarker r = HasMarker p \<and> payload_bytes r = payload_bytes p"
  using rtx_encode_decode [OF assms, of rtxPt rtxSsrc rtxSeq pt ssrc] by blast

theorem RtxEncode_RtxDecode_witness:
  "\<exists>(p :: unit rtp_packet) q r. RtpPacket_Parse [0x80, 100, 0, 7, 0, 0, 0, 1, 0, 0, 0, 9, 1, 2, 0, 0] 14 = Some (Some p) \<and>
     RtxEncode 101 10 500 p = Some q \<and> RtxDecode 100 9 q = Some (True, r) \<and> payload_bytes r = payload_bytes p"
proof -
  let ?m = "[0x80, 100, 0, 7, 0, 0, 0, 1, 0, 0, 0, 9, 1, 2, 0, 0] :: bytes"
  have l: "rtp_layout ?m 14 2 0" by code_simp
  from RtpPacket_Parse_layout [where 'a = unit, OF l] RtpPacket_ctor_wf [where 'a = unit, OF l]
  obtain p :: "unit rtp_packet" where p: "RtpPacket_Parse ?m 14 = Some (Some p)" "rtp_wf p" "rtp_mem p = ?m" "rtp_size p = 14"
    "payloadLength p = 2" "payloadPadding p = 0" by auto
  have "payload p + payloadLength p + 2 \<le> length (rtp_mem p)" using rtp_wf_facts(2) [OF p(2)] p by simp
  from RtxEncode_RtxDecode [OF p(2) this, of 101 10 500 100 9] p(1) show ?thesis by blast
qed

end
