(* ===== verification/RtpPacket_Extensions.thy ===== *)
theory RtpPacket_Extensions
  imports RtpPacket
begin

text \<open>
  The mutators of \<^verbatim>\<open>RTC::RtpPacket\<close> that move the payload: \<open>SetExtensions\<close> replaces the header extension,
  \<open>Clone\<close> copies a packet into another buffer, \<open>ShiftPayload\<close> opens or closes a gap in the payload. Each keeps
  the packet well-formed, and what \<open>SetExtensions\<close> wrote is found again, in the packet itself and by a
  receiver that parses its bytes.
\<close>

subsection \<open>Writing the elements\<close>

text \<open>The bytes of one element, and where the elements start.\<close>

definition ge_bytes :: "nat \<Rightarrow> GenericExtension \<Rightarrow> bytes" where
  "ge_bytes type e =
     (if ge_skipped type e then []
      else (if type = 1 then [push_bit 4 (ge_id e) OR ((ge_len e - 1) AND 0x0F)] else [ge_id e, ge_len e]) @
        take (unat (ge_len e)) (ge_value e))"

fun ext_map :: "nat \<Rightarrow> GenericExtension list \<Rightarrow> nat \<Rightarrow> (u8 \<rightharpoonup> nat) \<Rightarrow> (u8 \<rightharpoonup> nat)" where
  "ext_map type [] ptr mp = mp"
| "ext_map type (e # es) ptr mp =
     (if ge_skipped type e then ext_map type es ptr mp
      else ext_map type es (ptr + ge_size type e) (mp(ge_id e \<mapsto> ptr)))"

definition ge_valid :: "GenericExtension \<Rightarrow> bool" where
  "ge_valid e \<longleftrightarrow> unat (ge_len e) \<le> length (ge_value e)"

definition ext_bytes :: "nat \<Rightarrow> GenericExtension list \<Rightarrow> bytes" where
  "ext_bytes type es = concat (map (ge_bytes type) es)"

lemma length_ge_bytes: "type = 1 \<or> type = 2 \<Longrightarrow> ge_valid e \<Longrightarrow> length (ge_bytes type e) = ge_size type e"
  by (auto simp: ge_bytes_def ge_size_def ge_valid_def)

lemma length_ext_bytes:
  "type = 1 \<or> type = 2 \<Longrightarrow> \<forall>e \<in> set es. ge_valid e \<Longrightarrow> length (ext_bytes type es) = sum_list (map (ge_size type) es)"
  by (induction es) (auto simp: ext_bytes_def length_ge_bytes)

text \<open>A write of consecutive bytes.\<close>

lemma write_one_element:
  assumes t: "type = 1 \<or> type = 2" and v: "ge_valid e" and s: "\<not> ge_skipped type e"
    and cap: "ptr + ge_size type e \<le> length m"
  shows "write_extensions type (e # es) m ptr mp =
    write_extensions type es (take ptr m @ ge_bytes type e @ drop (ptr + ge_size type e) m) (ptr + ge_size type e) (mp(ge_id e \<mapsto> ptr))"
proof -
  let ?n = "unat (ge_len e)"
  from t show ?thesis
  proof
    assume t1: "type = 1"
    have "ge_size type e = 1 + ?n" using s t1 by (simp add: ge_size_def)
    with cap v s t1 show ?thesis
      by (auto simp: Set1Byte_def memcpy_in_def ge_valid_def ge_bytes_def upd_conv_take_nth_drop add.commute)
  next
    assume t2: "type = 2"
    have "ge_size type e = 2 + ?n" using s t2 by (simp add: ge_size_def)
    with cap v s t2 show ?thesis
      by (auto simp: Set1Byte_def memcpy_in_def ge_valid_def ge_bytes_def upd_conv_take_nth_drop list_update_append
          take_Suc_conv_app_nth nth_append add.commute)
  qed
qed

lemma write_extensions_spec:
  assumes t: "type = 1 \<or> type = 2"
  shows "\<forall>e \<in> set es. ge_valid e \<Longrightarrow> ptr + sum_list (map (ge_size type) es) \<le> length m \<Longrightarrow>
    write_extensions type es m ptr mp =
      Some (take ptr m @ ext_bytes type es @ drop (ptr + sum_list (map (ge_size type) es)) m,
        ptr + sum_list (map (ge_size type) es), ext_map type es ptr mp)"
proof (induction es arbitrary: m ptr mp)
  case (Cons e es)
  show ?case
  proof (cases "ge_skipped type e")
    case True
    then show ?thesis using Cons by (simp add: ge_size_def ge_bytes_def ext_bytes_def)
  next
    case False
    let ?z = "ge_size type e" and ?s = "sum_list (map (ge_size type) es)"
    have v: "ge_valid e" and cap: "ptr + ?z + ?s \<le> length m" using Cons.prems by simp_all
    let ?m = "take ptr m @ ge_bytes type e @ drop (ptr + ?z) m"
    have len: "length (take ptr m) = ptr" "length (ge_bytes type e) = ?z" using cap length_ge_bytes [OF t v] by simp_all
    have "write_extensions type (e # es) m ptr mp = write_extensions type es ?m (ptr + ?z) (mp(ge_id e \<mapsto> ptr))"
      using cap by (intro write_one_element [OF t v False]) simp
    also have "\<dots> = Some (take (ptr + ?z) ?m @ ext_bytes type es @ drop (ptr + ?z + ?s) ?m, ptr + ?z + ?s,
        ext_map type es (ptr + ?z) (mp(ge_id e \<mapsto> ptr)))"
      using Cons.prems cap len by (intro Cons.IH) auto
    also have "take (ptr + ?z) ?m = take ptr m @ ge_bytes type e" using len by simp
    also have "drop (ptr + ?z + ?s) ?m = drop (ptr + ?z + ?s) m" using len cap by (simp add: add.commute)
    finally show ?thesis using False by (simp add: ext_bytes_def add.assoc del: fun_upd_apply)
  qed
qed (simp add: ext_bytes_def)

subsection \<open>Reading them back\<close>

lemma skip_zeros_stop: "skip_zeros m ptr e = Some ptr" if "e \<le> length m" "ptr < e \<Longrightarrow> m ! ptr \<noteq> 0"
  using that by (subst skip_zeros.simps) (auto simp: Get1Byte_def)

lemma skip_zeros_to_end:
  "e \<le> length m \<Longrightarrow> ptr \<le> e \<Longrightarrow> (\<And>i. ptr \<le> i \<Longrightarrow> i < e \<Longrightarrow> m ! i = 0) \<Longrightarrow> skip_zeros m ptr e = Some e"
proof (induction m ptr e rule: skip_zeros.induct)
  case (1 m ptr e)
  show ?case
  proof (cases "ptr < e")
    case True
    then have "Get1Byte m ptr = Some 0" using 1 by (simp add: Get1Byte_def)
    with True 1(1) [OF True this] 1(2-) show ?thesis by (subst skip_zeros.simps) simp
  next
    case False
    then show ?thesis using 1(3) by (subst skip_zeros.simps) simp
  qed
qed

text \<open>The area from \<open>ptr\<close> to \<open>e\<close> holds the elements \<open>es\<close> and zeros behind them.\<close>

definition ext_area :: "nat \<Rightarrow> bytes \<Rightarrow> nat \<Rightarrow> nat \<Rightarrow> GenericExtension list \<Rightarrow> bool" where
  "ext_area type m ptr e es \<longleftrightarrow> ptr + sum_list (map (ge_size type) es) \<le> e \<and> e \<le> length m \<and>
     take (sum_list (map (ge_size type) es)) (drop ptr m) = ext_bytes type es \<and>
     (\<forall>i. ptr + sum_list (map (ge_size type) es) \<le> i \<and> i < e \<longrightarrow> m ! i = 0)"

lemma ext_area_Cons:
  assumes t: "type = 1 \<or> type = 2" and v: "ge_valid x" and a: "ext_area type m ptr e (x # es)"
  shows "ext_area type m (ptr + ge_size type x) e es" and "take (ge_size type x) (drop ptr m) = ge_bytes type x"
proof -
  let ?z = "ge_size type x" and ?s = "sum_list (map (ge_size type) es)"
  have len: "length (ge_bytes type x) = ?z" by (rule length_ge_bytes [OF t v])
  have "take (?z + ?s) (drop ptr m) = ge_bytes type x @ ext_bytes type es" using a by (simp add: ext_area_def ext_bytes_def)
  then have "take ?z (drop ptr m) @ take ?s (drop ?z (drop ptr m)) = ge_bytes type x @ ext_bytes type es"
    by (simp only: take_add)
  moreover have "ptr + ?z \<le> length m" using a by (simp add: ext_area_def)
  then have "length (take ?z (drop ptr m)) = length (ge_bytes type x)" using len by simp
  ultimately have "take ?z (drop ptr m) = ge_bytes type x" "take ?s (drop ?z (drop ptr m)) = ext_bytes type es"
    using append_eq_append_conv by blast+
  then show "take (ge_size type x) (drop ptr m) = ge_bytes type x" "ext_area type m (ptr + ?z) e es"
    using a by (simp_all add: ext_area_def add.assoc add.commute)
qed

text \<open>Skipping zeros in front of such an area ends at its first element, or at the end.\<close>

lemma one_byte_head:
  fixes i l :: u8
  assumes "0 < i" "i \<le> 14" "0 < l" "l \<le> 16"
  defines "b \<equiv> push_bit 4 i OR ((l - 1) AND 0x0F)"
  shows "drop_bit 4 (b AND 0xF0) = i" and "unat (b AND 0x0F) + 1 = unat l" and "b \<noteq> 0"
proof -
  have i: "i \<in> of_nat ` {1..14}" 
    using assms(1,2) by (intro image_eqI [of _ _ "unat i"]) (auto simp: word_le_nat_alt word_less_nat_alt)
  have l: "l \<in> of_nat ` {1..16}"
    using assms(3,4) by (intro image_eqI [of _ _ "unat l"]) (auto simp: word_le_nat_alt word_less_nat_alt)
  have *: "{1..14} = {1,2,3,4,5,6,7,8,9,10,11,12,13,14::nat}" "{1..16} = {1,2,3,4,5,6,7,8,9,10,11,12,13,14,15,16::nat}"
    by (simp_all only: set_eq_iff atLeastAtMost_iff insert_iff empty_iff) presburger+
  show 1: "drop_bit 4 (b AND 0xF0) = i" using i l unfolding * b_def by auto
  show "unat (b AND 0x0F) + 1 = unat l" using i l unfolding * b_def by auto
  show "b \<noteq> 0" using 1 assms(1) by auto
qed

lemma ge_first_byte:
  assumes t: "type = 1 \<or> type = 2" and s: "\<not> ge_skipped type x" and a: "ext_area type m ptr e (x # es)" and v: "ge_valid x"
  shows "ptr < e" "e \<le> length m" "m ! ptr \<noteq> 0"
    and "type = 1 \<Longrightarrow> drop_bit 4 (m ! ptr AND 0xF0) = ge_id x \<and> unat (m ! ptr AND 0x0F) + 1 = unat (ge_len x) \<and> ge_id x \<noteq> 15 \<and> ge_id x \<noteq> 0"
    and "type = 2 \<Longrightarrow> m ! ptr = ge_id x \<and> m ! (ptr + 1) = ge_len x \<and> ge_id x \<noteq> 0 \<and> ptr + 1 < e"
proof -
  have len: "0 < ge_size type x" using s t by (auto simp: ge_size_def)
  show e: "ptr < e" "e \<le> length m" using a len by (auto simp: ext_area_def)
  have bs: "take (ge_size type x) (drop ptr m) = ge_bytes type x" by (rule ext_area_Cons(2) [OF t v a])
  have nth: "m ! (ptr + i) = ge_bytes type x ! i" if "i < ge_size type x" for i
    using that e by (simp add: bs [symmetric])
  show 1: "drop_bit 4 (m ! ptr AND 0xF0) = ge_id x \<and> unat (m ! ptr AND 0x0F) + 1 = unat (ge_len x) \<and> ge_id x \<noteq> 15 \<and> ge_id x \<noteq> 0"
    if "type = 1"
  proof -
    have r: "0 < ge_id x" "ge_id x \<le> 14" "0 < ge_len x" "ge_len x \<le> 16" using s that
      by (auto simp: ge_skipped_def word_neq_0_conv not_less split: if_splits)
    have "m ! ptr = push_bit 4 (ge_id x) OR ((ge_len x - 1) AND 0x0F)" using nth [OF len] s that by (simp add: ge_bytes_def)
    with one_byte_head [OF r] r show ?thesis by auto
  qed
  show 2: "m ! ptr = ge_id x \<and> m ! (ptr + 1) = ge_len x \<and> ge_id x \<noteq> 0 \<and> ptr + 1 < e" if "type = 2"
  proof -
    have "ge_size type x = 2 + unat (ge_len x)" using s that by (simp add: ge_size_def)
    then show ?thesis using nth [of 0] nth [of 1] s that a by (auto simp: ge_bytes_def ge_skipped_def ext_area_def)
  qed
  show "m ! ptr \<noteq> 0"
  proof
    assume "m ! ptr = 0"
    then show False using 1 2 t by auto
  qed
qed

lemma skip_zeros_area:
  assumes t: "type = 1 \<or> type = 2"
  shows "ext_area type m ptr e es \<Longrightarrow> \<forall>x \<in> set es. ge_valid x \<Longrightarrow>
    skip_zeros m ptr e = Some ptr \<or> skip_zeros m ptr e = Some e \<and> (\<forall>p mp. ext_map type es p mp = mp)"
proof (induction es)
  case Nil
  then show ?case by (auto simp: ext_area_def intro: skip_zeros_to_end)
next
  case (Cons x es)
  show ?case
  proof (cases "ge_skipped type x")
    case True
    then have "ext_area type m ptr e es" using ext_area_Cons(1) [OF t _ Cons.prems(1)] Cons.prems(2) by (simp add: ge_size_def)
    with Cons True show ?thesis by simp
  next
    case False
    from ge_first_byte [OF t False Cons.prems(1)] Cons.prems(2) show ?thesis by (intro disjI1 skip_zeros_stop) auto
  qed
qed

lemma one_byte_loop_end: "one_byte_loop m e e mp = Some mp" and two_bytes_loop_end: "two_bytes_loop m e e mp = Some mp"
  by (simp_all add: one_byte_loop.simps two_bytes_loop.simps)

lemma one_byte_loop_area:
  "ext_area 1 m ptr e es \<Longrightarrow> \<forall>x \<in> set es. ge_valid x \<Longrightarrow> one_byte_loop m e ptr mp = Some (ext_map 1 es ptr mp)"
proof (induction es arbitrary: ptr mp)
  case Nil
  then have "ptr < e \<Longrightarrow> skip_zeros m (ptr + 1) e = Some e" by (intro skip_zeros_to_end) (auto simp: ext_area_def)
  with Nil show ?case
    by (subst one_byte_loop.simps) (auto simp: ext_area_def Get1Byte_def one_byte_loop_end)
next
  case (Cons x es)
  have v: "ge_valid x" and vs: "\<forall>x \<in> set es. ge_valid x" using Cons.prems by auto
  note a = ext_area_Cons(1) [OF disjI1 [OF refl] v Cons.prems(1)]
  show ?case
  proof (cases "ge_skipped 1 x")
    case True
    then show ?thesis using a Cons.IH [OF _ vs] by (simp add: ge_size_def)
  next
    case False
    note h = ge_first_byte [OF disjI1 [OF refl] False Cons.prems(1) v]
    have z: "ge_size 1 x = 1 + unat (ge_len x)" using False by (simp add: ge_size_def)
    have le: "ptr + 1 + unat (ge_len x) \<le> e" using Cons.prems(1) z by (simp add: ext_area_def)
    have "one_byte_loop m e ptr mp =
      (case skip_zeros m (ptr + ge_size 1 x) e of None \<Rightarrow> None | Some q \<Rightarrow> one_byte_loop m e q (mp(ge_id x \<mapsto> ptr)))"
      using h le unfolding z by (subst one_byte_loop.simps) (simp add: Get1Byte_def Let_def del: fun_upd_apply)
    also have "\<dots> = Some (ext_map 1 es (ptr + ge_size 1 x) (mp(ge_id x \<mapsto> ptr)))"
      using skip_zeros_area [OF disjI1 [OF refl] a vs]
      by (elim disjE conjE) (simp_all add: Cons.IH [OF a vs] one_byte_loop_end del: fun_upd_apply One_nat_def)
    finally show ?thesis using False by simp
  qed
qed

lemma two_bytes_loop_area:
  "ext_area 2 m ptr e es \<Longrightarrow> \<forall>x \<in> set es. ge_valid x \<Longrightarrow> two_bytes_loop m e ptr mp = Some (ext_map 2 es ptr mp)"
proof (induction es arbitrary: ptr mp)
  case Nil
  then have "ptr + 1 < e \<Longrightarrow> skip_zeros m (ptr + 1) e = Some e" by (intro skip_zeros_to_end) (auto simp: ext_area_def)
  with Nil show ?case
    by (subst two_bytes_loop.simps) (auto simp: ext_area_def Get1Byte_def two_bytes_loop_end)
next
  case (Cons x es)
  have v: "ge_valid x" and vs: "\<forall>x \<in> set es. ge_valid x" using Cons.prems by auto
  note a = ext_area_Cons(1) [OF disjI2 [OF refl] v Cons.prems(1)]
  show ?case
  proof (cases "ge_skipped 2 x")
    case True
    then show ?thesis using a Cons.IH [OF _ vs] by (simp add: ge_size_def)
  next
    case False
    note h = ge_first_byte [OF disjI2 [OF refl] False Cons.prems(1) v]
    have z: "ge_size 2 x = 2 + unat (ge_len x)" using False by (simp add: ge_size_def)
    have le: "ptr + 2 + unat (ge_len x) \<le> e" using Cons.prems(1) z by (simp add: ext_area_def)
    have "two_bytes_loop m e ptr mp =
      (case skip_zeros m (ptr + ge_size 2 x) e of None \<Rightarrow> None | Some q \<Rightarrow> two_bytes_loop m e q (mp(ge_id x \<mapsto> ptr)))"
      using h le unfolding z by (subst two_bytes_loop.simps) (simp add: Get1Byte_def Let_def del: fun_upd_apply)
    also have "\<dots> = Some (ext_map 2 es (ptr + ge_size 2 x) (mp(ge_id x \<mapsto> ptr)))"
      using skip_zeros_area [OF disjI2 [OF refl] a vs]
      by (elim disjE conjE) (simp_all add: Cons.IH [OF a vs] two_bytes_loop_end del: fun_upd_apply)
    finally show ?thesis using False by simp
  qed
qed

subsection \<open>Making room\<close>

lemma b0_set_extension:
  fixes b :: u8
  assumes "127 < b" "b < 192"
  shows "127 < b OR 0x10" "b OR 0x10 < 192" "b0_csrcCount (b OR 0x10) = b0_csrcCount b"
    "bit (b OR 0x10) 4" "bit (b OR 0x10) 5 = bit b 5" "bit b 4 \<Longrightarrow> b OR 0x10 = b"
proof -
  have n: "(0x10 :: u8) = push_bit 4 1" by simp
  show "127 < b OR 0x10" "b OR 0x10 < 192"
    using assms rtp_b0_iff [of b] rtp_b0_iff [of "b OR 0x10"] by (simp_all add: drop_bit_or)
  have "(b OR 0x10) AND 0x0F = b AND 0x0F" by (simp add: bit.conj_disj_distrib2)
  then show "b0_csrcCount (b OR 0x10) = b0_csrcCount b" by (simp add: b0_csrcCount_def)
  show "bit (b OR 0x10) 4" "bit (b OR 0x10) 5 = bit b 5" "bit b 4 \<Longrightarrow> b OR 0x10 = b"
    unfolding n set_bit_eq_or [symmetric] by (auto simp: bit_set_bit_iff intro!: bit_word_eqI)
qed

lemma to_int16_id: "- (2 ^ 15) \<le> x \<Longrightarrow> x < 2 ^ 15 \<Longrightarrow> to_int16 x = x"
  by (simp add: to_int16_def sint_sbintrunc' signed_take_bit_int_eq_self)

text \<open>The packet \<open>q\<close> has room for \<open>tot\<close> bytes of extension elements of this type and is otherwise \<open>p\<close>.\<close>

definition extension_room :: "nat \<Rightarrow> nat \<Rightarrow> 'h rtp_packet \<Rightarrow> 'h rtp_packet \<Rightarrow> bool" where
  "extension_room type tot p q \<longleftrightarrow> (let c = rtp_csrc_end (rtp_mem p); n = c + 4 + tot in
     length (rtp_mem q) = length (rtp_mem p) \<and> rtp_mem q ! 0 = rtp_mem p ! 0 OR 0x10 \<and>
     (\<forall>i. 1 \<le> i \<and> i < c \<longrightarrow> rtp_mem q ! i = rtp_mem p ! i) \<and>
     (\<exists>x. Get2Bytes (rtp_mem q) c = Some x \<and> (if type = 1 then x = 0xBEDE else x \<noteq> 0xBEDE \<and> x AND 0xFFF0 = 0x1000)) \<and>
     Get2Bytes (rtp_mem q) (c + 2) = Some (of_nat (tot div 4)) \<and>
     (\<forall>i < payloadLength p + unat (payloadPadding p). rtp_mem q ! (n + i) = rtp_mem p ! (payload p + i)) \<and>
     (\<exists>m. q = p\<lparr>rtp_mem := m, headerExtension := Some c, payload := n,
       rtp_size := n + payloadLength p + unat (payloadPadding p)\<rparr>))"

lemma room_members:
  "\<exists>m'. p\<lparr>headerExtension := h, rtp_mem := m, payload := n, rtp_size := z\<rparr> = p\<lparr>rtp_mem := m', headerExtension := h, payload := n, rtp_size := z\<rparr>"
  by (rule exI [of _ m]) simp

lemma move_payload_spec:
  assumes "int (payload p) + shift = int n" "n + payloadLength p + unat (payloadPadding p) \<le> length (rtp_mem p)"
    "payload p + payloadLength p + unat (payloadPadding p) = rtp_size p" "rtp_size p \<le> length (rtp_mem p)"
  obtains m where
    "move_payload shift p = Some (p\<lparr>rtp_mem := m, payload := n, rtp_size := n + payloadLength p + unat (payloadPadding p)\<rparr>)"
    "length m = length (rtp_mem p)" "\<And>i. i < n \<Longrightarrow> m ! i = rtp_mem p ! i"
    "\<And>i. i < payloadLength p + unat (payloadPadding p) \<Longrightarrow> m ! (n + i) = rtp_mem p ! (payload p + i)"
proof -
  let ?k = "payloadLength p + unat (payloadPadding p)"
  obtain m where m: "memmove (rtp_mem p) n (payload p) ?k = Some m" using assms by (simp add: memmove_def)
  have sz: "nat (int (rtp_size p) + shift) = n + payloadLength p + unat (payloadPadding p)" using assms by linarith
  show thesis
  proof (rule that)
    show "move_payload shift p = Some (p\<lparr>rtp_mem := m, payload := n, rtp_size := n + payloadLength p + unat (payloadPadding p)\<rparr>)"
      using m assms(1) sz by (simp add: move_payload_def)
    show "length m = length (rtp_mem p)" by (rule memmove_nth(1) [OF m])
    show "m ! i = rtp_mem p ! i" if "i < n" for i using memmove_nth(2) [OF m, of i] that assms by simp
    show "m ! (n + i) = rtp_mem p ! (payload p + i)" if "i < ?k" for i
      using memmove_nth(2) [OF m, of "n + i"] that assms by simp
  qed
qed

lemma make_extension_room_new:
  assumes wf: "rtp_wf p" and t: "type = 1 \<or> type = 2" and small: "tot + 4 < 2 ^ 15"
    and cap: "rtp_csrc_end (rtp_mem p) + 4 + tot + payloadLength p + unat (payloadPadding p) \<le> length (rtp_mem p)"
    and no: "headerExtension p = None"
  shows "\<exists>q. make_extension_room type tot p = Some (rtp_csrc_end (rtp_mem p), q) \<and> extension_room type tot p q"
proof -
  let ?m = "rtp_mem p" and ?c = "rtp_csrc_end (rtp_mem p)" and ?k = "payloadLength p + unat (payloadPadding p)"
  note f = rtp_wf_facts [OF wf]
  have b4: "\<not> bit (?m ! 0) 4" using wf no by (simp add: rtp_wf_def Let_def split: if_splits)
  then have pl: "payload p = ?c" using f(7) by (simp add: rtp_payload_start_def)
  have c12: "12 \<le> ?c" by (rule rtp_csrc_end_ge)
  have ne: "?m \<noteq> []" using f(1-3) by auto
  obtain m1 where m1: "Set1Byte ?m 0 (?m ! 0 OR 0x10) = Some m1" using f(1-3) by (fastforce simp: Set1Byte_def)
  note n1 = Set1Byte_nth [OF m1]
  let ?p1 = "p\<lparr>rtp_mem := m1, headerExtension := Some ?c\<rparr>" and ?n = "?c + 4 + tot"
  have sh: "to_int16 (4 + to_int16 (int tot)) = 4 + int tot" using small by (simp add: to_int16_id)
  obtain m2 where mv: "move_payload (to_int16 (4 + to_int16 (int tot))) ?p1 =
        Some (?p1\<lparr>rtp_mem := m2, payload := ?n, rtp_size := ?n + payloadLength p + unat (payloadPadding p)\<rparr>)"
    and n2: "length m2 = length m1" "\<And>i. i < ?n \<Longrightarrow> m2 ! i = m1 ! i" "\<And>i. i < ?k \<Longrightarrow> m2 ! (?n + i) = m1 ! (?c + i)"
    by (rule move_payload_spec [of ?p1 _ ?n]) (use f pl cap sh n1 in auto)
  obtain m3 where m3: "Set2Bytes m2 ?c (extension_profile type) = Some m3"
    using n1 n2 cap c12 by (simp add: Set2Bytes_eq)
  note n3 = Set2Bytes_nth [OF m3]
  obtain m4 where m4: "Set2Bytes m3 (?c + 2) (of_nat (tot div 4)) = Some m4"
    using n1 n2 n3 cap c12 by (simp add: Set2Bytes_eq)
  note n4 = Set2Bytes_nth [OF m4]
  have len: "length m4 = length ?m" "length m3 = length ?m" "length m2 = length ?m" "length m1 = length ?m" using n1 n2 n3 n4 by simp_all
  have low: "m4 ! i = m1 ! i" if "i < ?c" for i using that n4(2) n3(2) n2(2) cap len by simp
  have high: "m4 ! (?n + i) = ?m ! (payload p + i)" if "i < ?k" for i
  proof -
    have "m4 ! (?n + i) = m2 ! (?n + i)" using that n4(2) n3(2) cap len by simp
    also have "\<dots> = m1 ! (?c + i)" using n2(3) that by simp
    also have "\<dots> = ?m ! (?c + i)" using n1 that cap c12 len by simp
    finally show ?thesis by (simp add: pl)
  qed
  have "Get2Bytes m4 ?c = Get2Bytes m3 ?c" using cap len n4(2) by (intro byte2.get_cong) auto
  then have prof: "Get2Bytes m4 ?c = Some (extension_profile type)" using n3(3) by simp
  have "make_extension_room type tot p = Some (?c, ?p1\<lparr>rtp_mem := m4, payload := ?n, rtp_size := ?n + payloadLength p + unat (payloadPadding p)\<rparr>)"
    using m1 mv m3 m4 pl no ne by (simp add: make_extension_room_def Get1Byte_def Let_def)
  moreover have "extension_room type tot p (?p1\<lparr>rtp_mem := m4, payload := ?n, rtp_size := ?n + payloadLength p + unat (payloadPadding p)\<rparr>)"
    unfolding extension_room_def Let_def
    using len n1 low high prof n4(3) c12 t cap by (auto simp: extension_profile_def intro: room_members)
  ultimately show ?thesis by blast
qed

lemma make_extension_room_old:
  assumes wf: "rtp_wf p" and t: "type = 1 \<or> type = 2" and small: "tot + 4 < 2 ^ 15" "rtp_size p < 2 ^ 15" and d4: "4 dvd tot"
    and cap: "rtp_csrc_end (rtp_mem p) + 4 + tot + payloadLength p + unat (payloadPadding p) \<le> length (rtp_mem p)"
    and some: "headerExtension p = Some h"
  shows "\<exists>q. make_extension_room type tot p = Some (rtp_csrc_end (rtp_mem p), q) \<and> extension_room type tot p q"
proof -
  let ?m = "rtp_mem p" and ?c = "rtp_csrc_end (rtp_mem p)" and ?k = "payloadLength p + unat (payloadPadding p)"
  let ?e = "rtp_ext_size ?m" and ?n = "rtp_csrc_end (rtp_mem p) + 4 + tot"
  note f = rtp_wf_facts [OF wf]
  have b4: "bit (?m ! 0) 4" and h: "h = ?c" using wf some by (auto simp: rtp_wf_def Let_def split: if_splits)
  then have pl: "payload p = ?c + 4 + ?e" using f(7) by (simp add: rtp_payload_start_def)
  have b0: "?m ! 0 OR 0x10 = ?m ! 0" using b0_set_extension(6) f b4 by simp
  have c12: "12 \<le> ?c" by (rule rtp_csrc_end_ge)
  obtain x l where x: "Get2Bytes ?m ?c = Some x" and l: "Get2Bytes ?m (?c + 2) = Some l"
    using byte2.get_ex [of ?c ?m] byte2.get_ex [of "?c + 2" ?m] f pl by auto
  have has: "HasOneByteExtensions p = Some (x = 0xBEDE)" "HasTwoBytesExtensions p = Some (x AND 0xFFF0 = 0x1000)"
    by (simp_all add: HasOneByteExtensions_def HasTwoBytesExtensions_def GetHeaderExtensionId_def some h x)
  define keep where "keep \<longleftrightarrow> (type = 1 \<and> x = 0xBEDE \<or> type = 2 \<and> x AND 0xFFF0 = 0x1000)"
  obtain m1 where m1: "(if keep then Some ?m else Set2Bytes ?m ?c (extension_profile type)) = Some m1"
    using x byte2.get_is_None [of ?m ?c] by (cases keep) (auto simp: Set2Bytes_eq)
  define y where "y = (if keep then x else extension_profile type)"
  have n1: "length m1 = length ?m" "\<And>i. i < length ?m \<Longrightarrow> i < ?c \<or> ?c + 2 \<le> i \<Longrightarrow> m1 ! i = ?m ! i" "Get2Bytes m1 ?c = Some y"
    using m1 x Set2Bytes_nth [of ?m ?c "extension_profile type" m1] by (auto simp: y_def split: if_splits)
  have y: "if type = 1 then y = 0xBEDE else y \<noteq> 0xBEDE \<and> y AND 0xFFF0 = 0x1000"
    using t by (auto simp: y_def keep_def extension_profile_def)
  have n10: "m1 ! 0 = ?m ! 0" using c12 cap by (intro n1(2)) linarith+
  have l1: "Get2Bytes m1 (?c + 2) = Some l" using n1(1,2) f pl l by (subst byte2.get_cong [of m1 ?m]) auto
  let ?p1 = "p\<lparr>rtp_mem := m1\<rparr>"
  have e: "unat l * 4 = ?e" using l by (simp add: rtp_ext_size_def)
  have len1: "GetHeaderExtensionLength ?p1 = Some ?e" using e l1 by (simp add: GetHeaderExtensionLength_def some h)
  have sh: "to_int16 (int tot - int ?e) = int tot - int ?e"
    using small f(2) pl by (intro to_int16_id) simp_all
  obtain m2 where mv: "move_payload (int tot - int ?e) ?p1 =
        Some (?p1\<lparr>rtp_mem := m2, payload := ?n, rtp_size := ?n + payloadLength p + unat (payloadPadding p)\<rparr>)"
    and n2: "length m2 = length m1" "\<And>i. i < ?n \<Longrightarrow> m2 ! i = m1 ! i" "\<And>i. i < ?k \<Longrightarrow> m2 ! (?n + i) = m1 ! (payload p + i)"
    by (rule move_payload_spec [of ?p1 _ ?n]) (use f pl cap n1 in auto)
  obtain m3 where m3: "Set2Bytes m2 (?c + 2) (of_nat (tot div 4)) = Some m3" using n1 n2 cap by (simp add: Set2Bytes_eq)
  note n3 = Set2Bytes_nth [OF m3]
  let ?q = "\<lambda>m. p\<lparr>rtp_mem := m, headerExtension := Some ?c, payload := ?n, rtp_size := ?n + payloadLength p + unat (payloadPadding p)\<rparr>"
  have room: "make_extension_room type tot p = Some (?c, if tot = ?e then ?p1 else ?q m3)"
    using m1 mv m3 sh len1
    by (cases "tot = ?e")
      (simp_all add: make_extension_room_def some h has keep_def [symmetric] Let_def del: One_nat_def add_2_eq_Suc')
  have same: "?q m1 = ?p1" if "tot = ?e" using that f(2) pl some h by simp
  have "extension_room type tot p (?q m1)" if "tot = ?e"
  proof -
    have "Get2Bytes m1 (?c + 2) = Some (of_nat (tot div 4))" using l1 e that by (simp flip: e)
    then show ?thesis
      unfolding extension_room_def Let_def using n1 n10 y c12 cap b0 pl that by auto
  qed
  moreover have "extension_room type tot p (?q m3)"
  proof -
    have len: "length m3 = length ?m" "length m2 = length ?m" using n1 n2 n3 by simp_all
    have low: "m3 ! i = ?m ! i" if "i < ?c" for i using that n3(2) n2(2) n1(2) cap len by simp
    have high: "m3 ! (?n + i) = ?m ! (payload p + i)" if "i < ?k" for i
      using that n3(2) [of "?n + i"] n2(3) [of i] n1(2) [of "payload p + i"] cap len pl f by simp
    have "Get2Bytes m3 ?c = Get2Bytes m1 ?c" using cap len n3(2) n2 n1(1) by (intro byte2.get_cong) auto
    with n1(3) n3(3) y len low high c12 b0 show ?thesis unfolding extension_room_def Let_def by auto
  qed
  ultimately show ?thesis using room same by (cases "tot = ?e") auto
qed

lemma make_extension_room_spec:
  assumes wf: "rtp_wf p" and t: "type = 1 \<or> type = 2" and small: "tot + 4 < 2 ^ 15" "rtp_size p < 2 ^ 15" and d4: "4 dvd tot"
    and cap: "rtp_csrc_end (rtp_mem p) + 4 + tot + payloadLength p + unat (payloadPadding p) \<le> length (rtp_mem p)"
  obtains q where "make_extension_room type tot p = Some (rtp_csrc_end (rtp_mem p), q)" "extension_room type tot p q"
  using make_extension_room_new [OF wf t small(1) cap] make_extension_room_old [OF wf t small d4 cap]
  by (cases "headerExtension p") blast+

text \<open>Writing between the extension header and the payload keeps the layout.\<close>

lemma room_layout:
  assumes wf: "rtp_wf p" and room: "extension_room type tot p q" and tot: "4 dvd tot" "tot < 2 ^ 15"
    and len: "length m' = length (rtp_mem q)" "rtp_size q \<le> length (rtp_mem q)"
    and low: "\<And>i. i < rtp_csrc_end (rtp_mem p) + 4 \<Longrightarrow> m' ! i = rtp_mem q ! i"
    and high: "\<And>i. payload q \<le> i \<Longrightarrow> i < length m' \<Longrightarrow> m' ! i = rtp_mem q ! i"
  shows "rtp_csrc_end m' = rtp_csrc_end (rtp_mem p)" "bit (m' ! 0) 4" "rtp_payload_start m' = payload q" "rtp_ext_size m' = tot"
    "b0_csrcCount (m' ! 0) = b0_csrcCount (rtp_mem p ! 0)"
    "rtp_layout m' (rtp_size q) (payloadLength q) (payloadPadding q)"
    "\<exists>x. Get2Bytes m' (rtp_csrc_end (rtp_mem p)) = Some x \<and> (if type = 1 then x = 0xBEDE else x \<noteq> 0xBEDE \<and> x AND 0xFFF0 = 0x1000)"
    "Get2Bytes m' (rtp_csrc_end (rtp_mem p) + 2) = Some (of_nat (tot div 4))"
proof -
  let ?c = "rtp_csrc_end (rtp_mem p)"
  note f = rtp_wf_facts [OF wf]
  note r = room [unfolded extension_room_def Let_def]
  have q: "payload q = ?c + 4 + tot" "rtp_size q = ?c + 4 + tot + payloadLength p + unat (payloadPadding p)"
    "payloadLength q = payloadLength p" "payloadPadding q = payloadPadding p"
    using r by auto
  have b0: "m' ! 0 = rtp_mem p ! 0 OR 0x10" using low [of 0] r by simp
  note b = b0_set_extension [OF f(4,5)]
  show c: "rtp_csrc_end m' = ?c" using b b0 by (simp add: rtp_csrc_end_def)
  show bit4: "bit (m' ! 0) 4" and cc: "b0_csrcCount (m' ! 0) = b0_csrcCount (rtp_mem p ! 0)" using b b0 by simp_all
  have g: "Get2Bytes m' ?c = Get2Bytes (rtp_mem q) ?c" "Get2Bytes m' (?c + 2) = Get2Bytes (rtp_mem q) (?c + 2)"
    using low len by (intro byte2.get_cong; simp)+
  then show "\<exists>x. Get2Bytes m' ?c = Some x \<and> (if type = 1 then x = 0xBEDE else x \<noteq> 0xBEDE \<and> x AND 0xFFF0 = 0x1000)"
    and l: "Get2Bytes m' (?c + 2) = Some (of_nat (tot div 4))" using r by auto
  show es: "rtp_ext_size m' = tot" using tot l by (simp add: rtp_ext_size_def c unat_of_nat)
  show ps: "rtp_payload_start m' = payload q" using bit4 es by (simp add: rtp_payload_start_def c q)
  have "m' ! (rtp_size q - 1) = payloadPadding q" if pad: "payloadPadding q \<noteq> 0"
  proof -
    have "0 < unat (payloadPadding p)" using pad q by (simp add: unat_gt_0)
    then obtain i where i: "payloadLength p + unat (payloadPadding p) = Suc i" by (cases "payloadLength p + unat (payloadPadding p)") auto
    then have "m' ! (payload q + i) = rtp_mem q ! (payload q + i)" using high [of "payload q + i"] len q by simp
    also have "\<dots> = rtp_mem p ! (payload p + i)" using r i q by simp
    also have "payload p + i = rtp_size p - 1" using f(2) i by simp
    also have "rtp_mem p ! (rtp_size p - 1) = payloadPadding p"
      using wf pad q by (simp add: rtp_wf_def Let_def rtp_layout_def)
    finally have "m' ! (payload q + i) = payloadPadding q" using q by simp
    moreover have "payload q + i = rtp_size q - 1" using i q by simp
    ultimately show ?thesis by simp
  qed
  then show "rtp_layout m' (rtp_size q) (payloadLength q) (payloadPadding q)"
    using len b b0 f(6) q by (simp add: rtp_layout_def ps)
qed

text \<open>The memory after the elements and the zero padding have been written.\<close>

lemma write_area:
  assumes t: "type = 1 \<or> type = 2" and v: "\<forall>e \<in> set es. ge_valid e" and sz: "sum_list (map (ge_size type) es) \<le> tot"
    and len: "ptr + tot \<le> length m"
  obtains m1 m' where "write_extensions type es m ptr Map.empty =
      Some (m1, ptr + sum_list (map (ge_size type) es), ext_map type es ptr Map.empty)"
    "memset0 m1 (ptr + sum_list (map (ge_size type) es)) (tot - sum_list (map (ge_size type) es)) = Some m'"
    "length m' = length m" "\<And>i. i < ptr \<Longrightarrow> m' ! i = m ! i" "\<And>i. ptr + tot \<le> i \<Longrightarrow> i < length m \<Longrightarrow> m' ! i = m ! i"
    "ext_area type m' ptr (ptr + tot) es"
proof -
  let ?s = "sum_list (map (ge_size type) es)"
  let ?m1 = "take ptr m @ ext_bytes type es @ drop (ptr + ?s) m"
  have w: "write_extensions type es m ptr Map.empty = Some (?m1, ptr + ?s, ext_map type es ptr Map.empty)"
    using sz len by (intro write_extensions_spec [OF t v]) simp
  have lb: "length (ext_bytes type es) = ?s" by (rule length_ext_bytes [OF t v])
  then have len1: "length ?m1 = length m" using sz len by simp
  then obtain m' where m': "memset0 ?m1 (ptr + ?s) (tot - ?s) = Some m'" using sz len by (simp add: memset0_def memcpy_in_def)
  note n = memcpy_in_nth [OF m' [unfolded memset0_def]]
  have "take ?s (drop ptr m') = ext_bytes type es"
    using n len1 lb sz len by (intro nth_equalityI) (auto simp: nth_append)
  moreover have "m' ! i = 0" if "ptr + ?s \<le> i" "i < ptr + tot" for i using n(2) [of i] that len1 sz len by simp
  ultimately have "ext_area type m' ptr (ptr + tot) es" using n(1) len1 sz len by (simp add: ext_area_def)
  moreover have "m' ! i = m ! i" if "i < ptr" for i using n(2) [of i] that len1 sz len by (simp add: nth_append)
  moreover have "m' ! i = m ! i" if i: "ptr + tot \<le> i" "i < length m" for i
  proof -
    have "\<not> i - ptr < ?s" "ptr + ?s + (i - ptr - ?s) = i" using i sz by linarith+
    then show ?thesis using n(2) [of i] i len1 sz len lb by (simp add: nth_append)
  qed
  ultimately show thesis using n(1) len1 w m' by (intro that) auto
qed

lemma ext_map_ok:
  assumes "ext_area type m ptr e es" "\<forall>x \<in> set es. ge_valid x"
  shows "type = 1 \<Longrightarrow> one_byte_ok m ptr e (ext_map type es ptr Map.empty)"
    and "type = 2 \<Longrightarrow> two_bytes_ok m ptr e (ext_map type es ptr Map.empty)"
proof -
  have e: "e \<le> length m" using assms(1) by (simp add: ext_area_def)
  show "one_byte_ok m ptr e (ext_map type es ptr Map.empty)" if "type = 1"
    using one_byte_loop_area [of m ptr e es Map.empty] one_byte_loop_ok [OF e order_refl [of ptr], where mp = Map.empty] assms that
    by (auto simp: one_byte_ok_def)
  show "two_bytes_ok m ptr e (ext_map type es ptr Map.empty)" if "type = 2"
    using two_bytes_loop_area [of m ptr e es Map.empty] two_bytes_loop_ok [OF e order_refl [of ptr], where mp = Map.empty] assms that
    by (auto simp: two_bytes_ok_def)
qed

subsection \<open>Looking an element up\<close>

lemma ext_map_append: "ext_map type (xs @ ys) ptr mp = ext_map type ys (ptr + sum_list (map (ge_size type) xs)) (ext_map type xs ptr mp)"
  by (induction xs arbitrary: ptr mp) (simp_all add: ge_size_def add.assoc)

lemma ext_map_other: "(\<And>y. y \<in> set ys \<Longrightarrow> ge_skipped type y \<or> ge_id y \<noteq> i) \<Longrightarrow> ext_map type ys ptr mp i = mp i"
  by (induction ys arbitrary: ptr mp) auto

lemma ext_area_append:
  assumes t: "type = 1 \<or> type = 2"
  shows "ext_area type m ptr e (xs @ ys) \<Longrightarrow> \<forall>x \<in> set xs. ge_valid x \<Longrightarrow>
    ext_area type m (ptr + sum_list (map (ge_size type) xs)) e ys"
  by (induction xs arbitrary: ptr) (use ext_area_Cons(1) [OF t] in \<open>fastforce simp: add.assoc\<close>)+

lemma ext_area_value:
  assumes t: "type = 1 \<or> type = 2" and s: "\<not> ge_skipped type x" and a: "ext_area type m ptr e (x # es)" and v: "ge_valid x"
  shows "take (unat (ge_len x)) (drop (ptr + type) m) = take (unat (ge_len x)) (ge_value x)"
proof -
  have "ge_bytes type x = take (type + unat (ge_len x)) (drop ptr m)"
    using ext_area_Cons(2) [OF t v a] s by (simp add: ge_size_def)
  then have "drop type (ge_bytes type x) = take (unat (ge_len x)) (drop (ptr + type) m)"
    by (simp add: take_drop ac_simps)
  moreover have "drop type (ge_bytes type x) = take (unat (ge_len x)) (ge_value x)" using s t by (auto simp: ge_bytes_def)
  ultimately show ?thesis by simp
qed

text \<open>A packet whose header extension holds the elements \<open>es\<close>, found by its map.\<close>

definition has_elements :: "nat \<Rightarrow> GenericExtension list \<Rightarrow> 'h rtp_packet \<Rightarrow> bool" where
  "has_elements type es q \<longleftrightarrow> (let c = rtp_csrc_end (rtp_mem q) in
     headerExtension q = Some c \<and> ext_area type (rtp_mem q) (c + 4) (payload q) es \<and>
     HasOneByteExtensions q = Some (type = 1) \<and> HasTwoBytesExtensions q = Some (type = 2) \<and>
     mapOneByteExtensions q = (if type = 1 then ext_map type es (c + 4) Map.empty else Map.empty) \<and>
     mapTwoBytesExtensions q = (if type = 2 then ext_map type es (c + 4) Map.empty else Map.empty))"

lemma GetExtension_element:
  assumes t: "type = 1 \<or> type = 2" and q: "has_elements type (xs @ e # ys) q" and v: "\<forall>x \<in> set (xs @ e # ys). ge_valid x"
    and s: "\<not> ge_skipped type e" "ge_len e \<noteq> 0" and last: "\<And>y. y \<in> set ys \<Longrightarrow> ge_skipped type y \<or> ge_id y \<noteq> ge_id e"
  shows "\<exists>w. GetExtension (ge_id e) q = Some (Some (w, ge_len e)) \<and>
    take (unat (ge_len e)) (drop w (rtp_mem q)) = take (unat (ge_len e)) (ge_value e)"
proof -
  define c where "c = rtp_csrc_end (rtp_mem q) + 4"
  define p where "p = c + sum_list (map (ge_size type) xs)"
  have a: "ext_area type (rtp_mem q) p (payload q) (e # ys)"
    using ext_area_append [OF t, of _ c _ xs "e # ys"] q v by (simp add: has_elements_def Let_def c_def p_def)
  have mp: "ext_map type (xs @ e # ys) c Map.empty (ge_id e) = Some p"
    using s(1) ext_map_other [of ys type "ge_id e", OF last] by (simp add: ext_map_append p_def)
  have ve: "ge_valid e" using v by simp
  note h = ge_first_byte [OF t s(1) a ve]
  have val: "take (unat (ge_len e)) (drop (p + type) (rtp_mem q)) = take (unat (ge_len e)) (ge_value e)"
    by (rule ext_area_value [OF t s(1) a ve])
  from t show ?thesis
  proof
    assume t1: "type = 1"
    have "unat (rtp_mem q ! p AND 0x0F) + 1 = unat (ge_len e)" using h(4) [OF t1] by simp
    then have "(of_nat (unat (rtp_mem q ! p AND 0x0F) + 1) :: u8) = of_nat (unat (ge_len e))" by (simp only:)
    then have "(rtp_mem q ! p AND 0x0F) + 1 = ge_len e" by (simp only: of_nat_add of_nat_1 of_nat_unat ucast_id)
    then have "GetExtension (ge_id e) q = Some (Some (p + 1, ge_len e))"
      using q mp h(1,2) h(4) [OF t1] t1
      by (simp add: GetExtension_def has_elements_def Let_def c_def Get1Byte_def del: One_nat_def)
    with val t1 show ?thesis by auto
  next
    assume t2: "type = 2"
    then have "GetExtension (ge_id e) q = Some (Some (p + 2, ge_len e))"
      using q mp h(2) h(5) [OF t2] s(2)
      by (simp add: GetExtension_def has_elements_def Let_def c_def Get1Byte_def)
    with val t2 show ?thesis by auto
  qed
qed

subsection \<open>SetExtensions\<close>

definition extensions_fit :: "nat \<Rightarrow> GenericExtension list \<Rightarrow> 'h rtp_packet \<Rightarrow> bool" where
  "extensions_fit type es p \<longleftrightarrow> (let s = sum_list (map (ge_size type) es) in
     (type = 1 \<or> type = 2) \<and> (\<forall>e \<in> set es. ge_valid e) \<and> s + 8 < 2 ^ 15 \<and> rtp_size p < 2 ^ 15 \<and>
     rtp_csrc_end (rtp_mem p) + 4 + align4 s + payloadLength p + unat (payloadPadding p) \<le> length (rtp_mem p))"

lemma SetExtensions_result:
  assumes wf: "rtp_wf p" and fit: "extensions_fit type es p"
  obtains q where "SetExtensions type es p = Some q" "rtp_wf q" "has_elements type es q" "payload_bytes q = payload_bytes p"
    "payloadPadding q = payloadPadding p" "ext_ids q = no_extension_ids" "csrcList q = csrcList p"
    "payloadDescriptorHandler q = payloadDescriptorHandler p" "rtp_csrc_end (rtp_mem q) = rtp_csrc_end (rtp_mem p)"
    "\<And>i. 1 \<le> i \<Longrightarrow> i < rtp_csrc_end (rtp_mem p) \<Longrightarrow> rtp_mem q ! i = rtp_mem p ! i"
proof -
  define s where "s = sum_list (map (ge_size type) es)"
  let ?tot = "align4 s" and ?c = "rtp_csrc_end (rtp_mem p)"
  let ?p = "p\<lparr>ext_ids := no_extension_ids, mapOneByteExtensions := Map.empty, mapTwoBytesExtensions := Map.empty\<rparr>"
  have t: "type = 1 \<or> type = 2" and v: "\<forall>e \<in> set es. ge_valid e" and small: "s + 8 < 2 ^ 15" "rtp_size p < 2 ^ 15"
    and cap: "?c + 4 + ?tot + payloadLength p + unat (payloadPadding p) \<le> length (rtp_mem p)"
    using fit by (simp_all add: extensions_fit_def Let_def s_def)
  have tot: "s \<le> ?tot" "?tot < s + 4" "4 dvd ?tot" using le_align4 [of s] by (auto simp: align4_def)
  have ptot: "unat (PadTo4Bytes16 (of_nat s)) = ?tot" using small tot by (simp add: unat_PadTo4Bytes unat_of_nat)
  have wf': "rtp_wf ?p" using wf by (simp add: rtp_wf_def Let_def one_byte_ok_def two_bytes_ok_def)
  obtain r where r: "make_extension_room type ?tot ?p = Some (?c, r)" and room: "extension_room type ?tot ?p r"
    using make_extension_room_spec [OF wf' t, of ?tot] small tot cap by auto
  note rr = room [unfolded extension_room_def Let_def, simplified]
  have q: "payload r = ?c + 4 + ?tot" "rtp_size r = ?c + 4 + ?tot + payloadLength p + unat (payloadPadding p)"
    "payloadLength r = payloadLength p" "payloadPadding r = payloadPadding p" "headerExtension r = Some ?c" "csrcList r = csrcList p"
    "ext_ids r = no_extension_ids" "payloadDescriptorHandler r = payloadDescriptorHandler p"
    "mapOneByteExtensions r = Map.empty" "mapTwoBytesExtensions r = Map.empty"
    using rr by auto
  have len: "length (rtp_mem r) = length (rtp_mem p)" using rr by simp
  have st: "s \<le> ?tot" by (rule tot)
  obtain m1 m' where w: "write_extensions type es (rtp_mem r) (?c + 4) Map.empty = Some (m1, ?c + 4 + s, ext_map type es (?c + 4) Map.empty)"
      "memset0 m1 (?c + 4 + s) (?tot - s) = Some m'" "length m' = length (rtp_mem r)"
      and low: "\<And>i. i < ?c + 4 \<Longrightarrow> m' ! i = rtp_mem r ! i"
      and high: "\<And>i. ?c + 4 + ?tot \<le> i \<Longrightarrow> i < length (rtp_mem r) \<Longrightarrow> m' ! i = rtp_mem r ! i"
      and area: "ext_area type m' (?c + 4) (?c + 4 + ?tot) es"
    by (rule write_area [OF t v, of ?tot "?c + 4" "rtp_mem r"]) (use st cap len in \<open>auto simp: s_def\<close>)
  let ?q = "r\<lparr>rtp_mem := m', mapOneByteExtensions := (if type = 1 then ext_map type es (?c + 4) Map.empty else Map.empty),
    mapTwoBytesExtensions := (if type = 2 then ext_map type es (?c + 4) Map.empty else Map.empty)\<rparr>"
  have lay: "rtp_csrc_end m' = ?c" "bit (m' ! 0) 4" "rtp_payload_start m' = payload r" "rtp_ext_size m' = ?tot"
    "b0_csrcCount (m' ! 0) = b0_csrcCount (rtp_mem p ! 0)" "rtp_layout m' (rtp_size r) (payloadLength r) (payloadPadding r)"
    "\<exists>x. Get2Bytes m' ?c = Some x \<and> (if type = 1 then x = 0xBEDE else x \<noteq> 0xBEDE \<and> x AND 0xFFF0 = 0x1000)"
    using room_layout [OF wf' room tot(3), of m'] small tot cap len w(3) low high q by auto
  have "SetExtensions type es p = Some ?q"
    using t r w q tot(1) ptot by (auto simp: SetExtensions_def Let_def s_def [symmetric] del: ext)
  moreover have el: "has_elements type es ?q"
    using lay area q t by (auto simp: has_elements_def Let_def HasOneByteExtensions_def HasTwoBytesExtensions_def GetHeaderExtensionId_def)
  moreover have "rtp_wf ?q"
    using lay q ext_map_ok [OF area v] t wf
    by (auto simp: rtp_wf_def Let_def one_byte_ok_def [of _ _ _ Map.empty] two_bytes_ok_def [of _ _ _ Map.empty])
  moreover have "payload_bytes ?q = payload_bytes p"
  proof (rule payload_bytes_eqI)
    fix i assume "i < payloadLength p"
    then show "rtp_mem ?q ! (payload ?q + i) = rtp_mem p ! (payload p + i)"
      using high [of "payload r + i"] rr q cap len by simp
  qed (use q cap len w(3) rtp_wf_facts [OF wf] in auto)
  moreover have "rtp_mem ?q ! i = rtp_mem p ! i" if "1 \<le> i" "i < ?c" for i using low [of i] rr that by simp
  ultimately show thesis using q lay(1) by (intro that [of ?q]) auto
qed

text \<open>A receiver of the bytes finds the same elements.\<close>

lemma Parse_has_elements:
  fixes q :: "'h rtp_packet"
  assumes wf: "rtp_wf q" and el: "has_elements type es q" and t: "type = 1 \<or> type = 2" and v: "\<forall>e \<in> set es. ge_valid e"
    and ids: "ext_ids q = no_extension_ids"
  shows "RtpPacket_Parse (rtp_mem q) (rtp_size q) = Some (Some (q\<lparr>payloadDescriptorHandler := None\<rparr>))"
proof -
  let ?m = "rtp_mem q" and ?c = "rtp_csrc_end (rtp_mem q)"
  have l: "rtp_layout ?m (rtp_size q) (payloadLength q) (payloadPadding q)" using wf by (simp add: rtp_wf_def Let_def)
  have h: "headerExtension q = Some ?c" and area: "ext_area type ?m (?c + 4) (payload q) es"
    using el by (simp_all add: has_elements_def Let_def)
  have b4: "bit (?m ! 0) 4" using wf h by (simp add: rtp_wf_def Let_def split: if_splits)
  let ?p = "\<lparr>rtp_mem = ?m, csrcList = csrcList q, headerExtension = Some ?c, mapOneByteExtensions = Map.empty,
    mapTwoBytesExtensions = Map.empty, ext_ids = no_extension_ids, payload = payload q, payloadLength = payloadLength q,
    payloadPadding = payloadPadding q, rtp_size = rtp_size q, payloadDescriptorHandler = None\<rparr> :: 'h rtp_packet"
  have pl: "payload q = rtp_payload_start ?m" "csrcList q = (if b0_csrcCount (?m ! 0) \<noteq> 0 then Some 12 else None)"
    using wf by (simp_all add: rtp_wf_def Let_def)
  have b0: "Get1Byte ?m 0 = Some (?m ! 0)" using rtp_layout_bounds [OF l] by (auto simp: Get1Byte_def)
  have len: "GetHeaderExtensionLength ?p = Some (rtp_ext_size ?m)"
    using GetHeaderExtension_wf(2) [of ?p _ _ _ ?c] l b4 by simp
  have e: "?c + 4 + rtp_ext_size ?m = payload q" using rtp_layout_bounds(4) [OF l b4] pl by simp
  have has: "HasOneByteExtensions ?p = Some (type = 1)" "HasTwoBytesExtensions ?p = Some (type = 2)"
    using el h by (simp_all add: has_elements_def Let_def HasOneByteExtensions_def HasTwoBytesExtensions_def GetHeaderExtensionId_def)
  have "ParseExtensions ?p = Some (q\<lparr>payloadDescriptorHandler := None\<rparr>)"
    using t
  proof
    assume "type = 1"
    with one_byte_loop_area [of ?m "?c + 4" "payload q" es] area v el ids h show ?thesis
      by (auto simp: ParseExtensions_def has len e has_elements_def Let_def intro!: rtp_packet.equality)
  next
    assume "type = 2"
    with two_bytes_loop_area [of ?m "?c + 4" "payload q" es] area v el ids h show ?thesis
      by (auto simp: ParseExtensions_def has len e has_elements_def Let_def intro!: rtp_packet.equality)
  qed
  then show ?thesis
    using RtpPacket_Parse_layout [where 'a = 'h, OF l] b4 pl unfolding RtpPacket_ctor_def b0 by simp
qed

text \<open>C19: \<open>SetExtensions\<close> on a well-formed packet that has room for the elements does not fail its assertion:
  the packet stays well-formed, payload, padding and the other header fields are kept, and each
  element (not skipped as invalid, not repeated by a later one, not empty) is found by
  \<open>GetExtension\<close> with its length and bytes. A receiver that parses the bytes of the packet gets the
  very same packet, so it finds the same elements.\<close>

theorem SetExtensions_spec:
  fixes p :: "'h rtp_packet"
  assumes wf: "rtp_wf p" and fit: "extensions_fit type es p"
  shows "\<exists>q. SetExtensions type es p = Some q \<and> rtp_wf q \<and>
    payload_bytes q = payload_bytes p \<and> payloadPadding q = payloadPadding p \<and>
    take 11 (drop 1 (rtp_mem q)) = take 11 (drop 1 (rtp_mem p)) \<and>
    (\<forall>xs e ys. es = xs @ e # ys \<and> \<not> ge_skipped type e \<and> ge_len e \<noteq> 0 \<and> (\<forall>y \<in> set ys. ge_skipped type y \<or> ge_id y \<noteq> ge_id e) \<longrightarrow>
      (\<exists>w. GetExtension (ge_id e) q = Some (Some (w, ge_len e)) \<and>
        take (unat (ge_len e)) (drop w (rtp_mem q)) = take (unat (ge_len e)) (ge_value e))) \<and>
    RtpPacket_Parse (rtp_mem q) (rtp_size q) = Some (Some (q\<lparr>payloadDescriptorHandler := None\<rparr>))"
proof -
  have t: "type = 1 \<or> type = 2" and v: "\<forall>e \<in> set es. ge_valid e" using fit by (simp_all add: extensions_fit_def Let_def)
  from SetExtensions_result [OF wf fit] obtain q where q: "SetExtensions type es p = Some q" "rtp_wf q" "has_elements type es q"
    "payload_bytes q = payload_bytes p" "payloadPadding q = payloadPadding p" "ext_ids q = no_extension_ids"
    "rtp_csrc_end (rtp_mem q) = rtp_csrc_end (rtp_mem p)"
    "\<And>i. 1 \<le> i \<Longrightarrow> i < rtp_csrc_end (rtp_mem p) \<Longrightarrow> rtp_mem q ! i = rtp_mem p ! i" by metis
  have len: "12 \<le> length (rtp_mem p)" "12 \<le> length (rtp_mem q)"
    using rtp_wf_facts(1-3) [OF wf] rtp_wf_facts(1-3) [OF q(2)] by linarith+
  have "take 11 (drop 1 (rtp_mem q)) = take 11 (drop 1 (rtp_mem p))"
    using len q(8) rtp_csrc_end_ge(1) [of "rtp_mem p"] by (intro nth_equalityI) auto
  with q Parse_has_elements [OF q(2,3) t v q(6)] GetExtension_element [OF t _ _ _ _] v show ?thesis
    by (intro exI [of _ q]) blast
qed

lemma parsed_layout:
  fixes m :: bytes
  assumes "rtp_layout m len plen pad"
  obtains p :: "'h rtp_packet" where "RtpPacket_Parse m len = Some (Some p)" "rtp_wf p" "rtp_mem p = m" "rtp_size p = len"
    "payloadLength p = plen" "payloadPadding p = pad" "payload p = rtp_payload_start m"
proof -
  from RtpPacket_Parse_layout [where 'a = 'h, OF assms] RtpPacket_ctor_wf [where 'a = 'h, OF assms]
  obtain p :: "'h rtp_packet" where "RtpPacket_Parse m len = Some (Some p)" "rtp_wf p" "rtp_mem p = m" "rtp_size p = len"
    "payloadLength p = plen" "payloadPadding p = pad" by auto
  with rtp_wf_facts(7) [of p] show thesis by (intro that) auto
qed

theorem SetExtensions_spec_witness:
  "\<exists>(p :: unit rtp_packet) q w. RtpPacket_Parse ([0x80, 100, 0, 7, 0, 0, 0, 1, 0, 0, 0, 9, 1, 2] @ replicate 12 0) 14 = Some (Some p) \<and>
     SetExtensions 1 [\<lparr>ge_id = 3, ge_len = 2, ge_value = [8, 9]\<rparr>, \<lparr>ge_id = 4, ge_len = 1, ge_value = [7]\<rparr>] p = Some q \<and>
     payload_bytes q = [1, 2] \<and> GetExtension 3 q = Some (Some (w, 2)) \<and> take 2 (drop w (rtp_mem q)) = [8, 9] \<and>
     RtpPacket_Parse (rtp_mem q) (rtp_size q) = Some (Some (q\<lparr>payloadDescriptorHandler := None\<rparr>))"
proof -
  let ?m = "[0x80, 100, 0, 7, 0, 0, 0, 1, 0, 0, 0, 9, 1, 2] @ replicate 12 0 :: bytes"
  let ?e = "\<lparr>ge_id = 3, ge_len = 2, ge_value = [8, 9]\<rparr>" and ?f = "\<lparr>ge_id = 4, ge_len = 1, ge_value = [7]\<rparr>"
  have l: "rtp_layout ?m 14 2 0" by code_simp
  obtain p :: "unit rtp_packet" where p: "RtpPacket_Parse ?m 14 = Some (Some p)" "rtp_wf p" "rtp_mem p = ?m" "rtp_size p = 14"
    "payloadLength p = 2" "payloadPadding p = 0" "payload p = rtp_payload_start ?m" by (rule parsed_layout [OF l])
  have s: "sum_list (map (ge_size 1) [?e, ?f]) = 5" "ge_valid ?e" "ge_valid ?f" "\<not> ge_skipped 1 ?e" by code_simp+
  have c: "rtp_csrc_end ?m = 12" "rtp_payload_start ?m = 12" "align4 5 = 8" by code_simp+
  have fit: "extensions_fit 1 [?e, ?f] p" using p s c by (simp add: extensions_fit_def Let_def del: One_nat_def)
  have pb: "payload_bytes p = [1, 2]" using p c by (simp add: payload_bytes_def)
  have el: "[?e, ?f] = [] @ ?e # [?f]" "ge_len ?e \<noteq> 0" "\<forall>y \<in> set [?f]. ge_skipped 1 y \<or> ge_id y \<noteq> ge_id ?e" by simp_all
  obtain q where q: "SetExtensions 1 [?e, ?f] p = Some q" "payload_bytes q = payload_bytes p"
    "RtpPacket_Parse (rtp_mem q) (rtp_size q) = Some (Some (q\<lparr>payloadDescriptorHandler := None\<rparr>))"
    "\<exists>w. GetExtension (ge_id ?e) q = Some (Some (w, ge_len ?e)) \<and> take (unat (ge_len ?e)) (drop w (rtp_mem q)) = take (unat (ge_len ?e)) (ge_value ?e)"
    using SetExtensions_spec [OF p(2) fit] s(4) el by metis
  from p(1) q pb show ?thesis by auto
qed

subsection \<open>Clone\<close>

text \<open>The layout depends on the bytes before the payload and the last byte only.\<close>

lemma rtp_layout_copy:
  assumes l: "rtp_layout m len plen pad" and len: "len \<le> length m'"
    and low: "\<And>i. i < rtp_payload_start m \<Longrightarrow> m' ! i = m ! i" and pad: "pad \<noteq> 0 \<Longrightarrow> m' ! (len - 1) = pad"
  shows "rtp_layout m' len plen pad" "rtp_csrc_end m' = rtp_csrc_end m" "rtp_payload_start m' = rtp_payload_start m"
proof -
  have b0: "m' ! 0 = m ! 0" using low [of 0] rtp_csrc_end_ge [of m] by simp
  show c: "rtp_csrc_end m' = rtp_csrc_end m" by (simp add: rtp_csrc_end_def b0)
  note bd = rtp_layout_bounds [OF l]
  have "rtp_ext_size m' = rtp_ext_size m" if b4: "bit (m ! 0) 4"
  proof -
    have "rtp_csrc_end m + 4 \<le> rtp_payload_start m" using bd(4) [OF b4] by simp
    then have "take 2 (drop (rtp_csrc_end m + 2) m') = take 2 (drop (rtp_csrc_end m + 2) m)"
      using low bd len by (intro nth_equalityI) auto
    then show ?thesis
      using byte2.get_at [of "rtp_csrc_end m + 2" m] byte2.get_at [of "rtp_csrc_end m + 2" m'] bd(2,3) bd(4) [OF b4] len
      by (simp add: rtp_ext_size_def c)
  qed
  then show s: "rtp_payload_start m' = rtp_payload_start m" by (simp add: rtp_payload_start_def c b0)
  show "rtp_layout m' len plen pad" using l len pad by (simp add: rtp_layout_def b0 s)
qed

text \<open>A copy of \<open>n\<close> bytes to the position they came from.\<close>

lemma copy_at:
  assumes "memcpy_in m ptr bs n = Some m'" "read_bytes src ptr n = Some bs" and pre: "\<forall>i < ptr. m ! i = src ! i"
  shows "length m' = length m" "\<forall>i < ptr + n. m' ! i = src ! i"
proof -
  from assms have b: "bs = take n (drop ptr src)" "ptr + n \<le> length src" "ptr + n \<le> length m"
    by (auto simp: memcpy_in_def read_bytes_def split: if_splits)
  show len: "length m' = length m" by (rule memcpy_in_nth(1) [OF assms(1)])
  show "\<forall>i < ptr + n. m' ! i = src ! i"
    using memcpy_in_nth(2) [OF assms(1)] b pre by auto
qed

lemma copy_ex:
  assumes "ptr + n \<le> length src" "ptr + n \<le> length m"
  shows "\<exists>bs m'. read_bytes src ptr n = Some bs \<and> memcpy_in m ptr bs n = Some m'"
  using assms by (simp add: read_bytes_def memcpy_in_def)

lemma rtp_wf_ext_ids: "rtp_wf (q\<lparr>ext_ids := ids\<rparr>) = rtp_wf q"
  by (simp add: rtp_wf_def Let_def)

lemma Clone_copies:
  assumes wf: "rtp_wf p" and cap: "rtp_size p \<le> length buffer"
  obtains m where "length m = length buffer" "\<forall>i < payload p + payloadLength p. m ! i = rtp_mem p ! i"
    "payloadPadding p \<noteq> 0 \<longrightarrow> m ! (rtp_size p - 1) = payloadPadding p"
    "Clone buffer p = map_option (\<lambda>q. q\<lparr>ext_ids := ext_ids p\<rparr>)
      (RtpPacket_ctor m (headerExtension p) (payload p) (payloadLength p) (payloadPadding p) (rtp_size p))"
proof -
  let ?s = "rtp_mem p" and ?c = "rtp_csrc_end (rtp_mem p)"
  note f = rtp_wf_facts [OF wf]
  have l: "rtp_layout ?s (rtp_size p) (payloadLength p) (payloadPadding p)"
    and cs: "csrcList p = (if b0_csrcCount (?s ! 0) \<noteq> 0 then Some 12 else None)"
    and he: "headerExtension p = (if bit (?s ! 0) 4 then Some ?c else None)" using wf by (simp_all add: rtp_wf_def Let_def)
  have b0: "Get1Byte ?s 0 = Some (?s ! 0)" using f(1-3) by (auto simp: Get1Byte_def)
  have c: "12 \<le> ?c" "?c \<le> payload p" "?c = 12 + b0_csrcCount (?s ! 0) * 4" using rtp_csrc_end_ge [of ?s] f(7) by (simp_all add: rtp_csrc_end_def)
  obtain b1 m1 where 1: "read_bytes ?s 0 12 = Some b1" "memcpy_in buffer 0 b1 12 = Some m1"
    using copy_ex [of 0 12 ?s buffer] c f cap by auto
  note c1 = copy_at [OF 1(2,1)]
  obtain b2 m2 where 2: "read_bytes ?s 12 (b0_csrcCount (?s ! 0) * 4) = Some b2" "memcpy_in m1 12 b2 (b0_csrcCount (?s ! 0) * 4) = Some m2"
    using copy_ex [of 12 "b0_csrcCount (?s ! 0) * 4" ?s m1] c f cap c1 by auto
  note c2 = copy_at [OF 2(2,1)]
  have csrc: "(case csrcList p of None \<Rightarrow> Some (m1, 12) | Some c \<Rightarrow> do {
           let n = b0_csrcCount (?s ! 0) * 4;
           bs \<leftarrow> read_bytes ?s c n;
           m \<leftarrow> memcpy_in m1 12 bs n;
           Some (m, 12 + n) }) = Some (m2, ?c)"
    using 2 cs c by (auto simp: Let_def read_bytes_def memcpy_in_def split: if_splits)
  define n where "n = payload p - ?c"
  have n: "n = (if bit (?s ! 0) 4 then 4 + rtp_ext_size ?s else 0)" using f(7) by (simp add: n_def rtp_payload_start_def)
  obtain b3 m3 where 3: "read_bytes ?s ?c n = Some b3" "memcpy_in m2 ?c b3 n = Some m3"
    using copy_ex [of ?c n ?s m2] c f cap c1 c2 by (auto simp: n_def)
  note c3 = copy_at [OF 3(2,1)]
  obtain extLen where el: "GetHeaderExtensionLength p = Some extLen" "bit (?s ! 0) 4 \<longrightarrow> extLen = rtp_ext_size ?s"
    using GetHeaderExtension_wf(2) [OF l, of ?c] he by (cases "bit (?s ! 0) 4") (auto simp: GetHeaderExtensionLength_def)
  have ext: "(case headerExtension p of None \<Rightarrow> Some (m2, None, ?c)
       | Some h \<Rightarrow> do {
           let n = 4 + extLen;
           bs \<leftarrow> read_bytes ?s h n;
           m \<leftarrow> memcpy_in m2 ?c bs n;
           Some (m, Some ?c, ?c + n) }) = Some (m3, headerExtension p, payload p)"
    using 3 he el(2) c n by (auto simp: Let_def n_def read_bytes_def memcpy_in_def split: if_splits)
  obtain b4 m4 where 4: "read_bytes ?s (payload p) (payloadLength p) = Some b4" "memcpy_in m3 (payload p) b4 (payloadLength p) = Some m4"
    using copy_ex [of "payload p" "payloadLength p" ?s m3] c f cap c1 c2 c3 by auto
  note c4 = copy_at [OF 4(2,1)]
  let ?e = "payload p + payloadLength p" and ?pad = "payloadPadding p"
  have pre: "\<forall>i < ?e. m4 ! i = ?s ! i" and len4: "length m4 = length buffer" using c1 c2 c3 c4 c by (auto simp: n_def)
  have lt: "?e + unat ?pad - 1 < length m4" using f(1,2) cap len4 by linarith
  obtain m where m: "(if ?pad \<noteq> 0 then Set1Byte m4 (?e + unat ?pad - 1) ?pad else Some m4) = Some m"
    using lt by (cases "?pad = 0") (auto simp: Set1Byte_def)
  have "?e \<le> ?e + unat ?pad - 1" if "?pad \<noteq> 0"
  proof -
    have "0 < unat ?pad" using that by (simp add: unat_gt_0)
    then show ?thesis by linarith
  qed
  then have "length m = length buffer" "\<forall>i < ?e. m ! i = ?s ! i" "?pad \<noteq> 0 \<longrightarrow> m ! (rtp_size p - 1) = ?pad"
    using m len4 pre f(2) Set1Byte_nth [of m4 "?e + unat ?pad - 1" ?pad m] by (auto split: if_splits)
  moreover have "Clone buffer p = map_option (\<lambda>q. q\<lparr>ext_ids := ext_ids p\<rparr>)
      (RtpPacket_ctor m (headerExtension p) (payload p) (payloadLength p) ?pad (rtp_size p))"
    unfolding Clone_def using 1 b0 csrc el(1) ext 4 m f(2)
    by (simp add: map_conv_bind_option comp_def del: add_Suc_right)
  ultimately show thesis by (rule that)
qed

lemma Clone_wf:
  fixes p :: "'h rtp_packet"
  assumes wf: "rtp_wf p" and cap: "rtp_size p \<le> length buffer"
  shows "\<exists>q. Clone buffer p = Some q \<and> rtp_wf q \<and> length (rtp_mem q) = length buffer \<and>
    take (payload p + payloadLength p) (rtp_mem q) = take (payload p + payloadLength p) (rtp_mem p) \<and>
    payload_bytes q = payload_bytes p \<and> rtp_size q = rtp_size p \<and> payloadPadding q = payloadPadding p \<and>
    headerExtension q = headerExtension p \<and> csrcList q = csrcList p \<and> ext_ids q = ext_ids p"
proof -
  let ?s = "rtp_mem p"
  note f = rtp_wf_facts [OF wf]
  from Clone_copies [OF wf cap] obtain m where m: "length m = length buffer" "\<forall>i < payload p + payloadLength p. m ! i = ?s ! i"
    "payloadPadding p \<noteq> 0 \<longrightarrow> m ! (rtp_size p - 1) = payloadPadding p"
    and cl: "Clone buffer p = map_option (\<lambda>q. q\<lparr>ext_ids := ext_ids p\<rparr>)
      (RtpPacket_ctor m (headerExtension p) (payload p) (payloadLength p) (payloadPadding p) (rtp_size p))" .
  have l: "rtp_layout ?s (rtp_size p) (payloadLength p) (payloadPadding p)" using wf by (simp add: rtp_wf_def Let_def)
  have b0: "m ! 0 = ?s ! 0" using m(2) f(1) by simp
  note lay = rtp_layout_copy [OF l, of m]
  have lm: "rtp_layout m (rtp_size p) (payloadLength p) (payloadPadding p)" "rtp_csrc_end m = rtp_csrc_end ?s"
    "rtp_payload_start m = rtp_payload_start ?s" using lay m cap f(7) by simp_all
  from RtpPacket_ctor_wf [where 'a = 'h, OF lm(1)] obtain q :: "'h rtp_packet" where
    q: "RtpPacket_ctor m (if bit (m ! 0) 4 then Some (rtp_csrc_end m) else None) (rtp_payload_start m) (payloadLength p)
        (payloadPadding p) (rtp_size p) = Some q" "rtp_wf q" "rtp_mem q = m" "rtp_size q = rtp_size p"
      "payloadLength q = payloadLength p" "payloadPadding q = payloadPadding p" by blast
  have he: "headerExtension p = (if bit (m ! 0) 4 then Some (rtp_csrc_end m) else None)" "payload p = rtp_payload_start m"
    "csrcList p = (if b0_csrcCount (m ! 0) \<noteq> 0 then Some 12 else None)"
    using wf lm by (simp_all add: rtp_wf_def Let_def b0)
  have qm: "headerExtension q = headerExtension p" "csrcList q = csrcList p" "payload q = payload p"
    using q(2,3) he by (simp_all add: rtp_wf_def Let_def)
  have "Clone buffer p = Some (q\<lparr>ext_ids := ext_ids p\<rparr>)" using cl q(1) he by simp
  moreover have "rtp_wf (q\<lparr>ext_ids := ext_ids p\<rparr>)" using q(2) by (simp add: rtp_wf_ext_ids)
  moreover have "payload_bytes (q\<lparr>ext_ids := ext_ids p\<rparr>) = payload_bytes p"
    using q m qm f cap by (intro payload_bytes_eqI) auto
  moreover have "take (payload p + payloadLength p) m = take (payload p + payloadLength p) ?s"
    using m f cap by (intro nth_equalityI) auto
  ultimately show ?thesis using q m(1) qm by (intro exI [of _ "q\<lparr>ext_ids := ext_ids p\<rparr>"]) simp
qed

text \<open>What the extension loops find depends on the bytes of the header only.\<close>

lemma skip_zeros_cong: "(\<And>i. i < e \<Longrightarrow> Get1Byte m' i = Get1Byte m i) \<Longrightarrow> skip_zeros m' ptr e = skip_zeros m ptr e"
proof (induction m ptr e rule: skip_zeros.induct)
  case (1 m ptr e)
  then show ?case
    by (subst (1 2) skip_zeros.simps) (auto split: option.split)
qed

lemma one_byte_loop_cong:
  "(\<And>i. i < e \<Longrightarrow> Get1Byte m' i = Get1Byte m i) \<Longrightarrow> one_byte_loop m' e ptr mp = one_byte_loop m e ptr mp"
proof (induction m e ptr mp rule: one_byte_loop.induct)
  case (1 m e ptr mp)
  have z: "skip_zeros m' q e = skip_zeros m q e" for q by (rule skip_zeros_cong) (rule 1(3))
  have IH1: "one_byte_loop m' e q (mp(drop_bit 4 (b AND 0xF0) \<mapsto> ptr)) = one_byte_loop m e q (mp(drop_bit 4 (b AND 0xF0) \<mapsto> ptr))"
    if "ptr < e" "Get1Byte m ptr = Some b" "drop_bit 4 (b AND 0xF0) \<noteq> 15" "drop_bit 4 (b AND 0xF0) \<noteq> 0"
    "\<not> ptr + 1 + (unat (b AND 0x0F) + 1) > e" "skip_zeros m (ptr + (1 + (unat (b AND 0x0F) + 1))) e = Some q" for b q
    by (rule 1(1) [OF that(1,2) refl refl that(3-6) 1(3)])
  have IH2: "one_byte_loop m' e q mp = one_byte_loop m e q mp" if "ptr < e" "Get1Byte m ptr = Some b" "drop_bit 4 (b AND 0xF0) = 0"
     "skip_zeros m (ptr + 1) e = Some q" for b q
    by (rule 1(2) [OF that(1,2) refl refl _ _ that(4) 1(3)]) (use that(3) in simp_all)
  show ?case
  proof (cases "ptr < e")
    case False
    then show ?thesis by (simp add: one_byte_loop.simps)
  next
    case lt: True
    show ?thesis
    proof (cases "Get1Byte m ptr")
      case None
      then show ?thesis using lt 1(3) [OF lt] by (simp add: one_byte_loop.simps)
    next
      case (Some b)
      have g: "Get1Byte m' ptr = Some b" using 1(3) [OF lt] Some by simp
      show ?thesis
        unfolding one_byte_loop.simps [of m' e ptr mp] one_byte_loop.simps [of m e ptr mp] g Some Let_def option.case z
        using IH1 [OF lt Some] IH2 [OF lt Some] by (intro if_cong refl) (auto split: option.split)
    qed
  qed
qed

lemma two_bytes_loop_cong:
  "(\<And>i. i < e \<Longrightarrow> Get1Byte m' i = Get1Byte m i) \<Longrightarrow> two_bytes_loop m' e ptr mp = two_bytes_loop m e ptr mp"
proof (induction m e ptr mp rule: two_bytes_loop.induct)
  case (1 m e ptr mp)
  have z: "skip_zeros m' q e = skip_zeros m q e" for q by (rule skip_zeros_cong) (rule 1(3))
  show ?case
  proof (cases "ptr + 1 < e")
    case False
    then show ?thesis by (simp add: two_bytes_loop.simps)
  next
    case lt: True
    have g: "Get1Byte m' ptr = Get1Byte m ptr" "Get1Byte m' (ptr + 1) = Get1Byte m (ptr + 1)" using 1(3) lt by simp_all
    show ?thesis
    proof (cases "\<exists>i l. Get1Byte m ptr = Some i \<and> Get1Byte m (ptr + 1) = Some l")
      case False
      then show ?thesis using g lt unfolding two_bytes_loop.simps [of m' e ptr mp] two_bytes_loop.simps [of m e ptr mp]
        by (cases "Get1Byte m ptr"; cases "Get1Byte m (ptr + 1)") simp_all
    next
      case True
      then obtain i l where il: "Get1Byte m ptr = Some i" "Get1Byte m (ptr + 1) = Some l" by blast
      have IH1: "two_bytes_loop m' e q (mp(i \<mapsto> ptr)) = two_bytes_loop m e q (mp(i \<mapsto> ptr))"
        if "i \<noteq> 0" "\<not> ptr + 2 + unat l > e" "skip_zeros m (ptr + (2 + unat l)) e = Some q" for q
        by (rule 1(1) [OF lt _ il that 1(3)]) (simp_all add: il)
      have IH2: "two_bytes_loop m' e q mp = two_bytes_loop m e q mp" if "i = 0" "skip_zeros m (ptr + 1) e = Some q" for q
        by (rule 1(2) [OF lt _ il _ that(2) 1(3)]) (use that(1) in \<open>simp_all add: il\<close>)
      show ?thesis
        unfolding two_bytes_loop.simps [of m' e ptr mp] two_bytes_loop.simps [of m e ptr mp] g il prod.case option.case z
        using IH1 IH2 by (intro if_cong refl) (auto split: option.split)
    qed
  qed
qed

lemma ParseExtensions_cong:
  assumes l: "rtp_layout (rtp_mem p) len plen pad" and he: "headerExtension p = (if bit (rtp_mem p ! 0) 4 then Some (rtp_csrc_end (rtp_mem p)) else None)"
    and m: "\<And>i. i < rtp_payload_start (rtp_mem p) \<Longrightarrow> Get1Byte m i = Get1Byte (rtp_mem p) i"
  shows "ParseExtensions (p\<lparr>rtp_mem := m\<rparr>) = map_option (\<lambda>q. q\<lparr>rtp_mem := m\<rparr>) (ParseExtensions p)"
proof (cases "bit (rtp_mem p ! 0) 4")
  case False
  then show ?thesis using he by (simp add: ParseExtensions_def HasOneByteExtensions_def HasTwoBytesExtensions_def GetHeaderExtensionId_def GetHeaderExtensionLength_def)
next
  case True
  let ?h = "rtp_csrc_end (rtp_mem p)" and ?e = "rtp_payload_start (rtp_mem p)"
  have h: "headerExtension p = Some ?h" using he True by simp
  have e: "?h + 4 + rtp_ext_size (rtp_mem p) = ?e" using rtp_layout_bounds(4) [OF l True] .
  have g: "GetHeaderExtensionId (p\<lparr>rtp_mem := m\<rparr>) = GetHeaderExtensionId p" "GetHeaderExtensionLength (p\<lparr>rtp_mem := m\<rparr>) = GetHeaderExtensionLength p"
    using m e by (simp_all add: GetHeaderExtensionId_def GetHeaderExtensionLength_def h Get2Bytes_def)
  have len: "GetHeaderExtensionLength p = Some (rtp_ext_size (rtp_mem p))" using GetHeaderExtension_wf(2) [OF l h True refl] .
  have o: "HasOneByteExtensions (p\<lparr>rtp_mem := m\<rparr>) = HasOneByteExtensions p" "HasTwoBytesExtensions (p\<lparr>rtp_mem := m\<rparr>) = HasTwoBytesExtensions p"
    by (simp_all add: HasOneByteExtensions_def HasTwoBytesExtensions_def g)
  have loops: "one_byte_loop m ?e q mp = one_byte_loop (rtp_mem p) ?e q mp" "two_bytes_loop m ?e q mp = two_bytes_loop (rtp_mem p) ?e q mp" for q mp
    using m by (intro one_byte_loop_cong two_bytes_loop_cong; simp)+
  obtain b where "HasOneByteExtensions p = Some b" using GetHeaderExtension_wf(1) [OF l h True refl] by (auto simp: HasOneByteExtensions_def)
  moreover obtain c where "HasTwoBytesExtensions p = Some c" using GetHeaderExtension_wf(1) [OF l h True refl] by (auto simp: HasTwoBytesExtensions_def)
  ultimately show ?thesis
    unfolding ParseExtensions_def o g len
    by (cases b; cases c; cases "one_byte_loop (rtp_mem p) ?e (?h + 4) Map.empty"; cases "two_bytes_loop (rtp_mem p) ?e (?h + 4) Map.empty")
      (simp_all add: h e loops)
qed

lemma Clone_extensions:
  fixes p :: "'h rtp_packet"
  assumes wf: "rtp_wf p" and cap: "rtp_size p \<le> length buffer"
  shows "\<exists>q r. Clone buffer p = Some q \<and> RtpPacket_Parse (rtp_mem p) (rtp_size p) = Some (Some r) \<and> payload q = payload p \<and>
    payloadLength q = payloadLength p \<and> payloadDescriptorHandler q = None \<and>
    mapOneByteExtensions q = mapOneByteExtensions r \<and> mapTwoBytesExtensions q = mapTwoBytesExtensions (r :: 'h rtp_packet)"
proof -
  let ?s = "rtp_mem p"
  note f = rtp_wf_facts [OF wf]
  from Clone_copies [OF wf cap] obtain m where m: "length m = length buffer" "\<forall>i < payload p + payloadLength p. m ! i = ?s ! i"
    and cl: "Clone buffer p = map_option (\<lambda>q. q\<lparr>ext_ids := ext_ids p\<rparr>)
      (RtpPacket_ctor m (headerExtension p) (payload p) (payloadLength p) (payloadPadding p) (rtp_size p))" .
  have l: "rtp_layout ?s (rtp_size p) (payloadLength p) (payloadPadding p)" and he: "headerExtension p = (if bit (?s ! 0) 4 then Some (rtp_csrc_end ?s) else None)"
    using wf by (simp_all add: rtp_wf_def Let_def)
  have g: "Get1Byte m i = Get1Byte ?s i" if "i < rtp_payload_start ?s" for i
    using that m f cap by (simp add: Get1Byte_def)
  let ?p = "\<lambda>m. \<lparr>rtp_mem = m, csrcList = (if b0_csrcCount (?s ! 0) \<noteq> 0 then Some SIZEOF_RtpHeader else None),
       headerExtension = headerExtension p, mapOneByteExtensions = Map.empty, mapTwoBytesExtensions = Map.empty,
       ext_ids = no_extension_ids, payload = payload p, payloadLength = payloadLength p, payloadPadding = payloadPadding p, rtp_size = rtp_size p,
       payloadDescriptorHandler = None\<rparr> :: 'h rtp_packet"
  have b0: "Get1Byte ?s 0 = Some (?s ! 0)" "Get1Byte m 0 = Some (?s ! 0)" using g [of 0] f by (auto simp: Get1Byte_def)
  have c: "RtpPacket_ctor x (headerExtension p) (payload p) (payloadLength p) (payloadPadding p) (rtp_size p) = ParseExtensions (?p x)"
    if "Get1Byte x 0 = Some (?s ! 0)" for x using that by (simp add: RtpPacket_ctor_def)
  have "ParseExtensions (?p m) = map_option (\<lambda>q. q\<lparr>rtp_mem := m\<rparr>) (ParseExtensions (?p ?s))"
  proof -
    have "ParseExtensions (?p ?s\<lparr>rtp_mem := m\<rparr>) = map_option (\<lambda>q. q\<lparr>rtp_mem := m\<rparr>) (ParseExtensions (?p ?s))"
      by (rule ParseExtensions_cong [of _ "rtp_size p" "payloadLength p" "payloadPadding p"]) (use l he g in \<open>simp_all cong: if_cong\<close>)
    then show ?thesis by simp
  qed
  moreover obtain r :: "'h rtp_packet" where r: "ParseExtensions (?p ?s) = Some r" "RtpPacket_Parse ?s (rtp_size p) = Some (Some r)"
      "payload r = payload p" "payloadLength r = payloadLength p" "payloadDescriptorHandler r = None"
  proof -
    obtain r :: "'h rtp_packet" where ctor: "RtpPacket_ctor ?s (headerExtension p) (payload p) (payloadLength p) (payloadPadding p) (rtp_size p) = Some r"
      and r: "rtp_wf r" "rtp_mem r = ?s" "payloadLength r = payloadLength p" "payloadDescriptorHandler r = None"
      using RtpPacket_ctor_wf [where 'a = 'h, OF l] unfolding he [symmetric] f(7) [symmetric] by blast
    moreover have "RtpPacket_Parse ?s (rtp_size p) = Some (Some r)"
      using RtpPacket_Parse_layout [where 'a = 'h, OF l] unfolding he [symmetric] f(7) [symmetric] ctor by simp
    moreover have "payload r = payload p" using rtp_wf_facts(7) [OF r(1)] r(2) f(7) by simp
    ultimately show ?thesis using that c [OF b0(1)] by simp
  qed
  ultimately have "Clone buffer p = Some (r\<lparr>rtp_mem := m, ext_ids := ext_ids p\<rparr>)" using cl c [OF b0(2)] by simp
  with r show ?thesis by (intro exI [of _ "r\<lparr>rtp_mem := m, ext_ids := ext_ids p\<rparr>"] exI [of _ r]) simp
qed

text \<open>C20: \<open>Clone\<close> into a buffer that holds the packet does not fail its assertion and yields a well-formed packet
  of the same size with the same header bytes, CSRC list, header extension, payload and padding, the same extension ids, the
  extension elements that a parse of the original bytes finds, and no payload descriptor handler; the padding bytes but the last are not copied.\<close>

theorem Clone_spec:
  fixes p :: "'h rtp_packet"
  assumes wf: "rtp_wf p" and cap: "rtp_size p \<le> length buffer"
  shows "\<exists>q. Clone buffer p = Some q \<and> rtp_wf q \<and> length (rtp_mem q) = length buffer \<and>
    take (payload p + payloadLength p) (rtp_mem q) = take (payload p + payloadLength p) (rtp_mem p) \<and>
    payload_bytes q = payload_bytes p \<and> rtp_size q = rtp_size p \<and> payloadPadding q = payloadPadding p \<and>
    headerExtension q = headerExtension p \<and> csrcList q = csrcList p \<and> ext_ids q = ext_ids p \<and>
    payload q = payload p \<and> payloadLength q = payloadLength p \<and> payloadDescriptorHandler q = None \<and>
    (\<exists>r :: 'h rtp_packet. RtpPacket_Parse (rtp_mem p) (rtp_size p) = Some (Some r) \<and>
      mapOneByteExtensions q = mapOneByteExtensions r \<and> mapTwoBytesExtensions q = mapTwoBytesExtensions r)"
  using Clone_wf [OF assms] Clone_extensions [OF assms] by (elim exE conjE) simp

theorem Clone_spec_witness:
  "\<exists>(p :: unit rtp_packet) q. RtpPacket_Parse [0xA0, 100, 0, 7, 0, 0, 0, 1, 0, 0, 0, 9, 1, 2, 0, 2] 16 = Some (Some p) \<and>
     Clone (replicate 1500 0) p = Some q \<and> payload_bytes q = [1, 2] \<and> payloadPadding q = 2"
proof -
  let ?m = "[0xA0, 100, 0, 7, 0, 0, 0, 1, 0, 0, 0, 9, 1, 2, 0, 2] :: bytes"
  have l: "rtp_layout ?m 16 2 2" by code_simp
  obtain p :: "unit rtp_packet" where p: "RtpPacket_Parse ?m 16 = Some (Some p)" "rtp_wf p" "rtp_mem p = ?m" "rtp_size p = 16"
    "payloadLength p = 2" "payloadPadding p = 2" "payload p = rtp_payload_start ?m" by (rule parsed_layout [OF l])
  have "rtp_payload_start ?m = 12" by code_simp
  with p have "payload_bytes p = [1, 2]" by (simp add: payload_bytes_def)
  moreover have "rtp_size p \<le> length (replicate 1500 0 :: bytes)" using p by simp
  ultimately show ?thesis using Clone_spec [OF p(2), of "replicate 1500 0"] p(1,6) by auto
qed

subsection \<open>ShiftPayload\<close>

lemma memmove_moved:
  assumes "memmove m dst src n = Some m'"
  shows "i < n \<Longrightarrow> m' ! (dst + i) = m ! (src + i)" and "i < dst \<Longrightarrow> m' ! i = m ! i"
  using assms by (auto simp: memmove_def nth_append split: if_splits)

lemma ShiftPayload_headers:
  assumes wf: "rtp_wf p" and m: "length m = length (rtp_mem p)" "\<And>i. i < payload p \<Longrightarrow> m ! i = rtp_mem p ! i"
  shows "same_headers (rtp_mem p) m" "m ! 0 = rtp_mem p ! 0"
  using m rtp_wf_facts [OF wf] by (auto simp: same_headers_def)

text \<open>\<open>ShiftPayload\<close> opens a gap of \<open>shift\<close> bytes at an offset of the payload and closes it again: the packet with
  the gap is well-formed and holds the payload before and behind it, and closing the gap gives the
  payload back.\<close>

lemma ShiftPayload_spec:
  assumes wf: "rtp_wf p" and off: "payloadOffset < payloadLength p" and cap: "rtp_size p + shift \<le> length (rtp_mem p)"
  shows "\<exists>q r. ShiftPayload payloadOffset shift True p = Some q \<and> rtp_wf q \<and> rtp_size q = rtp_size p + shift \<and>
    take payloadOffset (payload_bytes q) = take payloadOffset (payload_bytes p) \<and>
    drop (payloadOffset + shift) (payload_bytes q) = drop payloadOffset (payload_bytes p) \<and>
    ShiftPayload payloadOffset shift False q = Some r \<and> rtp_wf r \<and> rtp_size r = rtp_size p \<and> payload_bytes r = payload_bytes p"
proof (cases "shift = 0")
  case True
  then show ?thesis using wf by (simp add: ShiftPayload_def)
next
  case False
  note f = rtp_wf_facts [OF wf]
  let ?s = "rtp_mem p" and ?o = "payload p + payloadOffset" and ?k = "payloadLength p + unat (payloadPadding p) - payloadOffset"
  have ok: "?o + ?k = rtp_size p" using f(2) off by linarith
  obtain m where m: "memmove ?s (?o + shift) ?o ?k = Some m" using ok cap by (simp add: memmove_def)
  note n = memmove_nth [OF m]
  let ?q = "p\<lparr>rtp_mem := m, payloadLength := payloadLength p + shift, rtp_size := rtp_size p + shift\<rparr>"
  obtain m' where m': "memmove m ?o (?o + shift) ?k = Some m'" using ok cap n(1) by (simp add: memmove_def)
  note n' = memmove_nth [OF m']
  let ?r = "p\<lparr>rtp_mem := m'\<rparr>"
  have q: "ShiftPayload payloadOffset shift True p = Some ?q" using False off m by (simp add: ShiftPayload_def)
  have "payloadLength p + shift + unat (payloadPadding p) - payloadOffset - shift = ?k" by simp
  then have r: "ShiftPayload payloadOffset shift False ?q = Some ?r" using False off m' by (simp add: ShiftPayload_def)
  have lastb: "payloadPadding p \<noteq> 0 \<Longrightarrow> ?s ! (rtp_size p - 1) = payloadPadding p"
    using wf by (simp add: rtp_wf_def Let_def rtp_layout_def)
  have low: "m ! i = ?s ! i" if "i < ?o" for i using memmove_moved(2) [OF m] that by simp
  have high: "m ! (?o + shift + i) = ?s ! (?o + i)" if "i < ?k" for i
    by (rule memmove_moved(1) [OF m that])
  have restored: "m' ! i = ?s ! i" if "i < rtp_size p" for i
  proof (cases "i < ?o")
    case True
    then show ?thesis using memmove_moved(2) [OF m'] low by simp
  next
    case o: False
    define j where "j = i - ?o"
    have i: "i = ?o + j" and j: "j < ?k" using o that ok by (auto simp: j_def)
    have "m' ! (?o + j) = m ! (?o + shift + j)" by (rule memmove_moved(1) [OF m' j])
    then show ?thesis using high [OF j] by (simp only: i)
  qed
  have hq: "same_headers ?s m" "m ! 0 = ?s ! 0" by (rule ShiftPayload_headers [OF wf n(1)], simp add: low)+
  have hr: "same_headers ?s m'" "m' ! 0 = ?s ! 0"
    using n(1) n'(1) restored f(2) by (intro ShiftPayload_headers [OF wf]; simp)+
  have "?k - 1 < ?k" "?o + shift + (?k - 1) = rtp_size p + shift - 1" "?o + (?k - 1) = rtp_size p - 1" using off ok by linarith+
  with high [of "?k - 1"] have gap_last: "m ! (rtp_size p + shift - 1) = ?s ! (rtp_size p - 1)" by (simp only:)
  have "rtp_wf ?q" using hq gap_last lastb f(2,6) cap by (intro rtp_wf_change [OF wf]) simp_all
  moreover have "rtp_wf ?r" using hr restored lastb f cap by (intro rtp_wf_change [OF wf]) simp_all
  moreover have "payload_bytes ?r = payload_bytes p" using restored n(1) n'(1) f(2,3) by (intro payload_bytes_eqI) simp_all
  moreover have "take payloadOffset (payload_bytes ?q) = take payloadOffset (payload_bytes p)"
    using low n(1) off cap f(2) by (intro nth_equalityI) (auto simp: payload_bytes_def)
  moreover have "drop (payloadOffset + shift) (payload_bytes ?q) = drop payloadOffset (payload_bytes p)"
    using high n(1) off cap f(2) by (intro nth_equalityI) (auto simp: payload_bytes_def ac_simps)
  ultimately show ?thesis using q r by (intro exI [of _ ?q] exI [of _ ?r]) simp
qed

subsection \<open>Extensions of a well-formed packet\<close>

text \<open>On a well-formed packet every extension lookup stays inside the packet.\<close>

lemma GetExtension_wf:
  assumes wf: "rtp_wf p"
  shows "\<exists>e. GetExtension i p = Some e \<and> (\<forall>v len. e = Some (v, len) \<longrightarrow> v + unat len \<le> payload p \<and> len \<noteq> 0)"
proof (cases "headerExtension p")
  case None
  then show ?thesis by (simp add: GetExtension_def HasOneByteExtensions_def HasTwoBytesExtensions_def GetHeaderExtensionId_def)
next
  case (Some h)
  let ?m = "rtp_mem p"
  have l: "rtp_layout ?m (rtp_size p) (payloadLength p) (payloadPadding p)" and b4: "bit (?m ! 0) 4" and h: "h = rtp_csrc_end ?m"
    and ok: "one_byte_ok ?m (rtp_csrc_end ?m + 4) (payload p) (mapOneByteExtensions p)"
      "two_bytes_ok ?m (rtp_csrc_end ?m + 4) (payload p) (mapTwoBytesExtensions p)"
    using wf Some by (auto simp: rtp_wf_def Let_def split: if_splits)
  obtain x where x: "GetHeaderExtensionId p = Some x" using GetHeaderExtension_wf(1) [OF l Some b4 h] by blast
  have pl: "payload p \<le> length ?m" using rtp_wf_facts(2,3) [OF wf] by linarith
  have one: "e < length ?m \<and> e + 1 + unat ((?m ! e AND 0x0F) + 1) \<le> payload p \<and> (?m ! e AND 0x0F) + 1 \<noteq> 0" if "mapOneByteExtensions p i = Some e" for e
  proof -
    have le: "e + 2 + unat (?m ! e AND 0x0F) \<le> payload p" using ok(1) that by (auto simp: one_byte_ok_def)
    have "?m ! e AND 0x0F \<le> 0x0F" by (rule word_and_le1)
    then have "unat ((?m ! e AND 0x0F) + 1) = unat (?m ! e AND 0x0F) + 1" by (simp add: unat_word_ariths word_le_nat_alt)
    moreover from this have "(?m ! e AND 0x0F) + 1 \<noteq> 0" by (metis add_is_0 one_neq_zero unsigned_0)
    ultimately show ?thesis using le pl by simp
  qed
  have two: "e + 1 < length ?m \<and> e + 2 + unat (?m ! (e + 1)) \<le> payload p" if "mapTwoBytesExtensions p i = Some e" for e
    using ok(2) that pl by (fastforce simp: two_bytes_ok_def)
  show ?thesis
    using one two
    by (auto simp: GetExtension_def HasOneByteExtensions_def HasTwoBytesExtensions_def x Get1Byte_def split: option.split)
qed

end
