(* ===== verification/Timer.thy ===== *)
theory Timer
  imports Prelude
begin

text \<open>
  \<^verbatim>\<open>Timer\<close> (\<^verbatim>\<open>src/handles/Timer.cpp\<close>), the worker's wrapper of a libuv timer, on top of the timer handle of
  \<^verbatim>\<open>deps/libuv/libuv/src/timer.c\<close>. The loop time is an argument. \<open>None\<close> is a thrown error (a closed
  timer, or libuv refuses to start it).
\<close>

subsection \<open>The libuv handle\<close>

record uv_timer =
  uv_timeout :: u64
  uv_repeat :: u64
  uv_active :: bool
  uv_closing :: bool

definition uv_timer_init :: uv_timer where
  "uv_timer_init = \<lparr>uv_timeout = 0, uv_repeat = 0, uv_active = False, uv_closing = False\<rparr>"

definition uv_timer_stop :: "uv_timer \<Rightarrow> uv_timer" where
  "uv_timer_stop h = h\<lparr>uv_active := False\<rparr>"

definition uv_timer_start :: "u64 \<Rightarrow> u64 \<Rightarrow> u64 \<Rightarrow> uv_timer \<Rightarrow> uv_timer option" where
  "uv_timer_start now timeout repeat h =
     (if uv_closing h then None
      else
        let clamped_timeout = now + timeout;
            clamped_timeout = (if clamped_timeout < timeout then - 1 else clamped_timeout)
        in Some (h\<lparr>uv_timeout := clamped_timeout, uv_repeat := repeat, uv_active := True\<rparr>))"

definition uv_timer_again :: "u64 \<Rightarrow> uv_timer \<Rightarrow> uv_timer" where
  "uv_timer_again now h =
     (if uv_repeat h \<noteq> 0 then
        case uv_timer_start now (uv_repeat h) (uv_repeat h) (uv_timer_stop h) of None \<Rightarrow> uv_timer_stop h | Some h \<Rightarrow> h
      else h)"

text \<open>What \<open>uv__run_timers\<close> does with a due timer before it calls back.\<close>

definition uv_due :: "u64 \<Rightarrow> uv_timer \<Rightarrow> bool" where
  "uv_due now h \<longleftrightarrow> uv_active h \<and> uv_timeout h \<le> now"

definition uv_run_timer :: "u64 \<Rightarrow> uv_timer \<Rightarrow> uv_timer" where
  "uv_run_timer now h = uv_timer_again now (uv_timer_stop h)"

subsection \<open>Timer\<close>

record timer =
  tm_closed :: bool
  tm_timeout :: u64
  tm_repeat :: u64
  uvHandle :: uv_timer

definition Timer_new :: timer where
  "Timer_new = \<lparr>tm_closed = False, tm_timeout = 0, tm_repeat = 0, uvHandle = uv_timer_init\<rparr>"

definition Timer_Close :: "timer \<Rightarrow> timer" where
  "Timer_Close t =
     (if tm_closed t then t
      else t\<lparr>tm_closed := True, uvHandle := (uv_timer_stop (uvHandle t))\<lparr>uv_closing := True\<rparr>\<rparr>)"

definition Timer_Stop :: "timer \<Rightarrow> timer option" where
  "Timer_Stop t = (if tm_closed t then None else Some (t\<lparr>uvHandle := uv_timer_stop (uvHandle t)\<rparr>))"

definition Timer_Start :: "u64 \<Rightarrow> u64 \<Rightarrow> u64 \<Rightarrow> timer \<Rightarrow> timer option" where
  "Timer_Start now timeout repeat t =
     (if tm_closed t then None
      else do {
        let t = t\<lparr>tm_timeout := timeout, tm_repeat := repeat\<rparr>;
        t \<leftarrow> (if uv_active (uvHandle t) then Timer_Stop t else Some t);
        h \<leftarrow> uv_timer_start now timeout repeat (uvHandle t);
        Some (t\<lparr>uvHandle := h\<rparr>) })"

definition Timer_Reset :: "u64 \<Rightarrow> timer \<Rightarrow> timer option" where
  "Timer_Reset now t =
     (if tm_closed t then None
      else if \<not> uv_active (uvHandle t) then Some t
      else if tm_repeat t = 0 then Some t
      else do {
        h \<leftarrow> uv_timer_start now (tm_repeat t) (tm_repeat t) (uvHandle t);
        Some (t\<lparr>uvHandle := h\<rparr>) })"

definition Timer_Restart :: "u64 \<Rightarrow> timer \<Rightarrow> timer option" where
  "Timer_Restart now t =
     (if tm_closed t then None
      else do {
        t \<leftarrow> (if uv_active (uvHandle t) then Timer_Stop t else Some t);
        h \<leftarrow> uv_timer_start now (tm_timeout t) (tm_repeat t) (uvHandle t);
        Some (t\<lparr>uvHandle := h\<rparr>) })"

definition Timer_IsActive :: "timer \<Rightarrow> bool" where
  "Timer_IsActive t \<longleftrightarrow> uv_active (uvHandle t)"

text \<open>The loop fires a due timer: the handle is stopped (and started again if it repeats), then the
  listener is called.\<close>

definition Timer_due :: "u64 \<Rightarrow> timer \<Rightarrow> bool" where
  "Timer_due now t \<longleftrightarrow> uv_due now (uvHandle t)"

definition Timer_fired :: "u64 \<Rightarrow> timer \<Rightarrow> timer" where
  "Timer_fired now t = t\<lparr>uvHandle := uv_run_timer now (uvHandle t)\<rparr>"

subsection \<open>One-shot timers\<close>

text \<open>A timer that is open and does not repeat: \<open>one_shot to t\<close>; it is armed to fire at \<open>due\<close>.\<close>

definition one_shot :: "u64 \<Rightarrow> timer \<Rightarrow> bool" where
  "one_shot to t \<longleftrightarrow> \<not> tm_closed t \<and> \<not> uv_closing (uvHandle t) \<and> tm_timeout t = to \<and> tm_repeat t = 0 \<and> uv_repeat (uvHandle t) = 0"

definition armed :: "u64 \<Rightarrow> nat \<Rightarrow> timer \<Rightarrow> bool" where
  "armed to due t \<longleftrightarrow> one_shot to t \<and> uv_active (uvHandle t) \<and> unat (uv_timeout (uvHandle t)) = due"

lemma unat_clock_add:
  fixes now to :: u64
  assumes "unat now + unat to < 2 ^ 64"
  shows "unat (now + to) = unat now + unat to" "\<not> now + to < to"
  using assms by (simp_all add: unat_word_ariths word_less_nat_alt)

lemma Timer_Start_new:
  assumes "unat now + unat to < 2 ^ 64"
  obtains t where "Timer_Start now to 0 Timer_new = Some t" "armed to (unat now + unat to) t"
  using unat_clock_add [OF assms]
  by (simp add: Timer_Start_def Timer_new_def uv_timer_start_def uv_timer_init_def armed_def one_shot_def)

lemma Timer_Restart_one_shot:
  assumes "one_shot to t" "unat now + unat to < 2 ^ 64"
  obtains t' where "Timer_Restart now t = Some t'" "armed to (unat now + unat to) t'"
  using unat_clock_add [OF assms(2)] assms(1)
  by (cases "uv_active (uvHandle t)")
    (simp_all add: Timer_Restart_def Timer_Stop_def uv_timer_stop_def uv_timer_start_def armed_def one_shot_def Let_def)

lemma Timer_fired_one_shot: "one_shot to t \<Longrightarrow> one_shot to (Timer_fired now t) \<and> \<not> uv_active (uvHandle (Timer_fired now t))"
  by (simp add: one_shot_def Timer_fired_def uv_run_timer_def uv_timer_again_def uv_timer_stop_def)

lemma armed_one_shot: "armed to due t \<Longrightarrow> one_shot to t"
  by (simp add: armed_def)

lemma armed_due: "armed to due t \<Longrightarrow> Timer_due now t \<longleftrightarrow> due \<le> unat now"
  by (auto simp: armed_def Timer_due_def uv_due_def word_le_nat_alt)

lemma Timer_Stop_one_shot: "one_shot to t \<Longrightarrow> \<exists>t'. Timer_Stop t = Some t'"
  by (simp add: one_shot_def Timer_Stop_def)

end
