(* ===== verification/KeyFrameRequestManager.thy ===== *)
theory KeyFrameRequestManager
  imports Timer
begin

text \<open>
  \<^verbatim>\<open>RTC::KeyFrameRequestManager\<close> (\<^verbatim>\<open>src/RTC/KeyFrameRequestManager.cpp\<close>): decides when the sender of a stream is
  asked for a key frame. A pending request waits a second for the key frame and is repeated once; a
  delayer holds further requests back. Every call of the listener (\<open>OnKeyFrameNeeded\<close>) is an event, named
  by its SSRC; it is the last action of each operation. The loop time is the argument \<open>now\<close>. \<open>None\<close> is a
  failed assertion or a thrown error.
\<close>

subsection \<open>State and operations\<close>

abbreviation (input) "KeyFrameRetransmissionWaitTime \<equiv> (1000 :: u64)"

record PendingKeyFrameInfo =
  pk_timer :: timer
  retryOnTimeout :: bool

record KeyFrameRequestDelayer =
  kd_timer :: timer
  keyFrameRequested :: bool

record kf_manager =
  keyFrameRequestDelay :: u32
  mapSsrcPendingKeyFrameInfo :: "u32 \<rightharpoonup> PendingKeyFrameInfo"
  mapSsrcKeyFrameRequestDelayer :: "u32 \<rightharpoonup> KeyFrameRequestDelayer"

definition KeyFrameRequestManager_new :: "u32 \<Rightarrow> kf_manager" where
  "KeyFrameRequestManager_new delay = \<lparr>keyFrameRequestDelay = delay, mapSsrcPendingKeyFrameInfo = Map.empty,
     mapSsrcKeyFrameRequestDelayer = Map.empty\<rparr>"

definition PendingKeyFrameInfo_new :: "u64 \<Rightarrow> PendingKeyFrameInfo option" where
  "PendingKeyFrameInfo_new now = do {
     t \<leftarrow> Timer_Start now KeyFrameRetransmissionWaitTime 0 Timer_new;
     Some \<lparr>pk_timer = t, retryOnTimeout = True\<rparr> }"

definition PendingKeyFrameInfo_Restart :: "u64 \<Rightarrow> PendingKeyFrameInfo \<Rightarrow> PendingKeyFrameInfo option" where
  "PendingKeyFrameInfo_Restart now p = do { t \<leftarrow> Timer_Restart now (pk_timer p); Some (p\<lparr>pk_timer := t\<rparr>) }"

definition KeyFrameRequestDelayer_new :: "u64 \<Rightarrow> u32 \<Rightarrow> KeyFrameRequestDelayer option" where
  "KeyFrameRequestDelayer_new now delay = do {
     t \<leftarrow> Timer_Start now (ucast delay) 0 Timer_new;
     Some \<lparr>kd_timer = t, keyFrameRequested = False\<rparr> }"

text \<open>The destructors stop the timer before it is closed.\<close>

definition PendingKeyFrameInfo_delete :: "PendingKeyFrameInfo \<Rightarrow> unit option" where
  "PendingKeyFrameInfo_delete p = do { t \<leftarrow> Timer_Stop (pk_timer p); Some () }"

definition KeyFrameRequestDelayer_delete :: "KeyFrameRequestDelayer \<Rightarrow> unit option" where
  "KeyFrameRequestDelayer_delete d = do { t \<leftarrow> Timer_Stop (kd_timer d); Some () }"

definition KeyFrameNeeded :: "u64 \<Rightarrow> u32 \<Rightarrow> kf_manager \<Rightarrow> (kf_manager \<times> u32 list) option" where
  "KeyFrameNeeded now ssrc s =
     (case (if keyFrameRequestDelay s > 0 then mapSsrcKeyFrameRequestDelayer s ssrc else None) of
        Some d \<Rightarrow> Some (s\<lparr>mapSsrcKeyFrameRequestDelayer := (mapSsrcKeyFrameRequestDelayer s)(ssrc \<mapsto> d\<lparr>keyFrameRequested := True\<rparr>)\<rparr>, [])
      | None \<Rightarrow> do {
          s \<leftarrow> (if keyFrameRequestDelay s > 0 then do {
                  d \<leftarrow> KeyFrameRequestDelayer_new now (keyFrameRequestDelay s);
                  Some (s\<lparr>mapSsrcKeyFrameRequestDelayer := (mapSsrcKeyFrameRequestDelayer s)(ssrc \<mapsto> d)\<rparr>) }
                else Some s);
          case mapSsrcPendingKeyFrameInfo s ssrc of
            Some p \<Rightarrow> Some (s\<lparr>mapSsrcPendingKeyFrameInfo := (mapSsrcPendingKeyFrameInfo s)(ssrc \<mapsto> p\<lparr>retryOnTimeout := True\<rparr>)\<rparr>, [])
          | None \<Rightarrow> do {
              p \<leftarrow> PendingKeyFrameInfo_new now;
              Some (s\<lparr>mapSsrcPendingKeyFrameInfo := (mapSsrcPendingKeyFrameInfo s)(ssrc \<mapsto> p)\<rparr>, [ssrc]) } })"

definition ForceKeyFrameNeeded :: "u64 \<Rightarrow> u32 \<Rightarrow> kf_manager \<Rightarrow> (kf_manager \<times> u32 list) option" where
  "ForceKeyFrameNeeded now ssrc s = do {
     s \<leftarrow> (if keyFrameRequestDelay s > 0 then do {
             _ \<leftarrow> (case mapSsrcKeyFrameRequestDelayer s ssrc of None \<Rightarrow> Some () | Some d \<Rightarrow> KeyFrameRequestDelayer_delete d);
             d \<leftarrow> KeyFrameRequestDelayer_new now (keyFrameRequestDelay s);
             Some (s\<lparr>mapSsrcKeyFrameRequestDelayer := (mapSsrcKeyFrameRequestDelayer s)(ssrc \<mapsto> d)\<rparr>) }
           else Some s);
     p \<leftarrow> (case mapSsrcPendingKeyFrameInfo s ssrc of
             Some p \<Rightarrow> PendingKeyFrameInfo_Restart now (p\<lparr>retryOnTimeout := True\<rparr>)
           | None \<Rightarrow> PendingKeyFrameInfo_new now);
     Some (s\<lparr>mapSsrcPendingKeyFrameInfo := (mapSsrcPendingKeyFrameInfo s)(ssrc \<mapsto> p)\<rparr>, [ssrc]) }"

definition KeyFrameReceived :: "u32 \<Rightarrow> kf_manager \<Rightarrow> (kf_manager \<times> u32 list) option" where
  "KeyFrameReceived ssrc s = (case mapSsrcPendingKeyFrameInfo s ssrc of
       None \<Rightarrow> Some (s, [])
     | Some p \<Rightarrow> do {
         _ \<leftarrow> PendingKeyFrameInfo_delete p;
         Some (s\<lparr>mapSsrcPendingKeyFrameInfo := (mapSsrcPendingKeyFrameInfo s)(ssrc := None)\<rparr>, []) })"

text \<open>The timer of the entry for \<open>ssrc\<close> fires; an entry that is not in the map fails the assertion.\<close>

definition OnKeyFrameRequestTimeout :: "u64 \<Rightarrow> u32 \<Rightarrow> kf_manager \<Rightarrow> (kf_manager \<times> u32 list) option" where
  "OnKeyFrameRequestTimeout now ssrc s = (case mapSsrcPendingKeyFrameInfo s ssrc of
       None \<Rightarrow> None
     | Some p \<Rightarrow>
         let p = p\<lparr>pk_timer := Timer_fired now (pk_timer p)\<rparr> in
         if \<not> retryOnTimeout p then do {
           _ \<leftarrow> PendingKeyFrameInfo_delete p;
           Some (s\<lparr>mapSsrcPendingKeyFrameInfo := (mapSsrcPendingKeyFrameInfo s)(ssrc := None)\<rparr>, []) }
         else do {
           p \<leftarrow> PendingKeyFrameInfo_Restart now (p\<lparr>retryOnTimeout := False\<rparr>);
           Some (s\<lparr>mapSsrcPendingKeyFrameInfo := (mapSsrcPendingKeyFrameInfo s)(ssrc \<mapsto> p)\<rparr>, [ssrc]) })"

definition OnKeyFrameDelayTimeout :: "u64 \<Rightarrow> u32 \<Rightarrow> kf_manager \<Rightarrow> (kf_manager \<times> u32 list) option" where
  "OnKeyFrameDelayTimeout now ssrc s = (case mapSsrcKeyFrameRequestDelayer s ssrc of
       None \<Rightarrow> None
     | Some d \<Rightarrow> do {
         _ \<leftarrow> KeyFrameRequestDelayer_delete (d\<lparr>kd_timer := Timer_fired now (kd_timer d)\<rparr>);
         let s = s\<lparr>mapSsrcKeyFrameRequestDelayer := (mapSsrcKeyFrameRequestDelayer s)(ssrc := None)\<rparr>;
         if keyFrameRequested d then KeyFrameNeeded now ssrc s else Some (s, []) })"

subsection \<open>Runs\<close>

datatype kf_input = Needed u32 | ForceNeeded u32 | Received u32 | RequestTimer u32 | DelayTimer u32

fun kf_handle :: "u64 \<Rightarrow> kf_input \<Rightarrow> kf_manager \<Rightarrow> (kf_manager \<times> u32 list) option" where
  "kf_handle now (Needed ssrc) s = KeyFrameNeeded now ssrc s"
| "kf_handle now (ForceNeeded ssrc) s = ForceKeyFrameNeeded now ssrc s"
| "kf_handle now (Received ssrc) s = KeyFrameReceived ssrc s"
| "kf_handle now (RequestTimer ssrc) s = OnKeyFrameRequestTimeout now ssrc s"
| "kf_handle now (DelayTimer ssrc) s = OnKeyFrameDelayTimeout now ssrc s"

text \<open>A timer callback happens only for an entry whose timer is due.\<close>

fun kf_enabled :: "u64 \<Rightarrow> kf_input \<Rightarrow> kf_manager \<Rightarrow> bool" where
  "kf_enabled now (RequestTimer ssrc) s = (case mapSsrcPendingKeyFrameInfo s ssrc of None \<Rightarrow> False | Some p \<Rightarrow> Timer_due now (pk_timer p))"
| "kf_enabled now (DelayTimer ssrc) s = (case mapSsrcKeyFrameRequestDelayer s ssrc of None \<Rightarrow> False | Some d \<Rightarrow> Timer_due now (kd_timer d))"
| "kf_enabled now _ s = True"

text \<open>A run, with the time, the input and the events of each step. The clock does not go back; it counts
  milliseconds and stays below \<open>2 ^ 63\<close>.\<close>

inductive kf_run :: "u64 \<Rightarrow> kf_manager \<Rightarrow> (u64 \<times> kf_input \<times> u32 list) list \<Rightarrow> u64 \<Rightarrow> kf_manager \<Rightarrow> bool" where
  kf_start: "kf_run t s [] t s"
| kf_step: "kf_run t0 s0 tr t s \<Longrightarrow> t \<le> t' \<Longrightarrow> unat t' < 2 ^ 63 \<Longrightarrow> kf_enabled t' i s \<Longrightarrow>
    kf_handle t' i s = Some (s', ev) \<Longrightarrow> kf_run t0 s0 (tr @ [(t', i, ev)]) t' s'"

subsection \<open>Every entry has an armed timer\<close>

definition pending_ok :: "nat \<Rightarrow> PendingKeyFrameInfo \<Rightarrow> bool" where
  "pending_ok now p \<longleftrightarrow> (\<exists>due \<le> now + 1000. armed 1000 due (pk_timer p))"

definition delayer_ok :: "u32 \<Rightarrow> nat \<Rightarrow> KeyFrameRequestDelayer \<Rightarrow> bool" where
  "delayer_ok delay now d \<longleftrightarrow> (\<exists>due \<le> now + unat delay. armed (ucast delay) due (kd_timer d))"

definition kf_inv :: "u64 \<Rightarrow> kf_manager \<Rightarrow> bool" where
  "kf_inv now s \<longleftrightarrow> pred_map (pending_ok (unat now)) (mapSsrcPendingKeyFrameInfo s) \<and>
     pred_map (delayer_ok (keyFrameRequestDelay s) (unat now)) (mapSsrcKeyFrameRequestDelayer s)"

lemma kf_inv_new: "kf_inv now (KeyFrameRequestManager_new delay)"
  by (simp add: kf_inv_def KeyFrameRequestManager_new_def pred_map_def)

lemma kf_inv_later: "kf_inv t s \<Longrightarrow> t \<le> t' \<Longrightarrow> kf_inv t' s"
  unfolding kf_inv_def pred_map_def pending_ok_def delayer_ok_def word_le_nat_alt
  by (meson add_le_mono1 order_trans)

lemma PendingKeyFrameInfo_new_ok:
  assumes "unat now < 2 ^ 63"
  obtains p where "PendingKeyFrameInfo_new now = Some p" "armed 1000 (unat now + 1000) (pk_timer p)" "retryOnTimeout p"
proof -
  have "unat now + unat (1000 :: u64) < 2 ^ 64" using assms by simp
  from Timer_Start_new [OF this] obtain t where "Timer_Start now 1000 0 Timer_new = Some t" "armed 1000 (unat now + 1000) t" by auto
  then show thesis by (intro that) (auto simp: PendingKeyFrameInfo_new_def)
qed

lemma PendingKeyFrameInfo_Restart_ok:
  assumes "unat now < 2 ^ 63" "one_shot 1000 (pk_timer p)"
  obtains t where "PendingKeyFrameInfo_Restart now p = Some (p\<lparr>pk_timer := t\<rparr>)" "armed 1000 (unat now + 1000) t"
proof -
  have "unat now + unat (1000 :: u64) < 2 ^ 64" using assms by simp
  from Timer_Restart_one_shot [OF assms(2) this] obtain t where "Timer_Restart now (pk_timer p) = Some t"
    "armed 1000 (unat now + 1000) t" by auto
  then show thesis by (intro that) (auto simp: PendingKeyFrameInfo_Restart_def)
qed

lemma KeyFrameRequestDelayer_new_ok:
  assumes "unat now < 2 ^ 63"
  obtains d where "KeyFrameRequestDelayer_new now delay = Some d" "armed (ucast delay) (unat now + unat delay) (kd_timer d)"
    "\<not> keyFrameRequested d"
proof -
  have d: "unat delay < 2 ^ 32" using unat_less [of delay] by simp
  have u: "unat (ucast delay :: u64) = unat delay" 
    using d by (simp add: unsigned_ucast_eq take_bit_nat_eq_self)
  have "unat now + unat (ucast delay :: u64) < 2 ^ 64" unfolding u using assms d by simp
  from Timer_Start_new [OF this] obtain t where "Timer_Start now (ucast delay) 0 Timer_new = Some t"
    "armed (ucast delay) (unat now + unat delay) t" unfolding u by auto
  then show thesis by (intro that) (auto simp: KeyFrameRequestDelayer_new_def)
qed

lemma KeyFrameNeeded_inv:
  assumes inv: "kf_inv now s" and now: "unat now < 2 ^ 63"
  obtains s' ev where "KeyFrameNeeded now ssrc s = Some (s', ev)" "kf_inv now s'" "keyFrameRequestDelay s' = keyFrameRequestDelay s"
proof -
  obtain p where p: "PendingKeyFrameInfo_new now = Some p" "armed 1000 (unat now + 1000) (pk_timer p)"
    using PendingKeyFrameInfo_new_ok [OF now] by blast
  obtain d where d: "KeyFrameRequestDelayer_new now (keyFrameRequestDelay s) = Some d"
      "armed (ucast (keyFrameRequestDelay s)) (unat now + unat (keyFrameRequestDelay s)) (kd_timer d)"
    using KeyFrameRequestDelayer_new_ok [OF now] by blast
  have ok: "pending_ok (unat now) p" "delayer_ok (keyFrameRequestDelay s) (unat now) d"
    using p d by (auto simp: pending_ok_def delayer_ok_def)
  have flag: "pending_ok n (q\<lparr>retryOnTimeout := b\<rparr>) = pending_ok n q" "delayer_ok w n (e\<lparr>keyFrameRequested := b\<rparr>) = delayer_ok w n e" for n q b w e
    by (simp_all add: pending_ok_def delayer_ok_def)
  have "\<exists>s' ev. KeyFrameNeeded now ssrc s = Some (s', ev) \<and> kf_inv now s' \<and> keyFrameRequestDelay s' = keyFrameRequestDelay s"
    using inv p(1) d(1) ok
    by (auto simp: KeyFrameNeeded_def kf_inv_def flag split: option.split intro!: pred_map_upd dest: pred_mapD)
  then show thesis using that by blast
qed

lemma pending_delete: "pending_ok n p \<Longrightarrow> PendingKeyFrameInfo_delete p = Some ()"
  and pending_delete_fired: "pending_ok n p \<Longrightarrow> PendingKeyFrameInfo_delete (p\<lparr>pk_timer := Timer_fired now (pk_timer p)\<rparr>) = Some ()"
  and delayer_delete: "delayer_ok w n d \<Longrightarrow> KeyFrameRequestDelayer_delete d = Some ()"
  and delayer_delete_fired: "delayer_ok w n d \<Longrightarrow> KeyFrameRequestDelayer_delete (d\<lparr>kd_timer := Timer_fired now (kd_timer d)\<rparr>) = Some ()"
  using Timer_Stop_one_shot Timer_Stop_one_shot [OF Timer_fired_one_shot [THEN conjunct1]]
  by (auto simp: pending_ok_def delayer_ok_def PendingKeyFrameInfo_delete_def KeyFrameRequestDelayer_delete_def bind_eq_Some_iff
      dest!: armed_one_shot)

lemma pending_one_shot: "pending_ok n p \<Longrightarrow> one_shot 1000 (pk_timer p)"
  by (auto simp: pending_ok_def dest: armed_one_shot)

lemma ForceKeyFrameNeeded_inv:
  assumes inv: "kf_inv now s" and now: "unat now < 2 ^ 63"
  obtains s' p where "ForceKeyFrameNeeded now ssrc s = Some (s', [ssrc])" "kf_inv now s'"
    "mapSsrcPendingKeyFrameInfo s' ssrc = Some p" "armed 1000 (unat now + 1000) (pk_timer p)"
    "\<And>x. x \<noteq> ssrc \<Longrightarrow> mapSsrcPendingKeyFrameInfo s' x = mapSsrcPendingKeyFrameInfo s x"
proof -
  obtain d where d: "KeyFrameRequestDelayer_new now (keyFrameRequestDelay s) = Some d"
      "armed (ucast (keyFrameRequestDelay s)) (unat now + unat (keyFrameRequestDelay s)) (kd_timer d)"
    using KeyFrameRequestDelayer_new_ok [OF now] by blast
  have dok: "delayer_ok (keyFrameRequestDelay s) (unat now) d" using d by (auto simp: delayer_ok_def)
  have del: "(case mapSsrcKeyFrameRequestDelayer s ssrc of None \<Rightarrow> Some () | Some d \<Rightarrow> KeyFrameRequestDelayer_delete d) = Some ()"
    using inv by (auto simp: kf_inv_def split: option.split dest!: pred_mapD delayer_delete)
  obtain p where p: "(case mapSsrcPendingKeyFrameInfo s ssrc of
      Some p \<Rightarrow> PendingKeyFrameInfo_Restart now (p\<lparr>retryOnTimeout := True\<rparr>) | None \<Rightarrow> PendingKeyFrameInfo_new now) = Some p"
    "armed 1000 (unat now + 1000) (pk_timer p)"
  proof (cases "mapSsrcPendingKeyFrameInfo s ssrc")
    case None
    then show thesis using PendingKeyFrameInfo_new_ok [OF now] that by auto
  next
    case (Some q)
    then have "one_shot 1000 (pk_timer (q\<lparr>retryOnTimeout := True\<rparr>))" using inv by (auto simp: kf_inv_def dest!: pred_mapD pending_one_shot)
    from PendingKeyFrameInfo_Restart_ok [OF now this] obtain t where
      "PendingKeyFrameInfo_Restart now (q\<lparr>retryOnTimeout := True\<rparr>) = Some (q\<lparr>retryOnTimeout := True, pk_timer := t\<rparr>)" "armed 1000 (unat now + 1000) t"
      by auto
    with Some show thesis by (intro that) auto
  qed
  have pok: "pending_ok (unat now) p" using p by (auto simp: pending_ok_def)
  let ?s = "if keyFrameRequestDelay s > 0 then s\<lparr>mapSsrcKeyFrameRequestDelayer := (mapSsrcKeyFrameRequestDelayer s)(ssrc \<mapsto> d)\<rparr> else s"
  have "ForceKeyFrameNeeded now ssrc s = Some (?s\<lparr>mapSsrcPendingKeyFrameInfo := (mapSsrcPendingKeyFrameInfo s)(ssrc \<mapsto> p)\<rparr>, [ssrc])"
    using d(1) del p(1) by (simp add: ForceKeyFrameNeeded_def)
  moreover have "kf_inv now (?s\<lparr>mapSsrcPendingKeyFrameInfo := (mapSsrcPendingKeyFrameInfo s)(ssrc \<mapsto> p)\<rparr>)"
    using inv pok dok by (auto simp: kf_inv_def intro!: pred_map_upd)
  ultimately show thesis using p(2) by (intro that [of "?s\<lparr>mapSsrcPendingKeyFrameInfo := (mapSsrcPendingKeyFrameInfo s)(ssrc \<mapsto> p)\<rparr>" p]) auto
qed

lemma OnKeyFrameRequestTimeout_inv:
  assumes inv: "kf_inv now s" and now: "unat now < 2 ^ 63" and p: "mapSsrcPendingKeyFrameInfo s ssrc = Some p"
  obtains (gone) "\<not> retryOnTimeout p"
      "OnKeyFrameRequestTimeout now ssrc s = Some (s\<lparr>mapSsrcPendingKeyFrameInfo := (mapSsrcPendingKeyFrameInfo s)(ssrc := None)\<rparr>, [])"
      "kf_inv now (s\<lparr>mapSsrcPendingKeyFrameInfo := (mapSsrcPendingKeyFrameInfo s)(ssrc := None)\<rparr>)"
    | (again) q where "retryOnTimeout p" "\<not> retryOnTimeout q" "armed 1000 (unat now + 1000) (pk_timer q)"
      "OnKeyFrameRequestTimeout now ssrc s = Some (s\<lparr>mapSsrcPendingKeyFrameInfo := (mapSsrcPendingKeyFrameInfo s)(ssrc \<mapsto> q)\<rparr>, [ssrc])"
      "kf_inv now (s\<lparr>mapSsrcPendingKeyFrameInfo := (mapSsrcPendingKeyFrameInfo s)(ssrc \<mapsto> q)\<rparr>)"
proof (cases "retryOnTimeout p")
  case False
  have "pending_ok (unat now) p" using inv p by (auto simp: kf_inv_def dest: pred_mapD)
  with False inv p pending_delete_fired [of "unat now" p now] show thesis
    by (intro gone) (auto simp: OnKeyFrameRequestTimeout_def Let_def kf_inv_def intro!: pred_map_del)
next
  case True
  let ?p = "p\<lparr>pk_timer := Timer_fired now (pk_timer p), retryOnTimeout := False\<rparr>"
  have "one_shot 1000 (pk_timer ?p)"
    using inv p Timer_fired_one_shot by (auto simp: kf_inv_def dest!: pred_mapD pending_one_shot)
  from PendingKeyFrameInfo_Restart_ok [OF now this] obtain t where
    t: "PendingKeyFrameInfo_Restart now ?p = Some (?p\<lparr>pk_timer := t\<rparr>)" "armed 1000 (unat now + 1000) t" by blast
  have "pending_ok (unat now) (?p\<lparr>pk_timer := t\<rparr>)" using t by (auto simp: pending_ok_def)
  with True t inv p show thesis
    by (intro again [of "?p\<lparr>pk_timer := t\<rparr>"]) (auto simp: OnKeyFrameRequestTimeout_def Let_def kf_inv_def intro!: pred_map_upd)
qed

lemma OnKeyFrameDelayTimeout_eq:
  assumes inv: "kf_inv now s" and d: "mapSsrcKeyFrameRequestDelayer s ssrc = Some d"
  shows "OnKeyFrameDelayTimeout now ssrc s =
      (let s = s\<lparr>mapSsrcKeyFrameRequestDelayer := (mapSsrcKeyFrameRequestDelayer s)(ssrc := None)\<rparr>
       in if keyFrameRequested d then KeyFrameNeeded now ssrc s else Some (s, []))"
    and "kf_inv now (s\<lparr>mapSsrcKeyFrameRequestDelayer := (mapSsrcKeyFrameRequestDelayer s)(ssrc := None)\<rparr>)"
proof -
  have "delayer_ok (keyFrameRequestDelay s) (unat now) d" using inv d by (auto simp: kf_inv_def dest: pred_mapD)
  from delayer_delete_fired [OF this] d show "OnKeyFrameDelayTimeout now ssrc s =
      (let s = s\<lparr>mapSsrcKeyFrameRequestDelayer := (mapSsrcKeyFrameRequestDelayer s)(ssrc := None)\<rparr>
       in if keyFrameRequested d then KeyFrameNeeded now ssrc s else Some (s, []))"
    by (simp add: OnKeyFrameDelayTimeout_def)
  show "kf_inv now (s\<lparr>mapSsrcKeyFrameRequestDelayer := (mapSsrcKeyFrameRequestDelayer s)(ssrc := None)\<rparr>)"
    using inv by (auto simp: kf_inv_def intro!: pred_map_del)
qed

lemma kf_handle_inv:
  assumes inv: "kf_inv now s" and now: "unat now < 2 ^ 63" and en: "kf_enabled now i s"
  shows "\<exists>s' ev. kf_handle now i s = Some (s', ev) \<and> kf_inv now s'"
proof (cases i)
  case (Needed ssrc)
  with KeyFrameNeeded_inv [OF inv now] show ?thesis by (metis kf_handle.simps(1))
next
  case (ForceNeeded ssrc)
  with ForceKeyFrameNeeded_inv [OF inv now] show ?thesis by (metis kf_handle.simps(2))
next
  case (Received ssrc)
  show ?thesis
  proof (cases "mapSsrcPendingKeyFrameInfo s ssrc")
    case (Some p)
    then have "pending_ok (unat now) p" using inv by (auto simp: kf_inv_def dest: pred_mapD)
    from pending_delete [OF this] Some Received inv show ?thesis by (auto simp: KeyFrameReceived_def kf_inv_def intro!: pred_map_del)
  qed (use inv Received in \<open>simp add: KeyFrameReceived_def\<close>)
next
  case (RequestTimer ssrc)
  with en obtain p where "mapSsrcPendingKeyFrameInfo s ssrc = Some p" by (auto split: option.splits)
  from OnKeyFrameRequestTimeout_inv [OF inv now this] RequestTimer show ?thesis by (metis kf_handle.simps(4))
next
  case (DelayTimer ssrc)
  with en obtain d where d: "mapSsrcKeyFrameRequestDelayer s ssrc = Some d" by (auto split: option.splits)
  note e = OnKeyFrameDelayTimeout_eq [OF inv d]
  obtain s' ev where "KeyFrameNeeded now ssrc (s\<lparr>mapSsrcKeyFrameRequestDelayer := (mapSsrcKeyFrameRequestDelayer s)(ssrc := None)\<rparr>) = Some (s', ev)"
    "kf_inv now s'" by (rule KeyFrameNeeded_inv [OF e(2) now, of ssrc])
  with e DelayTimer show ?thesis by (auto simp: Let_def)
qed

lemma kf_run_inv:
  assumes "kf_run t0 (KeyFrameRequestManager_new delay) tr t s"
  shows "kf_inv t s"
  using assms
proof (induction t0 "KeyFrameRequestManager_new delay" tr t s rule: kf_run.induct)
  case (kf_step t0 tr t s t' i s' ev)
  then have "kf_inv t' s" by (auto intro: kf_inv_later)
  from kf_handle_inv [OF this, of i] kf_step show ?case by auto
qed (rule kf_inv_new)

text \<open>C22: the key frame request manager neither fails an assertion nor throws: whatever is asked of it, whenever
  key frames arrive and its timers fire, the next call succeeds, and every stored request and
  delayer has an armed one-shot timer that is due within a second, or within the configured delay, so
  that none of them blocks its SSRC forever.\<close>

theorem KeyFrameRequestManager_safe:
  assumes "kf_run t0 (KeyFrameRequestManager_new delay) tr t s" and "t \<le> now" "unat now < 2 ^ 63" "kf_enabled now i s"
  shows "kf_handle now i s \<noteq> None \<and>
    (\<forall>ssrc p. mapSsrcPendingKeyFrameInfo s ssrc = Some p \<longrightarrow> (\<exists>due \<le> unat t + 1000. armed 1000 due (pk_timer p))) \<and>
    (\<forall>ssrc d. mapSsrcKeyFrameRequestDelayer s ssrc = Some d \<longrightarrow>
      (\<exists>due \<le> unat t + unat (keyFrameRequestDelay s). armed (ucast (keyFrameRequestDelay s)) due (kd_timer d)))"
proof -
  have inv: "kf_inv t s" by (rule kf_run_inv [OF assms(1)])
  with kf_handle_inv [OF kf_inv_later [OF inv assms(2)] assms(3,4)] show ?thesis
    by (auto simp: kf_inv_def pred_map_def pending_ok_def delayer_ok_def)
qed

lemmas kf_eval = KeyFrameRequestManager_new_def KeyFrameNeeded_def OnKeyFrameRequestTimeout_def PendingKeyFrameInfo_new_def
  PendingKeyFrameInfo_Restart_def KeyFrameRequestDelayer_new_def Timer_Start_def Timer_new_def Timer_Restart_def Timer_Stop_def
  Timer_fired_def Timer_due_def uv_timer_init_def uv_timer_start_def uv_timer_stop_def uv_run_timer_def uv_timer_again_def uv_due_def

lemma kf_example:
  obtains s1 s2 where "kf_run 0 (KeyFrameRequestManager_new 0) [(5, Needed 7, [7])] 5 s1"
    "kf_run 0 (KeyFrameRequestManager_new 0) [(5, Needed 7, [7]), (1005, RequestTimer 7, [7])] 1005 s2"
    "kf_enabled 1005 (RequestTimer 7) s1"
proof -
  obtain s1 where s1: "kf_handle 5 (Needed 7) (KeyFrameRequestManager_new 0) = Some (s1, [7])"
    "kf_enabled 1005 (RequestTimer 7) s1" "\<exists>s2. kf_handle 1005 (RequestTimer 7) s1 = Some (s2, [7])"
    by (simp add: kf_eval)
  then obtain s2 where s2: "kf_handle 1005 (RequestTimer 7) s1 = Some (s2, [7])" by blast
  have 1: "kf_run 0 (KeyFrameRequestManager_new 0) ([] @ [(5, Needed 7, [7])]) 5 s1"
    using s1 by (intro kf_step [OF kf_start]) simp_all
  have "kf_run 0 (KeyFrameRequestManager_new 0) (([] @ [(5, Needed 7, [7])]) @ [(1005, RequestTimer 7, [7])]) 1005 s2"
    using s1 s2 by (intro kf_step [OF 1]) simp_all
  with 1 s1 show thesis by (intro that) simp_all
qed

theorem KeyFrameRequestManager_safe_witness:
  "\<exists>s. kf_run 0 (KeyFrameRequestManager_new 0) [(5, Needed 7, [7])] 5 s \<and> kf_handle 1005 (RequestTimer 7) s \<noteq> None \<and>
     (\<forall>ssrc p. mapSsrcPendingKeyFrameInfo s ssrc = Some p \<longrightarrow> (\<exists>due \<le> 1005. armed 1000 due (pk_timer p)))"
proof -
  obtain s where s: "kf_run 0 (KeyFrameRequestManager_new 0) [(5, Needed 7, [7])] 5 s" "kf_enabled 1005 (RequestTimer 7) s"
    by (rule kf_example)
  from KeyFrameRequestManager_safe [OF s(1) _ _ s(2)] s(1) show ?thesis by auto
qed

subsection \<open>Requests are spaced\<close>

text \<open>No request for \<open>ssrc\<close> is made before \<open>b\<close>: its pending entry is not due before, or \<open>b\<close> has passed.\<close>

definition kf_quiet :: "u32 \<Rightarrow> nat \<Rightarrow> u64 \<Rightarrow> kf_manager \<Rightarrow> bool" where
  "kf_quiet ssrc b now s \<longleftrightarrow> b \<le> unat now \<or>
     (\<exists>p due. mapSsrcPendingKeyFrameInfo s ssrc = Some p \<and> armed 1000 due (pk_timer p) \<and> b \<le> due)"

fun answers :: "u32 \<Rightarrow> kf_input \<Rightarrow> bool" where
  "answers ssrc (Received x) = (x = ssrc)"
| "answers ssrc (ForceNeeded x) = (x = ssrc)"
| "answers ssrc _ = False"

lemma KeyFrameNeeded_pending:
  assumes "kf_inv now s" "unat now < 2 ^ 63" "KeyFrameNeeded now x s = Some (s', ev)"
  shows "ev = [] \<and> mapSsrcPendingKeyFrameInfo s' = mapSsrcPendingKeyFrameInfo s \<or>
    ev = [] \<and> (\<exists>p. mapSsrcPendingKeyFrameInfo s x = Some p \<and>
      mapSsrcPendingKeyFrameInfo s' = (mapSsrcPendingKeyFrameInfo s)(x \<mapsto> p\<lparr>retryOnTimeout := True\<rparr>)) \<or>
    ev = [x] \<and> mapSsrcPendingKeyFrameInfo s x = None \<and>
      (\<exists>p. mapSsrcPendingKeyFrameInfo s' = (mapSsrcPendingKeyFrameInfo s)(x \<mapsto> p) \<and> armed 1000 (unat now + 1000) (pk_timer p))"
proof -
  obtain p where "PendingKeyFrameInfo_new now = Some p" "armed 1000 (unat now + 1000) (pk_timer p)"
    using PendingKeyFrameInfo_new_ok [OF assms(2)] by blast
  with assms(3) show ?thesis
    by (auto simp: KeyFrameNeeded_def bind_eq_Some_iff split: option.splits if_splits)
qed

lemma kf_quiet_step:
  assumes inv: "kf_inv now s" and now: "unat now < 2 ^ 63" and en: "kf_enabled now i s" and h: "kf_handle now i s = Some (s', ev)"
    and q: "kf_quiet ssrc b now s" and no: "\<not> answers ssrc i"
  shows "kf_quiet ssrc b now s' \<and> (ssrc \<in> set ev \<longrightarrow> b \<le> unat now)"
proof (cases "b \<le> unat now")
  case False
  then obtain p due where p: "mapSsrcPendingKeyFrameInfo s ssrc = Some p" "armed 1000 due (pk_timer p)" "b \<le> due"
    using q by (auto simp: kf_quiet_def)
  have keep: "kf_quiet ssrc b now s'" if "mapSsrcPendingKeyFrameInfo s' ssrc = Some (p\<lparr>retryOnTimeout := r\<rparr>)" for r
    using that p by (auto simp: kf_quiet_def)
  have same: "kf_quiet ssrc b now r" if "mapSsrcPendingKeyFrameInfo r ssrc = Some p" for r using that p by (auto simp: kf_quiet_def)
  have needed: "kf_quiet ssrc b now s' \<and> ssrc \<notin> set ev"
    if "KeyFrameNeeded now x s1 = Some (s', ev)" "kf_inv now s1" "mapSsrcPendingKeyFrameInfo s1 = mapSsrcPendingKeyFrameInfo s" for x s1
    using KeyFrameNeeded_pending [OF that(2) now that(1)] that(3) p(1) keep same by (cases "x = ssrc") auto
  show ?thesis
  proof (cases i)
    case (Needed x)
    with needed [of x s] inv h show ?thesis by simp
  next
    case (ForceNeeded x)
    with no have "x \<noteq> ssrc" by simp
    obtain s1 where "ForceKeyFrameNeeded now x s = Some (s1, [x])" "\<And>y. y \<noteq> x \<Longrightarrow> mapSsrcPendingKeyFrameInfo s1 y = mapSsrcPendingKeyFrameInfo s y"
      using ForceKeyFrameNeeded_inv [OF inv now, of x] by metis
    with ForceNeeded h \<open>x \<noteq> ssrc\<close> p(1) show ?thesis by (auto intro: same)
  next
    case (Received x)
    with no have "x \<noteq> ssrc" by simp
    with Received h p(1) show ?thesis
      by (auto simp: KeyFrameReceived_def bind_eq_Some_iff split: option.splits intro: same)
  next
    case (RequestTimer x)
    with en obtain r where r: "mapSsrcPendingKeyFrameInfo s x = Some r" "Timer_due now (pk_timer r)" by (auto split: option.splits)
    have "x \<noteq> ssrc" using r p False by (auto simp: armed_due)
    with OnKeyFrameRequestTimeout_inv [OF inv now r(1)] RequestTimer h p(1) show ?thesis
      by cases (auto intro: same)
  next
    case (DelayTimer x)
    with en obtain d where d: "mapSsrcKeyFrameRequestDelayer s x = Some d" by (auto split: option.splits)
    note e = OnKeyFrameDelayTimeout_eq [OF inv d]
    from e DelayTimer h needed [of x "s\<lparr>mapSsrcKeyFrameRequestDelayer := (mapSsrcKeyFrameRequestDelayer s)(x := None)\<rparr>"] p(1)
    show ?thesis by (auto simp: Let_def split: if_splits intro: same)
  qed
qed (simp add: kf_quiet_def)

lemma kf_event_quiet:
  assumes inv: "kf_inv now s" and now: "unat now < 2 ^ 63" and en: "kf_enabled now i s" and h: "kf_handle now i s = Some (s', ev)"
    and ev: "ssrc \<in> set ev"
  shows "kf_quiet ssrc (unat now + 1000) now s'"
proof -
  have needed: "kf_quiet ssrc (unat now + 1000) now s'" if "KeyFrameNeeded now x s1 = Some (s', ev)" "kf_inv now s1" for x s1
    using KeyFrameNeeded_pending [OF that(2) now that(1)] ev by (auto simp: kf_quiet_def)
  show ?thesis
  proof (cases i)
    case (ForceNeeded x)
    from ForceKeyFrameNeeded_inv [OF inv now, of x] obtain s1 p where
      "ForceKeyFrameNeeded now x s = Some (s1, [x])" "mapSsrcPendingKeyFrameInfo s1 x = Some p" "armed 1000 (unat now + 1000) (pk_timer p)"
      by metis
    with ForceNeeded h ev show ?thesis by (auto simp: kf_quiet_def)
  next
    case (RequestTimer x)
    with en obtain r where r: "mapSsrcPendingKeyFrameInfo s x = Some r" by (auto split: option.splits)
    from OnKeyFrameRequestTimeout_inv [OF inv now r] RequestTimer h ev show ?thesis
      by cases (auto simp: kf_quiet_def)
  next
    case (DelayTimer x)
    with en obtain d where d: "mapSsrcKeyFrameRequestDelayer s x = Some d" by (auto split: option.splits)
    note e = OnKeyFrameDelayTimeout_eq [OF inv d]
    from e DelayTimer h ev needed [of x "s\<lparr>mapSsrcKeyFrameRequestDelayer := (mapSsrcKeyFrameRequestDelayer s)(x := None)\<rparr>"]
    show ?thesis by (auto simp: Let_def split: if_splits)
  qed (use h ev needed inv in \<open>auto simp: KeyFrameReceived_def bind_eq_Some_iff split: option.splits\<close>)
qed

inductive_cases kf_run_snocE: "kf_run t0 s0 (tr @ [x]) t s"

inductive_simps kf_run_Nil: "kf_run t0 s0 [] t s"

lemma kf_run_single:
  assumes "kf_run t0 s0 [(t, i, ev)] t1 s1"
  shows "t0 \<le> t \<and> unat t < 2 ^ 63 \<and> kf_enabled t i s0 \<and> kf_handle t i s0 = Some (s1, ev) \<and> t1 = t"
  using assms by (cases rule: kf_run.cases) (simp_all add: kf_run_Nil)

lemma kf_run_append:
  "kf_run t0 s0 (tr1 @ tr2) t s \<Longrightarrow> \<exists>t1 s1. kf_run t0 s0 tr1 t1 s1 \<and> kf_run t1 s1 tr2 t s"
proof (induction tr2 arbitrary: t s rule: rev_induct)
  case (snoc x tr2)
  then have "kf_run t0 s0 ((tr1 @ tr2) @ [x]) t s" by simp
  then show ?case by (rule kf_run_snocE) (use snoc.IH in \<open>force intro: kf_run.intros\<close>)
qed (auto intro: kf_run.intros)

lemma kf_run_quiet:
  assumes "kf_run t0 s0 tr t s" "kf_inv t0 s0" "kf_quiet ssrc b t0 s0" "\<forall>(_, j, _) \<in> set tr. \<not> answers ssrc j"
  shows "kf_inv t s \<and> kf_quiet ssrc b t s \<and> (\<forall>(t', _, ev) \<in> set tr. ssrc \<in> set ev \<longrightarrow> b \<le> unat t')"
  using assms
proof (induction rule: kf_run.induct)
  case (kf_step t0 s0 tr t s t' i s' ev)
  then have IH: "kf_inv t s" "kf_quiet ssrc b t s" "\<forall>(t', _, ev) \<in> set tr. ssrc \<in> set ev \<longrightarrow> b \<le> unat t'" by auto
  have inv: "kf_inv t' s" by (rule kf_inv_later [OF IH(1) kf_step.hyps(2)])
  have "kf_quiet ssrc b t' s" using IH(2) kf_step.hyps(2) by (auto simp: kf_quiet_def word_le_nat_alt)
  from kf_quiet_step [OF inv kf_step.hyps(3-5) this] kf_handle_inv [OF inv kf_step.hyps(3,4)] kf_step.hyps(5) kf_step.prems(3) IH(3)
  show ?case by auto
qed simp

text \<open>C21: as long as neither a key frame for an SSRC arrives nor one is forced, two requests for that SSRC are at least
  a second apart, however often a key frame is asked for and whatever the timers do.\<close>

theorem requests_spaced:
  assumes run: "kf_run t0 (KeyFrameRequestManager_new delay) (tr1 @ (t, i, ev) # tr2 @ [(t', i', ev')]) t' s"
    and ev: "ssrc \<in> set ev" "ssrc \<in> set ev'" and quiet: "\<forall>(_, j, _) \<in> set tr2. \<not> answers ssrc j" "\<not> answers ssrc i'"
  shows "unat t + 1000 \<le> unat t'"
proof -
  from kf_run_append [OF run] obtain t1 s1 where 1: "kf_run t0 (KeyFrameRequestManager_new delay) tr1 t1 s1"
    "kf_run t1 s1 ([(t, i, ev)] @ tr2 @ [(t', i', ev')]) t' s" by auto
  from kf_run_append [OF 1(2)] obtain t2 s2 where 2: "kf_run t1 s1 [(t, i, ev)] t2 s2" "kf_run t2 s2 (tr2 @ [(t', i', ev')]) t' s" by blast
  have a: "t1 \<le> t" "t2 = t" "unat t < 2 ^ 63" "kf_enabled t i s1" "kf_handle t i s1 = Some (s2, ev)" using kf_run_single [OF 2(1)] by blast+
  have inv: "kf_inv t s1" by (rule kf_inv_later [OF kf_run_inv [OF 1(1)] a(1)])
  have q: "kf_quiet ssrc (unat t + 1000) t s2" by (rule kf_event_quiet [OF inv a(3-5) ev(1)])
  have "kf_inv t s2" using kf_handle_inv [OF inv a(3,4)] a(5) by auto
  from kf_run_quiet [OF 2(2) [unfolded a(2)] this q] quiet ev(2) show ?thesis by auto
qed

theorem requests_spaced_witness:
  "\<exists>s. kf_run 0 (KeyFrameRequestManager_new 0) [(5, Needed 7, [7]), (1005, RequestTimer 7, [7])] 1005 s \<and> unat (5 :: u64) + 1000 \<le> unat (1005 :: u64)"
proof -
  obtain s where s: "kf_run 0 (KeyFrameRequestManager_new 0) ([] @ (5, Needed 7, [7]) # [] @ [(1005, RequestTimer 7, [7])]) 1005 s"
    using kf_example by (metis append_Nil)
  from requests_spaced [OF s, of 7] s show ?thesis by auto
qed

lemma due_later: "kf_inv now s \<Longrightarrow> mapSsrcPendingKeyFrameInfo s ssrc = Some p \<Longrightarrow> \<exists>due \<le> unat now + 1000. armed 1000 due (pk_timer p)"
  "kf_inv now s \<Longrightarrow> mapSsrcKeyFrameRequestDelayer s ssrc = Some d \<Longrightarrow>
    \<exists>due \<le> unat now + unat (keyFrameRequestDelay s). armed (ucast (keyFrameRequestDelay s)) due (kd_timer d)"
  by (auto simp: kf_inv_def pending_ok_def delayer_ok_def dest!: pred_mapD)

text \<open>What becomes of a request.\<close>

lemma KeyFrameNeeded_cases:
  assumes inv: "kf_inv now s" and now: "unat now < 2 ^ 63"
  obtains (requested) s' where "KeyFrameNeeded now ssrc s = Some (s', [ssrc])" "kf_inv now s'" "mapSsrcPendingKeyFrameInfo s' ssrc \<noteq> None"
    | (waiting) s' p where "KeyFrameNeeded now ssrc s = Some (s', [])" "kf_inv now s'" "mapSsrcPendingKeyFrameInfo s' ssrc = Some p" "retryOnTimeout p"
    | (delayed) s' d where "KeyFrameNeeded now ssrc s = Some (s', [])" "kf_inv now s'" "mapSsrcKeyFrameRequestDelayer s' ssrc = Some d"
        "keyFrameRequested d" "keyFrameRequestDelay s > 0" "mapSsrcKeyFrameRequestDelayer s ssrc \<noteq> None"
proof -
  obtain s' ev where n: "KeyFrameNeeded now ssrc s = Some (s', ev)" "kf_inv now s'" by (rule KeyFrameNeeded_inv [OF inv now])
  have "ev = [ssrc] \<and> mapSsrcPendingKeyFrameInfo s' ssrc \<noteq> None \<or> ev = [] \<and> (\<exists>p. mapSsrcPendingKeyFrameInfo s' ssrc = Some p \<and> retryOnTimeout p) \<or>
      ev = [] \<and> (\<exists>d. mapSsrcKeyFrameRequestDelayer s' ssrc = Some d \<and> keyFrameRequested d) \<and>
      keyFrameRequestDelay s > 0 \<and> mapSsrcKeyFrameRequestDelayer s ssrc \<noteq> None"
    using n(1) by (auto simp: KeyFrameNeeded_def bind_eq_Some_iff split: option.splits if_splits)
  then show thesis using n that by metis
qed

text \<open>C23: a needed key frame is asked for. Either at once; or a request is pending, whose timer is due within a second
  and asks again when it fires; or a delayer is active, whose timer is due within the delay and, when
  it fires, asks or leaves a pending request that will ask again.\<close>

theorem needed_is_requested:
  assumes run: "kf_run t0 (KeyFrameRequestManager_new delay) tr t s" and now: "t \<le> now" "unat now < 2 ^ 63"
  shows "\<exists>s' ev. KeyFrameNeeded now ssrc s = Some (s', ev) \<and>
    (ev = [ssrc] \<or>
     (\<exists>p due. mapSsrcPendingKeyFrameInfo s' ssrc = Some p \<and> armed 1000 due (pk_timer p) \<and> due \<le> unat now + 1000 \<and>
        (\<forall>now'. due \<le> unat now' \<and> now \<le> now' \<and> unat now' < 2 ^ 63 \<longrightarrow> (\<exists>s''. OnKeyFrameRequestTimeout now' ssrc s' = Some (s'', [ssrc])))) \<or>
     (\<exists>d due. mapSsrcKeyFrameRequestDelayer s' ssrc = Some d \<and> due \<le> unat now + unat (keyFrameRequestDelay s') \<and>
        armed (ucast (keyFrameRequestDelay s')) due (kd_timer d) \<and>
        (\<forall>now'. due \<le> unat now' \<and> now \<le> now' \<and> unat now' < 2 ^ 63 \<longrightarrow>
          (\<exists>s'' ev'. OnKeyFrameDelayTimeout now' ssrc s' = Some (s'', ev') \<and>
            (ev' = [ssrc] \<or> (\<exists>p. mapSsrcPendingKeyFrameInfo s'' ssrc = Some p \<and> retryOnTimeout p))))))"
proof -
  have inv: "kf_inv now s" using kf_run_inv [OF run] now(1) by (rule kf_inv_later)
  show ?thesis
  proof (rule KeyFrameNeeded_cases [OF inv now(2), of ssrc])
    fix s' assume "KeyFrameNeeded now ssrc s = Some (s', [ssrc])"
    then show ?thesis by blast
  next
    fix s' p
    assume w: "KeyFrameNeeded now ssrc s = Some (s', [])" "kf_inv now s'" "mapSsrcPendingKeyFrameInfo s' ssrc = Some p" "retryOnTimeout p"
    obtain due where due: "due \<le> unat now + 1000" "armed 1000 due (pk_timer p)" using due_later(1) [OF w(2,3)] by blast
    have "\<exists>s''. OnKeyFrameRequestTimeout now' ssrc s' = Some (s'', [ssrc])" if "now \<le> now'" "unat now' < 2 ^ 63" for now'
      using OnKeyFrameRequestTimeout_inv [OF kf_inv_later [OF w(2) that(1)] that(2) w(3)] w(4) by metis
    with w due show ?thesis by blast
  next
    fix s' d
    assume d: "KeyFrameNeeded now ssrc s = Some (s', [])" "kf_inv now s'" "mapSsrcKeyFrameRequestDelayer s' ssrc = Some d" "keyFrameRequested d"
    obtain due where due: "due \<le> unat now + unat (keyFrameRequestDelay s')" "armed (ucast (keyFrameRequestDelay s')) due (kd_timer d)"
      using due_later(2) [OF d(2,3)] by blast
    have "\<exists>s'' ev'. OnKeyFrameDelayTimeout now' ssrc s' = Some (s'', ev') \<and>
        (ev' = [ssrc] \<or> (\<exists>p. mapSsrcPendingKeyFrameInfo s'' ssrc = Some p \<and> retryOnTimeout p))" if "now \<le> now'" "unat now' < 2 ^ 63" for now'
    proof -
      note e = OnKeyFrameDelayTimeout_eq [OF kf_inv_later [OF d(2) that(1)] d(3)]
      show ?thesis by (rule KeyFrameNeeded_cases [OF e(2) that(2), of ssrc]) (use e(1) d(4) in auto)
    qed
    with d due show ?thesis by blast
  qed
qed

theorem needed_is_requested_witness:
  "\<exists>s s' ev. kf_run 0 (KeyFrameRequestManager_new 0) [(5, Needed 7, [7])] 5 s \<and> KeyFrameNeeded 20 8 s = Some (s', ev)"
proof -
  obtain s where s: "kf_run 0 (KeyFrameRequestManager_new 0) [(5, Needed 7, [7])] 5 s" by (rule kf_example)
  from needed_is_requested [OF s, of 20 8] s show ?thesis by auto
qed

end
