(* ===== verification/RateCalculator.thy ===== *)
theory RateCalculator
  imports Prelude
begin

text \<open>
  \<^verbatim>\<open>RTC::RateCalculator\<close> (\<^verbatim>\<open>src/RTC/RateCalculator.cpp\<close>): counts the bytes of a sliding time window in a ring of
  \<open>windowItems\<close> items. Times and counts are 64-bit unsigned integers, kept as natural numbers with the
  wrap-around of additions and subtractions written out. \<open>None\<close> is an access outside the ring, or the
  loop of \<open>RemoveOldData\<close> not ending.

  \<open>GetRate\<close> scales the count with single precision floating point arithmetic; that computation is the
  argument \<open>toRate\<close>.
\<close>

subsection \<open>State and operations\<close>

definition add64 :: "nat \<Rightarrow> nat \<Rightarrow> nat" where
  "add64 a b = (a + b) mod 2 ^ 64"

definition sub64 :: "nat \<Rightarrow> nat \<Rightarrow> nat" where
  "sub64 a b = (a + (2 ^ 64 - b mod 2 ^ 64)) mod 2 ^ 64"

record BufferItem =
  bi_count :: nat
  bi_time :: nat

record rate_calculator =
  windowSizeMs :: nat
  windowItems :: nat
  itemSizeMs :: nat
  rc_buffer :: "BufferItem list"
  newestItemStartTime :: nat
  newestItemIndex :: int
  oldestItemStartTime :: nat
  oldestItemIndex :: int
  totalCount :: nat
  rc_bytes :: nat
  lastRate :: nat
  lastTime :: nat

definition RateCalculator_Reset :: "rate_calculator \<Rightarrow> rate_calculator" where
  "RateCalculator_Reset r = r\<lparr>rc_buffer := replicate (windowItems r) \<lparr>bi_count = 0, bi_time = 0\<rparr>, newestItemStartTime := 0,
     newestItemIndex := - 1, oldestItemStartTime := 0, oldestItemIndex := - 1, totalCount := 0, lastRate := 0, lastTime := 0\<rparr>"

definition RateCalculator_new :: "nat \<Rightarrow> nat \<Rightarrow> rate_calculator" where
  "RateCalculator_new ws items = RateCalculator_Reset \<lparr>windowSizeMs = ws, windowItems = items, itemSizeMs = max (ws div items) 1,
     rc_buffer = [], newestItemStartTime = 0, newestItemIndex = - 1, oldestItemStartTime = 0, oldestItemIndex = - 1,
     totalCount = 0, rc_bytes = 0, lastRate = 0, lastTime = 0\<rparr>"

definition buffer_at :: "rate_calculator \<Rightarrow> int \<Rightarrow> BufferItem option" where
  "buffer_at r i = (if 0 \<le> i \<and> nat i < length (rc_buffer r) then Some (rc_buffer r ! nat i) else None)"

definition buffer_set :: "rate_calculator \<Rightarrow> int \<Rightarrow> BufferItem \<Rightarrow> rate_calculator option" where
  "buffer_set r i x = (if 0 \<le> i \<and> nat i < length (rc_buffer r) then Some (r\<lparr>rc_buffer := (rc_buffer r)[nat i := x]\<rparr>) else None)"

definition next_index :: "rate_calculator \<Rightarrow> int \<Rightarrow> int" where
  "next_index r i = (if i + 1 \<ge> int (windowItems r) then 0 else i + 1)"

text \<open>The oldest item is cleared and the index moves on.\<close>

definition drop_oldest :: "rate_calculator \<Rightarrow> rate_calculator option" where
  "drop_oldest r = do {
     oldestItem \<leftarrow> buffer_at r (oldestItemIndex r);
     let r = r\<lparr>totalCount := sub64 (totalCount r) (bi_count oldestItem)\<rparr>;
     r \<leftarrow> buffer_set r (oldestItemIndex r) \<lparr>bi_count = 0, bi_time = 0\<rparr>;
     Some (r\<lparr>oldestItemIndex := next_index r (oldestItemIndex r)\<rparr>) }"

partial_function (option) remove_loop :: "nat \<Rightarrow> rate_calculator \<Rightarrow> rate_calculator option" where
  "remove_loop newoldestTime r =
     (if oldestItemStartTime r < newoldestTime then do {
        r \<leftarrow> drop_oldest r;
        newOldestItem \<leftarrow> buffer_at r (oldestItemIndex r);
        remove_loop newoldestTime (r\<lparr>oldestItemStartTime := bi_time newOldestItem\<rparr>) }
      else Some r)"

definition RemoveOldData :: "nat \<Rightarrow> rate_calculator \<Rightarrow> rate_calculator option" where
  "RemoveOldData nowMs r =
     (if newestItemIndex r < 0 \<or> oldestItemIndex r < 0 then Some r
      else
        let newoldestTime = sub64 nowMs (windowSizeMs r) in
        if newoldestTime \<le> oldestItemStartTime r then Some r
        else if newoldestTime > newestItemStartTime r then Some (RateCalculator_Reset r)
        else remove_loop newoldestTime r)"

text \<open>The part of \<open>Update\<close> that puts the data into the newest item, or into a new one.\<close>

definition store_item :: "nat \<Rightarrow> nat \<Rightarrow> rate_calculator \<Rightarrow> rate_calculator option" where
  "store_item sz nowMs r =
     (if newestItemIndex r < 0 \<or> sub64 nowMs (newestItemStartTime r) \<ge> itemSizeMs r then do {
        let r = r\<lparr>newestItemIndex := next_index r (newestItemIndex r), newestItemStartTime := nowMs\<rparr>;
        r \<leftarrow> (if newestItemIndex r = oldestItemIndex r \<and> oldestItemIndex r \<noteq> - 1 then drop_oldest r else Some r);
        buffer_set r (newestItemIndex r) \<lparr>bi_count = sz, bi_time = nowMs\<rparr> }
      else do {
        item \<leftarrow> buffer_at r (newestItemIndex r);
        buffer_set r (newestItemIndex r) (item\<lparr>bi_count := add64 (bi_count item) sz\<rparr>) })"

definition RateCalculator_Update :: "nat \<Rightarrow> nat \<Rightarrow> rate_calculator \<Rightarrow> rate_calculator option" where
  "RateCalculator_Update sz nowMs r =
     (if nowMs < oldestItemStartTime r then Some r
      else do {
        r \<leftarrow> RemoveOldData nowMs (r\<lparr>rc_bytes := add64 (rc_bytes r) sz\<rparr>);
        r \<leftarrow> store_item sz nowMs r;
        let r = (if oldestItemIndex r < 0 then r\<lparr>oldestItemIndex := newestItemIndex r, oldestItemStartTime := nowMs\<rparr> else r);
        Some (r\<lparr>totalCount := add64 (totalCount r) sz, lastRate := 0, lastTime := 0\<rparr>) })"

definition GetRate :: "(rate_calculator \<Rightarrow> nat) \<Rightarrow> nat \<Rightarrow> rate_calculator \<Rightarrow> (nat \<times> rate_calculator) option" where
  "GetRate toRate nowMs r =
     (if nowMs = lastTime r then Some (lastRate r, r)
      else do {
        r \<leftarrow> RemoveOldData nowMs r;
        let r = r\<lparr>lastTime := nowMs, lastRate := toRate r\<rparr>;
        Some (lastRate r, r) })"

definition GetBytes :: "rate_calculator \<Rightarrow> nat" where
  "GetBytes r = rc_bytes r"

text \<open>\<open>RtpDataCounter\<close>: a rate calculator with a packet counter.\<close>

record rtp_data_counter =
  dc_rate :: rate_calculator
  dc_packets :: nat

definition RtpDataCounter_new :: "nat \<Rightarrow> rtp_data_counter" where
  "RtpDataCounter_new ws = \<lparr>dc_rate = RateCalculator_new ws 100, dc_packets = 0\<rparr>"

definition RtpDataCounter_Update :: "nat \<Rightarrow> nat \<Rightarrow> rtp_data_counter \<Rightarrow> rtp_data_counter option" where
  "RtpDataCounter_Update packetSize nowMs d = do {
     r \<leftarrow> RateCalculator_Update packetSize nowMs (dc_rate d);
     Some (d\<lparr>dc_packets := add64 (dc_packets d) 1, dc_rate := r\<rparr>) }"

subsection \<open>Ring buffers\<close>

text \<open>The \<open>n\<close> items of a ring from position \<open>k\<close> on.\<close>

definition ring :: "'a list \<Rightarrow> nat \<Rightarrow> nat \<Rightarrow> 'a list" where
  "ring buf k n = map (\<lambda>i. buf ! ((k + i) mod length buf)) [0..<n]"

lemma length_ring [simp]: "length (ring buf k n) = n"
  by (simp add: ring_def)

lemma nth_ring: "i < n \<Longrightarrow> ring buf k n ! i = buf ! ((k + i) mod length buf)"
  by (simp add: ring_def)

lemma mod_inj:
  fixes k w :: nat
  assumes "(k + i) mod w = (k + j) mod w" "i < w" "j < w"
  shows "i = j"
proof -
  have *: "i = j" if "i \<le> j" "(k + j) mod w = (k + i) mod w" "j < w" for i j
  proof -
    have "w dvd j - i" using that mod_eq_dvd_iff_nat [of "k + i" "k + j" w] by simp
    then show ?thesis using that by (metis diff_is_0_eq dual_order.antisym gr_zeroI less_imp_diff_less nat_dvd_not_less)
  qed
  show ?thesis using assms * [of i j] * [of j i] by (cases "i \<le> j") auto
qed

lemma ring_tl:
  assumes "k < length buf" "0 < n" "n \<le> length buf"
  shows "ring (buf[k := z]) ((k + 1) mod length buf) (n - 1) = tl (ring buf k n)"
proof (rule nth_equalityI)
  fix i assume i: "i < length (ring (buf[k := z]) ((k + 1) mod length buf) (n - 1))"
  have e: "((k + 1) mod length buf + i) mod length buf = (k + Suc i) mod length buf" by (simp add: mod_add_left_eq)
  have "(k + Suc i) mod length buf \<noteq> k"
  proof -
    have "Suc i < length buf" "0 < length buf" using i assms by (simp, linarith)
    then show ?thesis using mod_inj [of k "Suc i" "length buf" 0] assms(1) by auto
  qed
  then show "ring (buf[k := z]) ((k + 1) mod length buf) (n - 1) ! i = tl (ring buf k n) ! i"
    using i e by (simp add: nth_ring nth_tl)
qed simp

lemma ring_snoc:
  assumes "n < length buf"
  shows "ring (buf[(k + n) mod length buf := x]) k (Suc n) = ring buf k n @ [x]"
proof (rule nth_equalityI)
  fix i assume i: "i < length (ring (buf[(k + n) mod length buf := x]) k (Suc n))"
  have "(k + n) mod length buf < length buf" using assms by (intro mod_less_divisor) linarith
  moreover have "(k + i) mod length buf \<noteq> (k + n) mod length buf" if "i \<noteq> n"
    using mod_inj [of k i "length buf" n] that assms i by auto
  ultimately show "ring (buf[(k + n) mod length buf := x]) k (Suc n) ! i = (ring buf k n @ [x]) ! i"
    using i by (auto simp: nth_ring nth_append less_Suc_eq)
qed simp

lemma ring_upd_last:
  assumes "n < length buf"
  shows "ring (buf[(k + n) mod length buf := x]) k (Suc n) = butlast (ring buf k (Suc n)) @ [x]"
proof -
  have "butlast (ring buf k (Suc n)) = ring buf k n" by (simp add: ring_def)
  with ring_snoc [OF assms] show ?thesis by simp
qed

subsection \<open>The window as a queue\<close>

text \<open>The abstract state: the items of the window, oldest first, and the start time the code remembers for the
  oldest one, which is stale after a full ring has dropped its oldest item.\<close>

type_synonym window = "BufferItem list \<times> nat"

fun window_remove :: "nat \<Rightarrow> window \<Rightarrow> window" where
  "window_remove newoldest (items, start) =
     (if items = [] \<or> newoldest \<le> start then (items, start)
      else if newoldest > bi_time (last items) then ([], 0)
      else let rest = dropWhile (\<lambda>i. bi_time i < newoldest) (tl items) in (rest, bi_time (hd rest)))"

fun window_add :: "nat \<Rightarrow> nat \<Rightarrow> nat \<Rightarrow> nat \<Rightarrow> window \<Rightarrow> window" where
  "window_add cap isz sz now (items, start) =
     (if items = [] then ([\<lparr>bi_count = sz, bi_time = now\<rparr>], now)
      else if now - bi_time (last items) \<ge> isz then
        ((if length items = cap then tl items else items) @ [\<lparr>bi_count = sz, bi_time = now\<rparr>], start)
      else (butlast items @ [(last items)\<lparr>bi_count := add64 (bi_count (last items)) sz\<rparr>], start))"

text \<open>The ring represents the queue.\<close>

definition rc_rep :: "rate_calculator \<Rightarrow> window \<Rightarrow> bool" where
  "rc_rep r w \<longleftrightarrow> (case w of (items, start) \<Rightarrow>
     length (rc_buffer r) = windowItems r \<and> oldestItemStartTime r = start \<and>
     totalCount r = sum_list (map bi_count items) mod 2 ^ 64 \<and> length items \<le> windowItems r \<and>
     (if items = [] then newestItemIndex r = - 1 \<and> oldestItemIndex r = - 1
      else \<exists>k < windowItems r. oldestItemIndex r = int k \<and>
        newestItemIndex r = int ((k + (length items - 1)) mod windowItems r) \<and>
        items = ring (rc_buffer r) k (length items) \<and> newestItemStartTime r = bi_time (last items)))"

text \<open>Properties of the queue that every update keeps: start times are at least an item apart, the remembered
  start is that of the oldest item unless the ring is full, and the clock has passed them.\<close>

definition window_ok :: "nat \<Rightarrow> nat \<Rightarrow> window \<Rightarrow> bool" where
  "window_ok cap isz w \<longleftrightarrow> (case w of (items, start) \<Rightarrow>
     sorted_wrt (\<lambda>a b. bi_time a + isz \<le> bi_time b) items \<and> (items = [] \<longrightarrow> start = 0) \<and>
     (items \<noteq> [] \<longrightarrow> start \<le> bi_time (hd items) \<and> (start = bi_time (hd items) \<or> length items = cap)))"

lemma next_index_mod: "0 \<le> i \<Longrightarrow> nat i < windowItems r \<Longrightarrow> next_index r i = int ((nat i + 1) mod windowItems r)"
  by (auto simp: next_index_def mod_if)

lemma sub64_sum: "sub64 (x mod 2 ^ 64) c = y mod 2 ^ 64" if "x = c + y"
proof -
  have "((c + y) mod 2 ^ 64 + (2 ^ 64 - c mod 2 ^ 64)) mod 2 ^ 64 = (c mod 2 ^ 64 + y + (2 ^ 64 - c mod 2 ^ 64)) mod 2 ^ 64"
    by (metis mod_add_left_eq)
  also have "c mod 2 ^ 64 + y + (2 ^ 64 - c mod 2 ^ 64) = y + 2 ^ 64"
    using mod_less_divisor [of "2 ^ 64" c] by simp
  finally show ?thesis using that by (simp add: sub64_def)
qed

lemma sub64_diff: "sub64 a b = a - b" if "b \<le> a" "a < 2 ^ 64"
proof -
  have "a + (2 ^ 64 - b mod 2 ^ 64) = (a - b) + 2 ^ 64" using that by simp
  then have "sub64 a b = (a - b + 2 ^ 64) mod 2 ^ 64" by (simp only: sub64_def)
  also have "\<dots> = (a - b) mod 2 ^ 64" by (rule mod_add_self2)
  finally show ?thesis using that by simp
qed

text \<open>Dropping the oldest of several items. The index of the newest item plays no role.\<close>

lemma drop_oldest_rep:
  assumes r: "length (rc_buffer r) = windowItems r" "oldestItemIndex r = int k" "k < windowItems r"
    and items: "x # xs = ring (rc_buffer r) k (Suc (length xs))" "length xs < windowItems r"
    and total: "totalCount r = sum_list (map bi_count (x # xs)) mod 2 ^ 64"
  shows "drop_oldest r = Some (r\<lparr>totalCount := sum_list (map bi_count xs) mod 2 ^ 64,
      rc_buffer := (rc_buffer r)[k := \<lparr>bi_count = 0, bi_time = 0\<rparr>], oldestItemIndex := int ((k + 1) mod windowItems r)\<rparr>)"
    and "xs = ring ((rc_buffer r)[k := \<lparr>bi_count = 0, bi_time = 0\<rparr>]) ((k + 1) mod windowItems r) (length xs)"
proof -
  have "rc_buffer r ! k = x" using nth_ring [of 0 "Suc (length xs)" "rc_buffer r" k] r items(1) by (metis add_0_right mod_less nth_Cons_0 zero_less_Suc)
  moreover have "sub64 (totalCount r) (bi_count x) = sum_list (map bi_count xs) mod 2 ^ 64"
    unfolding total by (rule sub64_sum) simp
  ultimately show "drop_oldest r = Some (r\<lparr>totalCount := sum_list (map bi_count xs) mod 2 ^ 64,
      rc_buffer := (rc_buffer r)[k := \<lparr>bi_count = 0, bi_time = 0\<rparr>], oldestItemIndex := int ((k + 1) mod windowItems r)\<rparr>)"
    using r by (simp add: drop_oldest_def buffer_at_def buffer_set_def next_index_mod next_index_def mod_if)
  show "xs = ring ((rc_buffer r)[k := \<lparr>bi_count = 0, bi_time = 0\<rparr>]) ((k + 1) mod windowItems r) (length xs)"
    using ring_tl [of k "rc_buffer r" "Suc (length xs)"] r items by (metis One_nat_def Suc_leI diff_Suc_1 list.sel(3) zero_less_Suc)
qed

definition rc_frame :: "rate_calculator \<Rightarrow> rate_calculator \<Rightarrow> bool" where
  "rc_frame r r' \<longleftrightarrow> windowSizeMs r' = windowSizeMs r \<and> windowItems r' = windowItems r \<and> itemSizeMs r' = itemSizeMs r \<and>
     rc_bytes r' = rc_bytes r"

lemma rc_frame_refl [simp]: "rc_frame r r"
  and rc_frame_trans: "rc_frame a b \<Longrightarrow> rc_frame b c \<Longrightarrow> rc_frame a c"
  by (simp_all add: rc_frame_def)

lemma rc_rep_drop:
  assumes rep: "rc_rep r (x # xs, start)" and ne: "xs \<noteq> []"
  obtains r' i where "drop_oldest r = Some r'" "buffer_at r' (oldestItemIndex r') = Some (hd xs)" "rc_frame r r'"
    "rc_rep (r'\<lparr>oldestItemStartTime := bi_time (hd xs)\<rparr>) (xs, bi_time (hd xs))"
proof -
  let ?w = "windowItems r"
  from rep obtain k where k: "k < ?w" "length (rc_buffer r) = ?w" "oldestItemIndex r = int k"
    "newestItemIndex r = int ((k + length xs) mod ?w)" "x # xs = ring (rc_buffer r) k (Suc (length xs))"
    "newestItemStartTime r = bi_time (last xs)" "length xs < ?w"
    using ne unfolding rc_rep_def by (auto simp del: length_ring)
  have total: "totalCount r = sum_list (map bi_count (x # xs)) mod 2 ^ 64" using rep by (simp add: rc_rep_def)
  note d = drop_oldest_rep [OF k(2,3,1,5,7) total]
  let ?k = "(k + 1) mod ?w" and ?b = "(rc_buffer r)[k := \<lparr>bi_count = 0, bi_time = 0\<rparr>]"
  let ?r = "r\<lparr>totalCount := sum_list (map bi_count xs) mod 2 ^ 64, rc_buffer := ?b, oldestItemIndex := int ?k\<rparr>"
  have w: "0 < ?w" using k(1) by linarith
  have k': "?k < ?w" using w by simp
  have "hd xs = xs ! 0" using ne by (simp add: hd_conv_nth)
  also have "\<dots> = ring ?b ?k (length xs) ! 0" using d(2) by simp
  also have "\<dots> = ?b ! ?k" using ne k(2) k' by (simp add: nth_ring)
  finally have hd: "hd xs = ?b ! ?k" .
  have "(?k + (length xs - 1)) mod ?w = (k + length xs) mod ?w"
    using ne by (cases xs) (simp_all add: mod_simps)
  then have "rc_rep (?r\<lparr>oldestItemStartTime := bi_time (hd xs)\<rparr>) (xs, bi_time (hd xs))"
    using ne k k' d(2) by (auto simp: rc_rep_def)
  moreover have "buffer_at ?r (oldestItemIndex ?r) = Some (hd xs)" using k(2) k' hd by (simp add: buffer_at_def)
  ultimately show thesis using d(1) by (intro that) (auto simp: rc_frame_def)
qed

lemma remove_loop_rep:
  assumes "rc_rep r (x # xs, start)" "xs \<noteq> []" "start < newoldest" "newoldest \<le> bi_time (last xs)"
  shows "\<exists>r'. remove_loop newoldest r = Some r' \<and> rc_frame r r' \<and>
    rc_rep r' (let rest = dropWhile (\<lambda>i. bi_time i < newoldest) xs in (rest, bi_time (hd rest)))"
  using assms
proof (induction xs arbitrary: x start r)
  case (Cons y ys)
  obtain r1 where r1: "drop_oldest r = Some r1" "buffer_at r1 (oldestItemIndex r1) = Some y" "rc_frame r r1"
    "rc_rep (r1\<lparr>oldestItemStartTime := bi_time y\<rparr>) (y # ys, bi_time y)"
    using rc_rep_drop [OF Cons.prems(1,2)] by (metis list.sel(1))
  let ?r1 = "r1\<lparr>oldestItemStartTime := bi_time y\<rparr>"
  have step: "remove_loop newoldest r = remove_loop newoldest ?r1"
    using r1(1,2) Cons.prems(1,3) by (subst remove_loop.simps) (simp add: rc_rep_def)
  have f: "rc_frame r ?r1" using r1(3) by (simp add: rc_frame_def)
  show ?case
  proof (cases "bi_time y < newoldest")
    case True
    then have "ys \<noteq> []" using Cons.prems(4) by auto
    from Cons.IH [OF r1(4) this True] Cons.prems(4) this obtain r' where
      "remove_loop newoldest ?r1 = Some r'" "rc_frame ?r1 r'" "rc_rep r' (let rest = dropWhile (\<lambda>i. bi_time i < newoldest) ys in (rest, bi_time (hd rest)))"
      by auto
    with step True f show ?thesis by (auto intro: rc_frame_trans)
  next
    case False
    have "remove_loop newoldest ?r1 = Some ?r1" using False by (subst remove_loop.simps) simp
    with step False f r1(4) show ?thesis by simp
  qed
qed simp

lemma RemoveOldData_rep:
  assumes rep: "rc_rep r w" and ok: "window_ok (windowItems r) isz w" and two: "2 \<le> windowItems r"
    and now: "windowSizeMs r \<le> nowMs" "nowMs < 2 ^ 64"
  shows "\<exists>r'. RemoveOldData nowMs r = Some r' \<and> rc_frame r r' \<and> rc_rep r' (window_remove (nowMs - windowSizeMs r) w)"
proof -
  obtain items start where w: "w = (items, start)" by (cases w)
  let ?n = "nowMs - windowSizeMs r"
  have n: "sub64 nowMs (windowSizeMs r) = ?n" by (rule sub64_diff [OF now])
  have start: "oldestItemStartTime r = start" using rep w by (simp add: rc_rep_def)
  show ?thesis
  proof (cases "items = []")
    case True
    then show ?thesis using rep w by (simp add: RemoveOldData_def rc_rep_def)
  next
    case False
    then have idx: "\<not> (newestItemIndex r < 0 \<or> oldestItemIndex r < 0)" "newestItemStartTime r = bi_time (last items)"
      using rep w by (auto simp: rc_rep_def)
    consider "?n \<le> start" | "start < ?n" "bi_time (last items) < ?n" | "start < ?n" "?n \<le> bi_time (last items)" by linarith
    then show ?thesis
    proof cases
      case 1
      then show ?thesis using rep w idx start by (simp add: RemoveOldData_def n)
    next
      case 2
      then have "RemoveOldData nowMs r = Some (RateCalculator_Reset r)" using idx start by (simp add: RemoveOldData_def n)
      with 2 False w show ?thesis by (simp add: RateCalculator_Reset_def rc_rep_def rc_frame_def)
    next
      case 3
      obtain x xs where xs: "items = x # xs" using False by (cases items) auto
      have "xs \<noteq> []" using ok 3 two xs w by (auto simp: window_ok_def)
      from remove_loop_rep [OF _ this 3(1)] rep w xs 3 this show ?thesis
        using idx start by (auto simp: RemoveOldData_def n Let_def)
    qed
  qed
qed

lemma window_remove_cases:
  assumes ok: "window_ok cap isz (items, start)" and two: "2 \<le> cap"
  obtains (keep) "items = [] \<or> n \<le> start" "window_remove n (items, start) = (items, start)"
    | (reset) "items \<noteq> []" "bi_time (last items) < n" "window_remove n (items, start) = ([], 0)"
    | (some) x xs k where "items = x # xs" "start < n" "k < length xs" "\<forall>y \<in> set (take k xs). bi_time y < n" "n \<le> bi_time (xs ! k)"
        "window_remove n (items, start) = (drop k xs, bi_time (xs ! k))"
proof -
  consider "items = [] \<or> n \<le> start" | "items \<noteq> []" "start < n" "bi_time (last items) < n" | "items \<noteq> []" "start < n" "n \<le> bi_time (last items)"
    by linarith
  then show thesis
  proof cases
    case 3
    then obtain x xs where xs: "items = x # xs" by (cases items) auto
    have ne: "xs \<noteq> []" using ok 3 two xs by (auto simp: window_ok_def)
    let ?P = "\<lambda>i. bi_time i < n"
    define k where "k = length (takeWhile ?P xs)"
    have "\<not> ?P (last xs)" "last xs \<in> set xs" using 3 xs ne by auto
    then have "takeWhile ?P xs \<noteq> xs" by (metis takeWhile_eq_all_conv)
    then have "k < length xs" unfolding k_def by (metis length_takeWhile_le le_neq_implies_less takeWhile_eq_take take_all_iff order_refl)
    moreover have "dropWhile ?P xs = drop k xs" "take k xs = takeWhile ?P xs" by (simp_all add: k_def dropWhile_eq_drop flip: takeWhile_eq_take)
    moreover have "n \<le> bi_time (xs ! k)" using nth_length_takeWhile [of ?P xs] \<open>k < length xs\<close> by (simp add: k_def)
    moreover have "\<forall>y \<in> set (take k xs). ?P y" using \<open>take k xs = takeWhile ?P xs\<close> set_takeWhileD by metis
    ultimately show thesis using 3 xs by (intro some [of x xs k]) (simp_all add: Let_def hd_drop_conv_nth)
  qed (use keep reset in auto)
qed

lemma sorted_wrt_drop: "sorted_wrt P xs \<Longrightarrow> sorted_wrt P (drop k xs)"
  by (metis append_take_drop_id sorted_wrt_append)

lemma window_remove_ok:
  assumes ok: "window_ok cap isz (items, start)" and two: "2 \<le> cap"
  shows "window_ok cap isz (window_remove n (items, start))"
    "fst (window_remove n (items, start)) \<noteq> [] \<Longrightarrow> last (fst (window_remove n (items, start))) = last items \<and> items \<noteq> []"
    "length (fst (window_remove n (items, start))) \<le> length items"
  by (rule window_remove_cases [OF ok two, of n];
      use ok in \<open>auto simp: window_ok_def hd_drop_conv_nth intro: sorted_wrt_drop\<close>)+

lemma window_add_cases:
  assumes "items \<noteq> []"
  obtains (bump) ys z where "items = ys @ [z]" "now - bi_time z < isz"
      "window_add cap isz sz now (items, start) = (ys @ [z\<lparr>bi_count := add64 (bi_count z) sz\<rparr>], start)"
    | (full) y ys where "items = y # ys" "length items = cap" "isz \<le> now - bi_time (last items)"
      "window_add cap isz sz now (items, start) = (ys @ [\<lparr>bi_count = sz, bi_time = now\<rparr>], start)"
    | (push) "length items \<noteq> cap" "isz \<le> now - bi_time (last items)"
      "window_add cap isz sz now (items, start) = (items @ [\<lparr>bi_count = sz, bi_time = now\<rparr>], start)"
proof (cases "isz \<le> now - bi_time (last items)")
  case False
  then show thesis using assms by (intro bump [of "butlast items" "last items"]) simp_all
next
  case True
  with assms full push show thesis by (cases items) auto
qed

lemma window_times:
  assumes "sorted_wrt (\<lambda>a b. bi_time a + isz \<le> bi_time b) items" "x \<in> set items"
  shows "bi_time (hd items) \<le> bi_time x" "bi_time x \<le> bi_time (last items)"
proof -
  show "bi_time (hd items) \<le> bi_time x" using assms by (cases items) auto
  show "bi_time x \<le> bi_time (last items)" using assms by (induction items rule: rev_induct) (auto simp: sorted_wrt_append)
qed

lemma window_add_ok:
  assumes ok: "window_ok cap isz (items, start)" and two: "2 \<le> cap" and now: "items \<noteq> [] \<Longrightarrow> bi_time (last items) \<le> now"
    and len: "length items \<le> cap" and isz: "1 \<le> isz"
  shows "window_ok cap isz (window_add cap isz sz now (items, start))"
    "length (fst (window_add cap isz sz now (items, start))) \<le> cap"
    "fst (window_add cap isz sz now (items, start)) \<noteq> []" "bi_time (last (fst (window_add cap isz sz now (items, start)))) \<le> now"
proof -
  have "window_ok cap isz (window_add cap isz sz now (items, start)) \<and> length (fst (window_add cap isz sz now (items, start))) \<le> cap \<and>
    fst (window_add cap isz sz now (items, start)) \<noteq> [] \<and> bi_time (last (fst (window_add cap isz sz now (items, start)))) \<le> now"
  proof (cases "items = []")
    case True
    then show ?thesis using two by (simp add: window_ok_def)
  next
    case ne: False
    have srt: "sorted_wrt (\<lambda>a b. bi_time a + isz \<le> bi_time b) items" using ok by (simp add: window_ok_def)
    have le: "bi_time a + isz \<le> now" if "isz \<le> now - bi_time (last items)" "a \<in> set items" for a
      using window_times(2) [OF srt that(2)] that(1) now [OF ne] by linarith
    from ne show ?thesis
    proof (cases rule: window_add_cases [where sz = sz and start = start and now = now and isz = isz and cap = cap])
      case (bump ys z)
      then show ?thesis using ok now len by (cases ys) (auto simp: window_ok_def sorted_wrt_append)
    next
      case (full y ys)
      have "ys \<noteq> []" using full two by auto
      moreover have "bi_time y \<le> bi_time (hd ys)" using srt full(1) \<open>ys \<noteq> []\<close> by (cases ys) auto
      ultimately show ?thesis using full ok le by (auto simp: window_ok_def sorted_wrt_append)
    next
      case push
      then show ?thesis using ok le len ne by (auto simp: window_ok_def sorted_wrt_append)
    qed
  qed
  then show "window_ok cap isz (window_add cap isz sz now (items, start))"
    "length (fst (window_add cap isz sz now (items, start))) \<le> cap"
    "fst (window_add cap isz sz now (items, start)) \<noteq> []" "bi_time (last (fst (window_add cap isz sz now (items, start)))) \<le> now" by blast+
qed

lemma add64_mod: "add64 (x mod 2 ^ 64) y = (x + y) mod 2 ^ 64"
  by (simp add: add64_def mod_add_left_eq)

lemma sum_add64: "(x + add64 c y) mod 2 ^ 64 = (x + c + y) mod 2 ^ 64"
  by (simp add: add64_def mod_add_right_eq add.assoc)

definition store_done :: "nat \<Rightarrow> nat \<Rightarrow> rate_calculator \<Rightarrow> rate_calculator" where
  "store_done sz nowMs r =
     (let r = (if oldestItemIndex r < 0 then r\<lparr>oldestItemIndex := newestItemIndex r, oldestItemStartTime := nowMs\<rparr> else r)
      in r\<lparr>totalCount := add64 (totalCount r) sz, lastRate := 0, lastTime := 0\<rparr>)"

lemma store_item_empty:
  assumes rep: "rc_rep r ([], start)" and two: "2 \<le> windowItems r"
  shows "\<exists>r'. store_item sz now r = Some r' \<and> rc_frame r (store_done sz now r') \<and>
    rc_rep (store_done sz now r') ([\<lparr>bi_count = sz, bi_time = now\<rparr>], now)"
proof -
  have r: "newestItemIndex r = - 1" "oldestItemIndex r = - 1" "length (rc_buffer r) = windowItems r" "totalCount r = 0"
    using rep by (simp_all add: rc_rep_def)
  have "ring ((rc_buffer r)[0 := \<lparr>bi_count = sz, bi_time = now\<rparr>]) 0 (Suc 0) = [\<lparr>bi_count = sz, bi_time = now\<rparr>]"
    using ring_snoc [of 0 "rc_buffer r" 0] two r(3) by (simp add: ring_def)
  then show ?thesis
    using r two
    by (auto simp: store_item_def next_index_def buffer_set_def store_done_def rc_frame_def rc_rep_def Let_def add64_def intro!: exI [of _ 0])
qed

lemma store_item_bump:
  assumes rep: "rc_rep r (ys @ [z], start)" and now: "bi_time z \<le> now" "now < 2 ^ 64" "now - bi_time z < itemSizeMs r"
  shows "\<exists>r'. store_item sz now r = Some r' \<and> rc_frame r (store_done sz now r') \<and>
    rc_rep (store_done sz now r') (ys @ [z\<lparr>bi_count := add64 (bi_count z) sz\<rparr>], start)"
proof -
  let ?w = "windowItems r" and ?z = "z\<lparr>bi_count := add64 (bi_count z) sz\<rparr>"
  from rep obtain k where k: "k < ?w" "oldestItemIndex r = int k" "newestItemIndex r = int ((k + length ys) mod ?w)"
    "ys @ [z] = ring (rc_buffer r) k (Suc (length ys))" and len: "length (rc_buffer r) = ?w" "Suc (length ys) \<le> ?w"
    and t: "newestItemStartTime r = bi_time z" and st: "oldestItemStartTime r = start"
    unfolding rc_rep_def by (auto simp del: length_ring)
  have total: "totalCount r = sum_list (map bi_count (ys @ [z])) mod 2 ^ 64" using rep by (simp add: rc_rep_def)
  let ?i = "(k + length ys) mod ?w"
  have i: "?i < ?w" using k(1) by (intro mod_less_divisor) linarith
  have z: "rc_buffer r ! ?i = z" using nth_ring [of "length ys" "Suc (length ys)" "rc_buffer r" k] k(4) len
    by (metis lessI nth_append_length)
  have "ring ((rc_buffer r)[?i := ?z]) k (Suc (length ys)) = ys @ [?z]"
    using ring_upd_last [of "length ys" "rc_buffer r" k ?z, folded k(4)] len by simp
  moreover have "store_item sz now r = Some (r\<lparr>rc_buffer := (rc_buffer r)[?i := ?z]\<rparr>)"
    using now t k(3) i len z sub64_diff [OF now(1,2)] by (simp add: store_item_def buffer_at_def buffer_set_def)
  moreover have "add64 (totalCount r) sz = sum_list (map bi_count (ys @ [?z])) mod 2 ^ 64"
    unfolding total add64_mod using sum_add64 [of "sum_list (map bi_count ys)" "bi_count z" sz] by (simp add: add.assoc)
  ultimately show ?thesis
    using k len st t by (auto simp: store_done_def rc_frame_def rc_rep_def Let_def intro!: exI [of _ k])
qed

lemma next_newest:
  assumes "0 < n" "k < windowItems r"
  shows "next_index r (int ((k + (n - 1)) mod windowItems r)) = int ((k + n) mod windowItems r)"
proof -
  have "0 < windowItems r" using assms by linarith
  then have "(k + (n - 1)) mod windowItems r < windowItems r" by simp
  moreover have "((k + (n - 1)) mod windowItems r + 1) mod windowItems r = (k + n) mod windowItems r"
    using assms(1) by (cases n) (simp_all add: mod_simps)
  ultimately show ?thesis by (simp add: next_index_mod)
qed

lemma store_item_push:
  assumes rep: "rc_rep r (items, start)" and ne: "items \<noteq> []" "length items \<noteq> windowItems r"
    and now: "bi_time (last items) \<le> now" "now < 2 ^ 64" "itemSizeMs r \<le> now - bi_time (last items)"
  shows "\<exists>r'. store_item sz now r = Some r' \<and> rc_frame r (store_done sz now r') \<and>
    rc_rep (store_done sz now r') (items @ [\<lparr>bi_count = sz, bi_time = now\<rparr>], start)"
proof -
  let ?w = "windowItems r" and ?n = "length items" and ?x = "\<lparr>bi_count = sz, bi_time = now\<rparr>"
  from rep ne obtain k where k: "k < ?w" "oldestItemIndex r = int k" "newestItemIndex r = int ((k + (?n - 1)) mod ?w)"
    "items = ring (rc_buffer r) k ?n" and len: "length (rc_buffer r) = ?w" "?n < ?w"
    and t: "newestItemStartTime r = bi_time (last items)" and st: "oldestItemStartTime r = start"
    unfolding rc_rep_def by (auto simp del: length_ring)
  have total: "totalCount r = sum_list (map bi_count items) mod 2 ^ 64" using rep by (simp add: rc_rep_def)
  let ?i = "(k + ?n) mod ?w"
  have i: "?i < ?w" using k(1) by (intro mod_less_divisor) linarith
  have "0 < ?n" using ne by simp
  note nx = next_newest [OF this k(1)]
  have neq: "?i \<noteq> k" using mod_inj [of k ?n ?w 0] k(1) len ne by auto
  have "ring ((rc_buffer r)[?i := ?x]) k (Suc ?n) = items @ [?x]"
    using ring_snoc [of ?n "rc_buffer r" k ?x, folded k(4)] len by simp
  moreover have "store_item sz now r = Some (r\<lparr>newestItemIndex := int ?i, newestItemStartTime := now, rc_buffer := (rc_buffer r)[?i := ?x]\<rparr>)"
    using now t k(2,3) i len neq nx sub64_diff [OF now(1,2)] by (simp add: store_item_def buffer_set_def)
  moreover have "add64 (totalCount r) sz = sum_list (map bi_count (items @ [?x])) mod 2 ^ 64" unfolding total add64_mod by simp
  ultimately show ?thesis
    using k len st by (auto simp: store_done_def rc_frame_def rc_rep_def Let_def intro!: exI [of _ k])
qed

lemma store_item_full:
  assumes rep: "rc_rep r (y # ys, start)" and len: "Suc (length ys) = windowItems r" and ne: "ys \<noteq> []"
    and now: "bi_time (last ys) \<le> now" "now < 2 ^ 64" "itemSizeMs r \<le> now - bi_time (last ys)"
  shows "\<exists>r'. store_item sz now r = Some r' \<and> rc_frame r (store_done sz now r') \<and>
    rc_rep (store_done sz now r') (ys @ [\<lparr>bi_count = sz, bi_time = now\<rparr>], start)"
proof -
  let ?w = "windowItems r" and ?x = "\<lparr>bi_count = sz, bi_time = now\<rparr>" and ?z = "\<lparr>bi_count = 0, bi_time = 0\<rparr>"
  from rep ne obtain k where k: "k < ?w" "oldestItemIndex r = int k" "newestItemIndex r = int ((k + length ys) mod ?w)"
    "y # ys = ring (rc_buffer r) k (Suc (length ys))" and lb: "length (rc_buffer r) = ?w"
    and t: "newestItemStartTime r = bi_time (last ys)" and st: "oldestItemStartTime r = start"
    unfolding rc_rep_def by (auto simp del: length_ring)
  have total: "totalCount r = sum_list (map bi_count (y # ys)) mod 2 ^ 64" using rep by (simp add: rc_rep_def)
  let ?k = "(k + 1) mod ?w" and ?b = "(rc_buffer r)[k := ?z]"
  have "(k + Suc (length ys)) mod ?w = k" unfolding len using k(1) by simp
  then have nx: "next_index r (newestItemIndex r) = int k" using next_newest [of "Suc (length ys)" k r] k by simp
  let ?r = "r\<lparr>newestItemIndex := int k, newestItemStartTime := now\<rparr>"
  have d: "drop_oldest ?r = Some (?r\<lparr>totalCount := sum_list (map bi_count ys) mod 2 ^ 64, rc_buffer := ?b, oldestItemIndex := int ?k\<rparr>)"
    "ys = ring ?b ?k (length ys)"
    using drop_oldest_rep [of ?r k y ys] k(1,2,4) lb total len by simp_all
  have last: "(?k + length ys) mod ?w = k"
  proof -
    have "(?k + length ys) mod ?w = (k + Suc (length ys)) mod ?w" by (simp add: mod_simps)
    then show ?thesis unfolding len using k(1) by simp
  qed
  have lt: "length ys < length ?b" using lb len by simp
  have "ring (?b[k := ?x]) ?k (Suc (length ys)) = ys @ [?x]"
    using ring_snoc [OF lt, of ?k ?x, folded d(2)] last lb by simp
  moreover have "store_item sz now r = Some (?r\<lparr>totalCount := sum_list (map bi_count ys) mod 2 ^ 64, rc_buffer := ?b[k := ?x], oldestItemIndex := int ?k\<rparr>)"
    using now t k(1,2) lb nx d(1) sub64_diff [OF now(1,2)] by (simp add: store_item_def buffer_set_def)
  moreover have "add64 (sum_list (map bi_count ys) mod 2 ^ 64) sz = sum_list (map bi_count (ys @ [?x])) mod 2 ^ 64" unfolding add64_mod by simp
  moreover have "?k < ?w" using k(1) by (intro mod_less_divisor) linarith
  moreover have "Suc k mod ?w + ?w - Suc 0 = ?k + length ys" using len by simp
  ultimately show ?thesis
    using k last len lb st by (auto simp: store_done_def rc_frame_def rc_rep_def Let_def intro!: exI [of _ ?k])
qed

text \<open>The clock does not go back behind the newest item, has counted at least one window and stays below
  \<open>2 ^ 64\<close>.\<close>

definition clock_ok :: "nat \<Rightarrow> rate_calculator \<Rightarrow> window \<Rightarrow> bool" where
  "clock_ok now r w \<longleftrightarrow> windowSizeMs r \<le> now \<and> now < 2 ^ 64 \<and> (fst w \<noteq> [] \<longrightarrow> bi_time (last (fst w)) \<le> now)"

lemma store_item_rep:
  assumes rep: "rc_rep r (items, start)" and ok: "window_ok (windowItems r) (itemSizeMs r) (items, start)"
    and two: "2 \<le> windowItems r" and now: "now < 2 ^ 64" "items \<noteq> [] \<longrightarrow> bi_time (last items) \<le> now"
  shows "\<exists>r'. store_item sz now r = Some r' \<and> rc_frame r (store_done sz now r') \<and>
    rc_rep (store_done sz now r') (window_add (windowItems r) (itemSizeMs r) sz now (items, start))"
proof (cases "items = []")
  case True
  then show ?thesis using store_item_empty [of r start sz now] rep two by simp
next
  case False
  then have now': "bi_time (last items) \<le> now" using now by simp
  from False show ?thesis
  proof (cases rule: window_add_cases [where sz = sz and start = start and now = now and isz = "itemSizeMs r" and cap = "windowItems r"])
    case (bump ys z)
    with store_item_bump [of r ys z start now sz] rep now(1) now' show ?thesis by simp
  next
    case (full y ys)
    have "ys \<noteq> []" using full two by auto
    with store_item_full [of r y ys start now sz] full rep now(1) now' show ?thesis by simp
  next
    case push
    with store_item_push [OF rep False, of now sz] now(1) now' show ?thesis by simp
  qed
qed

text \<open>One update of the ring is one update of the queue.\<close>

lemma RateCalculator_Update_rep:
  assumes rep: "rc_rep r w" and ok: "window_ok (windowItems r) (itemSizeMs r) w" and two: "2 \<le> windowItems r" "1 \<le> itemSizeMs r"
    and clock: "clock_ok now r w"
  shows "\<exists>r' w'. RateCalculator_Update sz now r = Some r' \<and>
    w' = window_add (windowItems r) (itemSizeMs r) sz now (window_remove (now - windowSizeMs r) w) \<and>
    rc_rep r' w' \<and> window_ok (windowItems r) (itemSizeMs r) w' \<and> clock_ok now r' w' \<and>
    totalCount r' = sum_list (map bi_count (fst w')) mod 2 ^ 64 \<and>
    windowItems r' = windowItems r \<and> itemSizeMs r' = itemSizeMs r \<and> windowSizeMs r' = windowSizeMs r \<and>
    rc_bytes r' = add64 (rc_bytes r) sz"
proof -
  obtain items start where w: "w = (items, start)" by (cases w)
  let ?r = "r\<lparr>rc_bytes := add64 (rc_bytes r) sz\<rparr>"
  obtain items1 start1 where w1: "window_remove (now - windowSizeMs r) w = (items1, start1)" by fastforce
  have rep0: "rc_rep ?r w" using rep w by (cases "items = []") (simp_all add: rc_rep_def)
  have "\<exists>r1. RemoveOldData now ?r = Some r1 \<and> rc_frame ?r r1 \<and> rc_rep r1 (window_remove (now - windowSizeMs ?r) w)"
    using RemoveOldData_rep [OF rep0] ok two clock by (simp add: clock_ok_def)
  then obtain r1 where r1: "RemoveOldData now ?r = Some r1" "rc_frame ?r r1" "rc_rep r1 (items1, start1)" using w1 by auto
  have ok1: "window_ok (windowItems r) (itemSizeMs r) (items1, start1)" using window_remove_ok(1) [OF _ two(1)] ok w w1 by metis
  have "items1 \<noteq> [] \<longrightarrow> last items1 = last items \<and> items \<noteq> []" using window_remove_ok(2) [OF _ two(1)] ok w w1 by (metis fst_conv)
  then have last1: "items1 \<noteq> [] \<longrightarrow> bi_time (last items1) \<le> now" using clock w by (auto simp: clock_ok_def)
  have fr: "windowItems r1 = windowItems r" "itemSizeMs r1 = itemSizeMs r" "windowSizeMs r1 = windowSizeMs r" "rc_bytes r1 = add64 (rc_bytes r) sz"
    using r1(2) by (simp_all add: rc_frame_def)
  have len1: "length items1 \<le> windowItems r" using r1(3) fr by (simp add: rc_rep_def)
  obtain r2 where r2: "store_item sz now r1 = Some r2" "rc_frame r1 (store_done sz now r2)"
      "rc_rep (store_done sz now r2) (window_add (windowItems r) (itemSizeMs r) sz now (items1, start1))"
    using store_item_rep [OF r1(3), of now sz] ok1 two(1) clock last1 unfolding fr by (auto simp: clock_ok_def)
  let ?w' = "window_add (windowItems r) (itemSizeMs r) sz now (items1, start1)"
  note add = window_add_ok [OF ok1 two(1) _ len1 two(2), of now sz]
  have "start \<le> now"
  proof (cases "items = []")
    case False
    then show ?thesis using ok clock w window_times(2) [of "itemSizeMs r" items "hd items"]
      by (auto simp: window_ok_def clock_ok_def intro: order_trans)
  qed (use ok w in \<open>simp add: window_ok_def\<close>)
  then have "RateCalculator_Update sz now r = Some (store_done sz now r2)"
    using r1(1) r2(1) rep w by (auto simp: RateCalculator_Update_def store_done_def Let_def rc_rep_def)
  moreover have "totalCount (store_done sz now r2) = sum_list (map bi_count (fst ?w')) mod 2 ^ 64"
    using r2(3) by (auto simp: rc_rep_def split: prod.splits)
  moreover have "clock_ok now (store_done sz now r2) ?w'" using add last1 clock r2(2) fr by (auto simp: clock_ok_def rc_frame_def)
  ultimately show ?thesis
    using r2 add(1) last1 fr w1 by (intro exI [of _ "store_done sz now r2"] exI [of _ ?w']) (auto simp: rc_frame_def)
qed

subsection \<open>What the window counts\<close>

text \<open>The updates made so far, with their times and sizes, split into forgotten ones and one group per item.\<close>

definition item_log :: "nat \<Rightarrow> BufferItem \<Rightarrow> (nat \<times> nat) list \<Rightarrow> bool" where
  "item_log isz i us \<longleftrightarrow> bi_count i mod 2 ^ 64 = sum_list (map snd us) mod 2 ^ 64 \<and> (\<forall>u \<in> set us. bi_time i \<le> fst u \<and> fst u < bi_time i + isz)"

definition window_log :: "nat \<Rightarrow> nat \<Rightarrow> nat \<Rightarrow> window \<Rightarrow> (nat \<times> nat) list \<Rightarrow> bool" where
  "window_log cap isz now w us \<longleftrightarrow> (\<exists>old gs. us = old @ concat gs \<and> list_all2 (item_log isz) (fst w) gs \<and>
     (\<forall>u \<in> set old. fst u + (cap - 2) * isz < now))"

lemma window_log_forget:
  assumes log: "window_log cap isz now (xs @ ys, start) us" and late: "now \<le> now'"
    and old: "\<And>x. x \<in> set xs \<Longrightarrow> bi_time x + isz + (cap - 2) * isz \<le> now'"
  shows "window_log cap isz now' (ys, start') us"
proof -
  from log obtain old gs where us: "us = old @ concat gs" "list_all2 (item_log isz) (xs @ ys) gs" "\<forall>u \<in> set old. fst u + (cap - 2) * isz < now"
    by (auto simp: window_log_def)
  then obtain g1 g2 where g: "gs = g1 @ g2" "list_all2 (item_log isz) xs g1" "list_all2 (item_log isz) ys g2"
    by (auto simp: list_all2_append1)
  have "fst u + (cap - 2) * isz < now'" if "u \<in> set (concat g1)" for u
  proof -
    from that obtain g where "g \<in> set g1" "u \<in> set g" by auto
    with g(2) obtain x where "x \<in> set xs" "item_log isz x g" by (metis in_set_conv_nth list_all2_conv_all_nth)
    with \<open>u \<in> set g\<close> old [of x] show ?thesis by (force simp: item_log_def)
  qed
  moreover have "us = (old @ concat g1) @ concat g2" using us(1) g(1) by simp
  ultimately show ?thesis using us(3) g(3) late unfolding window_log_def
    by (intro exI [of _ "old @ concat g1"] exI [of _ g2]) fastforce
qed

lemma window_gap:
  "sorted_wrt (\<lambda>a b. bi_time a + isz \<le> bi_time b) (x # xs) \<Longrightarrow> bi_time x + length xs * isz \<le> bi_time (last (x # xs))"
proof (induction xs arbitrary: x)
  case (Cons y ys)
  then have "bi_time x + isz \<le> bi_time y" "bi_time y + length ys * isz \<le> bi_time (last (y # ys))" by auto
  then show ?case by simp
qed simp

lemma window_remove_log:
  assumes ok: "window_ok cap isz (items, start)" and two: "2 \<le> cap" and log: "window_log cap isz now (items, start) us"
    and size: "(cap - 1) * isz \<le> ws" "1 \<le> isz" and clock: "now \<le> now'" "ws \<le> now'" "items \<noteq> [] \<longrightarrow> bi_time (last items) \<le> now'"
  shows "window_log cap isz now' (window_remove (now' - ws) (items, start)) us"
    "\<forall>i \<in> set (fst (window_remove (now' - ws) (items, start))). now' - ws \<le> bi_time i"
proof -
  have srt: "sorted_wrt (\<lambda>a b. bi_time a + isz \<le> bi_time b) items" using ok by (simp add: window_ok_def)
  have c: "isz + (cap - 2) * isz = (cap - 1) * isz" using two by (cases cap rule: nat.exhaust) (auto simp: numeral_2_eq_2 Suc_diff_le diff_mult_distrib)
  have old: "t + isz + (cap - 2) * isz \<le> now'" if "t < now' - ws" for t using that c size clock by linarith
  have "window_log cap isz now' (window_remove (now' - ws) (items, start)) us \<and>
    (\<forall>i \<in> set (fst (window_remove (now' - ws) (items, start))). now' - ws \<le> bi_time i)"
  proof (rule window_remove_cases [OF ok two, of "now' - ws"])
    assume k: "items = [] \<or> now' - ws \<le> start" "window_remove (now' - ws) (items, start) = (items, start)"
    have "now' - ws \<le> bi_time i" if "i \<in> set items" for i
    proof -
      have "items \<noteq> []" using that by auto
      then have "start \<le> bi_time (hd items)" "now' - ws \<le> start" using ok k by (auto simp: window_ok_def)
      then show ?thesis using window_times(1) [OF srt that] by linarith
    qed
    with k window_log_forget [of cap isz now "[]" items start us now' start] log clock show ?thesis by simp
  next
    assume r: "items \<noteq> []" "bi_time (last items) < now' - ws" "window_remove (now' - ws) (items, start) = ([], 0)"
    have "bi_time x + isz + (cap - 2) * isz \<le> now'" if "x \<in> set items" for x
      using window_times(2) [OF srt that] r(2) by (intro old) linarith
    with window_log_forget [of cap isz now items "[]" start us now' 0] log clock r(3) show ?thesis by simp
  next
    fix x xs k
    assume s: "items = x # xs" "start < now' - ws" "k < length xs" "\<forall>y \<in> set (take k xs). bi_time y < now' - ws"
      "now' - ws \<le> bi_time (xs ! k)" "window_remove (now' - ws) (items, start) = (drop k xs, bi_time (xs ! k))"
    have "bi_time x + isz + (cap - 2) * isz \<le> now'"
    proof (cases "start = bi_time x")
      case True
      then show ?thesis using s(2) by (intro old) simp
    next
      case False
      then have "length xs = cap - 1" using ok s(1) by (auto simp: window_ok_def)
      with window_gap [of isz x xs] srt s(1) clock(3) c show ?thesis by auto
    qed
    then have "bi_time y + isz + (cap - 2) * isz \<le> now'" if "y \<in> set (x # take k xs)" for y using that s(4) old by auto
    moreover have "items = (x # take k xs) @ drop k xs" using s(1) by simp
    ultimately have "window_log cap isz now' (drop k xs, bi_time (xs ! k)) us"
      using window_log_forget [of cap isz now "x # take k xs" "drop k xs" start us now'] log clock(1) by metis
    moreover have "now' - ws \<le> bi_time i" if "i \<in> set (drop k xs)" for i
    proof -
      have "sorted_wrt (\<lambda>a b. bi_time a + isz \<le> bi_time b) (drop k xs)" using srt s(1) by (simp add: sorted_wrt_drop)
      from window_times(1) [OF this that] s(3,5) show ?thesis by (simp add: hd_drop_conv_nth)
    qed
    ultimately show ?thesis using s(6) by simp
  qed
  then show "window_log cap isz now' (window_remove (now' - ws) (items, start)) us"
    "\<forall>i \<in> set (fst (window_remove (now' - ws) (items, start))). now' - ws \<le> bi_time i" by blast+
qed

lemma window_log_push:
  assumes "window_log cap isz now (items, start) us" "1 \<le> isz"
  shows "window_log cap isz now (items @ [\<lparr>bi_count = sz, bi_time = now\<rparr>], start') (us @ [(now, sz)])"
proof -
  from assms(1) obtain old gs where g: "us = old @ concat gs" "list_all2 (item_log isz) items gs" "\<forall>u \<in> set old. fst u + (cap - 2) * isz < now"
    by (auto simp: window_log_def)
  moreover have "list_all2 (item_log isz) (items @ [\<lparr>bi_count = sz, bi_time = now\<rparr>]) (gs @ [[(now, sz)]])"
    using g(2) assms(2) by (auto simp: item_log_def intro!: list_all2_appendI)
  ultimately show ?thesis unfolding window_log_def by (intro exI [of _ old] exI [of _ "gs @ [[(now, sz)]]"]) simp
qed

lemma window_add_log:
  assumes ok: "window_ok cap isz (items, start)" and two: "2 \<le> cap" "1 \<le> isz" and log: "window_log cap isz now (items, start) us"
    and clock: "items \<noteq> [] \<Longrightarrow> bi_time (last items) \<le> now"
  shows "window_log cap isz now (window_add cap isz sz now (items, start)) (us @ [(now, sz)])"
proof (cases "items = []")
  case True
  then show ?thesis using window_log_push [OF log two(2)] by simp
next
  case False
  then show ?thesis
  proof (cases rule: window_add_cases [where sz = sz and start = start and now = now and isz = isz and cap = cap])
    case (bump ys z)
    from log obtain old gs where g: "us = old @ concat gs" "list_all2 (item_log isz) (ys @ [z]) gs" "\<forall>u \<in> set old. fst u + (cap - 2) * isz < now"
      unfolding bump(1) by (auto simp: window_log_def)
    then obtain g1 g2 where g': "gs = g1 @ [g2]" "list_all2 (item_log isz) ys g1" "item_log isz z g2"
      by (auto simp: list_all2_append1 list_all2_Cons1)
    have "bi_time z \<le> now" using clock False bump(1) by simp
    have "add64 (bi_count z) sz mod 2 ^ 64 = (bi_count z mod 2 ^ 64 + sz) mod 2 ^ 64" by (simp add: add64_def mod_add_left_eq)
    also have "\<dots> = (sum_list (map snd g2) + sz) mod 2 ^ 64" using g'(3) by (metis item_log_def mod_add_left_eq)
    finally have "item_log isz (z\<lparr>bi_count := add64 (bi_count z) sz\<rparr>) (g2 @ [(now, sz)])"
      using g'(3) bump(2) \<open>bi_time z \<le> now\<close> by (auto simp: item_log_def)
    with g' g show ?thesis unfolding bump(3) window_log_def
      by (intro exI [of _ old] exI [of _ "g1 @ [g2 @ [(now, sz)]]"]) (auto intro!: list_all2_appendI)
  next
    case (full y ys)
    have "bi_time y + length ys * isz \<le> bi_time (last items)" using window_gap [of isz y ys] ok full(1) by (simp add: window_ok_def)
    moreover have "length ys = cap - 1" "isz + (cap - 2) * isz = (cap - 1) * isz"
      using full two by (auto simp: diff_mult_distrib)
    ultimately have "bi_time y + isz + (cap - 2) * isz \<le> now" using full(3) clock False by auto
    then have "window_log cap isz now (ys, start) us" using window_log_forget [of cap isz now "[y]" ys start us now start] log full(1) by simp
    from window_log_push [OF this two(2)] full(4) show ?thesis by simp
  next
    case push
    then show ?thesis using window_log_push [OF log two(2)] by simp
  qed
qed

text \<open>A run of updates.\<close>

fun feed :: "(nat \<times> nat) list \<Rightarrow> rate_calculator \<Rightarrow> rate_calculator option" where
  "feed [] r = Some r"
| "feed ((now, sz) # us) r = do { r \<leftarrow> RateCalculator_Update sz now r; feed us r }"

lemma feed_append: "feed (us @ vs) r = feed us r \<bind> feed vs"
  by (induction us arbitrary: r) (auto split: option.splits Option.bind_splits)

text \<open>The state after a run: the ring represents a queue whose items account for the updates.\<close>

definition rc_after :: "nat \<Rightarrow> nat \<Rightarrow> (nat \<times> nat) list \<Rightarrow> rate_calculator \<Rightarrow> window \<Rightarrow> nat \<Rightarrow> bool" where
  "rc_after ws cap us r w now \<longleftrightarrow> rc_rep r w \<and> window_ok cap (itemSizeMs r) w \<and> window_log cap (itemSizeMs r) now w us \<and>
     windowSizeMs r = ws \<and> windowItems r = cap \<and> itemSizeMs r = max (ws div cap) 1 \<and> lastTime r = 0 \<and>
     (fst w \<noteq> [] \<longrightarrow> bi_time (last (fst w)) \<le> now)"

lemma window_log_later: "window_log cap isz now w us \<Longrightarrow> now \<le> now' \<Longrightarrow> window_log cap isz now' w us"
  by (fastforce simp: window_log_def)

lemma item_size_bound: "2 \<le> cap \<Longrightarrow> cap \<le> ws \<Longrightarrow> (cap - 1) * max (ws div cap) 1 \<le> ws" for cap ws :: nat
proof -
  assume "2 \<le> cap" "cap \<le> ws"
  then have "0 < ws div cap" by (simp add: div_greater_zero_iff)
  then have "max (ws div cap) 1 = ws div cap" by linarith
  moreover have "(cap - 1) * (ws div cap) \<le> cap * (ws div cap)" by simp
  moreover have "cap * (ws div cap) \<le> ws" by simp
  ultimately show ?thesis by (metis order_trans)
qed

definition window_step :: "nat \<Rightarrow> nat \<Rightarrow> nat \<times> nat \<Rightarrow> window \<Rightarrow> window" where
  "window_step ws cap u w = window_add cap (max (ws div cap) 1) (snd u) (fst u) (window_remove (fst u - ws) w)"

text \<open>A clock that never goes back, has counted at least one window and stays below \<open>2 ^ 64\<close>.\<close>

definition feed_ok :: "nat \<Rightarrow> (nat \<times> nat) list \<Rightarrow> bool" where
  "feed_ok ws us \<longleftrightarrow> sorted (map fst us) \<and> (\<forall>u \<in> set us. ws \<le> fst u \<and> fst u < 2 ^ 64)"

lemma rc_after_new: "2 \<le> cap \<Longrightarrow> rc_after ws cap [] (RateCalculator_new ws cap) ([], 0) 0"
  by (simp add: rc_after_def RateCalculator_new_def RateCalculator_Reset_def rc_rep_def window_ok_def window_log_def)

lemma rc_after_update:
  assumes a: "rc_after ws cap us r w now0" and cap: "2 \<le> cap" "cap \<le> ws" and now: "now0 \<le> now" "ws \<le> now" "now < 2 ^ 64"
  shows "\<exists>r'. RateCalculator_Update sz now r = Some r' \<and> rc_after ws cap (us @ [(now, sz)]) r' (window_step ws cap (now, sz) w) now"
proof -
  let ?isz = "max (ws div cap) 1"
  have r: "rc_rep r w" "window_ok cap ?isz w" "window_log cap ?isz now0 w us" "windowSizeMs r = ws" "windowItems r = cap" "itemSizeMs r = ?isz"
    "fst w \<noteq> [] \<longrightarrow> bi_time (last (fst w)) \<le> now0" using a by (auto simp: rc_after_def)
  obtain items start where w: "w = (items, start)" by (cases w)
  have isz: "1 \<le> ?isz" by simp
  have clock: "clock_ok now r w" using r now by (auto simp: clock_ok_def)
  obtain r' where r': "RateCalculator_Update sz now r = Some r'" "rc_rep r' (window_step ws cap (now, sz) w)"
      "window_ok cap ?isz (window_step ws cap (now, sz) w)" "clock_ok now r' (window_step ws cap (now, sz) w)"
      "windowItems r' = cap" "itemSizeMs r' = ?isz" "windowSizeMs r' = ws"
    using RateCalculator_Update_rep [OF r(1), of now sz] r clock cap isz by (auto simp: window_step_def)
  obtain items1 start1 where w1: "window_remove (now - ws) (items, start) = (items1, start1)" by fastforce
  have ok1: "window_ok cap ?isz (items1, start1)" using window_remove_ok(1) [OF r(2) [unfolded w] cap(1), of "now - ws"] w1 by simp
  have c1: "items1 \<noteq> [] \<Longrightarrow> bi_time (last items1) \<le> now"
    using window_remove_ok(2) [OF r(2) [unfolded w] cap(1), of "now - ws"] w1 r(7) now(1) w by auto
  have "window_log cap ?isz now (items1, start1) us"
    using window_remove_log(1) [OF r(2) [unfolded w] cap(1) r(3) [unfolded w] item_size_bound [OF cap] isz now(1,2)] w1 r(7) now(1) w by auto
  from window_add_log [OF ok1 cap(1) isz this c1, of sz]
  have "window_log cap ?isz now (window_step ws cap (now, sz) w) (us @ [(now, sz)])" using w w1 by (simp add: window_step_def)
  moreover have "lastTime r' = 0"
  proof -
    have "\<not> now < oldestItemStartTime r"
      using r(1,2,7) now(1) w window_times(2) [of ?isz items "hd items"] by (cases "items = []") (auto simp: rc_rep_def window_ok_def)
    then show ?thesis using r'(1) by (auto simp: RateCalculator_Update_def bind_eq_Some_iff Let_def)
  qed
  ultimately show ?thesis using r' by (auto simp: rc_after_def clock_ok_def)
qed

lemma feed_after:
  assumes cap: "2 \<le> cap" "cap \<le> ws"
  shows "feed_ok ws us \<Longrightarrow> \<exists>r. feed us (RateCalculator_new ws cap) = Some r \<and>
    rc_after ws cap us r (fold (window_step ws cap) us ([], 0)) (if us = [] then 0 else fst (last us))"
proof (induction us rule: rev_induct)
  case Nil
  then show ?case using rc_after_new [OF cap(1)] by simp
next
  case (snoc u us)
  obtain now sz where u: "u = (now, sz)" by (cases u)
  have *: "feed_ok ws us" "(if us = [] then 0 else fst (last us)) \<le> now" "ws \<le> now" "now < 2 ^ 64"
    using snoc.prems u by (auto simp: feed_ok_def sorted_append)
  then obtain r where r: "feed us (RateCalculator_new ws cap) = Some r"
    "rc_after ws cap us r (fold (window_step ws cap) us ([], 0)) (if us = [] then 0 else fst (last us))" using snoc.IH by blast
  obtain r' where "RateCalculator_Update sz now r = Some r'"
    "rc_after ws cap (us @ [(now, sz)]) r' (window_step ws cap (now, sz) (fold (window_step ws cap) us ([], 0))) now"
    using rc_after_update [OF r(2) cap, of now sz] * by blast
  with r(1) show ?case by (simp add: u feed_append)
qed

lemma rc_rep_total: "rc_rep r w \<Longrightarrow> totalCount r = sum_list (map bi_count (fst w)) mod 2 ^ 64"
  by (auto simp: rc_rep_def split: prod.splits)

text \<open>C24: refinement. On a ring of at least two items and for any run of updates whose clock does not go back,
  every \<open>Update\<close> returns (the loop that removes old items ends and every access is in range), and the
  ring holds exactly the queue obtained by the abstract updates: forget the items that start before
  the window, open a new item when the newest is older than an item's time, and let a full ring
  forget its oldest item. The running total is the sum of the queue's counts.\<close>

theorem RateCalculator_refines_queue:
  assumes cap: "2 \<le> cap" "cap \<le> ws" and us: "feed_ok ws us"
  shows "\<exists>r. feed us (RateCalculator_new ws cap) = Some r \<and>
    (let w = fold (window_step ws cap) us ([], 0) in rc_rep r w \<and> totalCount r = sum_list (map bi_count (fst w)) mod 2 ^ 64)"
proof -
  obtain r where r: "feed us (RateCalculator_new ws cap) = Some r" "rc_rep r (fold (window_step ws cap) us ([], 0))"
    using feed_after [OF cap us] by (auto simp: rc_after_def)
  with rc_rep_total show ?thesis by (simp add: Let_def)
qed

theorem RateCalculator_refines_queue_witness:
  "\<exists>r. feed [(5000, 10), (5001, 20), (5400, 30), (6100, 40)] (RateCalculator_new 1000 4) = Some r \<and> totalCount r = 70"
proof -
  have "feed_ok 1000 [(5000, 10), (5001, 20), (5400, 30), (6100, 40)]" by (simp add: feed_ok_def)
  from RateCalculator_refines_queue [OF _ _ this, of 4] show ?thesis
    by (auto simp: window_step_def add64_def Let_def simp del: feed.simps)
qed

lemma list_all2_sums:
  "list_all2 (item_log isz) items gs \<Longrightarrow> sum_list (map bi_count items) mod 2 ^ 64 = sum_list (map snd (concat gs)) mod 2 ^ 64"
proof (induction rule: list_all2_induct)
  case (Cons i items g gs)
  then have "bi_count i mod 2 ^ 64 = sum_list (map snd g) mod 2 ^ 64" by (simp add: item_log_def)
  with Cons have "(bi_count i + sum_list (map bi_count items)) mod 2 ^ 64 = (sum_list (map snd g) + sum_list (map snd (concat gs))) mod 2 ^ 64"
    by (metis mod_add_cong)
  then show ?case by simp
qed simp

text \<open>C25: what \<open>GetRate\<close> measures. After any run of updates, the bytes it scales are those of the updates of a time
  interval that ends now: nothing older than the window is counted, and everything of the last
  \<open>windowItems - 2\<close> items' time is. (With the default hundred items of ten milliseconds, all of
  the last 980 and nothing beyond the last 1000 milliseconds.)\<close>

theorem GetRate_counts_window:
  assumes cap: "2 \<le> cap" "cap \<le> ws" and us: "feed_ok ws us" and now: "\<forall>u \<in> set us. fst u \<le> now" "ws \<le> now" "now < 2 ^ 64"
  shows "\<exists>r r' r'' old new. feed us (RateCalculator_new ws cap) = Some r \<and> GetRate toRate now r = Some (toRate r', r'') \<and>
    us = old @ new \<and> totalCount r' = sum_list (map snd new) mod 2 ^ 64 \<and>
    (\<forall>u \<in> set new. now - ws \<le> fst u) \<and> (\<forall>u \<in> set old. fst u + (cap - 2) * itemSizeMs r < now)"
proof -
  let ?t = "if us = [] then 0 else fst (last us)" and ?isz = "max (ws div cap) 1"
  obtain r w where r: "feed us (RateCalculator_new ws cap) = Some r" and a: "rc_after ws cap us r w ?t"
    using feed_after [OF cap us] by blast
  have t: "?t \<le> now" using now(1) by simp
  obtain items start where w: "w = (items, start)" by (cases w)
  have f: "rc_rep r w" "window_ok cap ?isz (items, start)" "window_log cap ?isz ?t (items, start) us" "windowSizeMs r = ws" "windowItems r = cap"
    "itemSizeMs r = ?isz" "lastTime r = 0" "items \<noteq> [] \<longrightarrow> bi_time (last items) \<le> ?t"
    using a w by (auto simp: rc_after_def)
  obtain r' where r': "RemoveOldData now r = Some r'" "rc_rep r' (window_remove (now - ws) (items, start))"
    using RemoveOldData_rep [OF f(1), of ?isz now] f w cap now by auto
  obtain items1 start1 where w1: "window_remove (now - ws) (items, start) = (items1, start1)" by fastforce
  have l: "items \<noteq> [] \<longrightarrow> bi_time (last items) \<le> now" using f(8) t by linarith
  have log: "window_log cap ?isz now (items1, start1) us" "\<forall>i \<in> set items1. now - ws \<le> bi_time i"
    using window_remove_log [OF f(2) cap(1) f(3) item_size_bound [OF cap] _ t now(2) l] w1 by auto
  then obtain old gs where g: "us = old @ concat gs" "list_all2 (item_log ?isz) items1 gs" "\<forall>u \<in> set old. fst u + (cap - 2) * ?isz < now"
    by (auto simp: window_log_def)
  have "now - ws \<le> fst u" if "u \<in> set (concat gs)" for u
  proof -
    from that obtain g' where "g' \<in> set gs" "u \<in> set g'" by auto
    with g(2) obtain i where "i \<in> set items1" "item_log ?isz i g'" by (metis in_set_conv_nth list_all2_conv_all_nth)
    with \<open>u \<in> set g'\<close> log(2) show ?thesis by (force simp: item_log_def)
  qed
  moreover have "totalCount r' = sum_list (map snd (concat gs)) mod 2 ^ 64" using r'(2) w1 list_all2_sums [OF g(2)] by (simp add: rc_rep_def)
  moreover have "GetRate toRate now r = Some (toRate r', r'\<lparr>lastTime := now, lastRate := toRate r'\<rparr>)"
    using r'(1) f(7) now(2) cap by (simp add: GetRate_def)
  ultimately show ?thesis using r g f(6)
    by (intro exI [of _ r] exI [of _ r'] exI [of _ "r'\<lparr>lastTime := now, lastRate := toRate r'\<rparr>"] exI [of _ old] exI [of _ "concat gs"]) simp
qed

theorem GetRate_counts_window_witness:
  "\<exists>r (r' :: rate_calculator) r'' (old :: (nat \<times> nat) list) new. feed [(5000, 10), (5001, 20), (5400, 30), (6100, 40)] (RateCalculator_new 1000 4) = Some r \<and>
     GetRate totalCount 6300 r = Some (totalCount r', r'') \<and> [(5000, 10), (5001, 20), (5400, 30), (6100, 40)] = old @ new \<and>
     totalCount r' = sum_list (map snd new) mod 2 ^ 64 \<and> (\<forall>u \<in> set new. 5300 \<le> fst u) \<and>
     (\<forall>u \<in> set old. fst u + 2 * itemSizeMs r < 6300)"
proof -
  have "feed_ok 1000 [(5000, 10), (5001, 20), (5400, 30), (6100, 40)]" by (simp add: feed_ok_def)
  from GetRate_counts_window [OF _ _ this, of 4 6300 totalCount] show ?thesis by (simp del: feed.simps)
qed

text \<open>a full ring that forgets its oldest item leaves the remembered start time behind; the next call drops one
  more item although it still lies in the window. With a window of 40 ms in four items and one unit
  every 10 ms from 100 to 140, the rate at 145 counts three units; four of them are younger than 40 ms
  and were still in the ring.\<close>

lemma stale_start_drops_item:
  "\<exists>r r'. feed [(100, 1), (110, 1), (120, 1), (130, 1), (140, 1)] (RateCalculator_new 40 4) = Some r \<and> totalCount r = 4 \<and>
    GetRate totalCount 145 r = Some (3, r')"
proof -
  let ?us = "[(100, 1), (110, 1), (120, 1), (130, 1), (140, 1)] :: (nat \<times> nat) list"
  let ?i = "\<lambda>t. \<lparr>bi_count = 1, bi_time = t\<rparr>"
  have ok: "feed_ok 40 ?us" by (simp add: feed_ok_def)
  have w: "fold (window_step 40 4) ?us ([], 0) = ([?i 110, ?i 120, ?i 130, ?i 140], 100)" by (simp add: window_step_def)
  obtain r where r: "feed ?us (RateCalculator_new 40 4) = Some r" "rc_after 40 4 ?us r ([?i 110, ?i 120, ?i 130, ?i 140], 100) 140"
    using feed_after [OF _ _ ok, of 4] unfolding w by auto
  then have f: "rc_rep r ([?i 110, ?i 120, ?i 130, ?i 140], 100)" "window_ok 4 (itemSizeMs r) ([?i 110, ?i 120, ?i 130, ?i 140], 100)"
    "windowSizeMs r = 40" "windowItems r = 4" "lastTime r = 0" unfolding rc_after_def by (blast, metis, blast+)
  have "window_remove 105 ([?i 110, ?i 120, ?i 130, ?i 140], 100) = ([?i 120, ?i 130, ?i 140], 120)" by simp
  then obtain r' where r': "RemoveOldData 145 r = Some r'" "rc_rep r' ([?i 120, ?i 130, ?i 140], 120)"
    using RemoveOldData_rep [OF f(1), of "itemSizeMs r" 145] f by auto
  have "totalCount r = 4" "totalCount r' = 3" using rc_rep_total [OF f(1)] rc_rep_total [OF r'(2)] by simp_all
  then show ?thesis using r(1) r'(1) f(5) by (simp add: GetRate_def del: feed.simps)
qed

end
