(* ===== verification/RtpListener.thy ===== *)
theory RtpListener
  imports RtpPacket_Extensions
begin

text \<open>
  \<^verbatim>\<open>RTC::RtpListener\<close> (\<^verbatim>\<open>src/RTC/RtpListener.cpp\<close>): finds the producer a received packet belongs to, by SSRC, by MID
  or by RID, and \<^verbatim>\<open>RTC::SctpListener\<close> (\<^verbatim>\<open>src/RTC/SctpListener.cpp\<close>), its counterpart for data channels. The tables
  are maps to producers; a producer is a pointer, of type \<open>'p\<close>, and its RTP parameters are an argument.
  \<open>AddProducer\<close> throws after it has cleaned up: it returns the new state and the error, if any. For the
  operations that read a packet, \<open>None\<close> is a read outside it.
\<close>

subsection \<open>RtpListener\<close>

record encoding_parameters =
  enc_ssrc :: u32
  rtx_ssrc :: u32
  enc_rid :: bytes

record rtp_parameters =
  encodings :: "encoding_parameters list"
  rtp_mid :: bytes

record 'p rtp_listener =
  ssrcTable :: "u32 \<rightharpoonup> 'p"
  midTable :: "bytes \<rightharpoonup> 'p"
  ridTable :: "bytes \<rightharpoonup> 'p"

datatype rtp_listener_error = SsrcExists u32 | RtxSsrcExists u32 | MidExists bytes | RidExists bytes

definition RtpListener_new :: "'p rtp_listener" where
  "RtpListener_new = \<lparr>ssrcTable = Map.empty, midTable = Map.empty, ridTable = Map.empty\<rparr>"

definition erase_value :: "'p \<Rightarrow> ('k \<rightharpoonup> 'p) \<Rightarrow> ('k \<rightharpoonup> 'p)" where
  "erase_value p m = (\<lambda>k. if m k = Some p then None else m k)"

definition RemoveProducer :: "'p \<Rightarrow> 'p rtp_listener \<Rightarrow> 'p rtp_listener" where
  "RemoveProducer p l = \<lparr>ssrcTable = erase_value p (ssrcTable l), midTable = erase_value p (midTable l), ridTable = erase_value p (ridTable l)\<rparr>"

fun add_ssrcs :: "'p \<Rightarrow> encoding_parameters list \<Rightarrow> (u32 \<rightharpoonup> 'p) \<Rightarrow> (u32 \<rightharpoonup> 'p) \<times> rtp_listener_error option" where
  "add_ssrcs p [] t = (t, None)"
| "add_ssrcs p (e # es) t =
     (if enc_ssrc e \<noteq> 0 \<and> t (enc_ssrc e) \<noteq> None then (t, Some (SsrcExists (enc_ssrc e)))
      else
        let t = (if enc_ssrc e \<noteq> 0 then t(enc_ssrc e \<mapsto> p) else t) in
        if rtx_ssrc e \<noteq> 0 \<and> t (rtx_ssrc e) \<noteq> None then (t, Some (RtxSsrcExists (rtx_ssrc e)))
        else add_ssrcs p es (if rtx_ssrc e \<noteq> 0 then t(rtx_ssrc e \<mapsto> p) else t))"

fun add_rids :: "'p \<Rightarrow> bool \<Rightarrow> encoding_parameters list \<Rightarrow> (bytes \<rightharpoonup> 'p) \<Rightarrow> (bytes \<rightharpoonup> 'p) \<times> rtp_listener_error option" where
  "add_rids p noMid [] t = (t, None)"
| "add_rids p noMid (e # es) t =
     (if enc_rid e = [] then add_rids p noMid es t
      else if t (enc_rid e) = None then add_rids p noMid es (t(enc_rid e \<mapsto> p))
      else if noMid then (t, Some (RidExists (enc_rid e)))
      else add_rids p noMid es t)"

definition AddProducer :: "'p \<Rightarrow> rtp_parameters \<Rightarrow> 'p rtp_listener \<Rightarrow> 'p rtp_listener \<times> rtp_listener_error option" where
  "AddProducer p ps l =
     (case add_ssrcs p (encodings ps) (ssrcTable l) of
        (t, Some err) \<Rightarrow> (RemoveProducer p (l\<lparr>ssrcTable := t\<rparr>), Some err)
      | (t, None) \<Rightarrow>
          let l = l\<lparr>ssrcTable := t\<rparr> in
          if rtp_mid ps \<noteq> [] \<and> midTable l (rtp_mid ps) \<noteq> None then (RemoveProducer p l, Some (MidExists (rtp_mid ps)))
          else
            let l = (if rtp_mid ps \<noteq> [] then l\<lparr>midTable := (midTable l)(rtp_mid ps \<mapsto> p)\<rparr> else l) in
            case add_rids p (rtp_mid ps = []) (encodings ps) (ridTable l) of
              (t, Some err) \<Rightarrow> (RemoveProducer p (l\<lparr>ridTable := t\<rparr>), Some err)
            | (t, None) \<Rightarrow> (l\<lparr>ridTable := t\<rparr>, None))"

definition GetProducer :: "'h rtp_packet \<Rightarrow> 'p rtp_listener \<Rightarrow> ('p option \<times> 'p rtp_listener) option" where
  "GetProducer packet l = do {
     ssrc \<leftarrow> GetSsrc packet;
     case ssrcTable l ssrc of
       Some p \<Rightarrow> Some (Some p, l)
     | None \<Rightarrow> do {
         mid \<leftarrow> ReadMid packet;
         case (case mid of None \<Rightarrow> None | Some mid \<Rightarrow> midTable l mid) of
           Some p \<Rightarrow> Some (Some p, l\<lparr>ssrcTable := (ssrcTable l)(ssrc \<mapsto> p)\<rparr>)
         | None \<Rightarrow> do {
             rid \<leftarrow> ReadRid packet;
             case (case rid of None \<Rightarrow> None | Some rid \<Rightarrow> ridTable l rid) of
               Some p \<Rightarrow> Some (Some p, l\<lparr>ssrcTable := (ssrcTable l)(ssrc \<mapsto> p)\<rparr>)
             | None \<Rightarrow> Some (None, l) } } }"

definition GetProducerBySsrc :: "u32 \<Rightarrow> 'p rtp_listener \<Rightarrow> 'p option" where
  "GetProducerBySsrc ssrc l = ssrcTable l ssrc"

subsection \<open>SctpListener\<close>

definition AddDataProducer :: "'p \<Rightarrow> u16 \<Rightarrow> (u16 \<rightharpoonup> 'p) \<Rightarrow> (u16 \<rightharpoonup> 'p) option" where
  "AddDataProducer p streamId t = (if t streamId = None then Some (t(streamId \<mapsto> p)) else None)"

definition RemoveDataProducer :: "'p \<Rightarrow> (u16 \<rightharpoonup> 'p) \<Rightarrow> (u16 \<rightharpoonup> 'p)" where
  "RemoveDataProducer p t = erase_value p t"

definition GetDataProducer :: "u16 \<Rightarrow> (u16 \<rightharpoonup> 'p) \<Rightarrow> 'p option" where
  "GetDataProducer streamId t = t streamId"

subsection \<open>Adding and removing\<close>

lemma erase_value_id: "p \<notin> ran m \<Longrightarrow> erase_value p m = m"
  by (auto simp: erase_value_def ran_def)

lemma ran_erase_value: "ran (erase_value p m) = ran m - {p}"
  by (force simp: erase_value_def ran_def)

text \<open>A table grown by new keys for \<open>p\<close> only.\<close>

definition grown_by :: "'p \<Rightarrow> ('k \<rightharpoonup> 'p) \<Rightarrow> ('k \<rightharpoonup> 'p) \<Rightarrow> bool" where
  "grown_by p m m' \<longleftrightarrow> (\<forall>k. m' k = m k \<or> m k = None \<and> m' k = Some p)"

lemma grown_by_refl [simp]: "grown_by p m m"
  and grown_by_upd: "m k = None \<Longrightarrow> grown_by p m (m(k \<mapsto> p))"
  by (auto simp: grown_by_def)

lemma grown_by_trans: "grown_by p a b \<Longrightarrow> grown_by p b c \<Longrightarrow> grown_by p a c"
  unfolding grown_by_def by metis

lemma grown_by_keep: "grown_by p m m' \<Longrightarrow> m k = Some v \<Longrightarrow> m' k = Some v"
  unfolding grown_by_def by (metis option.distinct(1))

lemma grown_by_ran: "grown_by p m m' \<Longrightarrow> ran m' \<subseteq> insert p (ran m)"
  unfolding grown_by_def ran_def by auto (metis option.distinct(1) option.inject)

lemma grown_by_erase: "grown_by p m m' \<Longrightarrow> p \<notin> ran m \<Longrightarrow> erase_value p m' = m"
  by (rule ext) (auto simp: grown_by_def erase_value_def ran_def dest!: spec)

lemma add_ssrcs_spec:
  "add_ssrcs p es t = (t', r) \<Longrightarrow> grown_by p t t' \<and>
    (r = None \<longrightarrow> (\<forall>e \<in> set es. (enc_ssrc e \<noteq> 0 \<longrightarrow> t' (enc_ssrc e) = Some p) \<and> (rtx_ssrc e \<noteq> 0 \<longrightarrow> t' (rtx_ssrc e) = Some p)))"
proof (induction es arbitrary: t)
  case (Cons e es)
  let ?t1 = "if enc_ssrc e \<noteq> 0 then t(enc_ssrc e \<mapsto> p) else t"
  let ?t2 = "if rtx_ssrc e \<noteq> 0 then ?t1(rtx_ssrc e \<mapsto> p) else ?t1"
  show ?case
  proof (cases "enc_ssrc e \<noteq> 0 \<and> t (enc_ssrc e) \<noteq> None")
    case False
    then have g1: "grown_by p t ?t1" by (auto intro: grown_by_upd)
    show ?thesis
    proof (cases "rtx_ssrc e \<noteq> 0 \<and> ?t1 (rtx_ssrc e) \<noteq> None")
      case True
      then have "t' = ?t1" "r \<noteq> None" using Cons.prems False by (auto simp: Let_def split: if_splits)
      then show ?thesis using g1 by blast
    next
      case F: False
      then have g2: "grown_by p ?t1 ?t2" by (auto intro: grown_by_upd)
      have "add_ssrcs p es ?t2 = (t', r)" using Cons.prems False F by (auto simp: Let_def split: if_splits)
      from Cons.IH [OF this] have IH: "grown_by p ?t2 t'" "r = None \<Longrightarrow> \<forall>e \<in> set es. (enc_ssrc e \<noteq> 0 \<longrightarrow> t' (enc_ssrc e) = Some p) \<and> (rtx_ssrc e \<noteq> 0 \<longrightarrow> t' (rtx_ssrc e) = Some p)"
        by blast+
      have "enc_ssrc e \<noteq> 0 \<longrightarrow> t' (enc_ssrc e) = Some p" "rtx_ssrc e \<noteq> 0 \<longrightarrow> t' (rtx_ssrc e) = Some p"
        using grown_by_keep [OF IH(1), of "enc_ssrc e" p] grown_by_keep [OF IH(1), of "rtx_ssrc e" p] by auto
      with IH grown_by_trans [OF g1 grown_by_trans [OF g2 IH(1)]] show ?thesis by auto
    qed
  qed (use Cons.prems in auto)
qed simp

lemma add_rids_grown: "add_rids p noMid es t = (t', r) \<Longrightarrow> grown_by p t t'"
proof (induction es arbitrary: t)
  case (Cons e es)
  then show ?case by (auto split: if_splits intro: grown_by_trans [OF grown_by_upd])
qed simp

lemma add_rids_spec:
  "add_rids p noMid es t = (t', None) \<Longrightarrow>
   t' = (\<lambda>x. if t x = None \<and> x \<noteq> [] \<and> x \<in> enc_rid ` set es then Some p else t x) \<and>
   (noMid \<longrightarrow> (\<forall>e \<in> set es. enc_rid e \<noteq> [] \<longrightarrow> t (enc_rid e) = None))"
proof (induction es arbitrary: t)
  case (Cons e es)
  consider (none) "enc_rid e = []" | (add) "enc_rid e \<noteq> []" "t (enc_rid e) = None" | (kept) "enc_rid e \<noteq> []" "t (enc_rid e) \<noteq> None" by blast
  then show ?case
  proof cases
    case none
    then show ?thesis using Cons.IH [of t] Cons.prems by (auto simp: fun_eq_iff)
  next
    case add
    then have "add_rids p noMid es (t(enc_rid e \<mapsto> p)) = (t', None)" using Cons.prems by simp
    from Cons.IH [OF this] add show ?thesis by (auto simp: fun_eq_iff split: if_splits)
  next
    case kept
    then have "\<not> noMid" "add_rids p noMid es t = (t', None)" using Cons.prems by (auto split: if_splits)
    with Cons.IH [OF this(2)] kept show ?thesis by (auto simp: fun_eq_iff)
  qed
qed auto

lemma AddProducer_cases:
  obtains (ok) t m rt where "AddProducer p ps l = (l\<lparr>ssrcTable := t, midTable := m, ridTable := rt\<rparr>, None)"
      "grown_by p (ssrcTable l) t" "grown_by p (midTable l) m" "grown_by p (ridTable l) rt"
      "\<forall>e \<in> set (encodings ps). (enc_ssrc e \<noteq> 0 \<longrightarrow> t (enc_ssrc e) = Some p) \<and> (rtx_ssrc e \<noteq> 0 \<longrightarrow> t (rtx_ssrc e) = Some p)"
      "rtp_mid ps \<noteq> [] \<longrightarrow> m (rtp_mid ps) = Some p"
      "rt = (\<lambda>x. if ridTable l x = None \<and> x \<noteq> [] \<and> x \<in> enc_rid ` set (encodings ps) then Some p else ridTable l x)"
      "rtp_mid ps = [] \<longrightarrow> (\<forall>e \<in> set (encodings ps). enc_rid e \<noteq> [] \<longrightarrow> ridTable l (enc_rid e) = None)"
    | (error) t m rt err where "AddProducer p ps l = (RemoveProducer p (l\<lparr>ssrcTable := t, midTable := m, ridTable := rt\<rparr>), Some err)"
      "grown_by p (ssrcTable l) t" "grown_by p (midTable l) m" "grown_by p (ridTable l) rt"
proof -
  obtain t r where t: "add_ssrcs p (encodings ps) (ssrcTable l) = (t, r)" by fastforce
  note ts = add_ssrcs_spec [OF t]
  show thesis
  proof (cases r)
    case (Some err)
    then show thesis using t ts by (intro error [where t = t and m = "midTable l" and rt = "ridTable l" and err = err]) (auto simp: AddProducer_def)
  next
    case None
    show thesis
    proof (cases "rtp_mid ps \<noteq> [] \<and> midTable l (rtp_mid ps) \<noteq> None")
      case True
      then show thesis using t ts None by (intro error [where t = t and m = "midTable l" and rt = "ridTable l" and err = "MidExists (rtp_mid ps)"]) (auto simp: AddProducer_def)
    next
      case False
      let ?m = "if rtp_mid ps \<noteq> [] then (midTable l)(rtp_mid ps \<mapsto> p) else midTable l"
      have m: "grown_by p (midTable l) ?m" "rtp_mid ps \<noteq> [] \<longrightarrow> ?m (rtp_mid ps) = Some p" using False by (auto intro: grown_by_upd)
      obtain rt r' where rt: "add_rids p (rtp_mid ps = []) (encodings ps) (ridTable l) = (rt, r')" by fastforce
      note rs = add_rids_grown [OF rt]
      show thesis
      proof (cases r')
        case R: None
        then show thesis using t ts None False m rt rs add_rids_spec [of p "rtp_mid ps = []" "encodings ps" "ridTable l" rt] by (intro ok [where t = t and m = ?m and rt = rt]) (auto simp: AddProducer_def Let_def)
      next
        case (Some err)
        then show thesis using t ts None False m rt rs by (intro error [where t = t and m = ?m and rt = rt and err = err]) (auto simp: AddProducer_def Let_def)
      qed
    qed
  qed
qed

definition known :: "'p rtp_listener \<Rightarrow> 'p set" where
  "known l = ran (ssrcTable l) \<union> ran (midTable l) \<union> ran (ridTable l)"

lemma known_Remove: "known (RemoveProducer p l) = known l - {p}"
  by (auto simp: known_def RemoveProducer_def ran_erase_value)

text \<open>C27: \<open>AddProducer\<close> is all or nothing. For a producer that is not in the tables, either it throws and leaves
  the tables as they were, or it succeeds: then every SSRC, RTX SSRC and MID of the producer leads to
  it, every RID of it that was not in the table leads to it (all of them when it has no MID), and every entry of another producer is
  kept, also one with a RID of the new producer.\<close>

theorem AddProducer_atomic:
  assumes new: "p \<notin> known l" and add: "AddProducer p ps l = (l', r)"
  shows "(r \<noteq> None \<longrightarrow> l' = l) \<and>
    (r = None \<longrightarrow>
      (\<forall>e \<in> set (encodings ps). (enc_ssrc e \<noteq> 0 \<longrightarrow> GetProducerBySsrc (enc_ssrc e) l' = Some p) \<and>
        (rtx_ssrc e \<noteq> 0 \<longrightarrow> GetProducerBySsrc (rtx_ssrc e) l' = Some p)) \<and>
      (rtp_mid ps \<noteq> [] \<longrightarrow> midTable l' (rtp_mid ps) = Some p) \<and>
      (\<forall>e \<in> set (encodings ps). enc_rid e \<noteq> [] \<longrightarrow>
        ridTable l' (enc_rid e) = (if rtp_mid ps = [] \<or> ridTable l (enc_rid e) = None then Some p else ridTable l (enc_rid e))) \<and>
      (\<forall>x q. GetProducerBySsrc x l = Some q \<longrightarrow> GetProducerBySsrc x l' = Some q) \<and>
      (\<forall>x q. midTable l x = Some q \<longrightarrow> midTable l' x = Some q) \<and> (\<forall>x q. ridTable l x = Some q \<longrightarrow> ridTable l' x = Some q))"
proof (cases rule: AddProducer_cases [of p ps l])
  case (ok t m rt)
  then have l': "l' = l\<lparr>ssrcTable := t, midTable := m, ridTable := rt\<rparr>" "r = None" using add by simp_all
  have "\<forall>e \<in> set (encodings ps). enc_rid e \<noteq> [] \<longrightarrow>
      rt (enc_rid e) = (if rtp_mid ps = [] \<or> ridTable l (enc_rid e) = None then Some p else ridTable l (enc_rid e))"
    using ok(8) unfolding ok(7) by auto
  then show ?thesis using l' ok(2-6) by (auto simp: GetProducerBySsrc_def dest: grown_by_keep)
next
  case (error t m rt err)
  then have "l' = RemoveProducer p (l\<lparr>ssrcTable := t, midTable := m, ridTable := rt\<rparr>)" "r \<noteq> None" using add by auto
  moreover have "RemoveProducer p (l\<lparr>ssrcTable := t, midTable := m, ridTable := rt\<rparr>) = l"
    using error new by (simp add: RemoveProducer_def known_def grown_by_erase)
  ultimately show ?thesis by auto
qed

theorem AddProducer_atomic_witness:
  "let e = \<lparr>enc_ssrc = 5, rtx_ssrc = 6, enc_rid = []\<rparr>; ps = \<lparr>encodings = [e], rtp_mid = []\<rparr>;
       l = fst (AddProducer (1 :: nat) ps RtpListener_new) in
   GetProducerBySsrc 6 l = Some 1 \<and> snd (AddProducer 2 ps l) = Some (SsrcExists 5) \<and> fst (AddProducer 2 ps l) = l"
proof -
  let ?e = "\<lparr>enc_ssrc = 5, rtx_ssrc = 6, enc_rid = []\<rparr>" and ?ps = "\<lparr>encodings = [\<lparr>enc_ssrc = 5, rtx_ssrc = 6, enc_rid = []\<rparr>], rtp_mid = []\<rparr>"
  let ?l = "fst (AddProducer (1 :: nat) ?ps RtpListener_new)"
  have l: "?l = \<lparr>ssrcTable = [5 \<mapsto> 1, 6 \<mapsto> 1], midTable = Map.empty, ridTable = Map.empty\<rparr>"
    by (simp add: AddProducer_def RtpListener_new_def)
  then have "2 \<notin> known ?l" by (simp add: known_def)
  moreover have "snd (AddProducer 2 ?ps ?l) = Some (SsrcExists 5)" unfolding l by (simp add: AddProducer_def)
  moreover have "AddProducer 2 ?ps ?l = (fst (AddProducer 2 ?ps ?l), snd (AddProducer 2 ?ps ?l))" by simp
  ultimately have "fst (AddProducer 2 ?ps ?l) = ?l" using AddProducer_atomic [of 2 ?l ?ps] by (metis option.distinct(1))
  then show ?thesis using \<open>snd (AddProducer 2 ?ps ?l) = Some (SsrcExists 5)\<close> l by (simp add: GetProducerBySsrc_def Let_def)
qed

subsection \<open>Lookup of a packet\<close>

lemma read_string_extension_wf: "rtp_wf p \<Longrightarrow> \<exists>r. read_string_extension i p = Some r"
  using GetExtension_wf [of p i] rtp_wf_facts(2,3) [of p]
  by (fastforce simp: read_string_extension_def read_bytes_def split: option.splits prod.splits)

lemma Read_wf: "rtp_wf p \<Longrightarrow> \<exists>r. ReadMid p = Some r" "rtp_wf p \<Longrightarrow> \<exists>r. ReadRid p = Some r"
proof -
  show "rtp_wf p \<Longrightarrow> \<exists>r. ReadMid p = Some r" by (simp add: ReadMid_def read_string_extension_wf)
  assume wf: "rtp_wf p"
  obtain a b where "read_string_extension (ridExtensionId (ext_ids p)) p = Some a" "read_string_extension (rridExtensionId (ext_ids p)) p = Some b"
    using read_string_extension_wf [OF wf] by metis
  then show "\<exists>r. ReadRid p = Some r" by (simp add: ReadRid_def)
qed

lemma GetSsrc_wf: "rtp_wf p \<Longrightarrow> \<exists>s. GetSsrc p = Some s"
  using rtp_wf_facts(1-3) [of p] byte4.get_ex [of 8 "rtp_mem p"] by (auto simp: GetSsrc_def)

lemma GetProducer_spec:
  assumes wf: "rtp_wf pk" and ssrc: "GetSsrc pk = Some ssrc"
  obtains (found) p where "GetProducer pk l = Some (Some p, l\<lparr>ssrcTable := (ssrcTable l)(ssrc \<mapsto> p)\<rparr>)" "p \<in> known l"
      "ssrcTable l ssrc = None \<or> ssrcTable l ssrc = Some p"
    | (unknown) "GetProducer pk l = Some (None, l)" "ssrcTable l ssrc = None"
proof -
  obtain mid where mid: "ReadMid pk = Some mid" using Read_wf(1) [OF wf] by blast
  obtain rid where rid: "ReadRid pk = Some rid" using Read_wf(2) [OF wf] by blast
  have same: "l\<lparr>ssrcTable := (ssrcTable l)(ssrc \<mapsto> p)\<rparr> = l" if "ssrcTable l ssrc = Some p" for p
    using that by (simp add: fun_upd_idem)
  let ?m = "case mid of None \<Rightarrow> None | Some mid \<Rightarrow> midTable l mid" and ?r = "case rid of None \<Rightarrow> None | Some rid \<Rightarrow> ridTable l rid"
  consider p where "ssrcTable l ssrc = Some p" | p where "ssrcTable l ssrc = None" "?m = Some p"
    | p where "ssrcTable l ssrc = None" "?m = None" "?r = Some p" | "ssrcTable l ssrc = None" "?m = None" "?r = None"
    by (metis not_Some_eq)
  then show thesis
  proof cases
    case (1 p)
    then show thesis using same ssrc by (intro found [of p]) (auto simp: GetProducer_def known_def ranI)
  next
    case (2 p)
    then have "p \<in> known l" by (auto simp: known_def split: option.splits intro: ranI)
    with 2 show thesis using ssrc mid by (intro found [of p]) (simp_all add: GetProducer_def)
  next
    case (3 p)
    then have "p \<in> known l" by (auto simp: known_def split: option.splits intro: ranI)
    with 3 show thesis using ssrc mid rid by (intro found [of p]) (simp_all add: GetProducer_def)
  next
    case 4
    then show thesis using ssrc mid rid by (intro unknown) (simp_all add: GetProducer_def)
  qed
qed

text \<open>The life of a listener with the set of producers that exist: a producer whose addition throws is destroyed,
  as is one that is removed.\<close>

inductive rl_run :: "'p set \<Rightarrow> 'p rtp_listener \<Rightarrow> bool" where
  rl_new: "rl_run {} RtpListener_new"
| rl_add: "rl_run live l \<Longrightarrow> p \<notin> live \<Longrightarrow> AddProducer p ps l = (l', None) \<Longrightarrow> rl_run (insert p live) l'"
| rl_fail: "rl_run live l \<Longrightarrow> p \<notin> live \<Longrightarrow> AddProducer p ps l = (l', Some err) \<Longrightarrow> rl_run live l'"
| rl_remove: "rl_run live l \<Longrightarrow> rl_run (live - {p}) (RemoveProducer p l)"
| rl_packet: "rl_run live l \<Longrightarrow> rtp_wf (pk :: unit rtp_packet) \<Longrightarrow> GetProducer pk l = Some (r, l') \<Longrightarrow> rl_run live l'"

lemma known_grown:
  assumes "grown_by p (ssrcTable l) t" "grown_by p (midTable l) m" "grown_by p (ridTable l) rt"
  shows "known (l\<lparr>ssrcTable := t, midTable := m, ridTable := rt\<rparr>) \<subseteq> insert p (known l)"
  using assms [THEN grown_by_ran] by (auto simp: known_def)

lemma known_upd: "p \<in> known l \<Longrightarrow> known (l\<lparr>ssrcTable := (ssrcTable l)(s \<mapsto> p)\<rparr>) \<subseteq> known l"
  by (auto simp: known_def ran_def split: if_splits)

lemma rl_run_known: "rl_run live l \<Longrightarrow> known l \<subseteq> live"
proof (induction rule: rl_run.induct)
  case (rl_add live l p ps l')
  from rl_add.hyps(3) known_grown [of p l] rl_add.IH show ?case
    by (cases rule: AddProducer_cases [of p ps l]) fastforce+
next
  case (rl_fail live l p ps l' err)
  from rl_fail.hyps(3) known_grown [of p l] rl_fail.IH show ?case
    by (cases rule: AddProducer_cases [of p ps l]) (fastforce simp: known_Remove)+
next
  case (rl_packet live l pk r l')
  obtain ssrc where ssrc: "GetSsrc pk = Some ssrc" using GetSsrc_wf [OF rl_packet.hyps(2)] by blast
  from rl_packet.hyps(3) rl_packet.IH known_upd [of _ l ssrc] show ?case
    by (cases rule: GetProducer_spec [OF rl_packet.hyps(2) ssrc, of l]) (simp_all, blast)
next
  case rl_new
  then show ?case by (simp add: known_def RtpListener_new_def)
next
  case (rl_remove live l p)
  then show ?case by (auto simp: known_Remove)
qed

text \<open>C26: the listener never hands out a producer that no longer exists. In every state it can reach, the lookup of a
  well-formed packet succeeds, returns a live producer or none, and later packets with the same SSRC
  go to the producer it returned.\<close>

theorem GetProducer_live:
  assumes run: "rl_run live l" and wf: "rtp_wf (pk :: unit rtp_packet)" and ssrc: "GetSsrc pk = Some ssrc"
  shows "\<exists>r l'. GetProducer pk l = Some (r, l') \<and> (\<forall>p. r = Some p \<longrightarrow> p \<in> live \<and> GetProducerBySsrc ssrc l' = Some p) \<and>
    (\<forall>x. x \<noteq> ssrc \<longrightarrow> GetProducerBySsrc x l' = GetProducerBySsrc x l)"
  using rl_run_known [OF run]
  by (cases rule: GetProducer_spec [OF wf ssrc, of l]) (auto simp: GetProducerBySsrc_def)

theorem GetProducer_live_witness:
  "\<exists>(l :: nat rtp_listener) (pk :: unit rtp_packet) r l'. rl_run {7} l \<and> GetSsrc pk = Some 9 \<and> GetProducer pk l = Some (r, l') \<and>
     (\<forall>p. r = Some p \<longrightarrow> p = 7)"
proof -
  let ?m = "[0x80, 100, 0, 7, 0, 0, 0, 1, 0, 0, 0, 9, 1, 2, 3, 0] :: bytes"
  have lay: "rtp_layout ?m 15 3 0" by code_simp
  obtain pk :: "unit rtp_packet" where pk: "rtp_wf pk" "rtp_mem pk = ?m" by (rule parsed_layout [OF lay])
  have s: "GetSsrc pk = Some 9" unfolding GetSsrc_def pk(2) by code_simp
  let ?ps = "\<lparr>encodings = [\<lparr>enc_ssrc = 9, rtx_ssrc = 0, enc_rid = []\<rparr>], rtp_mid = []\<rparr>"
  let ?l = "\<lparr>ssrcTable = [9 \<mapsto> 7], midTable = Map.empty, ridTable = Map.empty\<rparr> :: nat rtp_listener"
  have "AddProducer 7 ?ps RtpListener_new = (?l, None)" by (simp add: AddProducer_def RtpListener_new_def)
  from rl_add [OF rl_new _ this] have run: "rl_run {7} ?l" by simp
  from GetProducer_live [OF run pk(1) s] run s show ?thesis by blast
qed

end
