(* ===== verification/Crypto.thy ===== *)
theory Crypto
  imports Bytes
begin

text \<open>
  \<^verbatim>\<open>Utils::Crypto\<close> (\<^verbatim>\<open>include/Utils.hpp\<close>, \<^verbatim>\<open>src/Utils/Crypto.cpp\<close>): the table-driven CRC-32
  that fingerprints STUN messages and the HMAC-SHA1 wrapper that authenticates them. HMAC-SHA1
  itself is OpenSSL code and a parameter of every definition that computes it.

  The table-driven CRC is proved equal to the bit-serial shift register of the reflected polynomial
  \<^verbatim>\<open>0xEDB88320\<close>, and a register that is injective in every step detects each changed byte.
\<close>

subsection \<open>Model\<close>

definition crc32Table :: "u32 list" where
  "crc32Table =
    [0x00000000, 0x77073096, 0xee0e612c, 0x990951ba, 0x076dc419, 0x706af48f, 0xe963a535, 0x9e6495a3,
     0x0edb8832, 0x79dcb8a4, 0xe0d5e91e, 0x97d2d988, 0x09b64c2b, 0x7eb17cbd, 0xe7b82d07, 0x90bf1d91,
     0x1db71064, 0x6ab020f2, 0xf3b97148, 0x84be41de, 0x1adad47d, 0x6ddde4eb, 0xf4d4b551, 0x83d385c7,
     0x136c9856, 0x646ba8c0, 0xfd62f97a, 0x8a65c9ec, 0x14015c4f, 0x63066cd9, 0xfa0f3d63, 0x8d080df5,
     0x3b6e20c8, 0x4c69105e, 0xd56041e4, 0xa2677172, 0x3c03e4d1, 0x4b04d447, 0xd20d85fd, 0xa50ab56b,
     0x35b5a8fa, 0x42b2986c, 0xdbbbc9d6, 0xacbcf940, 0x32d86ce3, 0x45df5c75, 0xdcd60dcf, 0xabd13d59,
     0x26d930ac, 0x51de003a, 0xc8d75180, 0xbfd06116, 0x21b4f4b5, 0x56b3c423, 0xcfba9599, 0xb8bda50f,
     0x2802b89e, 0x5f058808, 0xc60cd9b2, 0xb10be924, 0x2f6f7c87, 0x58684c11, 0xc1611dab, 0xb6662d3d,
     0x76dc4190, 0x01db7106, 0x98d220bc, 0xefd5102a, 0x71b18589, 0x06b6b51f, 0x9fbfe4a5, 0xe8b8d433,
     0x7807c9a2, 0x0f00f934, 0x9609a88e, 0xe10e9818, 0x7f6a0dbb, 0x086d3d2d, 0x91646c97, 0xe6635c01,
     0x6b6b51f4, 0x1c6c6162, 0x856530d8, 0xf262004e, 0x6c0695ed, 0x1b01a57b, 0x8208f4c1, 0xf50fc457,
     0x65b0d9c6, 0x12b7e950, 0x8bbeb8ea, 0xfcb9887c, 0x62dd1ddf, 0x15da2d49, 0x8cd37cf3, 0xfbd44c65,
     0x4db26158, 0x3ab551ce, 0xa3bc0074, 0xd4bb30e2, 0x4adfa541, 0x3dd895d7, 0xa4d1c46d, 0xd3d6f4fb,
     0x4369e96a, 0x346ed9fc, 0xad678846, 0xda60b8d0, 0x44042d73, 0x33031de5, 0xaa0a4c5f, 0xdd0d7cc9,
     0x5005713c, 0x270241aa, 0xbe0b1010, 0xc90c2086, 0x5768b525, 0x206f85b3, 0xb966d409, 0xce61e49f,
     0x5edef90e, 0x29d9c998, 0xb0d09822, 0xc7d7a8b4, 0x59b33d17, 0x2eb40d81, 0xb7bd5c3b, 0xc0ba6cad,
     0xedb88320, 0x9abfb3b6, 0x03b6e20c, 0x74b1d29a, 0xead54739, 0x9dd277af, 0x04db2615, 0x73dc1683,
     0xe3630b12, 0x94643b84, 0x0d6d6a3e, 0x7a6a5aa8, 0xe40ecf0b, 0x9309ff9d, 0x0a00ae27, 0x7d079eb1,
     0xf00f9344, 0x8708a3d2, 0x1e01f268, 0x6906c2fe, 0xf762575d, 0x806567cb, 0x196c3671, 0x6e6b06e7,
     0xfed41b76, 0x89d32be0, 0x10da7a5a, 0x67dd4acc, 0xf9b9df6f, 0x8ebeeff9, 0x17b7be43, 0x60b08ed5,
     0xd6d6a3e8, 0xa1d1937e, 0x38d8c2c4, 0x4fdff252, 0xd1bb67f1, 0xa6bc5767, 0x3fb506dd, 0x48b2364b,
     0xd80d2bda, 0xaf0a1b4c, 0x36034af6, 0x41047a60, 0xdf60efc3, 0xa867df55, 0x316e8eef, 0x4669be79,
     0xcb61b38c, 0xbc66831a, 0x256fd2a0, 0x5268e236, 0xcc0c7795, 0xbb0b4703, 0x220216b9, 0x5505262f,
     0xc5ba3bbe, 0xb2bd0b28, 0x2bb45a92, 0x5cb36a04, 0xc2d7ffa7, 0xb5d0cf31, 0x2cd99e8b, 0x5bdeae1d,
     0x9b64c2b0, 0xec63f226, 0x756aa39c, 0x026d930a, 0x9c0906a9, 0xeb0e363f, 0x72076785, 0x05005713,
     0x95bf4a82, 0xe2b87a14, 0x7bb12bae, 0x0cb61b38, 0x92d28e9b, 0xe5d5be0d, 0x7cdcefb7, 0x0bdbdf21,
     0x86d3d2d4, 0xf1d4e242, 0x68ddb3f8, 0x1fda836e, 0x81be16cd, 0xf6b9265b, 0x6fb077e1, 0x18b74777,
     0x88085ae6, 0xff0f6a70, 0x66063bca, 0x11010b5c, 0x8f659eff, 0xf862ae69, 0x616bffd3, 0x166ccf45,
     0xa00ae278, 0xd70dd2ee, 0x4e048354, 0x3903b3c2, 0xa7672661, 0xd06016f7, 0x4969474d, 0x3e6e77db,
     0xaed16a4a, 0xd9d65adc, 0x40df0b66, 0x37d83bf0, 0xa9bcae53, 0xdebb9ec5, 0x47b2cf7f, 0x30b5ffe9,
     0xbdbdf21c, 0xcabac28a, 0x53b39330, 0x24b4a3a6, 0xbad03605, 0xcdd70693, 0x54de5729, 0x23d967bf,
     0xb3667a2e, 0xc4614ab8, 0x5d681b02, 0x2a6f2b94, 0xb40bbe37, 0xc30c8ea1, 0x5a05df1b, 0x2d02ef8d]"

fun crc32_loop :: "u32 \<Rightarrow> bytes \<Rightarrow> nat \<Rightarrow> u32 option" where
  "crc32_loop crc p 0 = Some crc"
| "crc32_loop crc [] (Suc sz) = None"
| "crc32_loop crc (b # p) (Suc sz) =
     crc32_loop (crc32Table ! unat ((crc XOR ucast b) AND 0xFF) XOR drop_bit 8 crc) p sz"

definition GetCRC32 :: "bytes \<Rightarrow> nat \<Rightarrow> u32 option" where
  "GetCRC32 data sz = map_option (\<lambda>crc. crc XOR NOT 0) (crc32_loop 0xFFFFFFFF data sz)"

text \<open>\<^verbatim>\<open>GetHmacSha1\<close>: the digest of the first \<open>len\<close> bytes; a digest that is not 20 bytes long fails the
  final assertion.\<close>

type_synonym hmac_sha1 = "bytes \<Rightarrow> bytes \<Rightarrow> bytes"

definition GetHmacSha1 :: "hmac_sha1 \<Rightarrow> bytes \<Rightarrow> bytes \<Rightarrow> nat \<Rightarrow> bytes option" where
  "GetHmacSha1 hmac key data len =
     (if len \<le> length data \<and> length (hmac key (take len data)) = 20
      then Some (hmac key (take len data)) else None)"

subsection \<open>The bit-serial reference\<close>

definition crc_bit :: "u32 \<Rightarrow> u32" where
  "crc_bit c = (if bit c 0 then drop_bit 1 c XOR 0xEDB88320 else drop_bit 1 c)"

definition crc_byte :: "u32 \<Rightarrow> u8 \<Rightarrow> u32" where
  "crc_byte c b = (crc_bit ^^ 8) (c XOR ucast b)"

definition crc32 :: "bytes \<Rightarrow> u32" where
  "crc32 d = NOT (foldl crc_byte (NOT 0) d)"

lemma crc_bit_xor: "crc_bit (a XOR b) = crc_bit a XOR crc_bit b"
  by (auto simp: crc_bit_def bit_simps intro!: bit_word_eqI)

lemma crc_bits_xor: "(crc_bit ^^ n) (a XOR b) = (crc_bit ^^ n) a XOR (crc_bit ^^ n) b"
  by (induction n) (simp_all add: crc_bit_xor)

text \<open>A register whose low bits are clear is only shifted.\<close>

lemma crc_bits_shift: "(\<And>i. i < n \<Longrightarrow> \<not> bit c i) \<Longrightarrow> (crc_bit ^^ n) c = drop_bit n c"
proof (induction n)
  case (Suc n)
  have "\<not> bit (drop_bit n c) 0" using Suc.prems by (simp add: bit_drop_bit_eq)
  then show ?case using Suc by (simp add: crc_bit_def)
qed simp

text \<open>By linearity the table of all bytes is built by doubling from the eight entries of the powers
  of two.\<close>

fun xor_double :: "u32 list \<Rightarrow> u32 list" where
  "xor_double [] = [0]"
| "xor_double (t # ts) = xor_double ts @ map (\<lambda>x. t XOR x) (xor_double ts)"

lemma of_nat_add_pow2:
  "k < 32 \<Longrightarrow> j < 2 ^ k \<Longrightarrow> (of_nat (2 ^ k + j) :: u32) = of_nat (2 ^ k) XOR of_nat j"
proof -
  assume k: "k < 32" and j: "j < 2 ^ k"
  have "bit j m \<longleftrightarrow> m < k \<and> bit j m" for m
    using j by (metis bit_take_bit_iff take_bit_nat_eq_self)
  then have "of_nat (2 ^ k) AND (of_nat j :: u32) = 0"
    by (intro bit_word_eqI) (auto simp: bit_simps)
  then show ?thesis by (simp add: disjunctive_add_eq_xor)
qed

lemma xor_double_eq:
  "length ts \<le> 32 \<Longrightarrow> (\<And>i. i < length ts \<Longrightarrow> rev ts ! i = (crc_bit ^^ n) (of_nat (2 ^ i))) \<Longrightarrow>
   xor_double ts = map (\<lambda>i. (crc_bit ^^ n) (of_nat i)) [0..<2 ^ length ts]"
proof (induction ts)
  case Nil
  have "(crc_bit ^^ n) 0 = 0" by (simp add: crc_bits_shift)
  then show ?case by simp
next
  case (Cons t ts)
  have t: "t = (crc_bit ^^ n) (of_nat (2 ^ length ts))"
    using Cons.prems(2) [of "length ts"] by (simp add: nth_append)
  have ih: "xor_double ts = map (\<lambda>i. (crc_bit ^^ n) (of_nat i)) [0..<2 ^ length ts]"
    using Cons.IH Cons.prems by (metis (no_types, lifting) Suc_leD length_Cons length_rev less_SucI nth_append rev.simps(2))
  have "map (\<lambda>x. t XOR x) (xor_double ts) =
      map (\<lambda>i. (crc_bit ^^ n) (of_nat i)) (map (\<lambda>i. i + 2 ^ length ts) [0..<2 ^ length ts])"
    using Cons.prems(1)
    by (simp add: ih t o_def of_nat_add_pow2 crc_bits_xor add.commute [of _ "2 ^ length ts"]
        del: of_nat_add of_nat_power)
  also have "map (\<lambda>i. i + 2 ^ length ts) [0..<2 ^ length ts] = [2 ^ length ts..<2 ^ Suc (length ts)]"
    by (simp add: map_add_upt mult_2)
  finally have "xor_double (t # ts) =
      map (\<lambda>i. (crc_bit ^^ n) (of_nat i)) ([0..<2 ^ length ts] @ [2 ^ length ts..<2 ^ Suc (length ts)])"
    by (simp add: ih)
  also have "[0..<2 ^ length ts] @ [2 ^ length ts..<2 ^ Suc (length ts)] = [0..<2 ^ Suc (length ts)]"
    using upt_add_eq_append [of 0 "2 ^ length ts" "2 ^ length ts"] by (simp add: mult_2)
  finally show ?case by simp
qed

lemma crc_bits8: "(crc_bit ^^ 8) c = crc_bit (crc_bit (crc_bit (crc_bit (crc_bit (crc_bit (crc_bit (crc_bit c)))))))"
  by (simp add: numeral_eq_Suc)

lemma All_less8: "(\<forall>i<8::nat. P i) \<longleftrightarrow> P 0 \<and> P 1 \<and> P 2 \<and> P 3 \<and> P 4 \<and> P 5 \<and> P 6 \<and> P 7"
  by (simp add: eval_nat_numeral All_less_Suc) blast

lemma crc32Table_entry:
  "i < 256 \<Longrightarrow> crc32Table ! i = (crc_bit ^^ 8) (of_nat i)"
proof -
  let ?ts = "[0xedb88320, 0x76dc4190, 0x3b6e20c8, 0x1db71064, 0x0edb8832, 0x076dc419, 0xee0e612c, 0x77073096] :: u32 list"
  have "crc32Table = xor_double ?ts" by (simp add: crc32Table_def)
  also have "\<dots> = map (\<lambda>i. (crc_bit ^^ 8) (of_nat i)) [0..<2 ^ length ?ts]"
  proof (rule xor_double_eq)
    have "\<forall>i<8. rev ?ts ! i = (crc_bit ^^ 8) (2 ^ i)"
      by (simp only: All_less8 crc_bits8) (simp add: crc_bit_def)
    then show "rev ?ts ! i = (crc_bit ^^ 8) (of_nat (2 ^ i))" if "i < length ?ts" for i
      using that by simp
  qed simp
  finally have "crc32Table = map (\<lambda>i. (crc_bit ^^ 8) (of_nat i)) [0..<256]" by simp
  moreover assume "i < 256"
  moreover have "map f [0..<n] ! i = f i" if "i < n" for f :: "nat \<Rightarrow> u32" and i n
    using that by simp
  ultimately show ?thesis by metis
qed

lemma crc32Table_step:
  "crc32Table ! unat ((crc XOR ucast b) AND 0xFF) XOR drop_bit 8 crc = crc_byte crc b"
proof -
  let ?x = "crc XOR ucast b"
  have mask: "0xFF = (mask 8 :: u32)" by (simp add: mask_eq_exp_minus_1)
  have "unat (?x AND 0xFF) < 256"
    unfolding mask take_bit_eq_mask [symmetric] unsigned_take_bit_eq
    using take_bit_nat_less_exp [of 8 "unat ?x"] by simp
  then have "crc32Table ! unat (?x AND 0xFF) = (crc_bit ^^ 8) (?x AND 0xFF)"
    by (simp add: crc32Table_entry)
  moreover have "drop_bit 8 crc = (crc_bit ^^ 8) (?x AND NOT 0xFF)"
    by (subst crc_bits_shift) (auto simp: mask bit_simps bit_eq_iff bit_beyond intro!: bit_word_eqI
        dest: bit_imp_le_length)
  moreover have "(?x AND 0xFF) XOR (?x AND NOT 0xFF) = ?x"
    by (intro bit_word_eqI) (auto simp: bit_simps)
  ultimately show ?thesis by (simp add: crc_byte_def flip: crc_bits_xor)
qed

lemma crc32_loop_eq:
  "crc32_loop crc p sz = (if sz \<le> length p then Some (foldl crc_byte crc (take sz p)) else None)"
  by (induction crc p sz rule: crc32_loop.induct) (simp_all add: crc32Table_step)

lemma ones: "(0xFFFFFFFF :: u32) = NOT 0"
  by simp

lemma GetCRC32_eq: "GetCRC32 d sz = (if sz \<le> length d then Some (crc32 (take sz d)) else None)"
  by (simp add: GetCRC32_def crc32_loop_eq crc32_def map_option_case ones)

subsection \<open>Detection of a changed byte\<close>

lemma inj_crc_bit: "inj crc_bit"
proof (rule injI)
  fix a b assume eq: "crc_bit a = crc_bit b"
  have top: "bit (crc_bit c) 31 = bit c 0" for c
    by (simp add: crc_bit_def bit_simps bit_beyond)
  have low: "bit c (Suc n) = (bit (crc_bit c) n \<noteq> (bit c 0 \<and> bit (0xEDB88320 :: u32) n))" for c n
    by (auto simp: crc_bit_def bit_simps)
  show "a = b"
  proof (rule bit_word_eqI)
    fix n show "bit a n = bit b n"
      using eq top [of a] top [of b] low [of a "n - 1"] low [of b "n - 1"] by (cases n) auto
  qed
qed

lemma inj_crc_bits: "inj (crc_bit ^^ n)"
  by (simp add: inj_crc_bit inj_fn)

lemma xor_cancel:
  fixes a b c :: u32
  shows "a XOR b = a XOR c \<longleftrightarrow> b = c" and "b XOR a = c XOR a \<longleftrightarrow> b = c"
proof -
  have "a XOR (a XOR x) = x" for x by (simp flip: xor.assoc)
  then show left: "a XOR b = a XOR c \<longleftrightarrow> b = c" by metis
  then show "b XOR a = c XOR a \<longleftrightarrow> b = c" by (simp add: xor.commute)
qed

lemma ucast8_eq: "(ucast b :: u32) = ucast b' \<longleftrightarrow> b = b'" for b b' :: u8
  using unat_ucast_le [of b, where 'b = 32] unat_ucast_le [of b', where 'b = 32]
  by (auto simp: word_unat_eq_iff)

lemma inj_foldl_crc_byte: "foldl crc_byte c d = foldl crc_byte c' d \<Longrightarrow> c = c'"
proof (induction d arbitrary: c c')
  case (Cons b d)
  then have "crc_byte c b = crc_byte c' b" by auto
  then show ?case by (simp add: crc_byte_def inj_eq [OF inj_crc_bits] xor_cancel)
qed simp

lemma crc_byte_differs: "b \<noteq> b' \<Longrightarrow> crc_byte c b \<noteq> crc_byte c b'"
  by (simp add: crc_byte_def inj_eq [OF inj_crc_bits] xor_cancel ucast8_eq)

text \<open>C34: The table-driven checksum of a prefix equals the CRC-32 computed bit by bit; it stays inside the
  buffer, and two messages that differ in one byte never have the same checksum.\<close>

theorem GetCRC32_spec:
  "(GetCRC32 d sz = (if sz \<le> length d then Some (crc32 (take sz d)) else None)) \<and>
   (i < sz \<and> sz \<le> length d \<and> b \<noteq> d ! i \<longrightarrow> GetCRC32 (d[i := b]) sz \<noteq> GetCRC32 d sz)"
proof -
  have "crc32 (take sz (d[i := b])) \<noteq> crc32 (take sz d)" if h: "i < sz" "sz \<le> length d" "b \<noteq> d ! i"
  proof -
    let ?t = "take sz d"
    have t: "?t = take i ?t @ d ! i # drop (Suc i) ?t"
      using h by (metis id_take_nth_drop length_take min.absorb2 nth_take)
    have u: "take sz (d[i := b]) = take i ?t @ b # drop (Suc i) ?t"
      using h by (simp add: take_update_swap upd_conv_take_nth_drop [of i "take sz d"] del: take_take)
    have "foldl crc_byte c (b # x) \<noteq> foldl crc_byte c (d ! i # x)" for c x
      using crc_byte_differs [OF h(3)] inj_foldl_crc_byte [of "crc_byte c b" x] by auto
    then have "crc32 (take i ?t @ b # drop (Suc i) ?t) \<noteq> crc32 (take i ?t @ d ! i # drop (Suc i) ?t)"
      by (simp add: crc32_def)
    then show ?thesis using t u by metis
  qed
  then show ?thesis by (auto simp: GetCRC32_eq)
qed

theorem GetCRC32_spec_witness:
  "GetCRC32 [1, 2, 3] 3 \<noteq> GetCRC32 [1, 2, 7] 3"
  using GetCRC32_spec [of "[1, 2, 7]" 3 2 3] by (auto simp del: not_None_eq)

end
