(* ===== verification/StunPacket.thy ===== *)
theory StunPacket
  imports Crypto
begin

text \<open>
  \<^verbatim>\<open>RTC::StunPacket\<close> (\<^verbatim>\<open>src/RTC/StunPacket.cpp\<close>, \<^verbatim>\<open>include/RTC/StunPacket.hpp\<close>): parsing, authentication
  and serialization of STUN messages.

  A packet keeps the buffer its \<open>data\<close> pointer names, \<open>messageIntegrity\<close> as an offset into it and the
  twelve bytes \<open>transactionId\<close> points to. HMAC-SHA1 is the parameter \<open>hmac\<close>. The attribute loop of \<^verbatim>\<open>Parse\<close>
  computes its position with 16 bits and is a partial function: \<open>None\<close> is a run that leaves the buffer,
  fails an assertion or does not end, \<open>Some None\<close> a \<open>nullptr\<close>. The addresses of \<open>XOR-MAPPED-ADDRESS\<close> are
  given by their port and address in host order; an address of another family is \<open>Sockaddr_other\<close>.
\<close>

subsection \<open>Data\<close>

datatype stun_class = REQUEST | INDICATION | SUCCESS_RESPONSE | ERROR_RESPONSE

datatype Authentication = AUTH_OK | UNAUTHORIZED | BAD_REQUEST

datatype sockaddr = Sockaddr_in u16 u32 | Sockaddr_in6 u16 u64 u64 | Sockaddr_other u16

abbreviation (input) "BINDING \<equiv> (1 :: u16)"

abbreviation (input) "USERNAME \<equiv> (0x0006 :: u16)"
abbreviation (input) "MESSAGE_INTEGRITY \<equiv> (0x0008 :: u16)"
abbreviation (input) "ERROR_CODE \<equiv> (0x0009 :: u16)"
abbreviation (input) "XOR_MAPPED_ADDRESS \<equiv> (0x0020 :: u16)"
abbreviation (input) "PRIORITY \<equiv> (0x0024 :: u16)"
abbreviation (input) "USE_CANDIDATE \<equiv> (0x0025 :: u16)"
abbreviation (input) "FINGERPRINT \<equiv> (0x8028 :: u16)"
abbreviation (input) "ICE_CONTROLLED \<equiv> (0x8029 :: u16)"
abbreviation (input) "ICE_CONTROLLING \<equiv> (0x802A :: u16)"

definition magicCookie :: bytes where
  "magicCookie = [0x21, 0x12, 0xA4, 0x42]"

record stun_packet =
  klass :: stun_class
  stun_method :: u16
  transactionId :: bytes
  stun_data :: bytes
  stun_size :: nat
  username :: bytes
  priority :: u32
  iceControlling :: u64
  iceControlled :: u64
  hasUseCandidate :: bool
  messageIntegrity :: "nat option"
  hasFingerprint :: bool
  xorMappedAddress :: "sockaddr option"
  errorCode :: u16
  stun_password :: bytes

definition StunPacket_new :: "stun_class \<Rightarrow> u16 \<Rightarrow> bytes \<Rightarrow> bytes \<Rightarrow> nat \<Rightarrow> stun_packet" where
  "StunPacket_new c m tid d sz =
     \<lparr>klass = c, stun_method = m, transactionId = tid, stun_data = d, stun_size = sz, username = [],
      priority = 0, iceControlling = 0, iceControlled = 0, hasUseCandidate = False,
      messageIntegrity = None, hasFingerprint = False, xorMappedAddress = None, errorCode = 0,
      stun_password = []\<rparr>"

fun class_value :: "stun_class \<Rightarrow> u16" where
  "class_value REQUEST = 0"
| "class_value INDICATION = 1"
| "class_value SUCCESS_RESPONSE = 2"
| "class_value ERROR_RESPONSE = 3"

text \<open>\<open>static_cast<Class>\<close> of a two-bit value.\<close>

definition class_of :: "u16 \<Rightarrow> stun_class" where
  "class_of v = (if v = 0 then REQUEST else if v = 1 then INDICATION
     else if v = 2 then SUCCESS_RESPONSE else ERROR_RESPONSE)"

subsection \<open>Parsing\<close>

definition IsStun :: "bytes \<Rightarrow> bool option" where
  "IsStun d =
     (if length d \<ge> 20 then do {
        b0 \<leftarrow> Get1Byte d 0;
        b4 \<leftarrow> Get1Byte d 4;
        b5 \<leftarrow> Get1Byte d 5;
        b6 \<leftarrow> Get1Byte d 6;
        b7 \<leftarrow> Get1Byte d 7;
        Some (b0 < 3 \<and> b4 = magicCookie ! 0 \<and> b5 = magicCookie ! 1 \<and> b6 = magicCookie ! 2 \<and> b7 = magicCookie ! 3) }
      else Some False)"

text \<open>The local variables of \<^verbatim>\<open>Parse\<close> that the loop changes: the packet, \<open>hasMessageIntegrity\<close>, and the
  position and value of the fingerprint once \<open>hasFingerprint\<close> is set.\<close>

record stun_state =
  st_packet :: stun_packet
  st_hasMessageIntegrity :: bool
  st_fingerprint :: "(nat \<times> u32) option"

text \<open>The switch over the attribute type; \<open>attrValuePos\<close> is the rest of the buffer from the value on.\<close>

definition stun_attribute :: "nat \<Rightarrow> u16 \<Rightarrow> u16 \<Rightarrow> bytes \<Rightarrow> stun_state \<Rightarrow> stun_state option option" where
  "stun_attribute pos attrType attrLength attrValuePos st =
     (let p = st_packet st in
      if attrType = USERNAME then do {
        v \<leftarrow> read_bytes attrValuePos 0 (unat attrLength);
        Some (Some (st\<lparr>st_packet := p\<lparr>username := v\<rparr>\<rparr>)) }
      else if attrType = PRIORITY then
        (if attrLength \<noteq> 4 then Some None
         else do {
           v \<leftarrow> Get4Bytes attrValuePos 0;
           Some (Some (st\<lparr>st_packet := p\<lparr>priority := v\<rparr>\<rparr>)) })
      else if attrType = ICE_CONTROLLING then
        (if attrLength \<noteq> 8 then Some None
         else do {
           v \<leftarrow> Get8Bytes attrValuePos 0;
           Some (Some (st\<lparr>st_packet := p\<lparr>iceControlling := v\<rparr>\<rparr>)) })
      else if attrType = ICE_CONTROLLED then
        (if attrLength \<noteq> 8 then Some None
         else do {
           v \<leftarrow> Get8Bytes attrValuePos 0;
           Some (Some (st\<lparr>st_packet := p\<lparr>iceControlled := v\<rparr>\<rparr>)) })
      else if attrType = USE_CANDIDATE then
        (if attrLength \<noteq> 0 then Some None
         else Some (Some (st\<lparr>st_packet := p\<lparr>hasUseCandidate := True\<rparr>\<rparr>)))
      else if attrType = MESSAGE_INTEGRITY then
        (if attrLength \<noteq> 20 then Some None
         else Some (Some (st\<lparr>st_hasMessageIntegrity := True,
                             st_packet := p\<lparr>messageIntegrity := Some (pos + 4)\<rparr>\<rparr>)))
      else if attrType = FINGERPRINT then
        (if attrLength \<noteq> 4 then Some None
         else do {
           v \<leftarrow> Get4Bytes attrValuePos 0;
           Some (Some (st\<lparr>st_fingerprint := Some (pos, v), st_packet := p\<lparr>hasFingerprint := True\<rparr>\<rparr>)) })
      else if attrType = ERROR_CODE then
        (if attrLength < 4 then Some None
         else do {
           errorClass \<leftarrow> Get1Byte attrValuePos 2;
           errorNumber \<leftarrow> Get1Byte attrValuePos 3;
           Some (Some (st\<lparr>st_packet := p\<lparr>errorCode := ucast errorClass * 100 + ucast errorNumber\<rparr>\<rparr>)) })
      else Some (Some st))"

partial_function (option) stun_loop :: "bytes \<Rightarrow> nat \<Rightarrow> stun_state \<Rightarrow> (nat \<times> stun_state) option option" where
  "stun_loop d pos st =
     (if pos + 4 \<le> length d then do {
        attrType \<leftarrow> Get2Bytes d pos;
        attrLength \<leftarrow> Get2Bytes d (pos + 2);
        if pos + 4 + unat attrLength > length d then Some None
        else if st_fingerprint st \<noteq> None then Some None
        else if st_hasMessageIntegrity st \<and> attrType \<noteq> FINGERPRINT then Some None
        else do {
          r \<leftarrow> stun_attribute pos attrType attrLength (drop (pos + 4) d) st;
          case r of
            None \<Rightarrow> Some None
          | Some st' \<Rightarrow> stun_loop d (unat (PadTo4Bytes16 (of_nat (pos + 4 + unat attrLength)))) st' } }
      else Some (Some (pos, st)))"

declare stun_loop.simps [code]

definition StunPacket_Parse :: "bytes \<Rightarrow> stun_packet option option" where
  "StunPacket_Parse d = do {
     is \<leftarrow> IsStun d;
     if \<not> is then Some None
     else do {
       msgType \<leftarrow> Get2Bytes d 0;
       msgLength \<leftarrow> Get2Bytes d 2;
       if unat msgLength \<noteq> length d - 20 \<or> msgLength AND 0x03 \<noteq> 0 then Some None
       else do {
         let msgMethod = (msgType AND 0x000f) OR drop_bit 1 (msgType AND 0x00e0) OR drop_bit 2 (msgType AND 0x3E00);
         b0 \<leftarrow> Get1Byte d 0;
         b1 \<leftarrow> Get1Byte d 1;
         let msgClass = push_bit 1 (ucast b0 AND 0x01) OR drop_bit 4 (ucast b1 AND 0x10);
         tid \<leftarrow> read_bytes d 8 12;
         let p = StunPacket_new (class_of msgClass) msgMethod tid d (length d);
         r \<leftarrow> stun_loop d 20 \<lparr>st_packet = p, st_hasMessageIntegrity = False, st_fingerprint = None\<rparr>;
         case r of
           None \<Rightarrow> Some None
         | Some (pos, st) \<Rightarrow>
             if pos \<noteq> length d then Some None
             else (case st_fingerprint st of
                 None \<Rightarrow> Some (Some (st_packet st))
               | Some (fingerprintAttrPos, fingerprint) \<Rightarrow> do {
                   crc \<leftarrow> GetCRC32 d fingerprintAttrPos;
                   Some (if fingerprint \<noteq> crc XOR 0x5354554e then None else Some (st_packet st)) }) } } }"

subsection \<open>Authentication and responses\<close>

text \<open>The header length field is changed while the digest is computed and restored afterwards; the
  second component of the result is the packet with its buffer as the method leaves it.\<close>

definition CheckAuthentication ::
  "hmac_sha1 \<Rightarrow> bytes \<Rightarrow> bytes \<Rightarrow> stun_packet \<Rightarrow> (Authentication \<times> stun_packet) option" where
  "CheckAuthentication hmac localUsername localPassword p =
     (if klass p = SUCCESS_RESPONSE \<or> klass p = ERROR_RESPONSE then Some (BAD_REQUEST, p)
      else case messageIntegrity p of
        None \<Rightarrow> Some (BAD_REQUEST, p)
      | Some mi \<Rightarrow>
          if username p = [] then Some (BAD_REQUEST, p)
          else if length (username p) \<le> length localUsername \<or> username p ! length localUsername \<noteq> 58 \<or>
              take (length localUsername) (username p) \<noteq> localUsername then Some (UNAUTHORIZED, p)
          else if mi < 4 then None
          else do {
            d \<leftarrow> (if hasFingerprint p then Set2Bytes (stun_data p) 2 (of_nat (stun_size p) - 20 - 8) else Some (stun_data p));
            computed \<leftarrow> GetHmacSha1 hmac localPassword d (mi - 4);
            received \<leftarrow> read_bytes d mi 20;
            let result = (if received = computed then AUTH_OK else UNAUTHORIZED);
            d \<leftarrow> (if hasFingerprint p then Set2Bytes d 2 (of_nat (stun_size p) - 20) else Some d);
            Some (result, p\<lparr>stun_data := d\<rparr>) })"

definition CreateSuccessResponse :: "stun_packet \<Rightarrow> stun_packet option" where
  "CreateSuccessResponse p =
     (if klass p = REQUEST then Some (StunPacket_new SUCCESS_RESPONSE (stun_method p) (transactionId p) [] 0) else None)"

definition CreateErrorResponse :: "u16 \<Rightarrow> stun_packet \<Rightarrow> stun_packet option" where
  "CreateErrorResponse code p =
     (if klass p = REQUEST
      then Some ((StunPacket_new ERROR_RESPONSE (stun_method p) (transactionId p) [] 0)\<lparr>errorCode := code\<rparr>) else None)"

definition Authenticate :: "bytes \<Rightarrow> stun_packet \<Rightarrow> stun_packet" where
  "Authenticate pw p = (if klass p = ERROR_RESPONSE then p else p\<lparr>stun_password := pw\<rparr>)"

subsection \<open>Serialization\<close>

text \<open>The writers pass the output buffer and the position \<open>pos\<close>.\<close>

type_synonym writer = "bytes \<times> nat \<Rightarrow> (bytes \<times> nat) option"

definition usernamePaddedLen :: "stun_packet \<Rightarrow> u16" where
  "usernamePaddedLen p = (if username p \<noteq> [] then PadTo4Bytes16 (of_nat (length (username p))) else 0)"

definition wants_address :: "stun_packet \<Rightarrow> bool" where
  "wants_address p \<longleftrightarrow> xorMappedAddress p \<noteq> None \<and> stun_method p = BINDING \<and> klass p = SUCCESS_RESPONSE"

definition xorMappedAddressPaddedLen :: "stun_packet \<Rightarrow> u16" where
  "xorMappedAddressPaddedLen p =
     (if wants_address p
      then case xorMappedAddress p of
          Some (Sockaddr_in _ _) \<Rightarrow> 8 | Some (Sockaddr_in6 _ _ _) \<Rightarrow> 20 | _ \<Rightarrow> 0
      else 0)"

definition addXorMappedAddress :: "stun_packet \<Rightarrow> bool" where
  "addXorMappedAddress p \<longleftrightarrow> wants_address p \<and>
     (case xorMappedAddress p of Some (Sockaddr_other _) \<Rightarrow> False | _ \<Rightarrow> True)"

definition addErrorCode :: "stun_packet \<Rightarrow> bool" where
  "addErrorCode p \<longleftrightarrow> errorCode p \<noteq> 0 \<and> klass p = ERROR_RESPONSE"

definition addMessageIntegrity :: "stun_packet \<Rightarrow> bool" where
  "addMessageIntegrity p \<longleftrightarrow> klass p \<noteq> ERROR_RESPONSE \<and> stun_password p \<noteq> []"

definition serialized_size :: "stun_packet \<Rightarrow> nat" where
  "serialized_size p = 20
     + (if username p \<noteq> [] then 4 + unat (usernamePaddedLen p) else 0)
     + (if priority p \<noteq> 0 then 4 + 4 else 0)
     + (if iceControlling p \<noteq> 0 then 4 + 8 else 0)
     + (if iceControlled p \<noteq> 0 then 4 + 8 else 0)
     + (if hasUseCandidate p then 4 else 0)
     + (if addXorMappedAddress p then 4 + unat (xorMappedAddressPaddedLen p) else 0)
     + (if addErrorCode p then 4 + 4 else 0)
     + (if addMessageIntegrity p then 4 + 20 else 0)
     + (4 + 4)"

definition typeField :: "stun_packet \<Rightarrow> u16" where
  "typeField p =
     push_bit 2 (stun_method p AND 0x0f80)
     OR push_bit 1 (stun_method p AND 0x0070)
     OR (stun_method p AND 0x000f)
     OR push_bit 7 (class_value (klass p) AND 0x02)
     OR push_bit 4 (class_value (klass p) AND 0x01)"

definition write_header :: "stun_packet \<Rightarrow> writer" where
  "write_header p = (\<lambda>(b, pos). do {
     b \<leftarrow> Set2Bytes b 0 (typeField p);
     b \<leftarrow> Set2Bytes b 2 (of_nat (serialized_size p) - 20);
     b \<leftarrow> memcpy_in b 4 magicCookie 4;
     b \<leftarrow> memcpy_in b 8 (transactionId p) 12;
     Some (b, 20) })"

text \<open>The type and length fields of an attribute, its value and the advance of \<open>pos\<close>.\<close>

definition put_attribute :: "u16 \<Rightarrow> u16 \<Rightarrow> bytes \<Rightarrow> nat \<Rightarrow> writer" where
  "put_attribute t l v n = (\<lambda>(b, pos). do {
     b \<leftarrow> Set2Bytes b pos t;
     b \<leftarrow> Set2Bytes b (pos + 2) l;
     b \<leftarrow> memcpy_in b (pos + 4) v (length v);
     Some (b, pos + 4 + n) })"

definition write_if :: "bool \<Rightarrow> writer \<Rightarrow> writer" where
  "write_if c w = (if c then w else Some)"

definition write_username :: "stun_packet \<Rightarrow> writer" where
  "write_username p = write_if (usernamePaddedLen p \<noteq> 0)
     (put_attribute USERNAME (of_nat (length (username p))) (username p) (unat (usernamePaddedLen p)))"

definition write_priority :: "stun_packet \<Rightarrow> writer" where
  "write_priority p = write_if (priority p \<noteq> 0) (put_attribute PRIORITY 4 (put4 (priority p)) 4)"

definition write_ice_controlling :: "stun_packet \<Rightarrow> writer" where
  "write_ice_controlling p = write_if (iceControlling p \<noteq> 0) (put_attribute ICE_CONTROLLING 8 (put8 (iceControlling p)) 8)"

definition write_ice_controlled :: "stun_packet \<Rightarrow> writer" where
  "write_ice_controlled p = write_if (iceControlled p \<noteq> 0) (put_attribute ICE_CONTROLLED 8 (put8 (iceControlled p)) 8)"

definition write_use_candidate :: "stun_packet \<Rightarrow> writer" where
  "write_use_candidate p = write_if (hasUseCandidate p) (put_attribute USE_CANDIDATE 0 [] 0)"

fun xor_address :: "bytes \<Rightarrow> sockaddr \<Rightarrow> bytes" where
  "xor_address tid (Sockaddr_in port a) =
     [0, 1] @ map2 (XOR) (put2 port) (take 2 magicCookie) @ map2 (XOR) (put4 a) magicCookie"
| "xor_address tid (Sockaddr_in6 port hi lo) =
     [0, 2] @ map2 (XOR) (put2 port) (take 2 magicCookie) @ map2 (XOR) (put8 hi @ put8 lo) (magicCookie @ take 12 tid)"
| "xor_address tid (Sockaddr_other f) = []"

definition write_xor_mapped_address :: "stun_packet \<Rightarrow> writer" where
  "write_xor_mapped_address p = write_if (addXorMappedAddress p)
     (put_attribute XOR_MAPPED_ADDRESS (xorMappedAddressPaddedLen p)
       (case xorMappedAddress p of Some a \<Rightarrow> xor_address (transactionId p) a | None \<Rightarrow> [])
       (unat (xorMappedAddressPaddedLen p)))"

definition write_error_code :: "stun_packet \<Rightarrow> writer" where
  "write_error_code p = write_if (addErrorCode p)
     (let codeClass = ucast (errorCode p div 100) :: u8;
          codeNumber = ucast (errorCode p) - codeClass * 100 :: u8
      in put_attribute ERROR_CODE 4 [0, 0, codeClass, codeNumber] 4)"

definition write_message_integrity :: "hmac_sha1 \<Rightarrow> stun_packet \<Rightarrow> writer" where
  "write_message_integrity hmac p = write_if (addMessageIntegrity p) (\<lambda>(b, pos). do {
     b \<leftarrow> Set2Bytes b 2 (of_nat (serialized_size p) - 20 - 8);
     computed \<leftarrow> GetHmacSha1 hmac (stun_password p) b pos;
     (b, pos) \<leftarrow> put_attribute MESSAGE_INTEGRITY 20 computed 20 (b, pos);
     b \<leftarrow> Set2Bytes b 2 (of_nat (serialized_size p) - 20);
     Some (b, pos) })"

definition write_fingerprint :: "writer" where
  "write_fingerprint = (\<lambda>(b, pos). do {
     crc \<leftarrow> GetCRC32 b pos;
     put_attribute FINGERPRINT 4 (put4 (crc XOR 0x5354554e)) 4 (b, pos) })"

definition write_attributes :: "stun_packet \<Rightarrow> writer" where
  "write_attributes p = (\<lambda>s. do {
     s \<leftarrow> write_username p s;
     s \<leftarrow> write_priority p s;
     s \<leftarrow> write_ice_controlling p s;
     s \<leftarrow> write_ice_controlled p s;
     s \<leftarrow> write_use_candidate p s;
     s \<leftarrow> write_xor_mapped_address p s;
     write_error_code p s })"

definition StunPacket_Serialize :: "hmac_sha1 \<Rightarrow> bytes \<Rightarrow> stun_packet \<Rightarrow> stun_packet option" where
  "StunPacket_Serialize hmac buffer p = do {
     s \<leftarrow> write_header p (buffer, 0);
     s \<leftarrow> write_attributes p s;
     let mi = (if addMessageIntegrity p then Some (snd s + 4) else None);
     s \<leftarrow> write_message_integrity hmac p s;
     (b, pos) \<leftarrow> write_fingerprint s;
     if pos = serialized_size p
     then Some (p\<lparr>stun_data := b, stun_size := serialized_size p, transactionId := take 12 (drop 8 b),
                  messageIntegrity := mi, hasFingerprint := True\<rparr>)
     else None }"

subsection \<open>Parsing is memory safe and ends\<close>

lemma Get8Bytes_ex: "8 \<le> length v \<Longrightarrow> \<exists>x. Get8Bytes v 0 = Some x"
  using byte8.get_ex [of 0 v] by simp

lemma stun_attribute_defined:
  "unat l \<le> length v \<Longrightarrow> stun_attribute pos t l v st \<noteq> None"
  using byte4.get_ex [of 0 v] byte8.get_ex [of 0 v] byte1.get_ex [of 2 v] byte1.get_ex [of 3 v]
  by (auto simp: stun_attribute_def read_bytes_def Let_def not_less word_le_nat_alt)

text \<open>A packet as \<^verbatim>\<open>Parse\<close> hands it out.\<close>

definition stun_wf :: "stun_packet \<Rightarrow> bool" where
  "stun_wf p \<longleftrightarrow>
     length (transactionId p) = 12 \<and> stun_size p = length (stun_data p) \<and>
     20 \<le> length (stun_data p) \<and> Get2Bytes (stun_data p) 2 = Some (of_nat (stun_size p) - 20) \<and>
     (\<forall>mi. messageIntegrity p = Some mi \<longrightarrow> 24 \<le> mi \<and> mi + 20 \<le> length (stun_data p))"

definition stun_inv :: "stun_state \<Rightarrow> bool" where
  "stun_inv st \<longleftrightarrow> stun_wf (st_packet st) \<and>
     st_hasMessageIntegrity st = (messageIntegrity (st_packet st) \<noteq> None) \<and>
     hasFingerprint (st_packet st) = (st_fingerprint st \<noteq> None) \<and>
     (\<forall>i v. st_fingerprint st = Some (i, v) \<longrightarrow> i \<le> length (stun_data (st_packet st)))"

lemma stun_attribute_cases:
  assumes "stun_attribute pos t l v st = Some (Some st')"
  obtains (same) "st' = st"
    | (username) u where "st' = st\<lparr>st_packet := (st_packet st)\<lparr>username := u\<rparr>\<rparr>"
    | (priority) u where "st' = st\<lparr>st_packet := (st_packet st)\<lparr>priority := u\<rparr>\<rparr>"
    | (controlling) u where "st' = st\<lparr>st_packet := (st_packet st)\<lparr>iceControlling := u\<rparr>\<rparr>"
    | (controlled) u where "st' = st\<lparr>st_packet := (st_packet st)\<lparr>iceControlled := u\<rparr>\<rparr>"
    | (candidate) "st' = st\<lparr>st_packet := (st_packet st)\<lparr>hasUseCandidate := True\<rparr>\<rparr>"
    | (error) u where "st' = st\<lparr>st_packet := (st_packet st)\<lparr>errorCode := u\<rparr>\<rparr>"
    | (integrity) "l = 20" "st' = st\<lparr>st_hasMessageIntegrity := True, st_packet := (st_packet st)\<lparr>messageIntegrity := Some (pos + 4)\<rparr>\<rparr>"
    | (fingerprint) u where "l = 4" "Get4Bytes v 0 = Some u"
        "st' = st\<lparr>st_fingerprint := Some (pos, u), st_packet := (st_packet st)\<lparr>hasFingerprint := True\<rparr>\<rparr>"
proof -
  note def = assms [unfolded stun_attribute_def Let_def]
  show thesis
  proof (cases "t = USERNAME")
    case True
    with def show thesis by (auto simp: bind_eq_Some_iff intro: username)
  next
    case 1: False
    show thesis
    proof (cases "t = PRIORITY \<or> t = ICE_CONTROLLING \<or> t = ICE_CONTROLLED")
      case True
      with 1 def show thesis
        by (elim disjE) (auto simp: bind_eq_Some_iff intro: priority controlling controlled split: if_splits)
    next
      case 2: False
      show thesis
      proof (cases "t = USE_CANDIDATE \<or> t = MESSAGE_INTEGRITY \<or> t = FINGERPRINT")
        case True
        with 1 2 def show thesis
          by (elim disjE) (auto simp: bind_eq_Some_iff intro: candidate integrity fingerprint split: if_splits)
      next
        case 3: False
        with 1 2 def show thesis by (auto simp: bind_eq_Some_iff intro: error same split: if_splits)
      qed
    qed
  qed
qed

lemma stun_attribute_inv:
  assumes "stun_attribute pos t l (drop (pos + 4) d) st = Some (Some st')" "stun_inv st"
    "stun_data (st_packet st) = d" "pos + 4 + unat l \<le> length d" "20 \<le> pos"
  shows "stun_inv st' \<and> stun_data (st_packet st') = d"
  using assms(1)
  by (cases rule: stun_attribute_cases) (use assms(2-) in \<open>simp_all add: stun_inv_def stun_wf_def\<close>)

lemma next_position:
  assumes "n < 65536" "4 dvd n" "i \<le> n"
  shows "unat (PadTo4Bytes16 (of_nat i)) = align4 i" "align4 i \<le> n"
proof -
  show le: "align4 i \<le> n" using assms align4_mono [of i n] align4_id [of n] by simp
  have "unat (of_nat i :: u16) = i" using assms by (simp add: unat_of_nat_less)
  then show "unat (PadTo4Bytes16 (of_nat i)) = align4 i"
    using le assms by (simp add: unat_PadTo4Bytes)
qed

lemma stun_loop_total:
  assumes "length d < 65536" "4 dvd length d"
  shows "stun_inv st \<Longrightarrow> stun_data (st_packet st) = d \<Longrightarrow> 20 \<le> pos \<Longrightarrow>
    \<exists>r. stun_loop d pos st = Some r \<and>
      (\<forall>pos' st'. r = Some (pos', st') \<longrightarrow> stun_inv st' \<and> stun_data (st_packet st') = d)"
proof (induction "length d - pos" arbitrary: pos st rule: less_induct)
  case less
  show ?case
  proof (cases "pos + 4 \<le> length d")
    case False
    then show ?thesis using less.prems by (subst stun_loop.simps) auto
  next
    case True
    obtain t where t: "Get2Bytes d pos = Some t" using byte2.get_ex [of pos d] True by auto
    obtain l where l: "Get2Bytes d (pos + 2) = Some l" using byte2.get_ex [of "pos + 2" d] True by auto
    show ?thesis
    proof (cases "pos + 4 + unat l > length d \<or> st_fingerprint st \<noteq> None \<or> st_hasMessageIntegrity st \<and> t \<noteq> FINGERPRINT")
      case True
      with \<open>pos + 4 \<le> length d\<close> t l show ?thesis by (subst stun_loop.simps) auto
    next
      case False
      then have fits: "pos + 4 + unat l \<le> length d" by simp
      obtain r where r: "stun_attribute pos t l (drop (pos + 4) d) st = Some r"
        using stun_attribute_defined [of l "drop (pos + 4) d"] fits by fastforce
      have step: "stun_loop d pos st =
          (case r of None \<Rightarrow> Some None | Some st' \<Rightarrow> stun_loop d (align4 (pos + 4 + unat l)) st')"
        using True False t l r next_position(1) [OF assms fits] by (subst stun_loop.simps) auto
      show ?thesis
      proof (cases r)
        case None
        then show ?thesis by (simp add: step)
      next
        case (Some st')
        have "length d - align4 (pos + 4 + unat l) < length d - pos"
          using True le_align4 [of "pos + 4 + unat l"] by linarith
        moreover have "20 \<le> align4 (pos + 4 + unat l)" using less.prems(3) le_align4 [of "pos + 4 + unat l"] by linarith
        moreover have "stun_inv st' \<and> stun_data (st_packet st') = d"
          using stun_attribute_inv r Some less.prems fits by blast
        ultimately show ?thesis using less.hyps [of "align4 (pos + 4 + unat l)" st'] Some step by auto
      qed
    qed
  qed
qed

lemma IsStun_defined: "\<exists>b. IsStun d = Some b \<and> (b \<longrightarrow> 20 \<le> length d)"
  by (auto simp: IsStun_def Get1Byte_def)

lemma msgLength_dvd4: "(w :: u16) AND 3 = 0 \<Longrightarrow> 4 dvd unat w"
proof -
  assume "w AND 3 = 0"
  then have "unat (w mod 4) = 0" by (simp add: and_3)
  then show ?thesis by (simp add: unat_mod_distrib dvd_eq_mod_eq_0)
qed

lemma StunPacket_new_inv:
  assumes "20 \<le> length d" "Get2Bytes d 2 = Some l" "unat l = length d - 20" "length tid = 12"
  shows "stun_inv \<lparr>st_packet = StunPacket_new c m tid d (length d), st_hasMessageIntegrity = False, st_fingerprint = None\<rparr>"
proof -
  have "l = of_nat (length d - 20)" by (simp flip: assms(3))
  then have "l = of_nat (length d) - 20" using assms(1) by (simp add: of_nat_diff)
  then show ?thesis using assms by (simp add: stun_inv_def stun_wf_def StunPacket_new_def)
qed

lemma StunPacket_Parse_total:
  assumes "length d < 65536"
  shows "\<exists>r. StunPacket_Parse d = Some r \<and> (\<forall>p. r = Some p \<longrightarrow> stun_wf p \<and> stun_data p = d)"
proof -
  obtain b where b: "IsStun d = Some b" "b \<longrightarrow> 20 \<le> length d" using IsStun_defined by blast
  show ?thesis
  proof (cases b)
    case False
    then show ?thesis using b by (simp add: StunPacket_Parse_def)
  next
    case True
    then have len: "20 \<le> length d" using b by simp
    obtain t where t: "Get2Bytes d 0 = Some t" using byte2.get_ex [of 0 d] len by auto
    obtain l where l: "Get2Bytes d 2 = Some l" using byte2.get_ex [of 2 d] len by auto
    have bytes: "Get1Byte d 0 = Some (d ! 0)" "Get1Byte d 1 = Some (d ! 1)" "read_bytes d 8 12 = Some (take 12 (drop 8 d))"
      using len by (auto simp: Get1Byte_def read_bytes_def)
    note parse = StunPacket_Parse_def b(1) True t l bytes
    show ?thesis
    proof (cases "unat l \<noteq> length d - 20 \<or> l AND 3 \<noteq> 0")
      case True
      then show ?thesis using b t l \<open>b\<close> by (auto simp: StunPacket_Parse_def)
    next
      case False
      then have ul: "unat l = length d - 20" by simp
      have "4 dvd unat l" using False by (intro msgLength_dvd4) simp
      then have "4 dvd unat l + 4 * 5" by (intro dvd_add) simp_all
      then have dvd: "4 dvd length d" using len ul by simp
      let ?c = "class_of (push_bit 1 (ucast (d ! 0) AND 0x01) OR drop_bit 4 (ucast (d ! 1) AND 0x10))"
      let ?m = "(t AND 0x000f) OR drop_bit 1 (t AND 0x00e0) OR drop_bit 2 (t AND 0x3E00)"
      let ?p = "StunPacket_new ?c ?m (take 12 (drop 8 d)) d (length d)"
      obtain r where r: "stun_loop d 20 \<lparr>st_packet = ?p, st_hasMessageIntegrity = False, st_fingerprint = None\<rparr> = Some r"
        and inv: "\<forall>pos' st'. r = Some (pos', st') \<longrightarrow> stun_inv st' \<and> stun_data (st_packet st') = d"
        using stun_loop_total [OF assms dvd StunPacket_new_inv [OF len l ul], of "take 12 (drop 8 d)" ?c ?m 20] len
        by (auto simp: StunPacket_new_def)
      then show ?thesis
        using False by (auto simp: parse Let_def stun_inv_def GetCRC32_eq simp del: One_nat_def
            split: option.splits prod.splits)
    qed
  qed
qed

subsection \<open>Authentication\<close>

lemma Set2Bytes_restore:
  "Get2Bytes d i = Some v \<Longrightarrow> Set2Bytes d i w = Some d' \<Longrightarrow> Set2Bytes d' i v = Some d"
proof -
  assume g: "Get2Bytes d i = Some v" and s: "Set2Bytes d i w = Some d'"
  have len: "i + 2 \<le> length d" using g byte2.get_is_None [of d i] by fastforce
  then have d': "d' = d[i + 1 := ucast w, i := ucast (drop_bit 8 w)]"
    using s by (auto simp: Set2Bytes_def Set1Byte_def)
  have v: "ucast (d ! (i + 1)) OR push_bit 8 (ucast (d ! i)) = v"
    using g len by (auto simp: Get2Bytes_def Get1Byte_def)
  have "ucast v = d ! (i + 1)" "ucast (drop_bit 8 v) = d ! i"
    unfolding v [symmetric] by (intro bit_word_eqI; auto simp: bit_simps bit_beyond dest: bit_imp_le_length)+
  then show ?thesis using len by (auto simp: d' Set2Bytes_def Set1Byte_def list_update_swap)
qed

lemma Set2Bytes_ex: "i + 2 \<le> length d \<Longrightarrow> \<exists>d'. Set2Bytes d i w = Some d' \<and> length d' = length d"
  by (auto simp: Set2Bytes_def Set1Byte_def)

text \<open>The buffer over which the digest of a message is computed.\<close>

definition integrity_text :: "stun_packet \<Rightarrow> nat \<Rightarrow> bytes" where
  "integrity_text p mi = take (mi - 4)
     (if hasFingerprint p then the (Set2Bytes (stun_data p) 2 (of_nat (stun_size p) - 20 - 8)) else stun_data p)"

definition names_user :: "bytes \<Rightarrow> stun_packet \<Rightarrow> bool" where
  "names_user localUsername p \<longleftrightarrow> (\<exists>peer. username p = localUsername @ 58 # peer)"

lemma names_user_iff:
  "(length (username p) \<le> length u \<or> username p ! length u \<noteq> 58 \<or> take (length u) (username p) \<noteq> u) \<longleftrightarrow> \<not> names_user u p"
proof -
  have "username p = u @ 58 # drop (Suc (length u)) (username p)"
    if "length u < length (username p)" "username p ! length u = 58" "take (length u) (username p) = u"
    using that by (metis id_take_nth_drop)
  then show ?thesis by (auto simp: names_user_def not_le)
qed

lemma CheckAuthentication_eq:
  assumes wf: "stun_wf p" and hmac: "\<And>k m. length (hmac k m) = 20"
  shows "CheckAuthentication hmac u pw p = Some
    ((if klass p = SUCCESS_RESPONSE \<or> klass p = ERROR_RESPONSE then BAD_REQUEST
      else case messageIntegrity p of None \<Rightarrow> BAD_REQUEST
        | Some mi \<Rightarrow> if username p = [] then BAD_REQUEST
            else if \<not> names_user u p then UNAUTHORIZED
            else if take 20 (drop mi (stun_data p)) = hmac pw (integrity_text p mi) then AUTH_OK else UNAUTHORIZED), p)"
proof (cases "klass p = SUCCESS_RESPONSE \<or> klass p = ERROR_RESPONSE \<or> messageIntegrity p = None \<or> username p = [] \<or> \<not> names_user u p")
  case True
  then show ?thesis unfolding CheckAuthentication_def names_user_iff by (auto split: option.split)
next
  case False
  then obtain mi where mi: "messageIntegrity p = Some mi" by auto
  have b: "24 \<le> mi" "mi + 20 \<le> length (stun_data p)" using wf mi by (auto simp: stun_wf_def)
  obtain d' where d': "Set2Bytes (stun_data p) 2 (of_nat (stun_size p) - 20 - 8) = Some d'" "length d' = length (stun_data p)"
    using Set2Bytes_ex [of 2 "stun_data p"] b by auto
  have restore: "Set2Bytes d' 2 (of_nat (stun_size p) - 20) = Some (stun_data p)"
    using wf d'(1) Set2Bytes_restore by (auto simp: stun_wf_def)
  have "drop mi d' = drop mi (stun_data p)"
    using d'(1) b by (auto simp: Set2Bytes_def Set1Byte_def split: if_splits)
  then show ?thesis
    unfolding CheckAuthentication_def names_user_iff
    using False b d' restore hmac
    by (auto simp: mi GetHmacSha1_def read_bytes_def integrity_text_def Let_def)
qed

text \<open>C32: Parsing any buffer below 64 KiB ends, reads only inside the buffer and either refuses it or
  returns a packet over the same bytes on which authentication is safe and leaves the buffer as it was.\<close>

theorem StunPacket_Parse_safe:
  assumes "length d < 65536" "\<And>k m. length (hmac k m) = 20"
  shows "\<exists>r. StunPacket_Parse d = Some r \<and>
    (\<forall>p. r = Some p \<longrightarrow> stun_data p = d \<and> length (transactionId p) = 12 \<and>
       (\<exists>a. CheckAuthentication hmac u pw p = Some (a, p)))"
proof -
  obtain r where r: "StunPacket_Parse d = Some r" and wf: "\<forall>p. r = Some p \<longrightarrow> stun_wf p \<and> stun_data p = d"
    using StunPacket_Parse_total [OF assms(1)] by blast
  moreover have "stun_data p = d \<and> length (transactionId p) = 12 \<and> (\<exists>a. CheckAuthentication hmac u pw p = Some (a, p))"
    if "r = Some p" for p
    using wf that CheckAuthentication_eq [where hmac = hmac, OF _ assms(2)] by (auto simp: stun_wf_def)
  ultimately show ?thesis by blast
qed

definition zero_hmac :: hmac_sha1 where
  "zero_hmac k m = replicate 20 0"

theorem StunPacket_Parse_safe_witness:
  "\<exists>r. StunPacket_Parse (0 # 1 # 0 # 0 # magicCookie @ replicate 12 7) = Some r \<and>
    (\<forall>p. r = Some p \<longrightarrow> stun_data p = 0 # 1 # 0 # 0 # magicCookie @ replicate 12 7 \<and> length (transactionId p) = 12 \<and>
       (\<exists>a. CheckAuthentication zero_hmac [97] [98] p = Some (a, p)))"
  by (rule StunPacket_Parse_safe) (simp_all add: zero_hmac_def magicCookie_def)

text \<open>C33: A parsed request is authentic exactly when its user name starts with the local user name and a
  colon and its integrity attribute is the digest, under the local password, of the bytes in front of the
  attribute, with the length field not counting a fingerprint.\<close>

theorem CheckAuthentication_authentic:
  assumes "length d < 65536" "StunPacket_Parse d = Some (Some p)" "\<And>k m. length (hmac k m) = 20"
  shows "fst (the (CheckAuthentication hmac u pw p)) = AUTH_OK \<longleftrightarrow>
    (klass p = REQUEST \<or> klass p = INDICATION) \<and> (\<exists>peer. username p = u @ 58 # peer) \<and>
    (\<exists>mi. messageIntegrity p = Some mi \<and> mi + 20 \<le> length d \<and>
       take 20 (drop mi d) = hmac pw (take (mi - 4)
         (if hasFingerprint p then the (Set2Bytes d 2 (of_nat (length d) - 28)) else d)))"
proof -
  have wf: "stun_wf p" "stun_data p = d" using StunPacket_Parse_total [OF assms(1)] assms(2) by auto
  then have it: "integrity_text p mi =
      take (mi - 4) (if hasFingerprint p then the (Set2Bytes d 2 (of_nat (length d) - 28)) else d)" for mi
    by (simp add: integrity_text_def stun_wf_def)
  have "klass p = SUCCESS_RESPONSE \<or> klass p = ERROR_RESPONSE \<longleftrightarrow> \<not> (klass p = REQUEST \<or> klass p = INDICATION)"
    by (cases "klass p") simp_all
  moreover have "messageIntegrity p = Some mi \<Longrightarrow> mi + 20 \<le> length d" for mi using wf by (auto simp: stun_wf_def)
  ultimately show ?thesis
    using wf(2)
    by (auto simp: CheckAuthentication_eq [where hmac = hmac, OF wf(1) assms(3)] it names_user_def split: option.splits)
qed

definition sample_request :: bytes where
  "sample_request = [0, 1, 0, 32] @ magicCookie @ replicate 12 7 @
     [0, 6, 0, 2, 97, 58, 0, 0] @ [0, 8, 0, 20] @ replicate 20 0"

theorem CheckAuthentication_authentic_witness:
  "\<exists>p. StunPacket_Parse sample_request = Some (Some p) \<and>
     fst (the (CheckAuthentication zero_hmac [97] [98] p)) = AUTH_OK"
proof -
  have ok: "(case StunPacket_Parse sample_request of Some (Some p) \<Rightarrow>
      klass p = REQUEST \<and> username p = [97, 58] \<and> messageIntegrity p = Some 32 \<and> \<not> hasFingerprint p | _ \<Rightarrow> False)"
    by code_simp
  then obtain p where p: "StunPacket_Parse sample_request = Some (Some p)" by (auto split: option.splits)
  have len: "length sample_request < 65536" by (simp add: sample_request_def magicCookie_def)
  have z: "\<And>k m. length (zero_hmac k m) = 20" by (simp add: zero_hmac_def)
  have "take 20 (drop 32 sample_request) = replicate 20 0" "length sample_request = 52"
    by (simp_all add: sample_request_def magicCookie_def eval_nat_numeral)
  with CheckAuthentication_authentic [of _ _ zero_hmac "[97]" "[98]", OF len p z] ok p show ?thesis
    by (auto simp: zero_hmac_def)
qed

end
