(* ===== verification/StunPacket_Roundtrip.thy ===== *)
theory StunPacket_Roundtrip
  imports StunPacket
begin

text \<open>
  What \<^verbatim>\<open>StunPacket::Serialize\<close> writes, \<^verbatim>\<open>StunPacket::Parse\<close> reads back. A writer is described by the
  bytes it appends at the current position (\<open>appends\<close>), so that writers compose; the attribute loop of the
  parser is followed along a list of encoded attributes by one induction. The fingerprint and the digest
  are then recomputed over the same bytes.
\<close>

subsection \<open>Writers append\<close>

definition appends :: "writer \<Rightarrow> nat \<Rightarrow> (bytes \<Rightarrow> bytes) \<Rightarrow> bool" where
  "appends w n bs \<longleftrightarrow> (\<forall>out r. n \<le> length r \<longrightarrow> length (bs r) = n \<and>
     w (out @ r, length out) = Some (out @ bs r @ drop n r, length out + n))"

lemma appends_if:
  "appends w n bs \<Longrightarrow> appends (write_if c w) (if c then n else 0) (\<lambda>r. if c then bs r else [])"
  by (simp add: appends_def write_if_def)

lemma appends_bind:
  assumes f: "appends f m a" and g: "appends g n (\<lambda>_. b)"
  shows "appends (\<lambda>s. f s \<bind> g) (m + n) (\<lambda>r. a r @ b)"
  unfolding appends_def
proof (intro allI impI conjI)
  fix out r :: bytes assume len: "m + n \<le> length r"
  then have fr: "length (a r) = m" "f (out @ r, length out) = Some (out @ a r @ drop m r, length out + m)"
    using f by (auto simp: appends_def)
  have gr: "length b = n"
    "g ((out @ a r) @ drop m r, length (out @ a r)) = Some ((out @ a r) @ b @ drop n (drop m r), length (out @ a r) + n)"
    using g [unfolded appends_def, rule_format, of "drop m r" "out @ a r"] len by simp_all
  then show "length (a r @ b) = m + n" using fr by simp
  from gr(2) fr have "g (out @ a r @ drop m r, length out + m) = Some (out @ a r @ b @ drop (n + m) r, length out + m + n)"
    by simp
  then show "f (out @ r, length out) \<bind> g = Some (out @ (a r @ b) @ drop (m + n) r, length out + (m + n))"
    by (simp add: fr(2) add.commute add.left_commute)
qed

lemma Set2Bytes_next:
  assumes "2 \<le> length r"
  shows "Set2Bytes (out @ r) (length out) v = Some (out @ put2 v @ drop 2 r)"
proof -
  obtain b0 b1 r' where "r = b0 # b1 # r'" using assms by (metis Suc_le_length_iff numeral_2_eq_2)
  then show ?thesis by (simp add: Set2Bytes_def Set1Byte_def put2_def list_update_append)
qed

lemma memcpy_next:
  "length v \<le> length r \<Longrightarrow> memcpy_in (out @ r) (length out) v (length v) = Some (out @ v @ drop (length v) r)"
  by (simp add: memcpy_in_def)

lemma appends_attribute:
  assumes "length v \<le> n"
  shows "appends (put_attribute t l v n) (4 + n) (\<lambda>r. put2 t @ put2 l @ v @ take (n - length v) (drop (4 + length v) r))"
  unfolding appends_def
proof (intro allI impI conjI)
  fix out r :: bytes assume len: "4 + n \<le> length r"
  then show "length (put2 t @ put2 l @ v @ take (n - length v) (drop (4 + length v) r)) = 4 + n"
    using assms by (simp add: sizes)
  have s1: "Set2Bytes (out @ r) (length out) t = Some (out @ put2 t @ drop 2 r)"
    using len by (simp add: Set2Bytes_next)
  have s2: "Set2Bytes (out @ put2 t @ drop 2 r) (length out + 2) l = Some (out @ put2 t @ put2 l @ drop 4 r)"
    using Set2Bytes_next [of "drop 2 r" "out @ put2 t" l] len by (simp add: sizes)
  have s3: "memcpy_in (out @ put2 t @ put2 l @ drop 4 r) (length out + 4) v (length v) =
      Some (out @ put2 t @ put2 l @ v @ drop (4 + length v) r)"
    using memcpy_next [of v "drop 4 r" "out @ put2 t @ put2 l"] len assms by (simp add: sizes add.commute)
  have "drop (4 + length v) r = take (n - length v) (drop (4 + length v) r) @ drop (4 + n) r"
    using append_take_drop_id [of "n - length v" "drop (4 + length v) r"] assms by (simp add: add.commute)
  then show "put_attribute t l v n (out @ r, length out) =
      Some (out @ (put2 t @ put2 l @ v @ take (n - length v) (drop (4 + length v) r)) @ drop (4 + n) r, length out + (4 + n))"
    by (simp add: put_attribute_def s1 s2 s3 del: add_2_eq_Suc')
qed

subsection \<open>The attributes of a packet\<close>

text \<open>An attribute of type \<open>t\<close> with value \<open>v\<close>, followed by its padding.\<close>

definition encode_attribute :: "u16 \<times> bytes \<times> bytes \<Rightarrow> bytes" where
  "encode_attribute = (\<lambda>(t, v, pad). put2 t @ put2 (of_nat (length v)) @ v @ pad)"

text \<open>The attributes that \<^verbatim>\<open>Serialize\<close> writes, each with its effect on the packet that \<^verbatim>\<open>Parse\<close> builds.\<close>

type_synonym entry = "(u16 \<times> bytes \<times> bytes) \<times> (stun_packet \<Rightarrow> stun_packet)"

definition entry_if :: "bool \<Rightarrow> u16 \<Rightarrow> bytes \<Rightarrow> bytes \<Rightarrow> (stun_packet \<Rightarrow> stun_packet) \<Rightarrow> entry list" where
  "entry_if c t v pad f = (if c then [((t, v, pad), f)] else [])"

definition error_value :: "stun_packet \<Rightarrow> bytes" where
  "error_value p = (let c = ucast (errorCode p div 100) :: u8 in [0, 0, c, ucast (errorCode p) - c * 100])"

definition address_value :: "stun_packet \<Rightarrow> bytes" where
  "address_value p = (case xorMappedAddress p of Some a \<Rightarrow> xor_address (transactionId p) a | None \<Rightarrow> [])"

definition packet_entries :: "stun_packet \<Rightarrow> bytes \<Rightarrow> entry list" where
  "packet_entries p pad =
     entry_if (username p \<noteq> []) USERNAME (username p) pad (username_update (\<lambda>_. username p))
     @ entry_if (priority p \<noteq> 0) PRIORITY (put4 (priority p)) [] (priority_update (\<lambda>_. priority p))
     @ entry_if (iceControlling p \<noteq> 0) ICE_CONTROLLING (put8 (iceControlling p)) [] (iceControlling_update (\<lambda>_. iceControlling p))
     @ entry_if (iceControlled p \<noteq> 0) ICE_CONTROLLED (put8 (iceControlled p)) [] (iceControlled_update (\<lambda>_. iceControlled p))
     @ entry_if (hasUseCandidate p) USE_CANDIDATE [] [] (hasUseCandidate_update (\<lambda>_. True))
     @ entry_if (addXorMappedAddress p) XOR_MAPPED_ADDRESS (address_value p) [] id
     @ entry_if (addErrorCode p) ERROR_CODE (error_value p) [] (errorCode_update (\<lambda>_. errorCode p))"

definition encode_entries :: "entry list \<Rightarrow> bytes" where
  "encode_entries es = concat (map (\<lambda>e. encode_attribute (fst e)) es)"

lemma encode_entries_simps [simp]:
  "encode_entries [] = []" "encode_entries (e # es) = encode_attribute (fst e) @ encode_entries es"
  "encode_entries (es @ es') = encode_entries es @ encode_entries es'"
  "encode_entries (entry_if c t v pad f) = (if c then encode_attribute (t, v, pad) else [])"
  by (simp_all add: encode_entries_def entry_if_def)

lemma length_xor_address:
  "length tid = 12 \<Longrightarrow> length (xor_address tid (Sockaddr_in port a)) = 8"
  "length tid = 12 \<Longrightarrow> length (xor_address tid (Sockaddr_in6 port hi lo)) = 20"
  by (simp_all add: magicCookie_def sizes)

lemma address_value_length:
  "length (transactionId p) = 12 \<Longrightarrow> addXorMappedAddress p \<Longrightarrow>
   xorMappedAddressPaddedLen p = of_nat (length (address_value p)) \<and> length (address_value p) \<in> {8, 20}"
  by (auto simp: addXorMappedAddress_def wants_address_def xorMappedAddressPaddedLen_def address_value_def length_xor_address
      simp del: xor_address.simps split: option.splits sockaddr.splits)

lemma appends_value:
  "l = of_nat (length v) \<Longrightarrow> n = length v \<Longrightarrow>
   appends (put_attribute t l v n) (4 + n) (\<lambda>_. encode_attribute (t, v, []))"
  using appends_attribute [of v n t l] by (simp add: encode_attribute_def)

text \<open>The padding of the user name is what the buffer held before.\<close>

definition name_padding :: "stun_packet \<Rightarrow> bytes \<Rightarrow> bytes" where
  "name_padding p r = take (pad4 (length (username p))) (drop (4 + length (username p)) r)"

lemma usernamePaddedLen_eq:
  assumes "length (username p) < 65533"
  shows "unat (usernamePaddedLen p) = align4 (length (username p))"
    and "usernamePaddedLen p \<noteq> 0 \<longleftrightarrow> username p \<noteq> []"
proof -
  have "align4 (length (username p)) \<le> 65532" using assms align4_mono [of "length (username p)" 65532] by (simp add: align4_def)
  then show eq: "unat (usernamePaddedLen p) = align4 (length (username p))"
    using assms by (auto simp: usernamePaddedLen_def unat_PadTo4Bytes unat_of_nat_less align4_def)
  show "usernamePaddedLen p \<noteq> 0 \<longleftrightarrow> username p \<noteq> []"
    using eq le_align4 [of "length (username p)"] by (cases "username p") (auto simp: align4_def usernamePaddedLen_def)
qed

lemma appends_username:
  assumes "length (username p) < 65533"
  shows "appends (write_username p) (if username p \<noteq> [] then 4 + align4 (length (username p)) else 0)
    (\<lambda>r. encode_entries (entry_if (username p \<noteq> []) USERNAME (username p) (name_padding p r) f))"
proof -
  have "appends (put_attribute USERNAME (of_nat (length (username p))) (username p) (align4 (length (username p))))
      (4 + align4 (length (username p))) (\<lambda>r. encode_attribute (USERNAME, username p, name_padding p r))"
    using appends_attribute [of "username p" "align4 (length (username p))" USERNAME "of_nat (length (username p))"]
    by (simp add: encode_attribute_def name_padding_def align4_pad4)
  from appends_if [OF this, of "username p \<noteq> []"] show ?thesis
    by (simp only: write_username_def usernamePaddedLen_eq [OF assms] encode_entries_simps)
qed

lemma appends_entry:
  assumes "c \<Longrightarrow> l = of_nat (length v) \<and> n = length v" and m: "m = 4 + n"
  shows "appends (write_if c (put_attribute t l v n)) (if c then m else 0) (\<lambda>_. encode_entries (entry_if c t v [] f))"
proof (cases c)
  case True
  then show ?thesis using appends_value [of l v n t] assms(1) by (simp add: write_if_def m)
next
  case False
  then show ?thesis by (simp add: appends_def write_if_def)
qed

definition body_size :: "stun_packet \<Rightarrow> nat" where
  "body_size p = serialized_size p - 20 - (if addMessageIntegrity p then 24 else 0) - 8"

lemma appends_attributes:
  assumes "length (transactionId p) = 12" "length (username p) < 65533"
  shows "appends (write_attributes p) (body_size p) (\<lambda>r. encode_entries (packet_entries p (name_padding p r)))"
proof -
  have addr: "addXorMappedAddress p \<Longrightarrow> unat (xorMappedAddressPaddedLen p) = length (address_value p)"
    using address_value_length [OF assms(1)] by auto
  note w1 = appends_username [OF assms(2), where f = "username_update (\<lambda>_. username p)"]
  have w2: "appends (write_priority p) (if priority p \<noteq> 0 then 8 else 0)
      (\<lambda>_. encode_entries (entry_if (priority p \<noteq> 0) PRIORITY (put4 (priority p)) [] (priority_update (\<lambda>_. priority p))))"
    unfolding write_priority_def by (rule appends_entry) (simp_all add: sizes)
  have w3: "appends (write_ice_controlling p) (if iceControlling p \<noteq> 0 then 12 else 0)
      (\<lambda>_. encode_entries (entry_if (iceControlling p \<noteq> 0) ICE_CONTROLLING (put8 (iceControlling p)) [] (iceControlling_update (\<lambda>_. iceControlling p))))"
    unfolding write_ice_controlling_def by (rule appends_entry) (simp_all add: sizes)
  have w4: "appends (write_ice_controlled p) (if iceControlled p \<noteq> 0 then 12 else 0)
      (\<lambda>_. encode_entries (entry_if (iceControlled p \<noteq> 0) ICE_CONTROLLED (put8 (iceControlled p)) [] (iceControlled_update (\<lambda>_. iceControlled p))))"
    unfolding write_ice_controlled_def by (rule appends_entry) (simp_all add: sizes)
  have w5: "appends (write_use_candidate p) (if hasUseCandidate p then 4 else 0)
      (\<lambda>_. encode_entries (entry_if (hasUseCandidate p) USE_CANDIDATE [] [] (hasUseCandidate_update (\<lambda>_. True))))"
    unfolding write_use_candidate_def by (rule appends_entry) simp_all
  have w6: "appends (write_xor_mapped_address p) (if addXorMappedAddress p then 4 + unat (xorMappedAddressPaddedLen p) else 0)
      (\<lambda>_. encode_entries (entry_if (addXorMappedAddress p) XOR_MAPPED_ADDRESS (address_value p) [] id))"
    unfolding write_xor_mapped_address_def address_value_def [symmetric]
    by (rule appends_entry) (metis address_value_length [OF assms(1)] addr, rule refl)
  have w7: "appends (write_error_code p) (if addErrorCode p then 8 else 0)
      (\<lambda>_. encode_entries (entry_if (addErrorCode p) ERROR_CODE (error_value p) [] (errorCode_update (\<lambda>_. errorCode p))))"
    unfolding write_error_code_def Let_def error_value_def by (rule appends_entry) simp_all
  note chain = appends_bind [OF appends_bind [OF appends_bind [OF appends_bind [OF appends_bind [OF appends_bind [OF
    w1 w2] w3] w4] w5] w6] w7]
  have "body_size p = (if username p \<noteq> [] then 4 + align4 (length (username p)) else 0) +
      (if priority p \<noteq> 0 then 8 else 0) + (if iceControlling p \<noteq> 0 then 12 else 0) +
      (if iceControlled p \<noteq> 0 then 12 else 0) + (if hasUseCandidate p then 4 else 0) +
      (if addXorMappedAddress p then 4 + unat (xorMappedAddressPaddedLen p) else 0) + (if addErrorCode p then 8 else 0)"
    by (simp add: body_size_def serialized_size_def usernamePaddedLen_eq [OF assms(2)])
  then show ?thesis
    using chain by (simp only: write_attributes_def packet_entries_def encode_entries_simps(3) append_assoc Option.bind_assoc)
qed


subsection \<open>The attribute loop along encoded attributes\<close>

lemma stun_attribute_prefix:
  assumes "unat l = length v"
  shows "stun_attribute pos t l (v @ ys) st = stun_attribute pos t l v st"
proof -
  have l: "l = 4 \<Longrightarrow> 4 \<le> length v" "l = 8 \<Longrightarrow> 8 \<le> length v" "\<not> l < 4 \<Longrightarrow> 4 \<le> length v"
    using assms by (auto simp: word_less_nat_alt)
  have "read_bytes (v @ ys) 0 (unat l) = read_bytes v 0 (unat l)" using assms by (simp add: read_bytes_def)
  moreover have "l = 4 \<Longrightarrow> Get4Bytes (v @ ys) 0 = Get4Bytes v 0" "l = 8 \<Longrightarrow> Get8Bytes (v @ ys) 0 = Get8Bytes v 0"
    using l byte4.get_append [of 0 v ys] byte8.get_append [of 0 v ys] by simp_all
  moreover have "\<not> l < 4 \<Longrightarrow> Get1Byte (v @ ys) 2 = Get1Byte v 2" "\<not> l < 4 \<Longrightarrow> Get1Byte (v @ ys) 3 = Get1Byte v 3"
    using l byte1.get_append [of 2 v ys] byte1.get_append [of 3 v ys] by simp_all
  ultimately show ?thesis by (simp add: stun_attribute_def Let_def)
qed

text \<open>An attribute that only changes the packet.\<close>

definition plain :: "entry \<Rightarrow> bool" where
  "plain e \<longleftrightarrow> (case e of ((t, v, pad), f) \<Rightarrow> t \<noteq> FINGERPRINT \<and> length v < 65536 \<and> length pad = pad4 (length v) \<and>
     (\<forall>pos st. stun_attribute pos t (of_nat (length v)) v st = Some (Some (st_packet_update f st))))"

lemma align4_add: "4 dvd m \<Longrightarrow> align4 (m + n) = m + align4 n"
proof -
  assume "4 dvd m"
  then have "pad4 (m + n) = pad4 n" by (auto simp: pad4_def elim!: dvdE)
  then show ?thesis by (simp add: align4_pad4)
qed

lemma stun_loop_step:
  assumes d: "d = xs @ encode_attribute (t, v, pad) @ ys" and len: "length d < 65536" "4 dvd length d"
    and xs: "4 dvd length xs" and pad: "length pad = pad4 (length v)"
    and st: "st_fingerprint st = None" "st_hasMessageIntegrity st \<longrightarrow> t = FINGERPRINT"
    and attr: "stun_attribute (length xs) t (of_nat (length v)) v st = Some (Some st')"
  shows "stun_loop d (length xs) st = stun_loop d (length xs + length (encode_attribute (t, v, pad))) st'"
proof -
  let ?l = "of_nat (length v) :: u16"
  have e: "length (encode_attribute (t, v, pad)) = 4 + align4 (length v)"
    by (simp add: encode_attribute_def sizes pad align4_pad4)
  have fits: "length xs + 4 + align4 (length v) \<le> length d" by (simp add: d e)
  then have small: "length v < 65536" and vle: "length xs + 4 + length v \<le> length d"
    using len(1) le_align4 [of "length v"] by linarith+
  have ul: "unat ?l = length v" using small by (simp add: unat_of_nat_less)
  have g1: "Get2Bytes d (length xs) = Some t"
    using byte2.get_put_mid [of xs t] by (simp add: d encode_attribute_def)
  have g2: "Get2Bytes d (length xs + 2) = Some ?l"
    using byte2.get_put_mid [of "xs @ put2 t" ?l] by (simp add: d encode_attribute_def sizes)
  have dr: "drop (length xs + 4) d = v @ pad @ ys"
  proof -
    have "d = (xs @ put2 t @ put2 ?l) @ v @ pad @ ys" by (simp add: d encode_attribute_def)
    moreover have "length (xs @ put2 t @ put2 ?l) = length xs + 4" by (simp add: sizes)
    ultimately show ?thesis by (metis drop_append_length)
  qed
  have a: "stun_attribute (length xs) t ?l (drop (length xs + 4) d) st = Some (Some st')"
    using stun_attribute_prefix [OF ul] attr by (simp add: dr)
  have al: "align4 (length xs + 4 + length v) = length xs + 4 + align4 (length v)"
    using align4_add [of "length xs + 4" "length v"] xs by simp
  have nx: "unat (PadTo4Bytes16 (of_nat (length xs + 4 + length v))) = length xs + (4 + align4 (length v))"
    using next_position(1) [OF len vle] al by simp
  have h: "length xs + 4 \<le> length d" using vle by simp
  show ?thesis
    using h g1 g2 vle st a nx by (subst stun_loop.simps) (auto simp: ul e simp del: add_2_eq_Suc' of_nat_add)
qed

lemma stun_loop_entries:
  assumes "length d < 65536" "4 dvd length d"
  shows "d = xs @ encode_entries es @ ys \<Longrightarrow> 4 dvd length xs \<Longrightarrow> list_all plain es \<Longrightarrow>
    st_fingerprint st = None \<Longrightarrow> \<not> st_hasMessageIntegrity st \<Longrightarrow>
    stun_loop d (length xs) st = stun_loop d (length (xs @ encode_entries es)) (st_packet_update (fold snd es) st)"
proof (induction es arbitrary: xs st)
  case (Cons e es)
  obtain t v pad f where e: "e = ((t, v, pad), f)" by (cases e) auto
  let ?a = "encode_attribute (t, v, pad)"
  have pl: "length pad = pad4 (length v)" "stun_attribute (length xs) t (of_nat (length v)) v st = Some (Some (st_packet_update f st))"
    using Cons.prems(3) by (auto simp: e plain_def)
  have "stun_loop d (length xs) st = stun_loop d (length xs + length ?a) (st_packet_update f st)"
    using Cons.prems pl by (intro stun_loop_step [OF _ assms]) (auto simp: e)
  also have "\<dots> = stun_loop d (length (xs @ ?a)) (st_packet_update f st)" by simp
  also have "\<dots> = stun_loop d (length ((xs @ ?a) @ encode_entries es)) (st_packet_update (fold snd es) (st_packet_update f st))"
  proof (rule Cons.IH)
    have "length ?a = 4 + align4 (length v)" by (simp add: encode_attribute_def sizes pl align4_pad4)
    then show "4 dvd length (xs @ ?a)" using Cons.prems(2) by simp
  qed (use Cons.prems in \<open>simp_all add: e\<close>)
  finally show ?case by (simp add: e o_def)
next
  case Nil
  then show ?case by (cases st) (simp add: id_def)
qed


lemma plain_entry_if: "(c \<Longrightarrow> plain ((t, v, pad), f)) \<Longrightarrow> list_all plain (entry_if c t v pad f)"
  by (simp add: entry_if_def)

lemma error_code_assemble:
  fixes e :: u16
  assumes "e < 25600"
  shows "(ucast (ucast (e div 100) :: u8) * 100 + ucast (ucast e - ucast (e div 100) * 100 :: u8) :: u16) = e"
proof -
  let ?c = "unat e div 100"
  have e: "unat e < 25600" using assms by (simp add: word_less_nat_alt)
  then have c: "?c < 256" by (simp add: div_less_iff_less_mult)
  have uc: "unat (ucast (e div 100) :: u8) = ?c" using c by (simp add: unsigned_ucast_eq unat_div take_bit_nat_eq_self)
  have n: "unat (ucast e - ucast (e div 100) * 100 :: u8) = unat e mod 100"
  proof -
    have "ucast e = (of_nat (unat e) :: u8)" "ucast (e div 100) = (of_nat ?c :: u8)"
      by (simp_all add: unsigned_of_nat word_unat_eq_iff unsigned_ucast_eq unat_of_nat unat_div take_bit_eq_mod)
    then have "(ucast e - ucast (e div 100) * 100 :: u8) = of_nat (unat e) - of_nat (?c * 100)" by simp
    also have "\<dots> = of_nat (unat e - ?c * 100)" by (simp add: of_nat_diff del: of_nat_mult)
    also have "unat e - ?c * 100 = unat e mod 100" by (simp add: minus_div_mult_eq_mod)
    finally show ?thesis by (simp add: unat_of_nat)
  qed
  have "unat (ucast (ucast (e div 100) :: u8) * 100 + ucast (ucast e - ucast (e div 100) * 100 :: u8) :: u16) = ?c * 100 + unat e mod 100"
    using e by (simp add: unat_word_ariths unat_ucast_le uc n)
  then show ?thesis by (simp add: word_unat_eq_iff)
qed

lemma packet_entries_plain:
  assumes "length (transactionId p) = 12" "length (username p) < 65533" "errorCode p < 25600"
    "username p \<noteq> [] \<Longrightarrow> length pad = pad4 (length (username p))"
  shows "list_all plain (packet_entries p pad)"
  unfolding packet_entries_def list_all_append
proof (intro conjI plain_entry_if)
  show "plain ((USERNAME, username p, pad), username_update (\<lambda>_. username p))" if "username p \<noteq> []"
    using assms that by (simp add: plain_def stun_attribute_def read_bytes_def unat_of_nat_less)
  show "plain ((PRIORITY, put4 (priority p), []), priority_update (\<lambda>_. priority p))"
    using byte4.get_put [of "priority p" "[]"] by (simp add: plain_def stun_attribute_def sizes pad4_def)
  show "plain ((ICE_CONTROLLING, put8 (iceControlling p), []), iceControlling_update (\<lambda>_. iceControlling p))"
    using byte8.get_put [of "iceControlling p" "[]"] by (simp add: plain_def stun_attribute_def sizes pad4_def)
  show "plain ((ICE_CONTROLLED, put8 (iceControlled p), []), iceControlled_update (\<lambda>_. iceControlled p))"
    using byte8.get_put [of "iceControlled p" "[]"] by (simp add: plain_def stun_attribute_def sizes pad4_def)
  show "plain ((USE_CANDIDATE, [], []), hasUseCandidate_update (\<lambda>_. True))"
    by (simp add: plain_def stun_attribute_def pad4_def)
  show "plain ((XOR_MAPPED_ADDRESS, address_value p, []), id)" if "addXorMappedAddress p"
  proof -
    have "st_packet_update id st = st" for st by (cases st) simp
    then show ?thesis
      using address_value_length [OF assms(1) that] by (auto simp: plain_def stun_attribute_def pad4_def)
  qed
  show "plain ((ERROR_CODE, error_value p, []), errorCode_update (\<lambda>_. errorCode p))"
    using error_code_assemble [OF assms(3)]
    by (simp add: plain_def stun_attribute_def error_value_def Let_def pad4_def Get1Byte_def)
qed


subsection \<open>The serialized message\<close>

definition header_bytes :: "stun_packet \<Rightarrow> u16 \<Rightarrow> bytes" where
  "header_bytes p len = put2 (typeField p) @ put2 len @ magicCookie @ transactionId p"

lemma length_magicCookie [sizes]: "length magicCookie = 4"
  by (simp add: magicCookie_def)

lemma length_header: "length (transactionId p) = 12 \<Longrightarrow> length (header_bytes p len) = 20"
  by (simp add: header_bytes_def sizes)

lemma Set2Bytes_length_field:
  "Set2Bytes (header_bytes p len @ r) 2 w = Some (header_bytes p w @ r)"
proof -
  have "Set2Bytes (put2 (typeField p) @ put2 len @ magicCookie @ transactionId p @ r) (length (put2 (typeField p))) w =
      Some (put2 (typeField p) @ put2 w @ magicCookie @ transactionId p @ r)"
    by (subst Set2Bytes_next) (simp_all add: sizes)
  then show ?thesis by (simp add: header_bytes_def sizes)
qed

lemma write_header_eq:
  assumes "length (transactionId p) = 12" "20 \<le> length b"
  shows "write_header p (b, k) = Some (header_bytes p (of_nat (serialized_size p) - 20) @ drop 20 b, 20)"
proof -
  let ?t = "put2 (typeField p)" and ?l = "put2 (of_nat (serialized_size p) - 20)"
  have s1: "Set2Bytes b 0 (typeField p) = Some (?t @ drop 2 b)"
    using Set2Bytes_next [of b "[]"] assms by simp
  have s2: "Set2Bytes (?t @ drop 2 b) 2 (of_nat (serialized_size p) - 20) = Some (?t @ ?l @ drop 4 b)"
    using Set2Bytes_next [of "drop 2 b" ?t] assms by (simp add: sizes)
  have s3: "memcpy_in (?t @ ?l @ drop 4 b) 4 magicCookie 4 = Some (?t @ ?l @ magicCookie @ drop 8 b)"
    using memcpy_next [of magicCookie "drop 4 b" "?t @ ?l"] assms by (simp add: sizes)
  have s4: "memcpy_in (?t @ ?l @ magicCookie @ drop 8 b) 8 (transactionId p) 12 = Some (?t @ ?l @ magicCookie @ transactionId p @ drop 20 b)"
    using memcpy_next [of "transactionId p" "drop 8 b" "?t @ ?l @ magicCookie"] assms by (simp add: sizes)
  show ?thesis by (simp add: write_header_def s1 s2 s3 s4 header_bytes_def)
qed

text \<open>The message in front of the fingerprint: header, attributes and digest.\<close>

definition integrity_bytes :: "hmac_sha1 \<Rightarrow> stun_packet \<Rightarrow> bytes \<Rightarrow> bytes" where
  "integrity_bytes hmac p body = (if addMessageIntegrity p
     then encode_attribute (MESSAGE_INTEGRITY, hmac (stun_password p) (header_bytes p (of_nat (serialized_size p) - 28) @ body), [])
     else [])"

definition message_bytes :: "hmac_sha1 \<Rightarrow> stun_packet \<Rightarrow> bytes \<Rightarrow> bytes" where
  "message_bytes hmac p body = header_bytes p (of_nat (serialized_size p) - 20) @ body @ integrity_bytes hmac p body"

definition fingerprint_bytes :: "bytes \<Rightarrow> bytes" where
  "fingerprint_bytes m = encode_attribute (FINGERPRINT, put4 (crc32 m XOR 0x5354554e), [])"

lemma length_message_parts:
  assumes "length (transactionId p) = 12" "length (username p) < 65533" "\<And>k m. length (hmac k m) = 20" "length body = body_size p"
  shows "length (integrity_bytes hmac p body) = (if addMessageIntegrity p then 24 else 0)"
    "length (fingerprint_bytes m) = 8"
    "length (message_bytes hmac p body) + 8 = serialized_size p"
proof -
  show i: "length (integrity_bytes hmac p body) = (if addMessageIntegrity p then 24 else 0)"
    by (simp add: integrity_bytes_def encode_attribute_def sizes assms)
  show "length (fingerprint_bytes m) = 8" by (simp add: fingerprint_bytes_def encode_attribute_def sizes)
  have "28 + (if addMessageIntegrity p then 24 else 0) \<le> serialized_size p" by (simp add: serialized_size_def)
  then show "length (message_bytes hmac p body) + 8 = serialized_size p"
    unfolding message_bytes_def length_append i length_header [OF assms(1)] assms(4) body_size_def by (simp split: if_split)
qed

lemma write_message_integrity_eq:
  assumes tid: "length (transactionId p) = 12" and hmac: "\<And>k m. length (hmac k m) = 20"
    and r: "(if addMessageIntegrity p then 24 else 0) \<le> length r"
    and H: "H = header_bytes p (of_nat (serialized_size p) - 20)" and n: "n = length (H @ body)"
  shows "write_message_integrity hmac p (H @ body @ r, n) =
    Some (message_bytes hmac p body @ drop (length (integrity_bytes hmac p body)) r, length (message_bytes hmac p body))"
proof (cases "addMessageIntegrity p")
  case False
  then show ?thesis by (simp add: write_message_integrity_def write_if_def message_bytes_def integrity_bytes_def H n)
next
  case True
  let ?H = "header_bytes p (of_nat (serialized_size p) - 28)"
  let ?D = "hmac (stun_password p) (?H @ body)"
  have l: "length H = 20" "length ?H = 20" using tid by (simp_all add: H length_header)
  have h: "GetHmacSha1 hmac (stun_password p) (?H @ body @ r) n = Some ?D"
    using hmac l by (simp add: GetHmacSha1_def n)
  have "appends (put_attribute MESSAGE_INTEGRITY 20 ?D 20) (4 + 20) (\<lambda>_. encode_attribute (MESSAGE_INTEGRITY, ?D, []))"
    by (rule appends_value) (simp_all add: hmac)
  from this [unfolded appends_def, rule_format, of r "?H @ body"] r True
  have w: "put_attribute MESSAGE_INTEGRITY 20 ?D 20 (?H @ body @ r, n) =
      Some (?H @ body @ encode_attribute (MESSAGE_INTEGRITY, ?D, []) @ drop 24 r, n + 24)"
    using l by (simp add: n)
  have e: "length (encode_attribute (MESSAGE_INTEGRITY, ?D, [])) = 24" by (simp add: encode_attribute_def sizes hmac)
  have s1: "Set2Bytes (H @ body @ r) 2 (of_nat (serialized_size p) - 28) = Some (?H @ body @ r)"
    unfolding H by (rule Set2Bytes_length_field)
  have s2: "Set2Bytes (?H @ x) 2 (of_nat (serialized_size p) - 20) = Some (H @ x)" for x
    unfolding H by (rule Set2Bytes_length_field)
  have ib: "integrity_bytes hmac p body = encode_attribute (MESSAGE_INTEGRITY, ?D, [])"
    using True by (simp add: integrity_bytes_def)
  have mb: "message_bytes hmac p body = H @ body @ encode_attribute (MESSAGE_INTEGRITY, ?D, [])"
    by (simp add: message_bytes_def ib H)
  show ?thesis unfolding ib mb using True by (simp add: write_message_integrity_def write_if_def s1 h w s2 e) (simp add: n)
qed

lemma write_fingerprint_eq:
  assumes "8 \<le> length r"
  shows "write_fingerprint (m @ r, length m) = Some (m @ fingerprint_bytes m @ drop 8 r, length m + 8)"
proof -
  have "appends (put_attribute FINGERPRINT 4 (put4 (crc32 m XOR 0x5354554e)) 4) (4 + 4) (\<lambda>_. fingerprint_bytes m)"
    unfolding fingerprint_bytes_def by (rule appends_value) (simp_all add: sizes)
  from this [unfolded appends_def, rule_format, of r m] assms show ?thesis
    by (simp add: write_fingerprint_def GetCRC32_eq)
qed

definition packet_body :: "stun_packet \<Rightarrow> bytes \<Rightarrow> bytes" where
  "packet_body p buffer = encode_entries (packet_entries p (name_padding p (drop 20 buffer)))"

lemma StunPacket_Serialize_eq:
  assumes tid: "length (transactionId p) = 12" and name: "length (username p) < 65533"
    and hmac: "\<And>k m. length (hmac k m) = 20" and room: "serialized_size p \<le> length buffer"
  defines "m \<equiv> message_bytes hmac p (packet_body p buffer)"
  shows "StunPacket_Serialize hmac buffer p = Some (p\<lparr>stun_data := m @ fingerprint_bytes m @ drop (serialized_size p) buffer,
      stun_size := serialized_size p, transactionId := transactionId p,
      messageIntegrity := (if addMessageIntegrity p then Some (20 + body_size p + 4) else None), hasFingerprint := True\<rparr>)"
    and "length (packet_body p buffer) = body_size p"
proof -
  let ?H = "header_bytes p (of_nat (serialized_size p) - 20)" and ?B = "packet_body p buffer"
  let ?i = "if addMessageIntegrity p then 24 else 0 :: nat"
  have size: "serialized_size p = 20 + body_size p + ?i + 8" by (simp add: body_size_def serialized_size_def)
  have H: "length ?H = 20" using tid by (rule length_header)
  have hd: "write_header p (buffer, 0) = Some (?H @ drop 20 buffer, 20)"
    using write_header_eq [OF tid] room size by simp
  have at: "length ?B = body_size p \<and> write_attributes p (?H @ drop 20 buffer, 20) = Some (?H @ ?B @ drop (20 + body_size p) buffer, 20 + body_size p)"
    using appends_attributes [OF tid name, unfolded appends_def, rule_format, of "drop 20 buffer" ?H] room size H
    by (simp add: packet_body_def add.commute)
  then show B: "length ?B = body_size p" by simp
  have mi: "write_message_integrity hmac p (?H @ ?B @ drop (20 + body_size p) buffer, 20 + body_size p) =
      Some (m @ drop (?i + (20 + body_size p)) buffer, length m)"
  proof -
    have r: "?i \<le> length (drop (20 + body_size p) buffer)" using room size by simp
    have n: "20 + body_size p = length (?H @ ?B)" using H B by simp
    have "drop (length (integrity_bytes hmac p ?B)) (drop (20 + body_size p) buffer) = drop (?i + (20 + body_size p)) buffer"
      by (simp only: length_message_parts(1) [OF tid name hmac B] drop_drop)
    then show ?thesis
      using write_message_integrity_eq [where hmac = hmac, OF tid hmac r refl n] unfolding m_def by (simp only:)
  qed
  have m: "length m + 8 = serialized_size p" using length_message_parts(3) [OF tid name hmac B] by (simp add: m_def)
  have fp: "write_fingerprint (m @ drop (?i + (20 + body_size p)) buffer, length m) =
      Some (m @ fingerprint_bytes m @ drop (serialized_size p) buffer, serialized_size p)"
    using write_fingerprint_eq [of "drop (?i + (20 + body_size p)) buffer" m] room size m by (simp add: add.commute add.left_commute)
  have t: "take 12 (drop 8 (m @ x)) = transactionId p" for x
    using tid by (simp add: m_def message_bytes_def header_bytes_def sizes)
  show "StunPacket_Serialize hmac buffer p = Some (p\<lparr>stun_data := m @ fingerprint_bytes m @ drop (serialized_size p) buffer,
      stun_size := serialized_size p, transactionId := transactionId p,
      messageIntegrity := (if addMessageIntegrity p then Some (20 + body_size p + 4) else None), hasFingerprint := True\<rparr>)"
    using at by (simp add: StunPacket_Serialize_def hd mi fp t del: take_append drop_append)
qed

subsection \<open>The type field\<close>

lemma masks16:
  "(0x000f :: u16) = mask 4" "(0x0070 :: u16) = push_bit 4 (mask 3)" "(0x0f80 :: u16) = push_bit 7 (mask 5)"
  "(0x00e0 :: u16) = push_bit 5 (mask 3)" "(0x3E00 :: u16) = push_bit 9 (mask 5)"
  by (simp_all add: mask_eq_exp_minus_1 push_bit_eq_mult)

lemma bit_mask_field: "bit (push_bit k (mask j) :: u16) n \<longleftrightarrow> k \<le> n \<and> n < k + j \<and> n < 16"
  by (auto simp: bit_simps)

lemma bit_class_value:
  "bit (push_bit 7 (class_value c AND 0x02)) n \<longleftrightarrow> n = 8 \<and> (c = SUCCESS_RESPONSE \<or> c = ERROR_RESPONSE)"
  "bit (push_bit 4 (class_value c AND 0x01)) n \<longleftrightarrow> n = 4 \<and> (c = INDICATION \<or> c = ERROR_RESPONSE)"
proof -
  have "push_bit 7 (class_value c AND 0x02) = (if c = SUCCESS_RESPONSE \<or> c = ERROR_RESPONSE then 2 ^ 8 else 0)"
    "push_bit 4 (class_value c AND 0x01) = (if c = INDICATION \<or> c = ERROR_RESPONSE then 2 ^ 4 else 0)"
    by (cases c; simp)+
  then show "bit (push_bit 7 (class_value c AND 0x02)) n \<longleftrightarrow> n = 8 \<and> (c = SUCCESS_RESPONSE \<or> c = ERROR_RESPONSE)"
    "bit (push_bit 4 (class_value c AND 0x01)) n \<longleftrightarrow> n = 4 \<and> (c = INDICATION \<or> c = ERROR_RESPONSE)"
    using bit_exp_iff [of 8 n, where 'a = u16] bit_exp_iff [of 4 n, where 'a = u16] by auto
qed

lemma bit_typeField:
  assumes "stun_method p < 128"
  shows "bit (typeField p) n \<longleftrightarrow>
    n < 4 \<and> bit (stun_method p) n \<or> n = 4 \<and> (klass p = INDICATION \<or> klass p = ERROR_RESPONSE) \<or>
    5 \<le> n \<and> n < 8 \<and> bit (stun_method p) (n - 1) \<or> n = 8 \<and> (klass p = SUCCESS_RESPONSE \<or> klass p = ERROR_RESPONSE)"
proof -
  have high: "bit (stun_method p) n \<longrightarrow> n < 7" for n
    using less_exp_bit [of "stun_method p" 7 n] assms by simp
  have f1: "bit (push_bit 2 (stun_method p AND 0x0f80)) n \<longleftrightarrow> False"
    using high [of "n - 2"] unfolding masks16 bit_push_bit_iff bit_and_iff bit_mask_field by (auto simp: bit_mask_iff)
  have f2: "bit (push_bit 1 (stun_method p AND 0x0070)) n \<longleftrightarrow> 5 \<le> n \<and> n < 8 \<and> bit (stun_method p) (n - 1)"
    using high [of "n - 1"] unfolding masks16 bit_push_bit_iff bit_and_iff bit_mask_field by (auto simp: bit_mask_iff)
  have f3: "bit (stun_method p AND 0x000f) n \<longleftrightarrow> n < 4 \<and> bit (stun_method p) n"
    unfolding masks16 bit_and_iff bit_mask_iff by auto
  show ?thesis unfolding typeField_def bit_or_iff f1 f2 f3 bit_class_value by argo
qed

lemma typeField_fields:
  assumes "stun_method p < 128"
  shows "(typeField p AND 0x000f) OR drop_bit 1 (typeField p AND 0x00e0) OR drop_bit 2 (typeField p AND 0x3E00) = stun_method p"
    and "ucast (drop_bit 8 (typeField p)) = (if klass p = SUCCESS_RESPONSE \<or> klass p = ERROR_RESPONSE then 1 else 0 :: u8)"
    and "bit (ucast (typeField p) :: u8) 4 \<longleftrightarrow> klass p = INDICATION \<or> klass p = ERROR_RESPONSE"
proof -
  have high: "bit (stun_method p) n \<Longrightarrow> n < 7" for n
    using less_exp_bit [of "stun_method p" 7 n] assms by simp
  note bits = bit_typeField [OF assms]
  show "(typeField p AND 0x000f) OR drop_bit 1 (typeField p AND 0x00e0) OR drop_bit 2 (typeField p AND 0x3E00) = stun_method p"
  proof (rule bit_word_eqI)
    fix n
    have "bit (drop_bit 1 (typeField p AND 0x00e0)) n \<longleftrightarrow> 4 \<le> n \<and> bit (stun_method p) n"
      using high [of n] unfolding masks16 bit_drop_bit_eq bit_and_iff bit_mask_field o_apply bits by auto
    moreover have "bit (drop_bit 2 (typeField p AND 0x3E00)) n \<longleftrightarrow> False"
      unfolding masks16 bit_drop_bit_eq bit_and_iff bit_mask_field o_apply bits by auto
    moreover have "bit (typeField p AND 0x000f) n \<longleftrightarrow> n < 4 \<and> bit (stun_method p) n"
      unfolding masks16 bit_and_iff bit_mask_iff bits by auto
    ultimately show "bit ((typeField p AND 0x000f) OR drop_bit 1 (typeField p AND 0x00e0) OR drop_bit 2 (typeField p AND 0x3E00)) n = bit (stun_method p) n"
      unfolding bit_or_iff by auto
  qed
  show "ucast (drop_bit 8 (typeField p)) = (if klass p = SUCCESS_RESPONSE \<or> klass p = ERROR_RESPONSE then 1 else 0 :: u8)"
    by (rule bit_word_eqI) (auto simp: bit_ucast_iff bit_drop_bit_eq bits bit_1_iff)
  show "bit (ucast (typeField p) :: u8) 4 \<longleftrightarrow> klass p = INDICATION \<or> klass p = ERROR_RESPONSE"
    by (auto simp: bit_ucast_iff bits)
qed

subsection \<open>Parsing the serialized message\<close>

lemma class_of_parts:
  assumes "b0 = (if c = SUCCESS_RESPONSE \<or> c = ERROR_RESPONSE then 1 else 0 :: u8)"
    and "bit b1 4 \<longleftrightarrow> c = INDICATION \<or> c = ERROR_RESPONSE"
  shows "class_of (push_bit 1 (ucast b0 AND 0x01) OR drop_bit 4 (ucast (b1 :: u8) AND 0x10)) = c"
proof -
  have "(ucast b1 :: u16) AND 0x10 = (if bit b1 4 then 0x10 else 0)"
  proof (rule bit_word_eqI)
    fix n :: nat
    have "bit (0x10 :: u16) n \<longleftrightarrow> n = 4" using bit_exp_iff [of 4 n, where 'a = u16] by auto
    then show "bit ((ucast b1 :: u16) AND 0x10) n = bit (if bit b1 4 then 0x10 else 0 :: u16) n"
      by (auto simp: bit_and_iff bit_ucast_iff)
  qed
  then show ?thesis using assms by (cases c) (auto simp: class_of_def)
qed

lemma IsStun_header:
  assumes "stun_method p < 128" "length (transactionId p) = 12"
  shows "IsStun (header_bytes p l @ r) = Some True"
  using typeField_fields(2) [OF assms(1)] assms(2)
  by (simp add: IsStun_def header_bytes_def put2_def magicCookie_def Get1Byte_def)

text \<open>The packet read from a serialized message: the fields of its attributes over a new packet.\<close>

definition read_packet :: "stun_packet \<Rightarrow> entry list \<Rightarrow> bytes \<Rightarrow> stun_packet" where
  "read_packet p es d = (let q = fold snd es (StunPacket_new (klass p) (stun_method p) (transactionId p) d (length d));
     mi = (if addMessageIntegrity p then Some (20 + length (encode_entries es) + 4) else messageIntegrity q)
     in q\<lparr>messageIntegrity := mi, hasFingerprint := True\<rparr>)"

lemma loop_integrity_fingerprint:
  assumes d: "d = xs @ (if c then encode_attribute (MESSAGE_INTEGRITY, v, []) else []) @ encode_attribute (FINGERPRINT, put4 f, [])"
    and len: "length d < 65536" "4 dvd length d" "4 dvd length xs" and v: "c \<Longrightarrow> length v = 20"
  shows "stun_loop d (length xs) \<lparr>st_packet = q, st_hasMessageIntegrity = False, st_fingerprint = None\<rparr> =
    Some (Some (length d, \<lparr>st_packet = q\<lparr>messageIntegrity := (if c then Some (length xs + 4) else messageIntegrity q), hasFingerprint := True\<rparr>,
      st_hasMessageIntegrity = c, st_fingerprint = Some (length d - 8, f)\<rparr>))"
proof -
  let ?F = "encode_attribute (FINGERPRINT, put4 f, [])"
  let ?M = "encode_attribute (MESSAGE_INTEGRITY, v, [])"
  have F: "length ?F = 8" by (simp add: encode_attribute_def sizes)
  have fp: "stun_loop d (length ys) st = Some (Some (length d, st\<lparr>st_fingerprint := Some (length d - 8, f),
      st_packet := (st_packet st)\<lparr>hasFingerprint := True\<rparr>\<rparr>))"
    if ys: "d = ys @ ?F" "4 dvd length ys" and st: "st_fingerprint st = None" for ys st
  proof -
    have l: "length ys = length d - 8" "length ys + 8 = length d" using ys(1) F by simp_all
    have "stun_loop d (length ys) st = stun_loop d (length ys + length ?F)
        (st\<lparr>st_fingerprint := Some (length ys, f), st_packet := (st_packet st)\<lparr>hasFingerprint := True\<rparr>\<rparr>)"
      by (rule stun_loop_step [OF _ len(1,2) ys(2), where ys = "[]"])
        (use ys st byte4.get_put [of f "[]"] in \<open>simp_all add: stun_attribute_def sizes pad4_def\<close>)
    also have "\<dots> = Some (Some (length d, st\<lparr>st_fingerprint := Some (length d - 8, f), st_packet := (st_packet st)\<lparr>hasFingerprint := True\<rparr>\<rparr>))"
      by (subst stun_loop.simps) (simp add: F l(1) [symmetric] l(2))
    finally show ?thesis .
  qed
  show ?thesis
  proof (cases c)
    case False
    then show ?thesis using fp [of xs] d len by simp
  next
    case True
    have M: "length ?M = 24" by (simp add: encode_attribute_def sizes v [OF True])
    have "stun_loop d (length xs) \<lparr>st_packet = q, st_hasMessageIntegrity = False, st_fingerprint = None\<rparr> =
      stun_loop d (length xs + length ?M) \<lparr>st_packet = q\<lparr>messageIntegrity := Some (length xs + 4)\<rparr>, st_hasMessageIntegrity = True, st_fingerprint = None\<rparr>"
      by (rule stun_loop_step [OF _ len(1,2,3), where ys = ?F])
        (use d True v [OF True] in \<open>simp_all add: stun_attribute_def pad4_def\<close>)
    then show ?thesis using fp [of "xs @ ?M"] d len True M by simp
  qed
qed

lemma serialized_size_dvd4:
  assumes "length (transactionId p) = 12" "length (username p) < 65533"
  shows "4 dvd serialized_size p"
proof -
  have "4 dvd (if addXorMappedAddress p then 4 + unat (xorMappedAddressPaddedLen p) else 0)"
    using address_value_length [OF assms(1)] by auto
  then show ?thesis
    unfolding serialized_size_def usernamePaddedLen_eq(1) [OF assms(2)] by (intro dvd_add) (simp_all split: if_split)
qed

lemma body_size_dvd4: "length (transactionId p) = 12 \<Longrightarrow> length (username p) < 65533 \<Longrightarrow> 4 dvd body_size p"
  using serialized_size_dvd4 [of p] unfolding body_size_def by (intro dvd_diff_nat) (simp_all split: if_split)

lemma StunPacket_Parse_message:
  assumes tid: "length (transactionId p) = 12" and name: "length (username p) < 65533"
    and code: "errorCode p < 25600" and meth: "stun_method p < 128" and small: "serialized_size p < 65536"
    and hmac: "\<And>k m. length (hmac k m) = 20"
    and es: "es = packet_entries p pad" "list_all plain es" "length (encode_entries es) = body_size p"
    and m: "m = message_bytes hmac p (encode_entries es)" and d: "d = m @ fingerprint_bytes m"
  shows "StunPacket_Parse d = Some (Some (read_packet p es d))"
proof -
  let ?len = "of_nat (serialized_size p) - 20 :: u16"
  let ?H = "header_bytes p ?len" and ?B = "encode_entries es" and ?I = "integrity_bytes hmac p (encode_entries es)"
  let ?c = "addMessageIntegrity p"
  have H: "length ?H = 20" using tid by (rule length_header)
  have dl: "length d = serialized_size p" using length_message_parts(2,3) [OF tid name hmac es(3)] by (simp add: d m)
  have ds: "d = ?H @ ?B @ ?I @ fingerprint_bytes m" by (simp add: d m message_bytes_def)
  have twenty: "20 \<le> serialized_size p" by (simp add: serialized_size_def)
  have dvd: "4 dvd length d" using serialized_size_dvd4 [OF tid name] dl by simp
  have stun: "IsStun d = Some True" using IsStun_header [OF meth tid] by (simp add: ds)
  have t: "Get2Bytes d 0 = Some (typeField p)" using byte2.get_put by (simp add: ds header_bytes_def)
  have l: "Get2Bytes d 2 = Some ?len"
    using byte2.get_put_mid [of "put2 (typeField p)" ?len] by (simp add: ds header_bytes_def sizes)
  have ulen: "unat ?len = length d - 20"
  proof -
    have "?len = of_nat (serialized_size p - 20)" using twenty by (simp add: of_nat_diff)
    then show ?thesis using small dl by (simp add: unat_of_nat_less)
  qed
  have l4: "?len AND 3 = 0"
  proof -
    have "4 dvd length d - 20" by (rule dvd_diff_nat [OF dvd]) simp
    then have "unat (?len mod 4) = 0" using ulen by (simp add: unat_mod_distrib dvd_eq_mod_eq_0)
    then show ?thesis by (simp add: and_3 unat_eq_zero)
  qed
  have b: "Get1Byte d 0 = Some (ucast (drop_bit 8 (typeField p)))" "Get1Byte d 1 = Some (ucast (typeField p))"
    by (simp_all add: ds header_bytes_def put2_def Get1Byte_def)
  have cl: "class_of (push_bit 1 (ucast (ucast (drop_bit 8 (typeField p)) :: u8) AND 0x01) OR drop_bit 4 (ucast (ucast (typeField p) :: u8) AND 0x10)) = klass p"
    using typeField_fields(2,3) [OF meth] by (rule class_of_parts)
  have td: "read_bytes d 8 12 = Some (transactionId p)"
    using tid by (simp add: read_bytes_def ds header_bytes_def sizes)
  let ?p = "StunPacket_new (klass p) (stun_method p) (transactionId p) d (length d)"
  let ?q = "fold snd es ?p"
  have "stun_loop d (length ?H) \<lparr>st_packet = ?p, st_hasMessageIntegrity = False, st_fingerprint = None\<rparr> =
      stun_loop d (length (?H @ ?B)) \<lparr>st_packet = ?q, st_hasMessageIntegrity = False, st_fingerprint = None\<rparr>"
    using stun_loop_entries [OF _ dvd ds _ es(2), of "\<lparr>st_packet = ?p, st_hasMessageIntegrity = False, st_fingerprint = None\<rparr>"]
      small dl H by simp
  also have "\<dots> = Some (Some (length d, \<lparr>st_packet = read_packet p es d, st_hasMessageIntegrity = ?c,
      st_fingerprint = Some (length d - 8, crc32 m XOR 0x5354554e)\<rparr>))"
  proof -
    have x4: "4 dvd length (?H @ ?B)" using H es(3) body_size_dvd4 [OF tid name] by simp
    let ?D = "hmac (stun_password p) (header_bytes p (of_nat (serialized_size p) - 28) @ ?B)"
    have "d = (?H @ ?B) @ (if ?c then encode_attribute (MESSAGE_INTEGRITY, ?D, []) else []) @ encode_attribute (FINGERPRINT, put4 (crc32 m XOR 0x5354554e), [])"
      by (subst ds) (simp add: integrity_bytes_def fingerprint_bytes_def)
    from loop_integrity_fingerprint [OF this _ dvd x4 hmac, of ?q] small dl H show ?thesis
      by (simp add: read_packet_def Let_def)
  qed
  finally have loop: "stun_loop d 20 \<lparr>st_packet = ?p, st_hasMessageIntegrity = False, st_fingerprint = None\<rparr> =
      Some (Some (length d, \<lparr>st_packet = read_packet p es d, st_hasMessageIntegrity = ?c, st_fingerprint = Some (length d - 8, crc32 m XOR 0x5354554e)\<rparr>))"
    by (simp only: H)
  have crc: "GetCRC32 d (length d - 8) = Some (crc32 m)"
    using length_message_parts(2) [OF tid name hmac es(3)] by (simp add: GetCRC32_eq d)
  show ?thesis
    by (simp only: StunPacket_Parse_def stun t l ulen l4 b cl td typeField_fields(1) [OF meth] Let_def loop bind.bind_lunit
        not_True_eq_False simp_thms if_False) (simp add: crc)
qed

lemma read_packet_fields:
  assumes "es = packet_entries p pad"
  shows "klass (read_packet p es d) = klass p" "stun_method (read_packet p es d) = stun_method p"
    "transactionId (read_packet p es d) = transactionId p" "hasFingerprint (read_packet p es d)"
    "stun_data (read_packet p es d) = d" "stun_size (read_packet p es d) = length d"
    "messageIntegrity (read_packet p es d) = (if addMessageIntegrity p then Some (20 + length (encode_entries es) + 4) else None)"
  unfolding read_packet_def Let_def assms
  by (simp_all add: packet_entries_def entry_if_def StunPacket_new_def)

lemma read_packet_attributes:
  assumes "es = packet_entries p pad"
  shows "username (read_packet p es d) = username p" "priority (read_packet p es d) = priority p"
    "iceControlling (read_packet p es d) = iceControlling p" "iceControlled (read_packet p es d) = iceControlled p"
    "hasUseCandidate (read_packet p es d) = hasUseCandidate p"
    "errorCode (read_packet p es d) = (if klass p = ERROR_RESPONSE then errorCode p else 0)"
  unfolding read_packet_def Let_def assms
  by (simp_all add: packet_entries_def entry_if_def StunPacket_new_def addErrorCode_def)

lemma read_packet_authentic:
  assumes tid: "length (transactionId p) = 12" and hmac: "\<And>k m. length (hmac k m) = 20"
    and es: "es = packet_entries p pad" and len: "length d = serialized_size p"
    and d: "d = message_bytes hmac p (encode_entries es) @ r"
    and p: "addMessageIntegrity p" "klass p = REQUEST \<or> klass p = INDICATION" "names_user u p"
    and wf: "stun_wf (read_packet p es d)"
  shows "CheckAuthentication hmac u (stun_password p) (read_packet p es d) = Some (AUTH_OK, read_packet p es d)"
proof -
  let ?q = "read_packet p es d" and ?B = "encode_entries es"
  let ?H = "header_bytes p (of_nat (serialized_size p) - 20)" and ?H' = "header_bytes p (of_nat (serialized_size p) - 28)"
  let ?D = "hmac (stun_password p) (?H' @ ?B)"
  note f = read_packet_fields [OF es]
  have H: "length ?H = 20" "length ?H' = 20" using length_header [OF tid] by simp_all
  have ds: "d = (?H @ ?B @ put2 MESSAGE_INTEGRITY @ put2 20) @ ?D @ r"
    using p(1) hmac by (simp add: d message_bytes_def integrity_bytes_def encode_attribute_def)
  have dig: "take 20 (drop (20 + length ?B + 4) d) = ?D"
  proof -
    have "20 + length ?B + 4 = length (?H @ ?B @ put2 MESSAGE_INTEGRITY @ put2 20)" by (simp add: H sizes)
    then show ?thesis by (simp only: ds drop_append_length) (simp add: hmac)
  qed
  have "Set2Bytes d 2 (of_nat (serialized_size p) - 28) = Some (?H' @ ?B @ put2 MESSAGE_INTEGRITY @ put2 20 @ ?D @ r)"
    by (subst ds) (simp only: append_assoc Set2Bytes_length_field)
  then have it: "integrity_text ?q (20 + length ?B + 4) = ?H' @ ?B"
    using H(2) by (simp add: integrity_text_def f len)
  have "names_user u ?q" "username ?q \<noteq> []" using p(3) by (auto simp: names_user_def read_packet_attributes [OF es])
  then show ?thesis
    using p(1,2) CheckAuthentication_eq [where hmac = hmac, OF wf hmac] dig it by (auto simp: f)
qed

subsection \<open>The mapped address\<close>

text \<open>\<^verbatim>\<open>Parse\<close> skips the XOR-MAPPED-ADDRESS attribute, so what a peer reads from it is specified here: the scan of
  the attributes of a message and the decoding of RFC 5389, 15.2, independent of how the code writes them.\<close>

lemma header_read: "Get2Bytes d 2 = Some l \<Longrightarrow> 4 \<le> length d"
  using byte2.get_defined [of d 2] by auto

function find_attribute :: "u16 \<Rightarrow> bytes \<Rightarrow> bytes option" where
  "find_attribute t d = (case (Get2Bytes d 0, Get2Bytes d 2) of
     (Some t', Some l) \<Rightarrow> if t' = t then read_bytes d 4 (unat l) else find_attribute t (drop (4 + align4 (unat l)) d)
   | _ \<Rightarrow> None)"
  by pat_completeness auto
termination
  by (relation "measure (\<lambda>(t, d). length d)") (auto dest: header_read [OF sym])

declare find_attribute.simps [simp del]

definition read_xor_address :: "bytes \<Rightarrow> bytes \<Rightarrow> sockaddr option" where
  "read_xor_address tid v = do {
     family \<leftarrow> Get1Byte v 1;
     port \<leftarrow> Get2Bytes v 2;
     if family = 1 then do { a \<leftarrow> Get4Bytes v 4; Some (Sockaddr_in (port XOR 0x2112) (a XOR 0x2112A442)) }
     else if family = 2 then do {
       a \<leftarrow> Get4Bytes v 4; b \<leftarrow> Get4Bytes v 8; lo \<leftarrow> Get8Bytes v 12;
       t \<leftarrow> Get4Bytes tid 0; t' \<leftarrow> Get8Bytes tid 4;
       Some (Sockaddr_in6 (port XOR 0x2112) (push_bit 32 (ucast (a XOR 0x2112A442)) OR ucast (b XOR t)) (lo XOR t')) }
     else None }"

lemma find_attribute_encode:
  assumes "length v < 65536" "length pad = pad4 (length v)"
  shows "find_attribute t (encode_attribute (t', v, pad) @ ys) = (if t' = t then Some v else find_attribute t ys)"
proof -
  let ?d = "encode_attribute (t', v, pad) @ ys"
  have g: "Get2Bytes ?d 0 = Some t'" "Get2Bytes ?d 2 = Some (of_nat (length v))"
    using byte2.get_put byte2.get_put_mid [of "put2 t'" "of_nat (length v)" "v @ pad @ ys"] by (simp_all add: encode_attribute_def sizes)
  have l: "unat (of_nat (length v) :: u16) = length v" using assms by (simp add: unat_of_nat_less)
  have e: "?d = (put2 t' @ put2 (of_nat (length v))) @ v @ pad @ ys" by (simp add: encode_attribute_def)
  have "read_bytes ?d 4 (length v) = Some v" by (simp add: e read_bytes_def sizes)
  moreover have "drop (4 + align4 (length v)) ?d = ys" by (simp add: e align4_pad4 sizes assms)
  ultimately show ?thesis by (subst find_attribute.simps) (simp only: g l prod.case option.case)
qed

lemma find_attribute_entries:
  "list_all plain es \<Longrightarrow> t \<notin> fst ` fst ` set es \<Longrightarrow> find_attribute t (encode_entries es @ ys) = find_attribute t ys"
  by (induction es) (auto simp: find_attribute_encode plain_def split: prod.splits)

lemma xor_put:
  "map2 (XOR) (put2 v) (put2 w) = put2 (v XOR w)" "map2 (XOR) (put4 a) (put4 b) = put4 (a XOR b)"
  "map2 (XOR) (put8 x) (put8 y) = put8 (x XOR y)"
proof -
  have u: "(ucast (v XOR w) :: 'b::len word) = ucast v XOR ucast w" for v w :: "'a::len word" by (rule bit_word_eqI) (auto simp: bit_simps)
  show "map2 (XOR) (put2 v) (put2 w) = put2 (v XOR w)" and four: "map2 (XOR) (put4 a) (put4 b) = put4 (a XOR b)" for a b
    by (simp_all add: put2_def put4_def u)
  show "map2 (XOR) (put8 x) (put8 y) = put8 (x XOR y)" by (simp add: put8_def sizes four u)
qed

lemma cookie_words: "magicCookie = put4 0x2112A442" "take 2 (put4 0x2112A442) = put2 0x2112"
  by (simp_all add: magicCookie_def put4_def put2_def)

lemma read_xor_address:
  assumes "length tid = 12" "\<And>f. a \<noteq> Sockaddr_other f"
  shows "read_xor_address tid (xor_address tid a) = Some a"
proof (cases a)
  case (Sockaddr_in port n)
  have v: "xor_address tid a = ([0, 1] @ put2 (port XOR 0x2112)) @ put4 (n XOR 0x2112A442)"
    by (simp add: Sockaddr_in xor_put cookie_words)
  have "Get2Bytes (xor_address tid a) 2 = Some (port XOR 0x2112)" "Get4Bytes (xor_address tid a) 4 = Some (n XOR 0x2112A442)"
    using byte2.get_put_mid [of "[0, 1]" "port XOR 0x2112"] byte4.get_put_mid [of "[0, 1] @ put2 (port XOR 0x2112)" _ "[]"]
    by (simp_all add: v sizes eval_nat_numeral)
  moreover have "Get1Byte (xor_address tid a) 1 = Some 1" by (simp add: v Get1Byte_def)
  ultimately show ?thesis by (simp add: read_xor_address_def Sockaddr_in xor.assoc)
next
  case (Sockaddr_in6 port hi lo)
  obtain t t' where t: "Get4Bytes tid 0 = Some t" "Get8Bytes tid 4 = Some t'"
    using byte4.get_ex [of 0 tid] byte8.get_ex [of 4 tid] assms by auto
  have tid: "take 12 tid = put4 t @ put8 t'"
    using byte4.put_get [OF t(1)] byte8.put_get [of "drop 4 tid" t'] byte8.get_drop [of tid 4 0] t(2) assms(1)
      append_take_drop_id [of 4 tid] by simp
  let ?c = "(0x2112A442 :: u32)" and ?h = "ucast (drop_bit 32 hi) :: u32" and ?l = "ucast hi :: u32"
  have v: "xor_address tid a = ([0, 2] @ put2 (port XOR 0x2112)) @ put4 (?h XOR ?c) @ put4 (?l XOR t) @ put8 (lo XOR t')"
    unfolding Sockaddr_in6 xor_address.simps tid cookie_words put8_def [of hi]
    by (simp add: sizes xor_put)
  have g: "Get2Bytes (xor_address tid a) 2 = Some (port XOR 0x2112)" "Get4Bytes (xor_address tid a) 4 = Some (?h XOR ?c)"
      "Get4Bytes (xor_address tid a) 8 = Some (?l XOR t)" "Get8Bytes (xor_address tid a) 12 = Some (lo XOR t')"
      "Get1Byte (xor_address tid a) 1 = Some 2"
    using byte2.get_put_mid [of "[0, 2]" "port XOR 0x2112"] byte4.get_put_mid [of "[0, 2] @ put2 (port XOR 0x2112)"]
      byte4.get_put_mid [of "[0, 2] @ put2 (port XOR 0x2112) @ put4 (?h XOR ?c)"]
      byte8.get_put_mid [of "[0, 2] @ put2 (port XOR 0x2112) @ put4 (?h XOR ?c) @ put4 (?l XOR t)" _ "[]"]
    by (simp_all add: v sizes Get1Byte_def eval_nat_numeral)
  have "push_bit 32 (ucast ?h) OR ucast ?l = hi" by (rule bit_word_eqI) (auto simp: bit_simps)
  then show ?thesis by (simp only: read_xor_address_def g t bind.bind_lunit) (simp add: Sockaddr_in6 xor.assoc)
qed (use assms in simp)

lemma address_found:
  assumes tid: "length (transactionId p) = 12" and es: "es = packet_entries p pad" "list_all plain es" and a: "addXorMappedAddress p"
  shows "\<exists>v. find_attribute XOR_MAPPED_ADDRESS (encode_entries es @ ys) = Some v \<and>
    read_xor_address (transactionId p) v = xorMappedAddress p"
proof -
  let ?es1 = "entry_if (username p \<noteq> []) USERNAME (username p) pad (username_update (\<lambda>_. username p))
     @ entry_if (priority p \<noteq> 0) PRIORITY (put4 (priority p)) [] (priority_update (\<lambda>_. priority p))
     @ entry_if (iceControlling p \<noteq> 0) ICE_CONTROLLING (put8 (iceControlling p)) [] (iceControlling_update (\<lambda>_. iceControlling p))
     @ entry_if (iceControlled p \<noteq> 0) ICE_CONTROLLED (put8 (iceControlled p)) [] (iceControlled_update (\<lambda>_. iceControlled p))
     @ entry_if (hasUseCandidate p) USE_CANDIDATE [] [] (hasUseCandidate_update (\<lambda>_. True))"
  obtain es2 where es2: "es = ?es1 @ ((XOR_MAPPED_ADDRESS, address_value p, []), id) # es2"
    using a by (simp add: es(1) packet_entries_def entry_if_def [of True])
  have "XOR_MAPPED_ADDRESS \<notin> fst ` fst ` set (entry_if c t v q f)" if "t \<noteq> XOR_MAPPED_ADDRESS" for c t v q f
    using that by (auto simp: entry_if_def)
  then have other: "XOR_MAPPED_ADDRESS \<notin> fst ` fst ` set ?es1" by (simp only: set_append image_Un Un_iff) simp
  with es2 obtain es1 where split: "es = es1 @ ((XOR_MAPPED_ADDRESS, address_value p, []), id) # es2"
      "XOR_MAPPED_ADDRESS \<notin> fst ` fst ` set es1" by blast
  obtain b where b: "xorMappedAddress p = Some b" "\<And>f. b \<noteq> Sockaddr_other f"
    using a by (auto simp: addXorMappedAddress_def wants_address_def split: sockaddr.splits)
  have "list_all plain es1" "length (address_value p) < 65536" "pad4 (length (address_value p)) = 0"
    using es(2) by (auto simp: split plain_def)
  then have "find_attribute XOR_MAPPED_ADDRESS (encode_entries es @ ys) = Some (address_value p)"
    using split by (simp add: find_attribute_entries find_attribute_encode)
  then show ?thesis using read_xor_address [OF tid b(2)] b(1) by (simp add: address_value_def)
qed


definition sample_packet :: stun_packet where
  "sample_packet = (StunPacket_new REQUEST 1 (replicate 12 7) [] 0)
     \<lparr>username := [97, 58, 98], priority := 5, hasUseCandidate := True, stun_password := [99]\<rparr>"

definition sample_response :: stun_packet where
  "sample_response = (StunPacket_new SUCCESS_RESPONSE 1 (replicate 12 7) [] 0)
     \<lparr>xorMappedAddress := Some (Sockaddr_in6 5000 1 2), stun_password := [99]\<rparr>"

lemmas sample_packets = sample_packet_def sample_response_def StunPacket_new_def serialized_size_def usernamePaddedLen_def
  PadTo4Bytes16_def addMessageIntegrity_def addErrorCode_def addXorMappedAddress_def wants_address_def xorMappedAddressPaddedLen_def


end
