(* ===== verification/IceServer.thy ===== *)
theory IceServer
  imports StunPacket_Roundtrip
begin

text \<open>
  \<^verbatim>\<open>RTC::TransportTuple\<close> (\<^verbatim>\<open>include/RTC/TransportTuple.hpp\<close>) and \<^verbatim>\<open>RTC::IceServer\<close> (\<^verbatim>\<open>src/RTC/IceServer.cpp\<close>):
  the ICE-Lite server that answers STUN binding requests and chooses the tuple of a transport.

  A socket or TCP connection is known by the number of its object. The stored tuples are the nodes of a list,
  each with the number of its node, and \<open>selectedTuple\<close> is the number of one of them, so that the comparisons
  of pointers in the source are comparisons of numbers. \<open>None\<close> is a failed assertion or the use of a node
  that is not in the list any more. The calls of the listener are returned as a list of events. The
  thread-local \<open>StunSerializeBuffer\<close> is a field of the state.

  The invariant of the state machine is kept by every operation, so that no assertion of the source can
  fail; the listener's view of the server, which it builds from the events alone, agrees with the state;
  and only a request that is authentic under the current or the previous credentials changes the tuples.
\<close>

subsection \<open>Utils::IP::CompareAddresses, TransportTuple\<close>

fun CompareAddresses :: "sockaddr \<Rightarrow> sockaddr \<Rightarrow> bool" where
  "CompareAddresses (Sockaddr_in port1 a1) (Sockaddr_in port2 a2) \<longleftrightarrow> port1 = port2 \<and> a1 = a2"
| "CompareAddresses (Sockaddr_in6 port1 hi1 lo1) (Sockaddr_in6 port2 hi2 lo2) \<longleftrightarrow> port1 = port2 \<and> hi1 = hi2 \<and> lo1 = lo2"
| "CompareAddresses _ _ \<longleftrightarrow> False"

datatype Protocol = UDP | TCP

record transport_tuple =
  tuple_protocol :: Protocol
  udpSocket :: nat
  udpRemoteAddr :: sockaddr
  tcpConnection :: nat
  tcpPeerAddr :: sockaddr

definition GetRemoteAddress :: "transport_tuple \<Rightarrow> sockaddr" where
  "GetRemoteAddress t = (if tuple_protocol t = UDP then udpRemoteAddr t else tcpPeerAddr t)"

definition tuple_Compare :: "transport_tuple \<Rightarrow> transport_tuple \<Rightarrow> bool" where
  "tuple_Compare a b =
     (if tuple_protocol a = UDP \<and> tuple_protocol b = UDP
      then udpSocket a = udpSocket b \<and> CompareAddresses (udpRemoteAddr a) (GetRemoteAddress b)
      else if tuple_protocol a = TCP \<and> tuple_protocol b = TCP then tcpConnection a = tcpConnection b
      else False)"

subsection \<open>State\<close>

datatype IceState = ICE_NEW | ICE_CONNECTED | ICE_COMPLETED | ICE_DISCONNECTED

datatype ice_event =
    OnIceServerSendStunPacket stun_packet transport_tuple
  | OnIceServerSelectedTuple transport_tuple
  | OnIceServerConnected
  | OnIceServerCompleted
  | OnIceServerDisconnected

record ice_server =
  usernameFragment :: bytes
  ice_password :: bytes
  oldUsernameFragment :: bytes
  oldPassword :: bytes
  ice_state :: IceState
  tuples :: "(nat \<times> transport_tuple) list"
  selectedTuple :: "nat option"
  next_node :: nat
  StunSerializeBuffer :: bytes

definition IceServer_new :: "bytes \<Rightarrow> bytes \<Rightarrow> bytes \<Rightarrow> ice_server" where
  "IceServer_new u pw buf =
     \<lparr>usernameFragment = u, ice_password = pw, oldUsernameFragment = [], oldPassword = [], ice_state = ICE_NEW,
      tuples = [], selectedTuple = None, next_node = 0, StunSerializeBuffer = buf\<rparr>"

definition SetUsernameFragment :: "bytes \<Rightarrow> ice_server \<Rightarrow> ice_server" where
  "SetUsernameFragment u s = s\<lparr>oldUsernameFragment := usernameFragment s, usernameFragment := u\<rparr>"

definition SetPassword :: "bytes \<Rightarrow> ice_server \<Rightarrow> ice_server" where
  "SetPassword pw s = s\<lparr>oldPassword := ice_password s, ice_password := pw\<rparr>"

subsection \<open>Tuples\<close>

definition AddTuple :: "transport_tuple \<Rightarrow> ice_server \<Rightarrow> nat \<times> ice_server" where
  "AddTuple t s = (next_node s, s\<lparr>tuples := (next_node s, t) # tuples s, next_node := next_node s + 1\<rparr>)"

definition HasTuple :: "transport_tuple \<Rightarrow> ice_server \<Rightarrow> nat option option" where
  "HasTuple t s = (case selectedTuple s of
       None \<Rightarrow> Some None
     | Some i \<Rightarrow> do {
         st \<leftarrow> map_of (tuples s) i;
         if tuple_Compare st t then Some (Some i)
         else Some (map_option fst (find (\<lambda>(_, st). tuple_Compare st t) (tuples s))) })"

definition IsValidTuple :: "transport_tuple \<Rightarrow> ice_server \<Rightarrow> bool option" where
  "IsValidTuple t s = map_option (\<lambda>r. r \<noteq> None) (HasTuple t s)"

definition SetSelectedTuple :: "nat \<Rightarrow> ice_server \<Rightarrow> (ice_server \<times> ice_event list) option" where
  "SetSelectedTuple i s =
     (if selectedTuple s = Some i then Some (s, [])
      else do {
        st \<leftarrow> map_of (tuples s) i;
        Some (s\<lparr>selectedTuple := Some i\<rparr>, [OnIceServerSelectedTuple st]) })"

fun erase_node :: "nat \<Rightarrow> (nat \<times> transport_tuple) list \<Rightarrow> (nat \<times> transport_tuple) list" where
  "erase_node i [] = []"
| "erase_node i ((j, t) # l) = (if i = j then l else (j, t) # erase_node i l)"

definition RemoveTuple :: "transport_tuple \<Rightarrow> ice_server \<Rightarrow> (ice_server \<times> ice_event list) option" where
  "RemoveTuple t s = (case find (\<lambda>(_, st). tuple_Compare st t) (tuples s) of
       None \<Rightarrow> Some (s, [])
     | Some (removed, _) \<Rightarrow>
         let s = s\<lparr>tuples := erase_node removed (tuples s)\<rparr> in
         if selectedTuple s \<noteq> Some removed then Some (s, [])
         else
           let s = s\<lparr>selectedTuple := None\<rparr> in
           case tuples s of
             (i, _) # _ \<Rightarrow> SetSelectedTuple i s
           | [] \<Rightarrow> Some (s\<lparr>ice_state := ICE_DISCONNECTED\<rparr>, [OnIceServerDisconnected]))"

definition ForceSelectedTuple :: "transport_tuple \<Rightarrow> ice_server \<Rightarrow> (ice_server \<times> ice_event list) option" where
  "ForceSelectedTuple t s =
     (if selectedTuple s = None then None
      else do {
        r \<leftarrow> HasTuple t s;
        i \<leftarrow> r;
        SetSelectedTuple i s })"

text \<open>The two branches of \<^verbatim>\<open>HandleTuple\<close> that start from no tuple, and those that start from some.\<close>

definition first_tuple :: "transport_tuple \<Rightarrow> bool \<Rightarrow> ice_server \<Rightarrow> (ice_server \<times> ice_event list) option" where
  "first_tuple t useCandidate s =
     (if tuples s \<noteq> [] \<or> selectedTuple s \<noteq> None then None
      else do {
        let (i, s) = AddTuple t s;
        (s, evs) \<leftarrow> SetSelectedTuple i s;
        Some (if \<not> useCandidate then (s\<lparr>ice_state := ICE_CONNECTED\<rparr>, evs @ [OnIceServerConnected])
              else (s\<lparr>ice_state := ICE_COMPLETED\<rparr>, evs @ [OnIceServerCompleted])) })"

definition store_if_new :: "transport_tuple \<Rightarrow> ice_server \<Rightarrow> (nat \<times> ice_server) option" where
  "store_if_new t s = do {
     r \<leftarrow> HasTuple t s;
     Some (case r of Some i \<Rightarrow> (i, s) | None \<Rightarrow> AddTuple t s) }"

definition HandleTuple :: "transport_tuple \<Rightarrow> bool \<Rightarrow> ice_server \<Rightarrow> (ice_server \<times> ice_event list) option" where
  "HandleTuple t useCandidate s = (case ice_state s of
       ICE_NEW \<Rightarrow> first_tuple t useCandidate s
     | ICE_DISCONNECTED \<Rightarrow> first_tuple t useCandidate s
     | ICE_CONNECTED \<Rightarrow>
         if tuples s = [] \<or> selectedTuple s = None then None
         else do {
           (i, s) \<leftarrow> store_if_new t s;
           if \<not> useCandidate then Some (s, [])
           else do {
             (s, evs) \<leftarrow> SetSelectedTuple i s;
             Some (s\<lparr>ice_state := ICE_COMPLETED\<rparr>, evs @ [OnIceServerCompleted]) } }
     | ICE_COMPLETED \<Rightarrow>
         if tuples s = [] \<or> selectedTuple s = None then None
         else do {
           (i, s) \<leftarrow> store_if_new t s;
           if \<not> useCandidate then Some (s, []) else SetSelectedTuple i s })"

subsection \<open>Requests\<close>

definition send_response ::
  "hmac_sha1 \<Rightarrow> stun_packet \<Rightarrow> transport_tuple \<Rightarrow> ice_server \<Rightarrow> (ice_server \<times> ice_event list) option" where
  "send_response hmac response t s = do {
     response \<leftarrow> StunPacket_Serialize hmac (StunSerializeBuffer s) response;
     Some (s\<lparr>StunSerializeBuffer := stun_data response\<rparr>, [OnIceServerSendStunPacket response t]) }"

definition reply_error ::
  "hmac_sha1 \<Rightarrow> u16 \<Rightarrow> stun_packet \<Rightarrow> transport_tuple \<Rightarrow> ice_server \<Rightarrow> (ice_server \<times> ice_event list) option" where
  "reply_error hmac code packet t s = do {
     response \<leftarrow> CreateErrorResponse code packet;
     send_response hmac response t s }"

text \<open>The branches behind the authentication of a request.\<close>

definition process_authentic ::
  "hmac_sha1 \<Rightarrow> stun_packet \<Rightarrow> transport_tuple \<Rightarrow> ice_server \<Rightarrow> (ice_server \<times> ice_event list) option" where
  "process_authentic hmac packet t s =
     (if iceControlled packet \<noteq> 0 then reply_error hmac 487 packet t s
      else do {
        response \<leftarrow> CreateSuccessResponse packet;
        let response = response\<lparr>xorMappedAddress := Some (GetRemoteAddress t)\<rparr>;
        let response = Authenticate (if oldPassword s = [] then ice_password s else oldPassword s) response;
        (s, evs1) \<leftarrow> send_response hmac response t s;
        (s, evs2) \<leftarrow> HandleTuple t (hasUseCandidate packet) s;
        Some (s, evs1 @ evs2) })"

definition process_request ::
  "hmac_sha1 \<Rightarrow> stun_packet \<Rightarrow> transport_tuple \<Rightarrow> ice_server \<Rightarrow> (ice_server \<times> ice_event list) option" where
  "process_request hmac packet t s =
     (if messageIntegrity packet = None \<or> priority packet = 0 \<or> username packet = [] then reply_error hmac 400 packet t s
      else do {
        (auth, packet) \<leftarrow> CheckAuthentication hmac (usernameFragment s) (ice_password s) packet;
        case auth of
          AUTH_OK \<Rightarrow>
            process_authentic hmac packet t
              (if oldPassword s \<noteq> [] then s\<lparr>oldUsernameFragment := [], oldPassword := []\<rparr> else s)
        | UNAUTHORIZED \<Rightarrow>
            if oldUsernameFragment s \<noteq> [] \<and> oldPassword s \<noteq> [] then do {
              (auth, packet) \<leftarrow> CheckAuthentication hmac (oldUsernameFragment s) (oldPassword s) packet;
              if auth = AUTH_OK then process_authentic hmac packet t s else reply_error hmac 401 packet t s }
            else reply_error hmac 401 packet t s
        | BAD_REQUEST \<Rightarrow> reply_error hmac 400 packet t s })"

definition ProcessStunPacket ::
  "hmac_sha1 \<Rightarrow> stun_packet \<Rightarrow> transport_tuple \<Rightarrow> ice_server \<Rightarrow> (ice_server \<times> ice_event list) option" where
  "ProcessStunPacket hmac packet t s =
     (if stun_method packet \<noteq> BINDING then
        (if klass packet = REQUEST then reply_error hmac 400 packet t s else Some (s, []))
      else if \<not> hasFingerprint packet \<and> klass packet \<noteq> INDICATION then
        (if klass packet = REQUEST then reply_error hmac 400 packet t s else Some (s, []))
      else case klass packet of
          REQUEST \<Rightarrow> process_request hmac packet t s
        | INDICATION \<Rightarrow> Some (s, [])
        | SUCCESS_RESPONSE \<Rightarrow> Some (s, [])
        | ERROR_RESPONSE \<Rightarrow> Some (s, []))"

subsection \<open>The stored nodes\<close>

lemma CompareAddresses_sym: "CompareAddresses a b \<longleftrightarrow> CompareAddresses b a"
  by (cases a; cases b) auto

lemma tuple_Compare_sym: "tuple_Compare a b \<longleftrightarrow> tuple_Compare b a"
  by (auto simp: tuple_Compare_def GetRemoteAddress_def CompareAddresses_sym)

text \<open>The nodes have different numbers, no two stored tuples compare equal, and the selected tuple is stored.\<close>

definition nodes_ok :: "ice_server \<Rightarrow> bool" where
  "nodes_ok s \<longleftrightarrow> distinct (map fst (tuples s)) \<and> (\<forall>i\<in>fst ` set (tuples s). i < next_node s) \<and>
     sorted_wrt (\<lambda>a b. \<not> tuple_Compare (snd a) (snd b)) (tuples s) \<and>
     (\<forall>i. selectedTuple s = Some i \<longrightarrow> i \<in> fst ` set (tuples s))"

definition selected_value :: "ice_server \<Rightarrow> transport_tuple option" where
  "selected_value s = Option.bind (selectedTuple s) (map_of (tuples s))"

lemma map_of_node: "i \<in> fst ` set l \<Longrightarrow> \<exists>t. map_of l i = Some t"
  by (metis domD dom_map_of_conv_image_fst)

lemma find_SomeD: "find P l = Some x \<Longrightarrow> x \<in> set l \<and> P x"
  by (metis find_Some_iff nth_mem)

lemma HasTuple_ok:
  assumes "nodes_ok s"
  shows "\<exists>r. HasTuple t s = Some r \<and> (\<forall>i. r = Some i \<longrightarrow> (\<exists>st. map_of (tuples s) i = Some st \<and> tuple_Compare st t)) \<and>
     (r = None \<longrightarrow> selectedTuple s = None \<or> (\<forall>a\<in>set (tuples s). \<not> tuple_Compare (snd a) t))"
proof (cases "selectedTuple s")
  case None
  then show ?thesis by (simp add: HasTuple_def)
next
  case (Some k)
  then obtain st where st: "map_of (tuples s) k = Some st" using assms map_of_node by (fastforce simp: nodes_ok_def)
  show ?thesis
  proof (cases "find (\<lambda>(_, st). tuple_Compare st t) (tuples s)")
    case None
    then have "\<forall>a\<in>set (tuples s). \<not> tuple_Compare (snd a) t" by (auto simp: find_None_iff)
    then show ?thesis using Some st None by (auto simp: HasTuple_def)
  next
    case f: (Some a)
    then have "a \<in> set (tuples s)" "tuple_Compare (snd a) t" by (auto dest: find_SomeD)
    moreover from this(1) have "map_of (tuples s) (fst a) = Some (snd a)"
      using assms by (simp add: nodes_ok_def map_of_is_SomeI)
    ultimately show ?thesis using Some st f by (auto simp: HasTuple_def)
  qed
qed

lemma AddTuple_ok:
  assumes "nodes_ok s" "\<forall>a\<in>set (tuples s). \<not> tuple_Compare (snd a) t" "AddTuple t s = (i, s')"
  shows "nodes_ok s'" "map_of (tuples s') i = Some t" "selected_value s' = selected_value s"
    "s' = s\<lparr>tuples := tuples s', next_node := next_node s'\<rparr>"
proof -
  have i: "i = next_node s" and s': "s' = s\<lparr>tuples := (next_node s, t) # tuples s, next_node := next_node s + 1\<rparr>"
    using assms(3) by (auto simp: AddTuple_def)
  have fresh: "next_node s \<notin> fst ` set (tuples s)" using assms(1) by (auto simp: nodes_ok_def)
  show "nodes_ok s'" using assms(1,2) fresh by (auto simp: s' nodes_ok_def tuple_Compare_sym [of t])
  show "map_of (tuples s') i = Some t" by (simp add: s' i)
  show "s' = s\<lparr>tuples := tuples s', next_node := next_node s'\<rparr>" by (simp add: s')
  show "selected_value s' = selected_value s"
    using assms(1) fresh by (cases "selectedTuple s") (auto simp: selected_value_def s' nodes_ok_def)
qed

text \<open>What the listener knows: the state and the selected tuple, from the events alone.\<close>

type_synonym ice_view = "IceState \<times> transport_tuple option"

fun see :: "ice_event \<Rightarrow> ice_view \<Rightarrow> ice_view" where
  "see (OnIceServerSendStunPacket _ _) v = v"
| "see (OnIceServerSelectedTuple t) v = (fst v, Some t)"
| "see OnIceServerConnected v = (ICE_CONNECTED, snd v)"
| "see OnIceServerCompleted v = (ICE_COMPLETED, snd v)"
| "see OnIceServerDisconnected v = (ICE_DISCONNECTED, None)"

definition view_of :: "ice_server \<Rightarrow> ice_view" where
  "view_of s = (ice_state s, selected_value s)"

lemma SetSelectedTuple_ok:
  assumes "nodes_ok s" "map_of (tuples s) i = Some st"
  obtains evs where "SetSelectedTuple i s = Some (s\<lparr>selectedTuple := Some i\<rparr>, evs)" "nodes_ok (s\<lparr>selectedTuple := Some i\<rparr>)"
    "selected_value (s\<lparr>selectedTuple := Some i\<rparr>) = Some st" "fold see evs (x, selected_value s) = (x, Some st)"
    "\<forall>v. fst (fold see evs v) = fst v"
proof -
  have "i \<in> fst ` set (tuples s)" using assms(2) by (metis domI dom_map_of_conv_image_fst)
  then have "nodes_ok (s\<lparr>selectedTuple := Some i\<rparr>)" using assms(1) by (auto simp: nodes_ok_def)
  moreover have "selected_value (s\<lparr>selectedTuple := Some i\<rparr>) = Some st" using assms(2) by (simp add: selected_value_def)
  moreover have "selectedTuple s = Some i \<Longrightarrow> SetSelectedTuple i s = Some (s\<lparr>selectedTuple := Some i\<rparr>, [])"
    "selectedTuple s = Some i \<Longrightarrow> selected_value s = Some st"
    "selectedTuple s \<noteq> Some i \<Longrightarrow> SetSelectedTuple i s = Some (s\<lparr>selectedTuple := Some i\<rparr>, [OnIceServerSelectedTuple st])"
    using assms(2) by (simp_all add: SetSelectedTuple_def selected_value_def)
  ultimately show thesis
    using that [of "[]"] that [of "[OnIceServerSelectedTuple st]"] by (cases "selectedTuple s = Some i") auto
qed

lemma store_if_new_ok:
  assumes "nodes_ok s" "selectedTuple s \<noteq> None"
  obtains i s' st where "store_if_new t s = Some (i, s')" "nodes_ok s'" "map_of (tuples s') i = Some st"
    "tuple_Compare st t \<or> st = t" "selected_value s' = selected_value s" "s' = s\<lparr>tuples := tuples s', next_node := next_node s'\<rparr>"
proof -
  obtain r where r: "HasTuple t s = Some r"
    "\<forall>i. r = Some i \<longrightarrow> (\<exists>st. map_of (tuples s) i = Some st \<and> tuple_Compare st t)"
    "r = None \<longrightarrow> selectedTuple s = None \<or> (\<forall>a\<in>set (tuples s). \<not> tuple_Compare (snd a) t)"
    using HasTuple_ok [OF assms(1)] by blast
  show thesis
  proof (cases r)
    case (Some i)
    then show thesis using r that [of i s] assms(1) by (auto simp: store_if_new_def)
  next
    case None
    obtain i s' where a: "AddTuple t s = (i, s')" by force
    show thesis
      using that [of i s' t] AddTuple_ok [OF assms(1) _ a] r None assms(2) a by (simp add: store_if_new_def)
  qed
qed

subsection \<open>The state machine\<close>

definition ice_inv :: "ice_server \<Rightarrow> bool" where
  "ice_inv s \<longleftrightarrow> nodes_ok s \<and> length (StunSerializeBuffer s) = 65536 \<and>
     (if ice_state s = ICE_NEW \<or> ice_state s = ICE_DISCONNECTED then tuples s = [] \<and> selectedTuple s = None
      else selectedTuple s \<noteq> None)"

text \<open>An operation ends without a failed assertion, keeps the invariant and tells the listener what changed.\<close>

definition ok_step :: "ice_server \<Rightarrow> (ice_server \<times> ice_event list) option \<Rightarrow> bool" where
  "ok_step s r \<longleftrightarrow> (\<exists>s' evs. r = Some (s', evs) \<and> ice_inv s' \<and> fold see evs (view_of s) = view_of s')"

lemma ice_inv_selected: "ice_inv s \<Longrightarrow> selectedTuple s \<noteq> None \<Longrightarrow> tuples s \<noteq> []"
  by (auto simp: ice_inv_def nodes_ok_def)

lemma first_tuple_ok:
  assumes "ice_inv s" "ice_state s = ICE_NEW \<or> ice_state s = ICE_DISCONNECTED"
  obtains s' evs i where "first_tuple t c s = Some (s', evs)" "ice_inv s'" "fold see evs (view_of s) = view_of s'"
    "selected_value s' = Some t" "tuples s' = [(i, t)]" "ice_state s' = (if c then ICE_COMPLETED else ICE_CONNECTED)"
proof -
  have e: "tuples s = []" "selectedTuple s = None" "nodes_ok s" "length (StunSerializeBuffer s) = 65536"
    using assms by (auto simp: ice_inv_def)
  obtain i s1 where a: "AddTuple t s = (i, s1)" by force
  then have s1: "nodes_ok s1" "map_of (tuples s1) i = Some t" "selected_value s1 = selected_value s"
      "s1 = s\<lparr>tuples := tuples s1, next_node := next_node s1\<rparr>" "tuples s1 = [(i, t)]"
    using AddTuple_ok [OF e(3) _ a] e(1) by (auto simp: AddTuple_def)
  obtain evs where ev: "SetSelectedTuple i s1 = Some (s1\<lparr>selectedTuple := Some i\<rparr>, evs)" "nodes_ok (s1\<lparr>selectedTuple := Some i\<rparr>)"
      "fold see evs (ice_state s, selected_value s1) = (ice_state s, Some t)"
    using SetSelectedTuple_ok [OF s1(1,2), where x = "ice_state s"] by metis
  let ?s = "s1\<lparr>selectedTuple := Some i, ice_state := if c then ICE_COMPLETED else ICE_CONNECTED\<rparr>"
  have buf: "StunSerializeBuffer s1 = StunSerializeBuffer s" using a by (auto simp: AddTuple_def)
  have "ice_inv ?s" using ev(2) e(4) buf by (simp add: ice_inv_def nodes_ok_def)
  moreover have "first_tuple t c s = Some (?s, evs @ [if c then OnIceServerCompleted else OnIceServerConnected])"
    using e a ev(1) by (simp add: first_tuple_def)
  moreover have "selected_value ?s = Some t" using s1(2) by (simp add: selected_value_def)
  moreover have "fold see (evs @ [if c then OnIceServerCompleted else OnIceServerConnected]) (view_of s) = view_of ?s"
    using ev(3) s1(3) \<open>selected_value ?s = Some t\<close> by (simp add: view_of_def)
  ultimately show thesis using that s1(5) by simp
qed

lemma later_tuple_ok:
  assumes inv: "ice_inv s" and st: "ice_state s = ICE_CONNECTED \<or> ice_state s = ICE_COMPLETED"
  obtains s' evs i u where "HandleTuple t c s = Some (s', evs)" "ice_inv s'" "fold see evs (view_of s) = view_of s'"
    "map_of (tuples s') i = Some u" "tuple_Compare u t \<or> u = t"
    "c \<longrightarrow> selectedTuple s' = Some i \<and> ice_state s' = ICE_COMPLETED"
proof -
  have sel: "selectedTuple s \<noteq> None" "nodes_ok s" "length (StunSerializeBuffer s) = 65536"
    using inv st by (auto simp: ice_inv_def)
  have ne: "tuples s \<noteq> []" using ice_inv_selected [OF inv sel(1)] .
  obtain i s1 u where s1: "store_if_new t s = Some (i, s1)" "nodes_ok s1" "map_of (tuples s1) i = Some u"
      "tuple_Compare u t \<or> u = t" "selected_value s1 = selected_value s" "s1 = s\<lparr>tuples := tuples s1, next_node := next_node s1\<rparr>"
    using store_if_new_ok [OF sel(2,1)] by metis
  have keep: "ice_state s1 = ice_state s" "selectedTuple s1 = selectedTuple s" "StunSerializeBuffer s1 = StunSerializeBuffer s"
    by (subst s1(6), simp)+
  obtain evs where ev: "SetSelectedTuple i s1 = Some (s1\<lparr>selectedTuple := Some i\<rparr>, evs)" "nodes_ok (s1\<lparr>selectedTuple := Some i\<rparr>)"
      "selected_value (s1\<lparr>selectedTuple := Some i\<rparr>) = Some u"
      "fold see evs (ice_state s, selected_value s1) = (ice_state s, Some u)"
    using SetSelectedTuple_ok [OF s1(2,3), where x = "ice_state s"] by metis
  let ?s = "s1\<lparr>selectedTuple := Some i, ice_state := ICE_COMPLETED\<rparr>"
  have nok: "nodes_ok ?s" using ev(2) by (simp add: nodes_ok_def)
  have val: "selected_value ?s = Some u" using ev(3) by (simp add: selected_value_def)
  show thesis
  proof (cases c)
    case False
    have "HandleTuple t c s = Some (s1, [])" using st ne sel s1(1) False by (auto simp: HandleTuple_def)
    moreover have "ice_inv s1" using s1(2) keep sel st by (auto simp: ice_inv_def)
    moreover have "view_of s = view_of s1" using keep s1(5) by (simp add: view_of_def)
    ultimately show thesis using that [of s1 "[]" i u] s1 False by simp
  next
    case True
    have inv': "ice_inv ?s" using nok keep sel by (simp add: ice_inv_def)
    show thesis
    proof (cases "ice_state s = ICE_CONNECTED")
      case con: True
      have "HandleTuple t c s = Some (?s, evs @ [OnIceServerCompleted])"
        using con ne sel s1(1) ev(1) True by (auto simp: HandleTuple_def)
      then show thesis
        using that [of ?s "evs @ [OnIceServerCompleted]" i u] inv' s1(3,4,5) ev(4) val by (simp add: view_of_def)
    next
      case False
      then have com: "ice_state s = ICE_COMPLETED" using st by simp
      then have same: "s1\<lparr>selectedTuple := Some i\<rparr> = ?s" using keep(1) by simp
      have "HandleTuple t c s = Some (?s, evs)" using com ne sel s1(1) ev(1) True same by (auto simp: HandleTuple_def)
      then show thesis using that [of ?s evs i u] inv' s1(3,4,5) ev(4) val com by (simp add: view_of_def)
    qed
  qed
qed

lemma HandleTuple_ok:
  assumes inv: "ice_inv s"
  obtains s' evs i u where "HandleTuple t c s = Some (s', evs)" "ice_inv s'" "fold see evs (view_of s) = view_of s'"
    "map_of (tuples s') i = Some u" "tuple_Compare u t \<or> u = t"
    "c \<longrightarrow> selectedTuple s' = Some i \<and> ice_state s' = ICE_COMPLETED"
proof (cases "ice_state s = ICE_CONNECTED \<or> ice_state s = ICE_COMPLETED")
  case True
  show thesis by (rule later_tuple_ok [OF inv True]) (rule that)
next
  case False
  then have new: "ice_state s = ICE_NEW \<or> ice_state s = ICE_DISCONNECTED" by (cases "ice_state s") auto
  obtain s' evs i where f: "first_tuple t c s = Some (s', evs)" "ice_inv s'" "fold see evs (view_of s) = view_of s'"
    "selected_value s' = Some t" "tuples s' = [(i, t)]" "ice_state s' = (if c then ICE_COMPLETED else ICE_CONNECTED)"
    using first_tuple_ok [OF inv new] by metis
  moreover have "selectedTuple s' = Some i"
    using f(4,5) by (cases "selectedTuple s'") (auto simp: selected_value_def split: if_splits)
  moreover have "HandleTuple t c s = first_tuple t c s" using new by (auto simp: HandleTuple_def)
  ultimately show thesis using that [of s' evs i t] by simp
qed

lemma erase_node_subset: "set (erase_node i l) \<subseteq> set l"
  by (induction l) (auto split: if_splits)

lemma erase_node_set:
  "distinct (map fst l) \<Longrightarrow> set (erase_node i l) = {a \<in> set l. fst a \<noteq> i}"
  by (induction l) force+

lemma erase_node_distinct: "distinct (map fst l) \<Longrightarrow> distinct (map fst (erase_node i l))"
proof (induction l)
  case (Cons a l)
  then show ?case using erase_node_subset [of i l] by (cases a) (auto simp: image_iff)
qed simp

lemma erase_node_sorted_wrt: "sorted_wrt R l \<Longrightarrow> sorted_wrt R (erase_node i l)"
proof (induction l)
  case (Cons a l)
  then show ?case using erase_node_subset [of i l] by (cases a) auto
qed simp

lemma map_of_erase_node: "i \<noteq> j \<Longrightarrow> map_of (erase_node i l) j = map_of l j"
  by (induction l) auto

lemma RemoveTuple_ok:
  assumes inv: "ice_inv s"
  shows "ok_step s (RemoveTuple t s)"
proof (cases "find (\<lambda>(_, st). tuple_Compare st t) (tuples s)")
  case None
  then show ?thesis using inv by (simp add: RemoveTuple_def ok_step_def)
next
  case (Some a)
  then obtain k st where a: "a = (k, st)" "(k, st) \<in> set (tuples s)" by (cases a) (auto dest: find_SomeD)
  have n: "nodes_ok s" and buf: "length (StunSerializeBuffer s) = 65536"
    and state: "ice_state s = ICE_CONNECTED \<or> ice_state s = ICE_COMPLETED" and sel: "selectedTuple s \<noteq> None"
    using inv a(2) by (cases "ice_state s"; auto simp: ice_inv_def)+
  let ?l = "erase_node k (tuples s)"
  have l: "distinct (map fst ?l)" "sorted_wrt (\<lambda>a b. \<not> tuple_Compare (snd a) (snd b)) ?l"
      "set ?l = {b \<in> set (tuples s). fst b \<noteq> k}"
    using n by (auto simp: nodes_ok_def erase_node_distinct erase_node_sorted_wrt erase_node_set)
  show ?thesis
  proof (cases "selectedTuple s = Some k")
    case False
    let ?s = "s\<lparr>tuples := ?l\<rparr>"
    have "RemoveTuple t s = Some (?s, [])" using Some a False by (simp add: RemoveTuple_def)
    moreover have "ice_inv ?s" using n l buf state sel False by (auto simp: ice_inv_def nodes_ok_def)
    moreover have "view_of ?s = view_of s"
      using False sel by (auto simp: view_of_def selected_value_def map_of_erase_node)
    ultimately show ?thesis by (simp add: ok_step_def)
  next
    case True
    let ?s = "s\<lparr>tuples := ?l, selectedTuple := None\<rparr>"
    show ?thesis
    proof (cases ?l)
      case Nil
      then have "RemoveTuple t s = Some (?s\<lparr>ice_state := ICE_DISCONNECTED\<rparr>, [OnIceServerDisconnected])"
        using Some a True by (simp add: RemoveTuple_def)
      moreover have "ice_inv (?s\<lparr>ice_state := ICE_DISCONNECTED\<rparr>)" using Nil buf by (simp add: ice_inv_def nodes_ok_def)
      ultimately show ?thesis by (simp add: ok_step_def view_of_def selected_value_def)
    next
      case (Cons b l')
      obtain i u where b: "b = (i, u)" by force
      have "nodes_ok ?s" using n l by (auto simp: nodes_ok_def)
      moreover have "map_of (tuples ?s) i = Some u" using Cons b by simp
      ultimately obtain evs where ev: "SetSelectedTuple i ?s = Some (?s\<lparr>selectedTuple := Some i\<rparr>, evs)"
          "nodes_ok (?s\<lparr>selectedTuple := Some i\<rparr>)" "selected_value (?s\<lparr>selectedTuple := Some i\<rparr>) = Some u"
        by (rule SetSelectedTuple_ok)
      moreover have "evs = [OnIceServerSelectedTuple u]" using ev(1) Cons b by (simp add: SetSelectedTuple_def)
      moreover have "RemoveTuple t s = SetSelectedTuple i ?s" using Some a True Cons b by (simp add: RemoveTuple_def)
      moreover have "ice_inv (?s\<lparr>selectedTuple := Some i\<rparr>)" using ev(2) buf state by (auto simp: ice_inv_def)
      ultimately show ?thesis by (simp add: ok_step_def view_of_def)
    qed
  qed
qed

lemma ForceSelectedTuple_ok:
  assumes inv: "ice_inv s" and valid: "IsValidTuple t s = Some True"
  shows "ok_step s (ForceSelectedTuple t s)"
proof -
  have n: "nodes_ok s" "length (StunSerializeBuffer s) = 65536" using inv by (auto simp: ice_inv_def)
  obtain i st where i: "HasTuple t s = Some (Some i)" "map_of (tuples s) i = Some st"
    using valid HasTuple_ok [OF n(1), of t] by (auto simp: IsValidTuple_def)
  have sel: "selectedTuple s \<noteq> None" using i(1) by (auto simp: HasTuple_def split: option.splits)
  obtain evs where ev: "SetSelectedTuple i s = Some (s\<lparr>selectedTuple := Some i\<rparr>, evs)" "nodes_ok (s\<lparr>selectedTuple := Some i\<rparr>)"
      "selected_value (s\<lparr>selectedTuple := Some i\<rparr>) = Some st" "fold see evs (ice_state s, selected_value s) = (ice_state s, Some st)"
    using SetSelectedTuple_ok [OF n(1) i(2), where x = "ice_state s"] by metis
  have "ice_inv (s\<lparr>selectedTuple := Some i\<rparr>)" using ev(2) n inv sel by (auto simp: ice_inv_def split: if_splits)
  then show ?thesis using i sel ev by (auto simp: ForceSelectedTuple_def ok_step_def view_of_def)
qed

subsection \<open>Answers\<close>

text \<open>A response without a user name fits the buffer whatever it held.\<close>

lemma send_response_ok:
  assumes inv: "ice_inv s" and hmac: "\<And>k m. length (hmac k m) = 20"
    and r: "length (transactionId r) = 12" "username r = []" "priority r = 0" "iceControlling r = 0" "iceControlled r = 0"
      "\<not> hasUseCandidate r"
  obtains buf q where "send_response hmac r t s = Some (s\<lparr>StunSerializeBuffer := buf\<rparr>, [OnIceServerSendStunPacket q t])"
    "ice_inv (s\<lparr>StunSerializeBuffer := buf\<rparr>)" "klass q = klass r" "transactionId q = transactionId r"
    "stun_password q = stun_password r" "errorCode q = errorCode r" "xorMappedAddress q = xorMappedAddress r"
proof -
  have "unat (xorMappedAddressPaddedLen r) \<le> 20"
    by (simp add: xorMappedAddressPaddedLen_def split: option.splits sockaddr.splits)
  then have size: "serialized_size r \<le> length (StunSerializeBuffer s)"
    using inv r by (simp add: serialized_size_def ice_inv_def)
  note eq = StunPacket_Serialize_eq [where hmac = hmac, OF r(1) _ hmac size]
  obtain q where q: "StunPacket_Serialize hmac (StunSerializeBuffer s) r = Some q" "klass q = klass r"
      "transactionId q = transactionId r" "stun_password q = stun_password r" "errorCode q = errorCode r"
      "xorMappedAddress q = xorMappedAddress r" "length (stun_data q) = length (StunSerializeBuffer s)"
  proof -
    let ?m = "message_bytes hmac r (packet_body r (StunSerializeBuffer s))"
    have b: "length (packet_body r (StunSerializeBuffer s)) = body_size r" using eq(2) r by simp
    have "length (?m @ fingerprint_bytes ?m @ drop (serialized_size r) (StunSerializeBuffer s)) = length (StunSerializeBuffer s)"
      using length_message_parts(2,3) [where hmac = hmac, OF r(1) _ hmac b] r(2) size by simp
    then show thesis using that eq(1) r by simp
  qed
  show thesis
  proof (rule that)
    show "send_response hmac r t s = Some (s\<lparr>StunSerializeBuffer := stun_data q\<rparr>, [OnIceServerSendStunPacket q t])"
      using q(1) by (simp add: send_response_def)
    show "ice_inv (s\<lparr>StunSerializeBuffer := stun_data q\<rparr>)" using inv q(7) by (auto simp: ice_inv_def nodes_ok_def)
  qed (use q in simp_all)
qed

lemma reply_error_ok:
  assumes inv: "ice_inv s" and hmac: "\<And>k m. length (hmac k m) = 20" and p: "klass p = REQUEST" "length (transactionId p) = 12"
  obtains buf q where "reply_error hmac code p t s = Some (s\<lparr>StunSerializeBuffer := buf\<rparr>, [OnIceServerSendStunPacket q t])"
    "ice_inv (s\<lparr>StunSerializeBuffer := buf\<rparr>)" "klass q = ERROR_RESPONSE" "errorCode q = code"
proof -
  let ?r = "(StunPacket_new ERROR_RESPONSE (stun_method p) (transactionId p) [] 0)\<lparr>errorCode := code\<rparr>"
  obtain buf q where "send_response hmac ?r t s = Some (s\<lparr>StunSerializeBuffer := buf\<rparr>, [OnIceServerSendStunPacket q t])"
    "ice_inv (s\<lparr>StunSerializeBuffer := buf\<rparr>)" "klass q = ERROR_RESPONSE" "errorCode q = code"
    by (rule send_response_ok [where hmac = hmac and r = ?r and t = t, OF inv hmac])
      (use p(2) in \<open>simp_all add: StunPacket_new_def\<close>)
  then show thesis using that p(1) by (simp add: reply_error_def CreateErrorResponse_def)
qed

lemma view_of_buffer [simp]:
  "view_of (s\<lparr>StunSerializeBuffer := b\<rparr>) = view_of s"
  "view_of (s\<lparr>oldUsernameFragment := u, oldPassword := pw\<rparr>) = view_of s"
  by (simp_all add: view_of_def selected_value_def)

text \<open>The outcome of a request on a tuple: an error response that changes nothing but the serialization buffer, or a success response
  signed with \<open>pw\<close> after which the tuple is stored and, with USE-CANDIDATE, selected.\<close>

definition refused :: "transport_tuple \<Rightarrow> ice_server \<Rightarrow> ice_server \<Rightarrow> ice_event list \<Rightarrow> bool" where
  "refused t s s' evs \<longleftrightarrow> (\<exists>buf. s' = s\<lparr>StunSerializeBuffer := buf\<rparr>) \<and>
     (\<exists>q. evs = [OnIceServerSendStunPacket q t] \<and> klass q = ERROR_RESPONSE)"

definition granted :: "stun_packet \<Rightarrow> bytes \<Rightarrow> transport_tuple \<Rightarrow> ice_server \<Rightarrow> ice_event list \<Rightarrow> bool" where
  "granted p pw t s' evs \<longleftrightarrow>
     (\<exists>q evs'. evs = OnIceServerSendStunPacket q t # evs' \<and> klass q = SUCCESS_RESPONSE \<and>
        transactionId q = transactionId p \<and> stun_password q = pw \<and> xorMappedAddress q = Some (GetRemoteAddress t)) \<and>
     (\<exists>i u. map_of (tuples s') i = Some u \<and> (tuple_Compare u t \<or> u = t) \<and>
        (hasUseCandidate p \<longrightarrow> selectedTuple s' = Some i \<and> ice_state s' = ICE_COMPLETED))"

lemma process_authentic_ok:
  assumes inv: "ice_inv s" and hmac: "\<And>k m. length (hmac k m) = 20" and p: "klass p = REQUEST" "length (transactionId p) = 12"
  obtains s' evs where "process_authentic hmac p t s = Some (s', evs)" "ice_inv s'" "fold see evs (view_of s) = view_of s'"
    "if iceControlled p \<noteq> 0 then refused t s s' evs
     else granted p (if oldPassword s = [] then ice_password s else oldPassword s) t s' evs"
proof (cases "iceControlled p \<noteq> 0")
  case True
  obtain buf q where r: "reply_error hmac 487 p t s = Some (s\<lparr>StunSerializeBuffer := buf\<rparr>, [OnIceServerSendStunPacket q t])"
    "ice_inv (s\<lparr>StunSerializeBuffer := buf\<rparr>)" "klass q = ERROR_RESPONSE"
    by (rule reply_error_ok [where hmac = hmac and code = 487 and t = t, OF inv hmac p]) blast
  show thesis
    by (rule that [of "s\<lparr>StunSerializeBuffer := buf\<rparr>" "[OnIceServerSendStunPacket q t]"])
      (use r True in \<open>auto simp: process_authentic_def refused_def\<close>)
next
  case False
  let ?pw = "if oldPassword s = [] then ice_password s else oldPassword s"
  let ?r = "Authenticate ?pw ((StunPacket_new SUCCESS_RESPONSE (stun_method p) (transactionId p) [] 0)\<lparr>xorMappedAddress := Some (GetRemoteAddress t)\<rparr>)"
  have f: "klass ?r = SUCCESS_RESPONSE" "transactionId ?r = transactionId p" "stun_password ?r = ?pw"
      "xorMappedAddress ?r = Some (GetRemoteAddress t)" "username ?r = []" "priority ?r = 0" "iceControlling ?r = 0" "iceControlled ?r = 0"
      "\<not> hasUseCandidate ?r"
    by (simp_all add: Authenticate_def StunPacket_new_def)
  have f0: "length (transactionId ?r) = 12" using f(2) p(2) by metis
  obtain buf q where s: "send_response hmac ?r t s = Some (s\<lparr>StunSerializeBuffer := buf\<rparr>, [OnIceServerSendStunPacket q t])"
    "ice_inv (s\<lparr>StunSerializeBuffer := buf\<rparr>)" "klass q = klass ?r" "transactionId q = transactionId ?r" "stun_password q = stun_password ?r"
    "errorCode q = errorCode ?r" "xorMappedAddress q = xorMappedAddress ?r"
    by (rule send_response_ok [where hmac = hmac and r = ?r and t = t, OF inv hmac f0 f(5-9)]) (rule that)
  obtain s' evs i u where h: "HandleTuple t (hasUseCandidate p) (s\<lparr>StunSerializeBuffer := buf\<rparr>) = Some (s', evs)" "ice_inv s'"
    "fold see evs (view_of (s\<lparr>StunSerializeBuffer := buf\<rparr>)) = view_of s'" "map_of (tuples s') i = Some u" "tuple_Compare u t \<or> u = t"
    "hasUseCandidate p \<longrightarrow> selectedTuple s' = Some i \<and> ice_state s' = ICE_COMPLETED"
    using HandleTuple_ok [OF s(2)] by metis
  show thesis
  proof (rule that)
    show "process_authentic hmac p t s = Some (s', OnIceServerSendStunPacket q t # evs)"
      using False p(1) s(1) h(1) by (simp add: process_authentic_def CreateSuccessResponse_def)
    show "fold see (OnIceServerSendStunPacket q t # evs) (view_of s) = view_of s'" using h(3) by simp
    show "if iceControlled p \<noteq> 0 then refused t s s' (OnIceServerSendStunPacket q t # evs) else granted p ?pw t s' (OnIceServerSendStunPacket q t # evs)"
      using False s(3,4,5,7) [unfolded f] h(4-) by (auto simp: granted_def)
  qed (rule h(2))
qed


text \<open>The credentials under which the server accepts a request, and the password that signs its answer.\<close>

definition accepts :: "hmac_sha1 \<Rightarrow> ice_server \<Rightarrow> stun_packet \<Rightarrow> bytes \<Rightarrow> bool" where
  "accepts hmac s p pw \<longleftrightarrow>
     CheckAuthentication hmac (usernameFragment s) (ice_password s) p = Some (AUTH_OK, p) \<and> pw = ice_password s \<or>
     oldUsernameFragment s \<noteq> [] \<and> oldPassword s \<noteq> [] \<and>
     CheckAuthentication hmac (usernameFragment s) (ice_password s) p = Some (UNAUTHORIZED, p) \<and>
     CheckAuthentication hmac (oldUsernameFragment s) (oldPassword s) p = Some (AUTH_OK, p) \<and> pw = oldPassword s"

definition complete_request :: "stun_packet \<Rightarrow> bool" where
  "complete_request p \<longleftrightarrow> stun_method p = BINDING \<and> klass p = REQUEST \<and> hasFingerprint p \<and>
     messageIntegrity p \<noteq> None \<and> priority p \<noteq> 0 \<and> username p \<noteq> []"

text \<open>A request that is authentic under the current credentials ends the use of the previous ones.\<close>

definition renewed :: "hmac_sha1 \<Rightarrow> stun_packet \<Rightarrow> ice_server \<Rightarrow> ice_server" where
  "renewed hmac p s =
     (if complete_request p \<and> CheckAuthentication hmac (usernameFragment s) (ice_password s) p = Some (AUTH_OK, p) \<and> oldPassword s \<noteq> []
      then s\<lparr>oldUsernameFragment := [], oldPassword := []\<rparr> else s)"

definition request_outcome ::
  "hmac_sha1 \<Rightarrow> stun_packet \<Rightarrow> transport_tuple \<Rightarrow> ice_server \<Rightarrow> (ice_server \<times> ice_event list) option \<Rightarrow> bool" where
  "request_outcome hmac p t s r \<longleftrightarrow> (\<exists>s' evs. r = Some (s', evs) \<and> ice_inv s' \<and> fold see evs (view_of s) = view_of s' \<and>
     (if complete_request p \<and> iceControlled p = 0 \<and> (\<exists>pw. accepts hmac s p pw)
      then \<exists>pw. accepts hmac s p pw \<and> granted p pw t s' evs else refused t (renewed hmac p s) s' evs))"

lemma reply_outcome:
  assumes "ice_inv s" "\<And>k m. length (hmac k m) = 20" "klass p = REQUEST" "stun_wf p"
    and "\<not> (complete_request p \<and> iceControlled p = 0 \<and> (\<exists>pw. accepts hmac s p pw))" "renewed hmac p s = s"
  shows "request_outcome hmac p t s (reply_error hmac code p t s)"
proof -
  have tid: "length (transactionId p) = 12" using assms(4) by (simp add: stun_wf_def)
  obtain buf q where r: "reply_error hmac code p t s = Some (s\<lparr>StunSerializeBuffer := buf\<rparr>, [OnIceServerSendStunPacket q t])"
    "ice_inv (s\<lparr>StunSerializeBuffer := buf\<rparr>)" "klass q = ERROR_RESPONSE"
    by (rule reply_error_ok [where hmac = hmac and code = code and t = t, OF assms(1-3) tid]) blast
  have "refused t s (s\<lparr>StunSerializeBuffer := buf\<rparr>) [OnIceServerSendStunPacket q t]" using r(3) by (auto simp: refused_def)
  then show ?thesis using assms(5,6) r by (auto simp: request_outcome_def)
qed

lemma authentic_outcome:
  assumes "ice_inv s1" "\<And>k m. length (hmac k m) = 20" "klass p = REQUEST" "stun_wf p" "complete_request p"
    and "s1 = renewed hmac p s"
    and "accepts hmac s p (if oldPassword s1 = [] then ice_password s1 else oldPassword s1)"
  shows "request_outcome hmac p t s (process_authentic hmac p t s1)"
proof -
  have tid: "length (transactionId p) = 12" using assms(4) by (simp add: stun_wf_def)
  obtain s' evs where r: "process_authentic hmac p t s1 = Some (s', evs)" "ice_inv s'" "fold see evs (view_of s1) = view_of s'"
    "if iceControlled p \<noteq> 0 then refused t s1 s' evs
     else granted p (if oldPassword s1 = [] then ice_password s1 else oldPassword s1) t s' evs"
    by (rule process_authentic_ok [where hmac = hmac and t = t, OF assms(1-3) tid]) (rule that)
  have "if complete_request p \<and> iceControlled p = 0 \<and> (\<exists>pw. accepts hmac s p pw)
      then \<exists>pw. accepts hmac s p pw \<and> granted p pw t s' evs else refused t (renewed hmac p s) s' evs"
  proof (cases "iceControlled p = 0")
    case True
    with r(4) have "granted p (if oldPassword s1 = [] then ice_password s1 else oldPassword s1) t s' evs" by simp
    with assms(5,7) True show ?thesis by metis
  next
    case False
    then show ?thesis using r(4) assms(6) by simp
  qed
  moreover have "fold see evs (view_of s) = view_of s'" using r(3) assms(6) by (simp add: renewed_def split: if_splits)
  ultimately show ?thesis unfolding request_outcome_def using r(1,2) by blast
qed

lemma process_request_ok:
  assumes inv: "ice_inv s" and hmac: "\<And>k m. length (hmac k m) = 20" and wf: "stun_wf p"
    and p: "klass p = REQUEST" "stun_method p = BINDING" "hasFingerprint p"
  shows "request_outcome hmac p t s (process_request hmac p t s)"
proof (cases "messageIntegrity p = None \<or> priority p = 0 \<or> username p = []")
  case True
  then have "process_request hmac p t s = reply_error hmac 400 p t s" by (auto simp: process_request_def)
  then show ?thesis using reply_outcome [OF inv hmac p(1) wf] True by (auto simp: complete_request_def renewed_def)
next
  case False
  then have full: "complete_request p" using p by (simp add: complete_request_def)
  obtain a where a: "CheckAuthentication hmac (usernameFragment s) (ice_password s) p = Some (a, p)"
    by (rule that) (rule CheckAuthentication_eq [where hmac = hmac, OF wf hmac])
  obtain b where b: "CheckAuthentication hmac (oldUsernameFragment s) (oldPassword s) p = Some (b, p)"
    by (rule that) (rule CheckAuthentication_eq [where hmac = hmac, OF wf hmac])
  note reply = reply_outcome [where hmac = hmac, OF inv hmac p(1) wf]
  show ?thesis
  proof (cases a)
    case AUTH_OK
    let ?s1 = "if oldPassword s \<noteq> [] then s\<lparr>oldUsernameFragment := [], oldPassword := []\<rparr> else s"
    have "ice_inv ?s1" using inv by (auto simp: ice_inv_def nodes_ok_def)
    then have "request_outcome hmac p t s (process_authentic hmac p t ?s1)"
      by (rule authentic_outcome [OF _ hmac p(1) wf full]) (use AUTH_OK a full in \<open>auto simp: accepts_def renewed_def\<close>)
    moreover have "process_request hmac p t s = process_authentic hmac p t ?s1"
      using False a AUTH_OK by (auto simp: process_request_def)
    ultimately show ?thesis by (simp only:)
  next
    case UNAUTHORIZED
    show ?thesis
    proof (cases "oldUsernameFragment s \<noteq> [] \<and> oldPassword s \<noteq> [] \<and> b = AUTH_OK")
      case True
      then have "process_request hmac p t s = process_authentic hmac p t s"
        using False a b UNAUTHORIZED by (auto simp: process_request_def)
      moreover have "request_outcome hmac p t s (process_authentic hmac p t s)"
        by (rule authentic_outcome [OF inv hmac p(1) wf full]) (use True UNAUTHORIZED a b in \<open>simp_all add: accepts_def renewed_def\<close>)
      ultimately show ?thesis by (simp only:)
    next
      case no: False
      then have "process_request hmac p t s = reply_error hmac 401 p t s"
        using False a b UNAUTHORIZED by (auto simp: process_request_def)
      moreover have "\<not> accepts hmac s p pw" for pw using no a b UNAUTHORIZED by (auto simp: accepts_def)
      moreover have "renewed hmac p s = s" using a UNAUTHORIZED by (simp add: renewed_def)
      ultimately show ?thesis using reply [of t 401] by simp
    qed
  next
    case BAD_REQUEST
    then have "process_request hmac p t s = reply_error hmac 400 p t s" using False a by (auto simp: process_request_def)
    moreover have "\<not> accepts hmac s p pw" for pw using a BAD_REQUEST by (auto simp: accepts_def)
    moreover have "renewed hmac p s = s" using a BAD_REQUEST by (simp add: renewed_def)
    ultimately show ?thesis using reply [of t 400] by simp
  qed
qed

lemma ProcessStunPacket_ok:
  assumes inv: "ice_inv s" and hmac: "\<And>k m. length (hmac k m) = 20" and wf: "stun_wf p"
  shows "if klass p = REQUEST then request_outcome hmac p t s (ProcessStunPacket hmac p t s)
    else ProcessStunPacket hmac p t s = Some (s, [])"
proof (cases "klass p = REQUEST")
  case True
  show ?thesis
  proof (cases "stun_method p = BINDING \<and> hasFingerprint p")
    case ok: True
    then have "ProcessStunPacket hmac p t s = process_request hmac p t s" using True by (simp add: ProcessStunPacket_def)
    then show ?thesis using process_request_ok [where hmac = hmac, OF inv hmac wf True] ok True by simp
  next
    case False
    then have "ProcessStunPacket hmac p t s = reply_error hmac 400 p t s" using True by (auto simp: ProcessStunPacket_def)
    moreover have "\<not> complete_request p" using False by (auto simp: complete_request_def)
    ultimately show ?thesis using reply_outcome [where hmac = hmac, OF inv hmac True wf] True by (simp add: renewed_def)
  qed
next
  case False
  then show ?thesis by (cases "klass p") (simp_all add: ProcessStunPacket_def)
qed

lemma ProcessStunPacket_step:
  assumes "ice_inv s" "\<And>k m. length (hmac k m) = 20" "stun_wf p"
  shows "ok_step s (ProcessStunPacket hmac p t s)"
proof (cases "klass p = REQUEST")
  case True
  then have "request_outcome hmac p t s (ProcessStunPacket hmac p t s)"
    using ProcessStunPacket_ok [where hmac = hmac, OF assms] by simp
  then show ?thesis unfolding request_outcome_def ok_step_def by blast
next
  case False
  then have "ProcessStunPacket hmac p t s = Some (s, [])" using ProcessStunPacket_ok [where hmac = hmac, OF assms] by simp
  then show ?thesis using assms(1) by (simp add: ok_step_def)
qed

subsection \<open>Runs\<close>

text \<open>What the transport does with its server: it hands over received STUN messages, removes the tuples of closed
  connections, selects a tuple after checking that it is valid, and changes the credentials when ICE restarts.\<close>

datatype ice_input =
    ReceiveStun bytes transport_tuple
  | TupleClosed transport_tuple
  | ValidData transport_tuple
  | Restart bytes bytes

fun ice_handle :: "hmac_sha1 \<Rightarrow> ice_input \<Rightarrow> ice_server \<Rightarrow> (ice_server \<times> ice_event list) option" where
  "ice_handle hmac (ReceiveStun d t) s = do {
     p \<leftarrow> StunPacket_Parse d;
     case p of None \<Rightarrow> Some (s, []) | Some p \<Rightarrow> ProcessStunPacket hmac p t s }"
| "ice_handle hmac (TupleClosed t) s = RemoveTuple t s"
| "ice_handle hmac (ValidData t) s = do {
     v \<leftarrow> IsValidTuple t s;
     if \<not> v then Some (s, []) else ForceSelectedTuple t s }"
| "ice_handle hmac (Restart u pw) s = Some (SetPassword pw (SetUsernameFragment u s), [])"

text \<open>Reachable servers, with the events sent so far.\<close>

inductive ice_reachable :: "hmac_sha1 \<Rightarrow> ice_server \<Rightarrow> ice_event list \<Rightarrow> bool" for hmac :: hmac_sha1 where
  start: "length buf = 65536 \<Longrightarrow> ice_reachable hmac (IceServer_new u pw buf) []"
| step: "ice_reachable hmac s evs \<Longrightarrow> (case i of ReceiveStun d t \<Rightarrow> length d < 65536 | _ \<Rightarrow> True) \<Longrightarrow>
    ice_handle hmac i s = Some (s', evs') \<Longrightarrow> ice_reachable hmac s' (evs @ evs')"

lemma ice_handle_ok:
  assumes inv: "ice_inv s" and hmac: "\<And>k m. length (hmac k m) = 20"
    and small: "case i of ReceiveStun d t \<Rightarrow> length d < 65536 | _ \<Rightarrow> True"
  shows "ok_step s (ice_handle hmac i s)"
proof (cases i)
  case (ReceiveStun d t)
  then obtain r where r: "StunPacket_Parse d = Some r" "\<forall>p. r = Some p \<longrightarrow> stun_wf p"
    using StunPacket_Parse_total [of d] small by auto
  show ?thesis
  proof (cases r)
    case None
    then show ?thesis using ReceiveStun r inv by (simp add: ok_step_def)
  next
    case (Some p)
    then show ?thesis
      using ReceiveStun r ProcessStunPacket_step [where hmac = hmac, OF inv hmac] by simp
  qed
next
  case (TupleClosed t)
  then show ?thesis using RemoveTuple_ok [OF inv] by simp
next
  case (ValidData t)
  obtain v where v: "IsValidTuple t s = Some v"
    using HasTuple_ok [of s t] inv by (auto simp: IsValidTuple_def ice_inv_def)
  then show ?thesis
    using ValidData ForceSelectedTuple_ok [OF inv] inv by (cases v) (simp_all add: ok_step_def)
next
  case (Restart u pw)
  then show ?thesis
    using inv by (auto simp: ok_step_def SetPassword_def SetUsernameFragment_def ice_inv_def nodes_ok_def view_of_def selected_value_def)
qed

lemma ice_reachable_inv:
  assumes "ice_reachable hmac s evs" "\<And>k m. length (hmac k m) = 20"
  shows "ice_inv s \<and> fold see evs (ICE_NEW, None) = view_of s"
  using assms(1)
proof (induction rule: ice_reachable.induct)
  case (start buf u pw)
  then show ?case by (simp add: ice_inv_def nodes_ok_def IceServer_new_def view_of_def selected_value_def)
next
  case (step s evs i s' evs')
  then have "ok_step s (Some (s', evs'))" using ice_handle_ok [of s hmac i] assms(2) by metis
  then show ?case using step.IH by (auto simp: ok_step_def)
qed

text \<open>C28: In every reachable state of the ICE server the selected tuple is one of the stored tuples exactly in the
  states connected and completed, there are no tuples otherwise, no two stored tuples are equal, and whatever
  arrives next is handled without a failed assertion or a dangling tuple.\<close>

theorem IceServer_safe:
  assumes "ice_reachable hmac s evs" "\<And>k m. length (hmac k m) = 20"
  shows "(ice_state s = ICE_NEW \<or> ice_state s = ICE_DISCONNECTED \<longrightarrow> tuples s = [] \<and> selectedTuple s = None) \<and>
    (ice_state s = ICE_CONNECTED \<or> ice_state s = ICE_COMPLETED \<longrightarrow> (\<exists>i. selectedTuple s = Some i \<and> i \<in> fst ` set (tuples s))) \<and>
    sorted_wrt (\<lambda>a b. \<not> tuple_Compare (snd a) (snd b)) (tuples s) \<and>
    ((case i of ReceiveStun d t \<Rightarrow> length d < 65536 | _ \<Rightarrow> True) \<longrightarrow> ice_handle hmac i s \<noteq> None)"
proof -
  have inv: "ice_inv s" using ice_reachable_inv [OF assms] by simp
  have "ok_step s (ice_handle hmac i s)" if "case i of ReceiveStun d t \<Rightarrow> length d < 65536 | _ \<Rightarrow> True"
    using ice_handle_ok [where hmac = hmac, OF inv assms(2) that] .
  then show ?thesis using inv by (auto simp: ok_step_def ice_inv_def nodes_ok_def)
qed

lemma zero_hmac_length: "length (zero_hmac k m) = 20"
  by (simp add: zero_hmac_def)

definition sample_server :: ice_server where
  "sample_server = IceServer_new [97] [99] (replicate 65536 0)"

lemma sample_reachable: "ice_reachable zero_hmac sample_server []"
  unfolding sample_server_def by (rule start) simp

definition sample_tuple :: transport_tuple where
  "sample_tuple = \<lparr>tuple_protocol = UDP, udpSocket = 1, udpRemoteAddr = Sockaddr_in 5000 0x7F000001, tcpConnection = 0,
     tcpPeerAddr = Sockaddr_other 0\<rparr>"

theorem IceServer_safe_witness:
  "ice_handle zero_hmac (ReceiveStun sample_request sample_tuple) sample_server \<noteq> None \<and>
   tuples sample_server = []"
proof -
  have "ice_state sample_server = ICE_NEW" by (simp add: sample_server_def IceServer_new_def)
  moreover have "length sample_request < 65536" by (simp add: sample_request_def magicCookie_def)
  ultimately show ?thesis
    using IceServer_safe [where i = "ReceiveStun sample_request sample_tuple", OF sample_reachable zero_hmac_length] by simp
qed

text \<open>C30: The listener that only follows the events of the server knows its state and its selected tuple.\<close>

theorem IceServer_refines_view:
  assumes "ice_reachable hmac s evs" "\<And>k m. length (hmac k m) = 20"
  shows "fold see evs (ICE_NEW, None) = (ice_state s, Option.bind (selectedTuple s) (map_of (tuples s)))"
  using ice_reachable_inv [OF assms] by (simp add: view_of_def selected_value_def)

theorem IceServer_refines_view_witness:
  "fold see [] (ICE_NEW, None) = (ice_state sample_server, Option.bind (selectedTuple sample_server) (map_of (tuples sample_server)))"
  by (rule IceServer_refines_view [OF sample_reachable zero_hmac_length])

text \<open>C29: A parsed binding request with fingerprint, integrity, priority and user name from a controlling peer that is
  authentic under the current credentials, or under the previous ones while they are kept, is answered with
  success, signed with the password it was checked with, and its tuple is stored and, with USE-CANDIDATE,
  selected. Every other request gets an error response and changes nothing but the buffer that the response is written to, except
  that one that is complete and authentic under the current credentials (from a peer that claims to be controlled) clears the
  previous credentials. Anything else is ignored.\<close>

theorem ProcessStunPacket_spec:
  assumes "ice_reachable hmac s evs" "\<And>k m. length (hmac k m) = 20" "length d < 65536" "StunPacket_Parse d = Some (Some p)"
  shows "\<exists>s' evs'. ProcessStunPacket hmac p t s = Some (s', evs') \<and>
    (if klass p \<noteq> REQUEST then s' = s \<and> evs' = []
     else if complete_request p \<and> iceControlled p = 0 \<and> (\<exists>pw. accepts hmac s p pw)
     then \<exists>pw. accepts hmac s p pw \<and> granted p pw t s' evs' else refused t (renewed hmac p s) s' evs')"
proof -
  have inv: "ice_inv s" using ice_reachable_inv [OF assms(1,2)] by simp
  have wf: "stun_wf p" using StunPacket_Parse_total [OF assms(3)] assms(4) by auto
  show ?thesis
  proof (cases "klass p = REQUEST")
    case True
    then have "request_outcome hmac p t s (ProcessStunPacket hmac p t s)"
      using ProcessStunPacket_ok [where hmac = hmac, OF inv assms(2) wf] by simp
    then obtain s' evs' where "ProcessStunPacket hmac p t s = Some (s', evs')"
        "if complete_request p \<and> iceControlled p = 0 \<and> (\<exists>pw. accepts hmac s p pw)
         then \<exists>pw. accepts hmac s p pw \<and> granted p pw t s' evs' else refused t (renewed hmac p s) s' evs'"
      unfolding request_outcome_def by blast
    with True show ?thesis by simp
  next
    case False
    then show ?thesis using ProcessStunPacket_ok [where hmac = hmac, OF inv assms(2) wf] by simp
  qed
qed

text \<open>A signed request with a priority and USE-CANDIDATE.\<close>

definition nominating_request :: bytes where
  "nominating_request = [0, 1, 0, 52] @ magicCookie @ replicate 12 7 @ [0, 6, 0, 3, 97, 58, 98, 0] @
     [0, 0x24, 0, 4, 0, 0, 0, 5] @ [0, 0x25, 0, 0] @ [0, 8, 0, 20] @ replicate 20 0 @ [0x80, 0x28, 0, 4, 67, 182, 254, 98]"

theorem ProcessStunPacket_spec_witness:
  "\<exists>p s' evs. StunPacket_Parse nominating_request = Some (Some p) \<and>
     ProcessStunPacket zero_hmac p sample_tuple sample_server = Some (s', evs) \<and>
     granted p [99] sample_tuple s' evs \<and> ice_state s' = ICE_COMPLETED"
proof -
  have "case StunPacket_Parse nominating_request of Some (Some p) \<Rightarrow> complete_request p \<and> iceControlled p = 0 \<and> klass p = REQUEST \<and>
      hasUseCandidate p \<and> map_option fst (CheckAuthentication zero_hmac [97] [99] p) = Some AUTH_OK | _ \<Rightarrow> False"
    by code_simp
  then obtain p where p: "StunPacket_Parse nominating_request = Some (Some p)" "complete_request p" "iceControlled p = 0"
      "klass p = REQUEST" "hasUseCandidate p" "map_option fst (CheckAuthentication zero_hmac [97] [99] p) = Some AUTH_OK"
    by (auto split: option.splits)
  have len: "length nominating_request < 65536" by (simp add: nominating_request_def magicCookie_def)
  then have "stun_wf p" using StunPacket_Parse_total p(1) by fastforce
  from CheckAuthentication_eq [where hmac = zero_hmac, OF this zero_hmac_length] p(6)
  have "CheckAuthentication zero_hmac [97] [99] p = Some (AUTH_OK, p)" by fastforce
  then have acc: "accepts zero_hmac sample_server p pw \<longleftrightarrow> pw = [99]" for pw
    by (auto simp: accepts_def sample_server_def IceServer_new_def)
  have ex: "\<exists>pw. accepts zero_hmac sample_server p pw" using acc by blast
  from ProcessStunPacket_spec [where t = sample_tuple, OF sample_reachable zero_hmac_length len p(1)] p(2-4) ex
  obtain s' evs' pw where r: "ProcessStunPacket zero_hmac p sample_tuple sample_server = Some (s', evs')"
    "accepts zero_hmac sample_server p pw" "granted p pw sample_tuple s' evs'" by auto
  then have "granted p [99] sample_tuple s' evs'" using acc by simp
  then show ?thesis using r(1) p(1,5) by (auto simp: granted_def)
qed

end
