(* ===== verification/RtpStream.thy ===== *)
theory RtpStream
  imports SeqManager Rtcp_Reports
begin

text \<open>
  \<^verbatim>\<open>RTC::RtpStream\<close> (\<^verbatim>\<open>src/RTC/RtpStream.cpp\<close>) and \<^verbatim>\<open>RTC::RtxStream\<close> (\<^verbatim>\<open>src/RTC/RtxStream.cpp\<close>): the tracking of RTP
  sequence numbers (RFC 3550, appendix A.1), the score of a stream and the loss statistics of receiver
  reports. Both classes have the same sequence tracking code, which is one record and one set of operations
  here; the loss statistics are shared with \<^verbatim>\<open>RtpStreamRecv\<close>.

  The 16-bit numbers on the wire are followed to the highest index ever sent as long as the stream keeps within the
  allowed windows; the score is the weighted average of the last 24 scores; and the fraction of lost packets
  is the rounded quotient, which does not fit its byte when nearly everything is lost.
\<close>

subsection \<open>Sequence numbers\<close>

record rtp_seq =
  seq_started :: bool
  maxSeq :: u16
  cycles :: u32
  baseSeq :: u32
  badSeq :: u32
  maxPacketTs :: u32
  maxPacketMs :: u64
  packetsDiscarded :: nat

definition rtp_seq_new :: rtp_seq where
  "rtp_seq_new = \<lparr>seq_started = False, maxSeq = 0, cycles = 0, baseSeq = 0, badSeq = 0, maxPacketTs = 0,
     maxPacketMs = 0, packetsDiscarded = 0\<rparr>"

abbreviation (input) "MaxDropout \<equiv> (3000 :: u16)"
abbreviation (input) "MaxMisorder \<equiv> (1500 :: u32)"
abbreviation (input) "RtpSeqMod \<equiv> (65536 :: u32)"

definition InitSeq :: "u16 \<Rightarrow> rtp_seq \<Rightarrow> rtp_seq" where
  "InitSeq seq s = s\<lparr>baseSeq := ucast seq, maxSeq := seq, badSeq := RtpSeqMod + 1\<rparr>"

definition UpdateSeq :: "u64 \<Rightarrow> u16 \<Rightarrow> u32 \<Rightarrow> rtp_seq \<Rightarrow> bool \<times> rtp_seq" where
  "UpdateSeq nowMs seq timestamp s =
     (let udelta = seq - maxSeq s in
      if udelta < MaxDropout then
        (True, s\<lparr>cycles := if seq < maxSeq s then cycles s + RtpSeqMod else cycles s, maxSeq := seq\<rparr>)
      else if ucast udelta \<le> RtpSeqMod - MaxMisorder then
        (if ucast seq = badSeq s
         then (True, (InitSeq seq s)\<lparr>maxPacketTs := timestamp, maxPacketMs := nowMs\<rparr>)
         else (False, s\<lparr>badSeq := (ucast seq + 1) AND (RtpSeqMod - 1), packetsDiscarded := packetsDiscarded s + 1\<rparr>))
      else (True, s))"

definition seq_ReceivePacket :: "u64 \<Rightarrow> u16 \<Rightarrow> u32 \<Rightarrow> rtp_seq \<Rightarrow> bool \<times> rtp_seq" where
  "seq_ReceivePacket nowMs seq timestamp s =
     (let s = (if \<not> seq_started s
               then (InitSeq seq s)\<lparr>seq_started := True, maxSeq := seq - 1, maxPacketTs := timestamp, maxPacketMs := nowMs\<rparr>
               else s)
      in case UpdateSeq nowMs seq timestamp s of
           (False, s) \<Rightarrow> (False, s)
         | (True, s) \<Rightarrow>
             (True, if IsSeqHigherThan timestamp (maxPacketTs s)
                    then s\<lparr>maxPacketTs := timestamp, maxPacketMs := nowMs\<rparr> else s))"

definition GetExpectedPackets :: "rtp_seq \<Rightarrow> u32" where
  "GetExpectedPackets s = (cycles s + ucast (maxSeq s)) - baseSeq s + 1"

subsection \<open>Score\<close>

record rtp_score =
  score :: u8
  scores :: "u8 list"
  activeSinceMs :: u64

datatype score_event = OnRtpStreamScore u8 u8

abbreviation (input) "ScoreHistogramLength \<equiv> (24 :: nat)"

definition rtp_score_new :: "u8 \<Rightarrow> u64 \<Rightarrow> rtp_score" where
  "rtp_score_new initialScore nowMs = \<lparr>score = initialScore, scores = [], activeSinceMs = nowMs\<rparr>"

definition ResetScore :: "u64 \<Rightarrow> u8 \<Rightarrow> bool \<Rightarrow> rtp_score \<Rightarrow> rtp_score \<times> score_event list" where
  "ResetScore nowMs sc notify s =
     (let s1 = s\<lparr>scores := []\<rparr> in
      if score s \<noteq> sc then
        (s1\<lparr>score := sc, activeSinceMs := if score s = 0 then nowMs else activeSinceMs s\<rparr>,
         if notify then [OnRtpStreamScore sc (score s)] else [])
      else (s1, []))"

text \<open>The loop over the histogram with its variables \<open>weight\<close>, \<open>samples\<close> and \<open>totalScore\<close>.\<close>

fun score_loop :: "u8 list \<Rightarrow> nat \<Rightarrow> nat \<Rightarrow> nat \<Rightarrow> nat \<times> nat" where
  "score_loop [] weight samples totalScore = (samples, totalScore)"
| "score_loop (sc # l) weight samples totalScore =
     score_loop l (weight + 1) (samples + (weight + 1)) (totalScore + (weight + 1) * unat sc)"

text \<open>\<open>std::round\<close> of the quotient of two integers. In \<open>double\<close> a quotient with a denominator below \<open>2 ^ 32\<close> and a
  value below \<open>2 ^ 16\<close> is closer to the exact quotient than the exact quotient is to a half, unless it is
  that half, so rounding the \<open>double\<close> is rounding the exact quotient half up.\<close>

definition round_div :: "nat \<Rightarrow> nat \<Rightarrow> nat" where
  "round_div a b = (2 * a + b) div (2 * b)"

definition UpdateScore :: "u64 \<Rightarrow> u8 \<Rightarrow> rtp_score \<Rightarrow> rtp_score \<times> score_event list" where
  "UpdateScore nowMs sc s =
     (let hist = (if length (scores s) = ScoreHistogramLength then tl (scores s) else scores s) @ [sc];
          (samples, totalScore) = score_loop hist 0 0 0;
          new = of_nat (round_div totalScore samples);
          s1 = s\<lparr>scores := hist, score := new\<rparr>
      in if new \<noteq> score s
         then (s1\<lparr>activeSinceMs := if score s = 0 then nowMs else activeSinceMs s\<rparr>, [OnRtpStreamScore new (score s)])
         else (s1, []))"

subsection \<open>Loss statistics\<close>

record loss_state =
  packetsLost :: u32
  fractionLost :: u8
  expectedPrior :: u32
  receivedPrior :: u32
  reportedPacketLost :: u32

definition loss_state_new :: loss_state where
  "loss_state_new = \<lparr>packetsLost = 0, fractionLost = 0, expectedPrior = 0, receivedPrior = 0, reportedPacketLost = 0\<rparr>"

text \<open>The fraction of an interval, in units of 1/256. \<open>None\<close>: the shift overflows its 32 bits, or the rounded quotient
  is 256 and its conversion to \<open>uint8_t\<close> is undefined.\<close>

definition interval_fraction :: "u32 \<Rightarrow> u32 \<Rightarrow> u8 option" where
  "interval_fraction expectedInterval receivedInterval =
     (let lostInterval = sint (expectedInterval - receivedInterval) in
      if expectedInterval = 0 \<or> lostInterval \<le> 0 then Some 0
      else if lostInterval \<ge> 2 ^ 23 then None
      else
        let q = round_div (nat lostInterval * 256) (unat expectedInterval) in
        if q > 255 then None else Some (of_nat q))"

text \<open>The part of \<^verbatim>\<open>GetRtcpReceiverReport\<close> that fills the loss fields of the report; \<open>worst\<close> is the worst fraction
  that the remote receivers report (always 0 for an RTX stream).\<close>

definition report_loss :: "u8 \<Rightarrow> u32 \<Rightarrow> nat \<Rightarrow> ReceiverReport \<Rightarrow> loss_state \<Rightarrow> (ReceiverReport \<times> loss_state) option" where
  "report_loss worst expected packetCount report l = do {
     let prevPacketsLost = packetsLost l;
     let lost = (if unat expected > packetCount then expected - of_nat packetCount else 0);
     let expectedInterval = expected - expectedPrior l;
     let receivedInterval = of_nat packetCount - receivedPrior l;
     fraction \<leftarrow> interval_fraction expectedInterval receivedInterval;
     let reported = (if worst \<le> fraction then reportedPacketLost l + (lost - prevPacketsLost)
                     else reportedPacketLost l + drop_bit 8 (ucast worst * expectedInterval));
     report \<leftarrow> SetTotalLost (sint reported) report;
     Some (report\<lparr>rr_fractionLost := if worst \<le> fraction then fraction else worst\<rparr>,
           \<lparr>packetsLost = lost, fractionLost = fraction, expectedPrior = expected, receivedPrior = of_nat packetCount,
            reportedPacketLost = reported\<rparr>) }"

record sr_state =
  lastSrTimestamp :: u32
  lastSrReceived :: u64

definition ReceiveRtcpSenderReport :: "u64 \<Rightarrow> SenderReport \<Rightarrow> sr_state \<Rightarrow> sr_state" where
  "ReceiveRtcpSenderReport nowMs r s =
     s\<lparr>lastSrReceived := nowMs, lastSrTimestamp := push_bit 16 (sr_ntpSec r) + drop_bit 16 (sr_ntpFrac r)\<rparr>"

definition report_delay :: "u64 \<Rightarrow> sr_state \<Rightarrow> ReceiverReport \<Rightarrow> ReceiverReport" where
  "report_delay nowMs s report =
     (if lastSrReceived s \<noteq> 0 then
        let delayMs = ucast (nowMs - lastSrReceived s) :: u32;
            dlsr = push_bit 16 (delayMs div 1000) OR (delayMs mod 1000) * 65536 div 1000
        in report\<lparr>rr_dlsr := dlsr, rr_lsr := lastSrTimestamp s\<rparr>
      else report\<lparr>rr_dlsr := 0, rr_lsr := 0\<rparr>)"

subsection \<open>RtxStream\<close>

record rtx_stream =
  rtx_ssrc :: u32
  rtx_seq :: rtp_seq
  rtx_loss :: loss_state
  rtx_sr :: sr_state
  rtx_packetsCount :: nat

definition RtxStream_new :: "u32 \<Rightarrow> rtx_stream" where
  "RtxStream_new ssrc = \<lparr>rtx_ssrc = ssrc, rtx_seq = rtp_seq_new, rtx_loss = loss_state_new,
     rtx_sr = \<lparr>lastSrTimestamp = 0, lastSrReceived = 0\<rparr>, rtx_packetsCount = 0\<rparr>"

definition RtxStream_ReceivePacket :: "u64 \<Rightarrow> u16 \<Rightarrow> u32 \<Rightarrow> rtx_stream \<Rightarrow> bool \<times> rtx_stream" where
  "RtxStream_ReceivePacket nowMs seq timestamp r =
     (case seq_ReceivePacket nowMs seq timestamp (rtx_seq r) of
        (False, s) \<Rightarrow> (False, r\<lparr>rtx_seq := s\<rparr>)
      | (True, s) \<Rightarrow> (True, r\<lparr>rtx_seq := s, rtx_packetsCount := rtx_packetsCount r + 1\<rparr>))"

definition RtxStream_GetRtcpReceiverReport :: "u64 \<Rightarrow> rtx_stream \<Rightarrow> (ReceiverReport \<times> rtx_stream) option" where
  "RtxStream_GetRtcpReceiverReport nowMs r = do {
     let report = \<lparr>rr_ssrc = rtx_ssrc r, rr_fractionLost = 0, rr_totalLost = 0, rr_lastSeq = 0, rr_jitter = 0, rr_lsr = 0, rr_dlsr = 0\<rparr>;
     (report, l) \<leftarrow> report_loss 0 (GetExpectedPackets (rtx_seq r)) (rtx_packetsCount r) report (rtx_loss r);
     let report = report\<lparr>rr_lastSeq := ucast (maxSeq (rtx_seq r)) + cycles (rtx_seq r), rr_jitter := 0\<rparr>;
     Some (report_delay nowMs (rtx_sr r) report, r\<lparr>rtx_loss := l\<rparr>) }"

definition RtxStream_ReceiveRtcpSenderReport :: "u64 \<Rightarrow> SenderReport \<Rightarrow> rtx_stream \<Rightarrow> rtx_stream" where
  "RtxStream_ReceiveRtcpSenderReport nowMs sr r = r\<lparr>rtx_sr := ReceiveRtcpSenderReport nowMs sr (rtx_sr r)\<rparr>"

subsection \<open>RtpStream\<close>

text \<open>The parameters and the state that sending and receiving streams share. Of the parameters, the MIME type and the
  RID are only passed on. The counters are \<open>size_t\<close>.\<close>

record rtp_params =
  par_ssrc :: u32
  par_payloadType :: u8
  par_clockRate :: u32
  par_cname :: bytes
  par_rtxSsrc :: u32
  par_rtxPayloadType :: u8
  par_useNack :: bool
  par_usePli :: bool
  par_useFir :: bool
  par_useInBandFec :: bool
  par_useDtx :: bool
  par_spatialLayers :: u8
  par_temporalLayers :: u8

record rtp_stream =
  params :: rtp_params
  strm_seq :: rtp_seq
  strm_score :: rtp_score
  packetsRetransmitted :: nat
  packetsRepaired :: nat
  nackCount :: nat
  nackPacketCount :: nat
  pliCount :: nat
  firCount :: nat
  repairedPriorScore :: nat
  retransmittedPriorScore :: nat
  lastSenderReportNtpMs :: u64
  lastSenderReporTs :: u32
  rtxStream :: "rtx_stream option"

definition SetRtx :: "u8 \<Rightarrow> u32 \<Rightarrow> 'a rtp_stream_scheme \<Rightarrow> 'a rtp_stream_scheme" where
  "SetRtx payloadType ssrc s =
     s\<lparr>params := (params s)\<lparr>par_rtxPayloadType := payloadType, par_rtxSsrc := ssrc\<rparr>, rtxStream := Some (RtxStream_new ssrc)\<rparr>"

definition PacketRetransmitted :: "'a rtp_stream_scheme \<Rightarrow> 'a rtp_stream_scheme" where
  "PacketRetransmitted s = s\<lparr>packetsRetransmitted := packetsRetransmitted s + 1\<rparr>"

definition PacketRepaired :: "'a rtp_stream_scheme \<Rightarrow> 'a rtp_stream_scheme" where
  "PacketRepaired s = s\<lparr>packetsRepaired := packetsRepaired s + 1\<rparr>"

subsection \<open>The sequence numbers follow the indices of the sender\<close>

text \<open>The sender numbers its packets \<open>b\<close>, \<open>b + 1\<close>, ... without wrapping and writes the low 16 bits on the wire. A packet
  arrives as its time, index and RTP timestamp.\<close>

type_synonym arrival = "u64 \<times> nat \<times> u32"

fun in_windows :: "nat \<Rightarrow> arrival list \<Rightarrow> bool" where
  "in_windows m [] \<longleftrightarrow> True"
| "in_windows m ((_, n, _) # as) \<longleftrightarrow> m < n + 1500 \<and> n < m + 3000 \<and> in_windows (max m n) as"

definition highest :: "nat \<Rightarrow> arrival list \<Rightarrow> nat" where
  "highest m as = foldl (\<lambda>m (_, n, _). max m n) m as"

fun rtx_receive_all :: "arrival list \<Rightarrow> rtx_stream \<Rightarrow> bool \<times> rtx_stream" where
  "rtx_receive_all [] r = (True, r)"
| "rtx_receive_all ((t, n, ts) # as) r =
     (let (ok, r) = RtxStream_ReceivePacket t (of_nat n) ts r; (oks, r) = rtx_receive_all as r in (ok \<and> oks, r))"

text \<open>The state stands for the highest index \<open>m\<close> and the first index \<open>b\<close>.\<close>

definition seq_follows :: "nat \<Rightarrow> nat \<Rightarrow> rtp_seq \<Rightarrow> bool" where
  "seq_follows b m s \<longleftrightarrow>
     seq_started s \<and> baseSeq s = of_nat b \<and> maxSeq s = of_nat m \<and> cycles s = of_nat (65536 * (m div 65536))"

lemma highest_simps [simp]:
  "highest m [] = m"
  "highest m ((t, n, ts) # as) = highest (max m n) as"
  by (simp_all add: highest_def)

lemma unat_of_nat16: "unat (of_nat n :: u16) = n mod 65536"
  by (simp add: unat_of_nat)

lemma follows_extended: "seq_follows b m s \<Longrightarrow> cycles s + ucast (maxSeq s) = of_nat m"
proof -
  assume f: "seq_follows b m s"
  have "(ucast (of_nat m :: u16) :: u32) = of_nat (m mod 65536)"
    by (simp add: unat_of_nat16 unat_ucast_le word_unat_eq_iff unat_of_nat)
  then have "cycles s + ucast (maxSeq s) = of_nat (65536 * (m div 65536) + m mod 65536)"
    using f by (simp only: seq_follows_def of_nat_add)
  then show ?thesis by simp
qed

lemma follows_expected:
  assumes "seq_follows b m s" and "b \<le> m"
  shows "GetExpectedPackets s = of_nat (m - b + 1)"
  using assms follows_extended [OF assms(1)] by (simp add: GetExpectedPackets_def seq_follows_def of_nat_diff)

lemma div_mod_wrap:
  fixes m n :: nat
  assumes "m \<le> n" and "n < m + 3000"
  shows "n div 65536 = (if n mod 65536 < m mod 65536 then m div 65536 + 1 else m div 65536)"
proof -
  define p q where "p = n mod 65536" and "q = m mod 65536"
  have n: "n = 65536 * (n div 65536) + p" and m: "m = 65536 * (m div 65536) + q" and "p < 65536" "q < 65536"
    by (simp_all add: p_def q_def)
  then have "n div 65536 = m div 65536 + 1 \<and> p < q \<or> n div 65536 = m div 65536 \<and> q \<le> p"
    using assms by linarith
  then show ?thesis by (auto simp: p_def q_def)
qed

lemma UpdateSeq_ahead:
  assumes f: "seq_follows b m s" and "m \<le> n" and "n < m + 3000"
  shows "\<exists>s'. UpdateSeq t (of_nat n) ts s = (True, s') \<and> seq_follows b n s'"
proof -
  have "(of_nat n :: u16) - of_nat m = of_nat (n - m)"
    using \<open>m \<le> n\<close> by (simp add: of_nat_diff)
  then have d: "(of_nat n :: u16) - maxSeq s < MaxDropout"
    using assms by (simp add: seq_follows_def word_less_nat_alt unat_of_nat16)
  have "cycles s + (if (of_nat n :: u16) < maxSeq s then RtpSeqMod else 0) = of_nat (65536 * (n div 65536))"
    using f div_mod_wrap [OF assms(2,3)]
    by (simp add: seq_follows_def word_less_nat_alt unat_of_nat16 algebra_simps)
  with d f show ?thesis
    by (auto simp: UpdateSeq_def seq_follows_def Let_def split: if_splits)
qed

lemma UpdateSeq_behind:
  assumes f: "seq_follows b m s" and "n < m" and "m < n + 1500"
  shows "UpdateSeq t (of_nat n) ts s = (True, s)"
proof -
  have eq: "(of_nat n :: u16) - of_nat m = of_nat (65536 - (m - n))"
    using assms(2,3) by (simp add: of_nat_diff)
  have u: "unat ((of_nat n :: u16) - maxSeq s) = 65536 - (m - n)"
    using f assms(2,3) unfolding seq_follows_def eq by (simp add: eq unat_of_nat16)
  then show ?thesis
    using assms(2,3) by (simp add: UpdateSeq_def Let_def word_less_nat_alt word_le_nat_alt unat_ucast_le)
qed

lemma seq_ReceivePacket_follows:
  assumes f: "seq_follows b m s" and "m < n + 1500" and "n < m + 3000"
  shows "\<exists>s'. seq_ReceivePacket t (of_nat n) ts s = (True, s') \<and> seq_follows b (max m n) s'"
proof -
  have "\<exists>s'. UpdateSeq t (of_nat n) ts s = (True, s') \<and> seq_follows b (max m n) s'"
  proof (cases "m \<le> n")
    case True
    then show ?thesis using UpdateSeq_ahead [OF f True assms(3)] by (simp add: max_def)
  next
    case False
    then show ?thesis using UpdateSeq_behind [OF f _ assms(2)] f by (simp add: max_def)
  qed
  with f show ?thesis
    by (auto simp: seq_ReceivePacket_def seq_follows_def Let_def)
qed

lemma seq_ReceivePacket_first:
  assumes "0 < b" and "b < 65536"
  shows "\<exists>s'. seq_ReceivePacket t (of_nat b) ts rtp_seq_new = (True, s') \<and> seq_follows b b s'"
proof -
  have "\<not> (of_nat b :: u16) < of_nat b - 1"
    using assms by (simp add: word_less_nat_alt unat_of_nat16 unat_minus_one word_unat_eq_iff)
  moreover have "(ucast (of_nat b :: u16) :: u32) = of_nat b"
    using assms by (simp add: unat_of_nat16 unat_ucast_le word_unat_eq_iff unat_of_nat)
  ultimately show ?thesis
    using assms
    by (auto simp: seq_ReceivePacket_def rtp_seq_new_def InitSeq_def UpdateSeq_def seq_follows_def Let_def)
qed

lemma rtx_follows:
  assumes "seq_follows b m (rtx_seq r)" and "in_windows m as"
  shows "\<exists>r'. rtx_receive_all as r = (True, r') \<and> seq_follows b (highest m as) (rtx_seq r') \<and>
    rtx_packetsCount r' = rtx_packetsCount r + length as \<and> rtx_ssrc r' = rtx_ssrc r \<and> rtx_loss r' = rtx_loss r \<and> rtx_sr r' = rtx_sr r"
  using assms
proof (induction as arbitrary: m r)
  case (Cons a as)
  obtain t n ts where a: "a = (t, n, ts)" by (cases a)
  obtain s' where s': "seq_ReceivePacket t (of_nat n) ts (rtx_seq r) = (True, s')" "seq_follows b (max m n) s'"
    using seq_ReceivePacket_follows [OF Cons.prems(1), of n t ts] Cons.prems(2) a by auto
  let ?r = "r\<lparr>rtx_seq := s', rtx_packetsCount := rtx_packetsCount r + 1\<rparr>"
  have "RtxStream_ReceivePacket t (of_nat n) ts r = (True, ?r)"
    by (simp add: RtxStream_ReceivePacket_def s'(1))
  then show ?case
    using Cons.IH [of "max m n" ?r] s'(2) Cons.prems(2) by (auto simp: a)
qed auto

lemma highest_ge: "m \<le> highest m as"
proof (induction as arbitrary: m)
  case (Cons a as)
  obtain t n ts where a: "a = (t, n, ts)" by (cases a)
  have "m \<le> max m n" by simp
  also have "\<dots> \<le> highest (max m n) as" by (rule Cons.IH)
  finally show ?case by (simp add: a)
qed simp

lemma highest_less: "in_windows m as \<Longrightarrow> highest m as \<le> m + 3000 * length as"
proof (induction as arbitrary: m)
  case (Cons a as)
  obtain t n ts where a: "a = (t, n, ts)" by (cases a)
  have "highest (max m n) as \<le> max m n + 3000 * length as" using Cons a by simp
  moreover have "max m n \<le> m + 3000" using Cons.prems a by simp
  ultimately show ?case by (simp add: a)
qed simp

text \<open>The fraction is the rounded quotient as long as the quotient is a byte.\<close>

lemma interval_fraction_spec:
  assumes "received \<le> expected" and "expected < 2 ^ 32" and "expected - received < 2 ^ 23"
  shows "interval_fraction (of_nat expected) (of_nat received) =
    (if 512 * (expected - received) < 511 * expected \<or> expected = received
     then Some (of_nat (round_div (256 * (expected - received)) expected)) else None)"
proof -
  let ?lost = "expected - received"
  have d: "(of_nat expected :: u32) - of_nat received = of_nat ?lost"
    using assms(1) by (simp add: of_nat_diff)
  have "sint (of_nat ?lost :: u32) = int ?lost"
    using assms(3) by (simp add: signed_of_nat signed_take_bit_int_eq_self)
  then have si: "sint ((of_nat expected :: u32) - of_nat received) = int ?lost" by (simp only: d)
  have ue: "unat (of_nat expected :: u32) = expected" using assms(2) by (simp add: unat_of_nat_less)
  show ?thesis
  proof (cases "expected = received")
    case True
    then show ?thesis by (cases "expected = 0") (simp_all add: interval_fraction_def si round_div_def)
  next
    case False
    with assms(1) have pos: "0 < ?lost" "0 < expected" by auto
    have nz: "(of_nat expected :: u32) \<noteq> 0" using ue pos by auto
    have "round_div (256 * ?lost) expected > 255 \<longleftrightarrow> 256 \<le> round_div (256 * ?lost) expected" by linarith
    also have "\<dots> \<longleftrightarrow> 256 * (2 * expected) \<le> 2 * (256 * ?lost) + expected"
      unfolding round_div_def using pos by (intro less_eq_div_iff_mult_less_eq) simp
    finally have "round_div (256 * ?lost) expected > 255 \<longleftrightarrow> \<not> 512 * ?lost < 511 * expected" by linarith
    then show ?thesis
      using pos nz False assms(3) by (simp add: interval_fraction_def si ue Let_def mult.commute)
  qed
qed

lemma interval_fraction_surplus:
  assumes "expected < received" and "received - expected < 2 ^ 31"
  shows "interval_fraction (of_nat expected) (of_nat received) = Some 0"
proof -
  have "(of_nat expected :: u32) - of_nat received = word_of_int (- int (received - expected))"
    using assms(1) by (simp add: of_nat_diff)
  moreover have "sint (word_of_int (- int (received - expected)) :: u32) = - int (received - expected)"
    using assms by (subst signed_of_int) (simp add: signed_take_bit_int_eq_self)
  ultimately have "sint ((of_nat expected :: u32) - of_nat received) = - int (received - expected)" by (simp only:)
  with assms(1) show ?thesis by (simp add: interval_fraction_def)
qed

lemma SetTotalLost_small:
  assumes "k < 2 ^ 23"
  shows "SetTotalLost (int k) r = Some (r\<lparr>rr_totalLost := of_nat k\<rparr>)"
    and "rr_totalLost r' = of_nat k \<Longrightarrow> GetTotalLost r' = of_nat k"
proof -
  have t: "take_bit n (of_nat k :: u32) = of_nat k" if "n \<in> {23, 24}" for n
    using assms that by (auto simp: take_bit_of_nat take_bit_nat_eq_self)
  have a: "(of_nat k :: u32) AND 0x7FFFFF = of_nat k" "(of_nat k :: u32) AND 0xFFFFFF = of_nat k"
    using t [of 23] t [of 24] by (simp_all add: take_bit_eq_mask mask_eq_exp_minus_1)
  show "SetTotalLost (int k) r = Some (r\<lparr>rr_totalLost := of_nat k\<rparr>)"
    using assms a by (simp add: SetTotalLost_def)
  have "drop_bit 23 (of_nat k :: u32) = 0"
    using assms by (simp add: word_unat_eq_iff unat_drop_bit_eq unat_of_nat_less drop_bit_eq_div [where 'a = nat])
  then show "rr_totalLost r' = of_nat k \<Longrightarrow> GetTotalLost r' = of_nat k"
    by (simp add: GetTotalLost_def)
qed

lemma report_delay_simps [simp]:
  "rr_ssrc (report_delay nowMs s r) = rr_ssrc r" "rr_totalLost (report_delay nowMs s r) = rr_totalLost r"
  "rr_fractionLost (report_delay nowMs s r) = rr_fractionLost r" "rr_lastSeq (report_delay nowMs s r) = rr_lastSeq r"
  by (simp_all add: report_delay_def Let_def)

text \<open>The first report of a stream.\<close>

lemma report_loss_first:
  assumes "0 < expected" and "expected < 2 ^ 32" and "count < 2 ^ 31"
    and "expected - count < 2 ^ 23" and "512 * (expected - count) < 511 * expected"
  shows "report_loss 0 (of_nat expected) count report loss_state_new =
    Some (report\<lparr>rr_totalLost := of_nat (expected - count),
                 rr_fractionLost := of_nat (round_div (256 * (expected - count)) expected)\<rparr>,
          \<lparr>packetsLost = of_nat (expected - count), fractionLost = of_nat (round_div (256 * (expected - count)) expected),
           expectedPrior = of_nat expected, receivedPrior = of_nat count, reportedPacketLost = of_nat (expected - count)\<rparr>)"
proof -
  let ?lost = "expected - count"
  have "interval_fraction (of_nat expected) (of_nat count) = Some (of_nat (round_div (256 * ?lost) expected))"
  proof (cases "count \<le> expected")
    case True
    then show ?thesis using interval_fraction_spec [OF True assms(2,4)] assms(5) by simp
  next
    case False
    then show ?thesis
      using interval_fraction_surplus [of expected count] assms(1,3) by (simp add: round_div_def)
  qed
  moreover have "(if unat (of_nat expected :: u32) > count then of_nat expected - of_nat count else 0) = (of_nat ?lost :: u32)"
    using assms(2) by (simp add: unat_of_nat_less of_nat_diff)
  moreover have "sint (of_nat ?lost :: u32) = int ?lost"
    using assms(4) by (simp add: signed_of_nat signed_take_bit_int_eq_self)
  ultimately show ?thesis
    using SetTotalLost_small(1) [OF assms(4)] by (simp add: report_loss_def loss_state_new_def Let_def)
qed

text \<open>C35: an RTX stream that receives packets of a sender that numbers them from \<open>b\<close> (not 0, below 65536), the first one first and each other
  one less than 1500 behind or 3000 ahead of the highest so far, accepts all of them, and its first receiver report names the
  highest index as extended sequence number, the number of packets missing between the first and the highest one as
  the total lost, and the rounded quotient of lost and expected packets as the fraction lost, provided the
  quotient is less than 511/512 and the total fits the 24-bit field.\<close>

theorem RtxStream_report:
  assumes "0 < b" and "b < 65536" and "in_windows b as" and "highest b as < 2 ^ 32"
  defines "expected \<equiv> highest b as - b + 1"
  defines "lost \<equiv> expected - Suc (length as)"
  assumes "length as < 2 ^ 31 - 1" and "lost < 2 ^ 23" and "512 * lost < 511 * expected"
  shows "\<exists>r report r'. rtx_receive_all ((t, b, ts) # as) (RtxStream_new ssrc) = (True, r) \<and>
    RtxStream_GetRtcpReceiverReport nowMs r = Some (report, r') \<and> rr_ssrc report = ssrc \<and>
    GetTotalLost report = of_nat lost \<and> rr_fractionLost report = of_nat (round_div (256 * lost) expected) \<and>
    unat (rr_lastSeq report) = highest b as"
proof -
  let ?m = "highest b as"
  obtain s where s: "seq_ReceivePacket t (of_nat b) ts rtp_seq_new = (True, s)" "seq_follows b b s"
    using seq_ReceivePacket_first [OF assms(1,2)] by blast
  let ?r = "(RtxStream_new ssrc)\<lparr>rtx_seq := s, rtx_packetsCount := 1\<rparr>"
  have first: "RtxStream_ReceivePacket t (of_nat b) ts (RtxStream_new ssrc) = (True, ?r)"
    by (simp add: RtxStream_ReceivePacket_def RtxStream_new_def s(1))
  obtain r where r: "rtx_receive_all as ?r = (True, r)" "seq_follows b ?m (rtx_seq r)"
    "rtx_packetsCount r = Suc (length as)" "rtx_ssrc r = ssrc" "rtx_loss r = loss_state_new"
    using rtx_follows [of b b ?r as] s(2) assms(3) by (auto simp: RtxStream_new_def)
  have exp: "0 < expected" "expected < 2 ^ 32"
    unfolding expected_def using assms(1,4) highest_ge [of b as] by linarith+
  have ge: "GetExpectedPackets (rtx_seq r) = of_nat expected"
    using follows_expected [OF r(2) highest_ge] by (simp only: expected_def)
  have last: "unat (ucast (maxSeq (rtx_seq r)) + cycles (rtx_seq r)) = ?m"
    using unat_of_nat_less [where 'a = 32, of ?m] assms(4)
    by (simp only: add.commute [of "ucast _"] follows_extended [OF r(2)]) simp
  have count: "Suc (length as) < 2 ^ 31" using assms(7) by simp
  note loss = report_loss_first [OF exp count, folded lost_def, OF assms(8,9)]
  show ?thesis
    using first r SetTotalLost_small(2) [OF assms(8)] last
    by (simp add: RtxStream_GetRtcpReceiverReport_def ge loss)
qed

theorem RtxStream_report_witness:
  "\<exists>r report r'. rtx_receive_all [(5, 65534, 0), (20, 65536, 0), (40, 65538, 0)] (RtxStream_new 7) = (True, r) \<and>
    RtxStream_GetRtcpReceiverReport 90 r = Some (report, r') \<and> rr_ssrc report = 7 \<and> GetTotalLost report = 2 \<and>
    rr_fractionLost report = 102 \<and> unat (rr_lastSeq report) = 65538"
  using RtxStream_report [of 65534 "[(20, 65536, 0), (40, 65538, 0)]" 5 0 7 90]
  by (simp add: round_div_def)

subsection \<open>The score is a weighted average of the last scores\<close>

lemma score_loop_eq:
  "score_loop l w a t = (a + (\<Sum>i<length l. w + i + 1), t + (\<Sum>i<length l. (w + i + 1) * unat (l ! i)))"
proof (induction l arbitrary: w a t)
  case (Cons x l)
  show ?case
    by (simp add: Cons.IH sum.lessThan_Suc_shift del: sum.lessThan_Suc)
qed simp

lemma round_div_bounds:
  assumes "0 < b" and "lo * b \<le> a" and "a \<le> hi * b"
  shows "lo \<le> round_div a b \<and> round_div a b \<le> hi"
proof
  have "lo * (2 * b) \<le> 2 * a + b" using assms(2) by simp
  then show "lo \<le> round_div a b"
    unfolding round_div_def using assms(1) by (subst less_eq_div_iff_mult_less_eq) simp_all
  have "2 * a + b < Suc hi * (2 * b)" using assms(1,3) by simp
  then show "round_div a b \<le> hi"
    unfolding round_div_def using assms(1) by (simp add: div_less_iff_less_mult less_Suc_eq_le [symmetric])
qed

text \<open>The weighted average of a histogram: the oldest entry has weight 1, the next one weight 2 and so on.\<close>

definition weighted_average :: "u8 list \<Rightarrow> nat" where
  "weighted_average l = round_div (\<Sum>i<length l. (i + 1) * unat (l ! i)) (\<Sum>i<length l. i + 1)"

lemma weighted_average_bounds:
  assumes "l \<noteq> []" and "\<And>x. x \<in> set l \<Longrightarrow> lo \<le> unat x \<and> unat x \<le> hi"
  shows "lo \<le> weighted_average l \<and> weighted_average l \<le> hi"
  unfolding weighted_average_def
proof (rule round_div_bounds)
  show "0 < (\<Sum>i<length l. i + 1)" using assms(1) by (cases l) (simp_all add: sum.lessThan_Suc_shift del: sum.lessThan_Suc)
  show "lo * (\<Sum>i<length l. i + 1) \<le> (\<Sum>i<length l. (i + 1) * unat (l ! i))"
    unfolding sum_distrib_left using assms(2)
    by (intro sum_mono) (metis lessThan_iff mult.commute mult_le_mono2 nth_mem)
  show "(\<Sum>i<length l. (i + 1) * unat (l ! i)) \<le> hi * (\<Sum>i<length l. i + 1)"
    unfolding sum_distrib_left using assms(2)
    by (intro sum_mono) (metis lessThan_iff mult.commute mult_le_mono2 nth_mem)
qed

lemma weighted_average_less: "l \<noteq> [] \<Longrightarrow> weighted_average l < 256"
proof -
  have "unat x \<le> 255" for x :: u8 using unat_less [of x] by simp
  then show "l \<noteq> [] \<Longrightarrow> ?thesis" using weighted_average_bounds [of l 0 255] by simp
qed

fun score_run :: "(u64 \<times> u8) list \<Rightarrow> rtp_score \<Rightarrow> rtp_score \<times> score_event list" where
  "score_run [] s = (s, [])"
| "score_run ((t, sc) # us) s = (let (s, ev) = UpdateScore t sc s; (s, evs) = score_run us s in (s, ev @ evs))"

text \<open>What the listener knows of the score.\<close>

primrec score_view :: "u8 \<Rightarrow> score_event list \<Rightarrow> u8" where
  "score_view v [] = v"
| "score_view v (e # es) = (case e of OnRtpStreamScore new old \<Rightarrow> score_view new es)"

lemma score_view_append [simp]: "score_view v (es @ fs) = score_view (score_view v es) fs"
  by (induction es arbitrary: v) (simp_all split: score_event.split)

lemma UpdateScore_step:
  assumes "length (scores s) \<le> 24"
  shows "scores (fst (UpdateScore t sc s)) = drop (length (scores s) - 23) (scores s @ [sc])"
    and "unat (score (fst (UpdateScore t sc s))) = weighted_average (scores (fst (UpdateScore t sc s)))"
    and "snd (UpdateScore t sc s) =
      (if score (fst (UpdateScore t sc s)) = score s then [] else [OnRtpStreamScore (score (fst (UpdateScore t sc s))) (score s)])"
proof -
  define h where "h = (if length (scores s) = ScoreHistogramLength then tl (scores s) else scores s) @ [sc]"
  have loop: "score_loop h 0 0 0 = (\<Sum>i<length h. i + 1, \<Sum>i<length h. (i + 1) * unat (h ! i))"
    by (simp add: score_loop_eq)
  have h: "h = drop (length (scores s) - 23) (scores s @ [sc])"
    using assms by (cases "length (scores s) = 24") (auto simp: h_def drop_Suc tl_append split: list.split)
  have u: "unat (of_nat (weighted_average h) :: u8) = weighted_average h"
    using weighted_average_less [of h] by (simp add: unat_of_nat_less h_def)
  have eq: "UpdateScore t sc s =
    (let new = of_nat (weighted_average h); s1 = s\<lparr>scores := h, score := new\<rparr>
     in if new \<noteq> score s
        then (s1\<lparr>activeSinceMs := if score s = 0 then t else activeSinceMs s\<rparr>, [OnRtpStreamScore new (score s)])
        else (s1, []))"
    by (simp only: UpdateScore_def h_def [symmetric] loop Let_def prod.case weighted_average_def)
  show "scores (fst (UpdateScore t sc s)) = drop (length (scores s) - 23) (scores s @ [sc])"
    by (simp add: eq Let_def h)
  show "unat (score (fst (UpdateScore t sc s))) = weighted_average (scores (fst (UpdateScore t sc s)))"
    using u by (auto simp: eq Let_def)
  show "snd (UpdateScore t sc s) =
      (if score (fst (UpdateScore t sc s)) = score s then [] else [OnRtpStreamScore (score (fst (UpdateScore t sc s))) (score s)])"
    by (simp add: eq Let_def)
qed

lemma score_run_invariant:
  assumes "length (scores s) \<le> 24" and "scores s \<noteq> [] \<Longrightarrow> unat (score s) = weighted_average (scores s)"
  shows "scores (fst (score_run us s)) = drop (length (scores s) + length us - 24) (scores s @ map snd us) \<and>
    (scores s \<noteq> [] \<or> us \<noteq> [] \<longrightarrow> unat (score (fst (score_run us s))) = weighted_average (scores (fst (score_run us s)))) \<and>
    score_view (score s) (snd (score_run us s)) = score (fst (score_run us s))"
  using assms
proof (induction us arbitrary: s)
  case (Cons u us)
  obtain t sc where u: "u = (t, sc)" by (cases u)
  let ?s = "fst (UpdateScore t sc s)"
  note step = UpdateScore_step [OF Cons.prems(1), of t sc]
  have ne: "scores ?s \<noteq> []" using Cons.prems(1) by (simp add: step(1))
  have len: "length (scores ?s) \<le> 24" using Cons.prems(1) by (simp add: step(1))
  have view: "score_view (score s) (snd (UpdateScore t sc s)) = score ?s" by (simp add: step(3))
  have "scores (fst (score_run (u # us) s)) = drop (length (scores ?s) + length us - 24) (scores ?s @ map snd us)"
    using Cons.IH [OF len step(2)] by (simp add: u split_beta)
  also have "\<dots> = drop (length (scores s) + length (u # us) - 24) (scores s @ map snd (u # us))"
    using Cons.prems(1) by (cases "length (scores s) = 24") (auto simp: step(1) u drop_append)
  finally show ?case
    using Cons.IH [OF len step(2)] ne by (simp add: u split_beta view)
qed simp

text \<open>C36: after any non-empty sequence of added scores, a new stream keeps exactly the last 24 of them; its score is their
  average with weights increasing from the oldest to the newest, rounded to the nearest number (a half is rounded up), and lies between the least and the
  greatest of them; and the events that were sent tell the listener the score that the stream has.\<close>

theorem score_is_weighted_average:
  fixes initialScore :: u8 and startMs :: u64 and us :: "(u64 \<times> u8) list"
  assumes "us \<noteq> []"
  defines "s \<equiv> fst (score_run us (rtp_score_new initialScore startMs))"
    and "evs \<equiv> snd (score_run us (rtp_score_new initialScore startMs))"
    and "recent \<equiv> drop (length us - 24) (map snd us)"
  shows "scores s = recent \<and> unat (score s) = weighted_average recent \<and>
    Min (set recent) \<le> score s \<and> score s \<le> Max (set recent) \<and> score_view initialScore evs = score s"
proof -
  have inv: "scores s = recent" "unat (score s) = weighted_average recent" "score_view initialScore evs = score s"
    using score_run_invariant [of "rtp_score_new initialScore startMs" us] assms(1)
    by (simp_all add: rtp_score_new_def s_def evs_def recent_def)
  have ne: "recent \<noteq> []" using assms(1) by (cases us) (simp_all add: recent_def)
  have "unat (Min (set recent)) \<le> unat x \<and> unat x \<le> unat (Max (set recent))" if "x \<in> set recent" for x
    using that by (simp add: word_le_nat_alt [symmetric])
  then have "unat (Min (set recent)) \<le> weighted_average recent \<and> weighted_average recent \<le> unat (Max (set recent))"
    by (rule weighted_average_bounds [OF ne])
  with inv show ?thesis by (simp add: word_le_nat_alt)
qed

theorem score_is_weighted_average_witness:
  "scores (fst (score_run [(0, 1), (10, 2), (20, 3), (30, 4)] (rtp_score_new 10 0))) = [1, 2, 3, 4] \<and>
   unat (score (fst (score_run [(0, 1), (10, 2), (20, 3), (30, 4)] (rtp_score_new 10 0)))) = 3"
proof -
  have "weighted_average [1, 2, 3, 4] = 3" by code_simp
  then show ?thesis
    using score_is_weighted_average [of "[(0, 1), (10, 2), (20, 3), (30, 4)]" 10 0] by simp
qed

subsection \<open>Defects\<close>

text \<open>A stream whose first sequence number is 0 starts with \<open>maxSeq\<close> 65535, so its first packet counts as a new cycle:
  65537 packets are expected after the first one.\<close>

lemma first_seq_zero_counts_cycle:
  "map_prod id GetExpectedPackets (seq_ReceivePacket t 0 ts rtp_seq_new) = (True, 65537)"
proof -
  have "(0 :: u16) < - 1" by code_simp
  then show ?thesis
    by (simp add: seq_ReceivePacket_def rtp_seq_new_def InitSeq_def UpdateSeq_def GetExpectedPackets_def Let_def)
qed

text \<open>The re-synchronization after two sequential packets far away keeps \<open>cycles\<close>, so a stream in its second cycle
  that restarts at any number expects 65537 packets after it.\<close>

lemma resync_keeps_cycles:
  assumes "seq_follows b m s" and "65536 \<le> m" and "m < 131072" and "3000 \<le> seq - maxSeq s" and "unat (seq - maxSeq s) \<le> 64036"
    and "badSeq s = ucast seq"
  shows "map_prod id GetExpectedPackets (UpdateSeq t seq ts s) = (True, 65537)"
proof -
  have "m div 65536 = 1" using assms(2,3) by simp
  then have "cycles s = 65536" using assms(1) by (simp add: seq_follows_def)
  then show ?thesis
    using assms(4,5,6)
    by (simp add: UpdateSeq_def InitSeq_def GetExpectedPackets_def Let_def word_le_nat_alt unat_ucast_le word_less_nat_alt)
qed

text \<open>A tie is rounded up: the scores 2, 2, 3 have the weighted average 2.5 and the stream has score 3.\<close>

lemma half_rounded_up: "score (fst (score_run [(0, 2), (10, 2), (20, 3)] (rtp_score_new 10 0))) = 3" "2 * (1 * 2 + 2 * 2 + 3 * 3) = 5 * (1 + 2 + 3 :: nat)"
  by code_simp+

text \<open>When at least 511 of 512 packets of an interval are lost, the rounded quotient is 256 and does not fit the byte.\<close>

lemma fraction_overflow: "interval_fraction 512 1 = None"
  by (simp add: interval_fraction_def round_div_def)

end
