(* ===== verification/RtpStreamSend.thy ===== *)
theory RtpStreamSend
  imports RtpStream RtpPacket_Extensions RateCalculator Rtcp_Items
begin

text \<open>
  \<^verbatim>\<open>RTC::RtpStreamSend\<close> (\<^verbatim>\<open>src/RTC/RtpStreamSend.cpp\<close>): a stream that is sent to a remote receiver. It keeps copies of the
  latest packets and sends them again when the receiver asks for them, encoded as RTX packets when an RTX stream is
  negotiated.

  The vector \<^verbatim>\<open>buffer\<close> of 65536 pointers is a map from sequence numbers to positions of \<^verbatim>\<open>storage\<close>. The memory of a
  storage item is the memory of its packet while it has one. \<open>None\<close> is a failed assertion, a null pointer that
  is followed, an access outside a vector or a division by zero.
\<close>

subsection \<open>State\<close>

abbreviation (input) "MtuSize \<equiv> (1500 :: nat)"
abbreviation (input) "MaxRequestedPackets \<equiv> (17 :: nat)"
abbreviation (input) "MaxRetransmissionDelay \<equiv> (2000 :: u32)"

record 'h StorageItem =
  st_packet :: "'h rtp_packet option"
  store :: bytes
  resentAtMs :: u64
  sentTimes :: u8
  rtxEncoded :: bool

record 'h rtp_stream_send = rtp_stream +
  snd_packetsLost :: u32
  snd_fractionLost :: u8
  lostPriorScore :: u32
  sentPriorScore :: u32
  buffer :: "u16 \<rightharpoonup> nat"
  bufferStartIdx :: u16
  bufferSize :: nat
  storage :: "'h StorageItem list"
  rtxSeq :: u16
  transmissionCounter :: rtp_data_counter

definition StorageItem_new :: "'h StorageItem" where
  "StorageItem_new = \<lparr>st_packet = None, store = replicate (MtuSize + 100) 0, resentAtMs = 0, sentTimes = 0, rtxEncoded = False\<rparr>"

definition RtpStreamSend_new :: "rtp_params \<Rightarrow> nat \<Rightarrow> u64 \<Rightarrow> 'h rtp_stream_send" where
  "RtpStreamSend_new pars storageSize nowMs =
     \<lparr>params = pars, strm_seq = rtp_seq_new, strm_score = rtp_score_new 10 nowMs, packetsRetransmitted = 0,
      packetsRepaired = 0, nackCount = 0, nackPacketCount = 0, pliCount = 0, firCount = 0, repairedPriorScore = 0,
      retransmittedPriorScore = 0, lastSenderReportNtpMs = 0, lastSenderReporTs = 0, rtxStream = None,
      snd_packetsLost = 0, snd_fractionLost = 0, lostPriorScore = 0, sentPriorScore = 0, buffer = Map.empty,
      bufferStartIdx = 0, bufferSize = 0, storage = replicate storageSize StorageItem_new, rtxSeq = 0,
      transmissionCounter = RtpDataCounter_new 2500\<rparr>"

subsection \<open>The retransmission buffer\<close>

definition reset_item :: "'h StorageItem \<Rightarrow> 'h StorageItem" where
  "reset_item x = \<lparr>st_packet = None, store = (case st_packet x of Some p \<Rightarrow> rtp_mem p | None \<Rightarrow> store x),
     resentAtMs = 0, sentTimes = 0, rtxEncoded = False\<rparr>"

definition resetStorageItem :: "nat option \<Rightarrow> 'h rtp_stream_send \<Rightarrow> 'h rtp_stream_send option" where
  "resetStorageItem item s =
     (case item of
        None \<Rightarrow> None
      | Some i \<Rightarrow> if i < length (storage s) then Some (s\<lparr>storage := (storage s)[i := reset_item (storage s ! i)]\<rparr>) else None)"

text \<open>The loop of \<^verbatim>\<open>UpdateBufferStartIdx\<close>: at most \<open>n\<close> positions from \<open>seq\<close> on.\<close>

fun next_used :: "(u16 \<rightharpoonup> nat) \<Rightarrow> nat \<Rightarrow> u16 \<Rightarrow> u16 option" where
  "next_used b 0 seq = None"
| "next_used b (Suc n) seq = (if b seq \<noteq> None then Some seq else next_used b n (seq + 1))"

definition UpdateBufferStartIdx :: "'h rtp_stream_send \<Rightarrow> 'h rtp_stream_send" where
  "UpdateBufferStartIdx s =
     (case next_used (buffer s) 65536 (bufferStartIdx s + 1) of None \<Rightarrow> s | Some seq \<Rightarrow> s\<lparr>bufferStartIdx := seq\<rparr>)"

text \<open>The last step of \<^verbatim>\<open>StorePacket\<close>: the packet is cloned into the item.\<close>

definition clone_into :: "nat \<Rightarrow> 'h rtp_packet \<Rightarrow> 'h rtp_stream_send \<Rightarrow> 'h rtp_stream_send option" where
  "clone_into i packet s =
     (if i < length (storage s) then do {
        q \<leftarrow> Clone (store (storage s ! i)) packet;
        Some (s\<lparr>storage := (storage s)[i := (storage s ! i)\<lparr>st_packet := Some q\<rparr>]\<rparr>) }
      else None)"

definition StorePacket :: "'h rtp_packet \<Rightarrow> 'h rtp_stream_send \<Rightarrow> 'h rtp_stream_send option" where
  "StorePacket packet s =
     (if rtp_size packet > MtuSize then Some s
      else do {
        seq \<leftarrow> GetSequenceNumber packet;
        if bufferSize s = 0 then
          clone_into 0 packet (s\<lparr>buffer := (buffer s)(seq \<mapsto> 0), bufferSize := 1, bufferStartIdx := seq\<rparr>)
        else case buffer s seq of
          Some i \<Rightarrow> do {
            storedPacket \<leftarrow> (if i < length (storage s) then st_packet (storage s ! i) else None);
            ts \<leftarrow> GetTimestamp packet;
            storedTs \<leftarrow> GetTimestamp storedPacket;
            if ts = storedTs then Some s
            else do {
              s \<leftarrow> resetStorageItem (Some i) s;
              let s = (if bufferStartIdx s = seq then UpdateBufferStartIdx s else s);
              clone_into i packet s } }
        | None \<Rightarrow>
            if bufferSize s < length (storage s) then
              clone_into (bufferSize s) packet (s\<lparr>buffer := (buffer s)(seq \<mapsto> bufferSize s), bufferSize := bufferSize s + 1\<rparr>)
            else do {
              let first = buffer s (bufferStartIdx s);
              s \<leftarrow> resetStorageItem first s;
              let s = UpdateBufferStartIdx (s\<lparr>buffer := (buffer s)(bufferStartIdx s := None)\<rparr>);
              i \<leftarrow> first;
              clone_into i packet (s\<lparr>buffer := (buffer s)(seq \<mapsto> i)\<rparr>) } })"

text \<open>\<^verbatim>\<open>ClearBuffer\<close> visits all positions of the buffer.\<close>

fun clear_loop :: "u16 list \<Rightarrow> 'h rtp_stream_send \<Rightarrow> 'h rtp_stream_send option" where
  "clear_loop [] s = Some s"
| "clear_loop (idx # idxs) s =
     (case buffer s idx of
        None \<Rightarrow> clear_loop idxs s
      | Some i \<Rightarrow> do {
          s \<leftarrow> resetStorageItem (Some i) s;
          clear_loop idxs (s\<lparr>buffer := (buffer s)(idx := None)\<rparr>) })"

definition ClearBuffer :: "'h rtp_stream_send \<Rightarrow> 'h rtp_stream_send option" where
  "ClearBuffer s =
     (if storage s = [] then Some s
      else do {
        s \<leftarrow> clear_loop (map of_nat [0..<65536]) s;
        Some (s\<lparr>bufferStartIdx := 0, bufferSize := 0\<rparr>) })"

subsection \<open>Retransmission\<close>

text \<open>The work for one requested sequence number: the position that goes into the container, if any. \<open>rtt\<close> is the round trip
  time in milliseconds, truncated from its floating-point value, or 100 when it is unknown.\<close>

definition resend :: "u64 \<Rightarrow> u16 \<Rightarrow> u16 \<Rightarrow> 'h rtp_stream_send \<Rightarrow> (nat option \<times> 'h rtp_stream_send) option" where
  "resend nowMs rtt seq s =
     (if storage s = [] then None
      else case buffer s seq of
        None \<Rightarrow> Some (None, s)
      | Some i \<Rightarrow> do {
          item \<leftarrow> (if i < length (storage s) then Some (storage s ! i) else None);
          packet \<leftarrow> st_packet item;
          ts \<leftarrow> GetTimestamp packet;
          let diffTs = maxPacketTs (strm_seq s) - ts;
          diffMs \<leftarrow> (if par_clockRate (params s) = 0 then None else Some (diffTs * 1000 div par_clockRate (params s)));
          if diffMs > MaxRetransmissionDelay then Some (None, s)
          else if resentAtMs item \<noteq> 0 \<and> nowMs - resentAtMs item \<le> ucast rtt then Some (None, s)
          else do {
            (item, s) \<leftarrow>
              (if rtxStream s \<noteq> None then do {
                 let s = s\<lparr>rtxSeq := rtxSeq s + 1\<rparr>;
                 packet \<leftarrow> (if \<not> rtxEncoded item
                           then RtxEncode (par_rtxPayloadType (params s)) (par_rtxSsrc (params s)) (rtxSeq s) packet
                           else SetSequenceNumber (rtxSeq s) packet);
                 Some (item\<lparr>st_packet := Some packet, rtxEncoded := True\<rparr>, s) }
               else Some (item, s));
            let item = item\<lparr>resentAtMs := nowMs, sentTimes := sentTimes item + 1\<rparr>;
            Some (Some i, s\<lparr>storage := (storage s)[i := item]\<rparr>) } })"

text \<open>The loop over the bit mask. The container is written up to its current length; it has room for
  \<open>MaxRequestedPackets + 1\<close> entries.\<close>

function fill_loop ::
  "u64 \<Rightarrow> u16 \<Rightarrow> u16 \<Rightarrow> bool \<Rightarrow> u16 \<Rightarrow> nat list \<Rightarrow> 'h rtp_stream_send \<Rightarrow> (nat list \<times> 'h rtp_stream_send) option" where
  "fill_loop nowMs rtt currentSeq requested bitmask container s =
     (if \<not> requested \<and> bitmask = 0 then Some (container, s)
      else case (if requested then resend nowMs rtt currentSeq s else Some (None, s)) of
        None \<Rightarrow> None
      | Some (sent, s) \<Rightarrow>
          if sent \<noteq> None \<and> length container > MaxRequestedPackets then None
          else fill_loop nowMs rtt (currentSeq + 1) (bitmask AND 1 \<noteq> 0) (drop_bit 1 bitmask)
                 (container @ (case sent of None \<Rightarrow> [] | Some i \<Rightarrow> [i])) s)"
  by pat_completeness auto

termination
proof (relation "measure (\<lambda>(nowMs, rtt, seq, requested, bitmask, c, s). 2 * unat bitmask + (if requested then 1 else 0))", goal_cases)
  case (2 nowMs rtt currentSeq requested bitmask container s x sent s')
  have "unat (drop_bit 1 bitmask) = unat bitmask div 2" by (simp add: unat_drop_bit_eq drop_bit_eq_div [where 'a = nat])
  moreover have "bitmask AND 1 \<noteq> 0 \<longleftrightarrow> odd (unat bitmask)"
    by (simp add: and_one_eq mod_2_eq_odd bit_0 [symmetric] bit_unsigned_iff)
  moreover have "requested \<or> 0 < unat bitmask" using 2(1) by (simp add: unat_gt_0)
  ultimately show ?case by (auto elim: evenE oddE)
qed simp

declare fill_loop.simps [simp del]

definition FillRetransmissionContainer ::
  "u64 \<Rightarrow> u16 \<Rightarrow> u16 \<Rightarrow> u16 \<Rightarrow> 'h rtp_stream_send \<Rightarrow> (nat list \<times> 'h rtp_stream_send) option" where
  "FillRetransmissionContainer nowMs rtt seq bitmask s =
     (if \<not> par_useNack (params s) then Some ([], s)
      else do {
        (container, s) \<leftarrow> fill_loop nowMs rtt seq True bitmask [] s;
        if length container > MaxRequestedPackets then None else Some (container, s) })"

text \<open>The packets of the container are handed to the listener, one after the other.\<close>

fun retransmit :: "nat list \<Rightarrow> 'h rtp_stream_send \<Rightarrow> ('h rtp_packet list \<times> 'h rtp_stream_send) option" where
  "retransmit [] s = Some ([], s)"
| "retransmit (i # is) s = do {
     item \<leftarrow> (if i < length (storage s) then Some (storage s ! i) else None);
     packet \<leftarrow> st_packet item;
     let s = PacketRetransmitted s;
     let s = (if sentTimes item = 1 then PacketRepaired s else s);
     (ps, s) \<leftarrow> retransmit is s;
     Some (packet # ps, s) }"

fun nack_items :: "u64 \<Rightarrow> u16 \<Rightarrow> NackItem list \<Rightarrow> 'h rtp_stream_send \<Rightarrow> ('h rtp_packet list \<times> 'h rtp_stream_send) option" where
  "nack_items nowMs rtt [] s = Some ([], s)"
| "nack_items nowMs rtt (item # items) s = do {
     let s = s\<lparr>nackPacketCount := nackPacketCount s + CountRequestedPackets item\<rparr>;
     (container, s) \<leftarrow> FillRetransmissionContainer nowMs rtt (nack_packetId item) (nack_lostPacketBitmask item) s;
     (ps, s) \<leftarrow> retransmit container s;
     (qs, s) \<leftarrow> nack_items nowMs rtt items s;
     Some (ps @ qs, s) }"

definition ReceiveNack :: "u64 \<Rightarrow> u16 \<Rightarrow> NackItem list \<Rightarrow> 'h rtp_stream_send \<Rightarrow> ('h rtp_packet list \<times> 'h rtp_stream_send) option" where
  "ReceiveNack nowMs rtt items s = nack_items nowMs rtt items (s\<lparr>nackCount := nackCount s + 1\<rparr>)"

subsection \<open>Sending and reports\<close>

definition Send_SetRtx :: "u16 \<Rightarrow> u8 \<Rightarrow> u32 \<Rightarrow> 'h rtp_stream_send \<Rightarrow> 'h rtp_stream_send" where
  "Send_SetRtx rand payloadType ssrc s = (SetRtx payloadType ssrc s)\<lparr>rtxSeq := rand\<rparr>"

definition Send_ReceivePacket :: "u64 \<Rightarrow> 'h rtp_packet \<Rightarrow> 'h rtp_stream_send \<Rightarrow> (bool \<times> 'h rtp_stream_send) option" where
  "Send_ReceivePacket nowMs packet s = do {
     seq \<leftarrow> GetSequenceNumber packet;
     ts \<leftarrow> GetTimestamp packet;
     let (valid, q) = seq_ReceivePacket nowMs seq ts (strm_seq s);
     let s = s\<lparr>strm_seq := q\<rparr>;
     if \<not> valid then Some (False, s)
     else do {
       s \<leftarrow> (if storage s \<noteq> [] then StorePacket packet s else Some s);
       c \<leftarrow> RtpDataCounter_Update (rtp_size packet) (unat nowMs) (transmissionCounter s);
       Some (True, s\<lparr>transmissionCounter := c\<rparr>) } }"

definition ReceiveKeyFrameRequest :: "fb_ps_type \<Rightarrow> 'h rtp_stream_send \<Rightarrow> 'h rtp_stream_send" where
  "ReceiveKeyFrameRequest messageType s =
     (case messageType of
        PLI \<Rightarrow> s\<lparr>pliCount := pliCount s + 1\<rparr>
      | FIR \<Rightarrow> s\<lparr>firCount := firCount s + 1\<rparr>
      | _ \<Rightarrow> s)"

text \<open>The round trip time in units of 1/65536 seconds.\<close>

definition report_rtt :: "u64 \<Rightarrow> u32 \<Rightarrow> u32 \<Rightarrow> u32" where
  "report_rtt nowMs lastSr dlsr =
     (let ntp = TimeMs2Ntp nowMs;
          compactNtp = push_bit 16 (seconds ntp AND 0xFFFF) OR drop_bit 16 (fractions ntp AND 0xFFFF0000)
      in if lastSr \<noteq> 0 \<and> dlsr \<noteq> 0 \<and> compactNtp > dlsr + lastSr then compactNtp - dlsr - lastSr else 0)"

text \<open>The score of an interval. \<open>scoreOf\<close> is the floating-point formula of the delivered ratio, which uses \<open>std::pow\<close>.\<close>

definition Send_UpdateScore ::
  "(nat \<Rightarrow> u32 \<Rightarrow> u32 \<Rightarrow> u32 \<Rightarrow> u8) \<Rightarrow> u64 \<Rightarrow> ReceiverReport \<Rightarrow> 'h rtp_stream_send \<Rightarrow>
   ('h rtp_stream_send \<times> score_event list) option" where
  "Send_UpdateScore scoreOf nowMs report s =
     (let totalSent = dc_packets (transmissionCounter s);
          sent = sub64 totalSent (unat (sentPriorScore s));
          totalLost = (if sint (GetTotalLost report) > 0 then GetTotalLost report else 0);
          lost = (if totalLost < lostPriorScore s then 0 else totalLost - lostPriorScore s);
          repaired = of_nat (packetsRepaired s) - of_nat (repairedPriorScore s) :: u32;
          retransmitted = of_nat (packetsRetransmitted s) - of_nat (retransmittedPriorScore s) :: u32;
          s = s\<lparr>sentPriorScore := of_nat totalSent, lostPriorScore := totalLost, repairedPriorScore := packetsRepaired s,
                retransmittedPriorScore := packetsRetransmitted s\<rparr>
      in if sent = 0 then
           let (q, ev) = UpdateScore nowMs 10 (strm_score s) in Some (s\<lparr>strm_score := q\<rparr>, ev)
         else
           let lost = (if unat lost > sent then of_nat sent else lost);
               repaired = (if repaired > lost then lost else repaired)
           in if retransmitted < repaired then None
              else let (q, ev) = UpdateScore nowMs (scoreOf sent lost repaired retransmitted) (strm_score s)
                   in Some (s\<lparr>strm_score := q\<rparr>, ev))"

definition ReceiveRtcpReceiverReport ::
  "(nat \<Rightarrow> u32 \<Rightarrow> u32 \<Rightarrow> u32 \<Rightarrow> u8) \<Rightarrow> u64 \<Rightarrow> ReceiverReport \<Rightarrow> 'h rtp_stream_send \<Rightarrow>
   ('h rtp_stream_send \<times> score_event list) option" where
  "ReceiveRtcpReceiverReport scoreOf nowMs report s =
     Send_UpdateScore scoreOf nowMs report (s\<lparr>snd_packetsLost := GetTotalLost report, snd_fractionLost := rr_fractionLost report\<rparr>)"

definition GetRtcpSenderReport :: "u64 \<Rightarrow> 'h rtp_stream_send \<Rightarrow> SenderReport option \<times> 'h rtp_stream_send" where
  "GetRtcpSenderReport nowMs s =
     (if dc_packets (transmissionCounter s) = 0 then (None, s)
      else
        let ntp = TimeMs2Ntp nowMs;
            diffMs = nowMs - maxPacketMs (strm_seq s);
            diffTs = diffMs * ucast (par_clockRate (params s)) div 1000;
            rtpTs = ucast (ucast (maxPacketTs (strm_seq s)) + diffTs)
        in (Some \<lparr>sr_ssrc = par_ssrc (params s), sr_ntpSec = seconds ntp, sr_ntpFrac = fractions ntp, sr_rtpTs = rtpTs,
                  sr_packetCount = of_nat (dc_packets (transmissionCounter s)),
                  sr_octetCount = of_nat (GetBytes (dc_rate (transmissionCounter s)))\<rparr>,
            s\<lparr>lastSenderReportNtpMs := nowMs, lastSenderReporTs := rtpTs\<rparr>))"

definition GetRtcpSdesChunk :: "'h rtp_stream_send \<Rightarrow> SdesChunk option" where
  "GetRtcpSdesChunk s = do {
     item \<leftarrow> SdesItem_new 1 (length (par_cname (params s))) (par_cname (params s));
     Some \<lparr>chunk_ssrc = par_ssrc (params s), chunk_items = [item]\<rparr> }"

definition Send_Pause :: "'h rtp_stream_send \<Rightarrow> 'h rtp_stream_send option" where
  "Send_Pause s = ClearBuffer s"

subsection \<open>What a packet carries\<close>

text \<open>The content of a media packet, and the one an RTX packet carries for its receiver.\<close>

type_synonym content = "u16 option \<times> u32 option \<times> bool option \<times> bytes"

definition rtp_content :: "'h rtp_packet \<Rightarrow> content" where
  "rtp_content p = (GetSequenceNumber p, GetTimestamp p, HasMarker p, payload_bytes p)"

definition rtx_content :: "'h rtp_packet \<Rightarrow> content" where
  "rtx_content p = (Get2Bytes (rtp_mem p) (payload p), GetTimestamp p, HasMarker p, drop 2 (payload_bytes p))"

lemma payload_bytes_nth:
  "rtp_wf p \<Longrightarrow> length (payload_bytes p) = payloadLength p"
  "rtp_wf p \<Longrightarrow> i < payloadLength p \<Longrightarrow> payload_bytes p ! i = rtp_mem p ! (payload p + i)"
  using rtp_wf_facts [of p] by (auto simp: payload_bytes_def)

lemma get_prefix:
  assumes "take n m = take n m'" and "12 \<le> n" and "12 \<le> length m" "12 \<le> length m'"
  shows "Get2Bytes m 2 = Get2Bytes m' 2" "Get4Bytes m 4 = Get4Bytes m' 4" "Get1Byte m 1 = Get1Byte m' 1"
proof -
  have n: "m ! i = m' ! i" if "i < n" for i using assms(1) that by (metis nth_take)
  have t: "take k (drop i m) = take k (drop i m')" if "i + k \<le> n" for i k
    using that arg_cong [OF assms(1), of "\<lambda>xs. drop i (take (k + i) xs)"] by (simp add: take_drop add.commute)
  show "Get2Bytes m 2 = Get2Bytes m' 2"
    using assms(2-4) t [of 2 2] byte2.get_at [of 2 m] byte2.get_at [of 2 m'] by simp
  show "Get4Bytes m 4 = Get4Bytes m' 4"
    using assms(2-4) t [of 4 4] byte4.get_at [of 4 m] byte4.get_at [of 4 m'] by simp
  show "Get1Byte m 1 = Get1Byte m' 1" using assms(2-4) n by (simp add: Get1Byte_def)
qed

lemma Clone_content:
  assumes wf: "rtp_wf p" and cap: "rtp_size p \<le> length st"
  shows "\<exists>q. Clone st p = Some q \<and> rtp_wf q \<and> length (rtp_mem q) = length st \<and> rtp_size q = rtp_size p \<and>
    rtp_content q = rtp_content p"
proof -
  obtain q where q: "Clone st p = Some q" "rtp_wf q" "length (rtp_mem q) = length st"
    "take (payload p + payloadLength p) (rtp_mem q) = take (payload p + payloadLength p) (rtp_mem p)"
    "payload_bytes q = payload_bytes p" "rtp_size q = rtp_size p" using Clone_wf [OF wf cap] by blast
  have "12 \<le> payload p + payloadLength p" "12 \<le> length (rtp_mem q)" "12 \<le> length (rtp_mem p)"
    using rtp_wf_facts [OF wf] rtp_wf_facts [OF q(2)] by linarith+
  then have "rtp_content q = rtp_content p"
    using get_prefix [OF q(4)] q(5)
    by (simp add: rtp_content_def GetSequenceNumber_def GetTimestamp_def HasMarker_def)
  with q show ?thesis by blast
qed

lemma RtxEncode_content:
  assumes wf: "rtp_wf p" and cap: "payload p + payloadLength p + 2 \<le> length (rtp_mem p)"
  shows "\<exists>q. RtxEncode pt ssrc seq p = Some q \<and> rtp_wf q \<and> length (rtp_mem q) = length (rtp_mem p) \<and>
    payload q + payloadLength q = payload p + payloadLength p + 2 \<and> 2 \<le> payloadLength q \<and> rtx_content q = rtp_content p \<and>
    GetSequenceNumber q = Some seq \<and> GetSsrc q = Some ssrc \<and> GetPayloadType q = Some (pt AND 0x7F)"
proof -
  note f = rtp_wf_facts [OF wf]
  obtain m where m: "RtxEncode pt ssrc seq p = Some (p\<lparr>rtp_mem := m, payloadLength := payloadLength p + 2,
      rtp_size := payload p + payloadLength p + 2, payloadPadding := 0\<rparr>)" (is "_ = Some ?q")
    and e: "length m = length (rtp_mem p)" "m ! 0 = rtp_mem p ! 0 AND 0xDF"
      "m ! 1 = (rtp_mem p ! 1 AND 0x80) OR (pt AND 0x7F)" "Get2Bytes m 2 = Some seq"
      "Get4Bytes m 4 = Get4Bytes (rtp_mem p) 4" "Get4Bytes m 8 = Some ssrc"
      "\<forall>i. 12 \<le> i \<and> i < payload p \<longrightarrow> m ! i = rtp_mem p ! i" "Get2Bytes m (payload p) = Get2Bytes (rtp_mem p) 2"
      "\<forall>i < payloadLength p. m ! (payload p + 2 + i) = rtp_mem p ! (payload p + i)"
    using RtxEncode_spec [OF wf cap, of pt ssrc seq] by blast
  have q: "rtp_wf ?q" using cap e(1,2,7) by (intro rtx_wf [OF wf]) simp_all
  have "drop 2 (payload_bytes ?q) = payload_bytes p"
    using payload_bytes_nth [OF q] payload_bytes_nth [OF wf] e(9)
    by (intro nth_equalityI) (simp_all add: add.assoc)
  moreover have "1 < length (rtp_mem p)" using f by simp
  ultimately show ?thesis
    using m q e
    by (intro exI [of _ ?q])
      (simp add: rtx_content_def rtp_content_def GetPayloadType_def GetSsrc_def GetSequenceNumber_def GetTimestamp_def HasMarker_def
        Get1Byte_def payload_type_marker)
qed

lemma SetSequenceNumber_content:
  assumes wf: "rtp_wf p" and n: "2 \<le> payloadLength p"
  shows "\<exists>q. SetSequenceNumber seq p = Some q \<and> rtp_wf q \<and> length (rtp_mem q) = length (rtp_mem p) \<and>
    payload q = payload p \<and> payloadLength q = payloadLength p \<and> rtx_content q = rtx_content p \<and>
    GetSequenceNumber q = Some seq \<and> GetSsrc q = GetSsrc p \<and> GetPayloadType q = GetPayloadType p"
proof -
  note f = rtp_wf_facts [OF wf]
  obtain m where m: "Set2Bytes (rtp_mem p) 2 seq = Some m" using f by (auto simp: Set2Bytes_eq)
  note nth = Set2Bytes_nth [OF m]
  let ?q = "p\<lparr>rtp_mem := m\<rparr>"
  have pos: "0 < length (rtp_mem p)" using f(1-3) by linarith
  have b0: "m ! 0 = rtp_mem p ! 0" using nth(2) [of 0] pos by simp
  have same: "same_headers (rtp_mem p) m" using nth f b0 by (simp add: same_headers_def)
  have "rtp_size p - 1 < length (rtp_mem p)" "4 \<le> rtp_size p - 1" using f(1-3) by linarith+
  then have last: "m ! (rtp_size p - 1) = rtp_mem p ! (rtp_size p - 1)" by (intro nth(2) disjI2) simp_all
  have q: "rtp_wf ?q"
  proof (rule rtp_wf_change [OF wf])
    show "payloadPadding ?q \<noteq> 0 \<Longrightarrow> rtp_mem ?q ! (rtp_size ?q - 1) = payloadPadding ?q"
      using wf last by (simp add: rtp_wf_def Let_def rtp_layout_def)
    show "bit (rtp_mem ?q ! 0) 5 \<longleftrightarrow> payloadPadding ?q \<noteq> 0" using b0 f by simp
  qed (use same f in simp_all)
  have bounds: "12 \<le> payload p" "payload p + payloadLength p \<le> length (rtp_mem p)" "2 \<le> payloadLength p" using f(1-3) n by linarith+
  have eq: "m ! j = rtp_mem p ! j" if "4 \<le> j \<or> j < 2" "j < length (rtp_mem p)" for j using that by (intro nth(2)) auto
  have "payload_bytes ?q = payload_bytes p" using nth(1) eq bounds by (intro payload_bytes_eqI) simp_all
  moreover have "Get2Bytes m (payload p) = Get2Bytes (rtp_mem p) (payload p)" "Get4Bytes m 4 = Get4Bytes (rtp_mem p) 4"
    "Get4Bytes m 8 = Get4Bytes (rtp_mem p) 8"
    using nth(1) eq bounds by (intro byte2.get_cong byte4.get_cong; simp)+
  moreover have "Get1Byte m 1 = Get1Byte (rtp_mem p) 1" using nth(1) eq [of 1] by (simp add: Get1Byte_def)
  ultimately show ?thesis
    using m nth(1,3) q
    by (simp add: SetSequenceNumber_def rtx_content_def GetSequenceNumber_def GetTimestamp_def HasMarker_def GetSsrc_def GetPayloadType_def)
qed

lemma RtxDecode_content:
  assumes wf: "rtp_wf p" and n: "2 \<le> payloadLength p"
  shows "\<exists>q. RtxDecode pt ssrc p = Some (True, q) \<and> rtp_content q = rtx_content p"
proof -
  note f = rtp_wf_facts [OF wf]
  obtain m where m: "RtxDecode pt ssrc p = Some (True, p\<lparr>rtp_mem := m, payloadLength := payloadLength p - 2,
      rtp_size := payload p + payloadLength p - 2, payloadPadding := 0\<rparr>)" (is "_ = Some (True, ?q)")
    and d: "length m = length (rtp_mem p)" "m ! 0 = rtp_mem p ! 0 AND 0xDF" "m ! 1 = (rtp_mem p ! 1 AND 0x80) OR (pt AND 0x7F)"
      "Get2Bytes m 2 = Get2Bytes (rtp_mem p) (payload p)" "Get4Bytes m 4 = Get4Bytes (rtp_mem p) 4"
      "\<forall>i. 12 \<le> i \<and> i < payload p \<longrightarrow> m ! i = rtp_mem p ! i"
      "\<forall>i < payloadLength p - 2. m ! (payload p + i) = rtp_mem p ! (payload p + 2 + i)"
    using RtxDecode_spec [OF wf n, of pt ssrc] by blast
  have q: "rtp_wf ?q" using f n d(1,2,6) by (intro rtx_wf [OF wf]) simp_all
  have "payload_bytes ?q = drop 2 (payload_bytes p)"
    using payload_bytes_nth [OF q] payload_bytes_nth [OF wf] d(7)
    by (intro nth_equalityI) (simp_all add: add.assoc)
  moreover have "1 < length (rtp_mem p)" using f by simp
  ultimately show ?thesis
    using m d
    by (simp add: rtx_content_def rtp_content_def GetSequenceNumber_def GetTimestamp_def HasMarker_def Get1Byte_def payload_type_marker)
qed

subsection \<open>The invariant of the retransmission buffer\<close>

text \<open>A used storage item holds the content of a packet, as a copy or RTX encoded; a free one is reset.\<close>

definition item_holds :: "'h StorageItem \<Rightarrow> content \<Rightarrow> bool" where
  "item_holds x c \<longleftrightarrow> (case st_packet x of None \<Rightarrow> False | Some q \<Rightarrow>
     rtp_wf q \<and> length (rtp_mem q) = 1600 \<and>
     (if rtxEncoded x then 2 \<le> payloadLength q \<and> rtx_content q = c
      else payload q + payloadLength q \<le> 1500 \<and> rtp_content q = c))"

definition item_free :: "'h StorageItem \<Rightarrow> bool" where
  "item_free x \<longleftrightarrow> st_packet x = None \<and> length (store x) = 1600 \<and> resentAtMs x = 0 \<and> sentTimes x = 0 \<and> \<not> rtxEncoded x"

text \<open>The used positions of the buffer are in bijection with the first \<open>bufferSize\<close> storage items, the start index is a used
  position, and every used item holds a packet of the log \<open>R\<close> with the sequence number of its position.\<close>

definition buffer_inv :: "content set \<Rightarrow> 'h rtp_stream_send \<Rightarrow> bool" where
  "buffer_inv R s \<longleftrightarrow>
     2 \<le> length (storage s) \<and> bufferSize s \<le> length (storage s) \<and>
     ran (buffer s) = {0..<bufferSize s} \<and> inj_on (buffer s) (dom (buffer s)) \<and>
     (0 < bufferSize s \<longrightarrow> bufferStartIdx s \<in> dom (buffer s)) \<and>
     (\<forall>seq i. buffer s seq = Some i \<longrightarrow> (\<exists>c \<in> R. fst c = Some seq \<and> item_holds (storage s ! i) c)) \<and>
     (\<forall>i. bufferSize s \<le> i \<and> i < length (storage s) \<longrightarrow> item_free (storage s ! i))"

lemma buffer_inv_used:
  assumes "buffer_inv R s" and "buffer s seq = Some i"
  shows "i < bufferSize s" "i < length (storage s)" "\<exists>c \<in> R. fst c = Some seq \<and> item_holds (storage s ! i) c" "0 < bufferSize s"
proof -
  show i: "i < bufferSize s" using assms by (auto simp: buffer_inv_def ran_def)
  then show "i < length (storage s)" "0 < bufferSize s" using assms(1) by (auto simp: buffer_inv_def)
  show "\<exists>c \<in> R. fst c = Some seq \<and> item_holds (storage s ! i) c" using assms by (auto simp: buffer_inv_def)
qed

lemma buffer_inv_inj:
  "buffer_inv R s \<Longrightarrow> buffer s seq = Some i \<Longrightarrow> buffer s seq' = Some i \<Longrightarrow> seq = seq'"
  by (auto simp: buffer_inv_def inj_on_def dom_def)

lemma reset_item_free: "item_holds x c \<Longrightarrow> item_free (reset_item x)"
  by (auto simp: item_holds_def item_free_def reset_item_def split: option.splits)

lemma next_used_None: "next_used b n seq = None \<Longrightarrow> k < n \<Longrightarrow> b (seq + of_nat k) = None"
proof (induction n arbitrary: seq k)
  case (Suc n)
  show ?case
  proof (cases k)
    case (Suc k')
    then show ?thesis using Suc.prems Suc.IH [of "seq + 1" k'] by (auto split: if_splits simp: add.assoc)
  qed (use Suc.prems in \<open>auto split: if_splits\<close>)
qed simp

lemma next_used_Some: "next_used b n seq = Some seq' \<Longrightarrow> seq' \<in> dom b"
  by (induction n arbitrary: seq) (auto split: if_splits)

lemma next_used_ex:
  assumes "used \<in> dom b"
  shows "\<exists>seq' \<in> dom b. next_used b 65536 seq = Some seq'"
proof (cases "next_used b 65536 seq")
  case None
  have "unat (used - seq) < 65536" using unat_less [of "used - seq"] by simp
  from next_used_None [OF None this] assms show ?thesis by auto
next
  case (Some seq')
  with next_used_Some show ?thesis by blast
qed

lemma UpdateBufferStartIdx_eq:
  assumes "dom (buffer s) \<noteq> {}"
  shows "\<exists>seq' \<in> dom (buffer s). UpdateBufferStartIdx s = s\<lparr>bufferStartIdx := seq'\<rparr>"
proof -
  obtain used where "used \<in> dom (buffer s)" using assms by blast
  then obtain seq' where "seq' \<in> dom (buffer s)" "next_used (buffer s) 65536 (bufferStartIdx s + 1) = Some seq'"
    using next_used_ex by blast
  then show ?thesis unfolding UpdateBufferStartIdx_def by auto
qed

text \<open>Putting a copy of a packet into a free item.\<close>

lemma clone_into_ok:
  assumes "rtp_wf p" "rtp_size p \<le> 1500" and "i < length (storage s)" "item_free (storage s ! i)"
  shows "\<exists>x. clone_into i p s = Some (s\<lparr>storage := (storage s)[i := x]\<rparr>) \<and> item_holds x (rtp_content p) \<and> resentAtMs x = 0"
proof -
  obtain q where q: "Clone (store (storage s ! i)) p = Some q" "rtp_wf q" "length (rtp_mem q) = 1600" "rtp_size q = rtp_size p"
    "rtp_content q = rtp_content p"
    using Clone_content [of p "store (storage s ! i)"] assms by (auto simp: item_free_def)
  have "payload q + payloadLength q \<le> 1500" using rtp_wf_facts(2) [OF q(2)] q(4) assms(2) by linarith
  then show ?thesis using q assms(3,4)
    by (intro exI [of _ "(storage s ! i)\<lparr>st_packet := Some q\<rparr>"]) (simp add: clone_into_def item_holds_def item_free_def)
qed

text \<open>The buffer points at a new or freed item.\<close>

lemma buffer_inv_store:
  assumes inv: "2 \<le> length st" "n \<le> length st" "ran b = {0..<n}" "inj_on b (dom b)" "start \<in> dom b"
    and old: "\<And>seq j. b seq = Some j \<Longrightarrow> seq \<noteq> seq0 \<Longrightarrow> \<exists>c \<in> R. fst c = Some seq \<and> item_holds (st ! j) c"
    and free: "\<And>j. n \<le> j \<Longrightarrow> j < length st \<Longrightarrow> item_free (st ! j)"
    and new: "b seq0 = Some i" "item_holds x (Some seq0, c0)"
    and s: "buffer s = b" "bufferSize s = n" "bufferStartIdx s = start" "storage s = st[i := x]"
  shows "buffer_inv (insert (Some seq0, c0) R) s"
proof -
  have i: "i < n" using new(1) inv(3) by (auto simp: ran_def)
  have "\<exists>c \<in> insert (Some seq0, c0) R. fst c = Some seq \<and> item_holds (st[i := x] ! j) c" if "b seq = Some j" for seq j
  proof (cases "seq = seq0")
    case True
    then show ?thesis using that new i inv(2) by auto
  next
    case False
    then have "i \<noteq> j" using that new(1) inv(4) by (auto simp: inj_on_def dom_def)
    then show ?thesis using old [OF that False] by auto
  qed
  moreover have "item_free (st[i := x] ! j)" if "n \<le> j" "j < length st" for j using free that i by auto
  ultimately show ?thesis using inv s by (simp add: buffer_inv_def)
qed

lemma rtp_wf_Get:
  assumes "rtp_wf p"
  obtains seq ts where "GetSequenceNumber p = Some seq" "GetTimestamp p = Some ts"
  using rtp_wf_facts(1-3) [OF assms] byte2.get_ex [of 2 "rtp_mem p"] byte4.get_ex [of 4 "rtp_mem p"]
  by (auto simp: GetSequenceNumber_def GetTimestamp_def intro: that)

lemma item_holds_packet:
  assumes "item_holds x c"
  obtains q ts where "st_packet x = Some q" "GetTimestamp q = Some ts" "fst (snd c) = Some ts" "rtp_wf q"
proof -
  obtain q where q: "st_packet x = Some q" "rtp_wf q" "fst (snd c) = GetTimestamp q"
    using assms by (auto simp: item_holds_def rtx_content_def rtp_content_def split: option.splits if_splits)
  with rtp_wf_Get that show thesis by metis
qed

lemma buffer_inv_mono: "buffer_inv R s \<Longrightarrow> R \<subseteq> R' \<Longrightarrow> buffer_inv R' s"
  unfolding buffer_inv_def by (meson subsetD)

lemma map_new_ran: "k \<notin> dom b \<Longrightarrow> ran (b(k \<mapsto> v)) = insert v (ran b)"
  by (simp add: domIff)

lemma inj_map_upd:
  assumes "inj_on b (dom b)" "v \<notin> ran b"
  shows "inj_on (b(k \<mapsto> v)) (dom (b(k \<mapsto> v)))"
  using assms by (fastforce simp: inj_on_def dom_def ran_def)

lemma inj_map_del: "inj_on b (dom b) \<Longrightarrow> inj_on (b(k := None)) (dom (b(k := None)))"
  by (auto simp: inj_on_def dom_def)

lemma ran_map_del:
  assumes "inj_on b (dom b)" "b k = Some v"
  shows "ran (b(k := None)) = ran b - {v}"
proof -
  have "j = k" if "b j = Some v" for j using assms that by (auto simp: inj_on_def dom_def)
  then have "(\<exists>a. a \<noteq> k \<and> b a = Some x) \<longleftrightarrow> (\<exists>a. b a = Some x) \<and> x \<noteq> v" for x using assms(2) by (metis option.inject)
  then show ?thesis by (simp add: ran_def set_eq_iff cong: conj_cong)
qed

text \<open>The four branches of \<open>StorePacket\<close>.\<close>

lemma StorePacket_first:
  assumes inv: "buffer_inv R s" and p: "rtp_wf p" "rtp_size p \<le> 1500" "GetSequenceNumber p = Some seq" and b: "bufferSize s = 0"
  shows "\<exists>x. StorePacket p s = Some (s\<lparr>buffer := (buffer s)(seq \<mapsto> 0), bufferSize := 1, bufferStartIdx := seq, storage := (storage s)[0 := x]\<rparr>) \<and>
    buffer_inv (insert (rtp_content p) R) (s\<lparr>buffer := (buffer s)(seq \<mapsto> 0), bufferSize := 1, bufferStartIdx := seq, storage := (storage s)[0 := x]\<rparr>) \<and>
    item_holds x (rtp_content p) \<and> resentAtMs x = 0"
proof -
  let ?s = "s\<lparr>buffer := (buffer s)(seq \<mapsto> 0), bufferSize := 1, bufferStartIdx := seq\<rparr>"
  have "ran (buffer s) = {}" using inv b by (simp add: buffer_inv_def)
  then have e: "buffer s = Map.empty" by (intro ext) (metis ranI empty_iff option.exhaust)
  have len: "2 \<le> length (storage s)" and fr: "\<And>i. i < length (storage s) \<Longrightarrow> item_free (storage s ! i)"
    using inv b by (simp_all add: buffer_inv_def)
  obtain x where x: "clone_into 0 p ?s = Some (?s\<lparr>storage := (storage ?s)[0 := x]\<rparr>)" "item_holds x (rtp_content p)" "resentAtMs x = 0"
    using clone_into_ok [of p 0 ?s] p len fr by fastforce
  have "StorePacket p s = clone_into 0 p ?s" using p b by (simp add: StorePacket_def)
  moreover have "buffer_inv (insert (rtp_content p) R) (?s\<lparr>storage := (storage s)[0 := x]\<rparr>)"
    unfolding rtp_content_def p(3)
    by (rule buffer_inv_store [of "storage s" 1 "[seq \<mapsto> 0]" seq])
      (use x(2) len fr e p(3) in \<open>auto simp: rtp_content_def inj_on_def\<close>)
  ultimately show ?thesis using x by auto
qed

lemma StorePacket_append:
  assumes inv: "buffer_inv R s" and p: "rtp_wf p" "rtp_size p \<le> 1500" "GetSequenceNumber p = Some seq"
    and b: "bufferSize s \<noteq> 0" "buffer s seq = None" "bufferSize s < length (storage s)"
  shows "\<exists>x. StorePacket p s = Some (s\<lparr>buffer := (buffer s)(seq \<mapsto> bufferSize s), bufferSize := bufferSize s + 1, storage := (storage s)[bufferSize s := x]\<rparr>) \<and>
    buffer_inv (insert (rtp_content p) R) (s\<lparr>buffer := (buffer s)(seq \<mapsto> bufferSize s), bufferSize := bufferSize s + 1, storage := (storage s)[bufferSize s := x]\<rparr>) \<and>
    item_holds x (rtp_content p) \<and> resentAtMs x = 0"
proof -
  let ?n = "bufferSize s"
  let ?s = "s\<lparr>buffer := (buffer s)(seq \<mapsto> ?n), bufferSize := ?n + 1\<rparr>"
  have i: "2 \<le> length (storage s)" "ran (buffer s) = {0..<?n}" "inj_on (buffer s) (dom (buffer s))" "bufferStartIdx s \<in> dom (buffer s)"
    "\<And>i. ?n \<le> i \<Longrightarrow> i < length (storage s) \<Longrightarrow> item_free (storage s ! i)"
    using inv b(1) by (auto simp: buffer_inv_def)
  obtain x where x: "clone_into ?n p ?s = Some (?s\<lparr>storage := (storage ?s)[?n := x]\<rparr>)" "item_holds x (rtp_content p)" "resentAtMs x = 0"
    using clone_into_ok [of p ?n ?s] p b(3) i(5) by fastforce
  have "StorePacket p s = clone_into ?n p ?s" using p b by (simp add: StorePacket_def)
  moreover have "buffer_inv (insert (rtp_content p) R) (?s\<lparr>storage := (storage s)[?n := x]\<rparr>)"
    unfolding rtp_content_def p(3)
  proof (rule buffer_inv_store [of "storage s" "?n + 1" "(buffer s)(seq \<mapsto> ?n)" "bufferStartIdx s"])
    show "ran ((buffer s)(seq \<mapsto> ?n)) = {0..<?n + 1}" using map_new_ran [of seq "buffer s" ?n] b(2) i(2) by auto
    show "inj_on ((buffer s)(seq \<mapsto> ?n)) (dom ((buffer s)(seq \<mapsto> ?n)))" using i(2,3) by (intro inj_map_upd) auto
    show "\<exists>c \<in> R. fst c = Some sq \<and> item_holds (storage s ! j) c" if "((buffer s)(seq \<mapsto> ?n)) sq = Some j" "sq \<noteq> seq" for sq j
      using buffer_inv_used(3) [OF inv, of sq j] that by simp
  qed (use i b x(2) p(3) in \<open>auto simp: rtp_content_def\<close>)
  ultimately show ?thesis using x by auto
qed

lemma StorePacket_replace:
  assumes inv: "buffer_inv R s" and p: "rtp_wf p" "rtp_size p \<le> 1500" "GetSequenceNumber p = Some seq"
    and b: "buffer s seq = Some i"
  shows "StorePacket p s = Some s \<or>
    (\<exists>x start. start \<in> dom (buffer s) \<and> StorePacket p s = Some (s\<lparr>bufferStartIdx := start, storage := (storage s)[i := x]\<rparr>) \<and>
      buffer_inv (insert (rtp_content p) R) (s\<lparr>bufferStartIdx := start, storage := (storage s)[i := x]\<rparr>) \<and>
      item_holds x (rtp_content p) \<and> resentAtMs x = 0)"
proof -
  note u = buffer_inv_used [OF inv b]
  have iv: "2 \<le> length (storage s)" "bufferSize s \<le> length (storage s)" "ran (buffer s) = {0..<bufferSize s}"
    "inj_on (buffer s) (dom (buffer s))" "bufferStartIdx s \<in> dom (buffer s)"
    "\<And>i. bufferSize s \<le> i \<Longrightarrow> i < length (storage s) \<Longrightarrow> item_free (storage s ! i)"
    using inv u(4) by (auto simp: buffer_inv_def)
  obtain c where c: "item_holds (storage s ! i) c" using u(3) by blast
  obtain q tq where q: "st_packet (storage s ! i) = Some q" "GetTimestamp q = Some tq" using c by (rule item_holds_packet)
  obtain ts where ts: "GetTimestamp p = Some ts" using p(1) by (rule rtp_wf_Get)
  let ?r = "reset_item (storage s ! i)"
  let ?s1 = "s\<lparr>storage := (storage s)[i := ?r]\<rparr>"
  have free: "item_free ?r" using c by (rule reset_item_free)
  obtain start where start: "start \<in> dom (buffer s)" "(if bufferStartIdx ?s1 = seq then UpdateBufferStartIdx ?s1 else ?s1) = ?s1\<lparr>bufferStartIdx := start\<rparr>"
  proof (cases "bufferStartIdx s = seq")
    case True
    have "dom (buffer ?s1) \<noteq> {}" using b by auto
    from UpdateBufferStartIdx_eq [OF this] that True show thesis by auto
  next
    case False
    with that [of "bufferStartIdx s"] iv(5) show thesis by simp
  qed
  let ?s2 = "?s1\<lparr>bufferStartIdx := start\<rparr>"
  obtain x where x: "clone_into i p ?s2 = Some (?s2\<lparr>storage := (storage ?s2)[i := x]\<rparr>)" "item_holds x (rtp_content p)" "resentAtMs x = 0"
    using clone_into_ok [of p i ?s2] p(1,2) u(2) free by fastforce
  have "resetStorageItem (Some i) s = Some ?s1" using u(2) by (simp add: resetStorageItem_def)
  then have store: "StorePacket p s = (if ts = tq then Some s else clone_into i p ?s2)"
    using p u(2,4) b q ts by (simp only: StorePacket_def start(2) [symmetric]) (simp add: Let_def)
  have eq: "clone_into i p ?s2 = Some (s\<lparr>bufferStartIdx := start, storage := (storage s)[i := x]\<rparr>)"
    using x(1) by simp
  have "buffer_inv (insert (rtp_content p) R) (s\<lparr>bufferStartIdx := start, storage := (storage s)[i := x]\<rparr>)"
    unfolding rtp_content_def p(3)
  proof (rule buffer_inv_store [of "storage s" "bufferSize s" "buffer s" start seq])
    show "\<exists>c \<in> R. fst c = Some sq \<and> item_holds (storage s ! j) c" if "buffer s sq = Some j" "sq \<noteq> seq" for sq j
      by (rule buffer_inv_used(3) [OF inv that(1)])
    show "item_holds x (Some seq, GetTimestamp p, HasMarker p, payload_bytes p)" using x(2) p(3) by (simp add: rtp_content_def)
  qed (use iv start(1) b in simp_all)
  with x(2,3) start(1) show ?thesis
    unfolding store eq by (cases "ts = tq") (simp, intro disjI2 exI [of _ x] exI [of _ start] conjI, simp_all)
qed

lemma StorePacket_evict:
  assumes inv: "buffer_inv R s" and p: "rtp_wf p" "rtp_size p \<le> 1500" "GetSequenceNumber p = Some seq"
    and b: "buffer s seq = None" "bufferSize s = length (storage s)"
  shows "\<exists>x i start. buffer s (bufferStartIdx s) = Some i \<and>
    (let s' = s\<lparr>buffer := (buffer s)(bufferStartIdx s := None, seq \<mapsto> i), bufferStartIdx := start, storage := (storage s)[i := x]\<rparr>
     in StorePacket p s = Some s' \<and> buffer_inv (insert (rtp_content p) R) s') \<and>
    item_holds x (rtp_content p) \<and> resentAtMs x = 0"
proof -
  let ?b = "bufferStartIdx s" and ?n = "bufferSize s"
  have len: "2 \<le> length (storage s)" using inv by (simp add: buffer_inv_def)
  then have iv: "ran (buffer s) = {0..<?n}" "inj_on (buffer s) (dom (buffer s))" "?b \<in> dom (buffer s)" "0 < ?n"
    using inv b(2) by (auto simp: buffer_inv_def)
  obtain i where i: "buffer s ?b = Some i" using iv(3) by blast
  note u = buffer_inv_used [OF inv i]
  obtain c where c: "item_holds (storage s ! i) c" using u(3) by blast
  let ?r = "reset_item (storage s ! i)"
  let ?s1 = "s\<lparr>storage := (storage s)[i := ?r]\<rparr>"
  let ?B = "(buffer s)(?b := None)"
  let ?s2 = "?s1\<lparr>buffer := ?B\<rparr>"
  have ranB: "ran ?B = {0..<?n} - {i}" using ran_map_del [OF iv(2) i] iv(1) by simp
  have "(if i = 0 then 1 else 0) \<in> ran ?B" unfolding ranB using len b(2) iv(4) by (cases "i = 0") simp_all
  then have "ran ?B \<noteq> {}" by blast
  then have "?B \<noteq> Map.empty" by (intro notI) simp
  then have "dom ?B \<noteq> {}" unfolding dom_eq_empty_conv .
  then have "dom (buffer ?s2) \<noteq> {}" by simp
  from UpdateBufferStartIdx_eq [OF this] obtain start where "start \<in> dom (buffer ?s2)"
    and upd: "UpdateBufferStartIdx ?s2 = ?s2\<lparr>bufferStartIdx := start\<rparr>" by blast
  then have start: "start \<in> dom ?B" by simp
  let ?s3 = "?s2\<lparr>bufferStartIdx := start, buffer := ?B(seq \<mapsto> i)\<rparr>"
  have free: "item_free ?r" using c by (rule reset_item_free)
  obtain x where x: "clone_into i p ?s3 = Some (?s3\<lparr>storage := (storage ?s3)[i := x]\<rparr>)" "item_holds x (rtp_content p)" "resentAtMs x = 0"
    using clone_into_ok [of p i ?s3] p(1,2) u(2) free by fastforce
  have "resetStorageItem (buffer s ?b) s = Some ?s1" using u(2) i by (simp add: resetStorageItem_def)
  then have "StorePacket p s = clone_into i p ?s3"
    using p iv(4) b i upd by (simp add: StorePacket_def Let_def)
  then have "StorePacket p s = Some (s\<lparr>buffer := ?B(seq \<mapsto> i), bufferStartIdx := start, storage := (storage s)[i := x]\<rparr>)"
    using x(1) by simp
  moreover have "buffer_inv (insert (rtp_content p) R) (s\<lparr>buffer := ?B(seq \<mapsto> i), bufferStartIdx := start, storage := (storage s)[i := x]\<rparr>)"
    unfolding rtp_content_def p(3)
  proof (rule buffer_inv_store [of "storage s" ?n "?B(seq \<mapsto> i)" start seq])
    show "ran (?B(seq \<mapsto> i)) = {0..<?n}" using map_new_ran [of seq ?B i] b(1) ranB u(1) by (simp add: insert_absorb)
    show "inj_on (?B(seq \<mapsto> i)) (dom (?B(seq \<mapsto> i)))" using ranB by (intro inj_map_upd inj_map_del iv(2)) simp
    show "\<exists>c \<in> R. fst c = Some sq \<and> item_holds (storage s ! j) c" if "(?B(seq \<mapsto> i)) sq = Some j" "sq \<noteq> seq" for sq j
      using buffer_inv_used(3) [OF inv, of sq j] that by (simp split: if_splits)
    show "item_holds x (Some seq, GetTimestamp p, HasMarker p, payload_bytes p)" using x(2) p(3) by (simp add: rtp_content_def)
    show "start \<in> dom (?B(seq \<mapsto> i))" using start by simp
  qed (use b(2) len in simp_all)
  ultimately show ?thesis
    using x(2,3) i by (intro exI [of _ x] exI [of _ i] exI [of _ start]) (simp add: Let_def)
qed

text \<open>\<open>StorePacket\<close> keeps the invariant and changes nothing but the buffer.\<close>

definition no_buffer :: "'h rtp_stream_send \<Rightarrow> 'h rtp_stream_send" where
  "no_buffer s = s\<lparr>buffer := Map.empty, bufferStartIdx := 0, bufferSize := 0, storage := []\<rparr>"

definition same_stream :: "'h rtp_stream_send \<Rightarrow> 'h rtp_stream_send \<Rightarrow> bool" where
  "same_stream s s' \<longleftrightarrow> length (storage s') = length (storage s) \<and> no_buffer s' = no_buffer s"

lemma same_stream_fields:
  assumes "same_stream s s'"
  shows "params s' = params s" "strm_seq s' = strm_seq s" "strm_score s' = strm_score s" "rtxStream s' = rtxStream s"
    "rtxSeq s' = rtxSeq s" "transmissionCounter s' = transmissionCounter s" "length (storage s') = length (storage s)"
    "packetsRetransmitted s' = packetsRetransmitted s" "packetsRepaired s' = packetsRepaired s"
    "repairedPriorScore s' = repairedPriorScore s" "retransmittedPriorScore s' = retransmittedPriorScore s"
proof -
  have eq: "no_buffer s' = no_buffer s" using assms by (simp add: same_stream_def)
  show "params s' = params s" using arg_cong [OF eq, of params] by (simp add: no_buffer_def)
  show "strm_seq s' = strm_seq s" using arg_cong [OF eq, of strm_seq] by (simp add: no_buffer_def)
  show "strm_score s' = strm_score s" using arg_cong [OF eq, of strm_score] by (simp add: no_buffer_def)
  show "rtxStream s' = rtxStream s" using arg_cong [OF eq, of rtxStream] by (simp add: no_buffer_def)
  show "rtxSeq s' = rtxSeq s" using arg_cong [OF eq, of rtxSeq] by (simp add: no_buffer_def)
  show "transmissionCounter s' = transmissionCounter s" using arg_cong [OF eq, of transmissionCounter] by (simp add: no_buffer_def)
  show "length (storage s') = length (storage s)" using assms by (simp add: same_stream_def no_buffer_def)
  show "packetsRetransmitted s' = packetsRetransmitted s" using arg_cong [OF eq, of packetsRetransmitted] by (simp add: no_buffer_def)
  show "packetsRepaired s' = packetsRepaired s" using arg_cong [OF eq, of packetsRepaired] by (simp add: no_buffer_def)
  show "repairedPriorScore s' = repairedPriorScore s" using arg_cong [OF eq, of repairedPriorScore] by (simp add: no_buffer_def)
  show "retransmittedPriorScore s' = retransmittedPriorScore s"
    using arg_cong [OF eq, of retransmittedPriorScore] by (simp add: no_buffer_def)
qed

lemma StorePacket_inv:
  assumes inv: "buffer_inv R s" and p: "rtp_wf p"
  shows "\<exists>s'. StorePacket p s = Some s' \<and> buffer_inv (insert (rtp_content p) R) s' \<and> same_stream s s'"
proof -
  obtain seq ts where seq: "GetSequenceNumber p = Some seq" "GetTimestamp p = Some ts" using p by (rule rtp_wf_Get)
  have same: "buffer_inv (insert (rtp_content p) R) s" using inv by (rule buffer_inv_mono) auto
  consider "rtp_size p > 1500" | "rtp_size p \<le> 1500" "bufferSize s = 0"
    | i where "rtp_size p \<le> 1500" "buffer s seq = Some i"
    | "rtp_size p \<le> 1500" "bufferSize s \<noteq> 0" "buffer s seq = None" "bufferSize s < length (storage s)"
    | "rtp_size p \<le> 1500" "buffer s seq = None" "bufferSize s = length (storage s)"
    using inv by (cases "buffer s seq") (force simp: buffer_inv_def)+
  then show ?thesis
  proof cases
    case 1
    then show ?thesis using same by (simp add: StorePacket_def same_stream_def no_buffer_def)
  next
    case 2
    from StorePacket_first [OF inv p 2(1) seq(1) 2(2)] show ?thesis by (auto simp: same_stream_def no_buffer_def)
  next
    case 3
    from StorePacket_replace [OF inv p 3(1) seq(1) 3(2)] same show ?thesis by (auto simp: same_stream_def no_buffer_def)
  next
    case 4
    from StorePacket_append [OF inv p 4(1) seq(1) 4(2-4)] show ?thesis by (auto simp: same_stream_def no_buffer_def)
  next
    case 5
    from StorePacket_evict [OF inv p 5(1) seq(1) 5(2,3)] show ?thesis by (auto simp: same_stream_def no_buffer_def Let_def)
  qed
qed

text \<open>\<open>ClearBuffer\<close> frees every item.\<close>

lemma clear_loop_ok:
  assumes "ran (buffer s) \<subseteq> {0..<length (storage s)}" and "dom (buffer s) \<subseteq> set idxs" and "inj_on (buffer s) (dom (buffer s))"
    and "\<And>seq i. buffer s seq = Some i \<Longrightarrow> \<exists>c. item_holds (storage s ! i) c"
    and "\<And>i. i < length (storage s) \<Longrightarrow> i \<notin> ran (buffer s) \<Longrightarrow> item_free (storage s ! i)"
  shows "\<exists>s'. clear_loop idxs s = Some s' \<and> buffer s' = Map.empty \<and> same_stream s s' \<and>
    (\<forall>i < length (storage s). item_free (storage s' ! i))"
  using assms
proof (induction idxs arbitrary: s)
  case Nil
  then have e: "buffer s = Map.empty" by simp
  then have "\<forall>i < length (storage s). item_free (storage s ! i)" using Nil.prems(5) by simp
  with e show ?case by (simp add: same_stream_def no_buffer_def)
next
  case (Cons idx idxs)
  show ?case
  proof (cases "buffer s idx")
    case None
    then have "dom (buffer s) \<subseteq> set idxs" using Cons.prems(2) by auto
    from Cons.IH [OF Cons.prems(1) this Cons.prems(3-5)] show ?thesis by (simp add: None)
  next
    case (Some i)
    have i: "i < length (storage s)" using Cons.prems(1) Some by (auto dest: ranI)
    let ?B = "(buffer s)(idx := None)"
    let ?s = "s\<lparr>storage := (storage s)[i := reset_item (storage s ! i)], buffer := ?B\<rparr>"
    have ranB: "ran ?B = ran (buffer s) - {i}" by (rule ran_map_del [OF Cons.prems(3) Some])
    have free: "item_free (reset_item (storage s ! i))" using Cons.prems(4) [OF Some] reset_item_free by blast
    have "\<exists>s'. clear_loop idxs ?s = Some s' \<and> buffer s' = Map.empty \<and> same_stream ?s s' \<and>
      (\<forall>i < length (storage ?s). item_free (storage s' ! i))"
    proof (rule Cons.IH)
      show "ran (buffer ?s) \<subseteq> {0..<length (storage ?s)}" using ranB Cons.prems(1) by auto
      show "dom (buffer ?s) \<subseteq> set idxs" using Cons.prems(2) by auto
      show "inj_on (buffer ?s) (dom (buffer ?s))" using inj_map_del [OF Cons.prems(3)] by simp
      show "\<exists>c. item_holds (storage ?s ! j) c" if "buffer ?s seq = Some j" for seq j
      proof -
        have "?B seq = Some j" using that by simp
        then have "j \<in> ran ?B" "buffer s seq = Some j" by (auto intro: ranI split: if_splits)
        then have "j \<noteq> i" using ranB by simp
        then show ?thesis using Cons.prems(4) [OF \<open>buffer s seq = Some j\<close>] by simp
      qed
      show "item_free (storage ?s ! j)" if "j < length (storage ?s)" "j \<notin> ran (buffer ?s)" for j
        using that ranB free Cons.prems(5) [of j] by (cases "j = i") simp_all
    qed
    then show ?thesis using i by (auto simp: Some resetStorageItem_def same_stream_def no_buffer_def)
  qed
qed

lemma all_u16: "(UNIV :: u16 set) = of_nat ` {0..<65536}"
proof -
  have "w \<in> of_nat ` {0..<65536}" for w :: u16
    using unat_less [of w] by (intro image_eqI [of _ _ "unat w"]) simp_all
  then show ?thesis by blast
qed

lemma ClearBuffer_inv:
  assumes inv: "buffer_inv R s"
  shows "\<exists>s'. ClearBuffer s = Some s' \<and> buffer_inv R s' \<and> same_stream s s'"
proof -
  have ne: "storage s \<noteq> []" "2 \<le> length (storage s)" using inv by (auto simp: buffer_inv_def)
  have "\<exists>s'. clear_loop (map of_nat [0..<65536]) s = Some s' \<and> buffer s' = Map.empty \<and> same_stream s s' \<and>
    (\<forall>i < length (storage s). item_free (storage s' ! i))"
  proof (rule clear_loop_ok)
    show "ran (buffer s) \<subseteq> {0..<length (storage s)}" "inj_on (buffer s) (dom (buffer s))" using inv by (auto simp: buffer_inv_def)
    show "dom (buffer s) \<subseteq> set (map of_nat [0..<65536])" using all_u16 by auto
    show "\<exists>c. item_holds (storage s ! i) c" if "buffer s seq = Some i" for seq i using buffer_inv_used(3) [OF inv that] by blast
    show "item_free (storage s ! i)" if "i < length (storage s)" "i \<notin> ran (buffer s)" for i
      using inv that by (auto simp: buffer_inv_def)
  qed
  then obtain s' where s': "clear_loop (map of_nat [0..<65536]) s = Some s'" "buffer s' = Map.empty" "same_stream s s'"
    "\<forall>i < length (storage s). item_free (storage s' ! i)" by blast
  have "buffer_inv R (s'\<lparr>bufferStartIdx := 0, bufferSize := 0\<rparr>)"
    using s'(2-4) ne by (simp add: buffer_inv_def same_stream_def no_buffer_def)
  moreover have "same_stream s (s'\<lparr>bufferStartIdx := 0, bufferSize := 0\<rparr>)" using s'(3) by (simp add: same_stream_def no_buffer_def)
  ultimately show ?thesis using s'(1) ne by (simp add: ClearBuffer_def del: upt_conv_Cons)
qed

subsection \<open>Which packets are sent again\<close>

text \<open>A requested packet is sent again if it is stored, its timestamp is at most two seconds behind the highest one, and it was
  not sent again during the last round trip time.\<close>

definition resendable :: "u64 \<Rightarrow> u16 \<Rightarrow> 'h rtp_stream_send \<Rightarrow> u16 \<Rightarrow> bool" where
  "resendable nowMs rtt s seq \<longleftrightarrow>
     (case buffer s seq of None \<Rightarrow> False | Some i \<Rightarrow>
        (case st_packet (storage s ! i) \<bind> GetTimestamp of None \<Rightarrow> False | Some ts \<Rightarrow>
           (maxPacketTs (strm_seq s) - ts) * 1000 div par_clockRate (params s) \<le> 2000) \<and>
        \<not> (resentAtMs (storage s ! i) \<noteq> 0 \<and> nowMs - resentAtMs (storage s ! i) \<le> ucast rtt))"

definition carries :: "'h rtp_packet \<Rightarrow> content \<Rightarrow> bool" where
  "carries q c \<longleftrightarrow> rtp_wf q \<and> (rtp_content q = c \<or> 2 \<le> payloadLength q \<and> rtx_content q = c)"

text \<open>What \<open>resend\<close> does to the item of a packet that is sent again.\<close>

definition resent_item :: "u64 \<Rightarrow> bool \<Rightarrow> u16 \<Rightarrow> content \<Rightarrow> 'h StorageItem \<Rightarrow> bool" where
  "resent_item nowMs rtx seq c x \<longleftrightarrow> item_holds x c \<and> resentAtMs x = nowMs \<and>
     (\<exists>q. st_packet x = Some q \<and> carries q c \<and> (rtx \<longrightarrow> rtxEncoded x \<and> GetSequenceNumber q = Some seq))"

lemma item_holds_carries: "item_holds x c \<Longrightarrow> \<exists>q. st_packet x = Some q \<and> carries q c"
  by (auto simp: item_holds_def carries_def split: option.splits if_splits)

lemma resend_skip:
  assumes inv: "buffer_inv R s" and clk: "par_clockRate (params s) \<noteq> 0" and no: "\<not> resendable nowMs rtt s seq"
  shows "resend nowMs rtt seq s = Some (None, s)"
proof (cases "buffer s seq")
  case None
  then show ?thesis using inv by (auto simp: resend_def buffer_inv_def)
next
  case (Some i)
  note u = buffer_inv_used [OF inv Some]
  obtain q ts where q: "st_packet (storage s ! i) = Some q" "GetTimestamp q = Some ts"
    using u(3) item_holds_packet by metis
  have ne: "storage s \<noteq> []" using u(2) by auto
  show ?thesis
    using no Some u(2) q clk ne by (auto simp: resend_def resendable_def Let_def)
qed

lemma encode_item:
  assumes "item_holds x c" and "st_packet x = Some q"
  shows "\<exists>q'. (if \<not> rtxEncoded x then RtxEncode pt ssrc seq q else SetSequenceNumber seq q) = Some q' \<and>
    rtp_wf q' \<and> length (rtp_mem q') = 1600 \<and> 2 \<le> payloadLength q' \<and> rtx_content q' = c \<and> GetSequenceNumber q' = Some seq"
proof (cases "rtxEncoded x")
  case True
  then have "rtp_wf q" "2 \<le> payloadLength q" "length (rtp_mem q) = 1600" "rtx_content q = c" using assms by (simp_all add: item_holds_def)
  then show ?thesis using SetSequenceNumber_content [of q seq] True by auto
next
  case False
  then have "rtp_wf q" "payload q + payloadLength q \<le> 1500" "length (rtp_mem q) = 1600" "rtp_content q = c"
    using assms by (simp_all add: item_holds_def)
  then show ?thesis using RtxEncode_content [of q pt ssrc seq] False by auto
qed

lemma buffer_inv_item:
  assumes inv: "buffer_inv R s" and b: "buffer s seq = Some i" and c: "c \<in> R" "fst c = Some seq" "item_holds x c"
  shows "buffer_inv R (s\<lparr>storage := (storage s)[i := x]\<rparr>)"
proof -
  note u = buffer_inv_used [OF inv b]
  have "\<exists>c \<in> R. fst c = Some sq \<and> item_holds ((storage s)[i := x] ! j) c" if "buffer s sq = Some j" for sq j
  proof (cases "j = i")
    case True
    then have "sq = seq" using buffer_inv_inj [OF inv] that b by blast
    then show ?thesis using c True u(2) by auto
  next
    case False
    then show ?thesis using buffer_inv_used(3) [OF inv that] by simp
  qed
  moreover have "item_free ((storage s)[i := x] ! j)" if "bufferSize s \<le> j" "j < length (storage s)" for j
    using inv that u(1) by (simp add: buffer_inv_def)
  ultimately show ?thesis using inv by (simp add: buffer_inv_def)
qed

lemma buffer_inv_rtxSeq [simp]: "buffer_inv R (s\<lparr>rtxSeq := n\<rparr>) = buffer_inv R s"
  by (simp add: buffer_inv_def)

lemma resend_sent:
  assumes inv: "buffer_inv R s" and clk: "par_clockRate (params s) \<noteq> 0" and yes: "resendable nowMs rtt s seq"
  shows "\<exists>i x c. buffer s seq = Some i \<and> c \<in> R \<and> fst c = Some seq \<and>
    resent_item nowMs (rtxStream s \<noteq> None) (rtxSeq s + 1) c x \<and>
    resend nowMs rtt seq s =
      Some (Some i, s\<lparr>rtxSeq := if rtxStream s \<noteq> None then rtxSeq s + 1 else rtxSeq s, storage := (storage s)[i := x]\<rparr>) \<and>
    buffer_inv R (s\<lparr>rtxSeq := if rtxStream s \<noteq> None then rtxSeq s + 1 else rtxSeq s, storage := (storage s)[i := x]\<rparr>)"
proof -
  obtain i where i: "buffer s seq = Some i" using yes by (auto simp: resendable_def split: option.splits)
  note u = buffer_inv_used [OF inv i]
  obtain c where c: "c \<in> R" "fst c = Some seq" "item_holds (storage s ! i) c" using u(3) by blast
  obtain q ts where q: "st_packet (storage s ! i) = Some q" "GetTimestamp q = Some ts" using c(3) by (rule item_holds_packet)
  have ne: "storage s \<noteq> []" using u(2) by auto
  have go: "\<not> (maxPacketTs (strm_seq s) - ts) * 1000 div par_clockRate (params s) > MaxRetransmissionDelay"
    "\<not> (resentAtMs (storage s ! i) \<noteq> 0 \<and> nowMs - resentAtMs (storage s ! i) \<le> ucast rtt)"
    using yes i q by (auto simp: resendable_def not_less)
  obtain q' where q': "(if \<not> rtxEncoded (storage s ! i)
      then RtxEncode (par_rtxPayloadType (params s)) (par_rtxSsrc (params s)) (rtxSeq s + 1) q
      else SetSequenceNumber (rtxSeq s + 1) q) = Some q'" "rtp_wf q'" "length (rtp_mem q') = 1600" "2 \<le> payloadLength q'"
    "rtx_content q' = c" "GetSequenceNumber q' = Some (rtxSeq s + 1)" using encode_item [OF c(3) q(1)] by blast
  define x where "x = (if rtxStream s \<noteq> None then (storage s ! i)\<lparr>st_packet := Some q', rtxEncoded := True\<rparr> else storage s ! i)
    \<lparr>resentAtMs := nowMs, sentTimes := sentTimes (storage s ! i) + 1\<rparr>"
  have "resend nowMs rtt seq s =
      Some (Some i, s\<lparr>rtxSeq := if rtxStream s \<noteq> None then rtxSeq s + 1 else rtxSeq s, storage := (storage s)[i := x]\<rparr>)"
    using i u(2) q clk ne go q'(1) by (auto simp: resend_def x_def Let_def)
  moreover have holds: "item_holds x c" using c(3) q(1) q'(2-5) by (simp add: x_def item_holds_def)
  moreover have "resent_item nowMs (rtxStream s \<noteq> None) (rtxSeq s + 1) c x"
    using holds item_holds_carries [OF holds] q'(6) by (auto simp: resent_item_def x_def)
  moreover have "buffer_inv R (s\<lparr>rtxSeq := if rtxStream s \<noteq> None then rtxSeq s + 1 else rtxSeq s, storage := (storage s)[i := x]\<rparr>)"
    using buffer_inv_item [OF _ _ c(1,2) holds, of "s\<lparr>rtxSeq := if rtxStream s \<noteq> None then rtxSeq s + 1 else rtxSeq s\<rparr>" i] inv i by simp
  ultimately show ?thesis using i c by blast
qed

text \<open>The sequence numbers a NACK item asks for, and the ones left in the loop.\<close>

definition remaining :: "u16 \<Rightarrow> bool \<Rightarrow> u16 \<Rightarrow> u16 list" where
  "remaining seq requested bitmask =
     (if requested then [seq] else []) @ map (\<lambda>k. seq + 1 + of_nat k) (filter (bit bitmask) [0..<16])"

definition requested_seqs :: "NackItem \<Rightarrow> u16 list" where
  "requested_seqs item = nack_packetId item #
     map (\<lambda>k. nack_packetId item + 1 + of_nat k) (filter (bit (nack_lostPacketBitmask item)) [0..<16])"

lemma remaining_step:
  "remaining seq requested bitmask = (if requested then [seq] else []) @ remaining (seq + 1) (bit bitmask 0) (drop_bit 1 bitmask)"
proof -
  have upt: "[0..<16] = 0 # map Suc [0..<15]" by (simp add: map_Suc_upt upt_rec)
  have upt': "[0..<16] = [0..<15] @ [15 :: nat]" by (simp add: upt_rec)
  have "\<not> bit bitmask (Suc 15)" by (auto dest: bit_imp_le_length)
  then have "filter (\<lambda>k. bit bitmask (Suc k)) [0..<16] = filter (\<lambda>k. bit bitmask (Suc k)) [0..<15]"
    unfolding upt' by simp
  then show ?thesis
    by (simp add: remaining_def bit_drop_bit_eq) (simp add: upt filter_map o_def algebra_simps)
qed

fun resend_all :: "u64 \<Rightarrow> u16 \<Rightarrow> u16 list \<Rightarrow> 'h rtp_stream_send \<Rightarrow> (nat list \<times> 'h rtp_stream_send) option" where
  "resend_all nowMs rtt [] s = Some ([], s)"
| "resend_all nowMs rtt (seq # seqs) s = do {
     (sent, s) \<leftarrow> resend nowMs rtt seq s;
     (is, s) \<leftarrow> resend_all nowMs rtt seqs s;
     Some ((case sent of None \<Rightarrow> [] | Some i \<Rightarrow> [i]) @ is, s) }"

lemma fill_loop_eq:
  assumes "length container + length (remaining seq requested bitmask) \<le> 17"
  shows "fill_loop nowMs rtt seq requested bitmask container s =
    map_option (\<lambda>(is, s'). (container @ is, s')) (resend_all nowMs rtt (remaining seq requested bitmask) s)"
  using assms
proof (induction nowMs rtt seq requested bitmask container s rule: fill_loop.induct)
  case (1 nowMs rtt seq requested bitmask container s)
  show ?case
  proof (cases "\<not> requested \<and> bitmask = 0")
    case True
    then show ?thesis by (simp add: remaining_def fill_loop.simps)
  next
    case False
    let ?sent = "if requested then resend nowMs rtt seq s else Some (None, s)"
    let ?rest = "remaining (seq + 1) (bit bitmask 0) (drop_bit 1 bitmask)"
    have odd: "bitmask AND 1 \<noteq> 0 \<longleftrightarrow> bit bitmask 0" by (simp add: and_one_eq mod_2_eq_odd bit_0)
    note step = remaining_step [of seq requested bitmask]
    show ?thesis
    proof (cases ?sent)
      case None
      then have "requested" by (simp split: if_splits)
      with None have "resend_all nowMs rtt (remaining seq requested bitmask) s = None" unfolding step by simp
      then show ?thesis using None False by (subst fill_loop.simps) simp
    next
      case (Some r)
      obtain sent s' where r: "r = (sent, s')" by (cases r)
      have len: "length container + length (case sent of None \<Rightarrow> [] | Some i \<Rightarrow> [i]) + length ?rest \<le> 17"
        "sent \<noteq> None \<Longrightarrow> length container \<le> 17"
        using 1(2) Some r by (auto simp: step split: option.splits if_splits)
      have "fill_loop nowMs rtt seq requested bitmask container s =
          fill_loop nowMs rtt (seq + 1) (bitmask AND 1 \<noteq> 0) (drop_bit 1 bitmask) (container @ (case sent of None \<Rightarrow> [] | Some i \<Rightarrow> [i])) s'"
        using False Some r len(2) by (subst fill_loop.simps) auto
      also have "\<dots> = map_option (\<lambda>(is, s''). ((container @ (case sent of None \<Rightarrow> [] | Some i \<Rightarrow> [i])) @ is, s''))
          (resend_all nowMs rtt ?rest s')"
        using 1(1) [OF False Some r [symmetric]] len unfolding odd by (simp add: r)
      also have "\<dots> = map_option (\<lambda>(is, s''). (container @ is, s'')) (resend_all nowMs rtt (remaining seq requested bitmask) s)"
        using Some r unfolding step
        by (cases requested) (auto simp: split: Option.bind_splits option.splits)
      finally show ?thesis .
    qed
  qed
qed

text \<open>A run of resends over different sequence numbers: exactly the resendable ones go out, in order, with consecutive
  RTX sequence numbers.\<close>

definition same_but_items :: "'h rtp_stream_send \<Rightarrow> 'h rtp_stream_send \<Rightarrow> bool" where
  "same_but_items s s' \<longleftrightarrow> buffer s' = buffer s \<and> length (storage s') = length (storage s) \<and>
     s'\<lparr>rtxSeq := 0, storage := []\<rparr> = s\<lparr>rtxSeq := 0, storage := []\<rparr>"

lemma same_but_items_fields:
  assumes "same_but_items s s'"
  shows "params s' = params s" "strm_seq s' = strm_seq s" "strm_score s' = strm_score s" "rtxStream s' = rtxStream s"
    "transmissionCounter s' = transmissionCounter s" "length (storage s') = length (storage s)" "buffer s' = buffer s"
    "packetsRetransmitted s' = packetsRetransmitted s" "packetsRepaired s' = packetsRepaired s"
    "repairedPriorScore s' = repairedPriorScore s" "retransmittedPriorScore s' = retransmittedPriorScore s"
proof -
  have eq: "s'\<lparr>rtxSeq := 0, storage := []\<rparr> = s\<lparr>rtxSeq := 0, storage := []\<rparr>" using assms by (simp add: same_but_items_def)
  show "params s' = params s" using arg_cong [OF eq, of params] by simp
  show "strm_seq s' = strm_seq s" using arg_cong [OF eq, of strm_seq] by simp
  show "strm_score s' = strm_score s" using arg_cong [OF eq, of strm_score] by simp
  show "rtxStream s' = rtxStream s" using arg_cong [OF eq, of rtxStream] by simp
  show "transmissionCounter s' = transmissionCounter s" using arg_cong [OF eq, of transmissionCounter] by simp
  show "length (storage s') = length (storage s)" "buffer s' = buffer s" using assms by (simp_all add: same_but_items_def)
  show "packetsRetransmitted s' = packetsRetransmitted s" using arg_cong [OF eq, of packetsRetransmitted] by simp
  show "packetsRepaired s' = packetsRepaired s" using arg_cong [OF eq, of packetsRepaired] by simp
  show "repairedPriorScore s' = repairedPriorScore s" using arg_cong [OF eq, of repairedPriorScore] by simp
  show "retransmittedPriorScore s' = retransmittedPriorScore s" using arg_cong [OF eq, of retransmittedPriorScore] by simp
qed

lemma same_but_items_trans: "same_but_items s s' \<Longrightarrow> same_but_items s' s'' \<Longrightarrow> same_but_items s s''"
  by (simp add: same_but_items_def)

text \<open>The item at the position of \<open>seq\<close> has just been sent again as number \<open>n\<close>.\<close>

definition sent_as :: "content set \<Rightarrow> u64 \<Rightarrow> 'h rtp_stream_send \<Rightarrow> u16 \<Rightarrow> u16 \<Rightarrow> bool" where
  "sent_as R nowMs s n seq \<longleftrightarrow> (\<exists>i c. buffer s seq = Some i \<and> c \<in> R \<and> fst c = Some seq \<and>
     resent_item nowMs (rtxStream s \<noteq> None) n c (storage s ! i))"

lemma resendable_other:
  assumes inv: "buffer_inv R s" and i: "buffer s seq = Some i" and "seq' \<noteq> seq" and s': "same_but_items s s'"
    and st: "storage s' = (storage s)[i := x]"
  shows "resendable nowMs rtt s' seq' = resendable nowMs rtt s seq'"
proof -
  have "j \<noteq> i" if "buffer s seq' = Some j" for j using buffer_inv_inj [OF inv i] that assms(3) by blast
  then show ?thesis using same_but_items_fields [OF s'] st by (auto simp: resendable_def split: option.split)
qed

lemma resend_all_ok:
  fixes nowMs :: u64 and rtt :: u16 and s :: "'h rtp_stream_send"
  assumes "buffer_inv R s" and "par_clockRate (params s) \<noteq> 0" and "distinct seqs"
  defines "L \<equiv> filter (resendable nowMs rtt s) seqs"
  shows "\<exists>s'. resend_all nowMs rtt seqs s = Some (map (\<lambda>seq. the (buffer s seq)) L, s') \<and> buffer_inv R s' \<and> same_but_items s s' \<and>
    (\<forall>i. i \<notin> (\<lambda>seq. the (buffer s seq)) ` set L \<longrightarrow> storage s' ! i = storage s ! i) \<and>
    rtxSeq s' = (if rtxStream s \<noteq> None then rtxSeq s + of_nat (length L) else rtxSeq s) \<and>
    (\<forall>k < length L. sent_as R nowMs s' (rtxSeq s + of_nat k + 1) (L ! k))"
  using assms(1-3) unfolding L_def
proof (induction seqs arbitrary: s)
  case Nil
  then show ?case by (simp add: same_but_items_def)
next
  case (Cons seq seqs)
  show ?case
  proof (cases "resendable nowMs rtt s seq")
    case False
    have "resend nowMs rtt seq s = Some (None, s)" by (rule resend_skip [OF Cons.prems(1,2) False])
    then show ?thesis using Cons.IH [OF Cons.prems(1,2)] Cons.prems(3) False by auto
  next
    case True
    obtain i x c where x: "buffer s seq = Some i" "c \<in> R" "fst c = Some seq"
      "resent_item nowMs (rtxStream s \<noteq> None) (rtxSeq s + 1) c x"
      "resend nowMs rtt seq s = Some (Some i, s\<lparr>rtxSeq := if rtxStream s \<noteq> None then rtxSeq s + 1 else rtxSeq s, storage := (storage s)[i := x]\<rparr>)"
      "buffer_inv R (s\<lparr>rtxSeq := if rtxStream s \<noteq> None then rtxSeq s + 1 else rtxSeq s, storage := (storage s)[i := x]\<rparr>)"
      using resend_sent [OF Cons.prems(1,2) True] by blast
    let ?s = "s\<lparr>rtxSeq := if rtxStream s \<noteq> None then rtxSeq s + 1 else rtxSeq s, storage := (storage s)[i := x]\<rparr>"
    have same: "same_but_items s ?s" by (simp add: same_but_items_def)
    have L: "filter (resendable nowMs rtt ?s) seqs = filter (resendable nowMs rtt s) seqs"
    proof (rule filter_cong [OF refl])
      fix sq assume "sq \<in> set seqs"
      then have "sq \<noteq> seq" using Cons.prems(3) by auto
      then show "resendable nowMs rtt ?s sq = resendable nowMs rtt s sq"
        by (rule resendable_other [OF Cons.prems(1) x(1) _ same, of _ x]) simp
    qed
    let ?L = "filter (resendable nowMs rtt s) seqs"
    have "par_clockRate (params ?s) \<noteq> 0" "distinct seqs" using Cons.prems by simp_all
    from Cons.IH [OF x(6) this] obtain s' where s': "resend_all nowMs rtt seqs ?s = Some (map (\<lambda>seq. the (buffer s seq)) ?L, s')"
      "buffer_inv R s'" "same_but_items ?s s'"
      "\<forall>j. j \<notin> (\<lambda>seq. the (buffer s seq)) ` set ?L \<longrightarrow> storage s' ! j = storage ?s ! j"
      "\<forall>k < length ?L. sent_as R nowMs s' (rtxSeq ?s + of_nat k + 1) (?L ! k)"
      "rtxSeq s' = (if rtxStream s \<noteq> None then rtxSeq ?s + of_nat (length ?L) else rtxSeq ?s)"
      unfolding L by auto
    have sf: "rtxStream s' = rtxStream s" "buffer s' = buffer s"
      using same_but_items_fields [OF same_but_items_trans [OF same s'(3)]] by simp_all
    have used: "i < length (storage s)" by (rule buffer_inv_used(2) [OF Cons.prems(1) x(1)])
    have fresh: "i \<notin> (\<lambda>seq. the (buffer s seq)) ` set ?L"
    proof
      assume "i \<in> (\<lambda>seq. the (buffer s seq)) ` set ?L"
      then obtain sq where sq: "sq \<in> set seqs" "resendable nowMs rtt s sq" "i = the (buffer s sq)" by auto
      then have "buffer s sq = Some i" by (auto simp: resendable_def split: option.splits)
      then have "sq = seq" by (rule buffer_inv_inj [OF Cons.prems(1) _ x(1)])
      then show False using sq(1) Cons.prems(3) by simp
    qed
    have "sent_as R nowMs s' (rtxSeq s + 1) seq"
      using x(1-4) s'(4) fresh used unfolding sent_as_def sf by (intro exI [of _ i] exI [of _ c]) simp
    moreover have "sent_as R nowMs s' (rtxSeq s + of_nat (Suc k) + 1) (?L ! k)" if "k < length ?L" for k
    proof (cases "rtxStream s = None")
      case True
      then show ?thesis using s'(5) that by (auto simp: sent_as_def sf resent_item_def)
    next
      case False
      then show ?thesis using s'(5) that by (simp add: add.assoc)
    qed
    ultimately have "\<forall>k < length (seq # ?L). sent_as R nowMs s' (rtxSeq s + of_nat k + 1) ((seq # ?L) ! k)"
      by (auto simp: nth_Cons less_Suc_eq_0_disj split: nat.split)
    moreover have "storage s' ! j = storage s ! j" if "j \<notin> (\<lambda>seq. the (buffer s seq)) ` set (seq # ?L)" for j
      using that s'(4) x(1) by auto
    moreover have "rtxSeq s' = (if rtxStream s \<noteq> None then rtxSeq s + of_nat (length (seq # ?L)) else rtxSeq s)"
      using s'(6) by (simp add: algebra_simps)
    ultimately show ?thesis
      using True x(1,5) s'(1,2) same_but_items_trans [OF same s'(3)] by (intro exI [of _ s']) simp
  qed
qed

subsection \<open>Requests\<close>

lemma requested_distinct: "distinct (requested_seqs item)" "length (requested_seqs item) \<le> 17"
proof -
  let ?w = "nack_packetId item" and ?F = "filter (bit (nack_lostPacketBitmask item)) [0..<16]"
  have u: "unat (1 + of_nat k :: u16) = k + 1" if "k < 16" for k using that by (simp add: unat_word_ariths unat_of_nat)
  have "inj_on (\<lambda>k. ?w + 1 + of_nat k) {0..<16}"
  proof (rule inj_onI)
    fix j k assume jk: "j \<in> {0..<16}" "k \<in> {0..<16}" "?w + 1 + of_nat j = ?w + 1 + of_nat k"
    then have "unat (1 + of_nat j :: u16) = unat (1 + of_nat k :: u16)" by (simp add: add.assoc)
    then show "j = k" using u jk(1,2) by simp
  qed
  then have "distinct (map (\<lambda>k. ?w + 1 + of_nat k) ?F)" by (auto simp: distinct_map intro: inj_on_subset)
  moreover have "?w \<noteq> ?w + 1 + of_nat k" if "k < 16" for k
  proof
    assume "?w = ?w + 1 + of_nat k"
    then have "(1 + of_nat k :: u16) = 0" by (simp add: add.assoc)
    then show False using u [OF that] by simp
  qed
  ultimately show "distinct (requested_seqs item)" by (auto simp: requested_seqs_def)
  have "length ?F \<le> length [0..<16]" by (rule length_filter_le)
  then show "length (requested_seqs item) \<le> 17" by (simp add: requested_seqs_def)
qed

lemma Fill_ok:
  fixes nowMs :: u64 and rtt :: u16 and item :: NackItem
  assumes inv: "buffer_inv R s" and clk: "par_clockRate (params s) \<noteq> 0" and use: "par_useNack (params s)"
  defines "L \<equiv> filter (resendable nowMs rtt s) (requested_seqs item)"
  shows "\<exists>s'. FillRetransmissionContainer nowMs rtt (nack_packetId item) (nack_lostPacketBitmask item) s =
      Some (map (\<lambda>seq. the (buffer s seq)) L, s') \<and> buffer_inv R s' \<and> same_but_items s s' \<and>
    (\<forall>i. i \<notin> (\<lambda>seq. the (buffer s seq)) ` set L \<longrightarrow> storage s' ! i = storage s ! i) \<and>
    rtxSeq s' = (if rtxStream s \<noteq> None then rtxSeq s + of_nat (length L) else rtxSeq s) \<and>
    (\<forall>k < length L. sent_as R nowMs s' (rtxSeq s + of_nat k + 1) (L ! k))"
proof -
  have rem: "remaining (nack_packetId item) True (nack_lostPacketBitmask item) = requested_seqs item"
    by (simp add: remaining_def requested_seqs_def)
  obtain s' where s': "resend_all nowMs rtt (requested_seqs item) s = Some (map (\<lambda>seq. the (buffer s seq)) L, s')"
    "buffer_inv R s'" "same_but_items s s'" "\<forall>i. i \<notin> (\<lambda>seq. the (buffer s seq)) ` set L \<longrightarrow> storage s' ! i = storage s ! i"
    "rtxSeq s' = (if rtxStream s \<noteq> None then rtxSeq s + of_nat (length L) else rtxSeq s)"
    "\<forall>k < length L. sent_as R nowMs s' (rtxSeq s + of_nat k + 1) (L ! k)"
    using resend_all_ok [OF inv clk requested_distinct(1)] unfolding L_def by blast
  have "length L \<le> 17" using length_filter_le requested_distinct(2) unfolding L_def by (rule order_trans)
  moreover have "fill_loop nowMs rtt (nack_packetId item) True (nack_lostPacketBitmask item) [] s =
      Some (map (\<lambda>seq. the (buffer s seq)) L, s')"
    using fill_loop_eq [where s = s, of "[]" "nack_packetId item" True "nack_lostPacketBitmask item"] requested_distinct(2) s'(1)
    by (simp add: rem option.map_id)
  ultimately show ?thesis using use s'(2-6) by (simp add: FillRetransmissionContainer_def)
qed

lemma retransmit_eq:
  assumes "\<And>i. i \<in> set is \<Longrightarrow> i < length (storage s) \<and> st_packet (storage s ! i) \<noteq> None"
  shows "retransmit is s = Some (map (\<lambda>i. the (st_packet (storage s ! i))) is,
    s\<lparr>packetsRetransmitted := packetsRetransmitted s + length is,
      packetsRepaired := packetsRepaired s + length (filter (\<lambda>i. sentTimes (storage s ! i) = 1) is)\<rparr>)"
  using assms
proof (induction "is" arbitrary: s)
  case (Cons i "is")
  obtain q where q: "st_packet (storage s ! i) = Some q" "i < length (storage s)" using Cons.prems [of i] by auto
  have IH: "retransmit is s' = Some (map (\<lambda>i. the (st_packet (storage s ! i))) is,
    s'\<lparr>packetsRetransmitted := packetsRetransmitted s' + length is,
      packetsRepaired := packetsRepaired s' + length (filter (\<lambda>i. sentTimes (storage s ! i) = 1) is)\<rparr>)"
    if "storage s' = storage s" for s'
    using Cons.IH [of s'] Cons.prems that by simp
  show ?case using q by (simp add: IH PacketRetransmitted_def PacketRepaired_def Let_def)
qed simp

text \<open>The counters of the score: every repaired packet was counted as retransmitted in the same interval.\<close>

definition counters_inv :: "nat \<Rightarrow> 'h rtp_stream_send \<Rightarrow> bool" where
  "counters_inv n s \<longleftrightarrow> repairedPriorScore s \<le> packetsRepaired s \<and> retransmittedPriorScore s \<le> packetsRetransmitted s \<and>
     packetsRepaired s - repairedPriorScore s \<le> packetsRetransmitted s - retransmittedPriorScore s \<and> packetsRetransmitted s \<le> n"

lemma counters_inv_sent:
  assumes "counters_inv n s" "r \<le> k" "k \<le> 17"
  shows "counters_inv (n + 17) (s\<lparr>packetsRetransmitted := packetsRetransmitted s + k, packetsRepaired := packetsRepaired s + r\<rparr>)"
  using assms unfolding counters_inv_def by (simp, linarith)

text \<open>A packet that has just been sent again is not resendable at the same time, and the others are as before.\<close>

lemma resendable_after:
  fixes nowMs :: u64 and rtt :: u16 and s s' :: "'h rtp_stream_send" and seqs :: "u16 list"
  defines "L \<equiv> filter (resendable nowMs rtt s) seqs"
  assumes inv: "buffer_inv R s" and now: "nowMs \<noteq> 0" and same: "same_but_items s s'"
    and keep: "\<forall>i. i \<notin> (\<lambda>seq. the (buffer s seq)) ` set L \<longrightarrow> storage s' ! i = storage s ! i"
    and sent: "\<forall>k < length L. sent_as R nowMs s' (n k) (L ! k)"
  shows "resendable nowMs rtt s' sq \<longleftrightarrow> resendable nowMs rtt s sq \<and> sq \<notin> set seqs"
proof (cases "sq \<in> set L")
  case True
  then obtain k where "k < length L" "L ! k = sq" unfolding in_set_conv_nth by blast
  then obtain i c where "buffer s' sq = Some i" "resent_item nowMs (rtxStream s' \<noteq> None) (n k) c (storage s' ! i)"
    using sent unfolding sent_as_def by blast
  then have "\<not> resendable nowMs rtt s' sq" using now by (simp add: resendable_def resent_item_def)
  then show ?thesis using True unfolding L_def by simp
next
  case False
  have "resendable nowMs rtt s' sq = resendable nowMs rtt s sq"
  proof (cases "buffer s sq")
    case None
    then show ?thesis using same_but_items_fields(7) [OF same] by (simp add: resendable_def)
  next
    case (Some i)
    have "i \<notin> (\<lambda>seq. the (buffer s seq)) ` set L"
    proof
      assume "i \<in> (\<lambda>seq. the (buffer s seq)) ` set L"
      then obtain x where x: "x \<in> set L" "i = the (buffer s x)" by blast
      then have "buffer s x = Some i" by (auto simp: L_def resendable_def split: option.splits)
      then have "x = sq" by (rule buffer_inv_inj [OF inv _ Some])
      then show False using x(1) False by simp
    qed
    then show ?thesis using keep same_but_items_fields [OF same] Some by (auto simp: resendable_def split: option.split)
  qed
  then show ?thesis using False unfolding L_def by auto
qed

text \<open>One NACK item.\<close>

definition answers :: "content set \<Rightarrow> u64 \<Rightarrow> u16 \<Rightarrow> 'h rtp_stream_send \<Rightarrow> u16 list \<Rightarrow> 'h rtp_packet list \<Rightarrow> bool" where
  "answers R nowMs rtt s seqs ps \<longleftrightarrow> (let L = filter (resendable nowMs rtt s) seqs in
     length ps = length L \<and> (\<forall>k < length L. \<exists>c \<in> R. fst c = Some (L ! k) \<and> carries (ps ! k) c \<and>
       (rtxStream s \<noteq> None \<longrightarrow> GetSequenceNumber (ps ! k) = Some (rtxSeq s + of_nat k + 1))))"

lemma resend_item_ok:
  assumes inv: "buffer_inv R s" and clk: "par_clockRate (params s) \<noteq> 0" and cnt: "counters_inv n s"
  shows "\<exists>c s1 ps s'. FillRetransmissionContainer nowMs rtt (nack_packetId item) (nack_lostPacketBitmask item) s = Some (c, s1) \<and>
    retransmit c s1 = Some (ps, s') \<and> buffer_inv R s' \<and> counters_inv (n + 17) s' \<and> params s' = params s \<and>
    transmissionCounter s' = transmissionCounter s \<and> length (storage s') = length (storage s) \<and>
    (\<forall>q \<in> set ps. \<exists>c \<in> R. carries q c) \<and> rtxStream s' = rtxStream s \<and>
    (par_useNack (params s) \<longrightarrow> answers R nowMs rtt s (requested_seqs item) ps \<and>
      (rtxStream s \<noteq> None \<longrightarrow> rtxSeq s' = rtxSeq s + of_nat (length ps)) \<and>
      (nowMs \<noteq> 0 \<longrightarrow> (\<forall>sq. resendable nowMs rtt s' sq \<longleftrightarrow> resendable nowMs rtt s sq \<and> sq \<notin> set (requested_seqs item))))"
proof (cases "par_useNack (params s)")
  case False
  then show ?thesis using inv cnt by (auto simp: FillRetransmissionContainer_def counters_inv_def)
next
  case True
  define L where "L = filter (resendable nowMs rtt s) (requested_seqs item)"
  let ?c = "map (\<lambda>seq. the (buffer s seq)) L"
  obtain s1 where s1: "FillRetransmissionContainer nowMs rtt (nack_packetId item) (nack_lostPacketBitmask item) s = Some (?c, s1)"
    "buffer_inv R s1" "same_but_items s s1" "\<forall>k < length L. sent_as R nowMs s1 (rtxSeq s + of_nat k + 1) (L ! k)"
    "\<forall>i. i \<notin> (\<lambda>seq. the (buffer s seq)) ` set L \<longrightarrow> storage s1 ! i = storage s ! i"
    "rtxSeq s1 = (if rtxStream s \<noteq> None then rtxSeq s + of_nat (length L) else rtxSeq s)"
    using Fill_ok [OF inv clk True] unfolding L_def by blast
  note f = same_but_items_fields [OF s1(3)]
  have len: "length L \<le> 17" using length_filter_le requested_distinct(2) unfolding L_def by (rule order_trans)
  have ok: "\<exists>q c. st_packet (storage s1 ! (?c ! k)) = Some q \<and> c \<in> R \<and> fst c = Some (L ! k) \<and> carries q c \<and> ?c ! k < length (storage s1) \<and>
      (rtxStream s \<noteq> None \<longrightarrow> GetSequenceNumber q = Some (rtxSeq s + of_nat k + 1))" if k: "k < length L" for k
  proof -
    obtain i c where i: "buffer s1 (L ! k) = Some i" "c \<in> R" "fst c = Some (L ! k)"
      "resent_item nowMs (rtxStream s1 \<noteq> None) (rtxSeq s + of_nat k + 1) c (storage s1 ! i)"
      using s1(4) k unfolding sent_as_def by blast
    have "?c ! k = i" using i(1) k f(7) by simp
    moreover obtain q where "st_packet (storage s1 ! i) = Some q" "carries q c"
      "rtxStream s1 \<noteq> None \<longrightarrow> GetSequenceNumber q = Some (rtxSeq s + of_nat k + 1)"
      using i(4) unfolding resent_item_def by blast
    ultimately show ?thesis
      using i(2,3) buffer_inv_used(2) [OF s1(2) i(1)] f(4) by (intro exI [of _ q] exI [of _ c]) simp
  qed
  have valid: "i < length (storage s1) \<and> st_packet (storage s1 ! i) \<noteq> None" if "i \<in> set ?c" for i
  proof -
    obtain k where "k < length L" "i = ?c ! k" using \<open>i \<in> set ?c\<close> unfolding in_set_conv_nth by auto
    then show ?thesis using ok [of k] by auto
  qed
  let ?ps = "map (\<lambda>i. the (st_packet (storage s1 ! i))) ?c"
  let ?rep = "length (filter (\<lambda>i. sentTimes (storage s1 ! i) = 1) ?c)"
  let ?s = "s1\<lparr>packetsRetransmitted := packetsRetransmitted s1 + length ?c, packetsRepaired := packetsRepaired s1 + ?rep\<rparr>"
  have ret: "retransmit ?c s1 = Some (?ps, ?s)" by (rule retransmit_eq) (rule valid)
  have ans: "answers R nowMs rtt s (requested_seqs item) ?ps"
    unfolding answers_def L_def [symmetric] Let_def using ok by fastforce
  have "\<forall>q \<in> set ?ps. \<exists>c \<in> R. carries q c" using ok by (fastforce simp: in_set_conv_nth)
  moreover have "buffer_inv R ?s" using s1(2) by (simp add: buffer_inv_def)
  moreover have "counters_inv (n + 17) ?s"
  proof (rule counters_inv_sent)
    show "counters_inv n s1" using cnt f(8-11) by (simp add: counters_inv_def)
    show "?rep \<le> length ?c" by (rule length_filter_le)
    show "length ?c \<le> 17" using len by simp
  qed
  moreover have "resendable nowMs rtt ?s sq \<longleftrightarrow> resendable nowMs rtt s sq \<and> sq \<notin> set (requested_seqs item)" if "nowMs \<noteq> 0" for sq
  proof -
    have "resendable nowMs rtt ?s sq = resendable nowMs rtt s1 sq" by (simp add: resendable_def option.case_eq_if)
    then show ?thesis using resendable_after [OF inv that s1(3) s1(5) [unfolded L_def] s1(4) [unfolded L_def]] by blast
  qed
  ultimately show ?thesis using s1(1,6) ret ans f by (intro exI [of _ ?c] exI [of _ s1] exI [of _ ?ps] exI [of _ ?s]) simp
qed

subsection \<open>Runs\<close>

datatype 'h send_op =
    OpPacket "'h rtp_packet"
  | OpNack u16 "NackItem list"
  | OpKeyFrameRequest fb_ps_type
  | OpReceiverReport ReceiverReport
  | OpSenderReport
  | OpSetRtx u16 u8 u32
  | OpPause

type_synonym score_formula = "nat \<Rightarrow> u32 \<Rightarrow> u32 \<Rightarrow> u32 \<Rightarrow> u8"

fun send_handle :: "score_formula \<Rightarrow> u64 \<Rightarrow> 'h send_op \<Rightarrow> 'h rtp_stream_send \<Rightarrow> ('h rtp_packet list \<times> 'h rtp_stream_send) option" where
  "send_handle scoreOf nowMs (OpPacket p) s = map_option (\<lambda>(_, s). ([], s)) (Send_ReceivePacket nowMs p s)"
| "send_handle scoreOf nowMs (OpNack rtt items) s = ReceiveNack nowMs rtt items s"
| "send_handle scoreOf nowMs (OpKeyFrameRequest t) s = Some ([], ReceiveKeyFrameRequest t s)"
| "send_handle scoreOf nowMs (OpReceiverReport r) s = map_option (\<lambda>(s, _). ([], s)) (ReceiveRtcpReceiverReport scoreOf nowMs r s)"
| "send_handle scoreOf nowMs OpSenderReport s = Some ([], snd (GetRtcpSenderReport nowMs s))"
| "send_handle scoreOf nowMs (OpSetRtx rand pt ssrc) s = Some ([], Send_SetRtx rand pt ssrc s)"
| "send_handle scoreOf nowMs OpPause s = map_option (Pair []) (Send_Pause s)"

fun send_run :: "score_formula \<Rightarrow> (u64 \<times> 'h send_op) list \<Rightarrow> 'h rtp_stream_send \<Rightarrow> ('h rtp_packet list \<times> 'h rtp_stream_send) option" where
  "send_run scoreOf [] s = Some ([], s)"
| "send_run scoreOf ((nowMs, op) # ops) s = do {
     (ps, s) \<leftarrow> send_handle scoreOf nowMs op s;
     (qs, s) \<leftarrow> send_run scoreOf ops s;
     Some (ps @ qs, s) }"

fun op_nacks :: "'h send_op \<Rightarrow> nat" where
  "op_nacks (OpNack rtt items) = length items"
| "op_nacks _ = 0"

fun op_packets :: "'h send_op \<Rightarrow> 'h rtp_packet list" where
  "op_packets (OpPacket p) = [p]"
| "op_packets _ = []"

definition run_packets :: "(u64 \<times> 'h send_op) list \<Rightarrow> 'h rtp_packet set" where
  "run_packets ops = (\<Union>(t, op) \<in> set ops. set (op_packets op))"

text \<open>Packets come from the parser, the clock does not go back and has counted one rate window.\<close>

definition send_ops_ok :: "(u64 \<times> 'h send_op) list \<Rightarrow> bool" where
  "send_ops_ok ops \<longleftrightarrow> sorted (map fst ops) \<and> (\<forall>(t, op) \<in> set ops. 2500 \<le> t \<and> (\<forall>p \<in> set (op_packets op). rtp_wf p)) \<and>
     17 * (\<Sum>(t, op) \<leftarrow> ops. op_nacks op) < 2 ^ 32"

definition send_inv :: "content set \<Rightarrow> u64 \<Rightarrow> nat \<times> bool \<Rightarrow> nat \<Rightarrow> 'h rtp_stream_send \<Rightarrow> bool" where
  "send_inv R now cap n s \<longleftrightarrow> buffer_inv R s \<and> par_clockRate (params s) \<noteq> 0 \<and> counters_inv n s \<and> length (storage s) = fst cap \<and> par_useNack (params s) = snd cap \<and>
     (\<exists>us w t. rc_after 2500 100 us (dc_rate (transmissionCounter s)) w t \<and> t \<le> unat now)"

lemma counters_inv_mono: "counters_inv n s \<Longrightarrow> n \<le> n' \<Longrightarrow> counters_inv n' s"
  by (simp add: counters_inv_def)

lemma buffer_inv_cong:
  "buffer s' = buffer s \<Longrightarrow> bufferSize s' = bufferSize s \<Longrightarrow> bufferStartIdx s' = bufferStartIdx s \<Longrightarrow> storage s' = storage s \<Longrightarrow>
   buffer_inv R s' = buffer_inv R s"
  by (simp add: buffer_inv_def)

lemma nack_items_ok:
  assumes "send_inv R now cap n s"
  shows "\<exists>ps s'. nack_items nowMs rtt items s = Some (ps, s') \<and> send_inv R now cap (n + 17 * length items) s' \<and>
    (\<forall>q \<in> set ps. \<exists>c \<in> R. carries q c)"
  using assms
proof (induction items arbitrary: s n)
  case (Cons item items)
  let ?s = "s\<lparr>nackPacketCount := nackPacketCount s + CountRequestedPackets item\<rparr>"
  have inv: "buffer_inv R ?s" "par_clockRate (params ?s) \<noteq> 0" "counters_inv n ?s"
    using Cons.prems by (simp_all add: send_inv_def buffer_inv_def counters_inv_def)
  obtain c s1 ps s' where r: "FillRetransmissionContainer nowMs rtt (nack_packetId item) (nack_lostPacketBitmask item) ?s = Some (c, s1)"
    "retransmit c s1 = Some (ps, s')" "buffer_inv R s'" "counters_inv (n + 17) s'" "params s' = params ?s"
    "transmissionCounter s' = transmissionCounter ?s" "length (storage s') = length (storage ?s)" "\<forall>q \<in> set ps. \<exists>c \<in> R. carries q c"
    using resend_item_ok [OF inv] by blast
  have "send_inv R now cap (n + 17) s'" using r(3-7) Cons.prems by (simp add: send_inv_def)
  from Cons.IH [OF this] obtain qs s'' where "nack_items nowMs rtt items s' = Some (qs, s'')"
    "send_inv R now cap (n + 17 + 17 * length items) s''" "\<forall>q \<in> set qs. \<exists>c \<in> R. carries q c" by blast
  then show ?case using r(1,2,8) by (auto simp: Let_def add.assoc)
qed auto

lemma rc_counter_ok:
  assumes "send_inv R now cap n s" and "now \<le> now'" and "2500 \<le> now'"
  shows "\<exists>c. RtpDataCounter_Update sz (unat now') (transmissionCounter s) = Some c \<and>
    (\<exists>us w t. rc_after 2500 100 us (dc_rate c) w t \<and> t \<le> unat now')"
proof -
  obtain us w t where t: "rc_after 2500 100 us (dc_rate (transmissionCounter s)) w t" "t \<le> unat now"
    using assms(1) by (auto simp: send_inv_def)
  have "t \<le> unat now'" "2500 \<le> unat now'" "unat now' < 2 ^ 64"
    using t(2) assms(2,3) unat_less [of now'] by (simp_all add: word_le_nat_alt)
  from rc_after_update [OF t(1) _ _ this, of sz] obtain r where
    "RateCalculator_Update sz (unat now') (dc_rate (transmissionCounter s)) = Some r"
    "rc_after 2500 100 (us @ [(unat now', sz)]) r (window_step 2500 100 (unat now', sz) w) (unat now')" by auto
  moreover from this(2) have "\<exists>us w t. rc_after 2500 100 us r w t \<and> t \<le> unat now'" by blast
  ultimately show ?thesis by (auto simp: RtpDataCounter_Update_def)
qed

lemma u32_diff_le:
  assumes "b \<le> (a :: nat)" "d \<le> c" "a - b \<le> c - d" "c < 2 ^ 32"
  shows "(of_nat a - of_nat b :: u32) \<le> of_nat c - of_nat d"
proof -
  have e: "(of_nat a - of_nat b :: u32) = of_nat (a - b)" "(of_nat c - of_nat d :: u32) = of_nat (c - d)"
    using assms(1,2) by (simp_all add: of_nat_diff)
  show ?thesis unfolding e word_le_nat_alt using assms(3,4) by (simp add: unat_of_nat_less)
qed

lemma Send_ReceivePacket_ok:
  assumes inv: "send_inv R now cap n s" and p: "rtp_wf p" and now: "now \<le> now'" "2500 \<le> now'"
  shows "\<exists>ok s'. Send_ReceivePacket now' p s = Some (ok, s') \<and> send_inv (insert (rtp_content p) R) now' cap n s'"
proof -
  obtain seq ts where g: "GetSequenceNumber p = Some seq" "GetTimestamp p = Some ts" using p by (rule rtp_wf_Get)
  obtain ok q where r: "seq_ReceivePacket now' seq ts (strm_seq s) = (ok, q)" by fastforce
  let ?s = "s\<lparr>strm_seq := q\<rparr>"
  have binv: "buffer_inv R ?s" "storage ?s \<noteq> []" using inv by (auto simp: send_inv_def buffer_inv_def)
  have rc: "\<exists>us w t. rc_after 2500 100 us (dc_rate (transmissionCounter s)) w t \<and> t \<le> unat now'"
    using inv now(1) unfolding send_inv_def word_le_nat_alt by (meson order_trans)
  show ?thesis
  proof (cases ok)
    case False
    have "buffer_inv (insert (rtp_content p) R) ?s" using binv(1) by (rule buffer_inv_mono) auto
    then have "send_inv (insert (rtp_content p) R) now' cap n ?s" using inv rc by (simp add: send_inv_def counters_inv_def)
    moreover have "Send_ReceivePacket now' p s = Some (False, ?s)" using g r False by (simp add: Send_ReceivePacket_def)
    ultimately show ?thesis by blast
  next
    case True
    obtain s1 where s1: "StorePacket p ?s = Some s1" "buffer_inv (insert (rtp_content p) R) s1" "same_stream ?s s1"
      using StorePacket_inv [OF binv(1) p] by blast
    note f = same_stream_fields [OF s1(3)]
    obtain c where c: "RtpDataCounter_Update (rtp_size p) (unat now') (transmissionCounter s) = Some c"
      "\<exists>us w t. rc_after 2500 100 us (dc_rate c) w t \<and> t \<le> unat now'" using rc_counter_ok [OF inv now] by blast
    let ?t = "s1\<lparr>transmissionCounter := c\<rparr>"
    have "buffer_inv (insert (rtp_content p) R) ?t" using s1(2) by (simp add: buffer_inv_def)
    then have "send_inv (insert (rtp_content p) R) now' cap n ?t"
      using inv c(2) f by (simp add: send_inv_def counters_inv_def)
    moreover have "Send_ReceivePacket now' p s = Some (True, ?t)"
      using g r True s1(1) binv(2) f(6) c(1) by (simp add: Send_ReceivePacket_def)
    ultimately show ?thesis by blast
  qed
qed

lemma ReceiveRtcpReceiverReport_ok:
  assumes inv: "send_inv R now cap n s" and n: "n < 2 ^ 32"
  shows "\<exists>s' ev. ReceiveRtcpReceiverReport scoreOf nowMs r s = Some (s', ev) \<and> send_inv R now cap n s'"
proof -
  let ?rep = "of_nat (packetsRepaired s) - of_nat (repairedPriorScore s) :: u32"
  let ?ret = "of_nat (packetsRetransmitted s) - of_nat (retransmittedPriorScore s) :: u32"
  have "?rep \<le> ?ret" using inv n by (intro u32_diff_le) (auto simp: send_inv_def counters_inv_def)
  then have ass: "\<not> ?ret < (if ?rep > l then l else ?rep)" for l by (auto simp: not_less)
  have keep: "send_inv R now cap n s'"
    if "buffer s' = buffer s" "bufferSize s' = bufferSize s" "bufferStartIdx s' = bufferStartIdx s" "storage s' = storage s"
      "params s' = params s" "transmissionCounter s' = transmissionCounter s" "packetsRepaired s' = packetsRepaired s"
      "packetsRetransmitted s' = packetsRetransmitted s" "repairedPriorScore s' = packetsRepaired s"
      "retransmittedPriorScore s' = packetsRetransmitted s" for s' :: "'a rtp_stream_send"
    using inv that buffer_inv_cong [of s' s R] by (simp add: send_inv_def counters_inv_def)
  show ?thesis
    unfolding ReceiveRtcpReceiverReport_def Send_UpdateScore_def
    by (cases "sub64 (dc_packets (transmissionCounter s)) (unat (sentPriorScore s)) = 0")
      (simp_all add: Let_def split_beta ass keep split del: if_split)
qed

lemma send_handle_ok:
  assumes inv: "send_inv R now cap n s" and now: "now \<le> now'" "2500 \<le> now'" and p: "\<forall>p \<in> set (op_packets op). rtp_wf p"
    and n: "n + 17 * op_nacks op < 2 ^ 32"
  shows "\<exists>ps s'. send_handle scoreOf now' op s = Some (ps, s') \<and>
    send_inv (R \<union> rtp_content ` set (op_packets op)) now' cap (n + 17 * op_nacks op) s' \<and>
    (\<forall>q \<in> set ps. \<exists>c \<in> R. carries q c)"
proof -
  have inv': "send_inv R now' cap n s" using inv now(1) unfolding send_inv_def word_le_nat_alt by (meson order_trans)
  have keep: "send_inv R now' cap n s'"
    if "buffer s' = buffer s" "bufferSize s' = bufferSize s" "bufferStartIdx s' = bufferStartIdx s" "storage s' = storage s"
      "par_clockRate (params s') = par_clockRate (params s)" "par_useNack (params s') = par_useNack (params s)" "transmissionCounter s' = transmissionCounter s"
      "packetsRepaired s' = packetsRepaired s" "packetsRetransmitted s' = packetsRetransmitted s"
      "repairedPriorScore s' = repairedPriorScore s" "retransmittedPriorScore s' = retransmittedPriorScore s"
    for s' :: "'a rtp_stream_send"
    using inv' that buffer_inv_cong [of s' s R] by (simp add: send_inv_def counters_inv_def)
  show ?thesis
  proof (cases op)
    case (OpPacket x)
    then show ?thesis using Send_ReceivePacket_ok [OF inv _ now, of x] p by auto
  next
    case (OpNack rtt items)
    have "send_inv R now' cap n (s\<lparr>nackCount := nackCount s + 1\<rparr>)" by (rule keep) simp_all
    from nack_items_ok [OF this] OpNack show ?thesis by (simp add: ReceiveNack_def)
  next
    case (OpKeyFrameRequest t)
    then show ?thesis by (auto simp: ReceiveKeyFrameRequest_def intro!: keep split: fb_ps_type.split)
  next
    case (OpReceiverReport r)
    then show ?thesis using ReceiveRtcpReceiverReport_ok [OF inv', of scoreOf now' r] n by auto
  next
    case OpSenderReport
    then show ?thesis by (auto simp: GetRtcpSenderReport_def Let_def intro!: keep)
  next
    case (OpSetRtx rand pt ssrc)
    then show ?thesis by (auto simp: Send_SetRtx_def SetRtx_def intro!: keep)
  next
    case OpPause
    obtain s' where s': "ClearBuffer s = Some s'" "buffer_inv R s'" "same_stream s s'"
      using ClearBuffer_inv inv unfolding send_inv_def by blast
    have "send_inv R now' cap n s'"
      using inv' s'(2) same_stream_fields [OF s'(3)] by (simp add: send_inv_def counters_inv_def)
    then show ?thesis using OpPause s'(1) by (simp add: Send_Pause_def)
  qed
qed

lemma send_inv_new:
  assumes "2 \<le> cap" and "par_clockRate pars \<noteq> 0"
  shows "send_inv {} 0 (cap, par_useNack pars) 0 (RtpStreamSend_new pars cap startMs)"
proof -
  have "rc_after 2500 100 [] (RateCalculator_new 2500 100) ([], 0) 0" by (rule rc_after_new) simp
  then have "\<exists>us w t. rc_after 2500 100 us (RateCalculator_new 2500 100) w t \<and> t \<le> unat (0 :: u64)" by fastforce
  then show ?thesis
    using assms
    by (simp add: send_inv_def RtpStreamSend_new_def buffer_inv_def counters_inv_def item_free_def StorageItem_new_def RtpDataCounter_new_def)
qed

lemma send_run_ok:
  assumes "send_inv R now cap n s" and "sorted (now # map fst ops)"
    and "\<And>t op. (t, op) \<in> set ops \<Longrightarrow> 2500 \<le> t \<and> (\<forall>p \<in> set (op_packets op). rtp_wf p)"
    and "n + 17 * (\<Sum>(t, op) \<leftarrow> ops. op_nacks op) < 2 ^ 32"
  shows "\<exists>out s'. send_run scoreOf ops s = Some (out, s') \<and>
    send_inv (R \<union> rtp_content ` run_packets ops) (last (now # map fst ops)) cap (n + 17 * (\<Sum>(t, op) \<leftarrow> ops. op_nacks op)) s' \<and>
    (\<forall>q \<in> set out. \<exists>c \<in> R \<union> rtp_content ` run_packets ops. carries q c)"
  using assms
proof (induction ops arbitrary: R now n s)
  case Nil
  then show ?case by (simp add: run_packets_def)
next
  case (Cons x ops)
  obtain t op where x: "x = (t, op)" by (cases x)
  have t: "now \<le> t" "2500 \<le> t" "\<forall>p \<in> set (op_packets op). rtp_wf p" "n + 17 * op_nacks op < 2 ^ 32"
    using Cons.prems(2-4) x by force+
  let ?R = "R \<union> rtp_content ` set (op_packets op)"
  obtain ps s1 where s1: "send_handle scoreOf t op s = Some (ps, s1)" "send_inv ?R t cap (n + 17 * op_nacks op) s1"
    "\<forall>q \<in> set ps. \<exists>c \<in> R. carries q c" using send_handle_ok [OF Cons.prems(1) t] by blast
  have "sorted (t # map fst ops)" "n + 17 * op_nacks op + 17 * (\<Sum>(t, op) \<leftarrow> ops. op_nacks op) < 2 ^ 32"
    using Cons.prems(2,4) x by simp_all
  moreover have "\<And>t op. (t, op) \<in> set ops \<Longrightarrow> 2500 \<le> t \<and> (\<forall>p \<in> set (op_packets op). rtp_wf p)"
    by (intro Cons.prems(3)) simp
  ultimately obtain out s' where
    s': "send_run scoreOf ops s1 = Some (out, s')"
    "send_inv (?R \<union> rtp_content ` run_packets ops) (last (t # map fst ops)) cap (n + 17 * op_nacks op + 17 * (\<Sum>(t, op) \<leftarrow> ops. op_nacks op)) s'"
    "\<forall>q \<in> set out. \<exists>c \<in> ?R \<union> rtp_content ` run_packets ops. carries q c"
    using Cons.IH [OF s1(2)] by blast
  have R: "?R \<union> rtp_content ` run_packets ops = R \<union> rtp_content ` run_packets (x # ops)"
    by (auto simp: run_packets_def x)
  show ?case
    using s1(1,3) s' unfolding R by (auto simp: x algebra_simps)
qed

lemma send_run_new:
  assumes "2 \<le> cap" and "par_clockRate pars \<noteq> 0" and "send_ops_ok ops"
  shows "\<exists>out s. send_run scoreOf ops (RtpStreamSend_new pars cap startMs) = Some (out, s) \<and>
    send_inv (rtp_content ` run_packets ops) (last (0 # map fst ops)) (cap, par_useNack pars) (17 * (\<Sum>(t, op) \<leftarrow> ops. op_nacks op)) s \<and>
    (\<forall>q \<in> set out. \<exists>p \<in> run_packets ops. carries q (rtp_content p))"
proof -
  have ops: "sorted (0 # map fst ops)" "0 + 17 * (\<Sum>(t, op) \<leftarrow> ops. op_nacks op) < 2 ^ 32"
    "\<And>t op. (t, op) \<in> set ops \<Longrightarrow> 2500 \<le> t \<and> (\<forall>p \<in> set (op_packets op). rtp_wf p)"
    using assms(3) by (auto simp: send_ops_ok_def)
  from send_run_ok [OF send_inv_new [OF assms(1,2), of startMs] ops(1) _ ops(2), of scoreOf] ops(3)
  show ?thesis by (simp only: Un_empty_left add_0 bex_simps ball_simps image_iff) blast
qed

text \<open>A packet on the wire delivers a media packet: it has the same content, or every receiver that decodes it as RTX gets it.\<close>

definition delivers :: "'h rtp_packet \<Rightarrow> 'h rtp_packet \<Rightarrow> bool" where
  "delivers q p \<longleftrightarrow> rtp_wf q \<and> (rtp_content q = rtp_content p \<or>
     (\<forall>pt ssrc. \<exists>r. RtxDecode pt ssrc q = Some (True, r) \<and> rtp_content r = rtp_content p))"

lemma carries_delivers: "carries q (rtp_content p) \<Longrightarrow> delivers q p"
  using RtxDecode_content [of q] by (fastforce simp: carries_def delivers_def)

text \<open>C37: in every run of a sending stream with room for at least two packets, whatever packets are sent, requested, reported or
  paused in whatever order, no assertion fails, no null pointer is followed and nothing is written outside the buffers;
  and every packet that is sent again delivers a packet that the stream was given before: it has its sequence
  number, timestamp, marker and payload, or decodes to them at the receiver of the RTX stream.\<close>

theorem RtpStreamSend_safe:
  assumes "2 \<le> cap" and "par_clockRate pars \<noteq> 0" and "send_ops_ok ops"
  shows "\<exists>out s. send_run scoreOf ops (RtpStreamSend_new pars cap startMs) = Some (out, s) \<and>
    length (storage s) = cap \<and> (\<forall>q \<in> set out. \<exists>p \<in> run_packets ops. delivers q p)"
  using send_run_new [OF assms, of scoreOf startMs] carries_delivers by (fastforce simp: send_inv_def)

text \<open>A concrete stream for the examples.\<close>

definition example_params :: rtp_params where
  "example_params = \<lparr>par_ssrc = 9, par_payloadType = 100, par_clockRate = 90000, par_cname = [], par_rtxSsrc = 0,
     par_rtxPayloadType = 0, par_useNack = True, par_usePli = False, par_useFir = False, par_useInBandFec = False,
     par_useDtx = False, par_spatialLayers = 1, par_temporalLayers = 1\<rparr>"

abbreviation (input) "example_bytes \<equiv> [0x80, 100, 0, 7, 0, 0, 0, 1, 0, 0, 0, 9, 1, 2, 3, 0] :: bytes"

lemma example_packet:
  obtains p :: "unit rtp_packet" where "RtpPacket_Parse example_bytes 15 = Some (Some p)" "rtp_wf p"
proof -
  have l: "rtp_layout example_bytes 15 3 0" by code_simp
  show thesis by (rule parsed_layout [OF l]) (rule that)
qed

theorem RtpStreamSend_safe_witness:
  "\<exists>(p :: unit rtp_packet) out s. RtpPacket_Parse example_bytes 15 = Some (Some p) \<and>
    send_run (\<lambda>_ _ _ _. 10) [(3000, OpSetRtx 5 101 77), (3001, OpPacket p), (3010, OpNack 100 [\<lparr>nack_packetId = 7, nack_lostPacketBitmask = 3\<rparr>])]
      (RtpStreamSend_new example_params 600 0) = Some (out, s) \<and> length (storage s) = 600"
proof -
  obtain p :: "unit rtp_packet" where p: "RtpPacket_Parse example_bytes 15 = Some (Some p)" "rtp_wf p" by (rule example_packet)
  let ?ops = "[(3000, OpSetRtx 5 101 77), (3001, OpPacket p), (3010, OpNack 100 [\<lparr>nack_packetId = 7, nack_lostPacketBitmask = 3\<rparr>])]"
  have "send_ops_ok ?ops" using p(2) by (simp add: send_ops_ok_def)
  moreover have "par_clockRate example_params \<noteq> 0" by (simp add: example_params_def)
  ultimately show ?thesis
    using RtpStreamSend_safe [of 600 example_params ?ops "\<lambda>_ _ _ _. 10" 0] p(1) by auto
qed

text \<open>A NACK with several items: a number that is requested again in a later item counts once.\<close>

fun firsts :: "'a list \<Rightarrow> 'a list" where
  "firsts [] = []"
| "firsts (x # xs) = x # filter (\<lambda>y. y \<noteq> x) (firsts xs)"

lemma set_firsts [simp]: "set (firsts xs) = set xs"
  by (induction xs) auto

lemma firsts_append: "firsts (xs @ ys) = firsts xs @ filter (\<lambda>y. y \<notin> set xs) (firsts ys)"
  by (induction xs) (auto intro: filter_cong)

lemma firsts_distinct: "distinct xs \<Longrightarrow> firsts xs = xs"
  by (induction xs) (auto simp: filter_id_conv)

lemma nack_items_answers:
  assumes "buffer_inv R s" "par_clockRate (params s) \<noteq> 0" "counters_inv n s" "par_useNack (params s)" and now: "nowMs \<noteq> 0"
  shows "\<exists>ps s'. nack_items nowMs rtt items s = Some (ps, s') \<and> answers R nowMs rtt s (firsts (concat (map requested_seqs items))) ps"
  using assms(1-4)
proof (induction items arbitrary: s n)
  case Nil
  then show ?case by (simp add: answers_def)
next
  case (Cons item items)
  let ?s = "s\<lparr>nackPacketCount := nackPacketCount s + CountRequestedPackets item\<rparr>"
  let ?xs = "requested_seqs item" and ?ys = "firsts (concat (map requested_seqs items))"
  have s: "buffer_inv R ?s" "par_clockRate (params ?s) \<noteq> 0" "counters_inv n ?s" "par_useNack (params ?s)" "rtxSeq ?s = rtxSeq s" "rtxStream ?s = rtxStream s"
    using Cons.prems by (simp_all add: buffer_inv_def counters_inv_def)
  have re: "resendable nowMs rtt ?s = resendable nowMs rtt s" by (simp add: resendable_def fun_eq_iff option.case_eq_if)
  obtain c s1 ps s2 where r: "FillRetransmissionContainer nowMs rtt (nack_packetId item) (nack_lostPacketBitmask item) ?s = Some (c, s1)"
      "retransmit c s1 = Some (ps, s2)" "buffer_inv R s2" "counters_inv (n + 17) s2" "params s2 = params s" "rtxStream s2 = rtxStream s"
      "answers R nowMs rtt ?s ?xs ps" "rtxStream s \<noteq> None \<longrightarrow> rtxSeq s2 = rtxSeq s + of_nat (length ps)"
      "\<And>sq. resendable nowMs rtt s2 sq \<longleftrightarrow> resendable nowMs rtt s sq \<and> sq \<notin> set ?xs"
    using resend_item_ok [OF s(1-3), of nowMs rtt item] s(4-6) now unfolding re by auto
  obtain qs s' where q: "nack_items nowMs rtt items s2 = Some (qs, s')" "answers R nowMs rtt s2 ?ys qs"
    using Cons.IH [OF r(3) _ r(4)] Cons.prems(2,4) r(5) by auto
  let ?L = "filter (resendable nowMs rtt s) ?xs" and ?M = "filter (resendable nowMs rtt s2) ?ys"
  have "?M = filter (\<lambda>y. resendable nowMs rtt s y \<and> y \<notin> set ?xs) ?ys" unfolding r(9) by simp
  then have L: "filter (resendable nowMs rtt s) (firsts (concat (map requested_seqs (item # items)))) = ?L @ ?M"
    by (simp add: firsts_append firsts_distinct requested_distinct(1) conj_commute)
  have p: "length ps = length ?L" "\<And>k. k < length ?L \<Longrightarrow> \<exists>c \<in> R. fst c = Some (?L ! k) \<and> carries (ps ! k) c \<and>
      (rtxStream s \<noteq> None \<longrightarrow> GetSequenceNumber (ps ! k) = Some (rtxSeq s + of_nat k + 1))"
    using r(7) unfolding answers_def re Let_def by simp_all
  have m: "length qs = length ?M" "\<And>k. k < length ?M \<Longrightarrow> \<exists>c \<in> R. fst c = Some (?M ! k) \<and> carries (qs ! k) c \<and>
      (rtxStream s \<noteq> None \<longrightarrow> GetSequenceNumber (qs ! k) = Some (rtxSeq s2 + of_nat k + 1))"
    using q(2) unfolding answers_def Let_def r(6) by simp_all
  have "\<exists>c \<in> R. fst c = Some ((?L @ ?M) ! k) \<and> carries ((ps @ qs) ! k) c \<and>
      (rtxStream s \<noteq> None \<longrightarrow> GetSequenceNumber ((ps @ qs) ! k) = Some (rtxSeq s + of_nat k + 1))" if "k < length (?L @ ?M)" for k
  proof (cases "k < length ?L")
    case True
    then show ?thesis using p(1) p(2) [OF True] by (simp add: nth_append)
  next
    case False
    then have j: "k - length ?L < length ?M" using that by simp
    have "rtxStream s \<noteq> None \<Longrightarrow> rtxSeq s2 + of_nat (k - length ?L) + 1 = rtxSeq s + of_nat k + 1"
      using r(8) p(1) False by (simp add: of_nat_diff)
    then show ?thesis using m(2) [OF j] p(1) False by (auto simp: nth_append)
  qed
  then have "answers R nowMs rtt s (firsts (concat (map requested_seqs (item # items)))) (ps @ qs)"
    unfolding answers_def Let_def L using p(1) m(1) by simp
  then show ?case using r(1,2) q(1) by (simp add: Let_def)
qed

text \<open>The age of a stored packet: how many ticks its timestamp is behind the highest one. The code multiplies it by 1000 in 32 bits.\<close>

definition packet_age :: "'h rtp_stream_send \<Rightarrow> u16 \<Rightarrow> nat option" where
  "packet_age s seq = do {
     i \<leftarrow> buffer s seq;
     q \<leftarrow> st_packet (storage s ! i);
     ts \<leftarrow> GetTimestamp q;
     Some (unat (maxPacketTs (strm_seq s) - ts)) }"

text \<open>A requested packet is due if it is stored, at most two seconds older than the newest one, and was not sent again during the last
  round trip time.\<close>

definition due :: "u64 \<Rightarrow> u16 \<Rightarrow> 'h rtp_stream_send \<Rightarrow> u16 \<Rightarrow> bool" where
  "due nowMs rtt s seq \<longleftrightarrow> (case packet_age s seq of None \<Rightarrow> False | Some age \<Rightarrow> age * 1000 div unat (par_clockRate (params s)) \<le> 2000) \<and>
     (case buffer s seq of None \<Rightarrow> False | Some i \<Rightarrow>
        resentAtMs (storage s ! i) = 0 \<or> unat rtt < unat (nowMs - resentAtMs (storage s ! i)))"

lemma resendable_due:
  assumes "\<And>age. packet_age s seq = Some age \<Longrightarrow> age * 1000 < 2 ^ 32"
  shows "resendable nowMs rtt s seq \<longleftrightarrow> due nowMs rtt s seq"
proof (cases "packet_age s seq")
  case None
  then show ?thesis by (auto simp: resendable_def due_def packet_age_def split: option.splits bind_splits)
next
  case (Some age)
  then obtain i q ts where i: "buffer s seq = Some i" "st_packet (storage s ! i) = Some q" "GetTimestamp q = Some ts"
      "age = unat (maxPacketTs (strm_seq s) - ts)" by (auto simp: packet_age_def split: bind_splits)
  have "unat (d * 1000) = unat d * 1000" if "unat d * 1000 < 2 ^ 32" for d :: u32
    using that by (simp add: unat_word_ariths)
  then have "unat ((maxPacketTs (strm_seq s) - ts) * 1000) = age * 1000" using assms [OF Some] unfolding i(4) by blast
  then have "(maxPacketTs (strm_seq s) - ts) * 1000 div par_clockRate (params s) \<le> 2000 \<longleftrightarrow> age * 1000 div unat (par_clockRate (params s)) \<le> 2000"
    by (simp add: word_le_nat_alt unat_div)
  moreover have "unat (ucast rtt :: u64) = unat rtt" by (rule unat_ucast_le) simp
  ultimately show ?thesis using Some i(1-3) by (auto simp: resendable_def due_def word_le_nat_alt not_le)
qed

text \<open>C38: after any such run of a stream with NACK, a NACK of any number of items that arrives while no requested packet in the store
  is \<open>2 ^ 32 / 1000\<close> or more ticks older than the newest one (47 seconds at 90 kHz; beyond, the 32-bit product of the age wraps)
  is answered with exactly the requested packets that are stored, at most two seconds older than the newest one and not
  sent again during the last round trip time, each once and in the order of the first request; each delivers
  a packet with the requested sequence number, and with RTX they have consecutive sequence numbers of the RTX stream.\<close>

theorem ReceiveNack_spec:
  assumes "2 \<le> cap" and "par_clockRate pars \<noteq> 0" and "send_ops_ok ops"
    and "send_run scoreOf ops (RtpStreamSend_new pars cap startMs) = Some (out, s)" and "par_useNack pars" and "nowMs \<noteq> 0"
    and "\<And>seq age. seq \<in> set (concat (map requested_seqs items)) \<Longrightarrow> packet_age s seq = Some age \<Longrightarrow> age * 1000 < 2 ^ 32"
  shows "\<exists>ps s'. ReceiveNack nowMs rtt items s = Some (ps, s') \<and>
    (let L = filter (due nowMs rtt s) (firsts (concat (map requested_seqs items))) in
     length ps = length L \<and>
     (\<forall>k < length L. \<exists>p \<in> run_packets ops. GetSequenceNumber p = Some (L ! k) \<and> delivers (ps ! k) p \<and>
       (rtxStream s \<noteq> None \<longrightarrow> GetSequenceNumber (ps ! k) = Some (rtxSeq s + of_nat k + 1))))"
proof -
  have inv: "send_inv (rtp_content ` run_packets ops) (last (0 # map fst ops)) (cap, par_useNack pars) (17 * (\<Sum>(t, op) \<leftarrow> ops. op_nacks op)) s"
    using send_run_new [OF assms(1-3), of scoreOf startMs] assms(4) by auto
  let ?s = "s\<lparr>nackCount := nackCount s + 1\<rparr>" and ?R = "rtp_content ` run_packets ops"
  have s: "buffer_inv ?R ?s" "par_clockRate (params ?s) \<noteq> 0" "counters_inv (17 * (\<Sum>(t, op) \<leftarrow> ops. op_nacks op)) ?s" "par_useNack (params ?s)"
    using inv assms(5) by (simp_all add: send_inv_def buffer_inv_def counters_inv_def)
  obtain ps s' where r: "nack_items nowMs rtt items ?s = Some (ps, s')" "answers ?R nowMs rtt ?s (firsts (concat (map requested_seqs items))) ps"
    using nack_items_answers [OF s assms(6)] by blast
  have "resendable nowMs rtt ?s = resendable nowMs rtt s" by (simp add: resendable_def fun_eq_iff option.case_eq_if)
  moreover have "filter (resendable nowMs rtt s) (firsts (concat (map requested_seqs items))) = filter (due nowMs rtt s) (firsts (concat (map requested_seqs items)))"
    by (rule filter_cong [OF refl], rule resendable_due, rule assms(7)) simp_all
  ultimately have a: "let L = filter (due nowMs rtt s) (firsts (concat (map requested_seqs items))) in
     length ps = length L \<and> (\<forall>k < length L. \<exists>p \<in> run_packets ops. GetSequenceNumber p = Some (L ! k) \<and> carries (ps ! k) (rtp_content p) \<and>
       (rtxStream s \<noteq> None \<longrightarrow> GetSequenceNumber (ps ! k) = Some (rtxSeq s + of_nat k + 1)))"
    using r(2) by (simp add: answers_def Let_def rtp_content_def)
  have "ReceiveNack nowMs rtt items s = Some (ps, s')" using r(1) by (simp add: ReceiveNack_def)
  then show ?thesis using a carries_delivers unfolding Let_def by (intro exI [of _ ps] exI [of _ s']) blast
qed

text \<open>The stream after its first packet.\<close>

lemma example_sent:
  obtains p :: "unit rtp_packet" and s i where "RtpPacket_Parse example_bytes 15 = Some (Some p)" "rtp_wf p" "GetSequenceNumber p = Some 7"
    "send_run (\<lambda>_ _ _ _. 10) [(3001, OpPacket p)] (RtpStreamSend_new example_params 600 0) = Some ([], s)"
    "buffer s = [7 \<mapsto> i]" "packet_age s 7 = Some 0" "resentAtMs (storage s ! i) = 0" "params s = example_params"
proof -
  let ?N = "RtpStreamSend_new example_params 600 0 :: unit rtp_stream_send"
  have l: "rtp_layout example_bytes 15 3 0" by code_simp
  obtain p :: "unit rtp_packet" where p: "RtpPacket_Parse example_bytes 15 = Some (Some p)" "rtp_wf p" "rtp_mem p = example_bytes" "rtp_size p = 15"
    by (rule parsed_layout [OF l])
  have g: "GetSequenceNumber p = Some 7" "GetTimestamp p = Some 1"
    using p(3) by (simp_all add: GetSequenceNumber_def GetTimestamp_def Get2Bytes_def Get4Bytes_def Get1Byte_def)
  have "fst (seq_ReceivePacket 3001 7 1 rtp_seq_new)" "maxPacketTs (snd (seq_ReceivePacket 3001 7 1 rtp_seq_new)) = 1" by code_simp+
  then obtain q where q: "seq_ReceivePacket 3001 7 1 rtp_seq_new = (True, q)" "maxPacketTs q = 1" by (metis (full_types) prod.collapse)
  let ?S = "?N\<lparr>strm_seq := q\<rparr>"
  have "send_inv {} 0 (600, True) 0 ?N" using send_inv_new [of 600 example_params 0] by (simp add: example_params_def)
  then have inv: "buffer_inv {} ?S" by (simp add: send_inv_def buffer_inv_def)
  have N: "strm_seq ?N = rtp_seq_new" "storage ?N \<noteq> []" "length (storage ?N) = 600" "buffer ?N = Map.empty" "bufferSize ?N = 0" "params ?N = example_params"
    by (simp_all add: RtpStreamSend_new_def)
  obtain x where x: "StorePacket p ?S = Some (?S\<lparr>buffer := [7 \<mapsto> 0], bufferSize := 1, bufferStartIdx := 7, storage := (storage ?S)[0 := x]\<rparr>)"
    "item_holds x (rtp_content p)" "resentAtMs x = 0"
    using StorePacket_first [OF inv p(2) _ g(1)] p(4) N by auto
  have ops: "send_ops_ok [(3001, OpPacket p)]" using p(2) by (simp add: send_ops_ok_def)
  have clk: "par_clockRate example_params \<noteq> 0" by (simp add: example_params_def)
  obtain out s where run: "send_run (\<lambda>_ _ _ _. 10) [(3001, OpPacket p)] ?N = Some (out, s)"
    using send_run_new [OF _ clk ops, of 600 "\<lambda>_ _ _ _. 10" 0] by auto
  then obtain c where s: "out = []" "s = ?S\<lparr>buffer := [7 \<mapsto> 0], bufferSize := 1, bufferStartIdx := 7, storage := (storage ?S)[0 := x]\<rparr>\<lparr>transmissionCounter := c\<rparr>"
    using g q(1) N x(1) by (auto simp: Send_ReceivePacket_def split: bind_splits)
  obtain r ts where "st_packet x = Some r" "GetTimestamp r = Some ts" "fst (snd (rtp_content p)) = Some ts" using x(2) by (rule item_holds_packet)
  then have "packet_age s 7 = Some 0" using N(3) g(2) q(2) by (simp add: packet_age_def s rtp_content_def)
  then show ?thesis using that [of p s 0] p(1,2) g(1) run s x(3) N by simp
qed

theorem ReceiveNack_spec_witness:
  "\<exists>(p :: unit rtp_packet) s ps s'. RtpPacket_Parse example_bytes 15 = Some (Some p) \<and>
    send_run (\<lambda>_ _ _ _. 10) [(3001, OpPacket p)] (RtpStreamSend_new example_params 600 0) = Some ([], s) \<and>
    ReceiveNack 3010 100 [\<lparr>nack_packetId = 6, nack_lostPacketBitmask = 3\<rparr>, \<lparr>nack_packetId = 7, nack_lostPacketBitmask = 0\<rparr>] s = Some (ps, s') \<and>
    length ps = 1 \<and> delivers (ps ! 0) p"
proof -
  obtain p :: "unit rtp_packet" and s i where p: "RtpPacket_Parse example_bytes 15 = Some (Some p)" "rtp_wf p" "GetSequenceNumber p = Some 7"
    and s: "send_run (\<lambda>_ _ _ _. 10) [(3001, OpPacket p)] (RtpStreamSend_new example_params 600 0) = Some ([], s)"
    "buffer s = [7 \<mapsto> i]" "packet_age s 7 = Some 0" "resentAtMs (storage s ! i) = 0" "params s = example_params" by (rule example_sent)
  let ?ops = "[(3001, OpPacket p)]" and ?items = "[\<lparr>nack_packetId = 6, nack_lostPacketBitmask = 3\<rparr>, \<lparr>nack_packetId = 7, nack_lostPacketBitmask = 0\<rparr>]"
  have ok: "send_ops_ok ?ops" using p(2) by (simp add: send_ops_ok_def)
  have clk: "par_clockRate example_params \<noteq> 0" "par_useNack example_params" by (simp_all add: example_params_def)
  have age: "packet_age s seq = (if seq = 7 then Some 0 else None)" for seq using s(2,3) by (simp add: packet_age_def)
  have "firsts (concat (map requested_seqs ?items)) = [6, 7, 8]" by code_simp
  moreover have "due 3010 100 s 6 = False" "due 3010 100 s 7 = True" "due 3010 100 s 8 = False"
    using s(2,4) by (simp_all add: due_def age)
  ultimately have L: "filter (due 3010 100 s) (firsts (concat (map requested_seqs ?items))) = [7]" by simp
  have "age * 1000 < 2 ^ 32" if "packet_age s seq = Some age" for seq age using that by (simp add: age split: if_splits)
  with ReceiveNack_spec [OF _ clk(1) ok s(1) clk(2), of 3010 ?items 100]
  obtain ps s' where r: "ReceiveNack 3010 100 ?items s = Some (ps, s')" "length ps = 1" "\<exists>p' \<in> run_packets ?ops. delivers (ps ! 0) p'"
    unfolding L by auto
  moreover have "run_packets ?ops = {p}" by (simp add: run_packets_def)
  ultimately show ?thesis using p(1) s(1) by (intro exI [of _ p] exI [of _ s] exI [of _ ps] exI [of _ s']) simp
qed

subsection \<open>Defects\<close>

text \<open>The age of a packet is computed in 32 bits: at 90 kHz a packet 4294968 ticks (48 seconds) old counts as new and is sent
  again.\<close>

lemma old_packet_resendable:
  assumes "buffer s seq = Some i" and "st_packet (storage s ! i) = Some q" and "GetTimestamp q = Some ts"
    and "par_clockRate (params s) = 90000" and "maxPacketTs (strm_seq s) = ts + 4294968" and "resentAtMs (storage s ! i) = 0"
  shows "resendable nowMs rtt s seq"
  using assms by (simp add: resendable_def)

end
