(* ===== verification/Codecs.thy ===== *)
theory Codecs
  imports RtpPacket_Extensions
begin

text \<open>
  What the codecs share: \<^verbatim>\<open>RTC::Codecs::EncodingContext\<close> (\<^verbatim>\<open>include/RTC/Codecs/PayloadDescriptorHandler.hpp\<close>), the layers a
  consumer wants and the layers it sends, and the safety of the frame marking extension that the codecs read from a packet.
\<close>

subsection \<open>Encoding context\<close>

record encoding_context =
  ctx_spatialLayers :: u8
  ctx_temporalLayers :: u8
  ctx_ksvc :: bool
  targetSpatialLayer :: int
  targetTemporalLayer :: int
  currentSpatialLayer :: int
  currentTemporalLayer :: int

definition EncodingContext_new :: "u8 \<Rightarrow> u8 \<Rightarrow> bool \<Rightarrow> encoding_context" where
  "EncodingContext_new spatialLayers temporalLayers ksvc =
     \<lparr>ctx_spatialLayers = spatialLayers, ctx_temporalLayers = temporalLayers, ctx_ksvc = ksvc, targetSpatialLayer = - 1,
      targetTemporalLayer = - 1, currentSpatialLayer = - 1, currentTemporalLayer = - 1\<rparr>"

definition SetTargetSpatialLayer :: "int \<Rightarrow> 'a encoding_context_scheme \<Rightarrow> 'a encoding_context_scheme" where
  "SetTargetSpatialLayer l c = c\<lparr>targetSpatialLayer := l\<rparr>"

definition SetTargetTemporalLayer :: "int \<Rightarrow> 'a encoding_context_scheme \<Rightarrow> 'a encoding_context_scheme" where
  "SetTargetTemporalLayer l c = c\<lparr>targetTemporalLayer := l\<rparr>"

definition SetCurrentSpatialLayer :: "int \<Rightarrow> 'a encoding_context_scheme \<Rightarrow> 'a encoding_context_scheme" where
  "SetCurrentSpatialLayer l c = c\<lparr>currentSpatialLayer := l\<rparr>"

definition SetCurrentTemporalLayer :: "int \<Rightarrow> 'a encoding_context_scheme \<Rightarrow> 'a encoding_context_scheme" where
  "SetCurrentTemporalLayer l c = c\<lparr>currentTemporalLayer := l\<rparr>"

text \<open>Parsing that may give up: the next step runs on what the previous one has found.\<close>

definition and_then :: "'a option option \<Rightarrow> ('a \<Rightarrow> 'b option option) \<Rightarrow> 'b option option" where
  "and_then r f = (case r of None \<Rightarrow> None | Some None \<Rightarrow> Some None | Some (Some x) \<Rightarrow> f x)"

subsection \<open>Extensions of a well-formed packet\<close>

lemma ReadFrameMarking_wf:
  assumes "rtp_wf p"
  shows "\<exists>r. ReadFrameMarking p = Some r \<and> (\<forall>v len. r = Some (v, len) \<longrightarrow> v + unat len \<le> payload p \<and> len \<noteq> 0 \<and> len \<le> 3)"
proof -
  obtain r1 r2 where "GetExtension (frameMarkingExtensionId (ext_ids p)) p = Some r1"
      "GetExtension (frameMarking07ExtensionId (ext_ids p)) p = Some r2"
      "\<forall>v len. r1 = Some (v, len) \<longrightarrow> v + unat len \<le> payload p \<and> len \<noteq> 0"
      "\<forall>v len. r2 = Some (v, len) \<longrightarrow> v + unat len \<le> payload p \<and> len \<noteq> 0"
    using GetExtension_wf [OF assms] by metis
  then show ?thesis by (cases r1; cases r2) (auto simp: ReadFrameMarking_def not_less)
qed

lemma rtp_wf_handler: "rtp_wf (p\<lparr>payloadDescriptorHandler := h\<rparr>) = rtp_wf p"
  unfolding rtp_wf_def Let_def by (intro arg_cong2 [where f = "(\<and>)"]) simp_all

subsection \<open>Picture ids\<close>

lemma picture_id_15_bits:
  "push_bit 8 (ucast (byte AND 0x7F :: u8)) + ucast (low :: u8) < (0x8000 :: u16)" "ucast (byte AND 0x7F :: u8) < (0x8000 :: u16)"
proof -
  have a: "unat (byte AND 0x7F) < 128" using word_and_le1 [of byte "0x7F"] by (simp add: word_le_nat_alt)
  have l: "unat low < 256" using unsigned_less [of low] by simp
  have b: "unat (ucast (byte AND 0x7F :: u8) :: u16) = unat (byte AND 0x7F)" "unat (ucast low :: u16) = unat low"
    using a l by (simp_all add: unsigned_ucast_eq take_bit_nat_eq_self)
  show "ucast (byte AND 0x7F :: u8) < (0x8000 :: u16)" using a b by (simp add: word_less_nat_alt)
  show "push_bit 8 (ucast (byte AND 0x7F :: u8)) + ucast (low :: u8) < (0x8000 :: u16)"
    using a b l by (simp add: word_less_nat_alt push_bit_eq_mult unat_word_ariths)
qed

end
