(* ===== verification/Codecs_VP8.thy ===== *)
theory Codecs_VP8
  imports SeqManager Codecs
begin

text \<open>
  \<^verbatim>\<open>RTC::Codecs::VP8\<close> (\<^verbatim>\<open>src/RTC/Codecs/VP8.cpp\<close>): the VP8 payload
  descriptor (RFC 7741) is parsed when a packet arrives and rewritten for each consumer, so that a consumer that does
  not get all temporal layers still sees picture ids without gaps.

  The descriptor is value-initialized, so that fields the parser does not set are zero. \<open>None\<close> is an access
  outside the buffer or a failed assertion, \<open>Some None\<close> a null pointer that is returned.
\<close>

subsection \<open>Payload descriptor\<close>

record vp8_desc =
  v8_extended :: bool
  v8_nonReference :: bool
  v8_start :: bool
  v8_partitionIndex :: u8
  v8_i :: bool
  v8_l :: bool
  v8_t :: bool
  v8_k :: bool
  v8_pictureId :: u16
  v8_tl0PictureIndex :: u8
  v8_tlIndex :: u8
  v8_y :: bool
  v8_keyIndex :: u8
  v8_isKeyFrame :: bool
  v8_hasPictureId :: bool
  v8_hasOneBytePictureId :: bool
  v8_hasTwoBytesPictureId :: bool
  v8_hasTl0PictureIndex :: bool
  v8_hasTlIndex :: bool

definition vp8_flags :: "u8 \<Rightarrow> u8 \<Rightarrow> vp8_desc" where
  "vp8_flags b0 b1 = \<lparr>v8_extended = True, v8_nonReference = bit b0 5, v8_start = bit b0 4, v8_partitionIndex = b0 AND 7,
     v8_i = bit b1 7, v8_l = bit b1 6, v8_t = bit b1 5, v8_k = bit b1 4, v8_pictureId = 0, v8_tl0PictureIndex = 0,
     v8_tlIndex = 0, v8_y = False, v8_keyIndex = 0, v8_isKeyFrame = False, v8_hasPictureId = False,
     v8_hasOneBytePictureId = False, v8_hasTwoBytesPictureId = False, v8_hasTl0PictureIndex = False, v8_hasTlIndex = False\<rparr>"

definition vp8_parse_header :: "bytes \<Rightarrow> (nat \<times> vp8_desc) option option" where
  "vp8_parse_header d =
     (if length d < 1 then Some None
      else do {
        b0 \<leftarrow> Get1Byte d 0;
        if \<not> bit b0 7 then Some None
        else if length d < 2 then Some None
        else do { b1 \<leftarrow> Get1Byte d 1; Some (Some (1, vp8_flags b0 b1)) } })"

definition vp8_parse_picture_id :: "bytes \<Rightarrow> nat \<times> vp8_desc \<Rightarrow> (nat \<times> vp8_desc) option option" where
  "vp8_parse_picture_id d = (\<lambda>(offset, p).
     if \<not> v8_i p then Some (Some (offset, p))
     else if length d < offset + 2 then Some None
     else do {
       byte \<leftarrow> Get1Byte d (offset + 1);
       if bit byte 7 then
         if length d < offset + 3 then Some None
         else do {
           low \<leftarrow> Get1Byte d (offset + 2);
           Some (Some (offset + 2, p\<lparr>v8_hasTwoBytesPictureId := True, v8_pictureId := push_bit 8 (ucast (byte AND 0x7F)) + ucast low,
             v8_hasPictureId := True\<rparr>)) }
       else Some (Some (offset + 1, p\<lparr>v8_hasOneBytePictureId := True, v8_pictureId := ucast (byte AND 0x7F), v8_hasPictureId := True\<rparr>)) })"

definition vp8_parse_tl0 :: "bytes \<Rightarrow> nat \<times> vp8_desc \<Rightarrow> (nat \<times> vp8_desc) option option" where
  "vp8_parse_tl0 d = (\<lambda>(offset, p).
     if \<not> v8_l p then Some (Some (offset, p))
     else if length d < offset + 2 then Some None
     else do {
       byte \<leftarrow> Get1Byte d (offset + 1);
       Some (Some (offset + 1, p\<lparr>v8_hasTl0PictureIndex := True, v8_tl0PictureIndex := byte\<rparr>)) })"

definition vp8_parse_tl :: "bytes \<Rightarrow> nat \<times> vp8_desc \<Rightarrow> (nat \<times> vp8_desc) option option" where
  "vp8_parse_tl d = (\<lambda>(offset, p).
     if \<not> (v8_t p \<or> v8_k p) then Some (Some (offset, p))
     else if length d < offset + 2 then Some None
     else do {
       byte \<leftarrow> Get1Byte d (offset + 1);
       Some (Some (offset + 1, p\<lparr>v8_hasTlIndex := True, v8_tlIndex := drop_bit 6 byte AND 3, v8_y := bit byte 5,
         v8_keyIndex := byte AND 0x1F\<rparr>)) })"

definition vp8_parse_key_frame :: "bytes \<Rightarrow> nat \<times> vp8_desc \<Rightarrow> vp8_desc option option" where
  "vp8_parse_key_frame d = (\<lambda>(offset, p).
     if length d \<ge> offset + 2 \<and> v8_start p \<and> v8_partitionIndex p = 0 then do {
       byte \<leftarrow> Get1Byte d (offset + 1);
       Some (Some (if byte AND 1 = 0 then p\<lparr>v8_isKeyFrame := True\<rparr> else p)) }
     else Some (Some p))"

definition VP8_Parse :: "bytes \<Rightarrow> vp8_desc option option" where
  "VP8_Parse d =
     and_then (and_then (and_then (and_then (vp8_parse_header d) (vp8_parse_picture_id d)) (vp8_parse_tl0 d)) (vp8_parse_tl d))
       (vp8_parse_key_frame d)"

text \<open>\<^verbatim>\<open>Encode\<close> writes at \<open>data\<close> in the memory of the packet.\<close>

definition VP8_Encode :: "vp8_desc \<Rightarrow> u16 \<Rightarrow> u8 \<Rightarrow> nat \<Rightarrow> bytes \<Rightarrow> bytes option" where
  "VP8_Encode p pictureId tl0PictureIndex data m =
     (if \<not> v8_extended p then Some m
      else do {
        (data, m) \<leftarrow>
          (if v8_i p then
             if v8_hasTwoBytesPictureId p then do {
               m \<leftarrow> Set2Bytes m (data + 2) pictureId;
               b \<leftarrow> Get1Byte m (data + 2);
               m \<leftarrow> Set1Byte m (data + 2) (b OR 0x80);
               Some (data + 4, m) }
             else if v8_hasOneBytePictureId p then do {
               m \<leftarrow> Set1Byte m (data + 2) (ucast pictureId);
               Some (data + 3, m) }
             else Some (data + 2, m)
           else Some (data + 2, m));
        if v8_l p then Set1Byte m data tl0PictureIndex else Some m })"

definition vp8_desc_Restore :: "vp8_desc \<Rightarrow> nat \<Rightarrow> bytes \<Rightarrow> bytes option" where
  "vp8_desc_Restore p data m = VP8_Encode p (v8_pictureId p) (v8_tl0PictureIndex p) data m"

definition VP8_Restore :: "vp8_desc \<Rightarrow> nat \<Rightarrow> bytes \<Rightarrow> bytes option" where
  "VP8_Restore p data m = (if v8_hasPictureId p \<and> v8_hasTl0PictureIndex p then vp8_desc_Restore p data m else Some m)"

subsection \<open>ProcessRtpPacket\<close>

text \<open>The descriptor is attached to the packet; a picture id of one byte is widened to two. \<open>upcast\<close> is the conversion of the handler of the
  descriptor to the base class of the handlers, of which the packet holds one.\<close>

definition VP8_ProcessRtpPacket :: "(vp8_desc \<Rightarrow> 'h) \<Rightarrow> 'h rtp_packet \<Rightarrow> 'h rtp_packet option" where
  "VP8_ProcessRtpPacket upcast packet = do {
     _ \<leftarrow> ReadFrameMarking packet;
     r \<leftarrow> VP8_Parse (payload_bytes packet);
     case r of
       None \<Rightarrow> Some packet
     | Some p \<Rightarrow>
         if v8_hasOneBytePictureId p then do {
           packet \<leftarrow> ShiftPayload 2 1 True packet;
           m \<leftarrow> Set1Byte (rtp_mem packet) (payload packet + 2) 0x80;
           Some (packet\<lparr>rtp_mem := m, payloadDescriptorHandler :=
             Some (upcast (p\<lparr>v8_hasOneBytePictureId := False, v8_hasTwoBytesPictureId := True\<rparr>))\<rparr>) }
         else Some (packet\<lparr>payloadDescriptorHandler := Some (upcast p)\<rparr>) }"

subsection \<open>Process\<close>

record vp8_context = encoding_context +
  v8_pictureIdManager :: "u16 seq_manager"
  v8_tl0PictureIndexManager :: "u8 seq_manager"
  v8_syncRequired :: bool

definition VP8_EncodingContext_new :: "u8 \<Rightarrow> u8 \<Rightarrow> bool \<Rightarrow> vp8_context" where
  "VP8_EncodingContext_new spatialLayers temporalLayers ksvc =
     encoding_context.extend (EncodingContext_new spatialLayers temporalLayers ksvc)
       \<lparr>v8_pictureIdManager = SeqManager_init, v8_tl0PictureIndexManager = SeqManager_init, v8_syncRequired = False\<rparr>"

definition VP8_SyncRequired :: "vp8_context \<Rightarrow> vp8_context" where
  "VP8_SyncRequired c = c\<lparr>v8_syncRequired := True\<rparr>"

definition vp8_sync :: "vp8_desc \<Rightarrow> vp8_context \<Rightarrow> vp8_context" where
  "vp8_sync p c =
     (if v8_syncRequired c \<and> v8_hasPictureId p \<and> v8_hasTl0PictureIndex p then
        c\<lparr>v8_pictureIdManager := Sync (v8_pictureIdManager c) (v8_pictureId p - 1),
          v8_tl0PictureIndexManager := Sync (v8_tl0PictureIndexManager c) (v8_tl0PictureIndex p - 1), v8_syncRequired := False\<rparr>
      else c)"

definition vp8_filtered :: "vp8_desc \<Rightarrow> vp8_context \<Rightarrow> bool" where
  "vp8_filtered p c \<longleftrightarrow>
     v8_hasPictureId p \<and> v8_hasTlIndex p \<and> v8_hasTl0PictureIndex p \<and>
     \<not> IsSeqLowerThan (v8_pictureId p) (GetMaxInput (v8_pictureIdManager c)) \<and>
     (int (unat (v8_tlIndex p)) > targetTemporalLayer c \<or>
      int (unat (v8_tlIndex p)) > currentTemporalLayer c \<and> \<not> v8_y p)"

definition vp8_drop :: "vp8_desc \<Rightarrow> vp8_context \<Rightarrow> vp8_context" where
  "vp8_drop p c = c\<lparr>v8_pictureIdManager := Drop (v8_pictureIdManager c) (v8_pictureId p),
     v8_tl0PictureIndexManager := Drop (v8_tl0PictureIndexManager c) (v8_tl0PictureIndex p)\<rparr>"

definition vp8_update_layer :: "vp8_desc \<Rightarrow> vp8_context \<Rightarrow> vp8_context" where
  "vp8_update_layer p c =
     (let cur = (if v8_hasTlIndex p \<and> int (unat (v8_tlIndex p)) > currentTemporalLayer c then int (unat (v8_tlIndex p))
                 else if \<not> v8_hasTlIndex p then 0 else currentTemporalLayer c);
          cur = (if cur > targetTemporalLayer c then targetTemporalLayer c else cur)
      in SetCurrentTemporalLayer cur c)"

definition VP8_Process :: "vp8_context \<Rightarrow> vp8_desc \<Rightarrow> nat \<Rightarrow> bytes \<Rightarrow> (bool \<times> bool \<times> vp8_context \<times> bytes) option" where
  "VP8_Process c p data m =
     (if targetTemporalLayer c < 0 then None
      else
        let c = vp8_sync p c in
        if vp8_filtered p c then Some (False, False, vp8_drop p c, m)
        else
          let (pid, pm) = (if v8_hasPictureId p then Input (v8_pictureIdManager c) (v8_pictureId p) else (Some 0, v8_pictureIdManager c));
              c = c\<lparr>v8_pictureIdManager := pm\<rparr>
          in case pid of
               None \<Rightarrow> Some (False, False, c, m)
             | Some pictureId \<Rightarrow>
                 let (tl0, tm) = (if v8_hasTl0PictureIndex p then Input (v8_tl0PictureIndexManager c) (v8_tl0PictureIndex p)
                                  else (Some 0, v8_tl0PictureIndexManager c));
                     c = c\<lparr>v8_tl0PictureIndexManager := tm\<rparr>
                 in case tl0 of
                      None \<Rightarrow> Some (False, False, c, m)
                    | Some tl0PictureIndex \<Rightarrow> do {
                        m \<leftarrow> (if v8_hasPictureId p \<and> v8_hasTl0PictureIndex p then VP8_Encode p pictureId tl0PictureIndex data m else Some m);
                        Some (True, False, vp8_update_layer p c, m) })"

definition VP8_GetTemporalLayer :: "vp8_desc \<Rightarrow> u8" where
  "VP8_GetTemporalLayer p = (if v8_hasTlIndex p then v8_tlIndex p else 0)"

subsection \<open>What is parsed\<close>

text \<open>The positions of the last byte of the picture id, of the TL0PICIDX field and of the layer field.\<close>

definition vp8_o1 :: "bytes \<Rightarrow> nat" where
  "vp8_o1 d = 1 + (if bit (d ! 1) 7 then if bit (d ! 2) 7 then 2 else 1 else 0)"

definition vp8_o2 :: "bytes \<Rightarrow> nat" where
  "vp8_o2 d = vp8_o1 d + (if bit (d ! 1) 6 then 1 else 0)"

definition vp8_o3 :: "bytes \<Rightarrow> nat" where
  "vp8_o3 d = vp8_o2 d + (if bit (d ! 1) 5 \<or> bit (d ! 1) 4 then 1 else 0)"

definition vp8_layout :: "bytes \<Rightarrow> bool" where
  "vp8_layout d \<longleftrightarrow> 2 \<le> length d \<and> bit (d ! 0) 7 \<and> (bit (d ! 1) 7 \<longrightarrow> 3 \<le> length d) \<and> vp8_o3 d < length d"

definition vp8_parsed :: "bytes \<Rightarrow> vp8_desc" where
  "vp8_parsed d =
     (let i = bit (d ! 1) 7; two = (i \<and> bit (d ! 2) 7); l = bit (d ! 1) 6; tk = (bit (d ! 1) 5 \<or> bit (d ! 1) 4); tl = d ! vp8_o3 d
      in (vp8_flags (d ! 0) (d ! 1))
        \<lparr>v8_pictureId := if two then push_bit 8 (ucast (d ! 2 AND 0x7F)) + ucast (d ! 3) else if i then ucast (d ! 2 AND 0x7F) else 0,
         v8_tl0PictureIndex := if l then d ! vp8_o2 d else 0, v8_tlIndex := if tk then drop_bit 6 tl AND 3 else 0,
         v8_y := tk \<and> bit tl 5, v8_keyIndex := if tk then tl AND 0x1F else 0,
         v8_isKeyFrame := vp8_o3 d + 1 < length d \<and> bit (d ! 0) 4 \<and> d ! 0 AND 7 = 0 \<and> d ! (vp8_o3 d + 1) AND 1 = 0,
         v8_hasPictureId := i, v8_hasOneBytePictureId := i \<and> \<not> two, v8_hasTwoBytesPictureId := two,
         v8_hasTl0PictureIndex := l, v8_hasTlIndex := tk\<rparr>)"

lemma VP8_Parse_eq: "VP8_Parse d = Some (if vp8_layout d then Some (vp8_parsed d) else None)"
proof (cases "2 \<le> length d \<and> bit (d ! 0) 7")
  case False
  then have "vp8_parse_header d = Some None" by (auto simp: vp8_parse_header_def Get1Byte_def Suc_le_eq not_le)
  then show ?thesis using False by (auto simp: VP8_Parse_def and_then_def vp8_layout_def)
next
  case True
  let ?p = "vp8_flags (d ! 0) (d ! 1)"
  let ?i = "bit (d ! 1) 7" and ?l = "bit (d ! 1) 6" and ?tk = "bit (d ! 1) 5 \<or> bit (d ! 1) 4"
  define p1 where "p1 = ?p\<lparr>v8_pictureId := if ?i \<and> bit (d ! 2) 7 then push_bit 8 (ucast (d ! 2 AND 0x7F)) + ucast (d ! 3)
      else if ?i then ucast (d ! 2 AND 0x7F) else 0,
    v8_hasPictureId := ?i, v8_hasOneBytePictureId := ?i \<and> \<not> bit (d ! 2) 7, v8_hasTwoBytesPictureId := ?i \<and> bit (d ! 2) 7\<rparr>"
  define p2 where "p2 = p1\<lparr>v8_tl0PictureIndex := if ?l then d ! vp8_o2 d else 0, v8_hasTl0PictureIndex := ?l\<rparr>"
  define p3 where "p3 = p2\<lparr>v8_tlIndex := if ?tk then drop_bit 6 (d ! vp8_o3 d) AND 3 else 0, v8_y := ?tk \<and> bit (d ! vp8_o3 d) 5,
    v8_keyIndex := if ?tk then d ! vp8_o3 d AND 0x1F else 0, v8_hasTlIndex := ?tk\<rparr>"
  have h: "vp8_parse_header d = Some (Some (1, ?p))" using True by (auto simp: vp8_parse_header_def Get1Byte_def)
  have 1: "vp8_parse_picture_id d (1, ?p) =
      Some (if (?i \<longrightarrow> 3 \<le> length d) \<and> vp8_o1 d < length d then Some (vp8_o1 d, p1) else None)"
    using True by (auto simp: vp8_parse_picture_id_def vp8_flags_def vp8_o1_def p1_def Get1Byte_def eval_nat_numeral)
  have 2: "vp8_parse_tl0 d (vp8_o1 d, p1) = Some (if vp8_o2 d < length d then Some (vp8_o2 d, p2) else None)" if "vp8_o1 d < length d"
    using that by (auto simp: vp8_parse_tl0_def vp8_flags_def vp8_o2_def p2_def p1_def Get1Byte_def)
  have 3: "vp8_parse_tl d (vp8_o2 d, p2) = Some (if vp8_o3 d < length d then Some (vp8_o3 d, p3) else None)" if "vp8_o2 d < length d"
    using that by (auto simp: vp8_parse_tl_def vp8_flags_def vp8_o3_def p3_def p2_def p1_def Get1Byte_def)
  have 4: "vp8_parse_key_frame d (vp8_o3 d, p3) = Some (Some (vp8_parsed d))" if "vp8_o3 d < length d"
    using that
    by (auto simp: vp8_parse_key_frame_def vp8_flags_def p3_def p2_def p1_def Get1Byte_def vp8_parsed_def Let_def)
  have "vp8_o1 d \<le> vp8_o2 d" "vp8_o2 d \<le> vp8_o3 d" by (simp_all add: vp8_o2_def vp8_o3_def)
  with True show ?thesis
    by (cases "vp8_o3 d < length d"; cases "vp8_o2 d < length d"; cases "vp8_o1 d < length d")
      (auto simp: VP8_Parse_def and_then_def h 1 2 3 4 vp8_layout_def simp del: One_nat_def)
qed

subsection \<open>Encoding\<close>

lemma pid_bytes:
  fixes pid :: u16
  shows "push_bit 8 (ucast (((ucast (drop_bit 8 pid) :: u8) OR 0x80) AND 0x7F)) + ucast (ucast pid :: u8) = (pid AND 0x7FFF)"
    and "bit ((ucast (drop_bit 8 pid) :: u8) OR 0x80) 7"
proof -
  have n: "(0x80 :: u8) = NOT (mask 7)" "(0x7F :: u8) = mask 7" "(0x7FFF :: u16) = mask 15" by (simp_all add: mask_eq_exp_minus_1)
  let ?h = "push_bit 8 (ucast (((ucast (drop_bit 8 pid) :: u8) OR 0x80) AND 0x7F)) :: u16" and ?l = "ucast (ucast pid :: u8) :: u16"
  have "?h AND ?l = 0" unfolding n by (rule bit_word_eqI) (auto simp: bit_simps)
  then have "?h + ?l = ?h OR ?l" by (rule disjunctive_add_eq_or)
  also have "\<dots> = pid AND 0x7FFF"
    unfolding n by (rule bit_word_eqI) (auto simp: bit_simps)
  finally show "?h + ?l = pid AND 0x7FFF" .
  show "bit ((ucast (drop_bit 8 pid) :: u8) OR 0x80) 7" unfolding n by (simp add: bit_simps)
qed

lemma small_pid: "pid < 0x80 \<Longrightarrow> ucast (ucast pid AND 0x7F :: u8) = pid AND 0x7FFF" for pid :: u16
proof -
  assume "pid < 0x80"
  have n: "(0x7F :: u8) = mask 7" "(0x7FFF :: u16) = mask 15" by (simp_all add: mask_eq_exp_minus_1)
  from \<open>pid < 0x80\<close> have "unat pid < 2 ^ 7" by (simp add: word_less_nat_alt)
  then have p: "pid = take_bit 7 pid" by (simp add: take_bit_nat_eq_self unsigned_take_bit_eq word_unat_eq_iff)
  show ?thesis by (subst p, subst (2) p, unfold n) (rule bit_word_eqI, auto simp: bit_simps)
qed

text \<open>The bytes that \<open>Encode\<close> writes.\<close>

lemma VP8_Encode_nth:
  assumes lay: "vp8_layout d" and d: "d = take n (drop data m)" "data + n \<le> length m"
    and p: "v8_extended p" "v8_i p = bit (d ! 1) 7" "v8_l p = bit (d ! 1) 6" "v8_hasTwoBytesPictureId p = (bit (d ! 1) 7 \<and> bit (d ! 2) 7)"
      "v8_hasOneBytePictureId p = (bit (d ! 1) 7 \<and> \<not> bit (d ! 2) 7)"
  shows "\<exists>m'. VP8_Encode p pid tl0 data m = Some m' \<and> length m' = length m \<and>
    (\<forall>j. j < data + 2 \<or> data + vp8_o2 d < j \<longrightarrow> m' ! j = m ! j) \<and>
    (bit (d ! 1) 7 \<and> bit (d ! 2) 7 \<longrightarrow> m' ! (data + 2) = ucast (drop_bit 8 pid) OR 0x80 \<and> m' ! (data + 3) = ucast pid) \<and>
    (bit (d ! 1) 7 \<and> \<not> bit (d ! 2) 7 \<longrightarrow> m' ! (data + 2) = ucast pid) \<and>
    (bit (d ! 1) 6 \<longrightarrow> m' ! (data + vp8_o2 d) = tl0)"
proof -
  have len: "data + vp8_o2 d < length m" using lay d by (auto simp: vp8_layout_def vp8_o3_def)
  consider "\<not> bit (d ! 1) 7" | "bit (d ! 1) 7" "bit (d ! 2) 7" | "bit (d ! 1) 7" "\<not> bit (d ! 2) 7" by blast
  then show ?thesis
  proof cases
    case 1
    then have "VP8_Encode p pid tl0 data m = Some (if bit (d ! 1) 6 then m[data + 2 := tl0] else m)"
      using p len by (auto simp: VP8_Encode_def Set1Byte_def vp8_o2_def vp8_o1_def)
    then show ?thesis using 1 len by (auto simp: vp8_o2_def vp8_o1_def nth_list_update)
  next
    case 2
    let ?m = "m[data + 3 := ucast pid, data + 2 := ucast (drop_bit 8 pid) OR 0x80]"
    have o: "vp8_o2 d = (if bit (d ! 1) 6 then 4 else 3)" using 2 by (simp add: vp8_o2_def vp8_o1_def)
    have "VP8_Encode p pid tl0 data m = Some (if bit (d ! 1) 6 then ?m[data + 4 := tl0] else ?m)"
      using p 2 len unfolding o by (auto simp: VP8_Encode_def Set2Bytes_def Set1Byte_def Get1Byte_def eval_nat_numeral split: if_splits)
    then show ?thesis using 2 len unfolding o by (auto simp: nth_list_update)
  next
    case 3
    let ?m = "m[data + 2 := ucast pid]"
    have o: "vp8_o2 d = (if bit (d ! 1) 6 then 3 else 2)" using 3 by (simp add: vp8_o2_def vp8_o1_def)
    have "VP8_Encode p pid tl0 data m = Some (if bit (d ! 1) 6 then ?m[data + 3 := tl0] else ?m)"
      using p 3 len unfolding o by (auto simp: VP8_Encode_def Set1Byte_def split: if_splits)
    then show ?thesis using 3 len unfolding o by (auto simp: nth_list_update)
  qed
qed

lemma vp8_parsed_flags:
  "v8_extended (vp8_parsed d)" "v8_i (vp8_parsed d) = bit (d ! 1) 7" "v8_l (vp8_parsed d) = bit (d ! 1) 6"
  "v8_hasTwoBytesPictureId (vp8_parsed d) = (bit (d ! 1) 7 \<and> bit (d ! 2) 7)"
  "v8_hasOneBytePictureId (vp8_parsed d) = (bit (d ! 1) 7 \<and> \<not> bit (d ! 2) 7)"
  "v8_hasPictureId (vp8_parsed d) = bit (d ! 1) 7" "v8_hasTl0PictureIndex (vp8_parsed d) = bit (d ! 1) 6"
  by (auto simp: vp8_parsed_def vp8_flags_def Let_def)

text \<open>Encoding other numbers into a payload changes what is parsed in these two fields only.\<close>

lemma VP8_Encode_reparse:
  assumes lay: "vp8_layout d" and d: "d = take n (drop data m)" "data + n \<le> length m" "length d = n"
    and small: "v8_hasOneBytePictureId (vp8_parsed d) \<Longrightarrow> pid < 0x80"
  obtains m' where "VP8_Encode (vp8_parsed d) pid tl0 data m = Some m'" "length m' = length m"
    "\<And>j. j < data \<or> data + n \<le> j \<Longrightarrow> m' ! j = m ! j"
    "vp8_layout (take n (drop data m'))"
    "vp8_parsed (take n (drop data m')) = (vp8_parsed d)
      \<lparr>v8_pictureId := if v8_hasPictureId (vp8_parsed d) then pid AND 0x7FFF else 0,
       v8_tl0PictureIndex := if v8_hasTl0PictureIndex (vp8_parsed d) then tl0 else 0\<rparr>"
proof -
  obtain m' where m': "VP8_Encode (vp8_parsed d) pid tl0 data m = Some m'" "length m' = length m"
      and keep: "\<forall>j. j < data + 2 \<or> data + vp8_o2 d < j \<longrightarrow> m' ! j = m ! j"
      and two: "bit (d ! 1) 7 \<and> bit (d ! 2) 7 \<longrightarrow> m' ! (data + 2) = ucast (drop_bit 8 pid) OR 0x80 \<and> m' ! (data + 3) = ucast pid"
      and one: "bit (d ! 1) 7 \<and> \<not> bit (d ! 2) 7 \<longrightarrow> m' ! (data + 2) = ucast pid"
      and l: "bit (d ! 1) 6 \<longrightarrow> m' ! (data + vp8_o2 d) = tl0"
    using VP8_Encode_nth [OF lay d(1,2) vp8_parsed_flags(1-5), of pid tl0] by blast
  let ?d = "take n (drop data m')"
  have o: "vp8_o1 d \<le> vp8_o2 d" "vp8_o2 d \<le> vp8_o3 d" "vp8_o3 d < n" "2 \<le> n" "bit (d ! 1) 7 \<Longrightarrow> 3 \<le> n"
    using lay d(3) by (auto simp: vp8_o2_def vp8_o3_def vp8_layout_def)
  have len: "length ?d = n" using m'(2) d by simp
  have nth: "?d ! j = m' ! (data + j)" "d ! j = m ! (data + j)" if "j < n" for j
    using that d m'(2) by simp_all
  have same: "?d ! j = d ! j" if "j < n" "j < 2 \<or> vp8_o2 d < j" for j using that nth keep by auto
  have b7: "bit (?d ! 2) 7 = bit (d ! 2) 7" if i: "bit (d ! 1) 7"
  proof (cases "bit (d ! 2) 7")
    case True
    then show ?thesis using two i nth(1) [of 2] o(5) pid_bytes(2) [of pid] by simp
  next
    case False
    then have "pid < 0x80" using i small vp8_parsed_flags(5) by blast
    then have "\<not> bit (unat pid) 7" by (simp add: bit_iff_odd word_less_nat_alt)
    then have "\<not> bit pid 7" by (simp add: bit_unsigned_iff)
    then show ?thesis using one i False nth(1) [of 2] o(5) by (simp add: bit_ucast_iff)
  qed
  have o1: "vp8_o1 ?d = vp8_o1 d" using b7 same [of 1] o(4) by (auto simp: vp8_o1_def)
  have o2: "vp8_o2 ?d = vp8_o2 d" using o1 same [of 1] o(4) by (simp add: vp8_o2_def)
  have o3: "vp8_o3 ?d = vp8_o3 d" using o2 same [of 1] o(4) by (simp add: vp8_o3_def)
  have tl: "?d ! vp8_o3 d = d ! vp8_o3 d" if "bit (d ! 1) 5 \<or> bit (d ! 1) 4"
    using that same [of "vp8_o3 d"] o by (auto simp: vp8_o3_def)
  have kf: "?d ! (vp8_o3 d + 1) = d ! (vp8_o3 d + 1)" if "vp8_o3 d + 1 < n"
    using that same [of "vp8_o3 d + 1"] o by auto
  have pid: "(if i \<and> bit (d ! 2) 7 then push_bit 8 (ucast (?d ! 2 AND 0x7F)) + ucast (?d ! 3)
      else if i then ucast (?d ! 2 AND 0x7F) else 0) = (if i then pid AND 0x7FFF else 0)" if i: "i = bit (d ! 1) 7" for i
  proof (cases "i \<and> bit (d ! 2) 7")
    case True
    then have "3 < n" using i o by (auto simp: vp8_o2_def vp8_o1_def)
    then show ?thesis using True i two nth(1) [of 2] nth(1) [of 3] pid_bytes(1) [of pid] by simp
  next
    case False
    then show ?thesis using i one small nth(1) [of 2] o(5) vp8_parsed_flags(5) [of d] small_pid [of pid] by auto
  qed
  have lay': "vp8_layout ?d" using lay same [of 0] same [of 1] o len d(3) unfolding vp8_layout_def o3 by simp
  have "vp8_parsed ?d = (vp8_parsed d)
      \<lparr>v8_pictureId := if v8_hasPictureId (vp8_parsed d) then pid AND 0x7FFF else 0,
       v8_tl0PictureIndex := if v8_hasTl0PictureIndex (vp8_parsed d) then tl0 else 0\<rparr>"
    using same [of 0] same [of 1] o(4) b7 tl kf pid [OF refl] l nth(1) [of "vp8_o2 d"] o len d(3)
    unfolding vp8_parsed_def [of ?d] o2 o3 vp8_parsed_flags
    by (auto simp: vp8_parsed_def [of d] vp8_flags_def Let_def)
  moreover have "m' ! j = m ! j" if "j < data \<or> data + n \<le> j" for j using that keep o by auto
  ultimately show ?thesis using that [OF m' _ lay'] by blast
qed

text \<open>A descriptor that \<open>Parse\<close> has read from a payload can be rewritten in place with any picture id and TL0PICIDX.\<close>

lemma VP8_Encode_roundtrip:
  assumes "VP8_Parse (take n (drop data m)) = Some (Some p)" and "data + n \<le> length m"
    and "v8_hasOneBytePictureId p \<Longrightarrow> pictureId < 0x80"
  shows "\<exists>m'. VP8_Encode p pictureId tl0PictureIndex data m = Some m' \<and> length m' = length m \<and>
    take data m' = take data m \<and> drop (data + n) m' = drop (data + n) m \<and>
    VP8_Parse (take n (drop data m')) = Some (Some (p
      \<lparr>v8_pictureId := if v8_hasPictureId p then pictureId AND 0x7FFF else 0,
       v8_tl0PictureIndex := if v8_hasTl0PictureIndex p then tl0PictureIndex else 0\<rparr>))"
proof -
  have p: "p = vp8_parsed (take n (drop data m))" and lay: "vp8_layout (take n (drop data m))"
    using assms(1) by (auto simp: VP8_Parse_eq split: if_splits)
  show ?thesis
    by (rule VP8_Encode_reparse [OF lay refl assms(2), where pid = pictureId and ?tl0.0 = tl0PictureIndex])
      (use assms p in \<open>auto simp: VP8_Parse_eq intro!: nth_equalityI\<close>)
qed

text \<open>\<open>Process\<close> of a descriptor that was parsed from the payload it is applied to stays inside the payload.\<close>

lemma VP8_Process_total:
  assumes "VP8_Parse (take n (drop data m)) = Some (Some p)" "data + n \<le> length m" "\<not> v8_hasOneBytePictureId p" "0 \<le> targetTemporalLayer c"
  obtains sent c' m' where "VP8_Process c p data m = Some (sent, False, c', m')" "length m' = length m"
    "take data m' = take data m" "drop (data + n) m' = drop (data + n) m"
proof -
  have "\<exists>m'. (if v8_hasPictureId p \<and> v8_hasTl0PictureIndex p then VP8_Encode p pid tl0 data m else Some m) = Some m' \<and> length m' = length m \<and>
      take data m' = take data m \<and> drop (data + n) m' = drop (data + n) m" for pid tl0
    using VP8_Encode_roundtrip [OF assms(1,2), of pid tl0] assms(3) by auto
  then have "\<exists>sent c' m'. VP8_Process c p data m = Some (sent, False, c', m') \<and> length m' = length m \<and>
      take data m' = take data m \<and> drop (data + n) m' = drop (data + n) m"
    using assms(4) by (auto simp: VP8_Process_def Let_def split: prod.split option.split) (metis bind.bind_lunit)+
  then show ?thesis using that by blast
qed

lemma VP8_Process_target:
  assumes "VP8_Process c p data m = Some (sent, marker, c', m')"
  shows "targetTemporalLayer c' = targetTemporalLayer c"
proof -
  have "targetTemporalLayer (vp8_sync p c) = targetTemporalLayer c" "targetTemporalLayer (vp8_drop p c) = targetTemporalLayer c"
    "targetTemporalLayer (vp8_update_layer p c) = targetTemporalLayer c" for c
    by (simp_all add: vp8_sync_def vp8_drop_def vp8_update_layer_def SetCurrentTemporalLayer_def Let_def)
  with assms show ?thesis by (auto simp: VP8_Process_def Let_def bind_eq_Some_conv split: if_splits prod.splits option.splits)
qed

subsection \<open>Restoring\<close>

lemma pid_bytes_back:
  fixes hi lo :: u8 and pid :: u16
  assumes "bit hi 7"
  defines "pid \<equiv> push_bit 8 (ucast (hi AND 0x7F)) + ucast lo"
  shows "ucast (drop_bit 8 pid) OR 0x80 = hi" "ucast pid = lo"
proof -
  have n: "(0x7F :: u8) = mask 7" "(0x80 :: u8) = NOT (mask 7)" by (simp_all add: mask_eq_exp_minus_1)
  have "push_bit 8 (ucast (hi AND 0x7F)) AND ucast lo = (0 :: u16)" by (rule bit_word_eqI) (auto simp: bit_simps dest: bit_imp_le_length)
  then have pid: "pid = push_bit 8 (ucast (hi AND mask 7)) OR ucast lo" unfolding pid_def n by (rule disjunctive_add_eq_or)
  show "ucast pid = lo" unfolding pid by (rule bit_word_eqI) (auto simp: bit_simps)
  show "ucast (drop_bit 8 pid) OR 0x80 = hi"
  proof (unfold pid n, rule bit_word_eqI)
    fix k assume "k < LENGTH(8)"
    then have "k < 7 \<or> k = 7" by auto
    then show "bit ((ucast (drop_bit 8 (push_bit 8 (ucast (hi AND mask 7)) OR ucast lo :: u16)) :: u8) OR NOT (mask 7)) k = bit hi k"
      using assms(1) by (auto simp: bit_simps dest: bit_imp_le_length)
  qed
qed

lemma VP8_Encode_two_bytes:
  assumes "v8_extended p" "v8_i p" "v8_hasTwoBytesPictureId p" "v8_l p" "data + 4 < length m"
  shows "VP8_Encode p pid tl0 data m = Some (m[data + 3 := ucast pid, data + 2 := ucast (drop_bit 8 pid) OR 0x80, data + 4 := tl0])"
  using assms by (auto simp: VP8_Encode_def Set2Bytes_def Set1Byte_def Get1Byte_def eval_nat_numeral)

text \<open>\<open>Restore\<close> undoes what \<open>Process\<close> has written, whatever the context was.\<close>

lemma VP8_Restore_Process:
  assumes parse: "VP8_Parse (take n (drop data m)) = Some (Some p)" and n: "data + n \<le> length m"
    and one: "\<not> v8_hasOneBytePictureId p" and run: "VP8_Process c p data m = Some (sent, marker, c', m')"
  shows "VP8_Restore p data m' = Some m"
proof (cases "v8_hasPictureId p \<and> v8_hasTl0PictureIndex p")
  case False
  then have "m' = m" using run by (auto simp: VP8_Process_def Let_def bind_eq_Some_conv split: if_splits prod.splits option.splits)
  then show ?thesis using False by (auto simp: VP8_Restore_def)
next
  case True
  let ?d = "take n (drop data m)"
  have lay: "vp8_layout ?d" and p: "p = vp8_parsed ?d" using parse by (auto simp: VP8_Parse_eq split: if_splits)
  note f = vp8_parsed_flags [of ?d, folded p]
  have b: "bit (?d ! 1) 7" "bit (?d ! 2) 7" "bit (?d ! 1) 6" using True one f by auto
  have o: "vp8_o2 ?d = 4" using b by (simp add: vp8_o2_def vp8_o1_def)
  then have "4 < n" using lay by (auto simp: vp8_layout_def vp8_o3_def)
  then have len: "data + 4 < length m" and nth: "?d ! 2 = m ! (data + 2)" "?d ! 3 = m ! (data + 3)" "?d ! 4 = m ! (data + 4)" using n by simp_all
  note enc = VP8_Encode_two_bytes [of p]
  have e: "v8_extended p" "v8_i p" "v8_hasTwoBytesPictureId p" "v8_l p" using f b by auto
  have pid: "v8_pictureId p = push_bit 8 (ucast (m ! (data + 2) AND 0x7F)) + ucast (m ! (data + 3))" "v8_tl0PictureIndex p = m ! (data + 4)"
    unfolding p vp8_parsed_def Let_def o using b nth by simp_all
  have hi: "bit (m ! (data + 2)) 7" using b nth by simp
  have same: "m' = m \<or> (\<exists>x y z. m' = m[data + 3 := x, data + 2 := y, data + 4 := z])"
    using run e enc [OF e len] True by (auto simp: VP8_Process_def Let_def bind_eq_Some_conv split: if_splits prod.splits option.splits) blast
  then have len': "data + 4 < length m'" using len by auto
  show ?thesis
    using same len True unfolding VP8_Restore_def vp8_desc_Restore_def enc [OF e len'] pid pid_bytes_back [OF hi]
    by (auto simp: list_update_swap nth_list_update intro!: nth_equalityI)
qed

subsection \<open>Widening of the picture id\<close>

lemma vp8_widened:
  assumes lay: "vp8_layout d" and one: "v8_hasOneBytePictureId (vp8_parsed d)"
    and e: "take 2 e = take 2 d" "e ! 2 = 0x80" "drop 3 e = drop 2 d" "length e = length d + 1"
  shows "vp8_layout e" "vp8_parsed e = (vp8_parsed d)\<lparr>v8_hasOneBytePictureId := False, v8_hasTwoBytesPictureId := True\<rparr>"
proof -
  have o: "vp8_o3 d < length d" "2 \<le> length d" "3 \<le> length d" using lay one vp8_parsed_flags(5) [of d] by (auto simp: vp8_layout_def)
  have 0: "e ! 0 = d ! 0" "e ! 1 = d ! 1" using e(1) by (metis nth_take zero_less_numeral) (metis e(1) nth_take one_less_numeral_iff semiring_norm(76))
  have n: "e ! (j + 1) = d ! j" if j: "2 \<le> j" "j < length d" for j
  proof -
    obtain k where "j = 2 + k" using le_Suc_ex [OF j(1)] by blast
    moreover have "e ! (3 + k) = drop 3 e ! k" "d ! (2 + k) = drop 2 d ! k" using j e(4) by simp_all
    moreover have "2 + k + 1 = 3 + k" by simp
    ultimately show ?thesis using e(3) by metis
  qed
  have i: "bit (d ! 1) 7" "\<not> bit (d ! 2) 7" using one by (simp_all add: vp8_parsed_flags)
  have off: "vp8_o1 e = vp8_o1 d + 1" "vp8_o2 e = vp8_o2 d + 1" "vp8_o3 e = vp8_o3 d + 1"
    using 0 i e(2) by (simp_all add: vp8_o3_def vp8_o2_def vp8_o1_def)
  have ge: "2 \<le> vp8_o1 d" "vp8_o1 d \<le> vp8_o2 d" "vp8_o2 d \<le> vp8_o3 d" using i by (simp_all add: vp8_o3_def vp8_o2_def vp8_o1_def)
  show "vp8_layout e" using o 0 off e(4) lay by (auto simp: vp8_layout_def)
  have b: "e ! vp8_o2 e = d ! vp8_o2 d" "e ! vp8_o3 e = d ! vp8_o3 d" "vp8_o3 d + 1 < length d \<Longrightarrow> e ! (vp8_o3 e + 1) = d ! (vp8_o3 d + 1)"
    unfolding off using n ge o by auto
  have e3: "e ! 3 = d ! 2" using n [of 2] o by simp
  have m7: "d ! 2 AND 0x7F = d ! 2"
  proof (rule bit_word_eqI)
    fix k assume "k < LENGTH(8)"
    then have "k < 7 \<or> k = 7" by auto
    then have "bit (d ! 2 AND mask 7) k = bit (d ! 2) k" using i by (auto simp: bit_simps)
    moreover have "(0x7F :: u8) = mask 7" by (simp add: mask_eq_exp_minus_1)
    ultimately show "bit (d ! 2 AND 0x7F) k = bit (d ! 2) k" by metis
  qed
  show "vp8_parsed e = (vp8_parsed d)\<lparr>v8_hasOneBytePictureId := False, v8_hasTwoBytesPictureId := True\<rparr>"
    unfolding vp8_parsed_def Let_def b 0 using b(3) i e(2,4) off by (auto simp: vp8_flags_def m7 e3)
qed

lemma VP8_ProcessRtpPacket_total:
  assumes wf: "rtp_wf packet" and room: "rtp_size packet < length (rtp_mem packet)"
  shows "(\<exists>p q d. VP8_Parse (payload_bytes packet) = Some (Some p) \<and> VP8_ProcessRtpPacket upcast packet = Some q \<and> rtp_wf q \<and>
      payloadDescriptorHandler q = Some (upcast d) \<and> VP8_Parse (payload_bytes q) = Some (Some d) \<and> \<not> v8_hasOneBytePictureId d \<and>
      d = p\<lparr>v8_hasOneBytePictureId := False, v8_hasTwoBytesPictureId := v8_hasPictureId p\<rparr>) \<or>
    VP8_Parse (payload_bytes packet) = Some None \<and> VP8_ProcessRtpPacket upcast packet = Some packet"
proof (cases "vp8_layout (payload_bytes packet)")
  case False
  then show ?thesis using ReadFrameMarking_wf [OF wf] by (auto simp: VP8_ProcessRtpPacket_def VP8_Parse_eq)
next
  case lay: True
  let ?d = "payload_bytes packet" let ?p = "vp8_parsed ?d"
  have parse: "VP8_Parse ?d = Some (Some ?p)" using lay by (simp add: VP8_Parse_eq)
  note f = rtp_wf_facts [OF wf]
  obtain fm where fm: "ReadFrameMarking packet = Some fm" using ReadFrameMarking_wf [OF wf] by blast
  show ?thesis
  proof (cases "v8_hasOneBytePictureId ?p")
    case False
    then have "VP8_ProcessRtpPacket upcast packet = Some (packet\<lparr>payloadDescriptorHandler := Some (upcast ?p)\<rparr>)"
      using parse fm by (simp add: VP8_ProcessRtpPacket_def)
    moreover have "rtp_wf (packet\<lparr>payloadDescriptorHandler := Some (upcast ?p)\<rparr>)" using wf by (simp add: rtp_wf_handler)
    moreover have "?p = ?p\<lparr>v8_hasOneBytePictureId := False, v8_hasTwoBytesPictureId := v8_hasPictureId ?p\<rparr>"
      using False by (auto simp: vp8_parsed_flags vp8_parsed_def vp8_flags_def Let_def)
    ultimately show ?thesis using parse False by (intro disjI1 exI conjI) (auto simp: payload_bytes_def)
  next
    case True
    have len: "3 \<le> length ?d" "length ?d = payloadLength packet"
      using lay True f by (auto simp: vp8_layout_def vp8_parsed_flags payload_bytes_def)
    obtain q where q: "ShiftPayload 2 1 True packet = Some q" "rtp_wf q" "rtp_size q = rtp_size packet + 1"
        "take 2 (payload_bytes q) = take 2 ?d" "drop (2 + 1) (payload_bytes q) = drop 2 ?d"
      using ShiftPayload_spec [OF wf, of 2 1] len room by auto
    note g = rtp_wf_facts [OF q(2)]
    let ?e = "(payload_bytes q)[2 := 0x80]" and ?m = "(rtp_mem q)[payload q + 2 := 0x80]"
    let ?p' = "?p\<lparr>v8_hasOneBytePictureId := False, v8_hasTwoBytesPictureId := True\<rparr>"
    let ?q = "q\<lparr>rtp_mem := ?m, payloadDescriptorHandler := Some (upcast ?p')\<rparr>"
    have lq: "length (payload_bytes q) = length ?d + 1" "length (payload_bytes q) = payloadLength q"
      using arg_cong [OF q(5), of length] len(1) g by (auto simp: payload_bytes_def)
    have "VP8_ProcessRtpPacket upcast packet = Some ?q"
      using fm parse True q(1) g len lq by (auto simp: VP8_ProcessRtpPacket_def Set1Byte_def)
    moreover have "rtp_wf (q\<lparr>rtp_mem := ?m\<rparr>)"
    proof (rule rtp_wf_change [OF q(2)])
      show "same_headers (rtp_mem q) (rtp_mem (q\<lparr>rtp_mem := ?m\<rparr>))" using g by (simp add: same_headers_def)
      show "rtp_mem (q\<lparr>rtp_mem := ?m\<rparr>) ! (rtp_size (q\<lparr>rtp_mem := ?m\<rparr>) - 1) = payloadPadding (q\<lparr>rtp_mem := ?m\<rparr>)"
        if "payloadPadding (q\<lparr>rtp_mem := ?m\<rparr>) \<noteq> 0"
      proof -
        have "0 < unat (payloadPadding q)" using that by (simp add: unat_gt_0)
        then have "payload q + 2 \<noteq> rtp_size q - 1" using g(2) lq len(1) by linarith
        then show ?thesis using that q(2) by (simp add: rtp_wf_def Let_def rtp_layout_def)
      qed
    qed (use g in auto)
    then have "rtp_wf ?q" using rtp_wf_handler [of "Some (upcast ?p')" "q\<lparr>rtp_mem := ?m\<rparr>"] by simp
    moreover have "payload_bytes ?q = ?e" using lq len(1) by (simp add: payload_bytes_def drop_update_swap take_update_swap)
    moreover have "take 2 ?e = take 2 ?d" "?e ! 2 = 0x80" "drop 3 ?e = drop 2 ?d" "length ?e = length ?d + 1"
      using q(4,5) lq len(1) by simp_all
    note vp8_widened [OF lay True this]
    ultimately show ?thesis using parse True by (auto simp: VP8_Parse_eq vp8_parsed_flags)
  qed
qed

subsection \<open>Streams\<close>

text \<open>A consumer gets the payloads of the packets one by one; those that \<open>Process\<close> refuses are not sent.\<close>

fun VP8_forward :: "vp8_context \<Rightarrow> bytes list \<Rightarrow> bytes list option" where
  "VP8_forward c [] = Some []"
| "VP8_forward c (d # ds) = do {
     r \<leftarrow> VP8_Parse d;
     p \<leftarrow> r;
     (ok, _, c, m) \<leftarrow> VP8_Process c p 0 d;
     out \<leftarrow> VP8_forward c ds;
     Some (if ok then m # out else out) }"

text \<open>A stream of frames of one packet each: consecutive picture ids, a TL0PICIDX that counts the frames of layer 0.\<close>

fun vp8_in_order :: "u16 \<Rightarrow> u8 \<Rightarrow> vp8_desc list \<Rightarrow> bool" where
  "vp8_in_order n t [] = True"
| "vp8_in_order n t (p # ps) \<longleftrightarrow>
     v8_hasTwoBytesPictureId p \<and> v8_hasTl0PictureIndex p \<and> v8_hasTlIndex p \<and> v8_pictureId p = n + 1 \<and>
     v8_tl0PictureIndex p = (if v8_tlIndex p = 0 then t + 1 else t) \<and> vp8_in_order (n + 1) (v8_tl0PictureIndex p) ps"

text \<open>The frames that a receiver of the layers up to \<open>target\<close> can decode: a higher layer is entered at a frame with the sync flag.\<close>

fun vp8_decodable :: "int \<Rightarrow> int \<Rightarrow> vp8_desc list \<Rightarrow> vp8_desc list" where
  "vp8_decodable target cur [] = []"
| "vp8_decodable target cur (p # ps) =
     (let tl = int (unat (v8_tlIndex p))
      in if tl \<le> target \<and> (tl \<le> cur \<or> v8_y p) then p # vp8_decodable target (min target (max cur tl)) ps
         else vp8_decodable target cur ps)"

lemma Drop_same: "Drop s (maxInput s) = s"
  by (simp add: Drop_def IsSeqHigherThan_def)

text \<open>A manager from which nothing is dropped adds its base.\<close>

lemma Input_none_dropped:
  fixes s :: "u8 seq_manager"
  assumes "dropped s = []" and "x = maxInput s \<or> x = maxInput s + 1"
  obtains s' where "Input s x = (Some (x + base s), s')" "dropped s' = []" "maxInput s' = x" "base s' = base s"
proof -
  have "x - maxInput s < MaxValue div 2" using assms(2) by (auto simp: less_half_iff)
  then show ?thesis using that assms(1) by (auto simp: Input_def Input_accept_def Let_def)
qed

text \<open>The context after \<open>i\<close> frames of a stream, the last one with picture id \<open>n\<close> and TL0PICIDX \<open>t\<close>.\<close>

definition vp8_streaming :: "vp8_context \<Rightarrow> int \<Rightarrow> int \<Rightarrow> u16 \<Rightarrow> u8 \<Rightarrow> nat \<Rightarrow> u16 \<Rightarrow> u8 \<Rightarrow> bool" where
  "vp8_streaming c target cur n t i out b \<longleftrightarrow>
     targetTemporalLayer c = target \<and> currentTemporalLayer c = cur \<and> 0 \<le> target \<and> 0 \<le> cur \<and> \<not> v8_syncRequired c \<and>
     stream_inv (v8_pictureIdManager c) n i \<and> maxOutput (v8_pictureIdManager c) = out \<and>
     dropped (v8_tl0PictureIndexManager c) = [] \<and> maxInput (v8_tl0PictureIndexManager c) = t \<and> base (v8_tl0PictureIndexManager c) = b"

lemma vp8_not_old:
  assumes "stream_inv s n i" "i + 2 < 2 ^ 15"
  shows "\<not> IsSeqLowerThan (n + 1) (GetMaxInput (s :: u16 seq_manager))"
  using stream_maxInput [OF assms(1)] assms(2) seq.gt_near [of "n + 1" "maxInput s"] seq.gt_asym
  by (fastforce simp: IsSeqLowerThan_swap GetMaxInput_def)

lemma VP8_Process_refused:
  assumes c: "vp8_streaming c target cur n t i out b" "i + 2 < 2 ^ 15" and p: "vp8_in_order n t (p # ps)" "v8_hasPictureId p"
    and tl: "\<not> (int (unat (v8_tlIndex p)) \<le> target \<and> (int (unat (v8_tlIndex p)) \<le> cur \<or> v8_y p))"
  obtains c' where "VP8_Process c p data m = Some (False, False, c', m)" "vp8_streaming c' target cur (n + 1) t (Suc i) out b"
    "v8_tl0PictureIndex p = t"
proof -
  have "v8_tlIndex p \<noteq> 0" using tl c by (auto simp: vp8_streaming_def)
  then have t: "v8_tl0PictureIndex p = t" using p by simp
  have sync: "vp8_sync p c = c" using c by (simp add: vp8_sync_def vp8_streaming_def)
  have "vp8_filtered p c" using c p tl vp8_not_old [of "v8_pictureIdManager c" n i] by (auto simp: vp8_filtered_def vp8_streaming_def)
  then have "VP8_Process c p data m = Some (False, False, vp8_drop p c, m)"
    using c sync by (simp add: VP8_Process_def vp8_streaming_def)
  moreover have "vp8_streaming (vp8_drop p c) target cur (n + 1) t (Suc i) out b"
    using c p t stream_Drop [of "v8_pictureIdManager c" n i] Drop_same [of "v8_tl0PictureIndexManager c"]
    by (simp add: vp8_streaming_def vp8_drop_def)
  ultimately show ?thesis using that t by blast
qed

lemma VP8_Process_sent:
  assumes c: "vp8_streaming c target cur n t i out b" "i + 2 < 2 ^ 15" and p: "vp8_in_order n t (p # ps)"
    and d: "VP8_Parse d = Some (Some p)"
    and tl: "int (unat (v8_tlIndex p)) \<le> target" "int (unat (v8_tlIndex p)) \<le> cur \<or> v8_y p"
  obtains c' m where "VP8_Process c p 0 d = Some (True, False, c', m)"
    "vp8_streaming c' target (min target (max cur (int (unat (v8_tlIndex p))))) (n + 1) (v8_tl0PictureIndex p) (Suc i) (out + 1) b"
    "VP8_Parse m = Some (Some (p\<lparr>v8_pictureId := (out + 1) AND 0x7FFF, v8_tl0PictureIndex := v8_tl0PictureIndex p + b\<rparr>))"
proof -
  let ?pm = "v8_pictureIdManager c" and ?tm = "v8_tl0PictureIndexManager c"
  have lay: "vp8_layout d" and pd: "p = vp8_parsed d" using d by (auto simp: VP8_Parse_eq split: if_splits)
  have hp: "v8_hasPictureId p" "\<not> v8_hasOneBytePictureId p" using p vp8_parsed_flags [of d] by (auto simp: pd)
  have sync: "vp8_sync p c = c" using c by (simp add: vp8_sync_def vp8_streaming_def)
  have nf: "\<not> vp8_filtered p c" using c tl by (auto simp: vp8_filtered_def vp8_streaming_def)
  obtain pm where pm: "Input ?pm (n + 1) = (Some (out + 1), pm)" "stream_inv pm (n + 1) (Suc i)" "maxOutput pm = out + 1"
    using stream_Input [of ?pm n i] c by (auto simp: vp8_streaming_def)
  have x: "dropped ?tm = []" "v8_tl0PictureIndex p = maxInput ?tm \<or> v8_tl0PictureIndex p = maxInput ?tm + 1" "base ?tm = b"
    using c p by (auto simp: vp8_streaming_def split: if_splits)
  obtain tm where tm: "Input ?tm (v8_tl0PictureIndex p) = (Some (v8_tl0PictureIndex p + b), tm)" "dropped tm = []"
      "maxInput tm = v8_tl0PictureIndex p" "base tm = b"
    using Input_none_dropped [OF x(1,2)] x(3) by metis
  obtain m where m: "VP8_Encode p (out + 1) (v8_tl0PictureIndex p + b) 0 d = Some m" "length m = length d"
      "vp8_layout m" "vp8_parsed m = p\<lparr>v8_pictureId := (out + 1) AND 0x7FFF, v8_tl0PictureIndex := v8_tl0PictureIndex p + b\<rparr>"
    by (rule VP8_Encode_reparse [OF lay, of "length d" 0 d "out + 1" "v8_tl0PictureIndex p + b"]) (use hp pd p in auto)
  let ?c = "vp8_update_layer p (c\<lparr>v8_pictureIdManager := pm, v8_tl0PictureIndexManager := tm\<rparr>)"
  have "VP8_Process c p 0 d = Some (True, False, ?c, m)"
    using c p sync nf hp pm(1) tm(1) m(1) by (simp add: VP8_Process_def vp8_streaming_def)
  moreover have "vp8_streaming ?c target (min target (max cur (int (unat (v8_tlIndex p))))) (n + 1) (v8_tl0PictureIndex p) (Suc i) (out + 1) b"
    using c p pm(2,3) tm(2-4) by (auto simp: vp8_streaming_def vp8_update_layer_def SetCurrentTemporalLayer_def Let_def)
  moreover have "VP8_Parse m = Some (Some (vp8_parsed m))" using m(3) by (simp add: VP8_Parse_eq)
  ultimately show ?thesis using that m(4) by metis
qed

definition vp8_renumbered :: "u8 \<Rightarrow> u16 \<Rightarrow> vp8_desc list \<Rightarrow> vp8_desc list" where
  "vp8_renumbered b out ps =
     map2 (\<lambda>k p. p\<lparr>v8_pictureId := (out + of_nat k) AND 0x7FFF, v8_tl0PictureIndex := v8_tl0PictureIndex p + b\<rparr>) [1..<Suc (length ps)] ps"

lemma vp8_renumbered_Cons:
  "vp8_renumbered b out (p # ps) =
     p\<lparr>v8_pictureId := (out + 1) AND 0x7FFF, v8_tl0PictureIndex := v8_tl0PictureIndex p + b\<rparr> # vp8_renumbered b (out + 1) ps"
proof -
  have "[1..<Suc (Suc (length ps))] = 1 # map Suc [1..<Suc (length ps)]" by (simp add: upt_conv_Cons map_Suc_upt del: upt_Suc)
  then show ?thesis by (simp add: vp8_renumbered_def zip_map1 case_prod_beta ac_simps del: upt_Suc)
qed

lemma vp8_forward_streaming:
  assumes "vp8_streaming c target cur n t i out b" "i + length ds + 1 < 2 ^ 15" "vp8_in_order n t ps"
    "map VP8_Parse ds = map (\<lambda>p. Some (Some p)) ps"
  shows "\<exists>outs. VP8_forward c ds = Some outs \<and>
    map VP8_Parse outs = map (\<lambda>p. Some (Some p)) (vp8_renumbered b out (vp8_decodable target cur ps))"
  using assms
proof (induction ds arbitrary: c cur n t i out ps)
  case Nil
  then show ?case by (simp add: vp8_renumbered_def)
next
  case (Cons d ds)
  then obtain p qs where ps: "ps = p # qs" by (cases ps) auto
  with Cons.prems have d: "VP8_Parse d = Some (Some p)" "map VP8_Parse ds = map (\<lambda>p. Some (Some p)) qs" by auto
  have io: "vp8_in_order n t (p # qs)" "vp8_in_order (n + 1) (v8_tl0PictureIndex p) qs" using Cons.prems(3) ps by auto
  have i: "i + 2 < 2 ^ 15" "Suc i + length ds + 1 < 2 ^ 15" using Cons.prems(2) by auto
  let ?tl = "int (unat (v8_tlIndex p))"
  show ?case
  proof (cases "?tl \<le> target \<and> (?tl \<le> cur \<or> v8_y p)")
    case True
    from VP8_Process_sent [OF Cons.prems(1) i(1) io(1) d(1)] True obtain c' m where c':
      "VP8_Process c p 0 d = Some (True, False, c', m)"
      "vp8_streaming c' target (min target (max cur ?tl)) (n + 1) (v8_tl0PictureIndex p) (Suc i) (out + 1) b"
      "VP8_Parse m = Some (Some (p\<lparr>v8_pictureId := (out + 1) AND 0x7FFF, v8_tl0PictureIndex := v8_tl0PictureIndex p + b\<rparr>))" by blast
    from Cons.IH [OF c'(2) i(2) io(2) d(2)] show ?thesis using True c' d ps by (auto simp: vp8_renumbered_Cons)
  next
    case False
    have "v8_hasPictureId p" using d(1) io(1) vp8_parsed_flags [of d] by (auto simp: VP8_Parse_eq split: if_splits)
    from VP8_Process_refused [OF Cons.prems(1) i(1) io(1) this False] obtain c' where c':
      "VP8_Process c p 0 d = Some (False, False, c', d)" "vp8_streaming c' target cur (n + 1) t (Suc i) out b"
      "v8_tl0PictureIndex p = t" by blast
    from Cons.IH [OF c'(2) i(2) _ d(2)] io show ?thesis using False c' d ps by auto
  qed
qed

lemma VP8_forward_sync:
  assumes "VP8_Parse d = Some (Some p)"
  shows "VP8_forward c (d # ds) = VP8_forward (vp8_sync p c) (d # ds)"
proof -
  have "vp8_sync p (vp8_sync p c) = vp8_sync p c" by (simp add: vp8_sync_def)
  then have "VP8_Process (vp8_sync p c) p 0 d = VP8_Process c p 0 d" unfolding VP8_Process_def by (simp add: vp8_sync_def)
  then show ?thesis using assms by simp
qed

text \<open>C9: A consumer that has been told to synchronize, sends some temporal layer already and gets a VP8 stream in order (one packet per frame, consecutive
  picture ids that do not wrap around their fifteen bits, fewer than \<open>2 ^ 15 - 1\<close> packets, starting in layer 0) sends exactly the frames that a receiver of the layers up to the target can decode; in what it sends the picture ids
  are consecutive and continue its last one (in fifteen bits), TL0PICIDX is shifted by a constant, and no other field has changed.\<close>

theorem vp8_stream_without_gaps:
  assumes "v8_syncRequired c" "0 \<le> targetTemporalLayer c" "0 \<le> currentTemporalLayer c"
    and "map VP8_Parse ds = map (\<lambda>p. Some (Some p)) (p # ps)" "length ds + 1 < 2 ^ 15" "v8_tlIndex p = 0"
    and "vp8_in_order (v8_pictureId p - 1) (v8_tl0PictureIndex p - 1) (p # ps)"
  shows "\<exists>outs b. VP8_forward c ds = Some outs \<and>
    map VP8_Parse outs = map (\<lambda>p. Some (Some p))
      (vp8_renumbered b (GetMaxOutput (v8_pictureIdManager c)) (vp8_decodable (targetTemporalLayer c) (currentTemporalLayer c) (p # ps)))"
proof -
  obtain d ds' where ds: "ds = d # ds'" and d: "VP8_Parse d = Some (Some p)" using assms(4) by (cases ds) auto
  have "v8_hasPictureId p" using d assms(7) vp8_parsed_flags [of d] by (auto simp: VP8_Parse_eq split: if_splits)
  then have "vp8_streaming (vp8_sync p c) (targetTemporalLayer c) (currentTemporalLayer c) (v8_pictureId p - 1) (v8_tl0PictureIndex p - 1) 0
      (GetMaxOutput (v8_pictureIdManager c)) (maxOutput (v8_tl0PictureIndexManager c) - (v8_tl0PictureIndex p - 1))"
    using assms by (simp add: vp8_streaming_def vp8_sync_def Sync_def stream_inv_def GetMaxOutput_def)
  from vp8_forward_streaming [OF this _ assms(7,4)] assms(5) show ?thesis
    using VP8_forward_sync [OF d, of c ds'] ds by auto
qed

text \<open>Two temporal layers, target 0: the frames of layer 1 are not sent.\<close>

definition vp8_sample :: "u8 \<Rightarrow> u8 \<Rightarrow> u8 \<Rightarrow> bytes" where
  "vp8_sample pid tl0 l = [0x90, 0xE0, 0x80, pid, tl0, l]"

lemma vp8_sample_parse:
  "VP8_Parse (vp8_sample pid tl0 l) = Some (Some (vp8_parsed (vp8_sample pid tl0 l)))"
  "vp8_parsed (vp8_sample pid tl0 l) = (vp8_flags 0x90 0xE0)\<lparr>v8_pictureId := ucast pid, v8_tl0PictureIndex := tl0,
     v8_tlIndex := drop_bit 6 l AND 3, v8_y := bit l 5, v8_keyIndex := l AND 0x1F,
     v8_hasPictureId := True, v8_hasTwoBytesPictureId := True, v8_hasTl0PictureIndex := True, v8_hasTlIndex := True\<rparr>"
  by (simp_all add: VP8_Parse_eq vp8_layout_def vp8_parsed_def vp8_flags_def vp8_o3_def vp8_o2_def vp8_o1_def vp8_sample_def Let_def)

theorem vp8_stream_without_gaps_witness:
  "\<exists>outs b. VP8_forward (SetTargetTemporalLayer 0 (SetCurrentTemporalLayer 0 (VP8_SyncRequired (VP8_EncodingContext_new 1 2 False))))
      [vp8_sample 9 4 0x20, vp8_sample 10 4 0x60, vp8_sample 11 5 0] = Some outs \<and>
    map VP8_Parse outs = map (\<lambda>p. Some (Some p))
      (vp8_renumbered b 0 [vp8_parsed (vp8_sample 9 4 0x20), vp8_parsed (vp8_sample 11 5 0)])"
  using vp8_stream_without_gaps [of "SetTargetTemporalLayer 0 (SetCurrentTemporalLayer 0 (VP8_SyncRequired (VP8_EncodingContext_new 1 2 False)))"
      "[vp8_sample 9 4 0x20, vp8_sample 10 4 0x60, vp8_sample 11 5 0]" "vp8_parsed (vp8_sample 9 4 0x20)"
      "[vp8_parsed (vp8_sample 10 4 0x60), vp8_parsed (vp8_sample 11 5 0)]"]
  by (simp add: vp8_sample_parse vp8_flags_def SetTargetTemporalLayer_def SetCurrentTemporalLayer_def VP8_SyncRequired_def
      VP8_EncodingContext_new_def EncodingContext_new_def encoding_context.extend_def SeqManager_init_def GetMaxOutput_def)

text \<open>The picture id has fifteen bits, the manager compares sixteen: once the picture id has wrapped around to 0, every picture counts as
  older than the newest one and the layer of the frames is not checked any more.\<close>

lemma vp8_wrap_around_disables_filter:
  "let p = vp8_parsed (vp8_sample 0 4 0x40)
   in v8_tlIndex p = 1 \<and>
      map_option (\<lambda>(sent, _). sent) (VP8_Process (SetTargetTemporalLayer 0 (VP8_EncodingContext_new 1 2 False)
        \<lparr>v8_pictureIdManager := Sync SeqManager_init 0x7FFF\<rparr>) p 0 (vp8_sample 0 4 0x40)) = Some True"
  unfolding Let_def vp8_sample_parse
  by (simp add: vp8_sample_def vp8_flags_def SetTargetTemporalLayer_def VP8_EncodingContext_new_def EncodingContext_new_def
      encoding_context.extend_def SeqManager_init_def VP8_Process_def vp8_sync_def vp8_filtered_def Sync_def IsSeqLowerThan_def MaxValue_def
      GetMaxInput_def Input_def Input_accept_def VP8_Encode_def Set2Bytes_def Set1Byte_def Get1Byte_def)

end
