(* ===== verification/Codecs_VP9.thy ===== *)
theory Codecs_VP9
  imports SeqManager Codecs
begin

text \<open>
  \<^verbatim>\<open>RTC::Codecs::VP9\<close> (\<^verbatim>\<open>src/RTC/Codecs/VP9.cpp\<close>): the VP9 payload descriptor and the choice of the spatial and temporal layers that
  a consumer sends. The payload is not rewritten.

  The descriptor is value-initialized, so that fields the parser does not set are zero. \<open>None\<close> is an access outside the buffer or a
  failed assertion, \<open>Some None\<close> a null pointer that is returned.
\<close>

subsection \<open>Payload descriptor\<close>

record vp9_desc =
  v9_i :: bool
  v9_p :: bool
  v9_l :: bool
  v9_f :: bool
  v9_b :: bool
  v9_e :: bool
  v9_v :: bool
  v9_pictureId :: u16
  v9_slIndex :: u8
  v9_tlIndex :: u8
  v9_tl0PictureIndex :: u8
  v9_switchingUpPoint :: bool
  v9_interLayerDependency :: bool
  v9_isKeyFrame :: bool
  v9_hasPictureId :: bool
  v9_hasOneBytePictureId :: bool
  v9_hasTwoBytesPictureId :: bool
  v9_hasSlIndex :: bool
  v9_hasTl0PictureIndex :: bool
  v9_hasTlIndex :: bool

definition vp9_flags :: "u8 \<Rightarrow> vp9_desc" where
  "vp9_flags b = \<lparr>v9_i = bit b 7, v9_p = bit b 6, v9_l = bit b 5, v9_f = bit b 4, v9_b = bit b 3, v9_e = bit b 2, v9_v = bit b 1,
     v9_pictureId = 0, v9_slIndex = 0, v9_tlIndex = 0, v9_tl0PictureIndex = 0, v9_switchingUpPoint = False,
     v9_interLayerDependency = False, v9_isKeyFrame = False, v9_hasPictureId = False, v9_hasOneBytePictureId = False,
     v9_hasTwoBytesPictureId = False, v9_hasSlIndex = False, v9_hasTl0PictureIndex = False, v9_hasTlIndex = False\<rparr>"

definition vp9_parse_header :: "bytes \<Rightarrow> (nat \<times> vp9_desc) option option" where
  "vp9_parse_header d = (if length d < 1 then Some None else do { b \<leftarrow> Get1Byte d 0; Some (Some (0, vp9_flags b)) })"

definition vp9_parse_picture_id :: "bytes \<Rightarrow> nat \<times> vp9_desc \<Rightarrow> (nat \<times> vp9_desc) option option" where
  "vp9_parse_picture_id d = (\<lambda>(offset, p).
     if \<not> v9_i p then Some (Some (offset, p))
     else if length d < offset + 2 then Some None
     else do {
       byte \<leftarrow> Get1Byte d (offset + 1);
       if bit byte 7 then
         if length d < offset + 3 then Some None
         else do {
           low \<leftarrow> Get1Byte d (offset + 2);
           Some (Some (offset + 2, p\<lparr>v9_pictureId := push_bit 8 (ucast (byte AND 0x7F)) + ucast low, v9_hasTwoBytesPictureId := True,
             v9_hasPictureId := True\<rparr>)) }
       else Some (Some (offset + 1, p\<lparr>v9_pictureId := ucast (byte AND 0x7F), v9_hasOneBytePictureId := True, v9_hasPictureId := True\<rparr>)) })"

definition vp9_parse_layers :: "bytes \<Rightarrow> nat \<times> vp9_desc \<Rightarrow> (nat \<times> vp9_desc) option option" where
  "vp9_parse_layers d = (\<lambda>(offset, p).
     if \<not> v9_l p then Some (Some (offset, p))
     else if length d < offset + 2 then Some None
     else do {
       byte \<leftarrow> Get1Byte d (offset + 1);
       let p = p\<lparr>v9_interLayerDependency := bit byte 0, v9_switchingUpPoint := bit byte 4, v9_slIndex := drop_bit 1 byte AND 7,
         v9_tlIndex := drop_bit 5 byte AND 7, v9_hasSlIndex := True, v9_hasTlIndex := True\<rparr>;
       if length d < offset + 3 then Some None
       else if \<not> v9_f p then do {
         tl0 \<leftarrow> Get1Byte d (offset + 2);
         Some (Some (offset + 2, p\<lparr>v9_tl0PictureIndex := tl0, v9_hasTl0PictureIndex := True\<rparr>)) }
       else Some (Some (offset + 2, p)) })"

definition vp9_detect_key_frame :: "nat \<times> vp9_desc \<Rightarrow> vp9_desc option option" where
  "vp9_detect_key_frame = (\<lambda>(_, p).
     Some (Some (if \<not> v9_p p \<and> v9_b p \<and> v9_slIndex p = 0 then p\<lparr>v9_isKeyFrame := True\<rparr> else p)))"

definition VP9_Parse :: "bytes \<Rightarrow> vp9_desc option option" where
  "VP9_Parse d =
     and_then (and_then (and_then (vp9_parse_header d) (vp9_parse_picture_id d)) (vp9_parse_layers d)) vp9_detect_key_frame"

definition VP9_GetSpatialLayer :: "vp9_desc \<Rightarrow> u8" where
  "VP9_GetSpatialLayer p = (if v9_hasSlIndex p then v9_slIndex p else 0)"

definition VP9_GetTemporalLayer :: "vp9_desc \<Rightarrow> u8" where
  "VP9_GetTemporalLayer p = (if v9_hasTlIndex p then v9_tlIndex p else 0)"

definition VP9_ProcessRtpPacket :: "(vp9_desc \<Rightarrow> 'h) \<Rightarrow> 'h rtp_packet \<Rightarrow> 'h rtp_packet option" where
  "VP9_ProcessRtpPacket upcast packet = do {
     _ \<leftarrow> ReadFrameMarking packet;
     r \<leftarrow> VP9_Parse (payload_bytes packet);
     case r of
       None \<Rightarrow> Some packet
     | Some p \<Rightarrow> Some (packet\<lparr>payloadDescriptorHandler := Some (upcast p)\<rparr>) }"

subsection \<open>Process\<close>

record vp9_context = encoding_context +
  v9_pictureIdManager :: "u16 seq_manager"
  v9_syncRequired :: bool

definition VP9_EncodingContext_new :: "u8 \<Rightarrow> u8 \<Rightarrow> bool \<Rightarrow> vp9_context" where
  "VP9_EncodingContext_new spatialLayers temporalLayers ksvc =
     encoding_context.extend (EncodingContext_new spatialLayers temporalLayers ksvc)
       \<lparr>v9_pictureIdManager = SeqManager_init, v9_syncRequired = False\<rparr>"

definition VP9_SyncRequired :: "vp9_context \<Rightarrow> vp9_context" where
  "VP9_SyncRequired c = c\<lparr>v9_syncRequired := True\<rparr>"

definition vp9_sync :: "vp9_desc \<Rightarrow> vp9_context \<Rightarrow> vp9_context" where
  "vp9_sync p c =
     (if v9_syncRequired c \<and> v9_hasPictureId p
      then c\<lparr>v9_pictureIdManager := Sync (v9_pictureIdManager c) (v9_pictureId p - 1), v9_syncRequired := False\<rparr> else c)"

definition vp9_isOldPacket :: "vp9_desc \<Rightarrow> vp9_context \<Rightarrow> bool" where
  "vp9_isOldPacket p c \<longleftrightarrow> v9_hasPictureId p \<and> IsSeqLowerThan (v9_pictureId p) (GetMaxInput (v9_pictureIdManager c))"

text \<open>The spatial and the temporal layer that the code keeps in \<^verbatim>\<open>tmpSpatialLayer\<close> and \<^verbatim>\<open>tmpTemporalLayer\<close>.\<close>

definition vp9_spatial_switch :: "vp9_desc \<Rightarrow> vp9_context \<Rightarrow> int \<times> int" where
  "vp9_spatial_switch p c =
     (let stay = (currentSpatialLayer c, currentTemporalLayer c); switch = (targetSpatialLayer c, 0)
      in if targetSpatialLayer c > currentSpatialLayer c then if v9_isKeyFrame p then switch else stay
         else if targetSpatialLayer c < currentSpatialLayer c then
           if ctx_ksvc c then if v9_isKeyFrame p then switch else stay
           else if int (unat (VP9_GetSpatialLayer p)) = targetSpatialLayer c \<and> v9_e p then switch else stay
         else stay)"

definition vp9_temporal_switch :: "vp9_desc \<Rightarrow> vp9_context \<Rightarrow> int \<Rightarrow> int" where
  "vp9_temporal_switch p c tmpTemporalLayer =
     (let tl = int (unat (VP9_GetTemporalLayer p))
      in if targetTemporalLayer c > currentTemporalLayer c then
           if tl \<ge> currentTemporalLayer c + 1 \<and> (currentTemporalLayer c = - 1 \<or> v9_switchingUpPoint p) \<and> v9_b p then tl
           else tmpTemporalLayer
         else if targetTemporalLayer c < currentTemporalLayer c then
           if tl = targetTemporalLayer c \<and> v9_e p then targetTemporalLayer c else tmpTemporalLayer
         else tmpTemporalLayer)"

definition vp9_update :: "vp9_desc \<Rightarrow> int \<Rightarrow> int \<Rightarrow> vp9_context \<Rightarrow> vp9_context" where
  "vp9_update p tmpSpatialLayer tmpTemporalLayer c =
     (let c = (if v9_hasPictureId p then c\<lparr>v9_pictureIdManager := snd (Input (v9_pictureIdManager c) (v9_pictureId p))\<rparr> else c)
      in SetCurrentTemporalLayer tmpTemporalLayer (SetCurrentSpatialLayer tmpSpatialLayer c))"

definition VP9_Process :: "vp9_context \<Rightarrow> vp9_desc \<Rightarrow> nat \<Rightarrow> bytes \<Rightarrow> (bool \<times> bool \<times> vp9_context \<times> bytes) option" where
  "VP9_Process c p data m =
     (let sl = int (unat (VP9_GetSpatialLayer p)); tl = int (unat (VP9_GetTemporalLayer p))
      in if targetSpatialLayer c < 0 \<or> targetTemporalLayer c < 0 then None
         else if VP9_GetSpatialLayer p \<ge> ctx_spatialLayers c \<or> VP9_GetTemporalLayer p \<ge> ctx_temporalLayers c then Some (False, False, c, m)
         else
           let c = vp9_sync p c;
               isOldPacket = vp9_isOldPacket p c;
               (tmpSpatialLayer, tmpTemporalLayer) = vp9_spatial_switch p c
           in if sl > tmpSpatialLayer \<and> \<not> isOldPacket then Some (False, False, c, m)
              else
                let tmpTemporalLayer = (if isOldPacket then tmpTemporalLayer else vp9_temporal_switch p c tmpTemporalLayer)
                in if \<not> isOldPacket \<and> tl > tmpTemporalLayer then Some (False, False, c, m)
                   else
                     let marker = (sl = tmpSpatialLayer \<and> v9_e p)
                     in Some (True, marker, vp9_update p tmpSpatialLayer tmpTemporalLayer c, m))"

subsection \<open>Parsing\<close>

lemma and7_less: "unat (x AND 7 :: u8) < 8" for x :: u8
  using word_and_le1 [of x 7] by (simp add: word_le_nat_alt)

lemma VP9_Parse_typed:
  "\<exists>r. VP9_Parse d = Some r \<and> (\<forall>p. r = Some p \<longrightarrow>
     v9_pictureId p < 0x8000 \<and> unat (v9_slIndex p) < 8 \<and> unat (v9_tlIndex p) < 8 \<and>
     (v9_isKeyFrame p \<longrightarrow> VP9_GetSpatialLayer p = 0 \<and> v9_b p \<and> \<not> v9_p p) \<and>
     (v9_hasPictureId p \<longleftrightarrow> v9_hasOneBytePictureId p \<or> v9_hasTwoBytesPictureId p))"
  by (auto simp: VP9_Parse_def and_then_def vp9_parse_header_def vp9_parse_picture_id_def vp9_parse_layers_def vp9_detect_key_frame_def
      Get1Byte_def vp9_flags_def Let_def VP9_GetSpatialLayer_def and7_less picture_id_15_bits)

lemma VP9_ProcessRtpPacket_wf:
  assumes "rtp_wf packet"
  obtains r where "VP9_Parse (payload_bytes packet) = Some r"
    "VP9_ProcessRtpPacket upcast packet = Some (case r of None \<Rightarrow> packet | Some p \<Rightarrow> packet\<lparr>payloadDescriptorHandler := Some (upcast p)\<rparr>)"
proof -
  obtain fm where "ReadFrameMarking packet = Some fm" using ReadFrameMarking_wf [OF assms] by blast
  moreover obtain r where "VP9_Parse (payload_bytes packet) = Some r" using VP9_Parse_typed by blast
  ultimately show ?thesis using that by (auto simp: VP9_ProcessRtpPacket_def split: option.splits)
qed

subsection \<open>Layer selection\<close>

lemma vp9_sync_layers [simp]:
  "targetSpatialLayer (vp9_sync p c) = targetSpatialLayer c" "targetTemporalLayer (vp9_sync p c) = targetTemporalLayer c"
  "currentSpatialLayer (vp9_sync p c) = currentSpatialLayer c" "currentTemporalLayer (vp9_sync p c) = currentTemporalLayer c"
  "ctx_ksvc (vp9_sync p c) = ctx_ksvc c" "ctx_spatialLayers (vp9_sync p c) = ctx_spatialLayers c"
  "ctx_temporalLayers (vp9_sync p c) = ctx_temporalLayers c"
  by (simp_all add: vp9_sync_def)

lemma vp9_update_layers [simp]:
  "targetSpatialLayer (vp9_update p s t c) = targetSpatialLayer c" "targetTemporalLayer (vp9_update p s t c) = targetTemporalLayer c"
  "currentSpatialLayer (vp9_update p s t c) = s" "currentTemporalLayer (vp9_update p s t c) = t"
  "ctx_ksvc (vp9_update p s t c) = ctx_ksvc c" "ctx_spatialLayers (vp9_update p s t c) = ctx_spatialLayers c"
  "ctx_temporalLayers (vp9_update p s t c) = ctx_temporalLayers c"
  by (simp_all add: vp9_update_def SetCurrentTemporalLayer_def SetCurrentSpatialLayer_def Let_def)

lemma vp9_switch_sync [simp]:
  "vp9_spatial_switch p (vp9_sync q c) = vp9_spatial_switch p c" "vp9_temporal_switch p (vp9_sync q c) t = vp9_temporal_switch p c t"
  unfolding vp9_spatial_switch_def vp9_temporal_switch_def vp9_sync_layers by (rule refl)+

lemma VP9_Process_cases:
  fixes p :: vp9_desc and spatial temporal :: int
  assumes run: "VP9_Process c p data m = Some (sent, marker, c', m')"
  defines "spatial \<equiv> int (unat (VP9_GetSpatialLayer p))" and "temporal \<equiv> int (unat (VP9_GetTemporalLayer p))"
  obtains (beyond) "\<not> sent" "\<not> marker" "c' = c" "m' = m"
      "int (unat (ctx_spatialLayers c)) \<le> spatial \<or> int (unat (ctx_temporalLayers c)) \<le> temporal"
    | (dropped) s t where "\<not> sent" "\<not> marker" "c' = vp9_sync p c" "m' = m" "spatial < int (unat (ctx_spatialLayers c))"
      "temporal < int (unat (ctx_temporalLayers c))" "\<not> vp9_isOldPacket p (vp9_sync p c)" "vp9_spatial_switch p c = (s, t)"
      "s < spatial \<or> vp9_temporal_switch p c t < temporal"
    | (sent) s t u where "sent" "marker \<longleftrightarrow> spatial = s \<and> v9_e p" "c' = vp9_update p s u (vp9_sync p c)" "m' = m"
      "spatial < int (unat (ctx_spatialLayers c))" "temporal < int (unat (ctx_temporalLayers c))" "vp9_spatial_switch p c = (s, t)"
      "u = (if vp9_isOldPacket p (vp9_sync p c) then t else vp9_temporal_switch p c t)"
      "vp9_isOldPacket p (vp9_sync p c) \<or> spatial \<le> s \<and> temporal \<le> u"
proof -
  have ge: "VP9_GetSpatialLayer p \<ge> ctx_spatialLayers c \<longleftrightarrow> int (unat (ctx_spatialLayers c)) \<le> spatial"
    "VP9_GetTemporalLayer p \<ge> ctx_temporalLayers c \<longleftrightarrow> int (unat (ctx_temporalLayers c)) \<le> temporal"
    by (simp_all add: spatial_def temporal_def word_le_def)
  obtain s t where st: "vp9_spatial_switch p c = (s, t)" by fastforce
  show ?thesis using run unfolding VP9_Process_def Let_def ge spatial_def [symmetric] temporal_def [symmetric] vp9_switch_sync st
    by (auto simp: not_le not_less split: if_splits intro: beyond dropped [OF _ _ _ _ _ _ _ st] sent [OF _ _ _ _ _ _ st])
qed

lemma VP9_Process_total:
  "0 \<le> targetSpatialLayer c \<Longrightarrow> 0 \<le> targetTemporalLayer c \<Longrightarrow> \<exists>sent marker c'. VP9_Process c p data m = Some (sent, marker, c', m)"
  by (cases "vp9_spatial_switch p c") (auto simp: VP9_Process_def Let_def)

lemma VP9_Process_targets:
  assumes "VP9_Process c p data m = Some (sent, marker, c', m')"
  shows "targetSpatialLayer c' = targetSpatialLayer c" "targetTemporalLayer c' = targetTemporalLayer c"
  using assms by (cases rule: VP9_Process_cases; simp)+

lemma vp9_isOldPacket_sync:
  "vp9_isOldPacket p (vp9_sync p c) \<longleftrightarrow>
     v9_hasPictureId p \<and> \<not> v9_syncRequired c \<and> IsSeqLowerThan (v9_pictureId p) (GetMaxInput (v9_pictureIdManager c))"
proof -
  have "\<not> IsSeqLowerThan x (x - 1)" for x :: u16
    unfolding IsSeqLowerThan_swap by (rule seq.gt_asym, rule seq.gt_near) simp_all
  then show ?thesis by (auto simp: vp9_isOldPacket_def vp9_sync_def GetMaxInput_def Sync_def)
qed

lemma vp9_switches:
  fixes p c
  defines "switch \<equiv> currentSpatialLayer c \<noteq> targetSpatialLayer c \<and>
    (if currentSpatialLayer c < targetSpatialLayer c \<or> ctx_ksvc c then v9_isKeyFrame p
     else int (unat (VP9_GetSpatialLayer p)) = targetSpatialLayer c \<and> v9_e p)"
  shows "vp9_spatial_switch p c = (if switch then (targetSpatialLayer c, 0) else (currentSpatialLayer c, currentTemporalLayer c))"
  by (auto simp: vp9_spatial_switch_def switch_def Let_def)

text \<open>C39: What \<open>Process\<close> does with a packet when the targets are set. A packet is old when it has a picture id lower than the highest one
  and no synchronization is pending. The spatial layer switches to the target exactly on a key frame or, going down without K-SVC, at the end of
  a frame of the target layer, and the temporal layer restarts at 0; on a packet that is not old the temporal layer climbs exactly when the
  target is above it and the packet begins a frame of a higher layer that is a switching up point (or no layer was sent yet), and falls to
  the target exactly at the end of a frame of the target layer. A packet is sent exactly when it lies inside the announced layers and is
  old or not above the layers so chosen; then these are the current ones and the marker tells the end of a frame of the top spatial
  layer; otherwise no layer changes. The payload and the targets are kept, a packet beyond the announced layers changes nothing, and a picture id
  ends a pending synchronization.\<close>

theorem VP9_Process_spec:
  fixes p :: vp9_desc and spatial temporal :: int
  assumes "0 \<le> targetSpatialLayer c" "0 \<le> targetTemporalLayer c"
  defines "spatial \<equiv> int (unat (VP9_GetSpatialLayer p))" and "temporal \<equiv> int (unat (VP9_GetTemporalLayer p))"
  defines "inside \<equiv> spatial < int (unat (ctx_spatialLayers c)) \<and> temporal < int (unat (ctx_temporalLayers c))"
    and "old \<equiv> v9_hasPictureId p \<and> \<not> v9_syncRequired c \<and> IsSeqLowerThan (v9_pictureId p) (GetMaxInput (v9_pictureIdManager c))"
    and "switch \<equiv> currentSpatialLayer c \<noteq> targetSpatialLayer c \<and>
      (if currentSpatialLayer c < targetSpatialLayer c \<or> ctx_ksvc c then v9_isKeyFrame p else spatial = targetSpatialLayer c \<and> v9_e p)"
    and "climb \<equiv> currentTemporalLayer c < targetTemporalLayer c \<and> currentTemporalLayer c < temporal \<and>
      (currentTemporalLayer c = - 1 \<or> v9_switchingUpPoint p) \<and> v9_b p"
    and "fall \<equiv> targetTemporalLayer c < currentTemporalLayer c \<and> temporal = targetTemporalLayer c \<and> v9_e p"
  defines "S \<equiv> if switch then targetSpatialLayer c else currentSpatialLayer c"
    and "T \<equiv> if \<not> old \<and> climb then temporal else if \<not> old \<and> fall then targetTemporalLayer c
      else if switch then 0 else currentTemporalLayer c"
  shows "\<exists>sent marker c'. VP9_Process c p data m = Some (sent, marker, c', m) \<and>
    (sent \<longleftrightarrow> inside \<and> (old \<or> spatial \<le> S \<and> temporal \<le> T)) \<and> (marker \<longleftrightarrow> sent \<and> spatial = S \<and> v9_e p) \<and>
    currentSpatialLayer c' = (if sent then S else currentSpatialLayer c) \<and> currentTemporalLayer c' = (if sent then T else currentTemporalLayer c) \<and>
    targetSpatialLayer c' = targetSpatialLayer c \<and> targetTemporalLayer c' = targetTemporalLayer c \<and>
    (\<not> inside \<longrightarrow> c' = c) \<and> (inside \<and> v9_hasPictureId p \<longrightarrow> \<not> v9_syncRequired c')"
proof -
  obtain sent marker c' where run: "VP9_Process c p data m = Some (sent, marker, c', m)"
    using VP9_Process_total [OF assms(1,2)] by blast
  let ?t = "if switch then 0 else currentTemporalLayer c"
  have st: "vp9_spatial_switch p c = (S, ?t)" unfolding S_def switch_def spatial_def by (subst vp9_switches) simp
  have tt: "vp9_temporal_switch p c ?t = (if climb then temporal else if fall then targetTemporalLayer c else ?t)"
    by (auto simp: vp9_temporal_switch_def climb_def fall_def temporal_def Let_def)
  have o: "vp9_isOldPacket p (vp9_sync p c) \<longleftrightarrow> old" unfolding old_def by (rule vp9_isOldPacket_sync)
  have sy: "v9_hasPictureId p \<longrightarrow> \<not> v9_syncRequired (vp9_sync p c)" "v9_syncRequired (vp9_update p x y d) = v9_syncRequired d" for x y d
    by (simp_all add: vp9_sync_def vp9_update_def SetCurrentTemporalLayer_def SetCurrentSpatialLayer_def Let_def)
  from run show ?thesis
  proof (cases rule: VP9_Process_cases)
    case beyond
    then have "\<not> inside" unfolding inside_def spatial_def temporal_def by linarith
    with beyond(1-3) run show ?thesis by auto
  next
    case (dropped s t)
    have st': "s = S" "t = ?t" using dropped(8) st by simp_all
    have "inside" using dropped(5,6) unfolding inside_def spatial_def temporal_def by blast
    moreover have "\<not> old" using dropped(7) o by simp
    moreover have "S < spatial \<or> T < temporal"
      using dropped(9) \<open>\<not> old\<close> unfolding st' tt T_def spatial_def temporal_def by (auto split: if_splits)
    ultimately show ?thesis using dropped(1-3) run sy(1) by (intro exI [of _ sent] exI [of _ marker] exI [of _ c']) auto
  next
    case (sent s t u)
    have st': "s = S" "t = ?t" using sent(7) st by simp_all
    have "inside" using sent(5,6) unfolding inside_def spatial_def temporal_def by blast
    moreover have u: "u = T" using sent(8) unfolding o st' tt T_def by (auto split: if_splits)
    moreover have "old \<or> spatial \<le> S \<and> temporal \<le> T" using sent(9) unfolding o st' u spatial_def temporal_def by blast
    ultimately show ?thesis using sent(1-3) run sy st'(1) unfolding spatial_def [symmetric] by (intro exI [of _ "True"] exI [of _ marker] exI [of _ c']) auto
  qed
qed

definition vp9_sample :: "bool \<Rightarrow> bool \<Rightarrow> u8 \<Rightarrow> vp9_desc" where
  "vp9_sample key up layer = (vp9_flags (if key then 0x2C else 0x6C))\<lparr>v9_isKeyFrame := key, v9_tlIndex := layer, v9_switchingUpPoint := up,
     v9_hasSlIndex := True, v9_hasTlIndex := True\<rparr>"

lemmas vp9_sample_simps = vp9_sample_def vp9_flags_def VP9_GetSpatialLayer_def VP9_GetTemporalLayer_def SetTargetSpatialLayer_def
  SetTargetTemporalLayer_def SetCurrentSpatialLayer_def SetCurrentTemporalLayer_def VP9_EncodingContext_new_def EncodingContext_new_def
  encoding_context.extend_def

theorem VP9_Process_spec_witness:
  "let c = SetTargetSpatialLayer 2 (SetTargetTemporalLayer 1 (VP9_EncodingContext_new 3 3 False));
       d = SetCurrentSpatialLayer 2 (SetCurrentTemporalLayer 0 c)
   in (\<exists>marker c'. VP9_Process c (vp9_sample True False 0) 12 [] = Some (True, marker, c', []) \<and> \<not> marker \<and> currentSpatialLayer c' = 2) \<and>
      (\<exists>marker c'. VP9_Process d (vp9_sample False False 1) 12 [] = Some (False, marker, c', [])) \<and>
      (\<exists>marker c'. VP9_Process d (vp9_sample False True 1) 12 [] = Some (True, marker, c', []) \<and> currentTemporalLayer c' = 1)"
proof -
  define c where "c = SetTargetSpatialLayer 2 (SetTargetTemporalLayer 1 (VP9_EncodingContext_new 3 3 False))"
  define d where "d = SetCurrentSpatialLayer 2 (SetCurrentTemporalLayer 0 c)"
  have t: "0 \<le> targetSpatialLayer c" "0 \<le> targetTemporalLayer c" "0 \<le> targetSpatialLayer d" "0 \<le> targetTemporalLayer d"
    by (simp_all add: c_def d_def vp9_sample_simps)
  have "\<exists>marker c'. VP9_Process c (vp9_sample True False 0) 12 [] = Some (True, marker, c', []) \<and> \<not> marker \<and> currentSpatialLayer c' = 2"
    using VP9_Process_spec [OF t(1,2), of "vp9_sample True False 0" 12 "[]"] by (auto simp: c_def vp9_sample_simps cong: if_cong)
  moreover have "\<exists>marker c'. VP9_Process d (vp9_sample False False 1) 12 [] = Some (False, marker, c', [])"
    using VP9_Process_spec [OF t(3,4), of "vp9_sample False False 1" 12 "[]"] by (auto simp: c_def d_def vp9_sample_simps cong: if_cong)
  moreover have "\<exists>marker c'. VP9_Process d (vp9_sample False True 1) 12 [] = Some (True, marker, c', []) \<and> currentTemporalLayer c' = 1"
    using VP9_Process_spec [OF t(3,4), of "vp9_sample False True 1" 12 "[]"] by (auto simp: c_def d_def vp9_sample_simps cong: if_cong)
  ultimately show ?thesis unfolding Let_def c_def d_def by blast
qed

text \<open>A temporal upgrade goes to the layer of the packet, which may be above the target.\<close>

lemma vp9_upgrade_beyond_target:
  "let c = SetCurrentSpatialLayer 0 (SetCurrentTemporalLayer 0 (SetTargetSpatialLayer 0 (SetTargetTemporalLayer 1 (VP9_EncodingContext_new 1 3 False))))
   in targetTemporalLayer c = 1 \<and>
      (case VP9_Process c (vp9_sample False True 2) 12 [] of
         None \<Rightarrow> False | Some (sent, _, c', _) \<Rightarrow> sent \<and> currentTemporalLayer c' = 2)"
  by (simp add: Let_def VP9_Process_def vp9_spatial_switch_def vp9_temporal_switch_def vp9_sample_def vp9_flags_def VP9_GetSpatialLayer_def
      VP9_GetTemporalLayer_def SetTargetSpatialLayer_def SetTargetTemporalLayer_def SetCurrentSpatialLayer_def SetCurrentTemporalLayer_def
      VP9_EncodingContext_new_def EncodingContext_new_def encoding_context.extend_def vp9_sync_def vp9_isOldPacket_def vp9_update_def)

end
