(* ===== verification/Codecs_H264.thy ===== *)
theory Codecs_H264
  imports Codecs
begin

text \<open>
  \<^verbatim>\<open>RTC::Codecs::H264\<close> (\<^verbatim>\<open>src/RTC/Codecs/H264.cpp\<close>): the frame marking extension and the NAL units of an H.264 payload give the
  temporal layer of a packet and whether it starts a key frame.
\<close>

subsection \<open>Payload descriptor\<close>

record h264_desc =
  h_s :: bool
  h_e :: bool
  h_i :: bool
  h_d :: bool
  h_b :: bool
  h_tid :: u8
  h_lid :: u8
  h_tl0picidx :: u8
  h_hasLid :: bool
  h_hasTid :: bool
  h_hasTl0picidx :: bool
  h_isKeyFrame :: bool

definition h264_desc_new :: h264_desc where
  "h264_desc_new = \<lparr>h_s = False, h_e = False, h_i = False, h_d = False, h_b = False, h_tid = 0, h_lid = 0, h_tl0picidx = 0,
     h_hasLid = False, h_hasTid = False, h_hasTl0picidx = False, h_isKeyFrame = False\<rparr>"

text \<open>The bit fields of \<^verbatim>\<open>RtpPacket::FrameMarking\<close>; the extension is given by the memory of the packet, the position and the length.\<close>

definition h264_frame_marking :: "bytes \<Rightarrow> nat \<Rightarrow> u8 \<Rightarrow> h264_desc option" where
  "h264_frame_marking m v len = do {
     b \<leftarrow> Get1Byte m v;
     let p = h264_desc_new\<lparr>h_s := bit b 7, h_e := bit b 6, h_i := bit b 5, h_d := bit b 4, h_b := bit b 3, h_tid := b AND 7, h_hasTid := True\<rparr>;
     p \<leftarrow> (if len \<ge> 2 then do { lid \<leftarrow> Get1Byte m (v + 1); Some (p\<lparr>h_hasLid := True, h_lid := lid\<rparr>) } else Some p);
     p \<leftarrow> (if len = 3 then do { tl0 \<leftarrow> Get1Byte m (v + 2); Some (p\<lparr>h_hasTl0picidx := True, h_tl0picidx := tl0\<rparr>) } else Some p);
     Some (if h_s p \<and> h_i p then p\<lparr>h_isKeyFrame := True\<rparr> else p) }"

text \<open>The loop over the NAL units of a STAP-A packet.\<close>

function stap_a_loop :: "bytes \<Rightarrow> nat \<Rightarrow> nat \<Rightarrow> bool option" where
  "stap_a_loop d offset len =
     (if len \<ge> 3 then
        case (Get2Bytes d offset, Get1Byte d (offset + 2)) of
          (Some naluSize, Some b) \<Rightarrow>
            if b AND 0x1F = 7 then Some True
            else if len < unat naluSize + 2 then Some False
            else stap_a_loop d (offset + (unat naluSize + 2)) (len - (unat naluSize + 2))
        | _ \<Rightarrow> None
      else Some False)"
  by pat_completeness auto

termination
  by (relation "measure (\<lambda>(d, offset, len). len)") auto

declare stap_a_loop.simps [simp del]

definition h264_payload_key_frame :: "bytes \<Rightarrow> bool option" where
  "h264_payload_key_frame d = do {
     b \<leftarrow> Get1Byte d 0;
     let nal = b AND 0x1F;
     if nal = 7 then Some True
     else if nal = 24 then stap_a_loop d 1 (length d - 1)
     else if nal = 28 \<or> nal = 29 then do {
       b1 \<leftarrow> Get1Byte d 1;
       Some (b1 AND 0x1F = 7 \<and> b1 AND 0x80 = 128) }
     else Some False }"

definition H264_Parse :: "bytes \<Rightarrow> (bytes \<times> nat \<times> u8) option \<Rightarrow> h264_desc option option" where
  "H264_Parse d frameMarking =
     (if length d < 2 then Some None
      else do {
        p \<leftarrow> (case frameMarking of None \<Rightarrow> Some h264_desc_new | Some (m, v, len) \<Rightarrow> h264_frame_marking m v len);
        if frameMarking = None \<or> \<not> h_isKeyFrame p then do {
          key \<leftarrow> h264_payload_key_frame d;
          Some (Some (if key then p\<lparr>h_isKeyFrame := True\<rparr> else p)) }
        else Some (Some p) })"

definition H264_ProcessRtpPacket :: "(h264_desc \<Rightarrow> 'h) \<Rightarrow> 'h rtp_packet \<Rightarrow> 'h rtp_packet option" where
  "H264_ProcessRtpPacket upcast packet = do {
     frameMarking \<leftarrow> ReadFrameMarking packet;
     r \<leftarrow> H264_Parse (payload_bytes packet) (map_option (\<lambda>(v, len). (rtp_mem packet, v, len)) frameMarking);
     case r of
       None \<Rightarrow> Some packet
     | Some p \<Rightarrow> Some (packet\<lparr>payloadDescriptorHandler := Some (upcast p)\<rparr>) }"

subsection \<open>Process\<close>

type_synonym h264_context = encoding_context

definition H264_SyncRequired :: "h264_context \<Rightarrow> h264_context" where
  "H264_SyncRequired c = c"

definition h264_update_layer :: "h264_desc \<Rightarrow> h264_context \<Rightarrow> h264_context" where
  "h264_update_layer p c =
     (let c = (if h_hasTid p \<and> int (unat (h_tid p)) > currentTemporalLayer c then SetCurrentTemporalLayer (int (unat (h_tid p))) c
               else if \<not> h_hasTid p then SetCurrentTemporalLayer 0 c else c)
      in if currentTemporalLayer c > targetTemporalLayer c then SetCurrentTemporalLayer (targetTemporalLayer c) c else c)"

definition H264_Process :: "h264_context \<Rightarrow> h264_desc \<Rightarrow> nat \<Rightarrow> bytes \<Rightarrow> (bool \<times> bool \<times> h264_context \<times> bytes) option" where
  "H264_Process c p data m =
     (if targetTemporalLayer c < 0 then None
      else if h_hasTid p \<and> int (unat (h_tid p)) > targetTemporalLayer c then Some (False, False, c, m)
      else if h_hasTid p \<and> int (unat (h_tid p)) > currentTemporalLayer c \<and> \<not> h_b p then Some (False, False, c, m)
      else Some (True, False, h264_update_layer p c, m))"

subsection \<open>Parsing stays inside the payload\<close>

lemma stap_a_loop_safe: "offset + len \<le> length d \<Longrightarrow> \<exists>key. stap_a_loop d offset len = Some key"
proof (induction d offset len rule: stap_a_loop.induct)
  case (1 d offset len)
  show ?case
  proof (cases "len \<ge> 3")
    case True
    then obtain n b where nb: "Get2Bytes d offset = Some n" "Get1Byte d (offset + 2) = Some b"
      using 1(2) byte2.get_ex [of offset d] by (auto simp: Get1Byte_def)
    show ?thesis using True 1 nb by (subst stap_a_loop.simps) auto
  qed (auto simp: stap_a_loop.simps)
qed

lemma H264_Parse_typed:
  assumes "\<And>m v len. fm = Some (m, v, len) \<Longrightarrow> v + unat len \<le> length m \<and> len \<noteq> 0"
  shows "\<exists>r. H264_Parse d fm = Some r \<and> (\<forall>p. r = Some p \<longrightarrow> unat (h_tid p) < 8)"
proof -
  have fmk: "\<exists>p. h264_frame_marking m v len = Some p \<and> unat (h_tid p) < 8" if "fm = Some (m, v, len)" for m v len
  proof -
    have "v + unat len \<le> length m" "0 < unat len" using assms [OF that] by (auto simp: unat_gt_0)
    moreover have "2 \<le> len \<Longrightarrow> 2 \<le> unat len" by (simp add: word_le_nat_alt)
    moreover have "unat (x AND 7) < 8" for x :: u8 using word_and_le1 [of x 7] by (simp add: word_le_nat_alt)
    ultimately show ?thesis by (auto simp: h264_frame_marking_def Get1Byte_def h264_desc_new_def Let_def)
  qed
  have "\<exists>k. h264_payload_key_frame d = Some k" if "2 \<le> length d"
    using that stap_a_loop_safe [of 1 "length d - 1" d] by (auto simp: h264_payload_key_frame_def Get1Byte_def Let_def)
  then show ?thesis using fmk
    by (cases fm) (fastforce simp: H264_Parse_def h264_desc_new_def not_less)+
qed

lemma H264_ProcessRtpPacket_wf:
  assumes "rtp_wf packet"
  obtains r where
    "H264_ProcessRtpPacket upcast packet = Some (case r of None \<Rightarrow> packet | Some p \<Rightarrow> packet\<lparr>payloadDescriptorHandler := Some (upcast p)\<rparr>)"
    "\<And>p. r = Some p \<Longrightarrow> unat (h_tid p) < 8"
proof -
  obtain fm where fm: "ReadFrameMarking packet = Some fm" "\<And>v len. fm = Some (v, len) \<Longrightarrow> v + unat len \<le> payload packet \<and> len \<noteq> 0"
    using ReadFrameMarking_wf [OF assms] by blast
  let ?fm = "map_option (\<lambda>(v, len). (rtp_mem packet, v, len)) fm"
  obtain r where "H264_Parse (payload_bytes packet) ?fm = Some r" "\<forall>p. r = Some p \<longrightarrow> unat (h_tid p) < 8"
    using H264_Parse_typed [of ?fm "payload_bytes packet"] fm(2) rtp_wf_facts(2,3) [OF assms] by fastforce
  with fm(1) show ?thesis using that [of r] by (cases r) (auto simp: H264_ProcessRtpPacket_def)
qed

subsection \<open>Layers\<close>

text \<open>A packet that is sent belongs to a layer up to the target, and the current layer never exceeds the target afterwards.\<close>

lemma H264_Process_spec:
  assumes "H264_Process c p data m = Some (sent, marker, c', m')"
  shows "m' = m" "\<not> marker" "targetTemporalLayer c' = targetTemporalLayer c" "\<not> sent \<Longrightarrow> c' = c"
    "sent \<Longrightarrow> currentTemporalLayer c' \<le> targetTemporalLayer c'"
    "sent \<Longrightarrow> h_hasTid p \<Longrightarrow> int (unat (h_tid p)) \<le> currentTemporalLayer c'"
  using assms by (auto simp: H264_Process_def h264_update_layer_def SetCurrentTemporalLayer_def Let_def split: if_splits)

lemma H264_Process_total: "0 \<le> targetTemporalLayer c \<Longrightarrow> \<exists>sent c'. H264_Process c p data m = Some (sent, False, c', m)"
  by (auto simp: H264_Process_def)

subsection \<open>Aggregated NAL units\<close>

text \<open>The body of a STAP-A packet (RFC 6184): each NAL unit behind its size.\<close>

definition stap_a :: "bytes list \<Rightarrow> bytes" where
  "stap_a nals = concat (map (\<lambda>n. put2 (of_nat (length n)) @ n) nals)"

lemma stap_a_loop_finds:
  assumes "\<And>n. n \<in> set nals \<Longrightarrow> n \<noteq> [] \<and> length n < 2 ^ 16"
  shows "stap_a_loop (pre @ stap_a nals) (length pre) (length (stap_a nals)) = Some (\<exists>n \<in> set nals. hd n AND 0x1F = 7)"
  using assms
proof (induction nals arbitrary: pre)
  case Nil
  then show ?case by (simp add: stap_a_def stap_a_loop.simps)
next
  case (Cons n nals)
  let ?pre = "pre @ put2 (of_nat (length n)) @ n"
  have n: "n \<noteq> []" "length n < 2 ^ 16" using Cons.prems by auto
  have d: "pre @ stap_a (n # nals) = ?pre @ stap_a nals" "length (stap_a (n # nals)) = length n + 2 + length (stap_a nals)"
    by (simp_all add: stap_a_def byte2.length_put)
  have len: "unat (of_nat (length n) :: u16) = length n" using n(2) by (simp add: unsigned_of_nat take_bit_nat_eq_self)
  have g2: "Get2Bytes (?pre @ stap_a nals) (length pre) = Some (of_nat (length n))" by (simp add: byte2.get_skip wire)
  have g1: "Get1Byte (?pre @ stap_a nals) (length pre + 2) = Some (hd n)"
    using n(1) by (simp add: Get1Byte_def nth_append byte2.length_put hd_conv_nth)
  have "length ?pre = length pre + (length n + 2)" by (simp add: byte2.length_put)
  then have rec: "stap_a_loop (?pre @ stap_a nals) (length pre + (length n + 2)) (length (stap_a nals)) = Some (\<exists>n \<in> set nals. hd n AND 0x1F = 7)"
    using Cons.IH [of ?pre] Cons.prems by simp
  have "3 \<le> length n + 2 + length (stap_a nals)" using n(1) by (cases n) auto
  then show ?case unfolding d using g1 g2 len rec by (subst stap_a_loop.simps) simp
qed

text \<open>What the frame marking extension, if there is one, says about the packet: it starts an independent frame.\<close>

definition marked_key_frame :: "(bytes \<times> nat \<times> u8) option \<Rightarrow> bool" where
  "marked_key_frame fm = (case fm of None \<Rightarrow> False | Some (m, v, len) \<Rightarrow> bit (m ! v) 7 \<and> bit (m ! v) 5)"

lemma h264_frame_marking_eq:
  assumes "v + max 1 (unat len) \<le> length m"
  shows "\<exists>p. h264_frame_marking m v len = Some p \<and> h_isKeyFrame p = marked_key_frame (Some (m, v, len)) \<and> h_hasTid p \<and> h_tid p = m ! v AND 7"
proof -
  have "v < length m" "2 \<le> len \<longrightarrow> v + 1 < length m" "len = 3 \<longrightarrow> v + 2 < length m" using assms by (auto simp: word_le_nat_alt)
  then show ?thesis by (auto simp: h264_frame_marking_def Get1Byte_def Let_def marked_key_frame_def h264_desc_new_def)
qed

text \<open>C40: For every list of NAL units that fit their size fields, the aggregation packet (STAP-A) of them is parsed as a key frame
  exactly when its frame marking, if it has one (inside the packet), says that it starts an independent frame, or one of the units is a sequence
  parameter set (type 7), whatever the units hold and in whatever order they are; the temporal layer is the one of the frame marking.\<close>

theorem H264_Parse_stap_a:
  assumes "\<forall>n \<in> set nals. n \<noteq> [] \<and> length n < 2 ^ 16" and "nals \<noteq> []" and "header AND 0x1F = 24"
    and fm: "\<And>m v len. fm = Some (m, v, len) \<Longrightarrow> v + max 1 (unat len) \<le> length m"
  shows "\<exists>p. H264_Parse (header # stap_a nals) fm = Some (Some p) \<and>
    (h_isKeyFrame p \<longleftrightarrow> marked_key_frame fm \<or> (\<exists>n \<in> set nals. hd n AND 0x1F = 7)) \<and>
    (case fm of None \<Rightarrow> \<not> h_hasTid p | Some (m, v, len) \<Rightarrow> h_hasTid p \<and> h_tid p = m ! v AND 7)"
proof -
  obtain n ns where "nals = n # ns" using assms(2) by (cases nals) auto
  then have ne: "stap_a nals \<noteq> []" by (auto simp: stap_a_def dest: arg_cong [of _ "[]" length] simp: byte2.length_put)
  have "stap_a_loop (header # stap_a nals) 1 (length (stap_a nals)) = Some (\<exists>n \<in> set nals. hd n AND 0x1F = 7)"
    using stap_a_loop_finds [of nals "[header]"] assms(1) by simp
  then have key: "h264_payload_key_frame (header # stap_a nals) = Some (\<exists>n \<in> set nals. hd n AND 0x1F = 7)"
    using assms(3) by (simp add: h264_payload_key_frame_def)
  show ?thesis
  proof (cases fm)
    case None
    then show ?thesis using ne key by (auto simp: H264_Parse_def marked_key_frame_def h264_desc_new_def)
  next
    case (Some x)
    obtain m v len where x: "x = (m, v, len)" by (cases x)
    from h264_frame_marking_eq [OF fm, of m v len] obtain p where "h264_frame_marking m v len = Some p"
      "h_isKeyFrame p = marked_key_frame (Some (m, v, len))" "h_hasTid p" "h_tid p = m ! v AND 7" using Some x by auto
    then show ?thesis using ne key Some x by (auto simp: H264_Parse_def)
  qed
qed

theorem H264_Parse_stap_a_witness:
  "(\<exists>p. H264_Parse (24 # stap_a [[9, 16], [0x67, 66, 0], [0x68]]) None = Some (Some p) \<and> h_isKeyFrame p) \<and>
   (\<exists>p. H264_Parse (24 # stap_a [[9, 16], [0x68]]) (Some ([0xA1, 0], 0, 2)) = Some (Some p) \<and> h_isKeyFrame p \<and> h_tid p = 1) \<and>
   (\<exists>p. H264_Parse (24 # stap_a [[9, 16], [0x68]]) (Some ([0x81, 0], 0, 2)) = Some (Some p) \<and> \<not> h_isKeyFrame p)"
  using H264_Parse_stap_a [of "[[9, 16], [0x67, 66, 0], [0x68]]" 24 None] H264_Parse_stap_a [of "[[9, 16], [0x68]]" 24 "Some ([0xA1, 0], 0, 2)"]
    H264_Parse_stap_a [of "[[9, 16], [0x68]]" 24 "Some ([0x81, 0], 0, 2)"]
  by (auto simp: marked_key_frame_def bit_iff_odd)

end
