(* ===== verification/Codecs_Tools.thy ===== *)
theory Codecs_Tools
  imports Codecs_VP8 Codecs_VP9 Codecs_H264
begin

text \<open>
  \<^verbatim>\<open>RTC::Codecs::Tools\<close> (\<^verbatim>\<open>include/RTC/Codecs/Tools.hpp\<close>): the codec of a stream selects how its packets are parsed and which encoding
  context a consumer gets. The virtual methods of handlers and contexts are dispatched here over the classes of the three codecs; the handler
  casts the context it gets to the class of its own codec, which is undefined (\<open>None\<close>) for another one.
\<close>

subsection \<open>Mime types\<close>

datatype mime_type = MIME_UNSET | MIME_AUDIO | MIME_VIDEO

datatype mime_subtype =
  SUB_UNSET | SUB_OPUS | SUB_PCMA | SUB_PCMU | SUB_ISAC | SUB_G722 | SUB_ILBC | SUB_SILK
| SUB_VP8 | SUB_VP9 | SUB_H264 | SUB_X_H264UC | SUB_H265
| SUB_CN | SUB_TELEPHONE_EVENT
| SUB_RTX | SUB_ULPFEC | SUB_X_ULPFECUC | SUB_FLEXFEC | SUB_RED

record mime =
  mime_ty :: mime_type
  mime_sub :: mime_subtype

datatype rtp_parameters_type = TYPE_NONE | TYPE_SIMPLE | TYPE_SIMULCAST | TYPE_SVC | TYPE_PIPE

fun subtype_value :: "mime_subtype \<Rightarrow> nat" where
  "subtype_value SUB_UNSET = 0"
| "subtype_value SUB_OPUS = 100"
| "subtype_value SUB_PCMA = 101"
| "subtype_value SUB_PCMU = 102"
| "subtype_value SUB_ISAC = 103"
| "subtype_value SUB_G722 = 104"
| "subtype_value SUB_ILBC = 105"
| "subtype_value SUB_SILK = 106"
| "subtype_value SUB_VP8 = 200"
| "subtype_value SUB_VP9 = 201"
| "subtype_value SUB_H264 = 202"
| "subtype_value SUB_X_H264UC = 203"
| "subtype_value SUB_H265 = 204"
| "subtype_value SUB_CN = 300"
| "subtype_value SUB_TELEPHONE_EVENT = 301"
| "subtype_value SUB_RTX = 400"
| "subtype_value SUB_ULPFEC = 401"
| "subtype_value SUB_X_ULPFECUC = 402"
| "subtype_value SUB_FLEXFEC = 403"
| "subtype_value SUB_RED = 404"

definition IsMediaCodec :: "mime \<Rightarrow> bool" where
  "IsMediaCodec t \<longleftrightarrow> subtype_value (mime_sub t) \<ge> 100 \<and> subtype_value (mime_sub t) < 300"

definition IsComplementaryCodec :: "mime \<Rightarrow> bool" where
  "IsComplementaryCodec t \<longleftrightarrow> subtype_value (mime_sub t) \<ge> 300 \<and> subtype_value (mime_sub t) < 400"

definition IsFeatureCodec :: "mime \<Rightarrow> bool" where
  "IsFeatureCodec t \<longleftrightarrow> subtype_value (mime_sub t) \<ge> 400"

subsection \<open>Tools\<close>

datatype codec_handler = VP8_Handler vp8_desc | VP9_Handler vp9_desc | H264_Handler h264_desc

datatype codec_context = VP8_Context vp8_context | VP9_Context vp9_context | H264_Context h264_context

definition CanBeKeyFrame :: "mime \<Rightarrow> bool" where
  "CanBeKeyFrame t = (case mime_ty t of MIME_VIDEO \<Rightarrow> mime_sub t \<in> {SUB_VP8, SUB_VP9, SUB_H264} | _ \<Rightarrow> False)"

definition Tools_ProcessRtpPacket :: "mime \<Rightarrow> codec_handler rtp_packet \<Rightarrow> codec_handler rtp_packet option" where
  "Tools_ProcessRtpPacket t packet = (case mime_ty t of
       MIME_VIDEO \<Rightarrow> (case mime_sub t of
           SUB_VP8 \<Rightarrow> VP8_ProcessRtpPacket VP8_Handler packet
         | SUB_VP9 \<Rightarrow> VP9_ProcessRtpPacket VP9_Handler packet
         | SUB_H264 \<Rightarrow> H264_ProcessRtpPacket H264_Handler packet
         | _ \<Rightarrow> Some packet)
     | _ \<Rightarrow> Some packet)"

definition IsValidTypeForCodec :: "rtp_parameters_type \<Rightarrow> mime \<Rightarrow> bool" where
  "IsValidTypeForCodec type t = (case type of
       TYPE_NONE \<Rightarrow> False
     | TYPE_SIMPLE \<Rightarrow> True
     | TYPE_SIMULCAST \<Rightarrow> (case mime_ty t of MIME_VIDEO \<Rightarrow> mime_sub t \<in> {SUB_VP8, SUB_H264} | _ \<Rightarrow> False)
     | TYPE_SVC \<Rightarrow> (case mime_ty t of MIME_VIDEO \<Rightarrow> mime_sub t = SUB_VP9 | _ \<Rightarrow> False)
     | TYPE_PIPE \<Rightarrow> True)"

definition GetEncodingContext :: "mime \<Rightarrow> u8 \<Rightarrow> u8 \<Rightarrow> bool \<Rightarrow> codec_context option" where
  "GetEncodingContext t spatialLayers temporalLayers ksvc = (case mime_ty t of
       MIME_VIDEO \<Rightarrow> (case mime_sub t of
           SUB_VP8 \<Rightarrow> Some (VP8_Context (VP8_EncodingContext_new spatialLayers temporalLayers ksvc))
         | SUB_VP9 \<Rightarrow> Some (VP9_Context (VP9_EncodingContext_new spatialLayers temporalLayers ksvc))
         | SUB_H264 \<Rightarrow> Some (H264_Context (EncodingContext_new spatialLayers temporalLayers ksvc))
         | _ \<Rightarrow> None)
     | _ \<Rightarrow> None)"

subsection \<open>Virtual methods\<close>

fun codec_Process :: "codec_context \<Rightarrow> codec_handler \<Rightarrow> nat \<Rightarrow> bytes \<Rightarrow> (bool \<times> bool \<times> codec_context \<times> bytes) option" where
  "codec_Process (VP8_Context c) (VP8_Handler p) data m = map_option (\<lambda>(s, k, c, m). (s, k, VP8_Context c, m)) (VP8_Process c p data m)"
| "codec_Process (VP9_Context c) (VP9_Handler p) data m = map_option (\<lambda>(s, k, c, m). (s, k, VP9_Context c, m)) (VP9_Process c p data m)"
| "codec_Process (H264_Context c) (H264_Handler p) data m = map_option (\<lambda>(s, k, c, m). (s, k, H264_Context c, m)) (H264_Process c p data m)"
| "codec_Process _ _ data m = None"

fun codec_Restore :: "codec_handler \<Rightarrow> nat \<Rightarrow> bytes \<Rightarrow> bytes option" where
  "codec_Restore (VP8_Handler p) data m = VP8_Restore p data m"
| "codec_Restore (VP9_Handler p) data m = Some m"
| "codec_Restore (H264_Handler p) data m = Some m"

fun codec_GetSpatialLayer :: "codec_handler \<Rightarrow> u8" where
  "codec_GetSpatialLayer (VP8_Handler p) = 0"
| "codec_GetSpatialLayer (VP9_Handler p) = VP9_GetSpatialLayer p"
| "codec_GetSpatialLayer (H264_Handler p) = 0"

fun codec_GetTemporalLayer :: "codec_handler \<Rightarrow> u8" where
  "codec_GetTemporalLayer (VP8_Handler p) = VP8_GetTemporalLayer p"
| "codec_GetTemporalLayer (VP9_Handler p) = VP9_GetTemporalLayer p"
| "codec_GetTemporalLayer (H264_Handler p) = h_tid p"

fun codec_IsKeyFrame :: "codec_handler \<Rightarrow> bool" where
  "codec_IsKeyFrame (VP8_Handler p) = v8_isKeyFrame p"
| "codec_IsKeyFrame (VP9_Handler p) = v9_isKeyFrame p"
| "codec_IsKeyFrame (H264_Handler p) = h_isKeyFrame p"

fun codec_SyncRequired :: "codec_context \<Rightarrow> codec_context" where
  "codec_SyncRequired (VP8_Context c) = VP8_Context (VP8_SyncRequired c)"
| "codec_SyncRequired (VP9_Context c) = VP9_Context (VP9_SyncRequired c)"
| "codec_SyncRequired (H264_Context c) = H264_Context (H264_SyncRequired c)"

fun codec_SetTargetSpatialLayer :: "int \<Rightarrow> codec_context \<Rightarrow> codec_context" where
  "codec_SetTargetSpatialLayer l (VP8_Context c) = VP8_Context (SetTargetSpatialLayer l c)"
| "codec_SetTargetSpatialLayer l (VP9_Context c) = VP9_Context (SetTargetSpatialLayer l c)"
| "codec_SetTargetSpatialLayer l (H264_Context c) = H264_Context (SetTargetSpatialLayer l c)"

fun codec_SetTargetTemporalLayer :: "int \<Rightarrow> codec_context \<Rightarrow> codec_context" where
  "codec_SetTargetTemporalLayer l (VP8_Context c) = VP8_Context (SetTargetTemporalLayer l c)"
| "codec_SetTargetTemporalLayer l (VP9_Context c) = VP9_Context (SetTargetTemporalLayer l c)"
| "codec_SetTargetTemporalLayer l (H264_Context c) = H264_Context (SetTargetTemporalLayer l c)"

fun codec_SetCurrentSpatialLayer :: "int \<Rightarrow> codec_context \<Rightarrow> codec_context" where
  "codec_SetCurrentSpatialLayer l (VP8_Context c) = VP8_Context (SetCurrentSpatialLayer l c)"
| "codec_SetCurrentSpatialLayer l (VP9_Context c) = VP9_Context (SetCurrentSpatialLayer l c)"
| "codec_SetCurrentSpatialLayer l (H264_Context c) = H264_Context (SetCurrentSpatialLayer l c)"

fun codec_SetCurrentTemporalLayer :: "int \<Rightarrow> codec_context \<Rightarrow> codec_context" where
  "codec_SetCurrentTemporalLayer l (VP8_Context c) = VP8_Context (SetCurrentTemporalLayer l c)"
| "codec_SetCurrentTemporalLayer l (VP9_Context c) = VP9_Context (SetCurrentTemporalLayer l c)"
| "codec_SetCurrentTemporalLayer l (H264_Context c) = H264_Context (SetCurrentTemporalLayer l c)"

subsection \<open>Contexts and handlers of one stream\<close>

text \<open>The class of the context or handler is the one of the codec, and the targets that \<open>Process\<close> asserts are set.\<close>

fun context_for :: "mime \<Rightarrow> codec_context \<Rightarrow> bool" where
  "context_for t (VP8_Context c) \<longleftrightarrow> mime_ty t = MIME_VIDEO \<and> mime_sub t = SUB_VP8"
| "context_for t (VP9_Context c) \<longleftrightarrow> mime_ty t = MIME_VIDEO \<and> mime_sub t = SUB_VP9"
| "context_for t (H264_Context c) \<longleftrightarrow> mime_ty t = MIME_VIDEO \<and> mime_sub t = SUB_H264"

fun targets_set :: "codec_context \<Rightarrow> bool" where
  "targets_set (VP8_Context c) \<longleftrightarrow> 0 \<le> targetTemporalLayer c"
| "targets_set (VP9_Context c) \<longleftrightarrow> 0 \<le> targetSpatialLayer c \<and> 0 \<le> targetTemporalLayer c"
| "targets_set (H264_Context c) \<longleftrightarrow> 0 \<le> targetTemporalLayer c"

text \<open>The handler of a packet belongs to the codec and, where it writes to the payload, was parsed from the payload of the packet.\<close>

fun handler_for :: "mime \<Rightarrow> 'h rtp_packet \<Rightarrow> codec_handler \<Rightarrow> bool" where
  "handler_for t q (VP8_Handler p) \<longleftrightarrow> mime_ty t = MIME_VIDEO \<and> mime_sub t = SUB_VP8 \<and>
     VP8_Parse (payload_bytes q) = Some (Some p) \<and> \<not> v8_hasOneBytePictureId p"
| "handler_for t q (VP9_Handler p) \<longleftrightarrow> mime_ty t = MIME_VIDEO \<and> mime_sub t = SUB_VP9"
| "handler_for t q (H264_Handler p) \<longleftrightarrow> mime_ty t = MIME_VIDEO \<and> mime_sub t = SUB_H264"

text \<open>The contexts a consumer of a stream can have: a new one after any calls of the methods of \<^verbatim>\<open>EncodingContext\<close> and any packets processed with it.\<close>

inductive context_reach :: "mime \<Rightarrow> codec_context \<Rightarrow> bool" for t where
  new: "GetEncodingContext t spatialLayers temporalLayers ksvc = Some c \<Longrightarrow> context_reach t c"
| sync: "context_reach t c \<Longrightarrow> context_reach t (codec_SyncRequired c)"
| target_spatial: "context_reach t c \<Longrightarrow> context_reach t (codec_SetTargetSpatialLayer l c)"
| target_temporal: "context_reach t c \<Longrightarrow> context_reach t (codec_SetTargetTemporalLayer l c)"
| current_spatial: "context_reach t c \<Longrightarrow> context_reach t (codec_SetCurrentSpatialLayer l c)"
| current_temporal: "context_reach t c \<Longrightarrow> context_reach t (codec_SetCurrentTemporalLayer l c)"
| process: "context_reach t c \<Longrightarrow> codec_Process c h data m = Some (sent, marker, c', m') \<Longrightarrow> context_reach t c'"

lemma context_reach_for: "context_reach t c \<Longrightarrow> context_for t c"
proof (induction rule: context_reach.induct)
  case (new sl tl ksvc c)
  then show ?case by (auto simp: GetEncodingContext_def split: mime_type.splits mime_subtype.splits)
next
  case (sync c)
  then show ?case by (cases c) auto
next
  case (target_spatial c l)
  then show ?case by (cases c) auto
next
  case (target_temporal c l)
  then show ?case by (cases c) auto
next
  case (current_spatial c l)
  then show ?case by (cases c) auto
next
  case (current_temporal c l)
  then show ?case by (cases c) auto
next
  case (process c h data m sent marker c' m')
  then show ?case by (cases c; cases h) auto
qed

lemma Tools_ProcessRtpPacket_wf:
  assumes wf: "rtp_wf packet" and room: "rtp_size packet < length (rtp_mem packet)" and fresh: "payloadDescriptorHandler packet = None"
  obtains q where "Tools_ProcessRtpPacket t packet = Some q" "rtp_wf q" "\<And>h. payloadDescriptorHandler q = Some h \<Longrightarrow> handler_for t q h"
proof -
  consider (other) "Tools_ProcessRtpPacket t packet = Some packet"
    | (vp8) "mime_ty t = MIME_VIDEO" "mime_sub t = SUB_VP8" | (vp9) "mime_ty t = MIME_VIDEO" "mime_sub t = SUB_VP9"
    | (h264) "mime_ty t = MIME_VIDEO" "mime_sub t = SUB_H264"
    by (cases "mime_ty t"; cases "mime_sub t") (auto simp: Tools_ProcessRtpPacket_def)
  then show ?thesis
  proof cases
    case other
    then show ?thesis using that wf fresh by simp
  next
    case vp8
    then show ?thesis using VP8_ProcessRtpPacket_total [OF wf room, of VP8_Handler] that wf fresh by (auto simp: Tools_ProcessRtpPacket_def)
  next
    case vp9
    obtain r where "VP9_ProcessRtpPacket VP9_Handler packet =
        Some (case r of None \<Rightarrow> packet | Some p \<Rightarrow> packet\<lparr>payloadDescriptorHandler := Some (VP9_Handler p)\<rparr>)"
      by (rule VP9_ProcessRtpPacket_wf [OF wf])
    then show ?thesis using vp9 that wf fresh by (cases r) (auto simp: Tools_ProcessRtpPacket_def rtp_wf_handler)
  next
    case h264
    obtain r where "H264_ProcessRtpPacket H264_Handler packet =
        Some (case r of None \<Rightarrow> packet | Some p \<Rightarrow> packet\<lparr>payloadDescriptorHandler := Some (H264_Handler p)\<rparr>)"
      by (rule H264_ProcessRtpPacket_wf [OF wf])
    then show ?thesis using h264 that wf fresh by (cases r) (auto simp: Tools_ProcessRtpPacket_def rtp_wf_handler)
  qed
qed

text \<open>A change inside the payload, and of the marker, keeps the packet well-formed.\<close>

lemma rtp_wf_payload_change:
  assumes wf: "rtp_wf q" and m: "length m' = length (rtp_mem q)" "take (payload q) m' = take (payload q) (rtp_mem q)"
    "drop (payload q + payloadLength q) m' = drop (payload q + payloadLength q) (rtp_mem q)"
  shows "rtp_wf (q\<lparr>rtp_mem := m'\<rparr>)"
proof -
  note f = rtp_wf_facts [OF wf]
  have low: "m' ! i = rtp_mem q ! i" if "i < payload q" for i using m(2) that by (metis nth_take)
  have high: "m' ! (rtp_size q - 1) = rtp_mem q ! (rtp_size q - 1)" if "payloadPadding q \<noteq> 0"
  proof -
    have "0 < unat (payloadPadding q)" using that by (simp add: unat_gt_0)
    then have k: "rtp_size q - 1 = payload q + payloadLength q + (unat (payloadPadding q) - 1)" "rtp_size q - 1 < length (rtp_mem q)"
      using f(1-3) by linarith+
    then show ?thesis using arg_cong [OF m(3), of "\<lambda>x. x ! (unat (payloadPadding q) - 1)"] m(1) by simp
  qed
  show ?thesis
    using low high f wf m(1) by (intro rtp_wf_change [OF wf]) (auto simp: same_headers_def rtp_wf_def Let_def rtp_layout_def)
qed

lemma SetMarker_wf:
  assumes wf: "rtp_wf q"
  obtains m' where "SetMarker marker q = Some (q\<lparr>rtp_mem := m'\<rparr>)" "rtp_wf (q\<lparr>rtp_mem := m'\<rparr>)"
    "length m' = length (rtp_mem q)" "drop (payload q) m' = drop (payload q) (rtp_mem q)"
proof -
  note f = rtp_wf_facts [OF wf]
  let ?m = "(rtp_mem q)[1 := (rtp_mem q ! 1 AND 0x7F) OR (if marker then 0x80 else 0)]"
  have "1 \<noteq> rtp_size q - 1" using f by simp
  then have "rtp_wf (q\<lparr>rtp_mem := ?m\<rparr>)"
    using f wf by (intro rtp_wf_change [OF wf]) (auto simp: same_headers_def rtp_wf_def Let_def rtp_layout_def)
  moreover have "SetMarker marker q = Some (q\<lparr>rtp_mem := ?m\<rparr>)" using f by (auto simp: SetMarker_def Get1Byte_def Set1Byte_def)
  ultimately show ?thesis using that [of ?m] f(1) by simp
qed

lemma payload_bytes_mem: "drop (payload q) m' = drop (payload q) (rtp_mem q) \<Longrightarrow> payload_bytes (q\<lparr>rtp_mem := m'\<rparr>) = payload_bytes q"
  by (simp add: payload_bytes_def)

lemma ProcessPayload_codec:
  assumes wf: "rtp_wf q" and h: "\<And>h. payloadDescriptorHandler q = Some h \<Longrightarrow> handler_for t q h"
    and c: "context_for t c" "targets_set c"
  obtains sent c' q' q'' where "ProcessPayload codec_Process c q = Some (sent, c', q')" "rtp_wf q'" "targets_set c'"
    "RestorePayload codec_Restore q' = Some q''" "payload_bytes q'' = payload_bytes q"
    "c' = c \<or> (\<exists>h data m marker m'. codec_Process c h data m = Some (sent, marker, c', m'))"
proof (cases "payloadDescriptorHandler q")
  case None
  then show ?thesis using that [of True c q q] wf c by (simp add: ProcessPayload_def RestorePayload_def)
next
  case (Some x)
  note f = rtp_wf_facts [OF wf]
  have x: "handler_for t q x" using h Some by blast
  show ?thesis
  proof (cases c)
    case (VP8_Context v)
    with c x obtain p where p: "x = VP8_Handler p" "VP8_Parse (payload_bytes q) = Some (Some p)" "\<not> v8_hasOneBytePictureId p" by (cases x) auto
    have parse: "VP8_Parse (take (payloadLength q) (drop (payload q) (rtp_mem q))) = Some (Some p)" using p by (simp add: payload_bytes_def)
    obtain sent v' m' where run: "VP8_Process v p (payload q) (rtp_mem q) = Some (sent, False, v', m')" and m': "length m' = length (rtp_mem q)"
        "take (payload q) m' = take (payload q) (rtp_mem q)" "drop (payload q + payloadLength q) m' = drop (payload q + payloadLength q) (rtp_mem q)"
      using VP8_Process_total [OF parse _ p(3), of v] f c VP8_Context by auto
    have restore: "VP8_Restore p (payload q) m' = Some (rtp_mem q)" using VP8_Restore_Process [OF parse _ p(3) run] f by simp
    have "targetTemporalLayer v' = targetTemporalLayer v" by (rule VP8_Process_target [OF run])
    then have "targets_set (VP8_Context v')" using c VP8_Context by simp
    moreover have cp: "codec_Process c x (payload q) (rtp_mem q) = Some (sent, False, VP8_Context v', m')" using VP8_Context p run by simp
    moreover have "ProcessPayload codec_Process c q = Some (sent, VP8_Context v', q\<lparr>rtp_mem := m'\<rparr>)"
      using cp Some by (auto simp: ProcessPayload_def Let_def)
    moreover have "RestorePayload codec_Restore (q\<lparr>rtp_mem := m'\<rparr>) = Some q" using Some p restore by (simp add: RestorePayload_def)
    ultimately show ?thesis using that rtp_wf_payload_change [OF wf m'] by blast
  next
    case (VP9_Context v)
    with c x obtain p where p: "x = VP9_Handler p" by (cases x) auto
    obtain sent marker v' where run: "VP9_Process v p (payload q) (rtp_mem q) = Some (sent, marker, v', rtp_mem q)"
      using VP9_Process_total [of v p "payload q" "rtp_mem q"] c VP9_Context by auto
    obtain m' where m': "SetMarker True q = Some (q\<lparr>rtp_mem := m'\<rparr>)" "rtp_wf (q\<lparr>rtp_mem := m'\<rparr>)" "drop (payload q) m' = drop (payload q) (rtp_mem q)"
      by (rule SetMarker_wf [OF wf])
    let ?q = "if sent \<and> marker then q\<lparr>rtp_mem := m'\<rparr> else q"
    have "targets_set (VP9_Context v')" using VP9_Process_targets [OF run] c VP9_Context by simp
    moreover have "ProcessPayload codec_Process c q = Some (sent, VP9_Context v', ?q)" "RestorePayload codec_Restore ?q = Some ?q"
      using VP9_Context p run Some m'(1) by (auto simp: ProcessPayload_def RestorePayload_def)
    moreover have "payload_bytes ?q = payload_bytes q" using payload_bytes_mem [OF m'(3)] by simp
    moreover have "codec_Process c x (payload q) (rtp_mem q) = Some (sent, marker, VP9_Context v', rtp_mem q)" using VP9_Context p run by simp
    moreover have "rtp_wf ?q" using wf m'(2) by simp
    ultimately show ?thesis using that by blast
  next
    case (H264_Context v)
    with c x obtain p where p: "x = H264_Handler p" by (cases x) auto
    obtain sent v' where run: "H264_Process v p (payload q) (rtp_mem q) = Some (sent, False, v', rtp_mem q)"
      using H264_Process_total [of v p "payload q" "rtp_mem q"] c H264_Context by auto
    then have "targets_set (H264_Context v')" using H264_Process_spec(3) [OF run] c H264_Context by simp
    moreover have "codec_Process c x (payload q) (rtp_mem q) = Some (sent, False, H264_Context v', rtp_mem q)" using H264_Context p run by simp
    moreover from this have "ProcessPayload codec_Process c q = Some (sent, H264_Context v', q)" using Some by (auto simp: ProcessPayload_def Let_def)
    moreover have "RestorePayload codec_Restore q = Some q" using Some p by (simp add: RestorePayload_def)
    ultimately show ?thesis using that wf by blast
  qed
qed

text \<open>C8: The packets of a stream and the encoding contexts of its consumers fit together: for every codec, every context that a consumer can
  have reached and whose target layers are set (\<open>Process\<close> asserts them), and every well-formed packet with a spare byte, the packet is parsed and then
  processed with the context without a failed cast, assertion or access outside the packet; packet and context stay of their types, the targets stay
  set, and \<open>RestorePayload\<close> gives the payload back for the next consumer.\<close>

theorem codecs_fit_together:
  assumes "context_reach t c" "targets_set c" "rtp_wf packet" "rtp_size packet < length (rtp_mem packet)"
    "payloadDescriptorHandler packet = None"
  shows "\<exists>q sent c' q' q''. Tools_ProcessRtpPacket t packet = Some q \<and> rtp_wf q \<and>
    ProcessPayload codec_Process c q = Some (sent, c', q') \<and> rtp_wf q' \<and> context_reach t c' \<and> targets_set c' \<and>
    RestorePayload codec_Restore q' = Some q'' \<and> payload_bytes q'' = payload_bytes q"
proof -
  obtain q where q: "Tools_ProcessRtpPacket t packet = Some q" "rtp_wf q" "\<And>h. payloadDescriptorHandler q = Some h \<Longrightarrow> handler_for t q h"
    using Tools_ProcessRtpPacket_wf [OF assms(3-5)] by blast
  obtain sent c' q' q'' where "ProcessPayload codec_Process c q = Some (sent, c', q')" "rtp_wf q'" "targets_set c'"
      "RestorePayload codec_Restore q' = Some q''" "payload_bytes q'' = payload_bytes q"
      "c' = c \<or> (\<exists>h data m marker m'. codec_Process c h data m = Some (sent, marker, c', m'))"
    by (rule ProcessPayload_codec [OF q(2,3) context_reach_for [OF assms(1)] assms(2)])
  with q show ?thesis using context_reach.process [OF assms(1)] assms(1) by blast
qed

theorem codecs_fit_together_witness:
  "\<exists>packet q sent c' q'. rtp_mem packet = [0x80, 96, 0, 1, 0, 0, 0, 0, 0, 0, 0, 9, 0x90, 0x80, 5, 1, 0] \<and>
    Tools_ProcessRtpPacket \<lparr>mime_ty = MIME_VIDEO, mime_sub = SUB_VP8\<rparr> packet = Some q \<and>
    ProcessPayload codec_Process (codec_SetTargetTemporalLayer 1 (VP8_Context (VP8_EncodingContext_new 1 2 False))) q = Some (sent, c', q') \<and>
    rtp_wf q'"
proof -
  let ?m = "[0x80, 96, 0, 1, 0, 0, 0, 0, 0, 0, 0, 9, 0x90, 0x80, 5, 1, 0] :: bytes" and ?t = "\<lparr>mime_ty = MIME_VIDEO, mime_sub = SUB_VP8\<rparr>"
  let ?c = "codec_SetTargetTemporalLayer 1 (VP8_Context (VP8_EncodingContext_new 1 2 False))"
  have l: "rtp_layout ?m 16 4 0" by code_simp
  obtain p :: "codec_handler rtp_packet" where p: "rtp_wf p" "rtp_mem p = ?m" "rtp_size p = 16" by (rule parsed_layout [OF l])
  define packet where "packet = p\<lparr>payloadDescriptorHandler := None\<rparr>"
  have packet: "rtp_wf packet" "rtp_mem packet = ?m" "rtp_size packet = 16" "payloadDescriptorHandler packet = None"
    using p by (simp_all add: packet_def rtp_wf_handler)
  have "context_reach ?t (VP8_Context (VP8_EncodingContext_new 1 2 False))" by (rule context_reach.new) (simp add: GetEncodingContext_def)
  then have "context_reach ?t ?c" by (rule context_reach.target_temporal)
  moreover have "targets_set ?c" by (simp add: SetTargetTemporalLayer_def)
  ultimately show ?thesis using codecs_fit_together [OF _ _ packet(1) _ packet(4), of ?t ?c] packet(2,3) by auto
qed

end
