(* ===== verification/RtpStreamRecv.thy ===== *)
theory RtpStreamRecv
  imports RtpStreamSend NackGenerator Timer Codecs_Tools Rtcp_Compound
begin

text \<open>
  \<^verbatim>\<open>RTC::RtpStreamRecv\<close> (\<^verbatim>\<open>src/RTC/RtpStreamRecv.cpp\<close>): a stream that is received from a remote sender. It tracks the sequence
  numbers, passes the packets to the codec and to the NACK generator, decodes retransmitted packets, measures jitter and bit rates, reports
  loss to the sender and detects inactivity.

  The packets that the stream hands to its listener for sending, and changes of its score, are returned as events. The round trip time
  is kept in units of 1/65536 seconds; \<open>rttMs\<close> is the floating-point conversion to milliseconds. \<open>scoreOf\<close> is the floating-point
  formula of \<^verbatim>\<open>UpdateScore\<close> with what its conversion to \<^verbatim>\<open>uint8_t\<close> gives. \<open>None\<close> is a failed assertion, a null pointer that is
  followed, an access outside a vector or a packet, or an overflow of signed arithmetic.
\<close>

subsection \<open>TransmissionCounter\<close>

type_synonym layer_counters = "rtp_data_counter list list"

definition TransmissionCounter_new :: "u8 \<Rightarrow> u8 \<Rightarrow> nat \<Rightarrow> layer_counters" where
  "TransmissionCounter_new spatialLayers temporalLayers windowSize =
     replicate (unat spatialLayers) (replicate (unat temporalLayers) (RtpDataCounter_new windowSize))"

definition TransmissionCounter_Update :: "u8 \<Rightarrow> u8 \<Rightarrow> nat \<Rightarrow> nat \<Rightarrow> layer_counters \<Rightarrow> layer_counters option" where
  "TransmissionCounter_Update spatialLayer temporalLayer packetSize nowMs cs =
     (if cs = [] \<or> hd cs = [] then None
      else
        let s = (if unat spatialLayer > length cs - 1 then length cs - 1 else unat spatialLayer);
            t = (if unat temporalLayer > length (hd cs) - 1 then length (hd cs) - 1 else unat temporalLayer)
        in if t < length (cs ! s) then do {
             c \<leftarrow> RtpDataCounter_Update packetSize nowMs (cs ! s ! t);
             Some (cs[s := (cs ! s)[t := c]]) }
           else None)"

text \<open>\<^verbatim>\<open>GetBitrate\<close> of a counter may drop old data from it. \<open>toRate\<close> is the floating-point rate of the rate calculator.\<close>

fun counters_rate :: "(rate_calculator \<Rightarrow> nat) \<Rightarrow> nat \<Rightarrow> rtp_data_counter list \<Rightarrow> (u32 \<times> rtp_data_counter list) option" where
  "counters_rate toRate nowMs [] = Some (0, [])"
| "counters_rate toRate nowMs (c # cs) = do {
     (r, d) \<leftarrow> GetRate toRate nowMs (dc_rate c);
     (rs, ds) \<leftarrow> counters_rate toRate nowMs cs;
     Some (of_nat r + rs, c\<lparr>dc_rate := d\<rparr> # ds) }"

fun layers_rate :: "(rate_calculator \<Rightarrow> nat) \<Rightarrow> nat \<Rightarrow> layer_counters \<Rightarrow> (u32 \<times> layer_counters) option" where
  "layers_rate toRate nowMs [] = Some (0, [])"
| "layers_rate toRate nowMs (cs # css) = do {
     (r, cs) \<leftarrow> counters_rate toRate nowMs cs;
     (rs, css) \<leftarrow> layers_rate toRate nowMs css;
     Some (r + rs, cs # css) }"

definition TransmissionCounter_GetBitrate :: "(rate_calculator \<Rightarrow> nat) \<Rightarrow> nat \<Rightarrow> layer_counters \<Rightarrow> (u32 \<times> layer_counters) option" where
  "TransmissionCounter_GetBitrate toRate nowMs css = layers_rate toRate nowMs css"

text \<open>One counter of the vector of vectors.\<close>

definition layer_rate :: "(rate_calculator \<Rightarrow> nat) \<Rightarrow> nat \<Rightarrow> nat \<Rightarrow> nat \<Rightarrow> layer_counters \<Rightarrow> (u32 \<times> layer_counters) option" where
  "layer_rate toRate nowMs s t css =
     (if s < length css \<and> t < length (css ! s) then do {
        (r, d) \<leftarrow> GetRate toRate nowMs (dc_rate (css ! s ! t));
        Some (of_nat r, css[s := (css ! s)[t := (css ! s ! t)\<lparr>dc_rate := d\<rparr>]]) }
      else None)"

definition GetLayerBitrate :: "(rate_calculator \<Rightarrow> nat) \<Rightarrow> nat \<Rightarrow> u8 \<Rightarrow> u8 \<Rightarrow> layer_counters \<Rightarrow> (u32 \<times> layer_counters) option" where
  "GetLayerBitrate toRate nowMs spatialLayer temporalLayer css = layer_rate toRate nowMs (unat spatialLayer) (unat temporalLayer) css"

definition GetSpatialLayerBitrate :: "(rate_calculator \<Rightarrow> nat) \<Rightarrow> nat \<Rightarrow> u8 \<Rightarrow> layer_counters \<Rightarrow> (u32 \<times> layer_counters) option" where
  "GetSpatialLayerBitrate toRate nowMs spatialLayer css =
     (if unat spatialLayer < length css then do {
        (r, cs) \<leftarrow> counters_rate toRate nowMs (css ! unat spatialLayer);
        Some (r, css[unat spatialLayer := cs]) }
      else None)"

definition GetBitrate_upto :: "(rate_calculator \<Rightarrow> nat) \<Rightarrow> nat \<Rightarrow> u8 \<Rightarrow> u8 \<Rightarrow> layer_counters \<Rightarrow> (u32 \<times> layer_counters) option" where
  "GetBitrate_upto toRate nowMs spatialLayer temporalLayer css = do {
     (r, css) \<leftarrow> layer_rate toRate nowMs (unat spatialLayer) (unat temporalLayer) css;
     if r = 0 then Some (0, css)
     else do {
       (lower, css1) \<leftarrow> layers_rate toRate nowMs (take (unat spatialLayer) css);
       let cs = css ! unat spatialLayer;
       (upto, cs1) \<leftarrow> counters_rate toRate nowMs (take (unat temporalLayer + 1) cs);
       Some (lower + upto, css1 @ (cs1 @ drop (unat temporalLayer + 1) cs) # drop (unat spatialLayer + 1) css) } }"

definition TransmissionCounter_GetPacketCount :: "layer_counters \<Rightarrow> nat" where
  "TransmissionCounter_GetPacketCount css = sum_list (map (\<lambda>cs. sum_list (map dc_packets cs)) css)"

definition TransmissionCounter_GetBytes :: "layer_counters \<Rightarrow> nat" where
  "TransmissionCounter_GetBytes css = sum_list (map (\<lambda>cs. sum_list (map (\<lambda>c. GetBytes (dc_rate c)) cs)) css)"

subsection \<open>State\<close>

abbreviation (input) "InactivityCheckInterval \<equiv> (1500 :: u64)"
abbreviation (input) "InactivityCheckIntervalWithDtx \<equiv> (5000 :: u64)"

record rtp_stream_recv = rtp_stream +
  rcv_mime :: mime
  rcv_loss :: loss_state
  rcv_sr :: sr_state
  expectedPriorScore :: u32
  receivedPriorScore :: u32
  transit :: int
  jitter :: u32
  firSeqNumber :: u8
  rcv_rtt :: u32
  hasRtt :: bool
  nackGenerator :: "nack_generator option"
  inactivityCheckPeriodicTimer :: timer
  inactive :: bool
  layerCounters :: layer_counters
  mediaTransmissionCounter :: rtp_data_counter

datatype recv_event = RecvScore score_event | SendRtcpPacket rtcp_packet

definition RtpStreamRecv_new :: "rtp_params \<Rightarrow> mime \<Rightarrow> u64 \<Rightarrow> rtp_stream_recv option" where
  "RtpStreamRecv_new pars t nowMs = do {
     tm \<leftarrow> Timer_Start nowMs (if par_useDtx pars then InactivityCheckIntervalWithDtx else InactivityCheckInterval) 0 Timer_new;
     Some \<lparr>params = pars, strm_seq = rtp_seq_new, strm_score = rtp_score_new 10 nowMs, packetsRetransmitted = 0,
       packetsRepaired = 0, nackCount = 0, nackPacketCount = 0, pliCount = 0, firCount = 0, repairedPriorScore = 0,
       retransmittedPriorScore = 0, lastSenderReportNtpMs = 0, lastSenderReporTs = 0, rtxStream = None,
       rcv_mime = t, rcv_loss = loss_state_new, rcv_sr = \<lparr>lastSrTimestamp = 0, lastSrReceived = 0\<rparr>,
       expectedPriorScore = 0, receivedPriorScore = 0, transit = 0, jitter = 0, firSeqNumber = 0, rcv_rtt = 0, hasRtt = False,
       nackGenerator = if par_useNack pars then Some NackGenerator_new else None, inactivityCheckPeriodicTimer = tm, inactive = False,
       layerCounters = TransmissionCounter_new (par_spatialLayers pars) (par_temporalLayers pars) (if par_useDtx pars then 6000 else 2500),
       mediaTransmissionCounter = RtpDataCounter_new 2500\<rparr> }"

subsection \<open>Requests to the sender\<close>

definition RequestKeyFrame :: "rtp_stream_recv \<Rightarrow> rtp_stream_recv \<times> recv_event list" where
  "RequestKeyFrame s =
     (let ssrc = par_ssrc (params s) in
      if par_usePli (params s) then
        (s\<lparr>pliCount := pliCount s + 1\<rparr>,
         [SendRtcpPacket (PsFb (PliPacket \<lparr>fb_messageType = fb_ps_code PLI, fb_senderSsrc = ssrc, fb_mediaSsrc = ssrc\<rparr>))])
      else if par_useFir (params s) then
        (s\<lparr>firSeqNumber := firSeqNumber s + 1, firCount := firCount s + 1\<rparr>,
         [SendRtcpPacket (PsFb (FirPacket \<lparr>ip_header = \<lparr>fb_messageType = fb_ps_code FIR, fb_senderSsrc = ssrc, fb_mediaSsrc = ssrc\<rparr>,
            ip_items = [FirItem_new ssrc (firSeqNumber s + 1)]\<rparr>))])
      else (s, []))"

text \<open>The inner loop that collects the bit mask of a NACK item: the mask and the numbers that are left.\<close>

fun nack_bitmask :: "u16 \<Rightarrow> u16 \<Rightarrow> u16 list \<Rightarrow> u16 \<times> u16 list" where
  "nack_bitmask seq bitmask [] = (bitmask, [])"
| "nack_bitmask seq bitmask (n # ns) =
     (let shift = n - seq - 1 in
      if shift > 15 then (bitmask, n # ns) else nack_bitmask seq (bitmask OR push_bit (unat shift) 1) ns)"

lemma nack_bitmask_length: "length (snd (nack_bitmask seq bitmask ns)) \<le> length ns"
  by (induction seq bitmask ns rule: nack_bitmask.induct) (auto simp: Let_def)

function nack_items_of :: "u16 list \<Rightarrow> NackItem list" where
  "nack_items_of [] = []"
| "nack_items_of (seq # ns) = (case nack_bitmask seq 0 ns of (bitmask, rest) \<Rightarrow> NackItem_new seq bitmask # nack_items_of rest)"
  by pat_completeness auto

termination
proof (relation "measure length", goal_cases)
  case 2
  then show ?case by (metis (no_types, lifting) in_measure length_Cons le_imp_less_Suc nack_bitmask_length snd_conv)
qed simp

definition OnNackGeneratorNackRequired :: "u16 list \<Rightarrow> rtp_stream_recv \<Rightarrow> (rtp_stream_recv \<times> recv_event list) option" where
  "OnNackGeneratorNackRequired seqNumbers s =
     (if \<not> par_useNack (params s) \<or> seqNumbers = [] then None
      else
        let packet = \<lparr>ip_header = \<lparr>fb_messageType = fb_rtp_code NACK, fb_senderSsrc = 0, fb_mediaSsrc = par_ssrc (params s)\<rparr>,
                      ip_items = nack_items_of seqNumbers\<rparr>
        in if ItemsPacket_GetSize NackItem_ops packet > 65536 then Some (s, [])
           else Some (s\<lparr>nackCount := nackCount s + 1,
                        nackPacketCount := nackPacketCount s + sum_list (map CountRequestedPackets (ip_items packet))\<rparr>,
                      [SendRtcpPacket (RtpFb (NackPacket packet))]))"

fun on_nack_events :: "nack_event list \<Rightarrow> rtp_stream_recv \<Rightarrow> (rtp_stream_recv \<times> recv_event list) option" where
  "on_nack_events [] s = Some (s, [])"
| "on_nack_events (e # es) s = do {
     (s, ev) \<leftarrow> (case e of NackRequired seqNumbers \<Rightarrow> OnNackGeneratorNackRequired seqNumbers s | KeyFrameRequired \<Rightarrow> Some (RequestKeyFrame s));
     (s, evs) \<leftarrow> on_nack_events es s;
     Some (s, ev @ evs) }"

subsection \<open>Receiving packets\<close>

text \<open>\<^verbatim>\<open>jitter += (1. / 16.) * (d - jitter)\<close> is exact in \<^verbatim>\<open>double\<close> and truncated by the conversion to \<^verbatim>\<open>uint32_t\<close>.\<close>

definition CalculateJitter :: "u64 \<Rightarrow> u32 \<Rightarrow> rtp_stream_recv \<Rightarrow> rtp_stream_recv option" where
  "CalculateJitter nowMs rtpTimestamp s =
     (if par_clockRate (params s) = 0 then Some s
      else
        let t = sint (ucast (nowMs - ucast (rtpTimestamp * 1000 div par_clockRate (params s))) :: u32);
            d = t - transit s
        in if d \<le> - (2 ^ 31) \<or> 2 ^ 31 \<le> d then None
           else if transit s = 0 then Some (s\<lparr>transit := t\<rparr>)
           else Some (s\<lparr>transit := t, jitter := of_nat ((15 * unat (jitter s) + nat \<bar>d\<bar>) div 16)\<rparr>))"

definition not_inactive :: "u64 \<Rightarrow> rtp_stream_recv \<Rightarrow> rtp_stream_recv \<times> recv_event list" where
  "not_inactive nowMs s =
     (if inactive s
      then let (q, ev) = ResetScore nowMs 10 True (strm_score s) in (s\<lparr>inactive := False, strm_score := q\<rparr>, map RecvScore ev)
      else (s, []))"

definition restart_timer :: "u64 \<Rightarrow> rtp_stream_recv \<Rightarrow> rtp_stream_recv option" where
  "restart_timer nowMs s = do {
     tm \<leftarrow> Timer_Restart nowMs (inactivityCheckPeriodicTimer s);
     Some (s\<lparr>inactivityCheckPeriodicTimer := tm\<rparr>) }"

definition count_layers :: "u64 \<Rightarrow> codec_handler rtp_packet \<Rightarrow> rtp_stream_recv \<Rightarrow> rtp_stream_recv option" where
  "count_layers nowMs packet s = do {
     cs \<leftarrow> TransmissionCounter_Update (GetLayer codec_GetSpatialLayer packet) (GetLayer codec_GetTemporalLayer packet)
       (rtp_size packet) (unat nowMs) (layerCounters s);
     Some (s\<lparr>layerCounters := cs\<rparr>) }"

definition codec_level :: "codec_handler rtp_packet \<Rightarrow> rtp_stream_recv \<Rightarrow> codec_handler rtp_packet option" where
  "codec_level packet s = do {
     pt \<leftarrow> GetPayloadType packet;
     if pt = par_payloadType (params s) then Tools_ProcessRtpPacket (rcv_mime s) packet else Some packet }"

definition pass_to_nack ::
  "u64 \<Rightarrow> bool \<Rightarrow> codec_handler rtp_packet \<Rightarrow> rtp_stream_recv \<Rightarrow> (bool \<times> rtp_stream_recv \<times> recv_event list) option" where
  "pass_to_nack nowMs isRecovered packet s = do {
     ng \<leftarrow> nackGenerator s;
     seq \<leftarrow> GetSequenceNumber packet;
     (nacked, nev, ng) \<leftarrow> ReceivePacket nowMs seq (IsKeyFrame codec_IsKeyFrame packet) isRecovered ng;
     (s, ev) \<leftarrow> on_nack_events nev (s\<lparr>nackGenerator := Some ng\<rparr>);
     Some (nacked, s, ev) }"

definition Recv_ReceivePacket ::
  "u64 \<Rightarrow> codec_handler rtp_packet \<Rightarrow> rtp_stream_recv \<Rightarrow> (bool \<times> codec_handler rtp_packet \<times> rtp_stream_recv \<times> recv_event list) option" where
  "Recv_ReceivePacket nowMs packet s = do {
     seq \<leftarrow> GetSequenceNumber packet;
     ts \<leftarrow> GetTimestamp packet;
     let (valid, q) = seq_ReceivePacket nowMs seq ts (strm_seq s);
     let s = s\<lparr>strm_seq := q\<rparr>;
     if \<not> valid then Some (False, packet, s, [])
     else do {
       packet \<leftarrow> codec_level packet s;
       (s, ev) \<leftarrow>
         (if par_useNack (params s) then do {
            (nacked, s, ev) \<leftarrow> pass_to_nack nowMs False packet s;
            Some (if rtxStream s = None \<and> nacked then PacketRepaired (PacketRetransmitted s) else s, ev) }
          else Some (s, []));
       ts \<leftarrow> GetTimestamp packet;
       s \<leftarrow> CalculateJitter nowMs ts s;
       s \<leftarrow> count_layers nowMs packet s;
       c \<leftarrow> RtpDataCounter_Update (rtp_size packet) (unat nowMs) (mediaTransmissionCounter s);
       let (s, ev') = not_inactive nowMs (s\<lparr>mediaTransmissionCounter := c\<rparr>);
       s \<leftarrow> restart_timer nowMs s;
       Some (True, packet, s, ev @ ev') } }"

definition ReceiveRtxPacket ::
  "u64 \<Rightarrow> codec_handler rtp_packet \<Rightarrow> rtp_stream_recv \<Rightarrow> (bool \<times> codec_handler rtp_packet \<times> rtp_stream_recv \<times> recv_event list) option" where
  "ReceiveRtxPacket nowMs packet s =
     (if \<not> par_useNack (params s) then Some (False, packet, s, [])
      else do {
        ssrc \<leftarrow> GetSsrc packet;
        pt \<leftarrow> GetPayloadType packet;
        if ssrc \<noteq> par_rtxSsrc (params s) then None
        else if pt \<noteq> par_rtxPayloadType (params s) then Some (False, packet, s, [])
        else do {
          rseq \<leftarrow> GetSequenceNumber packet;
          rts \<leftarrow> GetTimestamp packet;
          let (ok, s) = (case rtxStream s of
                None \<Rightarrow> (True, s)
              | Some r \<Rightarrow> (case RtxStream_ReceivePacket nowMs rseq rts r of (ok, r) \<Rightarrow> (ok, s\<lparr>rtxStream := Some r\<rparr>)));
          if \<not> ok then Some (False, packet, s, [])
          else do {
            (decoded, packet) \<leftarrow> RtxDecode (par_payloadType (params s)) (par_ssrc (params s)) packet;
            if \<not> decoded then Some (False, packet, s, [])
            else do {
              seq \<leftarrow> GetSequenceNumber packet;
              ts \<leftarrow> GetTimestamp packet;
              let (valid, q) = UpdateSeq nowMs seq ts (strm_seq s);
              let s = s\<lparr>strm_seq := q\<rparr>;
              if \<not> valid then Some (False, packet, s, [])
              else do {
                packet \<leftarrow> codec_level packet s;
                (nacked, s, ev) \<leftarrow> pass_to_nack nowMs True packet (PacketRetransmitted s);
                if \<not> nacked then Some (False, packet, s, ev)
                else do {
                  s \<leftarrow> count_layers nowMs packet (PacketRepaired s);
                  let (s, ev') = not_inactive nowMs s;
                  s \<leftarrow> restart_timer nowMs s;
                  Some (True, packet, s, ev @ ev') } } } } } })"

subsection \<open>Reports\<close>

definition Recv_GetRtcpReceiverReport :: "u64 \<Rightarrow> u8 \<Rightarrow> rtp_stream_recv \<Rightarrow> (ReceiverReport \<times> rtp_stream_recv) option" where
  "Recv_GetRtcpReceiverReport nowMs worstRemoteFractionLost s = do {
     let worst = (if par_useInBandFec (params s) then worstRemoteFractionLost else 0);
     let report = \<lparr>rr_ssrc = par_ssrc (params s), rr_fractionLost = 0, rr_totalLost = 0, rr_lastSeq = 0, rr_jitter = 0, rr_lsr = 0, rr_dlsr = 0\<rparr>;
     (report, l) \<leftarrow> report_loss worst (GetExpectedPackets (strm_seq s)) (dc_packets (mediaTransmissionCounter s)) report (rcv_loss s);
     let report = report\<lparr>rr_lastSeq := ucast (maxSeq (strm_seq s)) + cycles (strm_seq s), rr_jitter := jitter s\<rparr>;
     Some (report_delay nowMs (rcv_sr s) report, s\<lparr>rcv_loss := l\<rparr>) }"

definition GetRtxRtcpReceiverReport :: "u64 \<Rightarrow> rtp_stream_recv \<Rightarrow> (ReceiverReport option \<times> rtp_stream_recv) option" where
  "GetRtxRtcpReceiverReport nowMs s = (case rtxStream s of
       None \<Rightarrow> Some (None, s)
     | Some r \<Rightarrow> do { (report, r) \<leftarrow> RtxStream_GetRtcpReceiverReport nowMs r; Some (Some report, s\<lparr>rtxStream := Some r\<rparr>) })"

text \<open>The score of an interval from the packets that were received, lost, repaired and retransmitted in it.\<close>

definition interval_score :: "(u32 \<Rightarrow> u32 \<Rightarrow> u32 \<Rightarrow> u32 \<Rightarrow> u8) \<Rightarrow> bool \<Rightarrow> u32 \<Rightarrow> u32 \<Rightarrow> u32 \<Rightarrow> u32 \<Rightarrow> u8 option" where
  "interval_score scoreOf hasRtx received lost repaired retransmitted =
     (let lost = (if lost > received then received else lost);
          (lost, repaired, retransmitted) =
            (if repaired > lost then
               if hasRtx then let repaired = lost in (lost, repaired, retransmitted - (repaired - lost))
               else (repaired, repaired, retransmitted)
             else (lost, repaired, retransmitted))
      in if retransmitted < repaired then None
         else Some (scoreOf received lost repaired retransmitted))"

definition Recv_UpdateScore ::
  "(u32 \<Rightarrow> u32 \<Rightarrow> u32 \<Rightarrow> u32 \<Rightarrow> u8) \<Rightarrow> u64 \<Rightarrow> rtp_stream_recv \<Rightarrow> (rtp_stream_recv \<times> recv_event list) option" where
  "Recv_UpdateScore scoreOf nowMs s =
     (let totalExpected = GetExpectedPackets (strm_seq s);
          expected = totalExpected - expectedPriorScore s;
          totalReceived = dc_packets (mediaTransmissionCounter s);
          received = of_nat totalReceived - receivedPriorScore s :: u32;
          lost = (if expected < received then 0 else expected - received);
          repaired = of_nat (packetsRepaired s) - of_nat (repairedPriorScore s) :: u32;
          retransmitted = of_nat (packetsRetransmitted s) - of_nat (retransmittedPriorScore s) :: u32;
          s = s\<lparr>expectedPriorScore := totalExpected, receivedPriorScore := of_nat totalReceived,
                repairedPriorScore := packetsRepaired s, retransmittedPriorScore := packetsRetransmitted s\<rparr>;
          update = (\<lambda>sc. let (q, ev) = UpdateScore nowMs sc (strm_score s) in Some (s\<lparr>strm_score := q\<rparr>, map RecvScore ev))
      in if inactive s then Some (s, [])
         else if expected = 0 then update 10
         else do {
           sc \<leftarrow> interval_score scoreOf (rtxStream s \<noteq> None) received lost repaired retransmitted;
           update sc })"

definition Recv_ReceiveRtcpSenderReport ::
  "(u32 \<Rightarrow> u32 \<Rightarrow> u32 \<Rightarrow> u32 \<Rightarrow> u8) \<Rightarrow> u64 \<Rightarrow> SenderReport \<Rightarrow> rtp_stream_recv \<Rightarrow> (rtp_stream_recv \<times> recv_event list) option" where
  "Recv_ReceiveRtcpSenderReport scoreOf nowMs report s =
     Recv_UpdateScore scoreOf nowMs (s\<lparr>rcv_sr := ReceiveRtcpSenderReport nowMs report (rcv_sr s),
       lastSenderReportNtpMs := Ntp2TimeMs \<lparr>seconds = sr_ntpSec report, fractions = sr_ntpFrac report\<rparr>, lastSenderReporTs := sr_rtpTs report\<rparr>)"

definition ReceiveRtxRtcpSenderReport :: "u64 \<Rightarrow> SenderReport \<Rightarrow> rtp_stream_recv \<Rightarrow> rtp_stream_recv" where
  "ReceiveRtxRtcpSenderReport nowMs report s = s\<lparr>rtxStream := map_option (RtxStream_ReceiveRtcpSenderReport nowMs report) (rtxStream s)\<rparr>"

definition ReceiveRtcpXrDelaySinceLastRr :: "(u32 \<Rightarrow> u32) \<Rightarrow> u64 \<Rightarrow> u32 \<Rightarrow> u32 \<Rightarrow> rtp_stream_recv \<Rightarrow> rtp_stream_recv option" where
  "ReceiveRtcpXrDelaySinceLastRr rttMs nowMs lastRr dlrr s =
     (let rtt = report_rtt nowMs lastRr dlrr;
          s = s\<lparr>rcv_rtt := rtt, hasRtt := hasRtt s \<or> rtt \<noteq> 0\<rparr>
      in if par_useNack (params s) then do {
           ng \<leftarrow> nackGenerator s;
           Some (s\<lparr>nackGenerator := Some (UpdateRtt (rttMs rtt) ng)\<rparr>) }
         else Some s)"

subsection \<open>Pausing and timers\<close>

definition Recv_Pause :: "rtp_stream_recv \<Rightarrow> rtp_stream_recv option" where
  "Recv_Pause s = do {
     tm \<leftarrow> Timer_Stop (inactivityCheckPeriodicTimer s);
     ng \<leftarrow> (if par_useNack (params s) then map_option (Some \<circ> Reset) (nackGenerator s) else Some (nackGenerator s));
     Some (s\<lparr>inactivityCheckPeriodicTimer := tm, nackGenerator := ng, transit := 0, jitter := 0\<rparr>) }"

definition Recv_Resume :: "u64 \<Rightarrow> rtp_stream_recv \<Rightarrow> rtp_stream_recv option" where
  "Recv_Resume nowMs s = (if \<not> inactive s then restart_timer nowMs s else Some s)"

definition Recv_OnTimer :: "u64 \<Rightarrow> rtp_stream_recv \<Rightarrow> rtp_stream_recv \<times> recv_event list" where
  "Recv_OnTimer nowMs s =
     (let (q, ev) = ResetScore nowMs 0 True (strm_score s) in (s\<lparr>inactive := True, strm_score := q\<rparr>, map RecvScore ev))"

text \<open>The timer of the NACK generator fires.\<close>

definition nack_timer :: "u64 \<Rightarrow> rtp_stream_recv \<Rightarrow> (rtp_stream_recv \<times> recv_event list) option" where
  "nack_timer nowMs s = do {
     ng \<leftarrow> nackGenerator s;
     let (nev, ng) = OnTimer nowMs ng;
     on_nack_events nev (s\<lparr>nackGenerator := Some ng\<rparr>) }"

subsection \<open>What is requested\<close>

text \<open>The lists of numbers that the NACK generator asks for: in order and not far behind a last number.\<close>

definition requestable :: "u16 list \<Rightarrow> bool" where
  "requestable seqs \<longleftrightarrow> seqs \<noteq> [] \<and> length seqs \<le> 1000 \<and>
     (\<exists>n. sorted_wrt (\<lambda>a b. unat (n - b) < unat (n - a)) seqs \<and> (\<forall>x \<in> set seqs. unat (n - x) \<le> 10000))"

lemma batch_requestable:
  assumes b: "batch_loop flt now n rtt nl = (batch, nl')" and ok: "nl_ok m nl" "length nl \<le> 1000" and ne: "batch \<noteq> []"
  shows "requestable batch"
proof -
  let ?f = "filter (\<lambda>e. nack_due flt now n rtt (snd e)) nl"
  have "batch = map (ni_seq \<circ> snd) ?f" using batch_loop_spec [OF b] by simp
  also have "\<dots> = map fst ?f" using ok(1) by (auto simp: nl_ok_def)
  finally have batch: "batch = map fst ?f" .
  have "sorted_wrt (\<lambda>a b. unat (m - b) < unat (m - a)) batch"
    using ok(1) unfolding batch nl_ok_def sorted_wrt_map by (intro sorted_wrt_filter) simp
  moreover have "\<forall>x \<in> set batch. unat (m - x) \<le> 10000" using ok(1) by (auto simp: batch nl_ok_def)
  moreover have "length batch \<le> 1000" using ok(2) by (simp add: batch) (metis length_filter_le le_trans)
  ultimately show ?thesis using ne by (auto simp: requestable_def)
qed

lemma ReceivePacket_requestable:
  assumes inv: "ng_inv s" and r: "ReceivePacket now seq kf rec s = Some (nacked, ev, s')"
  shows "\<forall>seqs. NackRequired seqs \<in> set ev \<longrightarrow> requestable seqs"
proof (cases "started s \<and> \<not> IsSeqLowerThan seq (lastSeq s) \<and> seq \<noteq> lastSeq s \<and> \<not> rec")
  case False
  then have "ev = []" using r by (auto simp: ReceivePacket_def Let_def split: if_splits)
  then show ?thesis by simp
next
  case new: True
  let ?s = "s\<lparr>keyFrameList := insert_and_purge seq kf (keyFrameList s)\<rparr>"
  have ok: "nl_ok (lastSeq s) (nackList s)" using inv by (simp add: ng_inv_def)
  from ahead_if_not_lower [of seq "lastSeq s"] new AddPacketsToNackList_spec [of ?s seq] ok
  obtain ks nl ev1 where a: "AddPacketsToNackList (lastSeq s + 1) seq ?s = Some (?s\<lparr>keyFrameList := ks, nackList := nl\<rparr>, ev1)"
    "nl_ok seq nl" "length nl \<le> 1000" "ev1 = [] \<or> ev1 = [KeyFrameRequired]" by auto
  obtain b nl' where b: "batch_loop SEQ now seq (ng_rtt s) nl = (b, nl')" by force
  have "ev = ev1 @ nack_events b" using r new a(1) b by (auto simp: ReceivePacket_def GetNackBatch_def Let_def)
  then show ?thesis using a(4) batch_requestable [OF b a(2,3)] by (auto simp: nack_events_def split: if_splits)
qed

lemma OnTimer_requestable:
  assumes inv: "ng_inv s" and r: "OnTimer now s = (ev, s')"
  shows "\<forall>seqs. NackRequired seqs \<in> set ev \<longrightarrow> requestable seqs"
proof -
  obtain b nl' where b: "batch_loop TIME now (lastSeq s) (ng_rtt s) (nackList s) = (b, nl')" by force
  have "ev = nack_events b" using r b by (simp add: OnTimer_def GetNackBatch_def)
  then show ?thesis using batch_requestable [OF b] inv by (auto simp: nack_events_def ng_inv_def split: if_splits)
qed

lemma nack_step_requestable:
  assumes "ng_inv s" "nack_step op s = Some (ev, s')" "NackRequired seqs \<in> set ev"
  shows "requestable seqs"
  using assms ReceivePacket_requestable [OF assms(1)] OnTimer_requestable [OF assms(1)]
  by (cases op) (auto split: if_splits)

lemma nack_run_requestable:
  "ng_inv s \<Longrightarrow> nack_run ops s = Some (evs, s') \<Longrightarrow> NackRequired seqs \<in> set evs \<Longrightarrow> requestable seqs"
proof (induction ops arbitrary: s evs)
  case (Cons op ops)
  obtain ev s1 where op: "nack_step op s = Some (ev, s1)" "ng_inv s1" using nack_step_inv [OF Cons.prems(1)] by blast
  obtain evs' where "nack_run ops s1 = Some (evs', s')" "evs = ev @ evs'" using Cons.prems(2) op(1) by (auto split: bind_splits)
  then show ?case using Cons.IH [OF op(2)] Cons.prems(3) nack_step_requestable [OF Cons.prems(1) op(1)] by auto
qed simp

subsection \<open>NACK items\<close>

lemma bit_push_1: "bit (2 ^ j :: u16) k \<longleftrightarrow> k = j \<and> j < 16"
  by (auto simp: bit_simps)

text \<open>An item takes the numbers that follow within sixteen.\<close>

lemma nack_bitmask_spec:
  assumes "nack_bitmask seq bm ns = (bm', rest)"
  obtains taken where "ns = taken @ rest" "\<And>x. x \<in> set taken \<Longrightarrow> x - seq - 1 \<le> 15"
    "\<And>k. bit bm' k \<longleftrightarrow> bit bm k \<or> k \<in> (\<lambda>x. unat (x - seq - 1)) ` set taken"
  using assms
proof (induction seq bm ns arbitrary: thesis rule: nack_bitmask.induct)
  case (1 seq bm)
  then show ?case by auto
next
  case (2 seq bm n ns)
  show ?case
  proof (cases "n - seq - 1 > 15")
    case True
    then show ?thesis using 2(2) [of "[]"] 2(3) by auto
  next
    case False
    let ?k = "unat (n - seq - 1)"
    obtain taken where t: "ns = taken @ rest" "\<And>x. x \<in> set taken \<Longrightarrow> x - seq - 1 \<le> 15"
      "\<And>k. bit bm' k \<longleftrightarrow> bit (bm OR push_bit ?k 1) k \<or> k \<in> (\<lambda>x. unat (x - seq - 1)) ` set taken"
      using 2(1) [OF refl False] 2(3) False by (auto simp: Let_def)
    have "?k < 16" using False by (simp add: not_less word_le_nat_alt)
    moreover have "n - seq - 1 \<le> 15" using False by simp
    ultimately show ?thesis using t by (intro 2(2) [of "n # taken"]) (auto simp: bit_or_iff bit_push_1)
  qed
qed

lemma requested_taken:
  assumes s: "sorted_wrt (\<lambda>a b. unat (n - b) < unat (n - a)) (seq # taken)" "\<forall>x \<in> set (seq # taken). unat (n - x) \<le> 10000"
    and t: "\<And>x. x \<in> set taken \<Longrightarrow> x - seq - 1 \<le> 15" "\<And>k. bit bm k \<longleftrightarrow> k \<in> (\<lambda>x. unat (x - seq - 1)) ` set taken"
  shows "requested_seqs (NackItem_new seq bm) = seq # taken"
proof -
  let ?d = "\<lambda>x. unat (x - seq - 1)"
  have d: "?d x = unat (n - seq) - unat (n - x) - 1" "unat (n - x) < unat (n - seq)" if "x \<in> set taken" for x
  proof -
    have lt: "unat (n - x) < unat (n - seq)" using s(1) that by simp
    have "x - seq - 1 = (n - seq) - (n - x) - 1" by simp
    moreover have "unat ((n - seq) - (n - x)) = unat (n - seq) - unat (n - x)"
      using unat_sub [of "n - x" "n - seq"] lt unfolding word_le_nat_alt by (simp only: less_imp_le)
    moreover have "(n - seq) - (n - x) \<noteq> 0" using calculation(2) lt by auto
    ultimately show "?d x = unat (n - seq) - unat (n - x) - 1" "unat (n - x) < unat (n - seq)" using lt by (simp_all add: unat_minus_one)
  qed
  have "sorted_wrt (\<lambda>a b. ?d a < ?d b) taken"
    by (rule sorted_wrt_mono_rel [OF _ sorted_wrt.simps(2) [THEN iffD1, OF s(1), THEN conjunct2]]) (use d in fastforce)
  then have "sorted_wrt (<) (map ?d taken)" by (simp add: sorted_wrt_map)
  moreover have "set (map ?d taken) = set (filter (bit bm) [0..<16])"
  proof -
    have "?d x < 16" if "x \<in> set taken" for x
    proof -
      have "?d x \<le> unat (15 :: u16)" using t(1) [OF that] unfolding word_le_nat_alt .
      then show ?thesis by simp
    qed
    then show ?thesis by (auto simp: t(2))
  qed
  ultimately have "map ?d taken = filter (bit bm) [0..<16]"
    by (intro sorted_distinct_set_unique) (auto simp: strict_sorted_iff sorted_wrt_filter)
  then have "map (\<lambda>k. seq + 1 + of_nat k) (filter (bit bm) [0..<16]) = taken"
    by (simp add: map_idI flip: \<open>map ?d taken = _\<close>)
  then show ?thesis by (simp add: requested_seqs_def NackItem_new_def)
qed

lemma nack_items_exact:
  assumes "sorted_wrt (\<lambda>a b. unat (n - b) < unat (n - a)) seqs" "\<forall>x \<in> set seqs. unat (n - x) \<le> 10000"
  shows "concat (map requested_seqs (nack_items_of seqs)) = seqs \<and> length (nack_items_of seqs) \<le> length seqs"
  using assms
proof (induction seqs rule: nack_items_of.induct)
  case (2 seq ns)
  obtain bm rest where b: "nack_bitmask seq 0 ns = (bm, rest)" by force
  from nack_bitmask_spec [OF b] obtain taken where t: "ns = taken @ rest" "\<And>x. x \<in> set taken \<Longrightarrow> x - seq - 1 \<le> 15"
    "\<And>k. bit bm k \<longleftrightarrow> k \<in> (\<lambda>x. unat (x - seq - 1)) ` set taken" by auto
  have "requested_seqs (NackItem_new seq bm) = seq # taken"
    by (rule requested_taken [where n = n]) (use 2(2,3) t in \<open>auto simp: sorted_wrt_append\<close>)
  moreover have "concat (map requested_seqs (nack_items_of rest)) = rest \<and> length (nack_items_of rest) \<le> length rest"
    using 2(1) [OF b [symmetric]] 2(2,3) t(1) by (auto simp: sorted_wrt_append)
  ultimately show ?case using b t(1) by auto
qed simp

lemma CountRequestedPackets_length: "CountRequestedPackets item = length (requested_seqs item)"
proof -
  have "card {k. k < 16 \<and> bit (nack_lostPacketBitmask item) k} = card (set (filter (bit (nack_lostPacketBitmask item)) [0..<16]))"
    by (rule arg_cong [of _ _ card]) auto
  also have "\<dots> = length (filter (bit (nack_lostPacketBitmask item)) [0..<16])" by (rule distinct_card) simp
  finally show ?thesis by (simp add: CountRequestedPackets_spec requested_seqs_def)
qed

lemma OnNackGeneratorNackRequired_ok:
  assumes r: "requestable seqs" and use: "par_useNack (params s)"
  obtains items where "OnNackGeneratorNackRequired seqs s = Some (s\<lparr>nackCount := nackCount s + 1, nackPacketCount := nackPacketCount s + length seqs\<rparr>,
      [SendRtcpPacket (RtpFb (NackPacket \<lparr>ip_header = \<lparr>fb_messageType = fb_rtp_code NACK, fb_senderSsrc = 0, fb_mediaSsrc = par_ssrc (params s)\<rparr>,
        ip_items = items\<rparr>))])"
    "concat (map requested_seqs items) = seqs" "length items \<le> 1000"
proof -
  obtain n where n: "sorted_wrt (\<lambda>a b. unat (n - b) < unat (n - a)) seqs" "\<forall>x \<in> set seqs. unat (n - x) \<le> 10000" "seqs \<noteq> []" "length seqs \<le> 1000"
    using r by (auto simp: requestable_def)
  let ?items = "nack_items_of seqs"
  have i: "concat (map requested_seqs ?items) = seqs" "length ?items \<le> 1000" using nack_items_exact [OF n(1,2)] n(4) by auto
  have "sum_list (map CountRequestedPackets ?items) = length (concat (map requested_seqs ?items))"
    by (simp add: CountRequestedPackets_length [abs_def] length_concat comp_def)
  then have "sum_list (map CountRequestedPackets ?items) = length seqs" using i(1) by simp
  moreover have "ItemsPacket_GetSize NackItem_ops \<lparr>ip_header = h, ip_items = ?items\<rparr> \<le> 65536" for h
    using i(2) by (simp add: ItemsPacket_GetSize_def NackItem_ops_def sum_list_triv)
  ultimately show ?thesis using that [of ?items] i n(3) use
    by (auto simp: OnNackGeneratorNackRequired_def Let_def not_less [symmetric])
qed

text \<open>C7: Every list of lost packets that the NACK generator of a stream asks for, in any run, is sent as one NACK packet that fits the RTCP
  buffer and that the sender of the stream parses back; its items request exactly the numbers of the list, in their order, and the counters
  of the stream grow by one packet and by that many numbers.\<close>

theorem nack_requests_exactly:
  assumes "nack_run ops NackGenerator_new = Some (evs, ng)" and "NackRequired seqs \<in> set evs" and "par_useNack (params s)"
  shows "\<exists>packet b. OnNackGeneratorNackRequired seqs s =
      Some (s\<lparr>nackCount := nackCount s + 1, nackPacketCount := nackPacketCount s + length seqs\<rparr>, [SendRtcpPacket (RtpFb (NackPacket packet))]) \<and>
    rtcp_Serialize (RtpFb (NackPacket packet)) = Some b \<and> length b \<le> 65536 \<and> Packet_Parse b = Some [RtpFb (NackPacket packet)] \<and>
    fb_mediaSsrc (ip_header packet) = par_ssrc (params s) \<and> concat (map requested_seqs (ip_items packet)) = seqs"
proof -
  have r: "requestable seqs" by (rule nack_run_requestable [OF ng_inv_new assms(1,2)])
  obtain items where o: "OnNackGeneratorNackRequired seqs s = Some (s\<lparr>nackCount := nackCount s + 1, nackPacketCount := nackPacketCount s + length seqs\<rparr>,
      [SendRtcpPacket (RtpFb (NackPacket \<lparr>ip_header = \<lparr>fb_messageType = fb_rtp_code NACK, fb_senderSsrc = 0, fb_mediaSsrc = par_ssrc (params s)\<rparr>,
        ip_items = items\<rparr>))])" "concat (map requested_seqs items) = seqs" "length items \<le> 1000"
    by (rule OnNackGeneratorNackRequired_ok [OF r assms(3)])
  let ?p = "\<lparr>ip_header = \<lparr>fb_messageType = fb_rtp_code NACK, fb_senderSsrc = 0, fb_mediaSsrc = par_ssrc (params s)\<rparr>, ip_items = items\<rparr>"
  have sz: "rtcp_GetSize (RtpFb (NackPacket ?p)) \<le> 65536" using o(3) by (simp add: ItemsPacket_GetSize_def NackItem_ops_def sum_list_triv)
  then obtain b where "rtcp_Serialize (RtpFb (NackPacket ?p)) = Some b" "length b \<le> 65536" "parses_to b [RtpFb (NackPacket ?p)]"
    using valid_parses_to [of "RtpFb (NackPacket ?p)"] by auto
  with o show ?thesis using parses_to_Parse by (intro exI [of _ ?p] exI [of _ b]) auto
qed

text \<open>A stream for the example.\<close>

definition recv_example :: rtp_stream_recv where
  "recv_example = the (RtpStreamRecv_new example_params \<lparr>mime_ty = MIME_VIDEO, mime_sub = SUB_VP8\<rparr> 0)"

lemma recv_example_params: "params recv_example = example_params"
proof -
  obtain t where "Timer_Start 0 1500 0 Timer_new = Some t" by (rule Timer_Start_new [of 0 1500]) simp_all
  then show ?thesis by (simp add: recv_example_def RtpStreamRecv_new_def example_params_def)
qed

lemma nack_run_example:
  "nack_run [Receive 7 65534 False False, Receive 9 2 False False] NackGenerator_new = Some ([NackRequired [65535, 0, 1]],
     the (map_option snd (nack_run [Receive 7 65534 False False, Receive 9 2 False False] NackGenerator_new)))"
  by code_simp

theorem nack_requests_exactly_witness:
  "\<exists>packet s. OnNackGeneratorNackRequired [65535, 0, 1] recv_example = Some (s, [SendRtcpPacket (RtpFb (NackPacket packet))]) \<and>
    concat (map requested_seqs (ip_items packet)) = [65535, 0, 1] \<and> nackPacketCount s = nackPacketCount recv_example + 3"
  using nack_requests_exactly [OF nack_run_example, of "[65535, 0, 1]" recv_example] by (auto simp: recv_example_params example_params_def)

end
