(* ===== verification/RtpStreamRecv_Runs.thy ===== *)
theory RtpStreamRecv_Runs
  imports RtpStreamRecv
begin

text \<open>
  Runs of a received stream: the operations that the \<^verbatim>\<open>Producer\<close> and the event loop call on a \<^verbatim>\<open>RTC::RtpStreamRecv\<close> (all but the
  bit rate getters, which only discard old items of the rate counters), its invariant, and that no operation of a run fails, except a receiver
  report whose loss statistics overflow.
\<close>

subsection \<open>Operations\<close>

datatype recv_op =
  RecvPacket "codec_handler rtp_packet"
| RecvRtx "codec_handler rtp_packet"
| RecvSenderReport SenderReport
| RecvRtxSenderReport SenderReport
| RecvXr u32 u32
| RecvPause
| RecvResume
| RecvSetRtx u8 u32
| RecvKeyFrame
| RecvTimer
| RecvNackTimer
| RecvReport u8
| RecvRtxReport

text \<open>An RTX packet reaches the stream by its SSRC; timers fire when they are due.\<close>

fun recv_handle ::
  "(u32 \<Rightarrow> u32 \<Rightarrow> u32 \<Rightarrow> u32 \<Rightarrow> u8) \<Rightarrow> (u32 \<Rightarrow> u32) \<Rightarrow> u64 \<Rightarrow> recv_op \<Rightarrow> rtp_stream_recv \<Rightarrow> (rtp_stream_recv \<times> recv_event list) option" where
  "recv_handle scoreOf rttMs now (RecvPacket p) s = map_option (\<lambda>(ok, p, s, ev). (s, ev)) (Recv_ReceivePacket now p s)"
| "recv_handle scoreOf rttMs now (RecvRtx p) s =
     (if GetSsrc p = Some (par_rtxSsrc (params s)) then map_option (\<lambda>(ok, p, s, ev). (s, ev)) (ReceiveRtxPacket now p s) else Some (s, []))"
| "recv_handle scoreOf rttMs now (RecvSenderReport r) s = Recv_ReceiveRtcpSenderReport scoreOf now r s"
| "recv_handle scoreOf rttMs now (RecvRtxSenderReport r) s = Some (ReceiveRtxRtcpSenderReport now r s, [])"
| "recv_handle scoreOf rttMs now (RecvXr lastRr dlrr) s = map_option (\<lambda>s. (s, [])) (ReceiveRtcpXrDelaySinceLastRr rttMs now lastRr dlrr s)"
| "recv_handle scoreOf rttMs now RecvPause s = map_option (\<lambda>s. (s, [])) (Recv_Pause s)"
| "recv_handle scoreOf rttMs now RecvResume s = map_option (\<lambda>s. (s, [])) (Recv_Resume now s)"
| "recv_handle scoreOf rttMs now (RecvSetRtx pt ssrc) s = Some (SetRtx pt ssrc s, [])"
| "recv_handle scoreOf rttMs now RecvKeyFrame s = Some (RequestKeyFrame s)"
| "recv_handle scoreOf rttMs now RecvTimer s =
     (if Timer_due now (inactivityCheckPeriodicTimer s)
      then Some (Recv_OnTimer now (s\<lparr>inactivityCheckPeriodicTimer := Timer_fired now (inactivityCheckPeriodicTimer s)\<rparr>))
      else Some (s, []))"
| "recv_handle scoreOf rttMs now RecvNackTimer s =
     (if (case nackGenerator s of None \<Rightarrow> False | Some ng \<Rightarrow> ng_timer ng) then nack_timer now s else Some (s, []))"
| "recv_handle scoreOf rttMs now (RecvReport worst) s = map_option (\<lambda>(r, s). (s, [])) (Recv_GetRtcpReceiverReport now worst s)"
| "recv_handle scoreOf rttMs now RecvRtxReport s = map_option (\<lambda>(r, s). (s, [])) (GetRtxRtcpReceiverReport now s)"

fun recv_run ::
  "(u32 \<Rightarrow> u32 \<Rightarrow> u32 \<Rightarrow> u32 \<Rightarrow> u8) \<Rightarrow> (u32 \<Rightarrow> u32) \<Rightarrow> (u64 \<times> recv_op) list \<Rightarrow> rtp_stream_recv \<Rightarrow> (rtp_stream_recv \<times> recv_event list) option" where
  "recv_run scoreOf rttMs [] s = Some (s, [])"
| "recv_run scoreOf rttMs ((now, op) # ops) s = do {
     (s, ev) \<leftarrow> recv_handle scoreOf rttMs now op s;
     (s, evs) \<leftarrow> recv_run scoreOf rttMs ops s;
     Some (s, ev @ evs) }"

text \<open>Packets come from the parser with a spare byte behind them and are not yet processed by a codec.\<close>

definition recv_packet_ok :: "codec_handler rtp_packet \<Rightarrow> bool" where
  "recv_packet_ok p \<longleftrightarrow> rtp_wf p \<and> rtp_size p < length (rtp_mem p) \<and> payloadDescriptorHandler p = None"

fun recv_op_ok :: "recv_op \<Rightarrow> bool" where
  "recv_op_ok (RecvPacket p) \<longleftrightarrow> recv_packet_ok p"
| "recv_op_ok (RecvRtx p) \<longleftrightarrow> recv_packet_ok p"
| "recv_op_ok _ \<longleftrightarrow> True"

text \<open>The clock does not go back. It has counted the longest rate window before the stream is made, and the \<^verbatim>\<open>int\<close> of the jitter
  computation bounds it above: the stream ends within \<open>2 ^ 31 - 2 ^ 23\<close> milliseconds (about 24 days), during which the clock does not pass an
  odd multiple of \<open>2 ^ 31\<close>.\<close>

fun recv_clock_ok :: "u64 \<times> u64 \<Rightarrow> bool" where
  "recv_clock_ok (lo, hi) \<longleftrightarrow> 6000 \<le> lo \<and> unat hi < unat lo + (2 ^ 31 - 2 ^ 23) \<and> unat hi < 2 ^ 63 \<and>
     (unat lo + (2 ^ 31 - 2 ^ 23)) div 2 ^ 32 = (unat hi + 2 ^ 31) div 2 ^ 32"

definition recv_time_ok :: "u64 \<times> u64 \<Rightarrow> u64 \<Rightarrow> bool" where
  "recv_time_ok w t \<longleftrightarrow> recv_clock_ok w \<and> fst w \<le> t \<and> t \<le> snd w"

definition recv_ops_ok :: "u64 \<Rightarrow> (u64 \<times> recv_op) list \<Rightarrow> bool" where
  "recv_ops_ok startMs ops \<longleftrightarrow> sorted (startMs # map fst ops) \<and> recv_clock_ok (startMs, last (startMs # map fst ops)) \<and>
     length ops < 2 ^ 32 \<and> (\<forall>(t, op) \<in> set ops. recv_op_ok op)"

text \<open>The parameters that the \<^verbatim>\<open>Producer\<close> gives: at least one layer and a clock rate of at least 1000.\<close>

definition recv_params_ok :: "rtp_params \<Rightarrow> bool" where
  "recv_params_ok pars \<longleftrightarrow> par_spatialLayers pars \<noteq> 0 \<and> par_temporalLayers pars \<noteq> 0 \<and> (par_clockRate pars = 0 \<or> 1000 \<le> par_clockRate pars)"

subsection \<open>Events\<close>

primrec score_events :: "recv_event list \<Rightarrow> score_event list" where
  "score_events [] = []"
| "score_events (e # es) = (case e of RecvScore x \<Rightarrow> [x] | SendRtcpPacket _ \<Rightarrow> []) @ score_events es"

lemma score_events_append [simp]: "score_events (a @ b) = score_events a @ score_events b"
  by (induction a) simp_all

lemma score_events_map [simp]: "score_events (map RecvScore l) = l"
  by (induction l) simp_all

text \<open>A packet that is handed to the listener can be serialized into its buffer and is parsed back by the remote side.\<close>

primrec event_sendable :: "recv_event \<Rightarrow> bool" where
  "event_sendable (RecvScore x) \<longleftrightarrow> True"
| "event_sendable (SendRtcpPacket p) \<longleftrightarrow> (\<exists>b. rtcp_Serialize p = Some b \<and> length b \<le> 65536 \<and> Packet_Parse b = Some [p])"

lemma sendable_valid:
  assumes "rtcp_valid p" "rtcp_GetSize p \<le> 65536"
  shows "event_sendable (SendRtcpPacket p)"
  using valid_parses_to [OF assms(1)] assms(2) parses_to_Parse by fastforce

text \<open>Requests change only the statistics of the stream.\<close>

definition same_but_stats :: "rtp_stream_recv \<Rightarrow> rtp_stream_recv \<Rightarrow> bool" where
  "same_but_stats s s' \<longleftrightarrow> (\<exists>a b c d e. s' = s\<lparr>nackCount := a, nackPacketCount := b, pliCount := c, firCount := d, firSeqNumber := e\<rparr>)"

lemma same_but_stats_trans: "same_but_stats a b \<Longrightarrow> same_but_stats b c \<Longrightarrow> same_but_stats a c"
  unfolding same_but_stats_def by (elim exE) (simp, blast)

lemma same_but_statsI:
  "same_but_stats s s" "same_but_stats s (s\<lparr>pliCount := a\<rparr>)" "same_but_stats s (s\<lparr>firSeqNumber := e, firCount := a\<rparr>)"
  "same_but_stats s (s\<lparr>nackCount := a, nackPacketCount := b\<rparr>)"
proof -
  have "s = s\<lparr>nackCount := nackCount s, nackPacketCount := nackPacketCount s, pliCount := pliCount s, firCount := firCount s, firSeqNumber := firSeqNumber s\<rparr>"
    "s\<lparr>pliCount := a\<rparr> = s\<lparr>nackCount := nackCount s, nackPacketCount := nackPacketCount s, pliCount := a, firCount := firCount s, firSeqNumber := firSeqNumber s\<rparr>"
    "s\<lparr>firSeqNumber := e, firCount := a\<rparr> =
       s\<lparr>nackCount := nackCount s, nackPacketCount := nackPacketCount s, pliCount := pliCount s, firCount := a, firSeqNumber := e\<rparr>"
    "s\<lparr>nackCount := a, nackPacketCount := b\<rparr> =
       s\<lparr>nackCount := a, nackPacketCount := b, pliCount := pliCount s, firCount := firCount s, firSeqNumber := firSeqNumber s\<rparr>" by simp_all
  then show "same_but_stats s s" "same_but_stats s (s\<lparr>pliCount := a\<rparr>)" "same_but_stats s (s\<lparr>firSeqNumber := e, firCount := a\<rparr>)"
    "same_but_stats s (s\<lparr>nackCount := a, nackPacketCount := b\<rparr>)" unfolding same_but_stats_def by blast+
qed

definition only_requests :: "recv_event list \<Rightarrow> bool" where
  "only_requests ev \<longleftrightarrow> (\<forall>e \<in> set ev. event_sendable e) \<and> score_events ev = []"

lemma RequestKeyFrame_ok:
  assumes "RequestKeyFrame s = (s', ev)"
  shows "same_but_stats s s' \<and> only_requests ev"
proof -
  let ?h = "\<lambda>ty. \<lparr>fb_messageType = ty, fb_senderSsrc = par_ssrc (params s), fb_mediaSsrc = par_ssrc (params s)\<rparr>"
  have "event_sendable (SendRtcpPacket (PsFb (PliPacket (?h (fb_ps_code PLI)))))" by (rule sendable_valid) simp_all
  moreover have "event_sendable (SendRtcpPacket (PsFb (FirPacket \<lparr>ip_header = ?h (fb_ps_code FIR), ip_items = [FirItem_new ssrc n]\<rparr>)))" for ssrc n
    by (rule sendable_valid) (simp_all add: ItemsPacket_GetSize_def FirItem_ops_def FirItem_new_def)
  ultimately show ?thesis using assms same_but_statsI [of s] by (auto simp: RequestKeyFrame_def only_requests_def Let_def split: if_splits)
qed

lemma NackRequired_ok:
  assumes "requestable seqs" "par_useNack (params s)"
  obtains s' ev where "OnNackGeneratorNackRequired seqs s = Some (s', ev)" "same_but_stats s s'" "only_requests ev"
proof -
  let ?h = "\<lparr>fb_messageType = fb_rtp_code NACK, fb_senderSsrc = 0, fb_mediaSsrc = par_ssrc (params s)\<rparr>"
  obtain items where o: "OnNackGeneratorNackRequired seqs s = Some (s\<lparr>nackCount := nackCount s + 1, nackPacketCount := nackPacketCount s + length seqs\<rparr>,
      [SendRtcpPacket (RtpFb (NackPacket \<lparr>ip_header = ?h, ip_items = items\<rparr>))])" "concat (map requested_seqs items) = seqs" "length items \<le> 1000"
    by (rule OnNackGeneratorNackRequired_ok [OF assms])
  have "event_sendable (SendRtcpPacket (RtpFb (NackPacket \<lparr>ip_header = ?h, ip_items = items\<rparr>)))"
    by (rule sendable_valid) (use o(3) in \<open>simp_all add: ItemsPacket_GetSize_def NackItem_ops_def sum_list_triv\<close>)
  then show ?thesis using that [OF o(1) same_but_statsI(4)] by (simp add: only_requests_def)
qed

lemma on_nack_events_ok:
  assumes "\<forall>seqs. NackRequired seqs \<in> set nev \<longrightarrow> requestable seqs" and "par_useNack (params s)"
  shows "\<exists>s' ev. on_nack_events nev s = Some (s', ev) \<and> same_but_stats s s' \<and> only_requests ev"
  using assms
proof (induction nev arbitrary: s)
  case Nil
  then show ?case by (simp add: only_requests_def same_but_statsI)
next
  case (Cons e nev)
  have "\<exists>s1 ev1. (case e of NackRequired seqs \<Rightarrow> OnNackGeneratorNackRequired seqs s | KeyFrameRequired \<Rightarrow> Some (RequestKeyFrame s)) = Some (s1, ev1) \<and>
    same_but_stats s s1 \<and> only_requests ev1"
  proof (cases e)
    case (NackRequired seqs)
    then have "requestable seqs" using Cons.prems(1) by simp
    from NackRequired_ok [OF this Cons.prems(2)] obtain s1 ev1 where "OnNackGeneratorNackRequired seqs s = Some (s1, ev1)"
      "same_but_stats s s1" "only_requests ev1" by blast
    then show ?thesis using NackRequired by auto
  next
    case KeyFrameRequired
    then show ?thesis using RequestKeyFrame_ok [of s] by (cases "RequestKeyFrame s") auto
  qed
  then obtain s1 ev1 where s1: "(case e of NackRequired seqs \<Rightarrow> OnNackGeneratorNackRequired seqs s | KeyFrameRequired \<Rightarrow> Some (RequestKeyFrame s)) = Some (s1, ev1)"
    "same_but_stats s s1" "only_requests ev1" by blast
  then have "params s1 = params s" by (auto simp: same_but_stats_def)
  with Cons.IH [of s1] Cons.prems obtain s' ev where "on_nack_events nev s1 = Some (s', ev)" "same_but_stats s1 s'" "only_requests ev" by auto
  with s1 show ?case using same_but_stats_trans [OF s1(2)] by (auto simp: only_requests_def)
qed

subsection \<open>Counters\<close>

definition counter_ok :: "nat \<Rightarrow> u64 \<Rightarrow> rtp_data_counter \<Rightarrow> bool" where
  "counter_ok ws now c \<longleftrightarrow> (\<exists>us w t. rc_after ws 100 us (dc_rate c) w t \<and> t \<le> unat now)"

lemma counter_ok_new: "counter_ok ws now (RtpDataCounter_new ws)"
proof -
  have "rc_after ws 100 [] (RateCalculator_new ws 100) ([], 0) 0" by (rule rc_after_new) simp
  then show ?thesis unfolding counter_ok_def RtpDataCounter_new_def by fastforce
qed

lemma counter_ok_later: "counter_ok ws now c \<Longrightarrow> now \<le> now' \<Longrightarrow> counter_ok ws now' c"
  unfolding counter_ok_def word_le_nat_alt by (meson order_trans)

lemma counter_ok_update:
  assumes "counter_ok ws now c" "now \<le> now'" "100 \<le> ws" "ws \<le> unat now'"
  obtains c' where "RtpDataCounter_Update sz (unat now') c = Some c'" "counter_ok ws now' c'"
proof -
  obtain us w t where t: "rc_after ws 100 us (dc_rate c) w t" "t \<le> unat now'"
    using counter_ok_later [OF assms(1,2)] by (auto simp: counter_ok_def)
  have "unat now' < 2 ^ 64" using unat_less [of now'] by simp
  from rc_after_update [OF t(1) _ assms(3) t(2) assms(4) this, of sz] obtain r where
    "RateCalculator_Update sz (unat now') (dc_rate c) = Some r"
    "rc_after ws 100 (us @ [(unat now', sz)]) r (window_step ws 100 (unat now', sz) w) (unat now')" by auto
  moreover from this(2) have "counter_ok ws now' (c\<lparr>dc_packets := add64 (dc_packets c) 1, dc_rate := r\<rparr>)"
    unfolding counter_ok_def by (simp del: split_paired_Ex) blast
  ultimately show ?thesis using that by (simp add: RtpDataCounter_Update_def)
qed

text \<open>The vector of vectors has the shape of the layers.\<close>

definition layers_ok :: "nat \<Rightarrow> nat \<Rightarrow> nat \<Rightarrow> u64 \<Rightarrow> layer_counters \<Rightarrow> bool" where
  "layers_ok a b ws now css \<longleftrightarrow> length css = a \<and> (\<forall>cs \<in> set css. length cs = b \<and> (\<forall>c \<in> set cs. counter_ok ws now c))"

lemma layers_ok_later: "layers_ok a b ws now css \<Longrightarrow> now \<le> now' \<Longrightarrow> layers_ok a b ws now' css"
  using counter_ok_later by (fastforce simp: layers_ok_def)

lemma layers_ok_update:
  assumes ok: "layers_ok a b ws now css" and i: "i < length css" and c: "counter_ok ws now c"
  shows "layers_ok a b ws now (css[i := (css ! i)[j := c]])"
proof -
  have "length ((css ! i)[j := c]) = b \<and> (\<forall>c \<in> set ((css ! i)[j := c]). counter_ok ws now c)"
    using ok c nth_mem [OF i] set_update_subset_insert [of "css ! i" j c] by (fastforce simp: layers_ok_def)
  then show ?thesis
    using ok set_update_subset_insert [of css i "(css ! i)[j := c]"] by (fastforce simp: layers_ok_def)
qed

lemma TransmissionCounter_Update_ok:
  assumes ok: "layers_ok a b ws now css" and pos: "0 < a" "0 < b" and t: "now \<le> now'" "100 \<le> ws" "ws \<le> unat now'"
  obtains css' where "TransmissionCounter_Update sl tmp sz (unat now') css = Some css'" "layers_ok a b ws now' css'"
proof -
  let ?s = "if unat sl > length css - 1 then length css - 1 else unat sl" and ?t = "if unat tmp > length (hd css) - 1 then length (hd css) - 1 else unat tmp"
  have css: "length css = a" "\<And>cs. cs \<in> set css \<Longrightarrow> length cs = b" "\<And>cs c. cs \<in> set css \<Longrightarrow> c \<in> set cs \<Longrightarrow> counter_ok ws now c"
    using ok by (auto simp: layers_ok_def)
  have s: "?s < length css" "css \<noteq> []" using css(1) pos(1) by (simp, linarith, fastforce)
  then have h: "length (hd css) = b" by (intro css(2)) simp
  have t': "?t < b" "hd css \<noteq> []" using h pos(2) by (simp, linarith, fastforce)
  have m: "css ! ?s \<in> set css" using s(1) by (rule nth_mem)
  then have l: "?t < length (css ! ?s)" using css(2) t' by simp
  have "counter_ok ws now (css ! ?s ! ?t)" using css(3) [OF m nth_mem [OF l]] .
  then obtain c where c: "RtpDataCounter_Update sz (unat now') (css ! ?s ! ?t) = Some c" "counter_ok ws now' c"
    using counter_ok_update [OF _ t] by blast
  have "layers_ok a b ws now' (css[?s := (css ! ?s)[?t := c]])"
    by (rule layers_ok_update [OF layers_ok_later [OF ok t(1)] s(1) c(2)])
  moreover have "TransmissionCounter_Update sl tmp sz (unat now') css = Some (css[?s := (css ! ?s)[?t := c]])"
    using s(2) t'(2) l c(1) by (simp only: TransmissionCounter_Update_def Let_def if_True if_False Option.bind.simps simp_thms)
  ultimately show ?thesis using that by blast
qed

subsection \<open>Invariant\<close>

definition rate_window :: "rtp_params \<Rightarrow> nat" where
  "rate_window pars = (if par_useDtx pars then 6000 else 2500)"

definition inactivity_interval :: "rtp_params \<Rightarrow> u64" where
  "inactivity_interval pars = (if par_useDtx pars then InactivityCheckIntervalWithDtx else InactivityCheckInterval)"

definition nack_inv :: "rtp_stream_recv \<Rightarrow> bool" where
  "nack_inv s \<longleftrightarrow> (nackGenerator s \<noteq> None \<longleftrightarrow> par_useNack (params s)) \<and> (\<forall>ng. nackGenerator s = Some ng \<longrightarrow> ng_inv ng)"

definition stats_inv :: "nat \<Rightarrow> rtp_stream_recv \<Rightarrow> bool" where
  "stats_inv n s \<longleftrightarrow> repairedPriorScore s \<le> packetsRepaired s \<and> retransmittedPriorScore s \<le> packetsRetransmitted s \<and>
     packetsRepaired s - repairedPriorScore s \<le> packetsRetransmitted s - retransmittedPriorScore s \<and> packetsRetransmitted s \<le> n"

definition activity_inv :: "rtp_stream_recv \<Rightarrow> bool" where
  "activity_inv s \<longleftrightarrow> one_shot (inactivity_interval (params s)) (inactivityCheckPeriodicTimer s) \<and>
     (inactive s \<longrightarrow> score (strm_score s) = 0 \<and> \<not> Timer_IsActive (inactivityCheckPeriodicTimer s))"

text \<open>The transit times lie in the window of the clock, reduced modulo \<open>2 ^ 32\<close>, or are reset.\<close>

definition clock_epoch :: "u64 \<times> u64 \<Rightarrow> int" where
  "clock_epoch w = int ((unat (fst w) + (2 ^ 31 - 2 ^ 23)) div 2 ^ 32) * 2 ^ 32"

definition transit_ok :: "u64 \<times> u64 \<Rightarrow> int \<Rightarrow> bool" where
  "transit_ok w x \<longleftrightarrow> x = 0 \<or> int (unat (fst w)) - clock_epoch w - 2 ^ 23 < x \<and> x \<le> int (unat (snd w)) - clock_epoch w"

lemma transit_ok_0 [simp]: "transit_ok w 0"
  by (simp add: transit_ok_def)

definition recv_inv :: "u64 \<times> u64 \<Rightarrow> nat \<Rightarrow> nat \<Rightarrow> u64 \<Rightarrow> nat \<Rightarrow> rtp_stream_recv \<Rightarrow> bool" where
  "recv_inv w a b now n s \<longleftrightarrow> nack_inv s \<and> stats_inv n s \<and> activity_inv s \<and> recv_params_ok (params s) \<and>
     transit_ok w (transit s) \<and>
     layers_ok a b (rate_window (params s)) now (layerCounters s) \<and> counter_ok 2500 now (mediaTransmissionCounter s) \<and> 0 < a \<and> 0 < b"

lemmas recv_inv_defs = recv_inv_def nack_inv_def stats_inv_def activity_inv_def

lemma same_but_stats_inv:
  assumes "same_but_stats s s'"
  shows "recv_inv w a b now n s' \<longleftrightarrow> recv_inv w a b now n s" "params s' = params s" "strm_score s' = strm_score s" "rtxStream s' = rtxStream s"
  using assms by (auto simp: same_but_stats_def recv_inv_defs)

lemma recv_inv_later: "recv_inv w a b now n s \<Longrightarrow> now \<le> now' \<Longrightarrow> n \<le> n' \<Longrightarrow> recv_inv w a b now' n' s"
  using counter_ok_later layers_ok_later by (auto simp: recv_inv_def stats_inv_def)

lemma recv_inv_new:
  assumes ok: "recv_params_ok pars" and now: "unat now + 5000 < 2 ^ 64"
  obtains s where "RtpStreamRecv_new pars t now = Some s" "recv_inv w (unat (par_spatialLayers pars)) (unat (par_temporalLayers pars)) now 0 s"
    "params s = pars" "score (strm_score s) = 10"
proof -
  have "unat now + unat (inactivity_interval pars) < 2 ^ 64" using now by (simp add: inactivity_interval_def)
  then obtain tm where tm: "Timer_Start now (inactivity_interval pars) 0 Timer_new = Some tm"
    "armed (inactivity_interval pars) (unat now + unat (inactivity_interval pars)) tm" by (rule Timer_Start_new)
  have pos: "0 < unat (par_spatialLayers pars)" "0 < unat (par_temporalLayers pars)"
    using ok by (simp_all add: recv_params_ok_def unat_gt_0)
  obtain s where s: "RtpStreamRecv_new pars t now = Some s" and f: "params s = pars" "nackGenerator s = (if par_useNack pars then Some NackGenerator_new else None)"
    "inactivityCheckPeriodicTimer s = tm" "\<not> inactive s" "score (strm_score s) = 10" "transit s = 0" "mediaTransmissionCounter s = RtpDataCounter_new 2500"
    "layerCounters s = TransmissionCounter_new (par_spatialLayers pars) (par_temporalLayers pars) (rate_window pars)"
    "packetsRepaired s = 0" "repairedPriorScore s = 0" "packetsRetransmitted s = 0" "retransmittedPriorScore s = 0"
    using tm(1) by (simp add: RtpStreamRecv_new_def inactivity_interval_def rate_window_def rtp_score_new_def)
  have "layers_ok (unat (par_spatialLayers pars)) (unat (par_temporalLayers pars)) (rate_window pars) now (layerCounters s)"
    by (auto simp: f TransmissionCounter_new_def layers_ok_def counter_ok_new)
  then have "recv_inv w (unat (par_spatialLayers pars)) (unat (par_temporalLayers pars)) now 0 s"
    using f ok pos armed_one_shot [OF tm(2)] by (simp add: recv_inv_defs ng_inv_new counter_ok_new)
  with s f show ?thesis using that by blast
qed

subsection \<open>Jitter\<close>

lemma epoch_bounds:
  assumes "recv_clock_ok w"
  shows "- (2 ^ 31) + 2 ^ 23 \<le> int (unat (fst w)) - clock_epoch w" "int (unat (snd w)) - clock_epoch w < 2 ^ 31"
    "int (unat (snd w)) < int (unat (fst w)) + (2 ^ 31 - 2 ^ 23)"
proof -
  obtain lo hi where w: "w = (lo, hi)" by force
  define k where "k = (unat lo + (2 ^ 31 - 2 ^ 23)) div 2 ^ 32"
  have k: "k = (unat hi + 2 ^ 31) div 2 ^ 32" "unat hi < unat lo + (2 ^ 31 - 2 ^ 23)" using assms by (simp_all add: w k_def)
  have "k * 2 ^ 32 \<le> unat lo + (2 ^ 31 - 2 ^ 23)" unfolding k_def by (rule div_times_less_eq_dividend)
  moreover have "unat hi + 2 ^ 31 < k * 2 ^ 32 + 2 ^ 32"
    using dividend_less_div_times [of "2 ^ 32" "unat hi + 2 ^ 31"] unfolding k(1) by simp
  moreover have "clock_epoch w = int (k * 2 ^ 32)" by (simp add: clock_epoch_def w k_def)
  moreover have "- (2 ^ 31) + 2 ^ 23 \<le> int l - int (k * 2 ^ 32) \<and> int h - int (k * 2 ^ 32) < 2 ^ 31 \<and> int h < int l + (2 ^ 31 - 2 ^ 23)"
    if "k * 2 ^ 32 \<le> l + (2 ^ 31 - 2 ^ 23)" "h + 2 ^ 31 < k * 2 ^ 32 + 2 ^ 32" "h < l + (2 ^ 31 - 2 ^ 23)" for l h
    using that by auto
  ultimately show "- (2 ^ 31) + 2 ^ 23 \<le> int (unat (fst w)) - clock_epoch w" "int (unat (snd w)) - clock_epoch w < 2 ^ 31"
    "int (unat (snd w)) < int (unat (fst w)) + (2 ^ 31 - 2 ^ 23)" using k(2) unfolding w fst_conv snd_conv by metis+
qed

lemma transit_bounds:
  assumes t: "recv_time_ok w t" and y: "y < (2 ^ 23 :: nat)" and tr: "transit_ok w tr"
  defines "x \<equiv> int (unat t) - clock_epoch w - int y"
  shows "\<not> (x - tr \<le> - (2 ^ 31) \<or> 2 ^ 31 \<le> x - tr)" "transit_ok w x" "- (2 ^ 31) \<le> x" "x < 2 ^ 31"
proof -
  have w: "recv_clock_ok w" "int (unat (fst w)) \<le> int (unat t)" "int (unat t) \<le> int (unat (snd w))"
    using t by (simp_all add: recv_time_ok_def word_le_def)
  note e = epoch_bounds [OF w(1)]
  have y': "0 \<le> int y" "int y < 2 ^ 23" using y by simp_all
  have x: "int (unat (fst w)) - clock_epoch w - 2 ^ 23 < x" "x \<le> int (unat (snd w)) - clock_epoch w"
    using w(2,3) y' unfolding x_def by linarith+
  then show "transit_ok w x" by (simp add: transit_ok_def)
  show xb: "- (2 ^ 31) \<le> x" "x < 2 ^ 31" using x e(1,2) by linarith+
  have lower: "- (2 ^ 31) < x" using x(1) e(1) by linarith
  show "\<not> (x - tr \<le> - (2 ^ 31) \<or> 2 ^ 31 \<le> x - tr)"
  proof (cases "tr = 0")
    case True
    then show ?thesis using lower xb(2) by simp
  next
    case False
    then have "int (unat (fst w)) - clock_epoch w - 2 ^ 23 < tr" "tr \<le> int (unat (snd w)) - clock_epoch w" using tr by (simp_all add: transit_ok_def)
    with x e(3) show ?thesis by linarith
  qed
qed

lemma sint_transit:
  fixes now :: u64 and q :: u32
  assumes "- (2 ^ 31) \<le> int (unat now) - k * 2 ^ 32 - int (unat q)" "int (unat now) - k * 2 ^ 32 - int (unat q) < 2 ^ 31"
  shows "sint (ucast (now - ucast q) :: u32) = int (unat now) - k * 2 ^ 32 - int (unat q)"
proof -
  have w: "(ucast (now - ucast q) :: u32) = word_of_int (int (unat now) - k * 2 ^ 32 - int (unat q))"
  proof -
    have "uint (now - ucast q) = (uint now - uint (ucast q :: u64)) mod 2 ^ 64"
      by (simp only: uint_word_ariths(2) len_bit0 len_num1) simp
    then have "(ucast (now - ucast q) :: u32) = word_of_int ((uint now - uint q) mod 2 ^ 64)"
      using uint_up_ucast [of q, where 'b = 64] by (simp only: ucast_eq is_up len_bit0 len_num1)
    also have "\<dots> = word_of_int (uint now - uint q)"
      by (simp only: word_of_int_eq_iff take_bit_eq_mod len_bit0 len_num1) (rule mod_mod_cancel, simp)
    also have "\<dots> = word_of_int (uint now - uint q + (- k) * 2 ^ 32)"
      by (simp only: word_of_int_eq_iff take_bit_eq_mod len_bit0 len_num1) (simp add: mod_diff_eq [symmetric, of _ "k * _"])
    finally show ?thesis by (simp add: algebra_simps)
  qed
  show ?thesis
    unfolding w sint_sbintrunc' using assms by (intro signed_take_bit_int_eq_self) simp_all
qed

lemma CalculateJitter_ok:
  assumes inv: "recv_inv w a b now n s" and t: "recv_time_ok w t"
  obtains tr jt where "CalculateJitter t ts s = Some (s\<lparr>transit := tr, jitter := jt\<rparr>)" "recv_inv w a b now n (s\<lparr>transit := tr, jitter := jt\<rparr>)"
proof (cases "par_clockRate (params s) = 0")
  case True
  then show ?thesis using inv that [where tr = "transit s" and jt = "jitter s"] by (simp add: CalculateJitter_def)
next
  case False
  let ?q = "ts * 1000 div par_clockRate (params s)"
  let ?k = "int ((unat (fst w) + (2 ^ 31 - 2 ^ 23)) div 2 ^ 32)"
  let ?tr = "int (unat t) - ?k * 2 ^ 32 - int (unat ?q)"
  have c: "1000 \<le> unat (par_clockRate (params s))" using False inv by (simp add: recv_inv_def recv_params_ok_def word_le_nat_alt)
  have "unat ?q = unat (ts * 1000) div unat (par_clockRate (params s))" by (rule unat_div)
  also have "\<dots> \<le> unat (ts * 1000) div 1000" using c by (intro div_le_mono2) simp_all
  also have "\<dots> < 2 ^ 23" using unat_less [of "ts * 1000"] by simp
  finally have q: "unat ?q < 2 ^ 23" .
  have "transit_ok w (transit s)" using inv by (simp add: recv_inv_def)
  note d = transit_bounds [OF t q this, unfolded clock_epoch_def]
  have inv': "recv_inv w a b now n (s\<lparr>transit := ?tr, jitter := j\<rparr>)" for j using inv d(2) by (simp add: recv_inv_defs)
  have "CalculateJitter t ts s = Some (s\<lparr>transit := ?tr, jitter := if transit s = 0 then jitter s
      else of_nat ((15 * unat (jitter s) + nat \<bar>?tr - transit s\<bar>) div 16)\<rparr>)"
    using d(1) False unfolding CalculateJitter_def Let_def sint_transit [OF d(3,4)] by simp
  then show ?thesis using inv' that by blast
qed

subsection \<open>Activity\<close>

lemma not_inactive_ok:
  assumes inv: "recv_inv w a b now n s" and t: "recv_time_ok w t"
  obtains s' ev s'' where "not_inactive t s = (s', ev)" "restart_timer t s' = Some s''" "recv_inv w a b now n s''" "params s'' = params s" "\<not> inactive s''"
    "Timer_IsActive (inactivityCheckPeriodicTimer s'')"
    "\<forall>e \<in> set ev. event_sendable e" "score_view (score (strm_score s)) (score_events ev) = score (strm_score s'')"
proof -
  obtain s' ev where s': "not_inactive t s = (s', ev)" by force
  have k: "recv_inv w a b now n s'" "params s' = params s" "\<not> inactive s'" "\<forall>e \<in> set ev. event_sendable e"
      "score_view (score (strm_score s)) (score_events ev) = score (strm_score s')"
    using s' inv by (auto simp: not_inactive_def ResetScore_def recv_inv_defs Let_def split: if_splits)
  have os: "one_shot (inactivity_interval (params s')) (inactivityCheckPeriodicTimer s')" using k(1) by (simp add: recv_inv_defs)
  have "unat t < 2 ^ 63" using t by (cases w) (simp add: recv_time_ok_def word_le_nat_alt)
  then have "unat t + unat (inactivity_interval (params s')) < 2 ^ 64" by (simp add: inactivity_interval_def)
  with os obtain tm where tm: "Timer_Restart t (inactivityCheckPeriodicTimer s') = Some tm"
    "armed (inactivity_interval (params s')) (unat t + unat (inactivity_interval (params s'))) tm" by (rule Timer_Restart_one_shot)
  have "recv_inv w a b now n (s'\<lparr>inactivityCheckPeriodicTimer := tm\<rparr>)"
    using k(1,3) armed_one_shot [OF tm(2)] by (simp add: recv_inv_defs)
  moreover have "Timer_IsActive tm" using tm(2) by (simp add: armed_def Timer_IsActive_def)
  ultimately show ?thesis using that [OF s'] tm(1) k by (simp add: restart_timer_def)
qed

lemma Recv_Resume_ok:
  assumes inv: "recv_inv w a b now n s" and t: "recv_time_ok w t"
  obtains s' where "Recv_Resume t s = Some s'" "recv_inv w a b now n s'" "strm_score s' = strm_score s"
proof (cases "inactive s")
  case True
  then show ?thesis using inv that by (simp add: Recv_Resume_def)
next
  case False
  then have "not_inactive t s = (s, [])" by (simp add: not_inactive_def)
  then obtain s'' where r: "restart_timer t s = Some s''" "recv_inv w a b now n s''" using not_inactive_ok [OF inv t] by (metis prod.inject)
  then have "strm_score s'' = strm_score s" by (auto simp: restart_timer_def split: bind_splits)
  with r False show ?thesis using that by (simp add: Recv_Resume_def)
qed

lemma Recv_Pause_ok:
  assumes inv: "recv_inv w a b now n s"
  obtains s' where "Recv_Pause s = Some s'" "recv_inv w a b now n s'" "strm_score s' = strm_score s"
proof -
  have os: "one_shot (inactivity_interval (params s)) (inactivityCheckPeriodicTimer s)" using inv by (simp add: recv_inv_defs)
  let ?tm = "(inactivityCheckPeriodicTimer s)\<lparr>uvHandle := uv_timer_stop (uvHandle (inactivityCheckPeriodicTimer s))\<rparr>"
  let ?s = "s\<lparr>inactivityCheckPeriodicTimer := ?tm, nackGenerator := map_option Reset (nackGenerator s), transit := 0, jitter := 0\<rparr>"
  have "Recv_Pause s = Some ?s"
    using os inv by (cases "nackGenerator s") (auto simp: Recv_Pause_def Timer_Stop_def one_shot_def recv_inv_defs)
  moreover have "recv_inv w a b now n ?s"
    using inv os by (auto simp: recv_inv_defs one_shot_def uv_timer_stop_def Timer_IsActive_def Reset_def ng_inv_def)
  ultimately show ?thesis using that by simp
qed

lemma Recv_timer_ok:
  assumes inv: "recv_inv w a b now n s"
  obtains s' ev where "recv_handle scoreOf rttMs t RecvTimer s = Some (s', ev)" "recv_inv w a b now n s'"
    "\<forall>e \<in> set ev. event_sendable e" "score_view (score (strm_score s)) (score_events ev) = score (strm_score s')"
proof (cases "Timer_due t (inactivityCheckPeriodicTimer s)")
  case False
  then show ?thesis using inv that by simp
next
  case True
  have "one_shot (inactivity_interval (params s)) (inactivityCheckPeriodicTimer s)" using inv by (simp add: recv_inv_defs)
  note f = Timer_fired_one_shot [OF this, of t]
  obtain s' ev where s': "recv_handle scoreOf rttMs t RecvTimer s = Some (s', ev)" by (simp add: True) (metis surj_pair)
  show ?thesis
    by (rule that [OF s']) (use s' True inv f in \<open>auto simp: Recv_OnTimer_def ResetScore_def recv_inv_defs Timer_IsActive_def Let_def split: if_splits\<close>)
qed

subsection \<open>Packets\<close>

definition step_ok :: "u64 \<times> u64 \<Rightarrow> nat \<Rightarrow> nat \<Rightarrow> u64 \<Rightarrow> nat \<Rightarrow> rtp_stream_recv \<Rightarrow> rtp_stream_recv \<Rightarrow> recv_event list \<Rightarrow> bool" where
  "step_ok w a b now n s s' ev \<longleftrightarrow> recv_inv w a b now n s' \<and> (\<forall>e \<in> set ev. event_sendable e) \<and>
     score_view (score (strm_score s)) (score_events ev) = score (strm_score s')"

lemma step_ok_trans: "step_ok w a b now n s s1 ev1 \<Longrightarrow> step_ok w a b now n s1 s2 ev2 \<Longrightarrow> step_ok w a b now n s s2 (ev1 @ ev2)"
  by (auto simp: step_ok_def)

lemma step_ok_silent: "recv_inv w a b now n s' \<Longrightarrow> strm_score s' = strm_score s \<Longrightarrow> step_ok w a b now n s s' []"
  by (simp add: step_ok_def)

lemma step_ok_requests: "recv_inv w a b now n s' \<Longrightarrow> strm_score s' = strm_score s \<Longrightarrow> only_requests ev \<Longrightarrow> step_ok w a b now n s s' ev"
  by (simp add: step_ok_def only_requests_def)

lemma step_ok_cong: "step_ok w a b now n s s' ev \<Longrightarrow> strm_score r = strm_score s \<Longrightarrow> step_ok w a b now n r s' ev"
  by (simp add: step_ok_def)

lemma codec_level_ok:
  assumes "recv_packet_ok p"
  obtains q where "codec_level p s = Some q" "rtp_wf q"
proof -
  have p: "rtp_wf p" "rtp_size p < length (rtp_mem p)" "payloadDescriptorHandler p = None" using assms by (simp_all add: recv_packet_ok_def)
  obtain pt where "GetPayloadType p = Some pt" using rtp_wf_facts [OF p(1)] by (auto simp: GetPayloadType_def Get1Byte_def)
  then show ?thesis using that p(1) Tools_ProcessRtpPacket_wf [OF p, of "rcv_mime s"] by (cases "pt = par_payloadType (params s)") (auto simp: codec_level_def)
qed

lemma pass_to_nack_ok:
  assumes inv: "recv_inv w a b now n s" and use: "par_useNack (params s)" and p: "rtp_wf p"
  obtains nacked s' ev ng where "pass_to_nack t isRecovered p s = Some (nacked, s', ev)" "recv_inv w a b now n s'"
    "same_but_stats (s\<lparr>nackGenerator := Some ng\<rparr>) s'" "only_requests ev"
proof -
  obtain ng where ng: "nackGenerator s = Some ng" "ng_inv ng" using inv use by (auto simp: recv_inv_defs)
  obtain seq where seq: "GetSequenceNumber p = Some seq" by (rule rtp_wf_Get [OF p])
  obtain nacked nev ng' where r: "ReceivePacket t seq (IsKeyFrame codec_IsKeyFrame p) isRecovered ng = Some (nacked, nev, ng')" "ng_inv ng'"
    using ReceivePacket_inv [OF ng(2)] by blast
  let ?s = "s\<lparr>nackGenerator := Some ng'\<rparr>"
  obtain s' ev where e: "on_nack_events nev ?s = Some (s', ev)" "same_but_stats ?s s'" "only_requests ev"
    using on_nack_events_ok [OF ReceivePacket_requestable [OF ng(2) r(1)], of ?s] use by auto
  have "recv_inv w a b now n ?s" using inv r(2) use by (simp add: recv_inv_defs)
  then have "recv_inv w a b now n s'" using same_but_stats_inv(1) [OF e(2)] by simp
  moreover have "pass_to_nack t isRecovered p s = Some (nacked, s', ev)" using ng(1) seq r(1) e(1) by (simp add: pass_to_nack_def)
  ultimately show ?thesis using that e(2,3) by blast
qed

lemma window_time: "recv_time_ok w t \<Longrightarrow> rate_window pars \<le> unat t \<and> 100 \<le> rate_window pars \<and> 2500 \<le> unat t"
  by (cases w) (auto simp: recv_time_ok_def rate_window_def word_le_nat_alt)

lemma count_layers_ok:
  assumes inv: "recv_inv w a b t n s" and t: "recv_time_ok w t"
  obtains cs where "count_layers t p s = Some (s\<lparr>layerCounters := cs\<rparr>)" "recv_inv w a b t n (s\<lparr>layerCounters := cs\<rparr>)"
proof -
  have ok: "layers_ok a b (rate_window (params s)) t (layerCounters s)" "0 < a" "0 < b" using inv by (simp_all add: recv_inv_def)
  obtain cs where "TransmissionCounter_Update (GetLayer codec_GetSpatialLayer p) (GetLayer codec_GetTemporalLayer p) (rtp_size p) (unat t) (layerCounters s) = Some cs"
    "layers_ok a b (rate_window (params s)) t cs"
    using TransmissionCounter_Update_ok [OF ok order_refl] window_time [OF t, of "params s"] by blast
  then show ?thesis using that inv by (simp add: count_layers_def recv_inv_defs)
qed

lemma recv_inv_seq [simp]: "recv_inv w a b now n (s\<lparr>strm_seq := q\<rparr>) = recv_inv w a b now n s"
  "recv_inv w a b now n (s\<lparr>rtxStream := r\<rparr>) = recv_inv w a b now n s"
  by (simp_all add: recv_inv_defs)

lemma recv_inv_repaired:
  assumes "recv_inv w a b now n s"
  shows "recv_inv w a b now (n + 1) (PacketRetransmitted s)" "recv_inv w a b now (n + 1) (PacketRepaired (PacketRetransmitted s))"
  using assms by (auto simp: recv_inv_defs PacketRetransmitted_def PacketRepaired_def)

lemma Recv_ReceivePacket_ok:
  assumes inv: "recv_inv w a b t n s" and t: "recv_time_ok w t" and p: "recv_packet_ok p"
  obtains ok p' s' ev where "Recv_ReceivePacket t p s = Some (ok, p', s', ev)" "step_ok w a b t (n + 1) s s' ev"
proof -
  have wf: "rtp_wf p" using p by (simp add: recv_packet_ok_def)
  obtain seq ts where g: "GetSequenceNumber p = Some seq" "GetTimestamp p = Some ts" using wf by (rule rtp_wf_Get)
  obtain valid q where v: "seq_ReceivePacket t seq ts (strm_seq s) = (valid, q)" by force
  let ?s = "s\<lparr>strm_seq := q\<rparr>"
  have inv0: "recv_inv w a b t (n + 1) ?s" using recv_inv_later [OF inv order_refl] by simp
  show ?thesis
  proof (cases valid)
    case False
    then show ?thesis using that g v step_ok_silent [OF inv0, of s] by (simp add: Recv_ReceivePacket_def)
  next
    case True
    obtain p' where p': "codec_level p ?s = Some p'" "rtp_wf p'" using p by (rule codec_level_ok)
    have "\<exists>s1 ev. (if par_useNack (params ?s) then do {
            (nacked, s, ev) \<leftarrow> pass_to_nack t False p' ?s;
            Some (if rtxStream s = None \<and> nacked then PacketRepaired (PacketRetransmitted s) else s, ev) }
          else Some (?s, [])) = Some (s1, ev) \<and> recv_inv w a b t (n + 1) s1 \<and> strm_score s1 = strm_score s \<and> only_requests ev"
    proof (cases "par_useNack (params ?s)")
      case False
      then show ?thesis using inv0 by (simp add: only_requests_def)
    next
      case use: True
      have "recv_inv w a b t n ?s" using inv by simp
      from this use p'(2) obtain nacked s1 ev ng where n: "pass_to_nack t False p' ?s = Some (nacked, s1, ev)" "recv_inv w a b t n s1"
        "same_but_stats (?s\<lparr>nackGenerator := Some ng\<rparr>) s1" "only_requests ev" by (rule pass_to_nack_ok)
      have "strm_score s1 = strm_score s" using same_but_stats_inv(3) [OF n(3)] by simp
      then have "strm_score (PacketRepaired (PacketRetransmitted s1)) = strm_score s" by (simp add: PacketRetransmitted_def PacketRepaired_def)
      with n use \<open>strm_score s1 = strm_score s\<close> show ?thesis
        using recv_inv_repaired [OF n(2)] recv_inv_later [OF n(2) order_refl, of "n + 1"] by auto
    qed
    then obtain s1 ev where s1: "(if par_useNack (params ?s) then do {
            (nacked, s, ev) \<leftarrow> pass_to_nack t False p' ?s;
            Some (if rtxStream s = None \<and> nacked then PacketRepaired (PacketRetransmitted s) else s, ev) }
          else Some (?s, [])) = Some (s1, ev)" "recv_inv w a b t (n + 1) s1" "strm_score s1 = strm_score s" "only_requests ev" by blast
    obtain ts' where ts': "GetTimestamp p' = Some ts'" by (rule rtp_wf_Get [OF p'(2)])
    obtain tr jt where j: "CalculateJitter t ts' s1 = Some (s1\<lparr>transit := tr, jitter := jt\<rparr>)" "recv_inv w a b t (n + 1) (s1\<lparr>transit := tr, jitter := jt\<rparr>)"
      by (rule CalculateJitter_ok [OF s1(2) t])
    let ?s2 = "s1\<lparr>transit := tr, jitter := jt\<rparr>"
    obtain cs where cs: "count_layers t p' ?s2 = Some (?s2\<lparr>layerCounters := cs\<rparr>)" "recv_inv w a b t (n + 1) (?s2\<lparr>layerCounters := cs\<rparr>)"
      by (rule count_layers_ok [OF j(2) t])
    have "counter_ok 2500 t (mediaTransmissionCounter s1)" using s1(2) by (simp add: recv_inv_def)
    then obtain c where c: "RtpDataCounter_Update (rtp_size p') (unat t) (mediaTransmissionCounter s1) = Some c" "counter_ok 2500 t c"
      by (rule counter_ok_update [OF _ order_refl]) (use window_time [OF t] in simp_all)
    let ?s3 = "?s2\<lparr>layerCounters := cs, mediaTransmissionCounter := c\<rparr>"
    have "recv_inv w a b t (n + 1) ?s3" using cs(2) c(2) by (simp add: recv_inv_defs)
    from not_inactive_ok [OF this t] obtain s4 ev' s5 where s5: "not_inactive t ?s3 = (s4, ev')" "restart_timer t s4 = Some s5" "step_ok w a b t (n + 1) ?s3 s5 ev'"
      unfolding step_ok_def by metis
    have "step_ok w a b t (n + 1) s s1 ev" by (rule step_ok_requests [OF s1(2,3,4)])
    then have "step_ok w a b t (n + 1) s s5 (ev @ ev')" by (rule step_ok_trans) (rule step_ok_cong [OF s5(3)], simp)
    moreover have "Recv_ReceivePacket t p s = Some (True, p', s5, ev @ ev')"
      using g v True p'(1) s1(1) ts' j(1) cs(1) c(1) s5(1,2) by (simp add: Recv_ReceivePacket_def)
    ultimately show ?thesis using that by blast
  qed
qed

lemma RtxDecode_ok:
  assumes p: "recv_packet_ok p"
  obtains decoded q where "RtxDecode pt ssrc p = Some (decoded, q)" "recv_packet_ok q"
proof (cases "2 \<le> payloadLength p")
  case False
  then show ?thesis using that p by (simp add: RtxDecode_def)
next
  case True
  have wf: "rtp_wf p" "rtp_size p < length (rtp_mem p)" "payloadDescriptorHandler p = None" using p by (simp_all add: recv_packet_ok_def)
  note f = rtp_wf_facts [OF wf(1)]
  obtain m where m: "RtxDecode pt ssrc p = Some (True, p\<lparr>rtp_mem := m, payloadLength := payloadLength p - 2,
      rtp_size := payload p + payloadLength p - 2, payloadPadding := 0\<rparr>)" (is "_ = Some (_, ?q)")
    "length m = length (rtp_mem p)" "m ! 0 = rtp_mem p ! 0 AND 0xDF" "\<forall>i. 12 \<le> i \<and> i < payload p \<longrightarrow> m ! i = rtp_mem p ! i"
    using RtxDecode_spec [OF wf(1) True] by blast
  have "rtp_wf ?q" by (rule rtx_wf [OF wf(1)]) (use m True f in simp_all)
  then have "recv_packet_ok ?q" using m(2) wf(2,3) f(2) by (simp add: recv_packet_ok_def)
  with m(1) show ?thesis using that by blast
qed

lemma ReceiveRtxPacket_ok:
  assumes inv: "recv_inv w a b t n s" and t: "recv_time_ok w t" and p: "recv_packet_ok p" and ssrc: "GetSsrc p = Some (par_rtxSsrc (params s))"
  obtains ok p' s' ev where "ReceiveRtxPacket t p s = Some (ok, p', s', ev)" "step_ok w a b t (n + 1) s s' ev"
proof -
  have wf: "rtp_wf p" using p by (simp add: recv_packet_ok_def)
  obtain rseq rts where g: "GetSequenceNumber p = Some rseq" "GetTimestamp p = Some rts" using wf by (rule rtp_wf_Get)
  obtain pt where pt: "GetPayloadType p = Some pt" using rtp_wf_facts [OF wf] by (auto simp: GetPayloadType_def Get1Byte_def)
  have inv1: "recv_inv w a b t (n + 1) s" using recv_inv_later [OF inv order_refl] by simp
  obtain ok s1 where s1: "(case rtxStream s of None \<Rightarrow> (True, s)
      | Some r \<Rightarrow> (case RtxStream_ReceivePacket t rseq rts r of (ok, r) \<Rightarrow> (ok, s\<lparr>rtxStream := Some r\<rparr>))) = (ok, s1)" by force
  then have k1: "recv_inv w a b t m s1 = recv_inv w a b t m s" "strm_score s1 = strm_score s" "params s1 = params s" for m
    by (auto split: option.splits prod.splits)
  obtain decoded q where q: "RtxDecode (par_payloadType (params s)) (par_ssrc (params s)) p = Some (decoded, q)" "recv_packet_ok q"
    using p by (rule RtxDecode_ok)
  have "rtp_wf q" using q(2) by (simp add: recv_packet_ok_def)
  then obtain seq ts where gq: "GetSequenceNumber q = Some seq" "GetTimestamp q = Some ts" by (rule rtp_wf_Get)
  obtain valid sq where v: "UpdateSeq t seq ts (strm_seq s1) = (valid, sq)" by force
  let ?s2 = "s1\<lparr>strm_seq := sq\<rparr>"
  note base = ReceiveRtxPacket_def ssrc pt g s1 q(1) gq v k1
  consider (out) "\<not> par_useNack (params s) \<or> pt \<noteq> par_rtxPayloadType (params s) \<or> \<not> ok \<or> \<not> decoded \<or> \<not> valid"
    | (go) "par_useNack (params s)" "pt = par_rtxPayloadType (params s)" ok decoded valid by blast
  then show ?thesis
  proof cases
    case out
    then have "\<exists>ok p' s'. ReceiveRtxPacket t p s = Some (ok, p', s', []) \<and> s' \<in> {s, s1, ?s2}" by (auto simp: base)
    moreover have "step_ok w a b t (n + 1) s x []" if "x \<in> {s, s1, ?s2}" for x
      using that inv1 k1 by (intro step_ok_silent) auto
    ultimately show ?thesis using that by blast
  next
    case go
    obtain p' where p': "codec_level q ?s2 = Some p'" "rtp_wf p'" using q(2) by (rule codec_level_ok)
    have "recv_inv w a b t (n + 1) (PacketRetransmitted ?s2)" using inv k1(1) by (intro recv_inv_repaired(1)) simp
    moreover have "par_useNack (params (PacketRetransmitted ?s2))" using go k1(3) by (simp add: PacketRetransmitted_def)
    ultimately obtain nacked s3 ev ng where s3: "pass_to_nack t True p' (PacketRetransmitted ?s2) = Some (nacked, s3, ev)" "recv_inv w a b t (n + 1) s3"
        "same_but_stats (PacketRetransmitted ?s2\<lparr>nackGenerator := Some ng\<rparr>) s3" "only_requests ev"
      using p'(2) by (rule pass_to_nack_ok)
    have sc: "strm_score s3 = strm_score s" using same_but_stats_inv(3) [OF s3(3)] k1(2) by (simp add: PacketRetransmitted_def)
    have so: "step_ok w a b t (n + 1) s s3 ev" using s3(2,4) sc by (intro step_ok_requests)
    show ?thesis
    proof (cases nacked)
      case False
      then have "ReceiveRtxPacket t p s = Some (False, p', s3, ev)" using go p'(1) s3(1) by (simp add: base)
      then show ?thesis using that so by blast
    next
      case True
      have "recv_inv w a b t (n + 1) (PacketRepaired s3)"
      proof -
        obtain x y c d e where "s3 = PacketRetransmitted ?s2\<lparr>nackGenerator := Some ng\<rparr>\<lparr>nackCount := x, nackPacketCount := y, pliCount := c, firCount := d, firSeqNumber := e\<rparr>"
          using s3(3) unfolding same_but_stats_def by blast
        with s3(2) inv k1(1) [of n] show ?thesis by (auto simp: recv_inv_defs PacketRepaired_def PacketRetransmitted_def)
      qed
      then obtain cs where cs: "count_layers t p' (PacketRepaired s3) = Some (PacketRepaired s3\<lparr>layerCounters := cs\<rparr>)"
        "recv_inv w a b t (n + 1) (PacketRepaired s3\<lparr>layerCounters := cs\<rparr>)" using t by (rule count_layers_ok)
      from not_inactive_ok [OF cs(2) t] obtain s4 ev' s5 where s5: "not_inactive t (PacketRepaired s3\<lparr>layerCounters := cs\<rparr>) = (s4, ev')"
        "restart_timer t s4 = Some s5" "step_ok w a b t (n + 1) (PacketRepaired s3\<lparr>layerCounters := cs\<rparr>) s5 ev'" unfolding step_ok_def by metis
      have "step_ok w a b t (n + 1) s s5 (ev @ ev')"
        by (rule step_ok_trans [OF so]) (rule step_ok_cong [OF s5(3)], simp add: PacketRepaired_def)
      moreover have "ReceiveRtxPacket t p s = Some (True, p', s5, ev @ ev')"
        using go p'(1) s3(1) True cs(1) s5(1,2) by (simp add: base)
      ultimately show ?thesis using that by blast
    qed
  qed
qed

subsection \<open>Reports and the NACK timer\<close>

lemma UpdateScore_view: "UpdateScore t sc q = (q', ev) \<Longrightarrow> score_view (score q) ev = score q'"
  by (auto simp: UpdateScore_def Let_def split: prod.splits if_splits)

text \<open>The assertion on the retransmitted packets holds because every repaired packet was counted as retransmitted.\<close>

lemma interval_score_ok: "repaired \<le> retransmitted \<Longrightarrow> interval_score scoreOf hasRtx received lost repaired retransmitted \<noteq> None"
  by (auto simp: interval_score_def Let_def)

lemma Recv_UpdateScore_ok:
  assumes inv: "recv_inv w a b t n s" and n: "n < 2 ^ 32"
  obtains s' ev where "Recv_UpdateScore scoreOf t s = Some (s', ev)" "step_ok w a b t n s s' ev"
proof -
  let ?rep = "of_nat (packetsRepaired s) - of_nat (repairedPriorScore s) :: u32"
  let ?ret = "of_nat (packetsRetransmitted s) - of_nat (retransmittedPriorScore s) :: u32"
  let ?s = "s\<lparr>expectedPriorScore := GetExpectedPackets (strm_seq s), receivedPriorScore := of_nat (dc_packets (mediaTransmissionCounter s)),
                repairedPriorScore := packetsRepaired s, retransmittedPriorScore := packetsRetransmitted s\<rparr>"
  have le: "?rep \<le> ?ret" using inv n by (intro u32_diff_le) (auto simp: recv_inv_defs)
  have k: "recv_inv w a b t n ?s" using inv by (auto simp: recv_inv_defs)
  have up: "step_ok w a b t n s (?s\<lparr>strm_score := q\<rparr>) (map RecvScore ev)" if "UpdateScore t sc (strm_score ?s) = (q, ev)" "\<not> inactive s" for sc q ev
    using k that UpdateScore_view [OF that(1)] by (auto simp: step_ok_def recv_inv_defs)
  have "\<exists>s' ev. Recv_UpdateScore scoreOf t s = Some (s', ev) \<and> step_ok w a b t n s s' ev"
  proof (cases "inactive s")
    case True
    then show ?thesis using step_ok_silent [OF k, of s] by (simp add: Recv_UpdateScore_def Let_def)
  next
    case active: False
    let ?up = "\<lambda>sc. Some (let (q, ev) = UpdateScore t sc (strm_score ?s) in (?s\<lparr>strm_score := q\<rparr>, map RecvScore ev))"
    let ?exp = "GetExpectedPackets (strm_seq s) - expectedPriorScore s"
    let ?rcv = "of_nat (dc_packets (mediaTransmissionCounter s)) - receivedPriorScore s :: u32"
    let ?lost = "if ?exp < ?rcv then 0 else ?exp - ?rcv"
    obtain sc where sc: "interval_score scoreOf (rtxStream s \<noteq> None) ?rcv ?lost ?rep ?ret = Some sc"
      using interval_score_ok [OF le] by blast
    have "Recv_UpdateScore scoreOf t s = (if inactive s then Some (?s, []) else if ?exp = 0 then ?up 10
        else do { sc \<leftarrow> interval_score scoreOf (rtxStream s \<noteq> None) ?rcv ?lost ?rep ?ret; ?up sc })"
      unfolding Recv_UpdateScore_def Let_def by (intro if_cong Option.bind_cong) (simp_all split: prod.split)
    also have "\<dots> = ?up (if ?exp = 0 then 10 else sc)" by (simp only: sc active Option.bind.simps if_False) (rule if_distrib [symmetric])
    finally have u: "Recv_UpdateScore scoreOf t s = ?up (if ?exp = 0 then 10 else sc)" .
    obtain q ev where q: "UpdateScore t (if ?exp = 0 then 10 else sc) (strm_score ?s) = (q, ev)" by force
    show ?thesis using u up [OF q active] unfolding q by auto
  qed
  then show ?thesis using that by blast
qed

lemma Recv_ReceiveRtcpSenderReport_ok:
  assumes inv: "recv_inv w a b t n s" and n: "n < 2 ^ 32"
  obtains s' ev where "Recv_ReceiveRtcpSenderReport scoreOf t r s = Some (s', ev)" "step_ok w a b t n s s' ev"
proof -
  let ?s = "s\<lparr>rcv_sr := ReceiveRtcpSenderReport t r (rcv_sr s),
       lastSenderReportNtpMs := Ntp2TimeMs \<lparr>seconds = sr_ntpSec r, fractions = sr_ntpFrac r\<rparr>, lastSenderReporTs := sr_rtpTs r\<rparr>"
  have "recv_inv w a b t n ?s" using inv by (simp add: recv_inv_defs)
  then obtain s' ev where "Recv_UpdateScore scoreOf t ?s = Some (s', ev)" "step_ok w a b t n ?s s' ev" using n by (rule Recv_UpdateScore_ok)
  then show ?thesis using that step_ok_cong [of w a b t n ?s s' ev s] by (simp add: Recv_ReceiveRtcpSenderReport_def)
qed

lemma ReceiveRtcpXr_ok:
  assumes inv: "recv_inv w a b t n s"
  obtains s' where "ReceiveRtcpXrDelaySinceLastRr rttMs t lastRr dlrr s = Some s'" "step_ok w a b t n s s' []"
proof -
  let ?rtt = "report_rtt t lastRr dlrr"
  let ?s = "s\<lparr>rcv_rtt := ?rtt, hasRtt := hasRtt s \<or> ?rtt \<noteq> 0, nackGenerator := map_option (UpdateRtt (rttMs ?rtt)) (nackGenerator s)\<rparr>"
  have "ReceiveRtcpXrDelaySinceLastRr rttMs t lastRr dlrr s = Some ?s"
    using inv by (cases "nackGenerator s") (auto simp: ReceiveRtcpXrDelaySinceLastRr_def recv_inv_defs Let_def)
  moreover have "recv_inv w a b t n ?s" using inv by (auto simp: recv_inv_defs UpdateRtt_def ng_inv_def)
  ultimately show ?thesis using that step_ok_silent by simp
qed

lemma nack_timer_ok:
  assumes inv: "recv_inv w a b t n s"
  obtains s' ev where "recv_handle scoreOf rttMs t RecvNackTimer s = Some (s', ev)" "step_ok w a b t n s s' ev"
proof (cases "\<exists>ng. nackGenerator s = Some ng \<and> ng_timer ng")
  case False
  then have "\<not> (case nackGenerator s of None \<Rightarrow> False | Some ng \<Rightarrow> ng_timer ng)" by (auto split: option.splits)
  then show ?thesis using that step_ok_silent [OF inv refl] by simp
next
  case True
  then obtain ng where ng: "nackGenerator s = Some ng" "ng_timer ng" "ng_inv ng" "par_useNack (params s)" using inv by (auto simp: recv_inv_defs)
  obtain nev ng' where o: "OnTimer t ng = (nev, ng')" "ng_inv ng'" using OnTimer_inv [OF ng(3), of t] by (cases "OnTimer t ng") auto
  let ?s = "s\<lparr>nackGenerator := Some ng'\<rparr>"
  obtain s' ev where e: "on_nack_events nev ?s = Some (s', ev)" "same_but_stats ?s s'" "only_requests ev"
    using on_nack_events_ok [OF OnTimer_requestable [OF ng(3) o(1)], of ?s] ng(4) by auto
  have "recv_inv w a b t n ?s" using inv o(2) ng(4) by (simp add: recv_inv_defs)
  then have "step_ok w a b t n s s' ev" using same_but_stats_inv [OF e(2)] e(3) by (intro step_ok_requests) simp_all
  then show ?thesis using that ng(1,2) o(1) e(1) by (simp add: nack_timer_def)
qed

subsection \<open>Receiver reports\<close>

text \<open>When the loss statistics of a report overflow: of the packets expected since the last report, at least 511/512 or \<open>2 ^ 23\<close> are lost, or the
  total of lost packets is \<open>- 2 ^ 31\<close> as an \<^verbatim>\<open>int32_t\<close>.\<close>

definition interval_overflow :: "u32 \<Rightarrow> u32 \<Rightarrow> bool" where
  "interval_overflow expected received \<longleftrightarrow>
     (let lost = sint (expected - received) in expected \<noteq> 0 \<and> 0 < lost \<and> (2 ^ 23 \<le> lost \<or> 511 * uint expected \<le> 512 * lost))"

definition loss_undefined :: "u8 \<Rightarrow> u32 \<Rightarrow> nat \<Rightarrow> loss_state \<Rightarrow> bool" where
  "loss_undefined worst expected count l \<longleftrightarrow>
     interval_overflow (expected - expectedPrior l) (of_nat count - receivedPrior l) \<or>
     reportedPacketLost l + ((if count < unat expected then expected - of_nat count else 0) - packetsLost l) = 2 ^ 31 \<or>
     reportedPacketLost l + drop_bit 8 (ucast worst * (expected - expectedPrior l)) = 2 ^ 31"

fun report_undefined :: "recv_op \<Rightarrow> rtp_stream_recv \<Rightarrow> bool" where
  "report_undefined (RecvReport worst) s \<longleftrightarrow> loss_undefined (if par_useInBandFec (params s) then worst else 0)
     (GetExpectedPackets (strm_seq s)) (dc_packets (mediaTransmissionCounter s)) (rcv_loss s)"
| "report_undefined RecvRtxReport s \<longleftrightarrow> (case rtxStream s of None \<Rightarrow> False
     | Some r \<Rightarrow> loss_undefined 0 (GetExpectedPackets (rtx_seq r)) (rtx_packetsCount r) (rtx_loss r))"
| "report_undefined _ s \<longleftrightarrow> False"

lemma interval_fraction_None: "interval_fraction e r = None \<longleftrightarrow> interval_overflow e r"
proof (cases "e = 0 \<or> sint (e - r) \<le> 0 \<or> 2 ^ 23 \<le> sint (e - r)")
  case True
  then show ?thesis by (auto simp: interval_fraction_def interval_overflow_def Let_def)
next
  case False
  define m where "m = nat (sint (e - r))"
  have m: "sint (e - r) = int m" "0 < unat e" using False by (simp_all add: m_def unat_gt_0)
  have "round_div (m * 256) (unat e) > 255 \<longleftrightarrow> 256 \<le> round_div (m * 256) (unat e)" by linarith
  also have "\<dots> \<longleftrightarrow> 256 * (2 * unat e) \<le> 2 * (m * 256) + unat e"
    unfolding round_div_def using m(2) by (intro less_eq_div_iff_mult_less_eq) simp
  also have "\<dots> \<longleftrightarrow> 511 * uint e \<le> 512 * int m" by (simp only: uint_nat) linarith
  finally show ?thesis using False by (auto simp: interval_fraction_def interval_overflow_def Let_def m(1))
qed

lemma SetTotalLost_None: "SetTotalLost (sint (x :: u32)) r = None \<longleftrightarrow> x = 2 ^ 31"
proof -
  have "SetTotalLost (sint x) r = None \<longleftrightarrow> sint x = - (2 ^ 31)" unfolding SetTotalLost_def Let_def by (rule iffI) (auto split: if_splits)
  moreover have "sint (2 ^ 31 :: u32) = - (2 ^ 31)" by simp
  ultimately show ?thesis by (metis signed_word_eqI)
qed

lemma report_loss_defined:
  assumes "\<not> loss_undefined worst expected count l"
  shows "report_loss worst expected count report l \<noteq> None"
proof -
  note u = assms [unfolded loss_undefined_def de_Morgan_disj, folded interval_fraction_None]
  obtain f where f: "interval_fraction (expected - expectedPrior l) (of_nat count - receivedPrior l) = Some f" using u by blast
  have "SetTotalLost (sint (if worst \<le> f then reportedPacketLost l + ((if count < unat expected then expected - of_nat count else 0) - packetsLost l)
      else reportedPacketLost l + drop_bit 8 (ucast worst * (expected - expectedPrior l)))) report \<noteq> None"
    using u by (simp only: SetTotalLost_None) (simp split: if_split)
  then show ?thesis by (auto simp: report_loss_def f Let_def)
qed

lemma receiver_report_ok:
  assumes inv: "recv_inv w a b t n s"
  shows "recv_handle scoreOf rttMs t (RecvReport worst) s = None \<and> report_undefined (RecvReport worst) s \<or>
      (\<exists>s'. recv_handle scoreOf rttMs t (RecvReport worst) s = Some (s', []) \<and> step_ok w a b t n s s' [])"
    "recv_handle scoreOf rttMs t RecvRtxReport s = None \<and> report_undefined RecvRtxReport s \<or>
      (\<exists>s'. recv_handle scoreOf rttMs t RecvRtxReport s = Some (s', []) \<and> step_ok w a b t n s s' [])"
proof -
  have k: "step_ok w a b t n s (s\<lparr>rcv_loss := l\<rparr>) []" "step_ok w a b t n s (s\<lparr>rtxStream := r\<rparr>) []" "step_ok w a b t n s s []" for l r
    using inv by (auto simp: step_ok_def recv_inv_defs)
  show "recv_handle scoreOf rttMs t (RecvReport worst) s = None \<and> report_undefined (RecvReport worst) s \<or>
      (\<exists>s'. recv_handle scoreOf rttMs t (RecvReport worst) s = Some (s', []) \<and> step_ok w a b t n s s' [])"
  proof (cases "report_loss (if par_useInBandFec (params s) then worst else 0) (GetExpectedPackets (strm_seq s))
      (dc_packets (mediaTransmissionCounter s)) \<lparr>rr_ssrc = par_ssrc (params s), rr_fractionLost = 0, rr_totalLost = 0, rr_lastSeq = 0,
        rr_jitter = 0, rr_lsr = 0, rr_dlsr = 0\<rparr> (rcv_loss s)")
    case None
    then have "report_undefined (RecvReport worst) s" using report_loss_defined by (metis report_undefined.simps(1))
    with None show ?thesis by (simp add: Recv_GetRtcpReceiverReport_def Let_def del: report_undefined.simps)
  next
    case (Some x)
    then show ?thesis using k(1) by (cases x) (simp add: Recv_GetRtcpReceiverReport_def Let_def)
  qed
  show "recv_handle scoreOf rttMs t RecvRtxReport s = None \<and> report_undefined RecvRtxReport s \<or>
      (\<exists>s'. recv_handle scoreOf rttMs t RecvRtxReport s = Some (s', []) \<and> step_ok w a b t n s s' [])"
  proof (cases "rtxStream s")
    case None
    then show ?thesis using k(3) by (simp add: GetRtxRtcpReceiverReport_def)
  next
    case rtx: (Some r)
    show ?thesis
    proof (cases "report_loss 0 (GetExpectedPackets (rtx_seq r)) (rtx_packetsCount r)
        \<lparr>rr_ssrc = rtx_ssrc r, rr_fractionLost = 0, rr_totalLost = 0, rr_lastSeq = 0, rr_jitter = 0, rr_lsr = 0, rr_dlsr = 0\<rparr> (rtx_loss r)")
      case None
      then have "loss_undefined 0 (GetExpectedPackets (rtx_seq r)) (rtx_packetsCount r) (rtx_loss r)" using report_loss_defined by metis
      then have "report_undefined RecvRtxReport s" using rtx by simp
      with None show ?thesis using rtx by (simp add: GetRtxRtcpReceiverReport_def RtxStream_GetRtcpReceiverReport_def Let_def del: report_undefined.simps)
    next
      case (Some x)
      then show ?thesis using k(2) rtx by (cases x) (simp add: GetRtxRtcpReceiverReport_def RtxStream_GetRtcpReceiverReport_def Let_def)
    qed
  qed
qed

subsection \<open>Safety\<close>

lemma recv_handle_other:
  assumes inv: "recv_inv w a b now n s" and t: "now \<le> t" "recv_time_ok w t" and op: "recv_op_ok op" and n: "n + 1 < 2 ^ 32"
    and other: "\<And>x. op \<noteq> RecvReport x" "op \<noteq> RecvRtxReport"
  shows "\<exists>s' ev. recv_handle scoreOf rttMs t op s = Some (s', ev) \<and> step_ok w a b t (n + 1) s s' ev"
proof -
  have i0: "recv_inv w a b t n s" and i1: "recv_inv w a b t (n + 1) s" using recv_inv_later [OF inv t(1)] by simp_all
  show ?thesis
  proof (cases op)
    case (RecvPacket p)
    then show ?thesis using Recv_ReceivePacket_ok [OF i0 t(2), of p] op by fastforce
  next
    case (RecvRtx p)
    then show ?thesis using ReceiveRtxPacket_ok [OF i0 t(2), of p] op step_ok_silent [OF i1 refl] by fastforce
  next
    case (RecvSenderReport r)
    then show ?thesis using Recv_ReceiveRtcpSenderReport_ok [OF i1 n, of scoreOf r] by fastforce
  next
    case (RecvRtxSenderReport r)
    then show ?thesis using step_ok_silent [of w a b t "n + 1" "ReceiveRtxRtcpSenderReport t r s" s] i1 by (simp add: ReceiveRtxRtcpSenderReport_def)
  next
    case (RecvXr lastRr dlrr)
    then show ?thesis using ReceiveRtcpXr_ok [OF i1, of rttMs lastRr dlrr] by fastforce
  next
    case RecvPause
    then show ?thesis using Recv_Pause_ok [OF i1] step_ok_silent [of w a b t "n + 1" _ s] by fastforce
  next
    case RecvResume
    then show ?thesis using Recv_Resume_ok [OF i1 t(2)] step_ok_silent [of w a b t "n + 1" _ s] by fastforce
  next
    case (RecvSetRtx pt ssrc)
    have "recv_inv w a b t (n + 1) (SetRtx pt ssrc s)" using i1
      by (simp add: SetRtx_def recv_inv_defs recv_params_ok_def rate_window_def inactivity_interval_def)
    then show ?thesis using RecvSetRtx step_ok_silent [of w a b t "n + 1" "SetRtx pt ssrc s" s] by (simp add: SetRtx_def)
  next
    case RecvKeyFrame
    obtain s' ev where r: "RequestKeyFrame s = (s', ev)" by force
    then have "step_ok w a b t (n + 1) s s' ev"
      using RequestKeyFrame_ok [OF r] same_but_stats_inv [of s s'] i1 by (intro step_ok_requests) simp_all
    then show ?thesis using RecvKeyFrame r by simp
  next
    case RecvTimer
    then show ?thesis using Recv_timer_ok [OF i1, of scoreOf rttMs t] unfolding step_ok_def by metis
  next
    case RecvNackTimer
    then show ?thesis using nack_timer_ok [OF i1, of scoreOf rttMs] by metis
  qed (use other in simp_all)
qed

lemma recv_handle_ok:
  assumes inv: "recv_inv w a b now n s" and t: "now \<le> t" "recv_time_ok w t" and op: "recv_op_ok op" and n: "n + 1 < 2 ^ 32"
  shows "recv_handle scoreOf rttMs t op s = None \<and> report_undefined op s \<or> (\<exists>s' ev. recv_handle scoreOf rttMs t op s = Some (s', ev) \<and> step_ok w a b t (n + 1) s s' ev)"
proof -
  have "recv_inv w a b t (n + 1) s" using recv_inv_later [OF inv t(1)] by simp
  note r = receiver_report_ok [OF this, where scoreOf = scoreOf and rttMs = rttMs]
  show ?thesis
  proof (cases "(\<exists>x. op = RecvReport x) \<or> op = RecvRtxReport")
    case True
    then show ?thesis using r by metis
  next
    case False
    then show ?thesis using recv_handle_other [OF assms, where scoreOf = scoreOf and rttMs = rttMs] by metis
  qed
qed

text \<open>A run completes, or it stops at a receiver report whose loss statistics overflow.\<close>

lemma recv_run_ok:
  assumes "recv_inv w a b now n s" "sorted (now # map fst ops)" "\<forall>(t, op) \<in> set ops. recv_time_ok w t \<and> recv_op_ok op" "n + length ops < 2 ^ 32"
  shows "\<exists>k s' ev. k \<le> length ops \<and> recv_run scoreOf rttMs (take k ops) s = Some (s', ev) \<and>
    (k < length ops \<longrightarrow> report_undefined (snd (ops ! k)) s' \<and> recv_run scoreOf rttMs ops s = None) \<and>
    step_ok w a b (last (now # map fst (take k ops))) (n + k) s s' ev"
  using assms
proof (induction ops arbitrary: now n s)
  case Nil
  then show ?case using step_ok_silent by fastforce
next
  case (Cons x ops)
  obtain t op where x: "x = (t, op)" by force
  show ?case
  proof (cases "recv_handle scoreOf rttMs t op s")
    case None
    then have "report_undefined op s" using recv_handle_ok [OF Cons.prems(1), of t op scoreOf rttMs] Cons.prems(2-4) x by auto
    then show ?thesis using None x step_ok_silent [OF Cons.prems(1)] by (intro exI [of _ 0]) simp
  next
    case (Some y)
    obtain s1 ev where s1: "recv_handle scoreOf rttMs t op s = Some (s1, ev)" using Some by (cases y) simp
    have h: "step_ok w a b t (n + 1) s s1 ev" and i: "recv_inv w a b t (n + 1) s1"
      using recv_handle_ok [OF Cons.prems(1), of t op scoreOf rttMs] Cons.prems(2-4) x s1 by (auto simp: step_ok_def)
    obtain k s' evs where k: "k \<le> length ops" "recv_run scoreOf rttMs (take k ops) s1 = Some (s', evs)"
        "k < length ops \<longrightarrow> report_undefined (snd (ops ! k)) s' \<and> recv_run scoreOf rttMs ops s1 = None"
        "step_ok w a b (last (t # map fst (take k ops))) (n + 1 + k) s1 s' evs"
      using Cons.IH [OF i] Cons.prems(2-4) x by auto
    have "step_ok w a b (last (now # map fst (take (Suc k) (x # ops)))) (n + Suc k) s s' (ev @ evs)"
      using h k(4) x by (auto simp: step_ok_def)
    then show ?thesis using k(1-3) s1 x by (intro exI [of _ "Suc k"] exI [of _ s'] exI [of _ "ev @ evs"]) simp
  qed
qed

lemma sorted_le_last: "sorted (x # xs) \<Longrightarrow> y \<in> set (x # xs) \<Longrightarrow> y \<le> last (x # xs)"
  by (induction xs arbitrary: x y) (auto intro: order_trans)

text \<open>The state after a run of a new stream.\<close>

lemma recv_run_new:
  assumes "recv_params_ok pars" and srt: "sorted (startMs # map fst ops)" and clk: "recv_clock_ok (startMs, hi)" "last (startMs # map fst ops) \<le> hi"
    and len: "length ops < 2 ^ 32" and ops: "\<forall>(t, op) \<in> set ops. recv_op_ok op"
  obtains s0 k s ev where "RtpStreamRecv_new pars t startMs = Some s0" "k \<le> length ops"
    "recv_run scoreOf rttMs (take k ops) s0 = Some (s, ev)" "score (strm_score s0) = 10"
    "k < length ops \<longrightarrow> report_undefined (snd (ops ! k)) s \<and> recv_run scoreOf rttMs ops s0 = None"
    "step_ok (startMs, hi) (unat (par_spatialLayers pars)) (unat (par_temporalLayers pars)) (last (startMs # map fst (take k ops))) k s0 s ev"
proof -
  let ?w = "(startMs, hi)"
  have le: "t \<le> hi" if "t \<in> set (startMs # map fst ops)" for t using sorted_le_last [OF srt that] clk(2) by (rule order_trans)
  have "unat hi < 2 ^ 63" "unat startMs \<le> unat hi" using clk le [of startMs] by (simp_all add: word_le_nat_alt)
  then have "unat startMs + 5000 < 2 ^ 64" by simp
  with assms(1) obtain s0 where s0: "RtpStreamRecv_new pars t startMs = Some s0" "score (strm_score s0) = 10"
    "recv_inv ?w (unat (par_spatialLayers pars)) (unat (par_temporalLayers pars)) startMs 0 s0"
    by (rule recv_inv_new)
  have "recv_time_ok ?w t \<and> recv_op_ok op" if "(t, op) \<in> set ops" for t op
  proof -
    have "t \<in> set (map fst ops)" using that by force
    moreover from this have "startMs \<le> t" using srt by auto
    ultimately show ?thesis using that clk le [of t] ops by (auto simp: recv_time_ok_def)
  qed
  then have "\<forall>(t, op) \<in> set ops. recv_time_ok ?w t \<and> recv_op_ok op" by blast
  from recv_run_ok [OF s0(3) srt this, of scoreOf rttMs] len s0(1,2) show ?thesis using that by auto
qed


text \<open>A packet for the examples.\<close>

lemma recv_example_packet:
  obtains p :: "codec_handler rtp_packet" where "RtpPacket_Parse example_bytes 15 = Some (Some p)" "recv_packet_ok p"
proof -
  have l: "rtp_layout example_bytes 15 3 0" by code_simp
  show thesis
    using that RtpPacket_Parse_layout [where 'a = codec_handler, OF l] RtpPacket_ctor_wf [where 'a = codec_handler, OF l]
    by (auto simp: recv_packet_ok_def)
qed


subsection \<open>Deviations\<close>

text \<open>The retransmitted packets are meant to be reduced by the repaired packets that exceed the lost ones, but the difference is taken after
  \<open>repaired\<close> was overwritten and is zero.\<close>

lemma retransmitted_not_reduced:
  assumes "lost \<le> received" "lost < repaired" "repaired \<le> retransmitted"
  shows "interval_score scoreOf True received lost repaired retransmitted = Some (scoreOf received lost lost retransmitted)"
  using assms by (auto simp: interval_score_def Let_def)

text \<open>An interval in which packets were expected and none was received, e.g. because all were recovered by RTX, is scored by a formula that
  divides by the received packets.\<close>

lemma nothing_received_scored: "interval_score scoreOf True 0 lost repaired retransmitted = Some (scoreOf 0 0 0 retransmitted)"
  by (auto simp: interval_score_def Let_def word_neq_0_conv [symmetric])

text \<open>Two packets of a 90 kHz stream, sent and received at the same distance of about a ninetieth of a millisecond, on both sides of the wrap-around of
  \<^verbatim>\<open>rtpTimestamp * 1000\<close>: the transit time jumps by almost 48 seconds.\<close>

lemma transit_jumps: "(4294967 * 1000 div 90000 :: u32) = 47721" "(4294968 * 1000 div 90000 :: u32) = 0"
  by code_simp+

text \<open>When the clock passes an odd multiple of \<open>2 ^ 31\<close> milliseconds between two packets, the difference of the transit times is not an
  \<^verbatim>\<open>int\<close>.\<close>

lemma transit_overflow:
  assumes "par_clockRate (params s) = 90000" "transit s = 2 ^ 31 - 1"
  shows "CalculateJitter (2 ^ 31) 0 s = None"
  using assms by (simp add: CalculateJitter_def)

end
