(* ===== verification/RtpStreamRecv_Recovery.thy ===== *)
theory RtpStreamRecv_Recovery
  imports RtpStreamRecv_Runs
begin

text \<open>
  A lost packet is recovered: the number that the stream requested, sent again by the remote side as an RTX packet, is accepted.
\<close>

subsection \<open>The codecs keep the header\<close>

lemma VP9_ProcessRtpPacket_mem: "VP9_ProcessRtpPacket upcast p = Some q \<Longrightarrow> rtp_mem q = rtp_mem p"
  by (auto simp: VP9_ProcessRtpPacket_def split: bind_splits option.splits)

lemma H264_ProcessRtpPacket_mem: "H264_ProcessRtpPacket upcast p = Some q \<Longrightarrow> rtp_mem q = rtp_mem p"
  by (auto simp: H264_ProcessRtpPacket_def split: bind_splits option.splits)

lemma VP8_ProcessRtpPacket_header:
  assumes "VP8_ProcessRtpPacket upcast p = Some q" "12 \<le> payload p"
  shows "length (rtp_mem q) = length (rtp_mem p) \<and> (\<forall>i < 12. rtp_mem q ! i = rtp_mem p ! i)"
proof -
  have shift: "length (rtp_mem r) = length (rtp_mem p) \<and> (\<forall>i < 12. rtp_mem r ! i = rtp_mem p ! i) \<and> payload r = payload p"
    if "ShiftPayload 2 1 True p = Some r" for r
    using that assms(2) memmove_moved(2) memmove_nth(1) by (fastforce simp: ShiftPayload_def Let_def split: if_splits bind_splits)
  show ?thesis using assms by (auto simp: VP8_ProcessRtpPacket_def Set1Byte_def split: bind_splits option.splits if_splits dest!: shift [unfolded One_nat_def])
qed

lemma Tools_ProcessRtpPacket_header:
  assumes "Tools_ProcessRtpPacket t p = Some q" "12 \<le> payload p"
  shows "length (rtp_mem q) = length (rtp_mem p) \<and> (\<forall>i < 12. rtp_mem q ! i = rtp_mem p ! i)"
proof -
  consider "q = p" | "VP8_ProcessRtpPacket VP8_Handler p = Some q" | "VP9_ProcessRtpPacket VP9_Handler p = Some q"
    | "H264_ProcessRtpPacket H264_Handler p = Some q"
    using assms(1) by (cases "mime_ty t"; cases "mime_sub t") (auto simp: Tools_ProcessRtpPacket_def)
  then show ?thesis
    using VP8_ProcessRtpPacket_header [OF _ assms(2)] by cases (auto dest: VP9_ProcessRtpPacket_mem H264_ProcessRtpPacket_mem)
qed

lemma codec_level_header:
  assumes "codec_level p s = Some q" "rtp_wf p"
  shows "GetSequenceNumber q = GetSequenceNumber p" "GetTimestamp q = GetTimestamp p" "GetSsrc q = GetSsrc p"
proof -
  have "length (rtp_mem q) = length (rtp_mem p) \<and> (\<forall>i < 12. rtp_mem q ! i = rtp_mem p ! i)"
    using assms(1) rtp_wf_facts(1) [OF assms(2)] Tools_ProcessRtpPacket_header by (auto simp: codec_level_def split: bind_splits if_splits)
  then show "GetSequenceNumber q = GetSequenceNumber p" "GetTimestamp q = GetTimestamp p" "GetSsrc q = GetSsrc p"
    unfolding GetSequenceNumber_def GetTimestamp_def GetSsrc_def by (auto intro!: byte2.get_cong byte4.get_cong)
qed

subsection \<open>Recovery\<close>

lemma UpdateSeq_late:
  assumes "unat (maxSeq q - x) < 1500"
  shows "fst (UpdateSeq t x ts q)"
proof (cases "x = maxSeq q")
  case True
  then show ?thesis by (simp add: UpdateSeq_def)
next
  case False
  then have "unat (x - maxSeq q) + unat (maxSeq q - x) = 65536" using unat_diff_swap [of x "maxSeq q"] by simp
  then have "64036 < unat (x - maxSeq q)" using assms by simp
  then show ?thesis by (auto simp: UpdateSeq_def Let_def word_less_nat_alt word_le_nat_alt unat_ucast_le)
qed

lemma low7: "x < 128 \<Longrightarrow> x AND 0x7F = (x :: u8)"
proof -
  assume "x < 128"
  then have "unat (take_bit 7 x) = unat x" by (simp add: unsigned_take_bit_eq take_bit_nat_eq_self word_less_nat_alt)
  then have "take_bit 7 x = x" unfolding word_unat_eq_iff .
  then show ?thesis by (simp add: take_bit_eq_mask mask_eq_exp_minus_1)
qed

lemma pending_behind:
  assumes inv: "ng_inv ng" and x: "x \<in> fst ` set (nackList ng)"
  shows "ReceivePacket now x kf rec ng = Some (True, [], ng\<lparr>nackList := filter (\<lambda>e. fst e \<noteq> x) (nackList ng)\<rparr>)"
proof -
  have "started ng" using inv x by (auto simp: ng_inv_def)
  moreover have "0 < unat (lastSeq ng - x)" "unat (lastSeq ng - x) \<le> 10000" using inv x by (auto simp: ng_inv_def nl_ok_def)
  then have "IsSeqLowerThan x (lastSeq ng)" by (simp add: IsSeqLowerThan_swap IsSeqHigherThan_unat)
  ultimately show ?thesis using ReceivePacket_behind [OF inv, of x now kf rec] x by simp
qed

lemma reached_inv:
  assumes "recv_params_ok pars" "recv_ops_ok startMs (ops @ [(t, op)])" "RtpStreamRecv_new pars m startMs = Some s0" "recv_run scoreOf rttMs ops s0 = Some (s, evs)"
  shows "recv_time_ok (startMs, t) t \<and>
    recv_inv (startMs, t) (unat (par_spatialLayers pars)) (unat (par_temporalLayers pars)) t (length ops) s"
proof -
  have ok: "sorted (startMs # map fst ops)" "recv_clock_ok (startMs, t)" "length ops < 2 ^ 32" "\<forall>(t, op) \<in> set ops. recv_op_ok op"
      "\<forall>t' \<in> set (startMs # map fst ops). t' \<le> t"
    using assms(2) by (auto simp: recv_ops_ok_def sorted_append)
  have last: "last (startMs # map fst ops) \<le> t" using ok(5) last_in_set [of "startMs # map fst ops"] by blast
  obtain s0' k s' ev where r: "RtpStreamRecv_new pars m startMs = Some s0'" "k \<le> length ops" "recv_run scoreOf rttMs (take k ops) s0' = Some (s', ev)"
    "k < length ops \<longrightarrow> report_undefined (snd (ops ! k)) s' \<and> recv_run scoreOf rttMs ops s0' = None"
    "step_ok (startMs, t) (unat (par_spatialLayers pars)) (unat (par_temporalLayers pars)) (last (startMs # map fst (take k ops))) k s0' s' ev"
    by (rule recv_run_new [OF assms(1) ok(1,2) last ok(3,4), where t = m and scoreOf = scoreOf and rttMs = rttMs])
  then have "k = length ops" "s' = s" using assms(3,4) by auto
  with r(5) have "recv_inv (startMs, t) (unat (par_spatialLayers pars)) (unat (par_temporalLayers pars)) (last (startMs # map fst ops)) (length ops) s"
    by (simp add: step_ok_def)
  from recv_inv_later [OF this last] ok(2,5) show ?thesis by (simp add: recv_time_ok_def)
qed

text \<open>C6: A requested packet that the sender encodes for RTX and sends again is recovered. In every state that a stream with NACK and RTX reaches by a
  run (on a clock as for the safety of runs), if the number of a packet is pending and less than 1500 behind the highest one, the sender encodes the packet with
  the RTX payload type (below 128) and SSRC of the stream and has room for the two bytes, and the RTX stream accepts the number of the RTX packet,
  then receiving it succeeds: it is decoded to a packet with the number, timestamp, SSRC and payload of the lost one and
  passed to the codec, the number is not pending any more and no other number is forgotten, one repaired packet is counted and the stream is active.\<close>

theorem lost_packet_recovered:
  assumes run: "recv_params_ok pars" "recv_ops_ok startMs (ops @ [(t, RecvRtx q)])" "RtpStreamRecv_new pars m startMs = Some s0"
      "recv_run scoreOf rttMs ops s0 = Some (s, evs)"
    and ng: "nackGenerator s = Some ng" "x \<in> fst ` set (nackList ng)" "unat (maxSeq (strm_seq s) - x) < 1500"
    and rtx: "rtxStream s = Some r" "par_rtxPayloadType (params s) < 128" "fst (RtxStream_ReceivePacket t rseq ts r)"
    and p: "rtp_wf p" "payload p + payloadLength p + 2 < length (rtp_mem p)" "payloadDescriptorHandler p = None"
      "GetSequenceNumber p = Some x" "GetTimestamp p = Some ts"
    and q: "RtxEncode (par_rtxPayloadType (params s)) (par_rtxSsrc (params s)) rseq p = Some q"
  shows "\<exists>d p' s' ev ng'. ReceiveRtxPacket t q s = Some (True, p', s', ev) \<and>
    RtxDecode (par_payloadType (params s)) (par_ssrc (params s)) q = Some (True, d) \<and> payload_bytes d = payload_bytes p \<and> codec_level d s = Some p' \<and>
    GetSequenceNumber p' = Some x \<and> GetTimestamp p' = Some ts \<and> GetSsrc p' = Some (par_ssrc (params s)) \<and>
    nackGenerator s' = Some ng' \<and> fst ` set (nackList ng') = fst ` set (nackList ng) - {x} \<and>
    packetsRepaired s' = packetsRepaired s + 1 \<and> \<not> inactive s'"
proof -
  let ?a = "unat (par_spatialLayers pars)" and ?b = "unat (par_temporalLayers pars)" and ?l = "length ops" and ?w = "(startMs, t)"
  have t: "recv_time_ok ?w t" and inv: "recv_inv ?w ?a ?b t ?l s"
    using reached_inv [OF run] by simp_all
  have use: "par_useNack (params s)" using inv ng(1) by (simp add: recv_inv_defs)
  let ?pt = "par_payloadType (params s)" and ?ssrc = "par_ssrc (params s)"
  obtain d where q': "rtp_wf q" "rtp_size q = payload p + payloadLength p + 2" "length (rtp_mem q) = length (rtp_mem p)" "payloadDescriptorHandler q = None"
      "GetPayloadType q = Some (par_rtxPayloadType (params s))" "GetSsrc q = Some (par_rtxSsrc (params s))" "GetSequenceNumber q = Some rseq" "GetTimestamp q = Some ts"
    and d: "RtxDecode ?pt ?ssrc q = Some (True, d)" "recv_packet_ok d" "GetSsrc d = Some ?ssrc" "GetSequenceNumber d = Some x" "GetTimestamp d = Some ts"
      "payload_bytes d = payload_bytes p"
    using rtx_encode_decode [OF p(1), of "par_rtxPayloadType (params s)" "par_rtxSsrc (params s)" rseq ?pt ?ssrc] p q low7 [OF rtx(2)]
    by (auto simp: recv_packet_ok_def)
  obtain r' where r': "RtxStream_ReceivePacket t rseq ts r = (True, r')" using rtx(3) by (cases "RtxStream_ReceivePacket t rseq ts r") auto
  obtain sq where sq: "UpdateSeq t x ts (strm_seq s) = (True, sq)" using UpdateSeq_late [OF ng(3)] by (metis prod.collapse)
  obtain p' where p': "codec_level d s = Some p'" "rtp_wf p'" using d(2) by (rule codec_level_ok)
  have dwf: "rtp_wf d" using d(2) by (simp add: recv_packet_ok_def)
  note h = codec_level_header [OF p'(1) dwf]
  let ?ng = "ng\<lparr>nackList := filter (\<lambda>e. fst e \<noteq> x) (nackList ng)\<rparr>"
  have ngi: "ng_inv ng" using inv ng(1) by (simp add: recv_inv_defs)
  have rp: "ReceivePacket t x kf True ng = Some (True, [], ?ng)" for kf by (rule pending_behind [OF ngi ng(2)])
  have ngi': "ng_inv ?ng" using ReceivePacket_inv [OF ngi, of t x False True] rp by auto
  let ?s2 = "PacketRetransmitted (s\<lparr>rtxStream := Some r', strm_seq := sq\<rparr>)"
  let ?s3 = "PacketRepaired (?s2\<lparr>nackGenerator := Some ?ng\<rparr>)"
  have "recv_inv ?w ?a ?b t (?l + 1) ?s3" using inv ngi' use by (auto simp: recv_inv_defs PacketRepaired_def PacketRetransmitted_def)
  then obtain cs where cs: "count_layers t p' ?s3 = Some (?s3\<lparr>layerCounters := cs\<rparr>)" "recv_inv ?w ?a ?b t (?l + 1) (?s3\<lparr>layerCounters := cs\<rparr>)"
    using t by (rule count_layers_ok)
  obtain s4 ev s5 where s5: "not_inactive t (?s3\<lparr>layerCounters := cs\<rparr>) = (s4, ev)" "restart_timer t s4 = Some s5" "\<not> inactive s5"
    by (rule not_inactive_ok [OF cs(2) t])
  have k: "nackGenerator s5 = Some ?ng" "packetsRepaired s5 = packetsRepaired s + 1"
    using s5(1,2) by (auto simp: not_inactive_def restart_timer_def PacketRepaired_def PacketRetransmitted_def Let_def split: bind_splits if_splits prod.splits)
  have c: "codec_level d (s\<lparr>rtxStream := Some r', strm_seq := sq\<rparr>) = Some p'" using p'(1) by (simp add: codec_level_def cong: if_cong)
  have n: "pass_to_nack t True p' ?s2 = Some (True, ?s2\<lparr>nackGenerator := Some ?ng\<rparr>, [])"
    using ng(1) h(1) d(4) rp by (simp add: pass_to_nack_def PacketRetransmitted_def)
  have "ReceiveRtxPacket t q s = Some (True, p', s5, ev)"
    using use q' rtx(1) r' d(1,4,5) sq c n cs(1) s5(1,2) by (simp add: ReceiveRtxPacket_def)
  moreover have "fst ` set (nackList ?ng) = fst ` set (nackList ng) - {x}" by auto
  ultimately show ?thesis using d(1,3-6) p'(1) h k s5(3) by (intro exI [of _ d] exI [of _ p'] exI [of _ s5] exI [of _ ev] exI [of _ ?ng]) simp
qed

subsection \<open>An example\<close>

lemma on_nack_events_same: "on_nack_events nev s = Some (s', ev) \<Longrightarrow> same_but_stats s s'"
proof (induction nev arbitrary: s ev)
  case Nil
  then show ?case by (simp add: same_but_statsI)
next
  case (Cons e nev)
  from Cons.prems obtain s1 ev1 ev2 where
    1: "(case e of NackRequired seqs \<Rightarrow> OnNackGeneratorNackRequired seqs s | KeyFrameRequired \<Rightarrow> Some (RequestKeyFrame s)) = Some (s1, ev1)"
    and 2: "on_nack_events nev s1 = Some (s', ev2)" by (auto split: bind_splits)
  have "same_but_stats s s1"
  proof (cases e)
    case (NackRequired seqs)
    with 1 show ?thesis by (auto simp: OnNackGeneratorNackRequired_def Let_def same_but_statsI split: if_splits)
  next
    case KeyFrameRequired
    with 1 show ?thesis using RequestKeyFrame_ok [of s] by simp
  qed
  then show ?case using Cons.IH [OF 2] by (rule same_but_stats_trans)
qed

text \<open>What an accepted audio packet changes.\<close>

lemma Recv_ReceivePacket_view:
  assumes r: "Recv_ReceivePacket t p s = Some (ok, p', s', ev)" and g: "GetSequenceNumber p = Some seq" "GetTimestamp p = Some ts"
    and v: "seq_ReceivePacket t seq ts (strm_seq s) = (True, sq)"
    and use: "par_useNack (params s)" "nackGenerator s = Some ng" "mime_ty (rcv_mime s) = MIME_AUDIO" "payloadDescriptorHandler p = None"
    and n: "ReceivePacket t seq False False ng = Some (nacked, nev, ng')"
  shows "strm_seq s' = sq \<and> params s' = params s \<and> rtxStream s' = rtxStream s \<and> rcv_mime s' = rcv_mime s \<and> nackGenerator s' = Some ng'"
proof -
  let ?s = "s\<lparr>strm_seq := sq\<rparr>"
  from r g v obtain q where q: "codec_level p ?s = Some q" by (auto simp: Recv_ReceivePacket_def Let_def split: bind_splits)
  then have "q = p" using use(3) by (auto simp: codec_level_def Tools_ProcessRtpPacket_def split: bind_splits if_splits)
  then have c: "codec_level p ?s = Some p" using q by simp
  have k: "IsKeyFrame codec_IsKeyFrame p = False" using use(4) by (simp add: IsKeyFrame_def)
  from r g v c use k n obtain s1 ev1 where e: "on_nack_events nev (?s\<lparr>nackGenerator := Some ng'\<rparr>) = Some (s1, ev1)"
    by (auto simp: Recv_ReceivePacket_def pass_to_nack_def Let_def split: bind_splits)
  obtain x y z d e' where s1: "s1 = ?s\<lparr>nackGenerator := Some ng'\<rparr>\<lparr>nackCount := x, nackPacketCount := y, pliCount := z, firCount := d, firSeqNumber := e'\<rparr>"
    using on_nack_events_same [OF e] unfolding same_but_stats_def by blast
  show ?thesis using r g v c use k n e unfolding s1
    by (auto simp: Recv_ReceivePacket_def pass_to_nack_def CalculateJitter_def count_layers_def not_inactive_def restart_timer_def
        PacketRepaired_def PacketRetransmitted_def Let_def split: bind_splits if_splits prod.splits)
qed

definition recovery_packet :: "u8 \<Rightarrow> codec_handler rtp_packet" where
  "recovery_packet n = the (the (RtpPacket_Parse [0x80, 100, 0, n, 0, 0, 0, 1, 0, 0, 0, 9, 1, 2, 3, 0, 0, 0] 15))"

definition recovery_ops :: "(u64 \<times> recv_op) list" where
  "recovery_ops = [(6000, RecvSetRtx 101 77), (6001, RecvPacket (recovery_packet 5)), (6002, RecvPacket (recovery_packet 9))]"

lemma recovery_packet:
  "rtp_wf (recovery_packet n)" "recv_packet_ok (recovery_packet n)" "payload (recovery_packet n) + payloadLength (recovery_packet n) + 2 < length (rtp_mem (recovery_packet n))"
  "payloadDescriptorHandler (recovery_packet n) = None" "GetSequenceNumber (recovery_packet n) = Some (ucast n)" "GetTimestamp (recovery_packet n) = Some 1"
proof -
  let ?m = "[0x80, 100, 0, n, 0, 0, 0, 1, 0, 0, 0, 9, 1, 2, 3, 0, 0, 0] :: bytes"
  have l: "rtp_layout ?m 15 3 0" by code_simp
  obtain p :: "codec_handler rtp_packet" where p: "RtpPacket_Parse ?m 15 = Some (Some p)" "rtp_wf p" "rtp_mem p = ?m" "rtp_size p = 15"
      "payloadLength p = 3" "payloadPadding p = 0" "payloadDescriptorHandler p = None"
    using RtpPacket_Parse_layout [where 'a = codec_handler, OF l] RtpPacket_ctor_wf [where 'a = codec_handler, OF l] by auto
  have e: "recovery_packet n = p" using p(1) by (simp add: recovery_packet_def)
  have "payload p + 3 = 15" using rtp_wf_facts(2) [OF p(2)] p by simp
  moreover have "Get2Bytes ?m 2 = Some (ucast n)" "Get4Bytes ?m 4 = Some 1" by (simp_all add: Get2Bytes_def Get4Bytes_def Get1Byte_def)
  ultimately show "rtp_wf (recovery_packet n)" "recv_packet_ok (recovery_packet n)" "payload (recovery_packet n) + payloadLength (recovery_packet n) + 2 < length (rtp_mem (recovery_packet n))"
    "payloadDescriptorHandler (recovery_packet n) = None" "GetSequenceNumber (recovery_packet n) = Some (ucast n)" "GetTimestamp (recovery_packet n) = Some 1"
    using p by (simp_all add: e recv_packet_ok_def GetSequenceNumber_def GetTimestamp_def)
qed

text \<open>Packets 5 and 9 arrive: 6, 7 and 8 are pending.\<close>

lemma recovery_run:
  assumes s0: "RtpStreamRecv_new example_params \<lparr>mime_ty = MIME_AUDIO, mime_sub = SUB_OPUS\<rparr> 6000 = Some s0"
    and run: "recv_run scoreOf rttMs recovery_ops s0 = Some (s, ev)"
  shows "\<exists>ng. nackGenerator s = Some ng \<and> map fst (nackList ng) = [6, 7, 8] \<and> maxSeq (strm_seq s) = 9 \<and> rtxStream s = Some (RtxStream_new 77) \<and>
    par_rtxPayloadType (params s) = 101 \<and> par_rtxSsrc (params s) = 77"
proof -
  let ?s1 = "SetRtx 101 77 s0"
  have 0: "params s0 = example_params" "rcv_mime s0 = \<lparr>mime_ty = MIME_AUDIO, mime_sub = SUB_OPUS\<rparr>" "nackGenerator s0 = Some NackGenerator_new" "strm_seq s0 = rtp_seq_new"
    using s0 by (auto simp: RtpStreamRecv_new_def example_params_def split: bind_splits)
  obtain ok2 p2 s2 ev2 ok3 p3 ev3 where r2: "Recv_ReceivePacket 6001 (recovery_packet 5) ?s1 = Some (ok2, p2, s2, ev2)"
    and r3: "Recv_ReceivePacket 6002 (recovery_packet 9) s2 = Some (ok3, p3, s, ev3)"
    using run by (auto simp: recovery_ops_def split: bind_splits)
  let ?q2 = "snd (seq_ReceivePacket 6001 5 1 rtp_seq_new)" and ?q3 = "snd (seq_ReceivePacket 6002 9 1 (snd (seq_ReceivePacket 6001 5 1 rtp_seq_new)))"
  let ?n2 = "the (ReceivePacket 6001 5 False False NackGenerator_new)"
  let ?n3 = "the (ReceivePacket 6002 9 False False (snd (snd ?n2)))"
  have q: "seq_ReceivePacket 6001 5 1 rtp_seq_new = (True, ?q2)" "seq_ReceivePacket 6002 9 1 ?q2 = (True, ?q3)" "maxSeq ?q3 = 9" by code_simp+
  have n: "ReceivePacket 6001 5 False False NackGenerator_new = Some (fst ?n2, fst (snd ?n2), snd (snd ?n2))"
    "ReceivePacket 6002 9 False False (snd (snd ?n2)) = Some (fst ?n3, fst (snd ?n3), snd (snd ?n3))" "map fst (nackList (snd (snd ?n3))) = [6, 7, 8]" by code_simp+
  have v2: "strm_seq s2 = ?q2 \<and> params s2 = params ?s1 \<and> rtxStream s2 = rtxStream ?s1 \<and> rcv_mime s2 = rcv_mime ?s1 \<and> nackGenerator s2 = Some (snd (snd ?n2))"
    by (rule Recv_ReceivePacket_view [OF r2 _ recovery_packet(6) _ _ _ _ recovery_packet(4) n(1)])
      (use 0 q(1) recovery_packet(5) [of 5] in \<open>simp_all add: SetRtx_def example_params_def\<close>)
  have v3: "strm_seq s = ?q3 \<and> params s = params s2 \<and> rtxStream s = rtxStream s2 \<and> rcv_mime s = rcv_mime s2 \<and> nackGenerator s = Some (snd (snd ?n3))"
    by (rule Recv_ReceivePacket_view [OF r3 _ recovery_packet(6) _ _ _ _ recovery_packet(4) n(2)])
      (use 0 v2 q(2) recovery_packet(5) [of 9] in \<open>simp_all add: SetRtx_def example_params_def\<close>)
  from v2 v3 q(3) n(3) show ?thesis by (simp add: SetRtx_def)
qed

theorem lost_packet_recovered_witness:
  "\<exists>s0 s ev q p' s' ev' ng. RtpStreamRecv_new example_params \<lparr>mime_ty = MIME_AUDIO, mime_sub = SUB_OPUS\<rparr> 6000 = Some s0 \<and>
    recv_run (\<lambda>_ _ _ _. 7) (\<lambda>x. x) recovery_ops s0 = Some (s, ev) \<and> RtxEncode 101 77 1 (recovery_packet 7) = Some q \<and>
    ReceiveRtxPacket 6100 q s = Some (True, p', s', ev') \<and> GetSequenceNumber p' = Some 7 \<and> nackGenerator s' = Some ng \<and> fst ` set (nackList ng) = {6, 8}"
proof -
  let ?p = "recovery_packet 7" and ?m = "\<lparr>mime_ty = MIME_AUDIO, mime_sub = SUB_OPUS\<rparr>"
  obtain q where q: "RtxEncode 101 77 1 ?p = Some q" "rtp_wf q" "rtp_size q = payload ?p + payloadLength ?p + 2" "length (rtp_mem q) = length (rtp_mem ?p)" "payloadDescriptorHandler q = None"
    using rtx_encode_decode [OF recovery_packet(1) less_imp_le [OF recovery_packet(3)], of 101 77 1] recovery_packet(4) by fastforce
  have "recv_packet_ok q" using q(2-5) recovery_packet(3) [of 7] by (simp add: recv_packet_ok_def)
  then have ok: "recv_params_ok example_params" "recv_ops_ok 6000 (recovery_ops @ [(6100, RecvRtx q)])"
    using recovery_packet(2) by (simp_all add: recv_params_ok_def example_params_def recv_ops_ok_def recovery_ops_def)
  have ok': "sorted (6000 # map fst recovery_ops)" "recv_clock_ok (6000, 6100)" "last (6000 # map fst recovery_ops) \<le> 6100" "length recovery_ops < 2 ^ 32"
      "\<forall>(t, op) \<in> set recovery_ops. recv_op_ok op"
    using recovery_packet(2) by (simp_all add: recovery_ops_def)
  have no: "\<not> report_undefined (snd (recovery_ops ! k)) s" if "k < length recovery_ops" for k s
    using that by (auto simp: recovery_ops_def less_Suc_eq numeral_3_eq_3)
  obtain s0 k s ev where k: "RtpStreamRecv_new example_params ?m 6000 = Some s0" "k \<le> length recovery_ops"
    "recv_run (\<lambda>_ _ _ _. 7) (\<lambda>x. x) (take k recovery_ops) s0 = Some (s, ev)"
    "k < length recovery_ops \<longrightarrow> report_undefined (snd (recovery_ops ! k)) s \<and> recv_run (\<lambda>_ _ _ _. 7) (\<lambda>x. x) recovery_ops s0 = None"
    by (rule recv_run_new [OF ok(1) ok'])
  then have "k = length recovery_ops" using no [of k s] by linarith
  then have run: "RtpStreamRecv_new example_params ?m 6000 = Some s0" "recv_run (\<lambda>_ _ _ _. 7) (\<lambda>x. x) recovery_ops s0 = Some (s, ev)" using k by simp_all
  obtain ng where v: "nackGenerator s = Some ng" "map fst (nackList ng) = [6, 7, 8]" "maxSeq (strm_seq s) = 9"
    "rtxStream s = Some (RtxStream_new 77)" "par_rtxPayloadType (params s) = 101" "par_rtxSsrc (params s) = 77"
    using recovery_run [OF run] by (elim exE conjE) (rule that)
  have pend: "fst ` set (nackList ng) = {6, 7, 8}" by (simp only: list.set_map [symmetric] v(2)) simp
  have seq: "GetSequenceNumber ?p = Some 7" using recovery_packet(5) [of 7] by simp
  have rtx: "fst (RtxStream_ReceivePacket 6100 1 1 (RtxStream_new 77))" by code_simp
  from lost_packet_recovered [OF ok run v(1) _ _ v(4) _ rtx recovery_packet(1,3,4) seq recovery_packet(6)] v pend q(1)
  obtain p' s' ev' ng' where r: "ReceiveRtxPacket 6100 q s = Some (True, p', s', ev')" "GetSequenceNumber p' = Some 7" "nackGenerator s' = Some ng'"
    "fst ` set (nackList ng') = fst ` set (nackList ng) - {7}" by auto
  have "{6, 7, 8} - {7} = {6, 8 :: u16}" by auto
  with r(4) have "fst ` set (nackList ng') = {6, 8}" by (simp only: pend)
  with run q(1) r show ?thesis by blast
qed

end
