(* ===== verification/Spec2Isabelle.thy ===== *)
theory Spec2Isabelle
  imports Rtcp_Compound NackGenerator RtpPacket_Extensions KeyFrameRequestManager RateCalculator RtpListener IceServer RtpStreamSend
    Codecs_Tools RtpStreamRecv_Recovery
begin

text \<open>
  A verification of the mediasoup worker, the C++ process of a selective forwarding unit for WebRTC (sources
  under \<^verbatim>\<open>src/\<close> and \<^verbatim>\<open>include/\<close>, unless noted).

  \<^bold>\<open>The program.\<close> A transport receives datagrams. STUN messages go to its ICE server, which authenticates the
  peer and selects the tuple (socket and remote address) of the transport. RTP packets are parsed, looked up in
  the table of producers of the transport (\<open>RtpListener\<close>) and handed to the receiving stream of the producer,
  whose NACK generator asks for lost packets and whose key frame request manager asks for key frames. Consumers
  rewrite sequence numbers (\<open>SeqManager\<close>) and header extensions, or encode a packet for retransmission (RTX).
  RTCP packets are parsed, dispatched and serialized by one class per packet type; transport-wide feedback
  reports when each packet arrived. Rates are measured over a sliding window. Timers are libuv timers.

  \<^bold>\<open>Conventions.\<close> A \<^verbatim>\<open>uintN_t\<close> is an \<open>N word\<close> and wraps; a size or index that cannot overflow is a \<open>nat\<close>; a
  64-bit counter whose differences matter is a \<open>nat\<close> with the wrap-around written out. A buffer is a list of
  bytes. The outer \<open>option\<close> of a result is \<open>None\<close> exactly for runs that leave a buffer, fail an assertion, use
  an object that is gone, or do not end; a \<^verbatim>\<open>nullptr\<close> or a refused input is an inner \<open>None\<close>. Calls of a
  listener are returned as lists of events, and the time is an argument. A loop that may not end is a
  \<open>partial_function (option)\<close>, so that a theorem that its result is \<open>Some\<close> shows that it ends. There is no
  fuel in the development.

  \<^bold>\<open>Theories.\<close>
  \<^item> \<open>Prelude\<close>, \<open>Circular\<close>: types, collections of facts, lists, maps, padding; serial-number order on words, as a
    locale that is interpreted for sequence numbers and timestamps.
  \<^item> \<open>Bytes\<close>: \<^verbatim>\<open>Utils::Byte\<close>, \<^verbatim>\<open>Bits\<close>, \<^verbatim>\<open>Time\<close>, \<^verbatim>\<open>GetRandomUInt\<close> of \<^verbatim>\<open>Utils.hpp\<close>. The locale \<open>wire_field\<close> is the
    contract of the accessors and is interpreted for each width. Milliseconds survive the NTP format.
  \<^item> \<open>Crypto\<close>: \<^verbatim>\<open>GetCRC32\<close> with its table, equal to the bit-serial register, and the checks of \<^verbatim>\<open>GetHmacSha1\<close>.
  \<^item> \<open>SeqManager\<close>: \<^verbatim>\<open>SeqManager.cpp\<close>; the comparisons, what a dropped number does to later outputs, and that an
    in-order stream leaves without gaps.
  \<^item> \<open>Timer\<close>: \<^verbatim>\<open>handles/Timer.cpp\<close> over the libuv functions it calls (\<^verbatim>\<open>deps/libuv/libuv/src/timer.c\<close>).
  \<^item> \<open>NackGenerator\<close>: \<^verbatim>\<open>NackGenerator.cpp\<close>; bounds and order of its lists in every run, which packets are requested
    and when requests end.
  \<^item> \<open>KeyFrameRequestManager\<close>: \<^verbatim>\<open>KeyFrameRequestManager.cpp\<close>; its timers are armed exactly while an entry exists, no
    assertion fails, requests keep their distance and a needed key frame is requested.
  \<^item> \<open>RateCalculator\<close>: \<^verbatim>\<open>RateCalculator.cpp\<close>; the ring of items implements a queue of the updates in the window.
  \<^item> \<open>RtpPacket\<close>, \<open>RtpPacket_Extensions\<close>: \<^verbatim>\<open>RtpPacket.cpp\<close> and \<^verbatim>\<open>RtpPacket.hpp\<close>; parsing stays inside the buffer and
    gives a well-formed packet, header extensions are rewritten without touching the payload, packets are cloned,
    shifted and encoded for RTX and back.
  \<^item> \<open>RtpListener\<close>: \<^verbatim>\<open>RtpListener.cpp\<close> and \<^verbatim>\<open>SctpListener.cpp\<close>; adding a producer is atomic and lookups give live
    producers.
  \<^item> \<open>Rtcp_Packet\<close>, \<open>Rtcp_Feedback\<close>, \<open>Rtcp_Items\<close>, \<open>Rtcp_Reports\<close>, \<open>Rtcp_Ps\<close>, \<open>Rtcp_TransportCC\<close>, \<open>Rtcp_Compound\<close>:
    everything under \<^verbatim>\<open>RTC/RTCP\<close>. Parsing is memory safe, what is serialized is parsed back, compound packets
    have the size they announce, and the feedback a receiver reads is the log of the packets that arrived.
  \<^item> \<open>StunPacket\<close>, \<open>StunPacket_Roundtrip\<close>: \<^verbatim>\<open>StunPacket.cpp\<close>; parsing below 64 KiB ends inside the buffer, a request
    is authentic exactly when name and digest are right, serialized messages are parsed back and carry the mapped address.
  \<^item> \<open>IceServer\<close>: \<^verbatim>\<open>IceServer.cpp\<close> and \<^verbatim>\<open>TransportTuple.hpp\<close>; the invariant of the state machine over all runs, the
    view of the listener, and who may change the tuples.
  \<^item> \<open>RtpStream\<close>: \<^verbatim>\<open>RtpStream.cpp\<close> and \<^verbatim>\<open>RtxStream.cpp\<close>; the 16-bit sequence numbers follow the indices of the
    sender, receiver reports tell the loss, the score is a weighted average.
  \<^item> \<open>RtpStreamSend\<close>: \<^verbatim>\<open>RtpStreamSend.cpp\<close>; the invariant of the retransmission buffer in every run, and that a NACK is answered
    with exactly the stored packets that qualify, which decode to the packets that were sent.
  \<^item> \<open>Codecs\<close>, \<open>Codecs_VP8\<close>, \<open>Codecs_VP9\<close>, \<open>Codecs_H264\<close>, \<open>Codecs_Tools\<close>: everything under \<^verbatim>\<open>RTC/Codecs\<close>. The payload descriptors of the
    video codecs are parsed inside the payload; a VP8 stream of which layers are dropped leaves with consecutive picture ids; the layers that
    are sent move exactly as targets, key frames, switching points and frame ends say; contexts and handlers of a stream are of the same codec and the payload is restored after use.

  \<^item> \<open>RtpStreamRecv\<close>, \<open>RtpStreamRecv_Runs\<close>, \<open>RtpStreamRecv_Recovery\<close>: \<^verbatim>\<open>RtpStreamRecv.cpp\<close>; NACK packets request exactly the numbers the
    generator asks for, no operation of a run fails, the listener can follow the score, and a lost packet that is sent again by RTX is recovered.

  \<^bold>\<open>Parameters.\<close> HMAC-SHA1 (OpenSSL) is an argument of the definitions that compute it; the theorems use only that
  digests have 20 bytes. The payload descriptor handler of a codec is a type parameter of the RTP packet, with the
  function that encodes or restores the payload as an argument; \<open>Codecs_Tools\<close> instantiates both. The score of an interval, a floating-point formula
  with \<^verbatim>\<open>std::pow\<close>, is an argument of the stream operations that use it, like the conversion of a round trip time to milliseconds.

  \<^bold>\<open>Bounds.\<close> The parsers of datagrams are shown for buffers below 64 KiB where a 16-bit position is involved (STUN, RTP);
  a UDP datagram or a framed TCP packet is never larger. Runs of a received stream start when the clock has counted the longest rate
  window (six seconds) and last less than \<open>2 ^ 31 - 2 ^ 23\<close> milliseconds (24 days), during which the clock does not pass an odd multiple of
  \<open>2 ^ 31\<close>, where the \<^verbatim>\<open>int\<close> of the jitter computation overflows; they end at a receiver report whose loss statistics
  overflow, and leave out the bit rate getters, which only discard old items of the rate counters. The streams of the \<open>SeqManager\<close> have any length, but no
  two dropped numbers half the number space apart, where the code leaves a gap; the VP8 streams end before their picture id wraps around, where the code stops
  filtering; a NACK is answered exactly as long as the ages of the requested packets do not overflow 32 bits when multiplied by 1000.

  \<^bold>\<open>Not modelled.\<close> The JSON interface, the sockets and the event loop; DTLS, SRTP and SCTP, which are callbacks
  around OpenSSL, libsrtp and usrsctp; the congestion controllers around libwebrtc and the estimators in floating
  point; the wiring in transports, routers, producers and consumers. These are listed in the manifest with their
  sources.
\<close>

end
